(* ===== verification/Prelude.thy ===== *)
theory Prelude
  imports Main "HOL-Library.Word"
begin

text \<open>
  Shared vocabulary of the development: the widths of the C integer types of
  \<^verbatim>\<open>rtdef.h\<close>, the kernel's error codes, the alignment macros, and the generic
  facts on lists, words and function updates that the component theories use.
\<close>

unbundle bit_operations_syntax

section \<open>Machine types of rtdef.h\<close>

type_synonym rt_uint8_t = "8 word"
type_synonym rt_uint16_t = "16 word"
type_synonym rt_int16_t = "16 word"
type_synonym rt_uint32_t = "32 word"
type_synonym rt_int32_t = "32 word"
type_synonym rt_size_t = "32 word"
type_synonym rt_tick_t = "32 word"

text \<open>An address on the 32-bit target, used as the identity of an object.\<close>

type_synonym addr = nat

text \<open>Kernel status codes are small signed integers; an error is returned negated.\<close>

type_synonym rt_err_t = int

definition RT_EOK :: rt_err_t where "RT_EOK = 0"
definition RT_ERROR :: rt_err_t where "RT_ERROR = 1"
definition RT_ETIMEOUT :: rt_err_t where "RT_ETIMEOUT = 2"
definition RT_EFULL :: rt_err_t where "RT_EFULL = 3"
definition RT_EEMPTY :: rt_err_t where "RT_EEMPTY = 4"
definition RT_ENOMEM :: rt_err_t where "RT_ENOMEM = 5"
definition RT_ENOSYS :: rt_err_t where "RT_ENOSYS = 6"
definition RT_EBUSY :: rt_err_t where "RT_EBUSY = 7"
definition RT_EIO :: rt_err_t where "RT_EIO = 8"
definition RT_EINTR :: rt_err_t where "RT_EINTR = 9"
definition RT_EINVAL :: rt_err_t where "RT_EINVAL = 10"

definition RT_TICK_MAX :: rt_tick_t where "RT_TICK_MAX = 0xffffffff"

definition RT_ALIGN_SIZE :: rt_uint32_t where "RT_ALIGN_SIZE = 4"

definition RT_ALIGN :: "rt_size_t \<Rightarrow> rt_size_t \<Rightarrow> rt_size_t" where
  "RT_ALIGN sz align = (sz + align - 1) AND NOT (align - 1)"

definition RT_ALIGN_DOWN :: "rt_size_t \<Rightarrow> rt_size_t \<Rightarrow> rt_size_t" where
  "RT_ALIGN_DOWN sz align = sz AND NOT (align - 1)"

section \<open>Collections\<close>

named_theorems rt_err_defs "numeric values of the status codes"
named_theorems rt_flag_defs "numeric values of flag and mask constants"

lemmas [rt_err_defs] = RT_EOK_def RT_ERROR_def RT_ETIMEOUT_def RT_EFULL_def RT_EEMPTY_def
  RT_ENOMEM_def RT_ENOSYS_def RT_EBUSY_def RT_EIO_def RT_EINTR_def RT_EINVAL_def

section \<open>Bit masks\<close>

lemma mask_3_bits: "(7 :: 'a::len word) = mask 3"
  by (simp add: mask_eq_exp_minus_1)

lemma word_and_or_low:
  fixes v st m :: "'a::len word"
  assumes "v AND m = v"
  shows "(v OR (st AND NOT m)) AND m = v"
proof (rule bit_word_eqI)
  fix n assume "n < LENGTH('a)"
  have "bit v n \<Longrightarrow> bit m n"
    using arg_cong [OF assms, of "\<lambda>w. bit w n"] by (simp add: bit_simps)
  then show "bit ((v OR (st AND NOT m)) AND m) n = bit v n"
    by (auto simp: bit_simps)
qed

text \<open>
  A single bit: the kernel's \<^verbatim>\<open>1 << p\<close> is \<^term>\<open>push_bit p 1\<close>, which the simplifier
  writes as \<^term>\<open>2 ^ p\<close>.
\<close>

lemma bit_or_single:
  "bit (w OR 2 ^ p) i \<longleftrightarrow> bit (w :: 'a::len word) i \<or> (i = p \<and> p < LENGTH('a))"
  by (auto simp: bit_simps)

lemma bit_single: "k < LENGTH('a) \<Longrightarrow> bit (push_bit k (1 :: 'a::len word)) i \<longleftrightarrow> i = k"
  by (auto simp: bit_simps)

lemma bit_and_not_single:
  "bit (w AND NOT (2 ^ p)) i \<longleftrightarrow> bit (w :: 'a::len word) i \<and> i \<noteq> p"
  by (auto simp: bit_simps dest: bit_imp_le_length)

lemma word_nonzero_bit: "(w :: 'a::len word) \<noteq> 0 \<longleftrightarrow> (\<exists>i<LENGTH('a). bit w i)"
  by (metis bit_0_eq bit_imp_le_length bit_word_eqI bot_apply bot_bool_def)

lemma unat_inc:
  assumes "x < (y :: 'a::len word)"
  shows "unat (x + 1) = Suc (unat x)"
proof -
  have "unat x < unat y" using assms by (simp add: word_less_nat_alt)
  moreover have "unat y < 2 ^ LENGTH('a)" by (rule unsigned_less)
  ultimately have "Suc (unat x) < 2 ^ LENGTH('a)" by linarith
  then show ?thesis by (simp add: unat_word_ariths)
qed

lemma unat_dec: "x \<noteq> (0 :: 'a::len word) \<Longrightarrow> unat (x - 1) = unat x - 1"
  by (simp add: unat_minus_one)

lemma unat_ucast_16_32: "unat (ucast (x :: 16 word) :: 32 word) = unat x"
proof -
  have "unat x < 2 ^ LENGTH(16)" by (rule unsigned_less)
  then have "take_bit LENGTH(32) (unat x) = unat x" by (intro take_bit_nat_eq_self) simp
  then show ?thesis by (simp add: unsigned_ucast_eq)
qed

section \<open>Lists\<close>

text \<open>
  Intrusive lists hold every node at most once, so unlinking a node removes its only
  occurrence.
\<close>

lemma remove1_notin [simp]: "x \<notin> set xs \<Longrightarrow> remove1 x xs = xs"
  by (rule remove1_idem)

lemma set_remove1_distinct: "distinct xs \<Longrightarrow> set (remove1 x xs) = set xs - {x}"
  by (rule set_remove1_eq)

lemma hd_in_set_nonempty: "xs \<noteq> [] \<Longrightarrow> hd xs \<in> set xs"
  by simp

lemma remove1_hd: "xs \<noteq> [] \<Longrightarrow> remove1 (hd xs) xs = tl xs"
  by (cases xs) auto

text \<open>Overwriting a slice of an array, as \<^verbatim>\<open>memcpy(&buf[i], src, n)\<close> does.\<close>

definition memcpy_at :: "'a list \<Rightarrow> nat \<Rightarrow> 'a list \<Rightarrow> 'a list" where
  "memcpy_at buf i src = take i buf @ src @ drop (i + length src) buf"

lemma length_memcpy_at [simp]:
  "i + length src \<le> length buf \<Longrightarrow> length (memcpy_at buf i src) = length buf"
  by (simp add: memcpy_at_def)

lemma nth_memcpy_at:
  assumes "i + length src \<le> length buf" "k < length buf"
  shows "memcpy_at buf i src ! k =
    (if i \<le> k \<and> k < i + length src then src ! (k - i) else buf ! k)"
  using assms by (auto simp: memcpy_at_def nth_append min_def)

end
