(* ===== verification/KService.thy ===== *)
theory KService
  imports Prelude
begin

text \<open>
  Kernel service routines of \<^verbatim>\<open>rt-thread/src/kservice.c\<close>: the find-first-set
  primitive that the scheduler uses to pick the highest ready priority (the table-driven
  version of \<^verbatim>\<open>kservice.c\<close> and the builtin of
  \<^verbatim>\<open>libcpu/arm/cortex-m4/cpuport.c\<close>), and the bounded string routines that name
  kernel objects. The main results: both versions of \<open>__rt_ffs\<close> agree and return
  the lowest set bit, and \<open>rt_strncmp\<close> returns 0 exactly for names that agree up to the
  bound or the terminator, which an \<open>rt_strncpy\<close> copy does with its source.
\<close>

section \<open>Find first set\<close>

text \<open>\<^verbatim>\<open>__builtin_ffs\<close>: one plus the index of the least significant set bit, 0 for 0.\<close>

definition builtin_ffs :: "rt_uint32_t \<Rightarrow> nat" where
  "builtin_ffs v = (case find (bit v) [0..<32] of None \<Rightarrow> 0 | Some i \<Rightarrow> Suc i)"

definition rt_ffs_cpu :: "rt_uint32_t \<Rightarrow> nat" where
  "rt_ffs_cpu v = builtin_ffs v"

definition lowest_bit_bitmap :: "nat list" where
  "lowest_bit_bitmap =
    [0, 0, 1, 0, 2, 0, 1, 0, 3, 0, 1, 0, 2, 0, 1, 0,
     4, 0, 1, 0, 2, 0, 1, 0, 3, 0, 1, 0, 2, 0, 1, 0,
     5, 0, 1, 0, 2, 0, 1, 0, 3, 0, 1, 0, 2, 0, 1, 0,
     4, 0, 1, 0, 2, 0, 1, 0, 3, 0, 1, 0, 2, 0, 1, 0,
     6, 0, 1, 0, 2, 0, 1, 0, 3, 0, 1, 0, 2, 0, 1, 0,
     4, 0, 1, 0, 2, 0, 1, 0, 3, 0, 1, 0, 2, 0, 1, 0,
     5, 0, 1, 0, 2, 0, 1, 0, 3, 0, 1, 0, 2, 0, 1, 0,
     4, 0, 1, 0, 2, 0, 1, 0, 3, 0, 1, 0, 2, 0, 1, 0,
     7, 0, 1, 0, 2, 0, 1, 0, 3, 0, 1, 0, 2, 0, 1, 0,
     4, 0, 1, 0, 2, 0, 1, 0, 3, 0, 1, 0, 2, 0, 1, 0,
     5, 0, 1, 0, 2, 0, 1, 0, 3, 0, 1, 0, 2, 0, 1, 0,
     4, 0, 1, 0, 2, 0, 1, 0, 3, 0, 1, 0, 2, 0, 1, 0,
     6, 0, 1, 0, 2, 0, 1, 0, 3, 0, 1, 0, 2, 0, 1, 0,
     4, 0, 1, 0, 2, 0, 1, 0, 3, 0, 1, 0, 2, 0, 1, 0,
     5, 0, 1, 0, 2, 0, 1, 0, 3, 0, 1, 0, 2, 0, 1, 0,
     4, 0, 1, 0, 2, 0, 1, 0, 3, 0, 1, 0, 2, 0, 1, 0]"

definition rt_ffs :: "rt_uint32_t \<Rightarrow> nat" where
  "rt_ffs value =
    (if value = 0 then 0
     else if value AND 0xff \<noteq> 0
       then lowest_bit_bitmap ! unat (value AND 0xff) + 1
     else if value AND 0xff00 \<noteq> 0
       then lowest_bit_bitmap ! unat (drop_bit 8 (value AND 0xff00)) + 9
     else if value AND 0xff0000 \<noteq> 0
       then lowest_bit_bitmap ! unat (drop_bit 16 (value AND 0xff0000)) + 17
     else lowest_bit_bitmap ! unat (drop_bit 24 (value AND 0xff000000)) + 25)"

section \<open>Bounded strings\<close>

text \<open>
  A \<^verbatim>\<open>char *\<close> argument is the bytes of memory from that address on. \<open>char\<close> is
  unsigned on the target.
\<close>

type_synonym cstr = "nat \<Rightarrow> rt_uint8_t"

definition RT_NAME_MAX :: nat where "RT_NAME_MAX = 8"

text \<open>The \<open>n\<close> bytes that \<open>rt_strncpy\<close> stores at its destination.\<close>

fun rt_strncpy :: "cstr \<Rightarrow> nat \<Rightarrow> rt_uint8_t list" where
  "rt_strncpy s 0 = []"
| "rt_strncpy s (Suc n) =
    (if s 0 = 0 then 0 # replicate n 0 else s 0 # rt_strncpy (\<lambda>i. s (Suc i)) n)"

text \<open>
  \<open>rt_strncmp\<close> keeps the difference of two characters in a \<^verbatim>\<open>signed char\<close>, so the result
  is the difference reduced to eight bits.
\<close>

fun rt_strncmp :: "cstr \<Rightarrow> cstr \<Rightarrow> nat \<Rightarrow> int" where
  "rt_strncmp cs ct 0 = 0"
| "rt_strncmp cs ct (Suc count) =
    (let res = cs 0 - ct 0 in
     if res \<noteq> 0 \<or> cs 0 = 0 then sint res
     else rt_strncmp (\<lambda>i. cs (Suc i)) (\<lambda>i. ct (Suc i)) count)"

section \<open>Auxiliary notions for the proofs\<close>

text \<open>
  The table of lowest set bits doubles with every bit of the index, and a byte of a word is
  selected by a shifted mask.
\<close>

fun lowbit_table :: "nat \<Rightarrow> nat list" where
  "lowbit_table 0 = [0]"
| "lowbit_table (Suc n) = lowbit_table n @ n # tl (lowbit_table n)"

definition byte_of :: "rt_uint32_t \<Rightarrow> nat \<Rightarrow> nat" where
  "byte_of v k = unat (drop_bit k (v AND push_bit k (mask 8)))"

section \<open>Properties of find first set\<close>

lemma builtin_ffs_0 [simp]: "builtin_ffs 0 = 0"
proof -
  have "find (bit (0 :: rt_uint32_t)) [0..<32] = None"
    by (simp only: find_None_iff bit_0_eq bot_apply) simp
  then show ?thesis by (simp add: builtin_ffs_def)
qed

lemma find_upt_least:
  assumes "P i" "i < n" "\<forall>j<i. \<not> P j"
  shows "find P [0..<n] = Some i"
proof -
  have "find P [0..<n] = Some ([0..<n] ! i)"
    unfolding find_Some_iff using assms by (intro exI [of _ i]) auto
  with assms(2) show ?thesis by simp
qed

lemma builtin_ffs_eq:
  assumes "bit v i" "\<forall>j<i. \<not> bit v j"
  shows "builtin_ffs v = Suc i"
proof -
  from assms(1) have "i < 32"
    using bit_imp_le_length [of v i] by simp
  with assms show ?thesis
    by (simp add: builtin_ffs_def find_upt_least)
qed

lemma builtin_ffs_nonzero:
  assumes "v \<noteq> 0"
  obtains i where "i < 32" "builtin_ffs v = Suc i" "bit v i" "\<forall>j<i. \<not> bit v j"
proof -
  let ?i = "LEAST i. bit v i"
  from assms obtain k where k: "bit v k"
    using word_nonzero_bit [of v] by auto
  then have b: "bit v ?i" by (rule LeastI)
  moreover have l: "\<forall>j<?i. \<not> bit v j" using not_less_Least by blast
  moreover from b have "?i < 32" using bit_imp_le_length [of v ?i] by simp
  ultimately show ?thesis using that builtin_ffs_eq by blast
qed

lemma length_lowbit_table: "length (lowbit_table n) = 2 ^ n"
  by (induction n) (auto simp: )

lemma nth_lowbit_table_low: "b < 2 ^ n \<Longrightarrow> lowbit_table (Suc n) ! b = lowbit_table n ! b"
  by (simp add: nth_append length_lowbit_table)

lemma nth_lowbit_table_high:
  "0 < c \<Longrightarrow> c < 2 ^ n \<Longrightarrow> lowbit_table (Suc n) ! (2 ^ n + c) = lowbit_table n ! c"
  by (simp add: nth_append length_lowbit_table nth_Cons' nth_tl)

lemma bit_plus_exp: "c < 2 ^ n \<Longrightarrow> i < n \<Longrightarrow> bit (2 ^ n + c :: nat) i = bit c i"
proof -
  assume a: "c < 2 ^ n" "i < n"
  have "take_bit n (2 ^ n + c) = c" using a by (simp add: take_bit_eq_mod)
  then show ?thesis using a by (metis bit_take_bit_iff)
qed

lemma lowbit_table_correct:
  "0 < b \<Longrightarrow> b < 2 ^ n \<Longrightarrow>
   lowbit_table n ! b < n \<and> bit b (lowbit_table n ! b) \<and> (\<forall>j<lowbit_table n ! b. \<not> bit b j)"
proof (induction n arbitrary: b)
  case 0
  then show ?case by simp
next
  case (Suc n)
  consider "b < 2 ^ n" | "b = 2 ^ n" | c where "b = 2 ^ n + c" "0 < c" "c < 2 ^ n"
    using Suc.prems by (metis add_diff_inverse_nat less_add_same_cancel1 linorder_neqE_nat mult_2 nat_add_left_cancel_less not_less_iff_gr_or_eq power_Suc)
  then show ?case
  proof cases
    case 1
    then show ?thesis using Suc.IH [of b] Suc.prems(1) by (simp add: nth_lowbit_table_low less_SucI del: lowbit_table.simps)
  next
    case 2
    then show ?thesis by (auto simp: nth_append length_lowbit_table bit_exp_iff)
  next
    case 3
    then show ?thesis using Suc.IH [of c]
      by (auto simp add: nth_lowbit_table_high bit_plus_exp less_SucI simp del: lowbit_table.simps)
  qed
qed

lemma bit_byte_of: "bit (byte_of v k) j \<longleftrightarrow> j < 8 \<and> bit v (k + j)"
  by (auto simp: byte_of_def bit_unsigned_iff bit_simps dest: bit_imp_le_length)

lemma byte_of_less: "byte_of v k < 256"
proof -
  have "take_bit 8 (byte_of v k) = byte_of v k"
    by (rule bit_eqI) (auto simp: bit_simps bit_byte_of)
  then show ?thesis using take_bit_nat_less_exp [of 8 "byte_of v k"] by simp
qed

lemma byte_of_0_iff: "byte_of v k = 0 \<longleftrightarrow> (\<forall>j<8. \<not> bit v (k + j))"
  by (auto simp: bit_eq_iff bit_byte_of)

lemma byte_masks:
  "(0xff :: rt_uint32_t) = push_bit 0 (mask 8)" "(0xff00 :: rt_uint32_t) = push_bit 8 (mask 8)"
  "(0xff0000 :: rt_uint32_t) = push_bit 16 (mask 8)"
  "(0xff000000 :: rt_uint32_t) = push_bit 24 (mask 8)"
  by (simp_all add: mask_eq_exp_minus_1 push_bit_eq_mult)


lemma and_byte_mask_0_iff: "v AND push_bit k (mask 8) = 0 \<longleftrightarrow> byte_of v k = 0"
proof
  assume "v AND push_bit k (mask 8) = 0"
  then show "byte_of v k = 0" by (simp add: byte_of_def)
next
  assume z: "byte_of v k = 0"
  show "v AND push_bit k (mask 8) = 0"
  proof (rule bit_word_eqI)
    fix n
    have "bit v n \<Longrightarrow> k \<le> n \<Longrightarrow> n - k < 8 \<Longrightarrow> False"
      using z by (metis byte_of_0_iff le_add_diff_inverse)
    then show "bit (v AND push_bit k (mask 8)) n = bit (0 :: rt_uint32_t) n"
      by (auto simp: bit_simps)
  qed
qed

text \<open>Below a byte whose predecessors are all zero, no bit is set.\<close>

lemma ffs_byte:
  assumes "byte_of v k \<noteq> 0" "\<And>j. j < k \<Longrightarrow> \<not> bit v j"
  shows "bit v (lowbit_table 8 ! byte_of v k + k)"
    and "j < lowbit_table 8 ! byte_of v k + k \<Longrightarrow> \<not> bit v j"
proof -
  let ?t = "lowbit_table 8 ! byte_of v k"
  have c: "?t < 8" "bit (byte_of v k) ?t" "\<forall>j<?t. \<not> bit (byte_of v k) j"
    using lowbit_table_correct [of "byte_of v k" 8] assms(1) byte_of_less [of v k] by simp_all
  from c(2) show "bit v (?t + k)" by (simp add: bit_byte_of add.commute)
  assume j: "j < ?t + k"
  show "\<not> bit v j"
  proof (cases "j < k")
    case False
    with j have "j - k < ?t" by simp
    with c(1,3) have "\<not> bit v (k + (j - k))" by (simp add: bit_byte_of)
    with False show ?thesis by simp
  qed (use assms(2) in simp)
qed
lemma byte_zero_no_bit: "byte_of v k = 0 \<Longrightarrow> k \<le> j \<Longrightarrow> j < k + 8 \<Longrightarrow> \<not> bit v j"
  using byte_of_0_iff [of v k] by (metis add_less_cancel_left le_add_diff_inverse)

lemma lowest_bit_bitmap_table: "lowest_bit_bitmap = lowbit_table 8"
  by (simp add: lowest_bit_bitmap_def numeral_eq_Suc)

lemma rt_ffs_bytes:
  "rt_ffs v =
    (if v = 0 then 0
     else if byte_of v 0 \<noteq> 0 then lowbit_table 8 ! byte_of v 0 + 1
     else if byte_of v 8 \<noteq> 0 then lowbit_table 8 ! byte_of v 8 + 9
     else if byte_of v 16 \<noteq> 0 then lowbit_table 8 ! byte_of v 16 + 17
     else lowbit_table 8 ! byte_of v 24 + 25)"
  unfolding rt_ffs_def byte_masks and_byte_mask_0_iff lowest_bit_bitmap_table
  by (simp add: byte_of_def del: lowbit_table.simps)

lemma builtin_ffs_byte:
  assumes "byte_of v k \<noteq> 0" "\<forall>j<k. \<not> bit v j"
  shows "builtin_ffs v = lowbit_table 8 ! byte_of v k + (k + 1)"
proof -
  have "builtin_ffs v = Suc (lowbit_table 8 ! byte_of v k + k)"
    by (rule builtin_ffs_eq) (use assms ffs_byte [of v k] in blast)+
  then show ?thesis by simp
qed

lemma no_bit_below_next_byte:
  assumes "byte_of v k = 0" "\<forall>j<k. \<not> bit v j"
  shows "\<forall>j<k + 8. \<not> bit v j"
  using assms byte_zero_no_bit [of v k] by (meson not_le)

text \<open>
  The table-driven \<open>__rt_ffs\<close> of \<^verbatim>\<open>kservice.c\<close> computes the same function as the
  compiler builtin that the Cortex-M4 port uses, for every 32-bit argument.
\<close>

theorem rt_ffs_equiv: "rt_ffs v = rt_ffs_cpu v"
proof (cases "v = 0")
  case True
  then show ?thesis by (simp add: rt_ffs_bytes rt_ffs_cpu_def)
next
  case False
  have 0: "\<forall>j<0. \<not> bit v j" by simp
  have 8: "byte_of v 0 = 0 \<Longrightarrow> \<forall>j<8. \<not> bit v j"
    using no_bit_below_next_byte [of v 0] by simp
  have 16: "byte_of v 0 = 0 \<Longrightarrow> byte_of v 8 = 0 \<Longrightarrow> \<forall>j<16. \<not> bit v j"
    using no_bit_below_next_byte [of v 8] 8 by simp
  have 24: "byte_of v 0 = 0 \<Longrightarrow> byte_of v 8 = 0 \<Longrightarrow> byte_of v 16 = 0 \<Longrightarrow>
      \<forall>j<24. \<not> bit v j"
    using no_bit_below_next_byte [of v 16] 16 by simp
  have top: "byte_of v 24 \<noteq> 0"
    if "byte_of v 0 = 0" "byte_of v 8 = 0" "byte_of v 16 = 0"
    using no_bit_below_next_byte [of v 24] 24 [OF that] False word_nonzero_bit [of v] by auto
  show ?thesis
    unfolding rt_ffs_cpu_def rt_ffs_bytes
    using False builtin_ffs_byte [OF _ 0] builtin_ffs_byte [OF _ 8]
      builtin_ffs_byte [OF _ 16] builtin_ffs_byte [OF top 24]
    by (simp del: lowbit_table.simps)
qed

section \<open>Properties of the bounded string routines\<close>

lemma length_rt_strncpy [simp]: "length (rt_strncpy s n) = n"
  by (induction s n rule: rt_strncpy.induct) auto

text \<open>
  Two strings agree on their first \<open>n\<close> characters, except for what follows a terminator of
  the first.
\<close>

definition names_agree :: "cstr \<Rightarrow> cstr \<Rightarrow> nat \<Rightarrow> bool" where
  "names_agree cs ct n \<longleftrightarrow>
    (\<forall>i<n. (\<forall>k<i. cs k \<noteq> 0) \<longrightarrow> cs i = ct i)"

lemma names_agree_Suc:
  "names_agree cs ct (Suc n) \<longleftrightarrow>
    cs 0 = ct 0 \<and> (cs 0 = 0 \<or> names_agree (\<lambda>i. cs (Suc i)) (\<lambda>i. ct (Suc i)) n)"
  by (auto simp: names_agree_def All_less_Suc2)

lemma rt_strncmp_0_iff: "rt_strncmp cs ct n = 0 \<longleftrightarrow> names_agree cs ct n"
proof (induction cs ct n rule: rt_strncmp.induct)
  case (1 cs ct)
  then show ?case by (simp add: names_agree_def)
next
  case (2 cs ct n)
  have "sint (cs 0 - ct 0) = 0 \<longleftrightarrow> cs 0 = ct 0"
    by (metis right_minus_eq signed_eq_0_iff)
  with 2 show ?case by (auto simp: names_agree_Suc Let_def)
qed

lemma rt_strncpy_agree: "names_agree (\<lambda>i. rt_strncpy s n ! i) s n"
proof (induction s n rule: rt_strncpy.induct)
  case (1 s)
  then show ?case by (simp add: names_agree_def)
next
  case (2 s n)
  then show ?case by (auto simp: names_agree_Suc)
qed

end
