(* ===== verification/Mem.thy ===== *)
theory Mem
  imports Prelude
begin

text \<open>
  The small-memory allocator of \<^verbatim>\<open>rt-thread/src/mem.c\<close> (\<^verbatim>\<open>RT_USING_SMALL_MEM\<close>,
  32-bit target, no \<^verbatim>\<open>RT_USING_MEMTRACE\<close>). A block header is identified by its
  offset from \<^verbatim>\<open>heap_ptr\<close>, a payload by its address; \<open>mems\<close> holds the \<^verbatim>\<open>struct heap_mem\<close> at each offset and
  \<open>mem_bytes\<close> the payload bytes. \<^verbatim>\<open>rt_size_t\<close> arithmetic is written on natural numbers
  with its reduction modulo \<open>2 ^ 32\<close>. Each call runs as one critical section: the
  semaphore \<^verbatim>\<open>heap_sem\<close>, taken at the start and released at the end of every
  operation, is not part of this state.
\<close>

section \<open>Arithmetic of rt_size_t\<close>

definition add32 :: "nat \<Rightarrow> nat \<Rightarrow> nat" where
  "add32 a b = (a + b) mod 2 ^ 32"

definition sub32 :: "nat \<Rightarrow> nat \<Rightarrow> nat" where
  "sub32 a b = (a + (2 ^ 32 - b mod 2 ^ 32)) mod 2 ^ 32"

lemma sub32_le:
  assumes "b \<le> a" "a < 2 ^ 32"
  shows "sub32 a b = a - b"
proof -
  have "a + (2 ^ 32 - b mod 2 ^ 32) = (a - b) + 2 ^ 32" using assms by simp
  then show ?thesis using assms unfolding sub32_def by (simp only: mod_add_self2) simp
qed

definition mul32 :: "nat \<Rightarrow> nat \<Rightarrow> nat" where
  "mul32 a b = (a * b) mod 2 ^ 32"

text \<open>\<^verbatim>\<open>RT_ALIGN(size, RT_ALIGN_SIZE)\<close> and \<^verbatim>\<open>RT_ALIGN_DOWN(size, RT_ALIGN_SIZE)\<close>.\<close>

definition align4 :: "nat \<Rightarrow> nat" where
  "align4 sz = (sz + 3) mod 2 ^ 32 div 4 * 4"

definition align4_down :: "nat \<Rightarrow> nat" where
  "align4_down sz = sz div 4 * 4"

section \<open>State\<close>

definition HEAP_MAGIC :: nat where "HEAP_MAGIC = 0x1ea0"
definition MIN_SIZE :: nat where "MIN_SIZE = 12"
definition MIN_SIZE_ALIGNED :: nat where "MIN_SIZE_ALIGNED = 12"
definition SIZEOF_STRUCT_MEM :: nat where "SIZEOF_STRUCT_MEM = 12"

record heap_mem =
  hm_magic :: nat
  hm_used :: nat
  hm_next :: nat
  hm_prev :: nat

record heap_state =
  heap_ptr :: addr
  heap_end :: nat
  mems :: "nat \<Rightarrow> heap_mem"
  mem_bytes :: "addr \<Rightarrow> rt_uint8_t"
  lfree :: nat
  mem_size_aligned :: nat
  used_mem :: nat
  max_mem :: nat
  heap_fault :: bool

definition heap_assert :: "bool \<Rightarrow> heap_state \<Rightarrow> heap_state" where
  "heap_assert b h = (if b then h else h\<lparr>heap_fault := True\<rparr>)"

definition upd_mem :: "nat \<Rightarrow> (heap_mem \<Rightarrow> heap_mem) \<Rightarrow> heap_state \<Rightarrow> heap_state" where
  "upd_mem p f h = h\<lparr>mems := (mems h)(p := f (mems h p))\<rparr>"

section \<open>Operations\<close>

definition plug_holes_next :: "nat \<Rightarrow> heap_state \<Rightarrow> heap_state" where
  "plug_holes_next mem h =
    (let nmem = hm_next (mems h mem) in
     if mem \<noteq> nmem \<and> hm_used (mems h nmem) = 0 \<and> nmem \<noteq> heap_end h then
       let h1 = (if lfree h = nmem then h\<lparr>lfree := mem\<rparr> else h);
           h2 = upd_mem mem (\<lambda>m. m\<lparr>hm_next := hm_next (mems h1 nmem)\<rparr>) h1
       in upd_mem (hm_next (mems h2 nmem)) (\<lambda>m. m\<lparr>hm_prev := mem\<rparr>) h2
     else h)"

definition plug_holes_prev :: "nat \<Rightarrow> heap_state \<Rightarrow> heap_state" where
  "plug_holes_prev mem h =
    (let pmem = hm_prev (mems h mem) in
     if pmem \<noteq> mem \<and> hm_used (mems h pmem) = 0 then
       let h1 = (if lfree h = mem then h\<lparr>lfree := pmem\<rparr> else h);
           h2 = upd_mem pmem (\<lambda>m. m\<lparr>hm_next := hm_next (mems h1 mem)\<rparr>) h1
       in upd_mem (hm_next (mems h2 mem)) (\<lambda>m. m\<lparr>hm_prev := pmem\<rparr>) h2
     else h)"

definition plug_holes :: "nat \<Rightarrow> heap_state \<Rightarrow> heap_state" where
  "plug_holes mem h =
    plug_holes_prev mem (plug_holes_next mem
      (heap_assert (mem < heap_end h \<and> hm_used (mems h mem) = 0) h))"

definition rt_system_heap_init :: "addr \<Rightarrow> addr \<Rightarrow> heap_state \<Rightarrow> heap_state" where
  "rt_system_heap_init begin_addr end_addr h =
    (let begin_align = align4 begin_addr; end_align = align4_down end_addr in
     if end_align > 2 * SIZEOF_STRUCT_MEM \<and> end_align - 2 * SIZEOF_STRUCT_MEM \<ge> begin_align then
       let msize = end_align - begin_align - 2 * SIZEOF_STRUCT_MEM;
           hend = msize + SIZEOF_STRUCT_MEM
       in h\<lparr>mem_size_aligned := msize, heap_ptr := begin_align, heap_end := hend,
            mems := (mems h)
              (0 := \<lparr>hm_magic = HEAP_MAGIC, hm_used = 0, hm_next = hend, hm_prev = 0\<rparr>,
               hend := \<lparr>hm_magic = HEAP_MAGIC, hm_used = 1, hm_next = hend, hm_prev = hend\<rparr>),
            lfree := 0\<rparr>
     else h)"

text \<open>
  The first-fit search of \<open>rt_malloc\<close>. \<open>None\<close>: the fuel ran out; \<open>Some None\<close>: the loop
  ended without a block; \<open>Some (Some ptr)\<close>: the block at \<open>ptr\<close> fits.
\<close>

fun malloc_search :: "nat \<Rightarrow> nat \<Rightarrow> nat \<Rightarrow> heap_state \<Rightarrow> nat option option" where
  "malloc_search 0 ptr sz h = None"
| "malloc_search (Suc fuel) ptr sz h =
    (if ptr < sub32 (mem_size_aligned h) sz then
       if hm_used (mems h ptr) = 0 \<and> sub32 (hm_next (mems h ptr)) (ptr + SIZEOF_STRUCT_MEM) \<ge> sz
       then Some (Some ptr)
       else malloc_search fuel (hm_next (mems h ptr)) sz h
     else Some None)"

text \<open>The loop that moves \<^verbatim>\<open>lfree\<close> to the next free block.\<close>

fun lfree_search :: "nat \<Rightarrow> nat \<Rightarrow> heap_state \<Rightarrow> nat option" where
  "lfree_search 0 p h = None"
| "lfree_search (Suc fuel) p h =
    (if hm_used (mems h p) \<noteq> 0 \<and> p \<noteq> heap_end h
     then lfree_search fuel (hm_next (mems h p)) h else Some p)"

text \<open>What \<open>rt_malloc\<close> does with the block it found: split it or take it whole.\<close>

definition malloc_take :: "nat \<Rightarrow> nat \<Rightarrow> heap_state \<Rightarrow> heap_state" where
  "malloc_take ptr sz h =
    (let next = hm_next (mems h ptr) in
     if sub32 next (ptr + SIZEOF_STRUCT_MEM) \<ge> sz + SIZEOF_STRUCT_MEM + MIN_SIZE_ALIGNED then
       let ptr2 = ptr + SIZEOF_STRUCT_MEM + sz;
           h1 = h\<lparr>mems := (mems h)
             (ptr2 := \<lparr>hm_magic = HEAP_MAGIC, hm_used = 0, hm_next = next, hm_prev = ptr\<rparr>)\<rparr>;
           h2 = upd_mem ptr (\<lambda>m. m\<lparr>hm_next := ptr2, hm_used := 1\<rparr>) h1;
           h3 = (if next \<noteq> mem_size_aligned h + SIZEOF_STRUCT_MEM
                 then upd_mem next (\<lambda>m. m\<lparr>hm_prev := ptr2\<rparr>) h2 else h2);
           used = add32 (used_mem h) (sz + SIZEOF_STRUCT_MEM)
       in h3\<lparr>used_mem := used, max_mem := max (max_mem h) used\<rparr>
     else
       let h1 = upd_mem ptr (\<lambda>m. m\<lparr>hm_used := 1\<rparr>) h;
           used = add32 (used_mem h) (sub32 next ptr)
       in h1\<lparr>used_mem := used, max_mem := max (max_mem h) used\<rparr>)"

definition heap_fuel :: "heap_state \<Rightarrow> nat" where
  "heap_fuel h = mem_size_aligned h + 2"

text \<open>
  \<open>rt_malloc\<close>: the result is \<open>None\<close> when a loop does not end, otherwise the new heap and the
  address of the payload (\<open>None\<close> for \<^verbatim>\<open>RT_NULL\<close>).
\<close>

definition rt_malloc :: "nat \<Rightarrow> heap_state \<Rightarrow> (heap_state \<times> addr option) option" where
  "rt_malloc sz0 h =
    (if sz0 = 0 then Some (h, None)
     else
      let sz1 = align4 sz0 in
      if sz1 > mem_size_aligned h then Some (h, None)
      else
       let sz = (if sz1 < MIN_SIZE_ALIGNED then MIN_SIZE_ALIGNED else sz1) in
       case malloc_search (heap_fuel h) (lfree h) sz h of
         None \<Rightarrow> None
       | Some None \<Rightarrow> Some (h, None)
       | Some (Some ptr) \<Rightarrow>
           let h1 = upd_mem ptr (\<lambda>m. m\<lparr>hm_magic := HEAP_MAGIC\<rparr>) (malloc_take ptr sz h) in
           (case (if ptr = lfree h1 then lfree_search (heap_fuel h1) (lfree h1) h1
                  else Some (lfree h1)) of
              None \<Rightarrow> None
            | Some lf \<Rightarrow>
                let h2 = heap_assert (ptr = lfree h1 \<longrightarrow>
                           lf = heap_end h1 \<or> hm_used (mems h1 lf) = 0) (h1\<lparr>lfree := lf\<rparr>);
                    h3 = heap_assert (ptr + SIZEOF_STRUCT_MEM + sz \<le> heap_end h2 \<and>
                           (heap_ptr h2 + ptr + SIZEOF_STRUCT_MEM) mod 4 = 0 \<and>
                           (heap_ptr h2 + ptr) mod 4 = 0) h2
                in Some (h3, Some (heap_ptr h3 + ptr + SIZEOF_STRUCT_MEM))))"

definition in_heap :: "addr \<Rightarrow> heap_state \<Rightarrow> bool" where
  "in_heap r h \<longleftrightarrow> heap_ptr h \<le> r \<and> r < heap_ptr h + heap_end h"

text \<open>The block header in front of a payload address.\<close>

definition mem_of :: "addr \<Rightarrow> heap_state \<Rightarrow> nat" where
  "mem_of r h = sub32 (r - heap_ptr h) SIZEOF_STRUCT_MEM"

definition rt_free :: "addr option \<Rightarrow> heap_state \<Rightarrow> heap_state" where
  "rt_free rmem h =
    (case rmem of
       None \<Rightarrow> h
     | Some r \<Rightarrow>
        let h0 = heap_assert (r mod 4 = 0 \<and> in_heap r h) h in
        if \<not> in_heap r h then h0
        else
         let mem = mem_of r h;
             h1 = heap_assert (hm_used (mems h0 mem) \<noteq> 0 \<and> hm_magic (mems h0 mem) = HEAP_MAGIC) h0;
             h2 = upd_mem mem (\<lambda>m. m\<lparr>hm_used := 0, hm_magic := HEAP_MAGIC\<rparr>) h1;
             h3 = (if mem < lfree h2 then h2\<lparr>lfree := mem\<rparr> else h2);
             h4 = h3\<lparr>used_mem := sub32 (used_mem h3) (sub32 (hm_next (mems h3 mem)) mem)\<rparr>
         in plug_holes mem h4)"

text \<open>
  \<open>rt_memcpy\<close> between two payloads and \<open>rt_memset\<close> of one; \<open>mem_bytes\<close> is indexed by address.
\<close>

definition copy_bytes :: "addr \<Rightarrow> addr \<Rightarrow> nat \<Rightarrow> heap_state \<Rightarrow> heap_state" where
  "copy_bytes dst src n h =
    h\<lparr>mem_bytes := (\<lambda>i. if dst \<le> i \<and> i < dst + n then mem_bytes h (src + (i - dst))
                        else mem_bytes h i)\<rparr>"

definition fill_bytes :: "addr \<Rightarrow> rt_uint8_t \<Rightarrow> nat \<Rightarrow> heap_state \<Rightarrow> heap_state" where
  "fill_bytes dst c n h =
    h\<lparr>mem_bytes := (\<lambda>i. if dst \<le> i \<and> i < dst + n then c else mem_bytes h i)\<rparr>"

definition rt_realloc :: "addr option \<Rightarrow> nat \<Rightarrow> heap_state \<Rightarrow> (heap_state \<times> addr option) option" where
  "rt_realloc rmem newsize0 h =
    (let newsize = align4 newsize0 in
     if newsize > mem_size_aligned h then Some (h, None)
     else if newsize = 0 then Some (rt_free rmem h, None)
     else case rmem of
       None \<Rightarrow> rt_malloc newsize h
     | Some r \<Rightarrow>
        if \<not> in_heap r h then Some (h, rmem)
        else
         let ptr = mem_of r h;
             next = hm_next (mems h ptr);
             sz = sub32 (sub32 next ptr) SIZEOF_STRUCT_MEM
         in if sz = newsize then Some (h, rmem)
            else if newsize + SIZEOF_STRUCT_MEM + MIN_SIZE < sz then
              let ptr2 = ptr + SIZEOF_STRUCT_MEM + newsize;
                  h1 = h\<lparr>used_mem := sub32 (used_mem h) (sub32 sz newsize),
                    mems := (mems h)
                      (ptr2 := \<lparr>hm_magic = HEAP_MAGIC, hm_used = 0, hm_next = next, hm_prev = ptr\<rparr>)\<rparr>;
                  h2 = upd_mem ptr (\<lambda>m. m\<lparr>hm_next := ptr2\<rparr>) h1;
                  h3 = (if next \<noteq> mem_size_aligned h + SIZEOF_STRUCT_MEM
                        then upd_mem next (\<lambda>m. m\<lparr>hm_prev := ptr2\<rparr>) h2 else h2)
              in Some (plug_holes ptr2 h3, rmem)
            else
              (case rt_malloc newsize h of
                 None \<Rightarrow> None
               | Some (h', None) \<Rightarrow> Some (h', None)
               | Some (h', Some n) \<Rightarrow>
                   Some (rt_free rmem (copy_bytes n r (min sz newsize) h'), Some n)))"

definition rt_calloc :: "nat \<Rightarrow> nat \<Rightarrow> heap_state \<Rightarrow> (heap_state \<times> addr option) option" where
  "rt_calloc count sz h =
    (case rt_malloc (mul32 count sz) h of
       None \<Rightarrow> None
     | Some (h', None) \<Rightarrow> Some (h', None)
     | Some (h', Some p) \<Rightarrow> Some (fill_bytes p 0 (mul32 count sz) h', Some p))"

definition rt_memory_info :: "heap_state \<Rightarrow> nat \<times> nat \<times> nat" where
  "rt_memory_info h = (mem_size_aligned h, used_mem h, max_mem h)"

end
