(* ===== verification/KState.thy ===== *)
theory KState
  imports KService Mem
begin

text \<open>
  The data of the kernel: the structures of \<^verbatim>\<open>rtdef.h\<close> as records, and one record
  for the kernel's static variables (single-core configuration, \<^verbatim>\<open>RT_THREAD_PRIORITY_MAX\<close>
  32, \<^verbatim>\<open>RT_TIMER_SKIP_LIST_LEVEL\<close> 1, as in \<^verbatim>\<open>rtconfig.h\<close>).

  Structures live in one typed store per kind (\<open>thr\<close>, \<open>tmr\<close>, \<open>objs\<close>, \<dots>), indexed by
  their address. A structure embedded in another (a thread's timer, the object header at the
  start of every structure) has a reference built from the outer address, so that distinct
  structures have distinct references.

  The intrusive lists through \<^verbatim>\<open>thread->tlist\<close> are one function \<open>tq\<close> from list heads to
  the threads linked there, in order; \<open>RtList\<close> relates such lists to the pointer
  structure of \<^verbatim>\<open>rtservice.h\<close>. Interrupt masking makes every operation here atomic.
  A failed \<^verbatim>\<open>RT_ASSERT\<close> stops the system; the model records it in \<open>kfault\<close>, so a state
  with \<open>kfault\<close> unset is one the code reached without a failed assertion.
\<close>

section \<open>Constants of rtdef.h\<close>

definition RT_THREAD_INIT :: rt_uint8_t where "RT_THREAD_INIT = 0x00"
definition RT_THREAD_READY :: rt_uint8_t where "RT_THREAD_READY = 0x01"
definition RT_THREAD_SUSPEND :: rt_uint8_t where "RT_THREAD_SUSPEND = 0x02"
definition RT_THREAD_RUNNING :: rt_uint8_t where "RT_THREAD_RUNNING = 0x03"
definition RT_THREAD_CLOSE :: rt_uint8_t where "RT_THREAD_CLOSE = 0x04"
definition RT_THREAD_STAT_MASK :: rt_uint8_t where "RT_THREAD_STAT_MASK = 0x07"
definition RT_THREAD_STAT_YIELD :: rt_uint8_t where "RT_THREAD_STAT_YIELD = 0x08"

definition RT_THREAD_PRIORITY_MAX :: nat where "RT_THREAD_PRIORITY_MAX = 32"

definition RT_Object_Class_Thread :: rt_uint8_t where "RT_Object_Class_Thread = 1"
definition RT_Object_Class_Semaphore :: rt_uint8_t where "RT_Object_Class_Semaphore = 2"
definition RT_Object_Class_Mutex :: rt_uint8_t where "RT_Object_Class_Mutex = 3"
definition RT_Object_Class_Event :: rt_uint8_t where "RT_Object_Class_Event = 4"
definition RT_Object_Class_MailBox :: rt_uint8_t where "RT_Object_Class_MailBox = 5"
definition RT_Object_Class_MessageQueue :: rt_uint8_t where "RT_Object_Class_MessageQueue = 6"
definition RT_Object_Class_MemPool :: rt_uint8_t where "RT_Object_Class_MemPool = 8"
definition RT_Object_Class_Device :: rt_uint8_t where "RT_Object_Class_Device = 9"
definition RT_Object_Class_Timer :: rt_uint8_t where "RT_Object_Class_Timer = 10"
definition RT_Object_Class_Unknown :: rt_uint8_t where "RT_Object_Class_Unknown = 12"
definition RT_Object_Class_Static :: rt_uint8_t where "RT_Object_Class_Static = 0x80"

definition RT_TIMER_FLAG_ACTIVATED :: rt_uint8_t where "RT_TIMER_FLAG_ACTIVATED = 0x1"
definition RT_TIMER_FLAG_ONE_SHOT :: rt_uint8_t where "RT_TIMER_FLAG_ONE_SHOT = 0x0"
definition RT_TIMER_FLAG_PERIODIC :: rt_uint8_t where "RT_TIMER_FLAG_PERIODIC = 0x2"
definition RT_TIMER_FLAG_SOFT_TIMER :: rt_uint8_t where "RT_TIMER_FLAG_SOFT_TIMER = 0x4"

definition RT_IPC_FLAG_FIFO :: rt_uint8_t where "RT_IPC_FLAG_FIFO = 0x00"
definition RT_IPC_FLAG_PRIO :: rt_uint8_t where "RT_IPC_FLAG_PRIO = 0x01"

definition RT_EVENT_FLAG_AND :: rt_uint8_t where "RT_EVENT_FLAG_AND = 0x01"
definition RT_EVENT_FLAG_OR :: rt_uint8_t where "RT_EVENT_FLAG_OR = 0x02"
definition RT_EVENT_FLAG_CLEAR :: rt_uint8_t where "RT_EVENT_FLAG_CLEAR = 0x04"

definition RT_WAITING_FOREVER :: rt_int32_t where "RT_WAITING_FOREVER = - 1"

lemmas thread_stat_defs = RT_THREAD_INIT_def RT_THREAD_READY_def RT_THREAD_SUSPEND_def
  RT_THREAD_RUNNING_def RT_THREAD_CLOSE_def RT_THREAD_STAT_MASK_def RT_THREAD_STAT_YIELD_def

lemmas [rt_flag_defs] = thread_stat_defs RT_Object_Class_Thread_def
  RT_Object_Class_Semaphore_def RT_Object_Class_Mutex_def RT_Object_Class_Event_def
  RT_Object_Class_MailBox_def RT_Object_Class_MessageQueue_def RT_Object_Class_MemPool_def
  RT_Object_Class_Device_def RT_Object_Class_Timer_def RT_Object_Class_Unknown_def
  RT_Object_Class_Static_def RT_TIMER_FLAG_ACTIVATED_def RT_TIMER_FLAG_ONE_SHOT_def
  RT_TIMER_FLAG_PERIODIC_def RT_TIMER_FLAG_SOFT_TIMER_def RT_IPC_FLAG_FIFO_def
  RT_IPC_FLAG_PRIO_def RT_EVENT_FLAG_AND_def RT_EVENT_FLAG_OR_def RT_EVENT_FLAG_CLEAR_def

section \<open>References and structures\<close>

type_synonym tid = addr

datatype timer_ref = ThreadTimer tid | TimerAt addr

datatype obj_ref = ObjThread tid | ObjTimer timer_ref | ObjSem addr | ObjMutex addr
  | ObjEvent addr | ObjMailBox addr | ObjMessageQueue addr | ObjMemPool addr | ObjDevice addr

record rt_object =
  obj_name :: "rt_uint8_t list"
  obj_type :: rt_uint8_t
  obj_flag :: rt_uint8_t

record rt_thread =
  th_entry :: addr
  th_parameter :: addr
  th_stack_addr :: addr
  th_stack_size :: rt_uint32_t
  th_error :: rt_err_t
  th_stat :: rt_uint8_t
  th_current_priority :: rt_uint8_t
  th_init_priority :: rt_uint8_t
  th_number_mask :: rt_uint32_t
  th_event_set :: rt_uint32_t
  th_event_info :: rt_uint8_t
  th_init_tick :: rt_uint32_t
  th_remaining_tick :: rt_uint32_t
  th_cleanup :: "addr option"
  th_user_data :: rt_uint32_t

text \<open>
  A timer's callback: the kernel's own \<open>rt_thread_timeout\<close> on a thread, or a function of
  the application with its parameter.
\<close>

datatype timeout_func = Rt_thread_timeout tid | App_timeout addr addr

record rt_timer =
  tm_timeout_func :: timeout_func
  tm_init_tick :: rt_tick_t
  tm_timeout_tick :: rt_tick_t

record rt_semaphore =
  sem_value :: rt_uint16_t

record rt_mutex =
  mtx_value :: rt_uint16_t
  mtx_original_priority :: rt_uint8_t
  mtx_hold :: rt_uint8_t
  mtx_owner :: "tid option"

record rt_event =
  ev_set :: rt_uint32_t

text \<open>
  A mailbox's message buffer is its address and the words stored there.
\<close>

record rt_mailbox =
  mb_pool_addr :: addr
  mb_msg_pool :: "nat \<Rightarrow> rt_uint32_t"
  mb_size :: rt_uint16_t
  mb_entry :: rt_uint16_t
  mb_in_offset :: rt_uint16_t
  mb_out_offset :: rt_uint16_t

text \<open>
  A message queue's pool is an array of nodes, numbered from 0: a link and \<open>msg_size\<close> bytes of
  payload each. The queue and its free list are chains through the links.
\<close>

record rt_messagequeue =
  mq_pool_addr :: addr
  mq_next :: "nat \<Rightarrow> nat option"
  mq_data :: "nat \<Rightarrow> nat \<Rightarrow> rt_uint8_t"
  mq_msg_size :: rt_uint16_t
  mq_max_msgs :: rt_uint16_t
  mq_entry :: rt_uint16_t
  msg_queue_head :: "nat option"
  msg_queue_tail :: "nat option"
  msg_queue_free :: "nat option"

text \<open>
  A memory pool; the word in front of each of its blocks is in \<open>block_word\<close> of the kernel state.
\<close>

record rt_mempool =
  mp_start_address :: addr
  mp_size :: nat
  mp_block_size :: nat
  mp_block_list :: "addr option"
  mp_block_total_count :: nat
  mp_block_free_count :: nat

datatype block_word = NextBlock "addr option" | OwnerPool addr

text \<open>
  The structures of the device layer: completions, data queues (the items are \<open>dq_items\<close>, the
  allocated array \<open>dq_queue\<close>), wait queues with their nodes, work queues with their work
  items, and devices. Function pointers are addresses, absent for a null pointer.
\<close>

record rt_completion =
  cmp_flag :: rt_uint32_t

record rt_data_item =
  di_data_ptr :: addr
  di_data_size :: rt_size_t

record rt_data_queue =
  dq_size :: rt_uint16_t
  dq_lwm :: rt_uint16_t
  dq_get_index :: rt_uint16_t
  dq_put_index :: rt_uint16_t
  dq_queue :: "addr option"
  dq_items :: "nat \<Rightarrow> rt_data_item"
  dq_evt_notify :: "addr option"

text \<open>The wake function of a wait-queue node: the default one, or one of the application.\<close>

datatype wake_func = Wqueue_default_wake | App_wake addr

record rt_wqueue_node =
  wn_polling_thread :: tid
  wn_wakeup :: wake_func
  wn_key :: rt_uint32_t

record rt_wqueue =
  wq_flag :: rt_uint32_t
  wq_waiting_list :: "addr list"

record rt_work =
  wk_work_func :: addr
  wk_work_data :: addr
  wk_flags :: rt_uint16_t
  wk_type :: rt_uint16_t
  wk_workqueue :: "addr option"

record rt_workqueue =
  wkq_work_list :: "addr list"
  wkq_work_current :: "addr option"
  wkq_work_thread :: tid

record rt_device =
  dev_type :: int
  dev_flag :: rt_uint16_t
  dev_open_flag :: rt_uint16_t
  dev_ref_count :: rt_uint8_t
  dev_device_id :: rt_uint8_t
  dev_rx_indicate :: "addr option"
  dev_tx_complete :: "addr option"
  dev_init :: "addr option"
  dev_open :: "addr option"
  dev_close :: "addr option"
  dev_read :: "addr option"
  dev_write :: "addr option"
  dev_control :: "addr option"
  dev_user_data :: addr

text \<open>The heads of the lists that \<^verbatim>\<open>thread->tlist\<close> can be linked into.\<close>

datatype qhead = Ready nat | Defunct | SemQ addr | MutexQ addr | EventQ addr
  | MailboxQ addr | MailboxSendQ addr | MqQ addr | MqSendQ addr | MempoolQ addr
  | CompletionQ addr | DqPushQ addr | DqPopQ addr

record kstate =
  thr :: "tid \<Rightarrow> rt_thread"
  tq :: "qhead \<Rightarrow> tid list"
  rt_thread_ready_priority_group :: rt_uint32_t
  rt_current_thread :: "tid option"
  rt_current_priority :: rt_uint8_t
  rt_scheduler_lock_nest :: rt_int16_t
  rt_interrupt_nest :: rt_uint8_t
  rt_tick :: rt_tick_t
  tmr :: "timer_ref \<Rightarrow> rt_timer"
  rt_timer_list :: "timer_ref list"
  rt_soft_timer_list :: "timer_ref list"
  timer_thread :: tid
  objs :: "obj_ref \<Rightarrow> rt_object"
  object_list :: "rt_uint8_t \<Rightarrow> obj_ref list"
  sems :: "addr \<Rightarrow> rt_semaphore"
  mutexes :: "addr \<Rightarrow> rt_mutex"
  events :: "addr \<Rightarrow> rt_event"
  mailboxes :: "addr \<Rightarrow> rt_mailbox"
  messagequeues :: "addr \<Rightarrow> rt_messagequeue"
  mempools :: "addr \<Rightarrow> rt_mempool"
  block_words :: "addr \<Rightarrow> block_word"
  completions :: "addr \<Rightarrow> rt_completion"
  dataqueues :: "addr \<Rightarrow> rt_data_queue"
  wqueues :: "addr \<Rightarrow> rt_wqueue"
  wqueue_nodes :: "addr \<Rightarrow> rt_wqueue_node"
  workqueues :: "addr \<Rightarrow> rt_workqueue"
  works :: "addr \<Rightarrow> rt_work"
  devices :: "addr \<Rightarrow> rt_device"
  heap :: heap_state
  object_size :: "rt_uint8_t \<Rightarrow> nat"
  rt_errno :: rt_err_t
  kfault :: bool

end
