(* ===== verification/Scheduler.thy ===== *)
theory Scheduler
  imports KState
begin

text \<open>
  The scheduler of \<^verbatim>\<open>rt-thread/src/scheduler.c\<close> (branches without
  \<^verbatim>\<open>RT_USING_SMP\<close>): the ready queues with their priority bitmap, the choice of the
  next thread, and the scheduler lock. The invariant \<open>sched_inv\<close> says that every thread
  is linked where its state says, that the bitmap is exact, and that the running thread is
  the current one; the main results are that \<open>rt_schedule\<close> keeps it and leaves the
  processor with a thread of the highest ready priority.
\<close>

section \<open>Auxiliary operations\<close>

definition RT_ASSERT :: "bool \<Rightarrow> kstate \<Rightarrow> kstate" where
  "RT_ASSERT b s = (if b then s else s\<lparr>kfault := True\<rparr>)"

definition upd_thr :: "tid \<Rightarrow> (rt_thread \<Rightarrow> rt_thread) \<Rightarrow> kstate \<Rightarrow> kstate" where
  "upd_thr t f s = s\<lparr>thr := (thr s)(t := f (thr s t))\<rparr>"

text \<open>\<^verbatim>\<open>thread->stat & RT_THREAD_STAT_MASK\<close>, and \<^verbatim>\<open>stat = v | (stat & ~MASK)\<close>.\<close>

definition tstat :: "rt_thread \<Rightarrow> rt_uint8_t" where
  "tstat th = th_stat th AND RT_THREAD_STAT_MASK"

definition set_stat :: "rt_uint8_t \<Rightarrow> rt_thread \<Rightarrow> rt_thread" where
  "set_stat v th = th\<lparr>th_stat := v OR (th_stat th AND NOT RT_THREAD_STAT_MASK)\<rparr>"

text \<open>The list macros on \<^verbatim>\<open>thread->tlist\<close>.\<close>

definition list_remove :: "tid \<Rightarrow> kstate \<Rightarrow> kstate" where
  "list_remove t s = s\<lparr>tq := (\<lambda>h. remove1 t (tq s h))\<rparr>"

definition list_insert_before :: "qhead \<Rightarrow> tid \<Rightarrow> kstate \<Rightarrow> kstate" where
  "list_insert_before h t s = s\<lparr>tq := (tq s)(h := tq s h @ [t])\<rparr>"

definition list_insert_after :: "qhead \<Rightarrow> tid \<Rightarrow> kstate \<Rightarrow> kstate" where
  "list_insert_after h t s = s\<lparr>tq := (tq s)(h := t # tq s h)\<rparr>"

section \<open>Operations\<close>

definition get_highest_priority_thread :: "kstate \<Rightarrow> tid option \<times> nat" where
  "get_highest_priority_thread s =
    (let highest_ready_priority = rt_ffs_cpu (rt_thread_ready_priority_group s) - 1
     in (case tq s (Ready highest_ready_priority) of [] \<Rightarrow> None | t # _ \<Rightarrow> Some t,
         highest_ready_priority))"

definition rt_system_scheduler_init :: "kstate \<Rightarrow> kstate" where
  "rt_system_scheduler_init s =
    s\<lparr>rt_scheduler_lock_nest := 0,
      tq := (\<lambda>h. case h of Ready p \<Rightarrow> (if p < RT_THREAD_PRIORITY_MAX then [] else tq s h)
                         | Defunct \<Rightarrow> [] | _ \<Rightarrow> tq s h),
      rt_thread_ready_priority_group := 0\<rparr>"

definition rt_schedule_insert_thread :: "tid \<Rightarrow> kstate \<Rightarrow> kstate" where
  "rt_schedule_insert_thread t s =
    (if rt_current_thread s = Some t then upd_thr t (set_stat RT_THREAD_RUNNING) s
     else
       let s1 = upd_thr t (set_stat RT_THREAD_READY) s;
           s2 = list_insert_before (Ready (unat (th_current_priority (thr s1 t)))) t s1
       in s2\<lparr>rt_thread_ready_priority_group :=
              rt_thread_ready_priority_group s2 OR th_number_mask (thr s2 t)\<rparr>)"

definition rt_schedule_remove_thread :: "tid \<Rightarrow> kstate \<Rightarrow> kstate" where
  "rt_schedule_remove_thread t s =
    (let s1 = list_remove t s in
     if tq s1 (Ready (unat (th_current_priority (thr s1 t)))) = []
     then s1\<lparr>rt_thread_ready_priority_group :=
               rt_thread_ready_priority_group s1 AND NOT (th_number_mask (thr s1 t))\<rparr>
     else s1)"

definition rt_system_scheduler_start :: "kstate \<Rightarrow> kstate" where
  "rt_system_scheduler_start s =
    (case get_highest_priority_thread s of
       (None, _) \<Rightarrow> s\<lparr>kfault := True\<rparr>
     | (Some to_thread, _) \<Rightarrow>
         upd_thr to_thread (\<lambda>th. th\<lparr>th_stat := RT_THREAD_RUNNING\<rparr>)
           (rt_schedule_remove_thread to_thread (s\<lparr>rt_current_thread := Some to_thread\<rparr>)))"

definition rt_schedule :: "kstate \<Rightarrow> kstate" where
  "rt_schedule s =
    (if rt_scheduler_lock_nest s = 0 \<and> rt_thread_ready_priority_group s \<noteq> 0 then
       (case (get_highest_priority_thread s, rt_current_thread s) of
          ((Some highest, highest_ready_priority), Some cur) \<Rightarrow>
            let th = thr s cur;
                running = (tstat th = RT_THREAD_RUNNING);
                prio = unat (th_current_priority th);
                keep = (running \<and> (prio < highest_ready_priority \<or>
                          prio = highest_ready_priority \<and> th_stat th AND RT_THREAD_STAT_YIELD = 0));
                need_insert_from_thread = (running \<and> \<not> keep);
                to_thread = (if keep then cur else highest);
                s1 = (if need_insert_from_thread
                      then upd_thr cur (\<lambda>th. th\<lparr>th_stat := th_stat th AND NOT RT_THREAD_STAT_YIELD\<rparr>) s
                      else s)
            in if to_thread \<noteq> cur then
                 let s2 = s1\<lparr>rt_current_priority := word_of_nat highest_ready_priority,
                             rt_current_thread := Some to_thread\<rparr>;
                     s3 = (if need_insert_from_thread then rt_schedule_insert_thread cur s2 else s2);
                     s4 = rt_schedule_remove_thread to_thread s3
                 in upd_thr to_thread (set_stat RT_THREAD_RUNNING) s4
               else
                 upd_thr cur (set_stat RT_THREAD_RUNNING) (rt_schedule_remove_thread cur s1)
        | _ \<Rightarrow> s\<lparr>kfault := True\<rparr>)
     else s)"

definition rt_enter_critical :: "kstate \<Rightarrow> kstate" where
  "rt_enter_critical s = s\<lparr>rt_scheduler_lock_nest := rt_scheduler_lock_nest s + 1\<rparr>"

definition rt_exit_critical :: "kstate \<Rightarrow> kstate" where
  "rt_exit_critical s =
    (let nest = rt_scheduler_lock_nest s - 1 in
     if sint nest \<le> 0 then
       let s1 = s\<lparr>rt_scheduler_lock_nest := 0\<rparr> in
       if rt_current_thread s1 \<noteq> None then rt_schedule s1 else s1
     else s\<lparr>rt_scheduler_lock_nest := nest\<rparr>)"

definition rt_critical_level :: "kstate \<Rightarrow> rt_uint16_t" where
  "rt_critical_level s = rt_scheduler_lock_nest s"

section \<open>Thread states\<close>

lemma thread_stat_distinct [simp]:
  "RT_THREAD_INIT \<noteq> RT_THREAD_READY" "RT_THREAD_INIT \<noteq> RT_THREAD_SUSPEND"
  "RT_THREAD_INIT \<noteq> RT_THREAD_RUNNING" "RT_THREAD_INIT \<noteq> RT_THREAD_CLOSE"
  "RT_THREAD_READY \<noteq> RT_THREAD_INIT" "RT_THREAD_READY \<noteq> RT_THREAD_SUSPEND"
  "RT_THREAD_READY \<noteq> RT_THREAD_RUNNING" "RT_THREAD_READY \<noteq> RT_THREAD_CLOSE"
  "RT_THREAD_SUSPEND \<noteq> RT_THREAD_INIT" "RT_THREAD_SUSPEND \<noteq> RT_THREAD_READY"
  "RT_THREAD_SUSPEND \<noteq> RT_THREAD_RUNNING" "RT_THREAD_SUSPEND \<noteq> RT_THREAD_CLOSE"
  "RT_THREAD_RUNNING \<noteq> RT_THREAD_INIT" "RT_THREAD_RUNNING \<noteq> RT_THREAD_READY"
  "RT_THREAD_RUNNING \<noteq> RT_THREAD_SUSPEND" "RT_THREAD_RUNNING \<noteq> RT_THREAD_CLOSE"
  "RT_THREAD_CLOSE \<noteq> RT_THREAD_INIT" "RT_THREAD_CLOSE \<noteq> RT_THREAD_READY"
  "RT_THREAD_CLOSE \<noteq> RT_THREAD_SUSPEND" "RT_THREAD_CLOSE \<noteq> RT_THREAD_RUNNING"
  by (simp_all add: thread_stat_defs)

lemma thread_stat_masked:
  "RT_THREAD_INIT AND RT_THREAD_STAT_MASK = RT_THREAD_INIT"
  "RT_THREAD_READY AND RT_THREAD_STAT_MASK = RT_THREAD_READY"
  "RT_THREAD_SUSPEND AND RT_THREAD_STAT_MASK = RT_THREAD_SUSPEND"
  "RT_THREAD_RUNNING AND RT_THREAD_STAT_MASK = RT_THREAD_RUNNING"
  "RT_THREAD_CLOSE AND RT_THREAD_STAT_MASK = RT_THREAD_CLOSE"
  by (simp_all add: thread_stat_defs)

lemma tstat_set_stat [simp]:
  "tstat (set_stat RT_THREAD_READY th) = RT_THREAD_READY"
  "tstat (set_stat RT_THREAD_SUSPEND th) = RT_THREAD_SUSPEND"
  "tstat (set_stat RT_THREAD_RUNNING th) = RT_THREAD_RUNNING"
  by (simp_all add: tstat_def set_stat_def word_and_or_low thread_stat_masked)

lemma tstat_assign [simp]:
  "tstat (th\<lparr>th_stat := RT_THREAD_INIT\<rparr>) = RT_THREAD_INIT"
  "tstat (th\<lparr>th_stat := RT_THREAD_SUSPEND\<rparr>) = RT_THREAD_SUSPEND"
  "tstat (th\<lparr>th_stat := RT_THREAD_RUNNING\<rparr>) = RT_THREAD_RUNNING"
  "tstat (th\<lparr>th_stat := RT_THREAD_CLOSE\<rparr>) = RT_THREAD_CLOSE"
  by (simp_all add: tstat_def thread_stat_masked)

lemma tstat_clear_yield [simp]:
  "tstat (th\<lparr>th_stat := th_stat th AND NOT RT_THREAD_STAT_YIELD\<rparr>) = tstat th"
proof -
  have "(NOT RT_THREAD_STAT_YIELD) AND RT_THREAD_STAT_MASK = RT_THREAD_STAT_MASK"
    by (simp add: thread_stat_defs)
  then show ?thesis by (simp add: tstat_def and.assoc)
qed

lemma tstat_set_yield [simp]:
  "tstat (th\<lparr>th_stat := th_stat th OR RT_THREAD_STAT_YIELD\<rparr>) = tstat th"
proof -
  have "RT_THREAD_STAT_YIELD AND RT_THREAD_STAT_MASK = 0"
    by (simp add: thread_stat_defs)
  then show ?thesis by (simp add: tstat_def bit.conj_disj_distrib2)
qed

lemma set_stat_fields [simp]:
  "th_current_priority (set_stat v th) = th_current_priority th"
  "th_number_mask (set_stat v th) = th_number_mask th"
  "th_init_priority (set_stat v th) = th_init_priority th"
  "th_error (set_stat v th) = th_error th"
  by (simp_all add: set_stat_def)

section \<open>The scheduler invariant\<close>

text \<open>The state a thread has while it is linked into a list.\<close>

definition qstat :: "qhead \<Rightarrow> rt_uint8_t" where
  "qstat h = (case h of Ready _ \<Rightarrow> RT_THREAD_READY | Defunct \<Rightarrow> RT_THREAD_CLOSE
              | _ \<Rightarrow> RT_THREAD_SUSPEND)"

lemma qstat_simps [simp]:
  "qstat (Ready p) = RT_THREAD_READY" "qstat Defunct = RT_THREAD_CLOSE"
  "qstat (SemQ a) = RT_THREAD_SUSPEND" "qstat (MutexQ a) = RT_THREAD_SUSPEND"
  "qstat (EventQ a) = RT_THREAD_SUSPEND" "qstat (MailboxQ a) = RT_THREAD_SUSPEND"
  "qstat (MailboxSendQ a) = RT_THREAD_SUSPEND" "qstat (MqQ a) = RT_THREAD_SUSPEND"
  "qstat (MqSendQ a) = RT_THREAD_SUSPEND" "qstat (MempoolQ a) = RT_THREAD_SUSPEND"
  "qstat (CompletionQ a) = RT_THREAD_SUSPEND" "qstat (DqPushQ a) = RT_THREAD_SUSPEND"
  "qstat (DqPopQ a) = RT_THREAD_SUSPEND"
  by (simp_all add: qstat_def)

lemma qstat_ready_iff: "qstat h = RT_THREAD_READY \<longleftrightarrow> (\<exists>p. h = Ready p)"
  by (cases h) auto

abbreviation prio_of :: "rt_thread \<Rightarrow> nat" where
  "prio_of th \<equiv> unat (th_current_priority th)"

abbreviation prio_mask :: "rt_thread \<Rightarrow> rt_uint32_t" where
  "prio_mask th \<equiv> push_bit (prio_of th) 1"

definition started :: "rt_thread \<Rightarrow> bool" where
  "started th \<longleftrightarrow> tstat th \<in> {RT_THREAD_READY, RT_THREAD_SUSPEND, RT_THREAD_RUNNING}"

text \<open>
  The four parts of the invariant. While an operation runs, threads can be in transit: \<open>X\<close>
  are threads that are not linked anywhere, \<open>Y\<close> threads whose state is about to be assigned.
\<close>

definition queue_inv :: "tid set \<Rightarrow> (tid \<Rightarrow> rt_thread) \<Rightarrow> (qhead \<Rightarrow> tid list) \<Rightarrow> bool" where
  "queue_inv X th q \<longleftrightarrow>
    (\<forall>h. distinct (q h)) \<and>
    (\<forall>h h' t. t \<in> set (q h) \<longrightarrow> t \<in> set (q h') \<longrightarrow> h = h') \<and>
    (\<forall>h t. t \<in> set (q h) \<longrightarrow> t \<notin> X \<and> tstat (th t) = qstat h) \<and>
    (\<forall>p t. t \<in> set (q (Ready p)) \<longrightarrow> prio_of (th t) = p)"

definition bitmap_inv :: "(qhead \<Rightarrow> tid list) \<Rightarrow> rt_uint32_t \<Rightarrow> bool" where
  "bitmap_inv q g \<longleftrightarrow> (\<forall>p. bit g p \<longleftrightarrow> q (Ready p) \<noteq> [])"

definition mask_ok :: "rt_thread \<Rightarrow> bool" where
  "mask_ok th \<longleftrightarrow>
    (th_number_mask th = 0 \<or> th_number_mask th = prio_mask th) \<and>
    (started th \<longrightarrow> prio_of th < 32 \<and> th_number_mask th = prio_mask th)"

definition state_inv ::
    "tid set \<Rightarrow> (tid \<Rightarrow> rt_thread) \<Rightarrow> (qhead \<Rightarrow> tid list) \<Rightarrow> tid option \<Rightarrow> bool" where
  "state_inv Y th q cur \<longleftrightarrow>
    (\<forall>t. t \<notin> Y \<longrightarrow>
      (tstat (th t) = RT_THREAD_READY \<longrightarrow> t \<in> set (q (Ready (prio_of (th t))))) \<and>
      (tstat (th t) = RT_THREAD_RUNNING \<longrightarrow> cur = Some t) \<and>
      (cur = Some t \<longrightarrow> tstat (th t) \<noteq> RT_THREAD_READY))"

definition sched_inv_on :: "tid set \<Rightarrow> tid set \<Rightarrow> kstate \<Rightarrow> bool" where
  "sched_inv_on X Y s \<longleftrightarrow>
    queue_inv X (thr s) (tq s) \<and> bitmap_inv (tq s) (rt_thread_ready_priority_group s) \<and>
    (\<forall>t. mask_ok (thr s t)) \<and> state_inv Y (thr s) (tq s) (rt_current_thread s)"

definition sched_inv :: "kstate \<Rightarrow> bool" where
  "sched_inv s \<longleftrightarrow> sched_inv_on {} {} s"

lemmas sched_inv_defs = sched_inv_on_def queue_inv_def bitmap_inv_def state_inv_def

text \<open>
  The fields the scheduler reads and the fields that hold IPC objects. Operations that leave
  one of these views alone are framed away by the rules below.
\<close>

definition sview :: "kstate \<Rightarrow> (tid \<Rightarrow> rt_thread) \<times> (qhead \<Rightarrow> tid list) \<times> rt_uint32_t \<times>
    tid option \<times> rt_int16_t" where
  "sview s = (thr s, tq s, rt_thread_ready_priority_group s, rt_current_thread s,
     rt_scheduler_lock_nest s)"

definition iview :: "kstate \<Rightarrow> (addr \<Rightarrow> rt_semaphore) \<times> (addr \<Rightarrow> rt_mutex) \<times> (addr \<Rightarrow> rt_event) \<times>
    (addr \<Rightarrow> rt_mailbox) \<times> (addr \<Rightarrow> rt_messagequeue) \<times> (addr \<Rightarrow> rt_mempool) \<times> (addr \<Rightarrow> block_word) \<times>
    (addr \<Rightarrow> rt_completion) \<times> (addr \<Rightarrow> rt_data_queue) \<times> (addr \<Rightarrow> rt_wqueue) \<times>
    (addr \<Rightarrow> rt_wqueue_node) \<times> (addr \<Rightarrow> rt_workqueue) \<times> (addr \<Rightarrow> rt_work) \<times> (addr \<Rightarrow> rt_device)" where
  "iview s = (sems s, mutexes s, events s, mailboxes s, messagequeues s, mempools s, block_words s,
    completions s, dataqueues s, wqueues s, wqueue_nodes s, workqueues s, works s, devices s)"

lemma sviewD:
  assumes "sview s' = sview s"
  shows "thr s' = thr s" "tq s' = tq s"
    "rt_thread_ready_priority_group s' = rt_thread_ready_priority_group s"
    "rt_current_thread s' = rt_current_thread s"
    "rt_scheduler_lock_nest s' = rt_scheduler_lock_nest s"
  using assms by (simp_all add: sview_def)

lemma iviewD:
  assumes "iview s' = iview s"
  shows "sems s' = sems s" "mutexes s' = mutexes s" "events s' = events s"
    "mailboxes s' = mailboxes s" "messagequeues s' = messagequeues s" "mempools s' = mempools s"
    "block_words s' = block_words s" "completions s' = completions s" "dataqueues s' = dataqueues s"
    "wqueues s' = wqueues s" "wqueue_nodes s' = wqueue_nodes s" "workqueues s' = workqueues s"
    "works s' = works s" "devices s' = devices s"
  using assms by (simp_all add: iview_def)

lemma sched_inv_on_sview: "sview s' = sview s \<Longrightarrow> sched_inv_on X Y s' = sched_inv_on X Y s"
  by (simp add: sched_inv_on_def sview_def)

lemma sched_inv_sview: "sview s' = sview s \<Longrightarrow> sched_inv s' = sched_inv s"
  unfolding sched_inv_def by (rule sched_inv_on_sview)

lemma sched_inv_frame: "sview s' = sview s \<Longrightarrow> sched_inv s \<Longrightarrow> sched_inv s'"
  by (simp only: sched_inv_sview [of s' s])

lemma sview_RT_ASSERT [simp]: "sview (RT_ASSERT b s) = sview s"
  and iview_RT_ASSERT [simp]: "iview (RT_ASSERT b s) = iview s"
  by (simp_all add: RT_ASSERT_def sview_def iview_def)

lemmas sched_inv_RT_ASSERT [simp] = sview_RT_ASSERT [THEN sched_inv_sview]

lemma iview_fields [simp]:
  "iview (s\<lparr>rt_current_priority := p\<rparr>) = iview s"
  "iview (s\<lparr>rt_current_thread := c\<rparr>) = iview s"
  "iview (s\<lparr>rt_thread_ready_priority_group := g\<rparr>) = iview s"
  "iview (s\<lparr>rt_scheduler_lock_nest := n\<rparr>) = iview s"
  "iview (s\<lparr>thr := f\<rparr>) = iview s" "iview (s\<lparr>tq := q\<rparr>) = iview s"
  "iview (s\<lparr>kfault := b\<rparr>) = iview s"
  by (simp_all add: iview_def)

lemma iview_scheduler [simp]:
  "iview (upd_thr t f s) = iview s" "iview (list_remove t s) = iview s"
  "iview (list_insert_before h t s) = iview s" "iview (list_insert_after h t s) = iview s"
  by (simp_all add: iview_def upd_thr_def list_remove_def list_insert_before_def
      list_insert_after_def)

lemma sched_inv_on_linked_unique:
  assumes "sched_inv_on X Y s" "t \<in> set (tq s h)" "t \<in> set (tq s h')"
  shows "h = h'"
  using assms by (auto simp: sched_inv_on_def queue_inv_def)

lemma queue_inv_remove:
  assumes "queue_inv X th q"
  shows "queue_inv (insert t X) th (\<lambda>h. remove1 t (q h))"
proof -
  have d: "distinct (q h)" for h using assms by (simp add: queue_inv_def)
  have m: "u \<in> set (remove1 t (q h)) \<longleftrightarrow> u \<in> set (q h) \<and> u \<noteq> t" for u h
    using d by (simp add: set_remove1_eq)
  show ?thesis
    using assms by (auto simp: queue_inv_def m)
qed

lemma bitmap_remove:
  assumes q: "queue_inv X th q" and b: "bitmap_inv q g" and m: "mask_ok (th t)"
  shows "bitmap_inv (\<lambda>h. remove1 t (q h))
    (if remove1 t (q (Ready (prio_of (th t)))) = [] then g AND NOT (th_number_mask (th t)) else g)"
proof -
  let ?p = "prio_of (th t)"
  have ne: "remove1 t (q (Ready p)) = q (Ready p)" if "p \<noteq> ?p" for p
  proof -
    have "t \<notin> set (q (Ready p))" using q that by (auto simp: queue_inv_def)
    then show ?thesis by simp
  qed
  have mask: "th_number_mask (th t) = 0 \<or> th_number_mask (th t) = push_bit ?p 1"
    using m by (simp add: mask_ok_def)
  have clear: "bit (g AND NOT (th_number_mask (th t))) p \<longleftrightarrow> bit g p" if "p \<noteq> ?p" for p
    using mask that by (auto simp: bit_and_not_single)
  have at: "\<not> bit (g AND NOT (th_number_mask (th t))) ?p" if "remove1 t (q (Ready ?p)) = []"
  proof (cases "t \<in> set (q (Ready ?p))")
    case True
    then have "tstat (th t) = qstat (Ready ?p)" using q unfolding queue_inv_def by blast
    then have "started (th t)" by (simp add: started_def)
    then have "th_number_mask (th t) = push_bit ?p 1" using m by (simp add: mask_ok_def)
    then show ?thesis by (simp add: bit_and_not_single)
  next
    case False
    then have "\<not> bit g ?p" using b that by (simp add: bitmap_inv_def)
    then show ?thesis by (simp add: bit_and_iff)
  qed
  show ?thesis
    unfolding bitmap_inv_def
  proof (rule allI)
    fix p
    show "bit (if remove1 t (q (Ready ?p)) = [] then g AND NOT (th_number_mask (th t)) else g) p
      = (remove1 t (q (Ready p)) \<noteq> [])"
    proof (cases "p = ?p")
      case True
      show ?thesis
      proof (cases "remove1 t (q (Ready ?p)) = []")
        case True
        with \<open>p = ?p\<close> at show ?thesis by simp
      next
        case False
        then have "q (Ready ?p) \<noteq> []" by auto
        with b False \<open>p = ?p\<close> show ?thesis by (simp add: bitmap_inv_def)
      qed
    next
      case False
      with b ne clear show ?thesis by (simp add: bitmap_inv_def)
    qed
  qed
qed

lemma remove_thread_simps [simp]:
  "thr (rt_schedule_remove_thread t s) = thr s"
  "tq (rt_schedule_remove_thread t s) h = remove1 t (tq s h)"
  "rt_current_thread (rt_schedule_remove_thread t s) = rt_current_thread s"
  "rt_scheduler_lock_nest (rt_schedule_remove_thread t s) = rt_scheduler_lock_nest s"
  "kfault (rt_schedule_remove_thread t s) = kfault s"
  by (simp_all add: rt_schedule_remove_thread_def list_remove_def Let_def)

lemma remove_thread_inv:
  assumes "sched_inv_on X Y s"
  shows "sched_inv_on (insert t X) (insert t Y) (rt_schedule_remove_thread t s)"
proof -
  have q: "tq (rt_schedule_remove_thread t s) = (\<lambda>h. remove1 t (tq s h))" by (rule ext) simp
  have g: "rt_thread_ready_priority_group (rt_schedule_remove_thread t s) =
    (if remove1 t (tq s (Ready (prio_of (thr s t)))) = []
     then rt_thread_ready_priority_group s AND NOT (th_number_mask (thr s t))
     else rt_thread_ready_priority_group s)"
    by (simp add: rt_schedule_remove_thread_def list_remove_def Let_def)
  have "state_inv (insert t Y) (thr s) (\<lambda>h. remove1 t (tq s h)) (rt_current_thread s)"
    using assms by (auto simp: sched_inv_on_def state_inv_def in_set_remove1)
  with assms show ?thesis
    unfolding sched_inv_on_def q g remove_thread_simps
    using queue_inv_remove bitmap_remove by blast
qed

text \<open>Assigning a state to a thread in transit puts it back under the invariant.\<close>

lemma upd_thr_simps [simp]:
  "thr (upd_thr t f s) = (thr s)(t := f (thr s t))"
  "tq (upd_thr t f s) = tq s"
  "rt_thread_ready_priority_group (upd_thr t f s) = rt_thread_ready_priority_group s"
  "rt_current_thread (upd_thr t f s) = rt_current_thread s"
  "rt_scheduler_lock_nest (upd_thr t f s) = rt_scheduler_lock_nest s"
  "kfault (upd_thr t f s) = kfault s"
  by (simp_all add: upd_thr_def)

lemma settle_inv:
  assumes inv: "sched_inv_on (insert t X) (insert t Y) s" and m: "mask_ok (f (thr s t))"
    and st: "tstat (f (thr s t)) \<noteq> RT_THREAD_READY"
      "tstat (f (thr s t)) = RT_THREAD_RUNNING \<Longrightarrow> rt_current_thread s = Some t"
  shows "sched_inv_on X Y (upd_thr t f s)"
proof -
  have t: "t \<notin> set (tq s h)" for h using inv by (auto simp: sched_inv_on_def queue_inv_def)
  have n: "u \<noteq> t" if "u \<in> set (tq s h)" for u h using t that by auto
  have "queue_inv X ((thr s)(t := f (thr s t))) (tq s)"
    using inv n unfolding sched_inv_on_def queue_inv_def by auto
  moreover have "state_inv Y ((thr s)(t := f (thr s t))) (tq s) (rt_current_thread s)"
    using inv st unfolding sched_inv_on_def state_inv_def by auto
  ultimately show ?thesis
    using inv m by (simp add: sched_inv_on_def)
qed

lemma insert_thread_inv:
  assumes inv: "sched_inv_on (insert t X) (insert t Y) s" and X: "t \<notin> X"
    and m: "prio_of (thr s t) < 32" "th_number_mask (thr s t) = prio_mask (thr s t)"
  shows "sched_inv_on X Y (rt_schedule_insert_thread t s)"
proof (cases "rt_current_thread s = Some t")
  case True
  have "mask_ok (set_stat RT_THREAD_RUNNING (thr s t))"
    using m by (simp add: mask_ok_def)
  with True inv show ?thesis
    by (simp add: rt_schedule_insert_thread_def settle_inv)
next
  case False
  let ?p = "prio_of (thr s t)"
  let ?th = "(thr s)(t := set_stat RT_THREAD_READY (thr s t))"
  let ?q = "(tq s)(Ready ?p := tq s (Ready ?p) @ [t])"
  let ?g = "rt_thread_ready_priority_group s OR push_bit ?p 1"
  have t: "t \<notin> set (tq s h)" for h using inv by (auto simp: sched_inv_on_def queue_inv_def)
  have n: "u \<noteq> t" if "u \<in> set (tq s h)" for u h using t that by auto
  have "queue_inv X ?th ?q"
    using inv X t n unfolding sched_inv_on_def queue_inv_def
    by (auto simp: qstat_ready_iff)
  moreover have "bitmap_inv ?q ?g"
    using inv m by (auto simp: sched_inv_on_def bitmap_inv_def bit_or_single)
  moreover have "\<forall>u. mask_ok (?th u)"
    using inv m by (simp add: sched_inv_on_def mask_ok_def)
  moreover have "state_inv Y ?th ?q (rt_current_thread s)"
    using inv False unfolding sched_inv_on_def state_inv_def by auto
  ultimately show ?thesis
    using False m
    by (simp add: rt_schedule_insert_thread_def sched_inv_on_def list_insert_before_def Let_def)
qed


lemma insert_thread_simps [simp]:
  "rt_current_thread (rt_schedule_insert_thread t s) = rt_current_thread s"
  "rt_scheduler_lock_nest (rt_schedule_insert_thread t s) = rt_scheduler_lock_nest s"
  "kfault (rt_schedule_insert_thread t s) = kfault s"
  "u \<noteq> t \<Longrightarrow> thr (rt_schedule_insert_thread t s) u = thr s u"
  "th_current_priority (thr (rt_schedule_insert_thread t s) u) = th_current_priority (thr s u)"
  "th_number_mask (thr (rt_schedule_insert_thread t s) u) = th_number_mask (thr s u)"
  by (auto simp: rt_schedule_insert_thread_def list_insert_before_def Let_def)

lemma highest_ready:
  assumes inv: "sched_inv_on X Y s" and g: "rt_thread_ready_priority_group s \<noteq> 0"
  obtains t rest p where "get_highest_priority_thread s = (Some t, p)"
    "tq s (Ready p) = t # rest" "\<And>p' u. u \<in> set (tq s (Ready p')) \<Longrightarrow> p \<le> p'"
proof -
  obtain p where p: "builtin_ffs (rt_thread_ready_priority_group s) = Suc p"
    "bit (rt_thread_ready_priority_group s) p"
    "\<forall>j<p. \<not> bit (rt_thread_ready_priority_group s) j"
    using builtin_ffs_nonzero [OF g] by metis
  have b: "bit (rt_thread_ready_priority_group s) j \<longleftrightarrow> tq s (Ready j) \<noteq> []" for j
    using inv by (simp add: sched_inv_on_def bitmap_inv_def)
  then obtain t rest where "tq s (Ready p) = t # rest"
    using p(2) by (meson list.exhaust)
  moreover from this p(1) have "get_highest_priority_thread s = (Some t, p)"
    by (simp add: get_highest_priority_thread_def rt_ffs_cpu_def)
  moreover have "p \<le> p'" if "u \<in> set (tq s (Ready p'))" for p' u
    using that p(3) b [of p'] by (metis list.set(1) empty_iff not_le_imp_less)
  ultimately show ?thesis using that by blast
qed

text \<open>Facts that follow from the invariant for a thread in a given state.\<close>

lemma ready_linked:
  assumes "sched_inv s" "tstat (thr s t) = RT_THREAD_READY"
  shows "t \<in> set (tq s (Ready (prio_of (thr s t))))"
  using assms by (simp add: sched_inv_def sched_inv_on_def state_inv_def)

lemma linked_stat:
  assumes "sched_inv_on X Y s" "t \<in> set (tq s h)"
  shows "tstat (thr s t) = qstat h"
  using assms by (simp add: sched_inv_on_def queue_inv_def)

lemma ready_prio:
  assumes "sched_inv_on X Y s" "t \<in> set (tq s (Ready p))"
  shows "prio_of (thr s t) = p"
  using assms by (simp add: sched_inv_on_def queue_inv_def)

lemma running_unlinked:
  assumes "sched_inv_on X Y s" "tstat (thr s t) = RT_THREAD_RUNNING"
  shows "t \<notin> set (tq s h)"
  using linked_stat [OF assms(1), of t h] assms(2) by (cases h) auto

lemma started_mask:
  assumes "sched_inv_on X Y s" "started (thr s t)"
  shows "prio_of (thr s t) < 32" "th_number_mask (thr s t) = prio_mask (thr s t)"
  using assms by (simp_all add: sched_inv_on_def mask_ok_def)

text \<open>Updates that keep state, priority and mask of a thread are invisible to the invariant.\<close>

lemma upd_thr_invisible:
  assumes "sched_inv_on X Y s" "tstat (f (thr s t)) = tstat (thr s t)"
    "th_current_priority (f (thr s t)) = th_current_priority (thr s t)"
    "th_number_mask (f (thr s t)) = th_number_mask (thr s t)"
  shows "sched_inv_on X Y (upd_thr t f s)"
proof -
  have "started (f (thr s t)) = started (thr s t)" using assms(2) by (simp add: started_def)
  with assms show ?thesis
    by (auto simp: sched_inv_on_def queue_inv_def state_inv_def mask_ok_def)
qed

text \<open>The steps of a context switch.\<close>

lemma switch_current_inv:
  assumes inv: "sched_inv_on {} {} s" and cur: "rt_current_thread s = Some cur"
    and ne: "to_thread \<noteq> cur"
  shows "tstat (thr s cur) = RT_THREAD_RUNNING \<Longrightarrow>
      sched_inv_on {cur} {cur, to_thread} (s\<lparr>rt_current_priority := p, rt_current_thread := Some to_thread\<rparr>)"
    and "tstat (thr s cur) \<noteq> RT_THREAD_RUNNING \<Longrightarrow>
      sched_inv_on {} {to_thread} (s\<lparr>rt_current_priority := p, rt_current_thread := Some to_thread\<rparr>)"
proof -
  have run: "tstat (thr s t) = RT_THREAD_RUNNING \<Longrightarrow> t = cur" for t
    using inv cur by (simp add: sched_inv_on_def state_inv_def)
  show "sched_inv_on {cur} {cur, to_thread} (s\<lparr>rt_current_priority := p, rt_current_thread := Some to_thread\<rparr>)"
    if "tstat (thr s cur) = RT_THREAD_RUNNING"
  proof -
    have "cur \<notin> set (tq s h)" for h using running_unlinked inv that by blast
    then show ?thesis
      using inv run unfolding sched_inv_on_def queue_inv_def state_inv_def by auto
  qed
  show "sched_inv_on {} {to_thread} (s\<lparr>rt_current_priority := p, rt_current_thread := Some to_thread\<rparr>)"
    if "tstat (thr s cur) \<noteq> RT_THREAD_RUNNING"
    using inv run that unfolding sched_inv_on_def queue_inv_def state_inv_def by auto
qed

lemma dispatch_inv:
  assumes inv: "sched_inv_on {} {t} s" and cur: "rt_current_thread s = Some t"
    and st: "prio_of (thr s t) < 32" "th_number_mask (thr s t) = prio_mask (thr s t)"
  shows "sched_inv (upd_thr t (set_stat RT_THREAD_RUNNING) (rt_schedule_remove_thread t s))"
proof -
  have "sched_inv_on (insert t {}) (insert t {}) (rt_schedule_remove_thread t s)"
    using remove_thread_inv [OF inv, of t] by simp
  then show ?thesis
    unfolding sched_inv_def by (rule settle_inv) (use cur st in \<open>simp_all add: mask_ok_def\<close>)
qed


text \<open>
  The three outcomes of \<open>rt_schedule\<close> with an unlocked scheduler and a ready thread: the
  current thread keeps the processor, is preempted, or has already given it up.
\<close>

definition schedule_keeps :: "rt_thread \<Rightarrow> nat \<Rightarrow> bool" where
  "schedule_keeps th hp \<longleftrightarrow> tstat th = RT_THREAD_RUNNING \<and>
    (prio_of th < hp \<or> prio_of th = hp \<and> th_stat th AND RT_THREAD_STAT_YIELD = 0)"

definition schedule_switch :: "tid \<Rightarrow> nat \<Rightarrow> kstate \<Rightarrow> kstate" where
  "schedule_switch to_thread hp s =
    s\<lparr>rt_current_priority := word_of_nat hp, rt_current_thread := Some to_thread\<rparr>"

definition clear_yield :: "rt_thread \<Rightarrow> rt_thread" where
  "clear_yield th = th\<lparr>th_stat := th_stat th AND NOT RT_THREAD_STAT_YIELD\<rparr>"

lemma clear_yield_simps [simp]:
  "tstat (clear_yield th) = tstat th"
  "th_current_priority (clear_yield th) = th_current_priority th"
  "th_number_mask (clear_yield th) = th_number_mask th"
  by (simp_all add: clear_yield_def)

lemma rt_schedule_idle:
  "rt_scheduler_lock_nest s \<noteq> 0 \<or> rt_thread_ready_priority_group s = 0 \<Longrightarrow> rt_schedule s = s"
  by (auto simp: rt_schedule_def)

lemma rt_schedule_eq:
  assumes "rt_scheduler_lock_nest s = 0" "rt_thread_ready_priority_group s \<noteq> 0"
    "get_highest_priority_thread s = (Some t, hp)" "rt_current_thread s = Some cur" "t \<noteq> cur"
  shows "schedule_keeps (thr s cur) hp \<Longrightarrow> rt_schedule s =
      upd_thr cur (set_stat RT_THREAD_RUNNING) (rt_schedule_remove_thread cur s)"
    and "\<not> schedule_keeps (thr s cur) hp \<Longrightarrow> tstat (thr s cur) = RT_THREAD_RUNNING \<Longrightarrow>
      rt_schedule s = upd_thr t (set_stat RT_THREAD_RUNNING) (rt_schedule_remove_thread t
        (rt_schedule_insert_thread cur (schedule_switch t hp (upd_thr cur clear_yield s))))"
    and "tstat (thr s cur) \<noteq> RT_THREAD_RUNNING \<Longrightarrow>
      rt_schedule s = upd_thr t (set_stat RT_THREAD_RUNNING) (rt_schedule_remove_thread t
        (schedule_switch t hp s))"
  using assms
  by (auto simp: rt_schedule_def schedule_keeps_def schedule_switch_def clear_yield_def [abs_def] Let_def)

text \<open>A ready thread is never the current one, so the chosen thread differs from it.\<close>

lemma ready_not_current:
  assumes "sched_inv s" "t \<in> set (tq s (Ready p))"
  shows "rt_current_thread s \<noteq> Some t"
  using assms linked_stat [of "{}" "{}" s t "Ready p"]
  by (auto simp: sched_inv_def sched_inv_on_def state_inv_def)

lemma preempt_inv:
  assumes inv: "sched_inv s" and cur: "rt_current_thread s = Some cur"
    and run: "tstat (thr s cur) = RT_THREAD_RUNNING" and t: "t \<in> set (tq s (Ready p))"
  shows "sched_inv (upd_thr t (set_stat RT_THREAD_RUNNING) (rt_schedule_remove_thread t
        (rt_schedule_insert_thread cur (schedule_switch t hp (upd_thr cur clear_yield s)))))"
proof -
  let ?s1 = "upd_thr cur clear_yield s"
  let ?s2 = "schedule_switch t hp ?s1"
  have ne: "t \<noteq> cur" using ready_not_current [OF inv t] cur by auto
  have i: "sched_inv_on {} {} s" using inv by (simp add: sched_inv_def)
  have i1: "sched_inv_on {} {} ?s1" by (rule upd_thr_invisible [OF i]) simp_all
  have i2: "sched_inv_on (insert cur {}) (insert cur {t}) ?s2"
    unfolding schedule_switch_def
    by (rule switch_current_inv(1) [OF i1]) (use cur ne run in simp_all)
  have mc: "prio_of (thr s cur) < 32" "th_number_mask (thr s cur) = prio_mask (thr s cur)"
    using started_mask [OF i] run by (simp_all add: started_def)
  have mt: "prio_of (thr s t) < 32" "th_number_mask (thr s t) = prio_mask (thr s t)"
    using started_mask [OF i] linked_stat [OF i t] by (simp_all add: started_def)
  have i3: "sched_inv_on {} {t} (rt_schedule_insert_thread cur ?s2)"
    by (rule insert_thread_inv [OF i2]) (use mc in \<open>simp_all add: schedule_switch_def\<close>)
  show ?thesis
    by (rule dispatch_inv [OF i3]) (use ne mt in \<open>simp_all add: schedule_switch_def\<close>)
qed

lemma yielded_inv:
  assumes inv: "sched_inv s" and cur: "rt_current_thread s = Some cur"
    and run: "tstat (thr s cur) \<noteq> RT_THREAD_RUNNING" and t: "t \<in> set (tq s (Ready p))"
  shows "sched_inv (upd_thr t (set_stat RT_THREAD_RUNNING) (rt_schedule_remove_thread t
        (schedule_switch t hp s)))"
proof -
  have ne: "t \<noteq> cur" using ready_not_current [OF inv t] cur by auto
  have i: "sched_inv_on {} {} s" using inv by (simp add: sched_inv_def)
  have mt: "prio_of (thr s t) < 32" "th_number_mask (thr s t) = prio_mask (thr s t)"
    using started_mask [OF i] linked_stat [OF i t] by (simp_all add: started_def)
  have i2: "sched_inv_on {} {t} (schedule_switch t hp s)"
    unfolding schedule_switch_def by (rule switch_current_inv(2) [OF i cur ne run])
  show ?thesis
    by (rule dispatch_inv [OF i2]) (use mt in \<open>simp_all add: schedule_switch_def\<close>)
qed

lemma keep_inv:
  assumes inv: "sched_inv s" and cur: "rt_current_thread s = Some cur"
    and run: "tstat (thr s cur) = RT_THREAD_RUNNING"
  shows "sched_inv (upd_thr cur (set_stat RT_THREAD_RUNNING) (rt_schedule_remove_thread cur s))"
proof (rule dispatch_inv [OF _ cur])
  have i: "sched_inv_on {} {} s" using inv by (simp add: sched_inv_def)
  then show "sched_inv_on {} {cur} s" by (auto simp: sched_inv_on_def state_inv_def)
  show "prio_of (thr s cur) < 32" "th_number_mask (thr s cur) = prio_mask (thr s cur)"
    using started_mask [OF i] run by (simp_all add: started_def)
qed

text \<open>Every call of \<open>rt_schedule\<close> from a consistent state falls under one of these cases.\<close>

lemma rt_schedule_cases:
  assumes inv: "sched_inv s" and cur: "rt_current_thread s = Some cur"
  obtains (idle) "rt_schedule s = s" "rt_scheduler_lock_nest s \<noteq> 0 \<or> rt_thread_ready_priority_group s = 0"
  | (keep) hp where "tstat (thr s cur) = RT_THREAD_RUNNING" "schedule_keeps (thr s cur) hp"
      "\<And>p u. u \<in> set (tq s (Ready p)) \<Longrightarrow> hp \<le> p"
      "rt_schedule s = upd_thr cur (set_stat RT_THREAD_RUNNING) (rt_schedule_remove_thread cur s)"
  | (preempt) t hp where "tstat (thr s cur) = RT_THREAD_RUNNING" "\<not> schedule_keeps (thr s cur) hp"
      "t \<in> set (tq s (Ready hp))" "\<And>p u. u \<in> set (tq s (Ready p)) \<Longrightarrow> hp \<le> p"
      "rt_schedule s = upd_thr t (set_stat RT_THREAD_RUNNING) (rt_schedule_remove_thread t
        (rt_schedule_insert_thread cur (schedule_switch t hp (upd_thr cur clear_yield s))))"
  | (yielded) t hp where "tstat (thr s cur) \<noteq> RT_THREAD_RUNNING"
      "t \<in> set (tq s (Ready hp))" "\<And>p u. u \<in> set (tq s (Ready p)) \<Longrightarrow> hp \<le> p"
      "rt_schedule s = upd_thr t (set_stat RT_THREAD_RUNNING) (rt_schedule_remove_thread t
        (schedule_switch t hp s))"
proof (cases "rt_scheduler_lock_nest s = 0 \<and> rt_thread_ready_priority_group s \<noteq> 0")
  case False
  then show ?thesis using idle rt_schedule_idle by blast
next
  case True
  have i: "sched_inv_on {} {} s" using inv by (simp add: sched_inv_def)
  obtain t rest hp where h: "get_highest_priority_thread s = (Some t, hp)"
    "tq s (Ready hp) = t # rest" "\<And>p u. u \<in> set (tq s (Ready p)) \<Longrightarrow> hp \<le> p"
    using highest_ready [OF i conjunct2 [OF True]] by metis
  have t: "t \<in> set (tq s (Ready hp))" using h(2) by simp
  have ne: "t \<noteq> cur" using ready_not_current [OF inv t] cur by auto
  note eq = rt_schedule_eq [OF conjunct1 [OF True] conjunct2 [OF True] h(1) cur ne]
  consider "schedule_keeps (thr s cur) hp"
    | "\<not> schedule_keeps (thr s cur) hp" "tstat (thr s cur) = RT_THREAD_RUNNING"
    | "tstat (thr s cur) \<noteq> RT_THREAD_RUNNING" by blast
  then show ?thesis
  proof cases
    case 1
    then have "tstat (thr s cur) = RT_THREAD_RUNNING" by (simp add: schedule_keeps_def)
    from keep [OF this 1 h(3) eq(1) [OF 1]] show ?thesis .
  next
    case 2
    from preempt [OF 2(2,1) t h(3) eq(2) [OF 2]] show ?thesis .
  next
    case 3
    from yielded [OF 3 t h(3) eq(3) [OF 3]] show ?thesis .
  qed
qed

lemma rt_schedule_inv:
  assumes inv: "sched_inv s" and cur: "rt_current_thread s = Some cur"
  shows "sched_inv (rt_schedule s)"
proof (cases rule: rt_schedule_cases [OF inv cur, case_names idle keep preempt yielded])
  case idle
  with inv show ?thesis by simp
next
  case keep
  with keep_inv [OF inv cur] show ?thesis by simp
next
  case (preempt t hp)
  with preempt_inv [OF inv cur] show ?thesis by simp
next
  case (yielded t hp)
  with yielded_inv [OF inv cur] show ?thesis by simp
qed

text \<open>
  The queues after a context switch: the chosen thread leaves its queue, a preempted one
  enters the queue of its own priority.
\<close>

lemma tq_insert_thread:
  "rt_current_thread s \<noteq> Some t \<Longrightarrow>
   tq (rt_schedule_insert_thread t s) =
     (tq s)(Ready (prio_of (thr s t)) := tq s (Ready (prio_of (thr s t))) @ [t])"
  by (simp add: rt_schedule_insert_thread_def list_insert_before_def Let_def)

lemma rt_schedule_current:
  assumes inv: "sched_inv s" and cur: "rt_current_thread s = Some cur"
    and "rt_scheduler_lock_nest s = 0"
    and "tstat (thr s cur) = RT_THREAD_RUNNING \<or> rt_thread_ready_priority_group s \<noteq> 0"
  shows "\<exists>c. rt_current_thread (rt_schedule s) = Some c \<and>
    tstat (thr (rt_schedule s) c) = RT_THREAD_RUNNING \<and>
    (\<forall>p u. u \<in> set (tq (rt_schedule s) (Ready p)) \<longrightarrow> prio_of (thr (rt_schedule s) c) \<le> p)"
proof (cases rule: rt_schedule_cases [OF inv cur, case_names idle keep preempt yielded])
  case idle
  have "tq s (Ready p) = []" for p
  proof -
    have "\<not> bit (rt_thread_ready_priority_group s) p" using idle assms(3) by simp
    then show ?thesis using inv by (simp add: sched_inv_def sched_inv_on_def bitmap_inv_def)
  qed
  with idle assms show ?thesis by auto
next
  case (keep hp)
  then have "prio_of (thr s cur) \<le> hp" by (auto simp: schedule_keeps_def)
  with keep cur show ?thesis by (fastforce dest: notin_set_remove1 [rotated] set_remove1_subset [THEN subsetD])
next
  case (preempt t hp)
  have ne: "t \<noteq> cur" using ready_not_current [OF inv preempt(3)] cur by auto
  have "prio_of (thr s t) = hp"
    using ready_prio preempt(3) inv by (auto simp: sched_inv_def)
  moreover have "hp \<le> prio_of (thr s cur)" using preempt(1,2) by (auto simp: schedule_keeps_def)
  ultimately show ?thesis
    using preempt(4) ne unfolding preempt(5)
    by (auto simp: tq_insert_thread schedule_switch_def split: if_splits
        dest!: set_remove1_subset [THEN subsetD])
next
  case (yielded t hp)
  have "prio_of (thr s t) = hp"
    using ready_prio yielded(2) inv by (auto simp: sched_inv_def)
  then show ?thesis
    using yielded(3) unfolding yielded(4)
    by (auto simp: schedule_switch_def dest!: set_remove1_subset [THEN subsetD])
qed

section \<open>The lock and the other entry points\<close>

lemma iview_schedule_insert [simp]: "iview (rt_schedule_insert_thread t s) = iview s"
  by (simp add: rt_schedule_insert_thread_def Let_def)

lemma iview_schedule_remove [simp]: "iview (rt_schedule_remove_thread t s) = iview s"
  by (simp add: rt_schedule_remove_thread_def Let_def)

lemma iview_schedule [simp]: "iview (rt_schedule s) = iview s"
  by (simp add: rt_schedule_def Let_def split: prod.split option.split)

lemma rt_schedule_inv_any: "sched_inv s \<Longrightarrow> sched_inv (rt_schedule s)"
proof (cases "rt_current_thread s")
  case None
  assume "sched_inv s"
  moreover have "sview (rt_schedule s) = sview s"
    using None by (simp add: rt_schedule_def sview_def split: prod.splits option.splits)
  ultimately show ?thesis using sched_inv_sview by blast
qed (rule rt_schedule_inv)

lemma rt_enter_critical_inv [simp]: "sched_inv (rt_enter_critical s) = sched_inv s"
  by (simp add: rt_enter_critical_def sched_inv_def sched_inv_on_def)

lemma rt_exit_critical_inv: "sched_inv s \<Longrightarrow> sched_inv (rt_exit_critical s)"
proof -
  assume "sched_inv s"
  then have "sched_inv (s\<lparr>rt_scheduler_lock_nest := n\<rparr>)" for n
    by (simp add: sched_inv_def sched_inv_on_def)
  then show ?thesis
    by (simp add: rt_exit_critical_def Let_def rt_schedule_inv_any)
qed

lemma iview_critical [simp]:
  "iview (rt_enter_critical s) = iview s" "iview (rt_exit_critical s) = iview s"
proof -
  show "iview (rt_enter_critical s) = iview s" by (simp add: rt_enter_critical_def iview_def)
  have "iview (s\<lparr>rt_scheduler_lock_nest := n\<rparr>) = iview s" for n by (simp add: iview_def)
  then show "iview (rt_exit_critical s) = iview s"
    by (simp add: rt_exit_critical_def Let_def)
qed


text \<open>Linking a thread into a waiting list, and assigning a state to an unlinked thread.\<close>

lemma distinct_tq: "sched_inv s \<Longrightarrow> distinct (tq s h)"
  by (simp add: sched_inv_def sched_inv_on_def queue_inv_def)

lemma link_inv:
  assumes inv: "sched_inv s" and t: "\<And>h. t \<notin> set (tq s h)" and st: "tstat (thr s t) = qstat h"
    and h: "\<And>p. h \<noteq> Ready p" and xs: "set xs = insert t (set (tq s h))" "distinct xs"
  shows "sched_inv (s\<lparr>tq := (tq s)(h := xs)\<rparr>)"
proof -
  have "qstat h \<noteq> RT_THREAD_READY" using h qstat_ready_iff by blast
  then have "queue_inv {} (thr s) ((tq s)(h := xs))"
    using inv t st h xs unfolding sched_inv_def sched_inv_on_def queue_inv_def by auto
  moreover have "bitmap_inv ((tq s)(h := xs)) (rt_thread_ready_priority_group s)"
    using inv h h [symmetric] by (simp add: sched_inv_def sched_inv_on_def bitmap_inv_def)
  moreover have "state_inv {} (thr s) ((tq s)(h := xs)) (rt_current_thread s)"
    using inv xs h unfolding sched_inv_def sched_inv_on_def state_inv_def by auto
  ultimately show ?thesis using inv by (simp add: sched_inv_def sched_inv_on_def)
qed

text \<open>Assigning a thread that is linked nowhere a state in which it may stay unlinked.\<close>

lemma unlinked_assign_inv:
  assumes inv: "sched_inv s" and t: "\<And>h. t \<notin> set (tq s h)"
    and f: "mask_ok (f (thr s t))" "tstat (f (thr s t)) \<noteq> RT_THREAD_READY"
      "tstat (f (thr s t)) = RT_THREAD_RUNNING \<Longrightarrow> rt_current_thread s = Some t"
  shows "sched_inv (upd_thr t f s)"
proof -
  have "sched_inv_on {t} {t} s"
    using inv t by (auto simp: sched_inv_def sched_inv_on_def queue_inv_def state_inv_def)
  then show ?thesis unfolding sched_inv_def by (intro settle_inv f) simp_all
qed

lemma close_inv:
  assumes "sched_inv s"
  shows "sched_inv (upd_thr t (\<lambda>th. th\<lparr>th_stat := RT_THREAD_CLOSE\<rparr>) (rt_schedule_remove_thread t s))"
proof -
  have "mask_ok (thr s t)" using assms by (simp add: sched_inv_def sched_inv_on_def)
  then have "mask_ok ((thr s t)\<lparr>th_stat := RT_THREAD_CLOSE\<rparr>)"
    by (simp add: mask_ok_def started_def)
  then show ?thesis
    using remove_thread_inv [of "{}" "{}" s t] assms unfolding sched_inv_def
    by (intro settle_inv) simp_all
qed

lemma unlinked_stat:
  assumes "sched_inv s" "tstat (thr s t) = RT_THREAD_INIT"
  shows "t \<notin> set (tq s h)"
  using assms linked_stat [of "{}" "{}" s t h] by (cases h) (auto simp: sched_inv_def)

lemma removed_unlinked: "sched_inv s \<Longrightarrow> t \<notin> set (remove1 t (tq s h))"
  by (simp add: distinct_tq set_remove1_eq)

lemma upd_thr_data_inv:
  assumes "sched_inv s" "tstat (f (thr s t)) = tstat (thr s t)"
    "th_current_priority (f (thr s t)) = th_current_priority (thr s t)"
    "th_number_mask (f (thr s t)) = th_number_mask (thr s t)"
  shows "sched_inv (upd_thr t f s)"
  using upd_thr_invisible [of "{}" "{}"] assms unfolding sched_inv_def by blast

lemma tstat_data [simp]:
  "tstat (th\<lparr>th_error := e\<rparr>) = tstat th" "tstat (th\<lparr>th_remaining_tick := k\<rparr>) = tstat th"
  "tstat (th\<lparr>th_event_set := v\<rparr>) = tstat th" "tstat (th\<lparr>th_event_info := i\<rparr>) = tstat th"
  "tstat (th\<lparr>th_current_priority := p\<rparr>) = tstat th" "tstat (th\<lparr>th_number_mask := m\<rparr>) = tstat th"
  by (simp_all add: tstat_def)

lemma rt_schedule_no_current:
  "rt_current_thread s = None \<Longrightarrow> sview (rt_schedule s) = sview s"
  by (simp add: rt_schedule_def sview_def split: prod.splits option.splits)

text \<open>The scheduler moves threads between the ready queues and the processor only.\<close>

lemma rt_schedule_waiting:
  assumes inv: "sched_inv s" and h: "\<And>p. h \<noteq> Ready p"
  shows "tq (rt_schedule s) h = tq s h"
proof (cases "rt_current_thread s")
  case None
  then show ?thesis using rt_schedule_no_current sviewD(2) by metis
next
  case (Some cur)
  have i: "sched_inv_on {} {} s" using inv by (simp add: sched_inv_def)
  have r: "t \<notin> set (tq s h)" if "t \<in> set (tq s (Ready p))" for t p
    using that h sched_inv_on_linked_unique [OF i] by blast
  show ?thesis
  proof (cases rule: rt_schedule_cases [OF inv Some, case_names idle keep preempt yielded])
    case idle
    then show ?thesis by simp
  next
    case (keep hp)
    then show ?thesis using running_unlinked [OF i keep(1), of h] by simp
  next
    case (preempt t hp)
    have "t \<noteq> cur" using preempt(1,3) linked_stat [OF i preempt(3)] by auto
    then show ?thesis
      using r [OF preempt(3)] h unfolding preempt(5)
      by (simp add: tq_insert_thread schedule_switch_def)
  next
    case (yielded t hp)
    then show ?thesis using r [OF yielded(2)] by (simp add: schedule_switch_def)
  qed
qed

definition dormant :: "tid \<Rightarrow> kstate \<Rightarrow> bool" where
  "dormant t s \<longleftrightarrow> (\<forall>h. t \<notin> set (tq s h)) \<and> rt_current_thread s \<noteq> Some t"

lemma dormant_sview: "sview s' = sview s \<Longrightarrow> dormant t s' = dormant t s"
  by (simp add: dormant_def sview_def)

lemma rt_schedule_dormant:
  assumes inv: "sched_inv s" and d: "dormant t s"
  shows "dormant t (rt_schedule s)" "thr (rt_schedule s) t = thr s t"
proof -
  have "dormant t (rt_schedule s) \<and> thr (rt_schedule s) t = thr s t"
  proof (cases "rt_current_thread s")
    case None
    then show ?thesis
      using d dormant_sview [OF rt_schedule_no_current] sviewD(1) [OF rt_schedule_no_current] by simp
  next
    case (Some cur)
    then have ne: "t \<noteq> cur" using d by (auto simp: dormant_def)
    show ?thesis
    proof (cases rule: rt_schedule_cases [OF inv Some, case_names idle keep preempt yielded])
      case (preempt u hp)
      have "u \<noteq> cur" using preempt(1,3) linked_stat [of "{}" "{}" s u] inv by (auto simp: sched_inv_def)
      moreover have "u \<noteq> t" using preempt(3) d by (auto simp: dormant_def)
      ultimately show ?thesis
        using d ne unfolding preempt(5)
        by (auto simp: dormant_def tq_insert_thread schedule_switch_def dest: in_set_remove1 [THEN iffD1, rotated]
             notin_set_remove1 [rotated])
    next
      case (yielded u hp)
      then have "u \<noteq> t" using d by (auto simp: dormant_def)
      then show ?thesis
        using d unfolding yielded(4) by (auto simp: dormant_def schedule_switch_def dest: notin_set_remove1 [rotated])
    qed (use d ne in \<open>auto simp: dormant_def dest: notin_set_remove1 [rotated]\<close>)
  qed
  then show "dormant t (rt_schedule s)" "thr (rt_schedule s) t = thr s t" by simp_all
qed

lemma sched_inv_lock [simp]: "sched_inv (s\<lparr>rt_scheduler_lock_nest := n\<rparr>) = sched_inv s"
  by (simp add: sched_inv_def sched_inv_on_def)

lemma dormant_lock [simp]: "dormant t (s\<lparr>rt_scheduler_lock_nest := n\<rparr>) = dormant t s"
  by (simp add: dormant_def)

lemma rt_exit_critical_dormant:
  assumes "sched_inv s" "dormant t s"
  shows "dormant t (rt_exit_critical s)" "thr (rt_exit_critical s) t = thr s t"
  using assms rt_schedule_dormant [of "s\<lparr>rt_scheduler_lock_nest := 0\<rparr>" t]
  by (simp_all add: rt_exit_critical_def Let_def)

lemma rt_enter_critical_dormant [simp]:
  "dormant t (rt_enter_critical s) = dormant t s" "thr (rt_enter_critical s) = thr s"
  by (simp_all add: rt_enter_critical_def)

lemma schedule_thread_data [simp]:
  "th_current_priority (thr (rt_schedule s) u) = th_current_priority (thr s u)"
  by (auto simp: rt_schedule_def Let_def split: prod.split option.split)

lemma current_running_prio:
  assumes "sched_inv s" "tstat (thr s t) \<in> {RT_THREAD_READY, RT_THREAD_RUNNING, RT_THREAD_SUSPEND}"
  shows "prio_of (thr s t) < 32"
  using assms started_mask(1) [of "{}" "{}" s t] by (auto simp: sched_inv_def started_def)

text \<open>A call of the scheduler leaves a thread's state alone or makes it ready or running.\<close>


lemma schedule_stat_cases:
  "tstat (thr (rt_schedule s) u) = tstat (thr s u) \<or> tstat (thr (rt_schedule s) u) \<in> {RT_THREAD_READY, RT_THREAD_RUNNING}"
  by (auto simp: rt_schedule_def Let_def rt_schedule_insert_thread_def list_insert_before_def
      split: prod.split option.split)

end
