(* ===== verification/KObject.thy ===== *)
theory KObject
  imports Scheduler
begin

text \<open>
  The object containers of \<^verbatim>\<open>rt-thread/src/object.c\<close>: every kernel structure starts with
  a header (name, type, flag) and is linked into the list of its class. Static objects are
  initialised in place and detached, dynamic ones are allocated from the kernel heap
  (\<open>Mem\<close>) and deleted. The results: initialisation, allocation, detach and deletion keep the
  container lists free of duplicates and consistent with the types in the headers, and
  \<open>rt_object_find\<close> returns the first object of the class with that name, which has the type
  asked for.
\<close>

section \<open>Operations\<close>

text \<open>The classes compiled into \<^verbatim>\<open>rt_object_container\<close>, in order.\<close>

definition rt_object_container :: "rt_uint8_t list" where
  "rt_object_container =
    [RT_Object_Class_Thread, RT_Object_Class_Semaphore, RT_Object_Class_Mutex,
     RT_Object_Class_Event, RT_Object_Class_MailBox, RT_Object_Class_MessageQueue,
     RT_Object_Class_MemPool, RT_Object_Class_Device, RT_Object_Class_Timer]"

definition rt_object_get_information :: "rt_uint8_t \<Rightarrow> rt_uint8_t option" where
  "rt_object_get_information type = find (\<lambda>c. c = type) rt_object_container"

definition upd_obj :: "obj_ref \<Rightarrow> (rt_object \<Rightarrow> rt_object) \<Rightarrow> kstate \<Rightarrow> kstate" where
  "upd_obj r f s = s\<lparr>objs := (objs s)(r := f (objs s r))\<rparr>"

definition object_link :: "rt_uint8_t \<Rightarrow> obj_ref \<Rightarrow> kstate \<Rightarrow> kstate" where
  "object_link type r s = s\<lparr>object_list := (object_list s)(type := r # object_list s type)\<rparr>"

definition object_unlink :: "obj_ref \<Rightarrow> kstate \<Rightarrow> kstate" where
  "object_unlink r s = s\<lparr>object_list := (\<lambda>c. remove1 r (object_list s c))\<rparr>"

definition rt_object_init :: "obj_ref \<Rightarrow> rt_uint8_t \<Rightarrow> cstr \<Rightarrow> kstate \<Rightarrow> kstate" where
  "rt_object_init r type name s =
    (let s1 = rt_enter_critical (RT_ASSERT (rt_object_get_information type \<noteq> None) s);
         s2 = rt_exit_critical (RT_ASSERT (r \<notin> set (object_list s1 type)) s1);
         s3 = upd_obj r (\<lambda>ob. ob\<lparr>obj_type := type OR RT_Object_Class_Static,
                               obj_name := rt_strncpy name RT_NAME_MAX\<rparr>) s2
     in object_link type r s3)"

definition rt_object_detach :: "obj_ref \<Rightarrow> kstate \<Rightarrow> kstate" where
  "rt_object_detach r s = object_unlink r (upd_obj r (\<lambda>ob. ob\<lparr>obj_type := 0\<rparr>) s)"

text \<open>\<^verbatim>\<open>RT_KERNEL_MALLOC\<close> and \<^verbatim>\<open>RT_KERNEL_FREE\<close>; a heap loop that does not end is a fault.\<close>

definition kernel_malloc :: "nat \<Rightarrow> kstate \<Rightarrow> kstate \<times> addr option" where
  "kernel_malloc sz s =
    (case rt_malloc sz (heap s) of
       None \<Rightarrow> (s\<lparr>kfault := True\<rparr>, None)
     | Some (h, r) \<Rightarrow> (s\<lparr>heap := h, kfault := (kfault s \<or> heap_fault h)\<rparr>, r))"

definition kernel_free :: "addr option \<Rightarrow> kstate \<Rightarrow> kstate" where
  "kernel_free r s =
    (let h = rt_free r (heap s) in s\<lparr>heap := h, kfault := (kfault s \<or> heap_fault h)\<rparr>)"

definition RT_DEBUG_NOT_IN_INTERRUPT :: "kstate \<Rightarrow> kstate" where
  "RT_DEBUG_NOT_IN_INTERRUPT s = RT_ASSERT (rt_interrupt_nest s = 0) s"

definition RT_DEBUG_IN_THREAD_CONTEXT :: "kstate \<Rightarrow> kstate" where
  "RT_DEBUG_IN_THREAD_CONTEXT s =
    RT_DEBUG_NOT_IN_INTERRUPT (RT_ASSERT (rt_current_thread s \<noteq> None) s)"

text \<open>The structure of a class at an address, and the all-zero structures.\<close>

definition obj_ref_at :: "rt_uint8_t \<Rightarrow> addr \<Rightarrow> obj_ref" where
  "obj_ref_at type a =
    (if type = RT_Object_Class_Thread then ObjThread a
     else if type = RT_Object_Class_Semaphore then ObjSem a
     else if type = RT_Object_Class_Mutex then ObjMutex a
     else if type = RT_Object_Class_Event then ObjEvent a
     else if type = RT_Object_Class_MailBox then ObjMailBox a
     else if type = RT_Object_Class_MessageQueue then ObjMessageQueue a
     else if type = RT_Object_Class_MemPool then ObjMemPool a
     else if type = RT_Object_Class_Timer then ObjTimer (TimerAt a)
     else ObjDevice a)"

fun obj_addr :: "obj_ref \<Rightarrow> addr option" where
  "obj_addr (ObjThread a) = Some a"
| "obj_addr (ObjTimer (TimerAt a)) = Some a"
| "obj_addr (ObjTimer (ThreadTimer t)) = None"
| "obj_addr (ObjSem a) = Some a"
| "obj_addr (ObjMutex a) = Some a"
| "obj_addr (ObjEvent a) = Some a"
| "obj_addr (ObjMailBox a) = Some a"
| "obj_addr (ObjMessageQueue a) = Some a"
| "obj_addr (ObjMemPool a) = Some a"
| "obj_addr (ObjDevice a) = Some a"

definition zero_thread :: rt_thread where
  "zero_thread = \<lparr>th_entry = 0, th_parameter = 0, th_stack_addr = 0, th_stack_size = 0,
     th_error = 0, th_stat = 0, th_current_priority = 0, th_init_priority = 0,
     th_number_mask = 0, th_event_set = 0, th_event_info = 0, th_init_tick = 0,
     th_remaining_tick = 0, th_cleanup = None, th_user_data = 0\<rparr>"

definition zero_timer :: rt_timer where
  "zero_timer = \<lparr>tm_timeout_func = App_timeout 0 0, tm_init_tick = 0, tm_timeout_tick = 0\<rparr>"

definition zero_mutex :: rt_mutex where
  "zero_mutex = \<lparr>mtx_value = 0, mtx_original_priority = 0, mtx_hold = 0, mtx_owner = None\<rparr>"

definition zero_mailbox :: rt_mailbox where
  "zero_mailbox = \<lparr>mb_pool_addr = 0, mb_msg_pool = (\<lambda>_. 0), mb_size = 0, mb_entry = 0,
     mb_in_offset = 0, mb_out_offset = 0\<rparr>"

definition zero_messagequeue :: rt_messagequeue where
  "zero_messagequeue = \<lparr>mq_pool_addr = 0, mq_next = (\<lambda>_. None), mq_data = (\<lambda>_ _. 0),
     mq_msg_size = 0, mq_max_msgs = 0, mq_entry = 0, msg_queue_head = None,
     msg_queue_tail = None, msg_queue_free = None\<rparr>"

definition zero_mempool :: rt_mempool where
  "zero_mempool = \<lparr>mp_start_address = 0, mp_size = 0, mp_block_size = 0, mp_block_list = None,
     mp_block_total_count = 0, mp_block_free_count = 0\<rparr>"

definition zero_device :: rt_device where
  "zero_device = \<lparr>dev_type = 0, dev_flag = 0, dev_open_flag = 0, dev_ref_count = 0,
     dev_device_id = 0, dev_rx_indicate = None, dev_tx_complete = None, dev_init = None,
     dev_open = None, dev_close = None, dev_read = None, dev_write = None, dev_control = None,
     dev_user_data = 0\<rparr>"

definition zero_data_queue :: rt_data_queue where
  "zero_data_queue = \<lparr>dq_size = 0, dq_lwm = 0, dq_get_index = 0, dq_put_index = 0,
     dq_queue = None, dq_items = (\<lambda>_. \<lparr>di_data_ptr = 0, di_data_size = 0\<rparr>), dq_evt_notify = None\<rparr>"

fun clear_struct :: "obj_ref \<Rightarrow> kstate \<Rightarrow> kstate" where
  "clear_struct (ObjThread t) s = upd_thr t (\<lambda>_. zero_thread) s"
| "clear_struct (ObjTimer r) s = s\<lparr>tmr := (tmr s)(r := zero_timer)\<rparr>"
| "clear_struct (ObjSem a) s = s\<lparr>sems := (sems s)(a := \<lparr>sem_value = 0\<rparr>)\<rparr>"
| "clear_struct (ObjMutex a) s = s\<lparr>mutexes := (mutexes s)(a := zero_mutex)\<rparr>"
| "clear_struct (ObjEvent a) s = s\<lparr>events := (events s)(a := \<lparr>ev_set = 0\<rparr>)\<rparr>"
| "clear_struct (ObjMailBox a) s = s\<lparr>mailboxes := (mailboxes s)(a := zero_mailbox)\<rparr>"
| "clear_struct (ObjMessageQueue a) s =
    s\<lparr>messagequeues := (messagequeues s)(a := zero_messagequeue)\<rparr>"
| "clear_struct (ObjMemPool a) s = s\<lparr>mempools := (mempools s)(a := zero_mempool)\<rparr>"
| "clear_struct (ObjDevice a) s = s\<lparr>devices := (devices s)(a := zero_device)\<rparr>"

definition rt_object_allocate :: "rt_uint8_t \<Rightarrow> cstr \<Rightarrow> kstate \<Rightarrow> kstate \<times> addr option" where
  "rt_object_allocate type name s =
    (let s1 = RT_ASSERT (rt_object_get_information type \<noteq> None) (RT_DEBUG_NOT_IN_INTERRUPT s) in
     case kernel_malloc (object_size s1 type) s1 of
       (s2, None) \<Rightarrow> (s2, None)
     | (s2, Some a) \<Rightarrow>
         let r = obj_ref_at type a;
             s3 = clear_struct r s2;
             s4 = upd_obj r (\<lambda>ob. \<lparr>obj_name = rt_strncpy name RT_NAME_MAX, obj_type = type,
                                   obj_flag = 0\<rparr>) s3
         in (object_link type r s4, Some a))"

definition rt_object_is_systemobject :: "obj_ref \<Rightarrow> kstate \<Rightarrow> bool" where
  "rt_object_is_systemobject r s \<longleftrightarrow> obj_type (objs s r) AND RT_Object_Class_Static \<noteq> 0"

definition rt_object_get_type :: "obj_ref \<Rightarrow> kstate \<Rightarrow> rt_uint8_t" where
  "rt_object_get_type r s = obj_type (objs s r) AND NOT RT_Object_Class_Static"

definition rt_object_delete :: "obj_ref \<Rightarrow> kstate \<Rightarrow> kstate" where
  "rt_object_delete r s =
    (let s1 = RT_ASSERT (\<not> rt_object_is_systemobject r s) s;
         s2 = object_unlink r (upd_obj r (\<lambda>ob. ob\<lparr>obj_type := 0\<rparr>) s1)
     in kernel_free (obj_addr r) s2)"

text \<open>The header's name as a string that can be compared.\<close>

definition obj_cname :: "obj_ref \<Rightarrow> kstate \<Rightarrow> cstr" where
  "obj_cname r s = (\<lambda>i. obj_name (objs s r) ! i)"

definition rt_object_find :: "cstr option \<Rightarrow> rt_uint8_t \<Rightarrow> kstate \<Rightarrow> kstate \<times> obj_ref option" where
  "rt_object_find name type s =
    (case name of
       None \<Rightarrow> (s, None)
     | Some nm \<Rightarrow>
        if type > RT_Object_Class_Unknown then (s, None)
        else
         let s1 = rt_enter_critical (RT_DEBUG_NOT_IN_INTERRUPT s);
             s2 = RT_ASSERT (rt_object_get_information type \<noteq> None) s1;
             found = find (\<lambda>r. rt_strncmp (obj_cname r s2) nm RT_NAME_MAX = 0) (object_list s2 type)
         in (rt_exit_critical s2, found))"

section \<open>Frame properties\<close>

lemma views_objects [simp]:
  "sview (upd_obj r f s) = sview s" "iview (upd_obj r f s) = iview s"
  "sview (object_link c r s) = sview s" "iview (object_link c r s) = iview s"
  "sview (object_unlink r s) = sview s" "iview (object_unlink r s) = iview s"
  "sview (kernel_free a s) = sview s" "iview (kernel_free a s) = iview s"
  by (simp_all add: sview_def iview_def upd_obj_def object_link_def object_unlink_def
      kernel_free_def Let_def)

lemma views_context [simp]:
  "sview (RT_DEBUG_NOT_IN_INTERRUPT s) = sview s" "iview (RT_DEBUG_NOT_IN_INTERRUPT s) = iview s"
  "sview (RT_DEBUG_IN_THREAD_CONTEXT s) = sview s" "iview (RT_DEBUG_IN_THREAD_CONTEXT s) = iview s"
  by (simp_all add: RT_DEBUG_NOT_IN_INTERRUPT_def RT_DEBUG_IN_THREAD_CONTEXT_def)

lemma views_kernel_malloc [simp]:
  "sview (fst (kernel_malloc sz s)) = sview s" "iview (fst (kernel_malloc sz s)) = iview s"
  by (simp_all add: kernel_malloc_def sview_def iview_def split: option.splits prod.splits)

lemma views_object_detach [simp]:
  "sview (rt_object_detach r s) = sview s" "iview (rt_object_detach r s) = iview s"
  by (simp_all add: rt_object_detach_def)

lemma views_object_delete [simp]:
  "sview (rt_object_delete r s) = sview s" "iview (rt_object_delete r s) = iview s"
  by (simp_all add: rt_object_delete_def Let_def)

lemmas sched_inv_objects [simp] =
  views_objects(1,3,5,7) [THEN sched_inv_sview] views_context(1,3) [THEN sched_inv_sview]
  views_kernel_malloc(1) [THEN sched_inv_sview] views_object_detach(1) [THEN sched_inv_sview]
  views_object_delete(1) [THEN sched_inv_sview]

lemma iview_object_init [simp]: "iview (rt_object_init r c nm s) = iview s"
  by (simp add: rt_object_init_def Let_def)

lemma rt_object_init_inv: "sched_inv s \<Longrightarrow> sched_inv (rt_object_init r c nm s)"
  by (simp add: rt_object_init_def Let_def rt_exit_critical_inv)

section \<open>Containers\<close>

lemma objs_critical [simp]:
  "objs (rt_enter_critical s) = objs s" "object_list (rt_enter_critical s) = object_list s"
  by (simp_all add: rt_enter_critical_def)

lemma objects_scheduler:
  "objs (rt_schedule s) = objs s" "object_list (rt_schedule s) = object_list s"
  by (auto simp: rt_schedule_def Let_def rt_schedule_insert_thread_def rt_schedule_remove_thread_def
      list_insert_before_def list_remove_def upd_thr_def split: prod.split option.split)

lemma objects_exit_critical [simp]:
  "objs (rt_exit_critical s) = objs s" "object_list (rt_exit_critical s) = object_list s"
  by (simp_all add: rt_exit_critical_def Let_def objects_scheduler)

lemma objects_context [simp]:
  "objs (RT_DEBUG_NOT_IN_INTERRUPT s) = objs s" "object_list (RT_DEBUG_NOT_IN_INTERRUPT s) = object_list s"
  by (simp_all add: RT_DEBUG_NOT_IN_INTERRUPT_def RT_ASSERT_def)

lemma rt_object_init_objects:
  "object_list (rt_object_init r c nm s) = (object_list s)(c := r # object_list s c)"
  "objs (rt_object_init r c nm s) = (objs s)(r := (objs s r)\<lparr>obj_type := c OR RT_Object_Class_Static,
     obj_name := rt_strncpy nm RT_NAME_MAX\<rparr>)"
  by (simp_all add: rt_object_init_def Let_def object_link_def upd_obj_def RT_ASSERT_def fun_eq_iff)

lemma rt_object_detach_objects:
  "object_list (rt_object_detach r s) c = remove1 r (object_list s c)"
  "objs (rt_object_detach r s) = (objs s)(r := (objs s r)\<lparr>obj_type := 0\<rparr>)"
  by (simp_all add: rt_object_detach_def object_unlink_def upd_obj_def)

lemma rt_object_delete_objects:
  "object_list (rt_object_delete r s) = object_list (rt_object_detach r s)"
  "objs (rt_object_delete r s) = objs (rt_object_detach r s)"
  by (simp_all add: rt_object_delete_def rt_object_detach_def object_unlink_def upd_obj_def kernel_free_def
      RT_ASSERT_def Let_def)

lemma clear_struct_objects [simp]:
  "objs (clear_struct r s) = objs s" "object_list (clear_struct r s) = object_list s"
  by (cases r; simp add: upd_thr_def)+

lemma kernel_malloc_objects [simp]:
  "objs (fst (kernel_malloc n s)) = objs s" "object_list (fst (kernel_malloc n s)) = object_list s"
  by (simp_all add: kernel_malloc_def split: option.split prod.split)

lemma rt_object_allocate_objects:
  assumes "rt_object_allocate c nm s = (s', Some a)"
  shows "object_list s' = (object_list s)(c := obj_ref_at c a # object_list s c)"
    "objs s' = (objs s)(obj_ref_at c a := \<lparr>obj_name = rt_strncpy nm RT_NAME_MAX, obj_type = c, obj_flag = 0\<rparr>)"
proof -
  let ?s1 = "RT_ASSERT (rt_object_get_information c \<noteq> None) (RT_DEBUG_NOT_IN_INTERRUPT s)"
  obtain s2 where m: "kernel_malloc (object_size ?s1 c) ?s1 = (s2, Some a)"
    and s': "s' = object_link c (obj_ref_at c a) (upd_obj (obj_ref_at c a)
      (\<lambda>ob. \<lparr>obj_name = rt_strncpy nm RT_NAME_MAX, obj_type = c, obj_flag = 0\<rparr>) (clear_struct (obj_ref_at c a) s2))"
    using assms by (auto simp: rt_object_allocate_def Let_def split: prod.splits option.splits)
  have "objs s2 = objs s" "object_list s2 = object_list s"
    using kernel_malloc_objects [of "object_size ?s1 c" ?s1] unfolding m by (simp_all add: RT_ASSERT_def)
  then show "object_list s' = (object_list s)(c := obj_ref_at c a # object_list s c)"
    "objs s' = (objs s)(obj_ref_at c a := \<lparr>obj_name = rt_strncpy nm RT_NAME_MAX, obj_type = c, obj_flag = 0\<rparr>)"
    by (simp_all add: s' object_link_def upd_obj_def)
qed

text \<open>
  A container lists no object twice, and the header of every object in it has the class of the
  container. So no object is in two containers, and a pointer found by name has the type asked for.
\<close>

definition container_wf :: "kstate \<Rightarrow> bool" where
  "container_wf s \<longleftrightarrow> (\<forall>c. distinct (object_list s c) \<and> (\<forall>r \<in> set (object_list s c). rt_object_get_type r s = c))"

definition unlinked :: "obj_ref \<Rightarrow> kstate \<Rightarrow> bool" where
  "unlinked r s \<longleftrightarrow> (\<forall>c. r \<notin> set (object_list s c))"

lemma container_classes:
  assumes "rt_object_get_information c \<noteq> None"
  shows "(c OR RT_Object_Class_Static) AND NOT RT_Object_Class_Static = c" "c AND NOT RT_Object_Class_Static = c"
proof -
  have "c \<in> set rt_object_container"
    using assms by (auto simp: rt_object_get_information_def find_None_iff)
  then show "(c OR RT_Object_Class_Static) AND NOT RT_Object_Class_Static = c" "c AND NOT RT_Object_Class_Static = c"
    by (auto simp: rt_object_container_def rt_flag_defs)
qed

lemma container_wf_link:
  assumes "container_wf s" "unlinked r s" "object_list s' = (object_list s)(c := r # object_list s c)"
    "\<And>r'. r' \<noteq> r \<Longrightarrow> obj_type (objs s' r') = obj_type (objs s r')" "rt_object_get_type r s' = c"
  shows "container_wf s'"
proof -
  have "rt_object_get_type r' s' = rt_object_get_type r' s" if "r' \<in> set (object_list s c')" for r' c'
    using that assms(2) assms(4) [of r'] by (cases "r' = r") (auto simp: unlinked_def rt_object_get_type_def)
  then show ?thesis using assms(1,2,3,5) by (simp add: container_wf_def unlinked_def)
qed

lemma rt_object_init_container:
  assumes "container_wf s" "unlinked r s" "rt_object_get_information c \<noteq> None"
  shows "container_wf (rt_object_init r c nm s)"
  by (rule container_wf_link [OF assms(1,2)])
    (simp_all add: rt_object_init_objects rt_object_get_type_def container_classes [OF assms(3)])

lemma rt_object_allocate_container:
  assumes "container_wf s" "rt_object_allocate c nm s = (s', Some a)" "unlinked (obj_ref_at c a) s"
    "rt_object_get_information c \<noteq> None"
  shows "container_wf s'"
  by (rule container_wf_link [OF assms(1,3)])
    (simp_all add: rt_object_allocate_objects [OF assms(2)] rt_object_get_type_def container_classes [OF assms(4)])

lemma rt_object_detach_container:
  assumes "container_wf s"
  shows "container_wf (rt_object_detach r s)" "unlinked r (rt_object_detach r s)"
  using assms by (auto simp: container_wf_def unlinked_def rt_object_detach_objects rt_object_get_type_def distinct_remove1 set_remove1_eq)

lemma rt_object_delete_container:
  assumes "container_wf s"
  shows "container_wf (rt_object_delete r s)" "unlinked r (rt_object_delete r s)"
  using rt_object_detach_container [OF assms, of r]
  by (simp_all add: container_wf_def unlinked_def rt_object_get_type_def rt_object_delete_objects)

text \<open>Finding by name: the first object of the class whose name agrees in \<^verbatim>\<open>RT_NAME_MAX\<close> characters.\<close>

lemma rt_object_find_result:
  "snd (rt_object_find (Some nm) c s) =
    (if c > RT_Object_Class_Unknown then None
     else find (\<lambda>r. names_agree (obj_cname r s) nm RT_NAME_MAX) (object_list s c))"
  by (simp add: rt_object_find_def Let_def rt_strncmp_0_iff obj_cname_def RT_ASSERT_def)

lemma rt_object_find_typed:
  assumes "container_wf s" "snd (rt_object_find nm c s) = Some r"
  shows "rt_object_get_type r s = c" "r \<in> set (object_list s c)"
    "names_agree (obj_cname r s) (the nm) RT_NAME_MAX"
proof -
  obtain n where n: "nm = Some n" using assms(2) by (cases nm) (simp_all add: rt_object_find_def)
  have f: "find (\<lambda>r. names_agree (obj_cname r s) n RT_NAME_MAX) (object_list s c) = Some r"
    using assms(2) by (simp add: n rt_object_find_result split: if_splits)
  show r: "r \<in> set (object_list s c)" using f by (auto simp: find_Some_iff)
  show "names_agree (obj_cname r s) (the nm) RT_NAME_MAX" using f by (auto simp: find_Some_iff n)
  show "rt_object_get_type r s = c" using r assms(1) by (simp add: container_wf_def)
qed

lemma rt_object_init_find:
  assumes "c \<le> RT_Object_Class_Unknown"
  shows "snd (rt_object_find (Some nm) c (rt_object_init r c nm s)) = Some r"
  using assms rt_strncpy_agree [of nm RT_NAME_MAX]
  by (simp add: rt_object_find_result rt_object_init_objects obj_cname_def)

end
