(* ===== verification/Boot.thy ===== *)
theory Boot
  imports KObject
begin

text \<open>
  The kernel's variables at reset, in zero-initialised memory, with every list head initialised
  and empty as \<^verbatim>\<open>rt_system_scheduler_init\<close> and the static initialisers leave them; and a small
  running system on which the results of the other theories are instantiated: thread 1
  (priority 10) runs, thread 2 (priority 20) is ready, and thread 3 (priority 5) waits for the
  semaphore at address 100, or on another list.
\<close>

definition blank_object :: rt_object where
  "blank_object = \<lparr>obj_name = [], obj_type = 0, obj_flag = 0\<rparr>"

definition blank_heap :: heap_state where
  "blank_heap = \<lparr>heap_ptr = 0, heap_end = 0, mems = (\<lambda>_. \<lparr>hm_magic = 0, hm_used = 0, hm_next = 0,
     hm_prev = 0\<rparr>), mem_bytes = (\<lambda>_. 0), lfree = 0, mem_size_aligned = 0, used_mem = 0,
     max_mem = 0, heap_fault = False\<rparr>"

definition reset_state :: kstate where
  "reset_state = \<lparr>thr = (\<lambda>_. zero_thread), tq = (\<lambda>_. []), rt_thread_ready_priority_group = 0,
     rt_current_thread = None, rt_current_priority = 0, rt_scheduler_lock_nest = 0,
     rt_interrupt_nest = 0, rt_tick = 0, tmr = (\<lambda>_. zero_timer), rt_timer_list = [],
     rt_soft_timer_list = [], timer_thread = 0, objs = (\<lambda>_. blank_object),
     object_list = (\<lambda>_. []), sems = (\<lambda>_. \<lparr>sem_value = 0\<rparr>), mutexes = (\<lambda>_. zero_mutex),
     events = (\<lambda>_. \<lparr>ev_set = 0\<rparr>), mailboxes = (\<lambda>_. zero_mailbox),
     messagequeues = (\<lambda>_. zero_messagequeue), mempools = (\<lambda>_. zero_mempool),
     block_words = (\<lambda>_. NextBlock None),
     completions = (\<lambda>_. \<lparr>cmp_flag = 0\<rparr>), dataqueues = (\<lambda>_. zero_data_queue),
     wqueues = (\<lambda>_. \<lparr>wq_flag = 0, wq_waiting_list = []\<rparr>),
     wqueue_nodes = (\<lambda>_. \<lparr>wn_polling_thread = 0, wn_wakeup = Wqueue_default_wake, wn_key = 0\<rparr>),
     workqueues = (\<lambda>_. \<lparr>wkq_work_list = [], wkq_work_current = None, wkq_work_thread = 0\<rparr>),
     works = (\<lambda>_. \<lparr>wk_work_func = 0, wk_work_data = 0, wk_flags = 0, wk_type = 0, wk_workqueue = None\<rparr>),
     devices = (\<lambda>_. zero_device), heap = blank_heap, object_size = (\<lambda>_. 0),
     rt_errno = 0, kfault = False\<rparr>"

lemma tstat_zero [simp]: "tstat zero_thread = RT_THREAD_INIT"
  by (simp add: tstat_def zero_thread_def thread_stat_defs)

lemma mask_ok_zero [simp]: "mask_ok zero_thread"
  by (simp add: mask_ok_def started_def) (simp add: zero_thread_def)

lemma reset_state_inv: "sched_inv reset_state"
  by (simp add: sched_inv_def sched_inv_defs reset_state_def)

definition demo_thread :: "rt_uint8_t \<Rightarrow> rt_uint8_t \<Rightarrow> rt_thread" where
  "demo_thread stat prio = zero_thread\<lparr>th_stat := stat, th_current_priority := prio,
     th_init_priority := prio, th_number_mask := push_bit (unat prio) 1,
     th_init_tick := 10, th_remaining_tick := 10\<rparr>"

definition demo_on :: "qhead \<Rightarrow> kstate" where
  "demo_on h = reset_state\<lparr>
     thr := (\<lambda>_. zero_thread)(1 := demo_thread RT_THREAD_RUNNING 10,
       2 := demo_thread RT_THREAD_READY 20, 3 := demo_thread RT_THREAD_SUSPEND 5),
     tq := (\<lambda>_. [])(Ready 20 := [2], h := [3]),
     rt_thread_ready_priority_group := push_bit 20 1,
     rt_current_thread := Some 1, rt_current_priority := 10\<rparr>"

abbreviation demo_state :: kstate where
  "demo_state \<equiv> demo_on (SemQ 100)"

lemma demo_thread_simps [simp]:
  "tstat (demo_thread RT_THREAD_RUNNING p) = RT_THREAD_RUNNING"
  "tstat (demo_thread RT_THREAD_READY p) = RT_THREAD_READY"
  "tstat (demo_thread RT_THREAD_SUSPEND p) = RT_THREAD_SUSPEND"
  "th_current_priority (demo_thread st p) = p"
  "th_number_mask (demo_thread st p) = push_bit (unat p) 1"
  "th_init_priority (demo_thread st p) = p" "th_error (demo_thread st p) = 0"
  by (simp_all add: demo_thread_def tstat_def thread_stat_masked zero_thread_def)

lemma demo_on_fields [simp]:
  "thr (demo_on h) 1 = demo_thread RT_THREAD_RUNNING 10"
  "thr (demo_on h) (Suc 0) = demo_thread RT_THREAD_RUNNING 10"
  "thr (demo_on h) 2 = demo_thread RT_THREAD_READY 20"
  "thr (demo_on h) 3 = demo_thread RT_THREAD_SUSPEND 5"
  "tq (demo_on h) h = [3]" "h \<noteq> Ready 20 \<Longrightarrow> tq (demo_on h) (Ready 20) = [2]"
  "h' \<noteq> h \<Longrightarrow> h' \<noteq> Ready 20 \<Longrightarrow> tq (demo_on h) h' = []"
  "rt_current_thread (demo_on h) = Some 1" "rt_scheduler_lock_nest (demo_on h) = 0"
  "rt_thread_ready_priority_group (demo_on h) = push_bit 20 1"
  "rt_timer_list (demo_on h) = []" "rt_soft_timer_list (demo_on h) = []" "rt_tick (demo_on h) = 0"
  "tmr (demo_on h) r = zero_timer" "objs (demo_on h) o1 = blank_object"
  by (simp_all add: demo_on_def reset_state_def)

lemma demo_on_inv:
  assumes "qstat h = RT_THREAD_SUSPEND"
  shows "sched_inv (demo_on h)"
proof -
  have h: "h \<noteq> Ready p" for p using assms by auto
  have m: "mask_ok (thr (demo_on h) t)" for t
    by (simp add: demo_on_def mask_ok_def) (simp add: zero_thread_def started_def tstat_def thread_stat_defs)
  have q: "queue_inv {} (thr (demo_on h)) (tq (demo_on h))"
    using h [of 20] assms by (auto simp: demo_on_def queue_inv_def reset_state_def split: if_splits)
  have b: "bitmap_inv (tq (demo_on h)) (rt_thread_ready_priority_group (demo_on h))"
    unfolding bitmap_inv_def demo_on_fields
    using h by (subst bit_single) (auto simp: demo_on_def reset_state_def)
  have "state_inv {} (thr (demo_on h)) (tq (demo_on h)) (rt_current_thread (demo_on h))"
    using h [of 20] by (auto simp: demo_on_def state_inv_def reset_state_def)
  with m q b show ?thesis by (simp add: sched_inv_def sched_inv_on_def)
qed

lemma demo_on_objects [simp]:
  "sems (demo_on h) a = \<lparr>sem_value = 0\<rparr>" "mutexes (demo_on h) a = zero_mutex"
  "events (demo_on h) a = \<lparr>ev_set = 0\<rparr>" "mailboxes (demo_on h) a = zero_mailbox"
  "messagequeues (demo_on h) a = zero_messagequeue" "mempools (demo_on h) a = zero_mempool"
  "block_words (demo_on h) b = NextBlock None" "rt_interrupt_nest (demo_on h) = 0"
  "completions (demo_on h) a = \<lparr>cmp_flag = 0\<rparr>" "dataqueues (demo_on h) a = zero_data_queue"
  "devices (demo_on h) a = zero_device"
  by (simp_all add: demo_on_def reset_state_def)

lemma demo_state_inv: "sched_inv demo_state"
  by (rule demo_on_inv) simp

end
