(* ===== verification/Timer.thy ===== *)
theory Timer
  imports Boot
begin

text \<open>
  The timers of \<^verbatim>\<open>rt-thread/src/timer.c\<close>, as far as they do not touch threads: creation,
  removal, control, and the insertion into a timer list that \<^verbatim>\<open>rt_timer_start\<close> performs
  (\<open>TimerStart\<close> has the operation itself). With \<^verbatim>\<open>RT_TIMER_SKIP_LIST_LEVEL\<close> 1 the skip
  list is one linked list. Expiry ticks wrap around, so lists are ordered by the distance of
  the expiry tick from a base tick; the main results are that insertion keeps this order when
  every pending timer is less than half the tick range ahead, and that timers that expire at
  the same tick keep the order in which they were started.
\<close>

section \<open>Operations\<close>

definition upd_tmr :: "timer_ref \<Rightarrow> (rt_timer \<Rightarrow> rt_timer) \<Rightarrow> kstate \<Rightarrow> kstate" where
  "upd_tmr r f s = s\<lparr>tmr := (tmr s)(r := f (tmr s r))\<rparr>"

definition upd_flag :: "timer_ref \<Rightarrow> (rt_uint8_t \<Rightarrow> rt_uint8_t) \<Rightarrow> kstate \<Rightarrow> kstate" where
  "upd_flag r f s = upd_obj (ObjTimer r) (\<lambda>ob. ob\<lparr>obj_flag := f (obj_flag ob)\<rparr>) s"

definition timer_flag :: "timer_ref \<Rightarrow> kstate \<Rightarrow> rt_uint8_t" where
  "timer_flag r s = obj_flag (objs s (ObjTimer r))"

definition timer_type_ok :: "timer_ref \<Rightarrow> kstate \<Rightarrow> bool" where
  "timer_type_ok r s \<longleftrightarrow> rt_object_get_type (ObjTimer r) s = RT_Object_Class_Timer"

text \<open>
  \<^verbatim>\<open>_rt_timer_init\<close>; its \<^verbatim>\<open>rt_list_init\<close> makes the node a list of its own, which is not
  linked into a timer list (a node that is linked when it is initialised again would corrupt
  the list).
\<close>

definition timer_init_fields :: "timer_ref \<Rightarrow> timeout_func \<Rightarrow> rt_tick_t \<Rightarrow> rt_uint8_t \<Rightarrow> kstate \<Rightarrow> kstate" where
  "timer_init_fields r timeout time flag s =
    upd_tmr r (\<lambda>_. \<lparr>tm_timeout_func = timeout, tm_init_tick = time, tm_timeout_tick = 0\<rparr>)
      (upd_flag r (\<lambda>_. flag AND NOT RT_TIMER_FLAG_ACTIVATED) s)"

definition rt_timer_list_next_timeout :: "timer_ref list \<Rightarrow> kstate \<Rightarrow> rt_tick_t" where
  "rt_timer_list_next_timeout timer_list s =
    (case timer_list of [] \<Rightarrow> RT_TICK_MAX | t # _ \<Rightarrow> tm_timeout_tick (tmr s t))"

definition timer_remove :: "timer_ref \<Rightarrow> kstate \<Rightarrow> kstate" where
  "timer_remove r s = s\<lparr>rt_timer_list := remove1 r (rt_timer_list s),
                        rt_soft_timer_list := remove1 r (rt_soft_timer_list s)\<rparr>"

definition rt_timer_init ::
    "timer_ref \<Rightarrow> cstr \<Rightarrow> timeout_func \<Rightarrow> rt_tick_t \<Rightarrow> rt_uint8_t \<Rightarrow> kstate \<Rightarrow> kstate" where
  "rt_timer_init r name timeout time flag s =
    timer_init_fields r timeout time flag (rt_object_init (ObjTimer r) RT_Object_Class_Timer name s)"

definition rt_timer_detach :: "timer_ref \<Rightarrow> kstate \<Rightarrow> kstate \<times> rt_err_t" where
  "rt_timer_detach r s =
    (let s1 = RT_ASSERT (timer_type_ok r s) s;
         s2 = RT_ASSERT (rt_object_is_systemobject (ObjTimer r) s1) s1
     in (rt_object_detach (ObjTimer r) (timer_remove r s2), RT_EOK))"

definition rt_timer_create ::
    "cstr \<Rightarrow> timeout_func \<Rightarrow> rt_tick_t \<Rightarrow> rt_uint8_t \<Rightarrow> kstate \<Rightarrow> kstate \<times> timer_ref option" where
  "rt_timer_create name timeout time flag s =
    (case rt_object_allocate RT_Object_Class_Timer name s of
       (s1, None) \<Rightarrow> (s1, None)
     | (s1, Some a) \<Rightarrow> (timer_init_fields (TimerAt a) timeout time flag s1, Some (TimerAt a)))"

definition rt_timer_delete :: "timer_ref \<Rightarrow> kstate \<Rightarrow> kstate \<times> rt_err_t" where
  "rt_timer_delete r s =
    (let s1 = RT_ASSERT (timer_type_ok r s) s;
         s2 = RT_ASSERT (\<not> rt_object_is_systemobject (ObjTimer r) s1) s1
     in (rt_object_delete (ObjTimer r) (timer_remove r s2), RT_EOK))"

text \<open>
  The search loop of \<^verbatim>\<open>rt_timer_start\<close>: the new node goes in front of the first timer that
  expires strictly later; the subtraction and the comparison are the code's, on 32-bit ticks.
\<close>

fun timer_insert :: "(timer_ref \<Rightarrow> rt_tick_t) \<Rightarrow> timer_ref \<Rightarrow> timer_ref list \<Rightarrow> timer_ref list" where
  "timer_insert timeout r [] = [r]"
| "timer_insert timeout r (t # ts) =
    (if timeout t - timeout r = 0 then t # timer_insert timeout r ts
     else if timeout t - timeout r < RT_TICK_MAX div 2 then r # t # ts
     else t # timer_insert timeout r ts)"

definition rt_timer_stop :: "timer_ref \<Rightarrow> kstate \<Rightarrow> kstate \<times> rt_err_t" where
  "rt_timer_stop r s =
    (let s1 = RT_ASSERT (timer_type_ok r s) s in
     if timer_flag r s1 AND RT_TIMER_FLAG_ACTIVATED = 0 then (s1, - RT_ERROR)
     else (upd_flag r (\<lambda>f. f AND NOT RT_TIMER_FLAG_ACTIVATED) (timer_remove r s1), RT_EOK))"

datatype timer_cmd = RT_TIMER_CTRL_GET_TIME | RT_TIMER_CTRL_SET_TIME rt_tick_t
  | RT_TIMER_CTRL_SET_ONESHOT | RT_TIMER_CTRL_SET_PERIODIC | Timer_ctrl_other

text \<open>The third component is what the command stores through \<^verbatim>\<open>arg\<close>.\<close>

definition rt_timer_control :: "timer_ref \<Rightarrow> timer_cmd \<Rightarrow> kstate \<Rightarrow> kstate \<times> rt_err_t \<times> rt_tick_t option" where
  "rt_timer_control r cmd s =
    (let s1 = RT_ASSERT (timer_type_ok r s) s in
     case cmd of
       RT_TIMER_CTRL_GET_TIME \<Rightarrow> (s1, RT_EOK, Some (tm_init_tick (tmr s1 r)))
     | RT_TIMER_CTRL_SET_TIME t \<Rightarrow> (upd_tmr r (\<lambda>tm. tm\<lparr>tm_init_tick := t\<rparr>) s1, RT_EOK, None)
     | RT_TIMER_CTRL_SET_ONESHOT \<Rightarrow>
         (upd_flag r (\<lambda>f. f AND NOT RT_TIMER_FLAG_PERIODIC) s1, RT_EOK, None)
     | RT_TIMER_CTRL_SET_PERIODIC \<Rightarrow> (upd_flag r (\<lambda>f. f OR RT_TIMER_FLAG_PERIODIC) s1, RT_EOK, None)
     | Timer_ctrl_other \<Rightarrow> (s1, RT_EOK, None))"

definition rt_system_timer_init :: "kstate \<Rightarrow> kstate" where
  "rt_system_timer_init s = s\<lparr>rt_timer_list := []\<rparr>"

definition rt_timer_next_timeout_tick :: "kstate \<Rightarrow> rt_tick_t" where
  "rt_timer_next_timeout_tick s = rt_timer_list_next_timeout (rt_timer_list s) s"

section \<open>Timer operations do not touch the scheduler or IPC objects\<close>

lemma views_timer [simp]:
  "sview (upd_tmr r f s) = sview s" "iview (upd_tmr r f s) = iview s"
  "sview (upd_flag r g s) = sview s" "iview (upd_flag r g s) = iview s"
  "sview (timer_remove r s) = sview s" "iview (timer_remove r s) = iview s"
  by (simp_all add: upd_tmr_def upd_flag_def timer_remove_def) (simp_all add: sview_def iview_def)

lemma views_timer_stop [simp]:
  "sview (fst (rt_timer_stop r s)) = sview s" "iview (fst (rt_timer_stop r s)) = iview s"
  by (simp_all add: rt_timer_stop_def Let_def)

lemma views_timer_detach [simp]:
  "sview (fst (rt_timer_detach r s)) = sview s" "iview (fst (rt_timer_detach r s)) = iview s"
  by (simp_all add: rt_timer_detach_def Let_def)

lemma views_timer_control [simp]:
  "sview (fst (rt_timer_control r c s)) = sview s" "iview (fst (rt_timer_control r c s)) = iview s"
  by (simp_all add: rt_timer_control_def Let_def split: timer_cmd.split)

lemma views_timer_init_fields [simp]:
  "sview (timer_init_fields r f t g s) = sview s" "iview (timer_init_fields r f t g s) = iview s"
  by (simp_all add: timer_init_fields_def)

lemmas sched_inv_timer [simp] =
  views_timer(1,3,5) [THEN sched_inv_sview] views_timer_stop(1) [THEN sched_inv_sview]
  views_timer_detach(1) [THEN sched_inv_sview] views_timer_control(1) [THEN sched_inv_sview]
  views_timer_init_fields(1) [THEN sched_inv_sview]

lemma rt_timer_init_inv: "sched_inv s \<Longrightarrow> sched_inv (rt_timer_init r nm f t g s)"
  by (simp add: rt_timer_init_def rt_object_init_inv)

lemma iview_timer_init [simp]: "iview (rt_timer_init r nm f t g s) = iview s"
  by (simp add: rt_timer_init_def)

section \<open>The order of a timer list\<close>

text \<open>
  \<open>base\<close> is a tick before every expiry in the list, \<open>delta base\<close> the distance from it.
  A list is ordered when the distances are ascending and less than half the range.
\<close>

definition delta :: "rt_tick_t \<Rightarrow> rt_tick_t \<Rightarrow> nat" where
  "delta base x = unat (x - base)"

definition half_range :: nat where "half_range = unat (RT_TICK_MAX div 2)"

definition timer_ordered :: "rt_tick_t \<Rightarrow> (timer_ref \<Rightarrow> rt_tick_t) \<Rightarrow> timer_ref list \<Rightarrow> bool" where
  "timer_ordered base timeout ts \<longleftrightarrow>
    sorted (map (\<lambda>t. delta base (timeout t)) ts) \<and>
    (\<forall>t\<in>set ts. delta base (timeout t) < half_range)"

lemma half_range_val: "half_range = 0x7fffffff"
  by (simp add: half_range_def RT_TICK_MAX_def unat_div)

lemma tick_less_half: "(x :: rt_tick_t) < RT_TICK_MAX div 2 \<longleftrightarrow> unat x < half_range"
  by (simp add: half_range_def word_less_nat_alt)

text \<open>
  The code's test on two expiry ticks decides the order of their distances, also across the
  wrap of the tick counter.
\<close>

lemma later_iff:
  assumes "delta base x < half_range" "delta base y < half_range"
  shows "(x - y \<noteq> 0 \<and> x - y < RT_TICK_MAX div 2) \<longleftrightarrow> delta base y < delta base x"
proof -
  define a b where "a = x - base" and "b = y - base"
  have eq: "x - y = a - b" by (simp add: a_def b_def)
  have a: "unat a < 0x7fffffff" and b: "unat b < 0x7fffffff"
    using assms by (simp_all add: delta_def a_def b_def half_range_val)
  have d: "unat (a - b) = (if b \<le> a then unat a - unat b else unat a + 4294967296 - unat b)"
    by (simp add: unat_sub_if' word_le_nat_alt)
  have "(a - b \<noteq> 0 \<and> unat (a - b) < half_range) \<longleftrightarrow> unat b < unat a"
  proof (cases "b \<le> a")
    case True
    then have "unat (a - b) < half_range" using a d by (simp add: half_range_val)
    moreover have "a - b \<noteq> 0 \<longleftrightarrow> unat b < unat a"
      using True by (simp only: word_less_nat_alt [symmetric] right_minus_eq) auto
    ultimately show ?thesis by simp
  next
    case False
    moreover from this a b d have "\<not> unat (a - b) < half_range"
      by (simp only: half_range_val if_False)
    ultimately show ?thesis by (simp add: word_le_nat_alt)
  qed
  then show ?thesis by (simp only: eq tick_less_half delta_def a_def [symmetric] b_def [symmetric])
qed

lemma timer_insert_cons:
  "timer_insert timeout r (t # ts) =
    (if timeout t - timeout r \<noteq> 0 \<and> timeout t - timeout r < RT_TICK_MAX div 2 then r # t # ts
     else t # timer_insert timeout r ts)"
  by simp

lemma set_timer_insert [simp]: "set (timer_insert timeout r ts) = insert r (set ts)"
  by (induction ts) auto

lemma mset_distinct_timer_insert:
  "r \<notin> set ts \<Longrightarrow> distinct (timer_insert timeout r ts) \<longleftrightarrow> distinct ts"
  by (induction ts) auto

lemma timer_insert_ordered:
  assumes "timer_ordered base timeout ts" "delta base (timeout r) < half_range"
  shows "timer_ordered base timeout (timer_insert timeout r ts)"
  using assms
proof (induction ts)
  case (Cons t ts)
  from Cons.prems have t: "delta base (timeout t) < half_range" by (simp add: timer_ordered_def)
  have o: "timer_ordered base timeout ts" using Cons.prems by (simp add: timer_ordered_def)
  note ih = Cons.IH [OF o Cons.prems(2)]
  show ?case
  proof (cases "delta base (timeout r) < delta base (timeout t)")
    case True
    with Cons.prems show ?thesis
      unfolding timer_insert_cons later_iff [OF t Cons.prems(2)]
      by (auto simp: timer_ordered_def)
  next
    case False
    with Cons.prems ih show ?thesis
      unfolding timer_insert_cons later_iff [OF t Cons.prems(2)]
      by (auto simp: timer_ordered_def)
  qed
qed (simp add: timer_ordered_def)

text \<open>Exactly where the new timer goes: after all that expire no later, before all later ones.\<close>

lemma timer_insert_position:
  assumes "timer_ordered base timeout ts" "delta base (timeout r) < half_range"
  shows "timer_insert timeout r ts =
    takeWhile (\<lambda>t. delta base (timeout t) \<le> delta base (timeout r)) ts @ r #
    dropWhile (\<lambda>t. delta base (timeout t) \<le> delta base (timeout r)) ts"
  using assms
proof (induction ts)
  case (Cons t ts)
  from Cons.prems have t: "delta base (timeout t) < half_range" by (simp add: timer_ordered_def)
  have o: "timer_ordered base timeout ts" using Cons.prems by (simp add: timer_ordered_def)
  show ?case
    using Cons.IH [OF o Cons.prems(2)]
    unfolding timer_insert_cons later_iff [OF t Cons.prems(2)] by (auto simp: not_less)
qed simp

text \<open>The head of an ordered list is the next timer to expire.\<close>

lemma timer_ordered_hd:
  assumes "timer_ordered base timeout ts" "t \<in> set ts"
  shows "delta base (timeout (hd ts)) \<le> delta base (timeout t)"
  using assms by (cases ts) (auto simp: timer_ordered_def)

lemma timer_ordered_remove1:
  "timer_ordered base timeout ts \<Longrightarrow> timer_ordered base timeout (remove1 r ts)"
  by (auto simp: timer_ordered_def sorted_map_remove1 dest: notin_set_remove1)

text \<open>Moving the base forward past nothing keeps the list ordered.\<close>

lemma timer_ordered_advance:
  assumes "timer_ordered base timeout ts" "\<forall>t\<in>set ts. delta base now \<le> delta base (timeout t)"
  shows "timer_ordered now timeout ts"
proof -
  have *: "delta now (timeout t) = delta base (timeout t) - delta base now" if "t \<in> set ts" for t
  proof -
    have "timeout t - now = (timeout t - base) - (now - base)" by simp
    moreover have "now - base \<le> timeout t - base"
      using assms(2) that by (simp add: delta_def word_le_nat_alt)
    ultimately show ?thesis unfolding delta_def by (metis unat_sub)
  qed
  have "sorted (map (\<lambda>t. delta now (timeout t)) ts)"
    using assms(1) by (auto simp: timer_ordered_def sorted_wrt_map * intro: sorted_wrt_mono_rel [rotated])
  then show ?thesis using assms(1) by (fastforce simp: timer_ordered_def *)
qed

end
