(* ===== verification/ThreadCore.thy ===== *)
theory ThreadCore
  imports Timer
begin

text \<open>
  Suspending and resuming threads (\<^verbatim>\<open>rt-thread/src/thread.c\<close>), the operations on which timers
  and every blocking kernel object rest: \<open>rt_thread_suspend\<close>, \<open>rt_thread_resume\<close> and the timer
  callback \<open>rt_thread_timeout\<close>. Each keeps the scheduler invariant; the functional lemmas say
  where the thread is linked afterwards.
\<close>

section \<open>Operations\<close>

definition rt_thread_self :: "kstate \<Rightarrow> tid option" where
  "rt_thread_self s = rt_current_thread s"

definition thread_type_ok :: "tid \<Rightarrow> kstate \<Rightarrow> bool" where
  "thread_type_ok t s \<longleftrightarrow> rt_object_get_type (ObjThread t) s = RT_Object_Class_Thread"

definition rt_thread_suspend :: "tid \<Rightarrow> kstate \<Rightarrow> kstate \<times> rt_err_t" where
  "rt_thread_suspend t s =
    (let s1 = RT_ASSERT (thread_type_ok t s) s;
         stat = tstat (thr s1 t)
     in if stat \<noteq> RT_THREAD_READY \<and> stat \<noteq> RT_THREAD_RUNNING then (s1, - RT_ERROR)
        else
          let s2 = (if stat = RT_THREAD_RUNNING then RT_ASSERT (rt_thread_self s1 = Some t) s1
                    else s1);
              s3 = upd_thr t (set_stat RT_THREAD_SUSPEND) (rt_schedule_remove_thread t s2)
          in (fst (rt_timer_stop (ThreadTimer t) s3), RT_EOK))"

definition rt_thread_resume :: "tid \<Rightarrow> kstate \<Rightarrow> kstate \<times> rt_err_t" where
  "rt_thread_resume t s =
    (let s1 = RT_ASSERT (thread_type_ok t s) s in
     if tstat (thr s1 t) \<noteq> RT_THREAD_SUSPEND then (s1, - RT_ERROR)
     else
       let s2 = fst (rt_timer_stop (ThreadTimer t) (list_remove t s1))
       in (rt_schedule_insert_thread t s2, RT_EOK))"

definition rt_thread_timeout :: "tid \<Rightarrow> kstate \<Rightarrow> kstate" where
  "rt_thread_timeout t s =
    (let s1 = RT_ASSERT (tstat (thr s t) = RT_THREAD_SUSPEND) s;
         s2 = RT_ASSERT (thread_type_ok t s1) s1;
         s3 = upd_thr t (\<lambda>th. th\<lparr>th_error := - RT_ETIMEOUT\<rparr>) s2;
         s4 = rt_schedule_insert_thread t (list_remove t s3)
     in rt_schedule s4)"

section \<open>Frame properties\<close>

lemma iview_thread_core [simp]:
  "iview (fst (rt_thread_suspend t s)) = iview s" "iview (fst (rt_thread_resume t s)) = iview s"
  "iview (rt_thread_timeout t s) = iview s"
  by (simp_all add: rt_thread_suspend_def rt_thread_resume_def rt_thread_timeout_def Let_def)

lemmas timer_stop_fields [simp] =
  views_timer_stop(1) [THEN sviewD(1)] views_timer_stop(1) [THEN sviewD(2)]
  views_timer_stop(1) [THEN sviewD(3)] views_timer_stop(1) [THEN sviewD(4)]
  views_timer_stop(1) [THEN sviewD(5)]

lemmas RT_ASSERT_fields [simp] =
  sview_RT_ASSERT [THEN sviewD(1)] sview_RT_ASSERT [THEN sviewD(2)]
  sview_RT_ASSERT [THEN sviewD(3)] sview_RT_ASSERT [THEN sviewD(4)]
  sview_RT_ASSERT [THEN sviewD(5)]

text \<open>What timers are made of; the scheduler does not touch it.\<close>

definition tmview :: "kstate \<Rightarrow> (timer_ref \<Rightarrow> rt_timer) \<times> timer_ref list \<times> timer_ref list \<times>
    (obj_ref \<Rightarrow> rt_object) \<times> rt_tick_t \<times> tid" where
  "tmview s = (tmr s, rt_timer_list s, rt_soft_timer_list s, objs s, rt_tick s, timer_thread s)"

lemma tmviewD:
  assumes "tmview s' = tmview s"
  shows "tmr s' = tmr s" "rt_timer_list s' = rt_timer_list s"
    "rt_soft_timer_list s' = rt_soft_timer_list s" "objs s' = objs s" "rt_tick s' = rt_tick s"
    "timer_thread s' = timer_thread s"
  using assms by (simp_all add: tmview_def)

lemma tmview_fields [simp]:
  "tmview (s\<lparr>rt_current_priority := p\<rparr>) = tmview s"
  "tmview (s\<lparr>rt_current_thread := c\<rparr>) = tmview s"
  "tmview (s\<lparr>rt_thread_ready_priority_group := g\<rparr>) = tmview s"
  "tmview (s\<lparr>rt_scheduler_lock_nest := n\<rparr>) = tmview s"
  "tmview (s\<lparr>thr := f\<rparr>) = tmview s" "tmview (s\<lparr>tq := q\<rparr>) = tmview s"
  "tmview (s\<lparr>kfault := b\<rparr>) = tmview s"
  by (simp_all add: tmview_def)

lemma tmview_scheduler [simp]:
  "tmview (RT_ASSERT b s) = tmview s"
  "tmview (upd_thr t f s) = tmview s" "tmview (list_remove t s) = tmview s"
  "tmview (list_insert_before h t s) = tmview s" "tmview (list_insert_after h t s) = tmview s"
  by (simp_all add: RT_ASSERT_def upd_thr_def list_remove_def list_insert_before_def
      list_insert_after_def)

lemma tmview_schedule [simp]:
  "tmview (rt_schedule_insert_thread t s) = tmview s"
  "tmview (rt_schedule_remove_thread t s) = tmview s"
  "tmview (rt_schedule s) = tmview s"
proof -
  show 1: "tmview (rt_schedule_insert_thread t s) = tmview s" for t s
    by (simp add: rt_schedule_insert_thread_def Let_def)
  show 2: "tmview (rt_schedule_remove_thread t s) = tmview s" for t s
    by (simp add: rt_schedule_remove_thread_def Let_def)
  show "tmview (rt_schedule s) = tmview s"
    by (simp add: rt_schedule_def Let_def 1 2 split: prod.split option.split)
qed

lemma tmview_critical [simp]:
  "tmview (rt_enter_critical s) = tmview s" "tmview (rt_exit_critical s) = tmview s"
  by (simp_all add: rt_enter_critical_def rt_exit_critical_def Let_def)

lemma tmview_thread_timeout [simp]: "tmview (rt_thread_timeout t s) = tmview s"
  by (simp add: rt_thread_timeout_def Let_def)

section \<open>The scheduler invariant\<close>

lemma list_remove_inv:
  assumes inv: "sched_inv_on X Y s" and st: "tstat (thr s t) \<noteq> RT_THREAD_READY"
  shows "sched_inv_on (insert t X) (insert t Y) (list_remove t s)"
proof -
  have r: "t \<notin> set (tq s (Ready p))" for p
    using inv st by (auto simp: sched_inv_on_def queue_inv_def)
  have q: "queue_inv (insert t X) (thr s) (\<lambda>h. remove1 t (tq s h))"
    using inv queue_inv_remove by (simp add: sched_inv_on_def)
  have "bitmap_inv (\<lambda>h. remove1 t (tq s h)) (rt_thread_ready_priority_group s)"
    using inv r by (simp add: sched_inv_on_def bitmap_inv_def)
  moreover have "state_inv (insert t Y) (thr s) (\<lambda>h. remove1 t (tq s h)) (rt_current_thread s)"
    using inv by (auto simp: sched_inv_on_def state_inv_def in_set_remove1)
  ultimately show ?thesis using q inv by (simp add: sched_inv_on_def list_remove_def)
qed

text \<open>A started thread that is unlinked from where it waits is made ready again.\<close>

lemma wake_inv:
  assumes inv: "sched_inv s" and st: "tstat (thr s t) = RT_THREAD_SUSPEND"
    and s': "sview s' = sview (list_remove t s)"
  shows "sched_inv (rt_schedule_insert_thread t s')"
proof -
  have "mask_ok (thr s t)" using inv by (simp add: sched_inv_def sched_inv_on_def)
  then have m: "prio_of (thr s t) < 32" "th_number_mask (thr s t) = prio_mask (thr s t)"
    using st by (simp_all add: mask_ok_def started_def)
  have th: "thr s' = thr s" using sviewD(1) [OF s'] by (simp add: list_remove_def)
  have "sched_inv_on {t} {t} (list_remove t s)"
    using list_remove_inv [of "{}" "{}" s t] inv st by (simp add: sched_inv_def)
  then have "sched_inv_on {t} {t} s'" using sched_inv_on_sview [OF s'] by simp
  then show ?thesis
    unfolding sched_inv_def by (rule insert_thread_inv) (use m th in simp_all)
qed

lemma rt_thread_resume_inv: "sched_inv s \<Longrightarrow> sched_inv (fst (rt_thread_resume t s))"
  by (auto simp: rt_thread_resume_def Let_def intro!: wake_inv [of "RT_ASSERT b s" t for b])

lemma rt_thread_suspend_inv: "sched_inv s \<Longrightarrow> sched_inv (fst (rt_thread_suspend t s))"
proof -
  have *: "sched_inv (upd_thr t (set_stat RT_THREAD_SUSPEND) (rt_schedule_remove_thread t s'))"
    if i: "sched_inv s'" and st: "tstat (thr s' t) \<in> {RT_THREAD_READY, RT_THREAD_RUNNING}" for s'
  proof -
    have "sched_inv_on {t} {t} (rt_schedule_remove_thread t s')"
      using remove_thread_inv [of "{}" "{}" s' t] i by (simp add: sched_inv_def)
    moreover have "mask_ok (set_stat RT_THREAD_SUSPEND (thr s' t))"
      using i st by (auto simp: sched_inv_def sched_inv_on_def mask_ok_def started_def)
    ultimately show ?thesis
      unfolding sched_inv_def by (intro settle_inv) simp_all
  qed
  assume "sched_inv s"
  then show ?thesis by (auto simp: rt_thread_suspend_def Let_def intro!: *)
qed

lemma rt_thread_timeout_inv:
  assumes inv: "sched_inv s" and st: "tstat (thr s t) = RT_THREAD_SUSPEND"
  shows "sched_inv (rt_thread_timeout t s)"
proof -
  let ?e = "\<lambda>th. th\<lparr>th_error := - RT_ETIMEOUT\<rparr>"
  have i: "sched_inv (upd_thr t ?e (RT_ASSERT b (RT_ASSERT c s)))" for b c
    unfolding sched_inv_def
    by (rule upd_thr_invisible) (use inv in \<open>simp_all add: sched_inv_def [symmetric] tstat_def\<close>)
  show ?thesis
    unfolding rt_thread_timeout_def Let_def
    by (intro rt_schedule_inv_any wake_inv [OF i]) (use st in \<open>simp_all add: tstat_def\<close>)
qed

text \<open>Where the thread is afterwards.\<close>

lemma rt_thread_resume_effect:
  assumes "tstat (thr s t) = RT_THREAD_SUSPEND" "rt_current_thread s \<noteq> Some t"
  shows "tstat (thr (fst (rt_thread_resume t s)) t) = RT_THREAD_READY"
    "tq (fst (rt_thread_resume t s)) =
      (\<lambda>h. if h = Ready (prio_of (thr s t)) then remove1 t (tq s h) @ [t] else remove1 t (tq s h))"
    "snd (rt_thread_resume t s) = RT_EOK"
  using assms
  by (auto simp: rt_thread_resume_def Let_def rt_schedule_insert_thread_def
      list_insert_before_def list_remove_def)

lemma rt_thread_suspend_effect:
  assumes "tstat (thr s t) \<in> {RT_THREAD_READY, RT_THREAD_RUNNING}"
  shows "thr (fst (rt_thread_suspend t s)) = (thr s)(t := set_stat RT_THREAD_SUSPEND (thr s t))"
    "tq (fst (rt_thread_suspend t s)) = (\<lambda>h. remove1 t (tq s h))"
    "rt_current_thread (fst (rt_thread_suspend t s)) = rt_current_thread s"
    "rt_scheduler_lock_nest (fst (rt_thread_suspend t s)) = rt_scheduler_lock_nest s"
    "snd (rt_thread_suspend t s) = RT_EOK"
  using assms by (auto simp: rt_thread_suspend_def Let_def)

end
