(* ===== verification/TimerStart.thy ===== *)
theory TimerStart
  imports ThreadCore
begin

text \<open>
  Starting timers and running the expired ones (\<^verbatim>\<open>rt-thread/src/timer.c\<close>). Callbacks of the
  application are the parameter \<open>cb\<close> (function address, argument, state). The loops over the
  timer lists take fuel and return \<open>None\<close> when it runs out: \<^verbatim>\<open>rt_timer_check\<close> need not end
  (a periodic timer of period 0 is put back at the front forever). What the checks do is proved
  in the theory \<open>TimerCheck\<close>.
\<close>

section \<open>Operations\<close>

type_synonym callbacks = "addr \<Rightarrow> addr \<Rightarrow> kstate \<Rightarrow> kstate"

definition rt_tick_get :: "kstate \<Rightarrow> rt_tick_t" where
  "rt_tick_get s = rt_tick s"

definition rt_timer_start :: "timer_ref \<Rightarrow> kstate \<Rightarrow> kstate \<times> rt_err_t" where
  "rt_timer_start r s =
    (let s1 = RT_ASSERT (timer_type_ok r s) s;
         s2 = upd_flag r (\<lambda>f. f AND NOT RT_TIMER_FLAG_ACTIVATED) (timer_remove r s1);
         s3 = RT_ASSERT (tm_init_tick (tmr s2 r) < RT_TICK_MAX div 2) s2;
         s4 = upd_tmr r (\<lambda>tm. tm\<lparr>tm_timeout_tick := rt_tick_get s3 + tm_init_tick tm\<rparr>) s3;
         soft = (timer_flag r s4 AND RT_TIMER_FLAG_SOFT_TIMER \<noteq> 0);
         ins = timer_insert (\<lambda>t. tm_timeout_tick (tmr s4 t)) r;
         s5 = (if soft then s4\<lparr>rt_soft_timer_list := ins (rt_soft_timer_list s4)\<rparr>
               else s4\<lparr>rt_timer_list := ins (rt_timer_list s4)\<rparr>);
         s6 = upd_flag r (\<lambda>f. f OR RT_TIMER_FLAG_ACTIVATED) s5;
         s7 = (if soft \<and> tstat (thr s6 (timer_thread s6)) = RT_THREAD_SUSPEND
               then rt_schedule (fst (rt_thread_resume (timer_thread s6) s6)) else s6)
     in (s7, RT_EOK))"

definition run_timeout :: "callbacks \<Rightarrow> timeout_func \<Rightarrow> kstate \<Rightarrow> kstate" where
  "run_timeout cb f s =
    (case f of Rt_thread_timeout t \<Rightarrow> rt_thread_timeout t s | App_timeout fn p \<Rightarrow> cb fn p s)"

text \<open>The end of both loops' bodies: a periodic timer that is still active is started again.\<close>

definition timer_rearm :: "timer_ref \<Rightarrow> kstate \<Rightarrow> kstate" where
  "timer_rearm r s =
    (let clear = upd_flag r (\<lambda>f. f AND NOT RT_TIMER_FLAG_ACTIVATED) s in
     if timer_flag r s AND RT_TIMER_FLAG_PERIODIC \<noteq> 0 \<and> timer_flag r s AND RT_TIMER_FLAG_ACTIVATED \<noteq> 0
     then fst (rt_timer_start r clear)
     else clear)"

definition timer_fire :: "callbacks \<Rightarrow> timer_ref \<Rightarrow> kstate \<Rightarrow> kstate" where
  "timer_fire cb r s = run_timeout cb (tm_timeout_func (tmr s r)) (timer_remove r s)"

fun timer_check_loop :: "callbacks \<Rightarrow> nat \<Rightarrow> rt_tick_t \<Rightarrow> kstate \<Rightarrow> kstate option" where
  "timer_check_loop cb 0 current_tick s = None"
| "timer_check_loop cb (Suc fuel) current_tick s =
    (case rt_timer_list s of
       [] \<Rightarrow> Some s
     | t # _ \<Rightarrow>
         if current_tick - tm_timeout_tick (tmr s t) < RT_TICK_MAX div 2 then
           let s1 = timer_fire cb t s
           in timer_check_loop cb fuel (rt_tick_get s1) (timer_rearm t s1)
         else Some s)"

definition rt_timer_check :: "callbacks \<Rightarrow> nat \<Rightarrow> kstate \<Rightarrow> kstate option" where
  "rt_timer_check cb fuel s = timer_check_loop cb fuel (rt_tick_get s) s"

text \<open>
  The loop over the soft timers keeps a pointer \<open>n\<close> to the node it visits next, read before
  the callback runs. \<open>None\<close> is the list head; the link of a node that was unlinked points to
  the node itself.
\<close>

fun list_succ :: "'a \<Rightarrow> 'a list \<Rightarrow> 'a option" where
  "list_succ r [] = Some r"
| "list_succ r (x # xs) =
    (if x = r then (case xs of [] \<Rightarrow> None | y # _ \<Rightarrow> Some y) else list_succ r xs)"

fun soft_check_loop ::
    "callbacks \<Rightarrow> nat \<Rightarrow> rt_tick_t \<Rightarrow> timer_ref option \<Rightarrow> kstate \<Rightarrow> kstate option" where
  "soft_check_loop cb 0 current_tick n s = None"
| "soft_check_loop cb (Suc fuel) current_tick None s = Some s"
| "soft_check_loop cb (Suc fuel) current_tick (Some t) s =
    (if current_tick - tm_timeout_tick (tmr s t) < RT_TICK_MAX div 2 then
       let n = list_succ t (rt_soft_timer_list s);
           func = tm_timeout_func (tmr s t);
           s1 = rt_exit_critical (timer_remove t s);
           s2 = run_timeout cb func s1;
           s3 = rt_enter_critical s2
       in soft_check_loop cb fuel (rt_tick_get s2) n (timer_rearm t s3)
     else Some s)"

definition rt_soft_timer_check :: "callbacks \<Rightarrow> nat \<Rightarrow> kstate \<Rightarrow> kstate option" where
  "rt_soft_timer_check cb fuel s =
    (let s1 = rt_enter_critical s;
         first = (case rt_soft_timer_list s1 of [] \<Rightarrow> None | t # _ \<Rightarrow> Some t)
     in map_option rt_exit_critical (soft_check_loop cb fuel (rt_tick_get s) first s1))"

section \<open>The scheduler invariant\<close>

lemma sview_timer_lists [simp]:
  "sview (s\<lparr>rt_timer_list := ts\<rparr>) = sview s" "sview (s\<lparr>rt_soft_timer_list := ts\<rparr>) = sview s"
  "iview (s\<lparr>rt_timer_list := ts\<rparr>) = iview s" "iview (s\<lparr>rt_soft_timer_list := ts\<rparr>) = iview s"
  by (simp_all add: sview_def iview_def)

lemmas sched_inv_timer_lists [simp] = sview_timer_lists(1,2) [THEN sched_inv_sview]

lemma rt_timer_start_inv: "sched_inv s \<Longrightarrow> sched_inv (fst (rt_timer_start r s))"
  by (simp add: rt_timer_start_def Let_def rt_thread_resume_inv rt_schedule_inv_any)

lemma iview_timer_start [simp]: "iview (fst (rt_timer_start r s)) = iview s"
  by (simp add: rt_timer_start_def Let_def)

lemma timer_rearm_inv: "sched_inv s \<Longrightarrow> sched_inv (timer_rearm r s)"
  by (simp add: timer_rearm_def Let_def rt_timer_start_inv)

definition soft_timer :: "timer_ref \<Rightarrow> kstate \<Rightarrow> bool" where
  "soft_timer r s \<longleftrightarrow> timer_flag r s AND RT_TIMER_FLAG_SOFT_TIMER \<noteq> 0"

lemma soft_timer_tmview: "tmview s' = tmview s \<Longrightarrow> soft_timer r s' = soft_timer r s"
  by (simp add: soft_timer_def timer_flag_def tmview_def)

lemma soft_flag_active:
  "(f AND NOT RT_TIMER_FLAG_ACTIVATED) AND RT_TIMER_FLAG_SOFT_TIMER = f AND RT_TIMER_FLAG_SOFT_TIMER"
  "(f OR RT_TIMER_FLAG_ACTIVATED) AND RT_TIMER_FLAG_SOFT_TIMER = f AND RT_TIMER_FLAG_SOFT_TIMER"
proof -
  have "NOT RT_TIMER_FLAG_ACTIVATED AND RT_TIMER_FLAG_SOFT_TIMER = RT_TIMER_FLAG_SOFT_TIMER"
    "RT_TIMER_FLAG_ACTIVATED AND RT_TIMER_FLAG_SOFT_TIMER = 0"
    by (simp_all add: rt_flag_defs)
  then show "(f AND NOT RT_TIMER_FLAG_ACTIVATED) AND RT_TIMER_FLAG_SOFT_TIMER = f AND RT_TIMER_FLAG_SOFT_TIMER"
    "(f OR RT_TIMER_FLAG_ACTIVATED) AND RT_TIMER_FLAG_SOFT_TIMER = f AND RT_TIMER_FLAG_SOFT_TIMER"
    by (simp_all add: and.assoc bit.conj_disj_distrib2)
qed

lemma soft_timer_remove [simp]: "soft_timer r (timer_remove u s) = soft_timer r s"
  by (simp add: soft_timer_def timer_flag_def timer_remove_def)

lemma soft_timer_upd_tmr [simp]: "soft_timer r (upd_tmr u f s) = soft_timer r s"
  by (simp add: soft_timer_def timer_flag_def upd_tmr_def)

lemma soft_timer_active [simp]:
  "soft_timer r (upd_flag u (\<lambda>f. f AND NOT RT_TIMER_FLAG_ACTIVATED) s) = soft_timer r s"
  "soft_timer r (upd_flag u (\<lambda>f. f OR RT_TIMER_FLAG_ACTIVATED) s) = soft_timer r s"
  by (simp_all add: soft_timer_def timer_flag_def upd_flag_def upd_obj_def soft_flag_active)

lemmas soft_timer_scheduler [simp] =
  tmview_scheduler [THEN soft_timer_tmview] tmview_schedule [THEN soft_timer_tmview]

lemma soft_timer_stop [simp]: "soft_timer r (fst (rt_timer_stop u s)) = soft_timer r s"
  by (simp add: rt_timer_stop_def Let_def)

lemma soft_timer_suspend [simp]:
  "soft_timer r (fst (rt_thread_suspend t s)) = soft_timer r s"
  by (simp add: rt_thread_suspend_def Let_def)

lemma soft_timer_set_time [simp]:
  "soft_timer r (fst (rt_timer_control u (RT_TIMER_CTRL_SET_TIME k) s)) = soft_timer r s"
  by (simp add: rt_timer_control_def Let_def)

text \<open>A hard timer leaves the scheduler alone when it is started.\<close>

lemma sview_timer_start_hard:
  assumes "\<not> soft_timer r s"
  shows "sview (fst (rt_timer_start r s)) = sview s"
  using assms
  by (simp add: rt_timer_start_def Let_def soft_timer_def timer_flag_def upd_flag_def upd_obj_def upd_tmr_def timer_remove_def
      RT_ASSERT_def soft_flag_active) (simp add: sview_def)

text \<open>The example system has no timers running.\<close>

lemma demo_timers [simp]: "\<not> soft_timer r (demo_on h)"
  by (simp add: soft_timer_def timer_flag_def blank_object_def)

end
