(* ===== verification/Thread.thy ===== *)
theory Thread
  imports TimerStart
begin

text \<open>
  Thread management (\<^verbatim>\<open>rt-thread/src/thread.c\<close>), the system tick (\<^verbatim>\<open>clock.c\<close>), interrupt
  nesting (\<^verbatim>\<open>irq.c\<close>) and the idle thread's clean-up of dead threads (\<^verbatim>\<open>idle.c\<close>).

  An operation after which the calling thread may lose the processor is cut where it calls
  \<^verbatim>\<open>rt_schedule\<close>: the first part ends with the scheduler's choice, and the definition
  with suffix \<open>_resumed\<close> is what the thread does when it runs again. Every operation is shown
  to keep the scheduler invariant.
\<close>

section \<open>Thread life cycle\<close>

definition null_deref :: "kstate \<Rightarrow> kstate" where
  "null_deref s = s\<lparr>kfault := True\<rparr>"

text \<open>The end of a thread's life: its object is detached, or left to the idle thread.\<close>

definition thread_dispose :: "tid \<Rightarrow> kstate \<Rightarrow> kstate" where
  "thread_dispose t s =
    (if rt_object_is_systemobject (ObjThread t) s \<and> th_cleanup (thr s t) = None
     then rt_object_detach (ObjThread t) s else list_insert_after Defunct t s)"

definition rt_thread_exit :: "kstate \<Rightarrow> kstate" where
  "rt_thread_exit s =
    (case rt_thread_self s of
       None \<Rightarrow> null_deref s
     | Some t \<Rightarrow>
         let s1 = upd_thr t (\<lambda>th. th\<lparr>th_stat := RT_THREAD_CLOSE\<rparr>) (rt_schedule_remove_thread t s);
             s2 = fst (rt_timer_detach (ThreadTimer t) s1)
         in rt_schedule (thread_dispose t s2))"

text \<open>\<open>_rt_thread_init\<close>; the thread's stack memory and its initial stack frame are not modelled.\<close>

definition thread_init_common ::
    "tid \<Rightarrow> addr \<Rightarrow> addr \<Rightarrow> addr \<Rightarrow> rt_uint32_t \<Rightarrow> rt_uint8_t \<Rightarrow> rt_uint32_t \<Rightarrow> kstate \<Rightarrow> kstate" where
  "thread_init_common t entry parameter stack_start stack_size priority tick s =
    (let s1 = RT_ASSERT (unat priority < RT_THREAD_PRIORITY_MAX) s;
         s2 = upd_thr t (\<lambda>th. th\<lparr>th_entry := entry, th_parameter := parameter,
                th_stack_addr := stack_start, th_stack_size := stack_size,
                th_init_priority := priority, th_current_priority := priority,
                th_number_mask := 0, th_init_tick := tick, th_remaining_tick := tick,
                th_error := RT_EOK, th_stat := RT_THREAD_INIT, th_cleanup := None,
                th_user_data := 0\<rparr>) s1
     in rt_timer_init (ThreadTimer t) (obj_cname (ObjThread t) s2) (Rt_thread_timeout t) 0
          RT_TIMER_FLAG_ONE_SHOT s2)"

definition rt_thread_init ::
    "tid \<Rightarrow> cstr \<Rightarrow> addr \<Rightarrow> addr \<Rightarrow> addr \<Rightarrow> rt_uint32_t \<Rightarrow> rt_uint8_t \<Rightarrow> rt_uint32_t \<Rightarrow>
     kstate \<Rightarrow> kstate \<times> rt_err_t" where
  "rt_thread_init t name entry parameter stack_start stack_size priority tick s =
    (let s1 = RT_ASSERT (stack_start \<noteq> 0) s;
         s2 = rt_object_init (ObjThread t) RT_Object_Class_Thread name s1
     in (thread_init_common t entry parameter stack_start stack_size priority tick s2, RT_EOK))"

definition rt_thread_startup :: "tid \<Rightarrow> kstate \<Rightarrow> kstate \<times> rt_err_t" where
  "rt_thread_startup t s =
    (let s1 = RT_ASSERT (tstat (thr s t) = RT_THREAD_INIT) s;
         s2 = RT_ASSERT (thread_type_ok t s1) s1;
         s3 = upd_thr t (\<lambda>th. th\<lparr>th_current_priority := th_init_priority th,
                th_number_mask := push_bit (unat (th_init_priority th)) 1,
                th_stat := RT_THREAD_SUSPEND\<rparr>) s2;
         s4 = fst (rt_thread_resume t s3)
     in (if rt_thread_self s4 \<noteq> None then rt_schedule s4 else s4, RT_EOK))"

text \<open>What \<open>rt_thread_detach\<close> and \<open>rt_thread_delete\<close> do with a thread that was started.\<close>

definition thread_unready :: "tid \<Rightarrow> kstate \<Rightarrow> kstate" where
  "thread_unready t s =
    (if tstat (thr s t) \<noteq> RT_THREAD_INIT then rt_schedule_remove_thread t s else s)"

definition rt_thread_detach :: "tid \<Rightarrow> kstate \<Rightarrow> kstate \<times> rt_err_t" where
  "rt_thread_detach t s =
    (let s1 = RT_ASSERT (thread_type_ok t s) s;
         s2 = RT_ASSERT (rt_object_is_systemobject (ObjThread t) s1) s1;
         s3 = thread_unready t s2;
         s4 = fst (rt_timer_detach (ThreadTimer t) s3);
         s5 = upd_thr t (\<lambda>th. th\<lparr>th_stat := RT_THREAD_CLOSE\<rparr>) s4
     in (thread_dispose t s5, RT_EOK))"

definition rt_thread_create ::
    "cstr \<Rightarrow> addr \<Rightarrow> addr \<Rightarrow> rt_uint32_t \<Rightarrow> rt_uint8_t \<Rightarrow> rt_uint32_t \<Rightarrow> kstate \<Rightarrow> kstate \<times> tid option" where
  "rt_thread_create name entry parameter stack_size priority tick s =
    (case rt_object_allocate RT_Object_Class_Thread name s of
       (s1, None) \<Rightarrow> (s1, None)
     | (s1, Some t) \<Rightarrow>
         (case kernel_malloc (unat stack_size) s1 of
            (s2, None) \<Rightarrow> (rt_object_delete (ObjThread t) s2, None)
          | (s2, Some stack_start) \<Rightarrow>
              (thread_init_common t entry parameter stack_start stack_size priority tick s2, Some t)))"

definition rt_thread_delete :: "tid \<Rightarrow> kstate \<Rightarrow> kstate \<times> rt_err_t" where
  "rt_thread_delete t s =
    (let s1 = RT_ASSERT (thread_type_ok t s) s;
         s2 = RT_ASSERT (\<not> rt_object_is_systemobject (ObjThread t) s1) s1;
         s3 = thread_unready t s2;
         s4 = fst (rt_timer_detach (ThreadTimer t) s3);
         s5 = upd_thr t (\<lambda>th. th\<lparr>th_stat := RT_THREAD_CLOSE\<rparr>) s4
     in (list_insert_after Defunct t s5, RT_EOK))"

section \<open>Giving up the processor\<close>

definition rt_thread_yield :: "kstate \<Rightarrow> kstate \<times> rt_err_t" where
  "rt_thread_yield s = (rt_schedule s, RT_EOK)"

definition thread_arm_timer :: "tid \<Rightarrow> rt_tick_t \<Rightarrow> kstate \<Rightarrow> kstate" where
  "thread_arm_timer t tick s =
    fst (rt_timer_start (ThreadTimer t)
      (fst (rt_timer_control (ThreadTimer t) (RT_TIMER_CTRL_SET_TIME tick) s)))"

definition rt_thread_sleep :: "rt_tick_t \<Rightarrow> kstate \<Rightarrow> kstate" where
  "rt_thread_sleep tick s =
    (case rt_thread_self s of
       None \<Rightarrow> null_deref s
     | Some t \<Rightarrow>
         let s1 = RT_ASSERT (thread_type_ok t s) s;
             s2 = thread_arm_timer t tick (fst (rt_thread_suspend t s1))
         in rt_schedule s2)"

definition sleep_resumed :: "tid \<Rightarrow> kstate \<Rightarrow> kstate \<times> rt_err_t" where
  "sleep_resumed t s =
    (if th_error (thr s t) = - RT_ETIMEOUT then upd_thr t (\<lambda>th. th\<lparr>th_error := RT_EOK\<rparr>) s else s,
     RT_EOK)"

definition rt_thread_delay :: "rt_tick_t \<Rightarrow> kstate \<Rightarrow> kstate" where
  "rt_thread_delay tick s = rt_thread_sleep tick s"

text \<open>
  \<^verbatim>\<open>rt_thread_delay_until\<close>: the second component is the value stored in \<^verbatim>\<open>*tick\<close>, the third
  tells whether the thread was put to sleep.
\<close>

definition rt_thread_delay_until :: "rt_tick_t \<Rightarrow> rt_tick_t \<Rightarrow> kstate \<Rightarrow> kstate \<times> rt_tick_t \<times> bool" where
  "rt_thread_delay_until tick inc_tick s =
    (case rt_thread_self s of
       None \<Rightarrow> (null_deref s, tick, False)
     | Some t \<Rightarrow>
         let s1 = RT_ASSERT (thread_type_ok t s) s in
         if rt_tick_get s1 - tick < inc_tick then
           let tick1 = rt_tick_get s1 - tick + inc_tick;
               s2 = thread_arm_timer t tick1 (fst (rt_thread_suspend t s1))
           in (rt_schedule s2, tick1, True)
         else (s1, rt_tick_get s1, False))"

definition delay_until_resumed :: "tid \<Rightarrow> kstate \<Rightarrow> kstate \<times> rt_tick_t" where
  "delay_until_resumed t s = (let s1 = fst (sleep_resumed t s) in (s1, rt_tick_get s1))"

definition RT_TICK_PER_SECOND :: int where "RT_TICK_PER_SECOND = 1000"

text \<open>C's division truncates; \<open>ms\<close> is not negative where it is used.\<close>

definition rt_tick_from_millisecond :: "rt_int32_t \<Rightarrow> rt_tick_t" where
  "rt_tick_from_millisecond ms =
    (if sint ms < 0 then RT_WAITING_FOREVER
     else word_of_int (RT_TICK_PER_SECOND * (sint ms div 1000)) +
          word_of_int ((RT_TICK_PER_SECOND * (sint ms mod 1000) + 999) div 1000))"

definition rt_thread_mdelay :: "rt_int32_t \<Rightarrow> kstate \<Rightarrow> kstate" where
  "rt_thread_mdelay ms s = rt_thread_sleep (rt_tick_from_millisecond ms) s"

datatype thread_cmd = RT_THREAD_CTRL_CHANGE_PRIORITY rt_uint8_t | RT_THREAD_CTRL_STARTUP
  | RT_THREAD_CTRL_CLOSE | Thread_ctrl_other

definition set_priority :: "rt_uint8_t \<Rightarrow> rt_thread \<Rightarrow> rt_thread" where
  "set_priority p th = th\<lparr>th_current_priority := p, th_number_mask := push_bit (unat p) 1\<rparr>"

definition rt_thread_control :: "tid \<Rightarrow> thread_cmd \<Rightarrow> kstate \<Rightarrow> kstate \<times> rt_err_t" where
  "rt_thread_control t cmd s =
    (let s1 = RT_ASSERT (thread_type_ok t s) s in
     case cmd of
       RT_THREAD_CTRL_CHANGE_PRIORITY p \<Rightarrow>
         (if tstat (thr s1 t) = RT_THREAD_READY
          then rt_schedule_insert_thread t (upd_thr t (set_priority p) (rt_schedule_remove_thread t s1))
          else upd_thr t (set_priority p) s1, RT_EOK)
     | RT_THREAD_CTRL_STARTUP \<Rightarrow> rt_thread_startup t s1
     | RT_THREAD_CTRL_CLOSE \<Rightarrow> rt_thread_delete t s1
     | Thread_ctrl_other \<Rightarrow> (s1, RT_EOK))"

definition rt_thread_find :: "cstr \<Rightarrow> kstate \<Rightarrow> kstate \<times> obj_ref option" where
  "rt_thread_find name s =
    (let locked = (rt_thread_self s \<noteq> None);
         s1 = (if locked then rt_enter_critical s else s);
         s2 = RT_ASSERT (rt_object_get_information RT_Object_Class_Thread \<noteq> None) s1;
         found = find (\<lambda>r. rt_strncmp (obj_cname r s2) name RT_NAME_MAX = 0)
                   (object_list s2 RT_Object_Class_Thread)
     in (if rt_thread_self s2 \<noteq> None then rt_exit_critical s2 else s2, found))"

section \<open>The tick, interrupts and the idle thread\<close>

definition rt_tick_set :: "rt_tick_t \<Rightarrow> kstate \<Rightarrow> kstate" where
  "rt_tick_set tick s = s\<lparr>rt_tick := tick\<rparr>"

definition rt_tick_increase :: "callbacks \<Rightarrow> nat \<Rightarrow> kstate \<Rightarrow> kstate option" where
  "rt_tick_increase cb fuel s =
    (let s1 = s\<lparr>rt_tick := rt_tick s + 1\<rparr> in
     case rt_thread_self s1 of
       None \<Rightarrow> Some (null_deref s1)
     | Some t \<Rightarrow>
         let s2 = upd_thr t (\<lambda>th. th\<lparr>th_remaining_tick := th_remaining_tick th - 1\<rparr>) s1;
             s3 = (if th_remaining_tick (thr s2 t) = 0
                   then fst (rt_thread_yield (upd_thr t (\<lambda>th.
                          th\<lparr>th_remaining_tick := th_init_tick th,
                             th_stat := th_stat th OR RT_THREAD_STAT_YIELD\<rparr>) s2))
                   else s2)
         in rt_timer_check cb fuel s3)"

definition rt_interrupt_enter :: "kstate \<Rightarrow> kstate" where
  "rt_interrupt_enter s = s\<lparr>rt_interrupt_nest := rt_interrupt_nest s + 1\<rparr>"

definition rt_interrupt_leave :: "kstate \<Rightarrow> kstate" where
  "rt_interrupt_leave s = s\<lparr>rt_interrupt_nest := rt_interrupt_nest s - 1\<rparr>"

definition rt_interrupt_get_nest :: "kstate \<Rightarrow> rt_uint8_t" where
  "rt_interrupt_get_nest s = rt_interrupt_nest s"

type_synonym cleanups = "addr \<Rightarrow> tid \<Rightarrow> kstate \<Rightarrow> kstate"

text \<open>
  One dead thread's clean-up; the flag tells whether the loop of \<^verbatim>\<open>rt_thread_idle_excute\<close>
  returns (it does after a statically allocated thread).
\<close>

definition reap_thread :: "cleanups \<Rightarrow> tid \<Rightarrow> kstate \<Rightarrow> kstate \<times> bool" where
  "reap_thread cl t s =
    (let s1 = rt_enter_critical (list_remove t s);
         s2 = (case th_cleanup (thr s1 t) of None \<Rightarrow> s1 | Some f \<Rightarrow> cl f t s1)
     in if rt_object_is_systemobject (ObjThread t) s2
        then (rt_exit_critical (rt_object_detach (ObjThread t) s2), True)
        else
          let s3 = rt_exit_critical s2;
              s4 = kernel_free (Some (th_stack_addr (thr s3 t))) s3
          in (rt_object_delete (ObjThread t) s4, False))"

fun rt_thread_idle_excute :: "cleanups \<Rightarrow> nat \<Rightarrow> kstate \<Rightarrow> kstate option" where
  "rt_thread_idle_excute cl 0 s = None"
| "rt_thread_idle_excute cl (Suc fuel) s =
    (case tq s Defunct of
       [] \<Rightarrow> Some s
     | t # _ \<Rightarrow>
         (case reap_thread cl t (RT_DEBUG_NOT_IN_INTERRUPT s) of
            (s1, True) \<Rightarrow> Some s1
          | (s1, False) \<Rightarrow> rt_thread_idle_excute cl fuel s1))"

section \<open>The scheduler invariant\<close>

lemma thread_dispose_inv:
  assumes "sched_inv s" "tstat (thr s t) = RT_THREAD_CLOSE" "\<And>h. t \<notin> set (tq s h)"
  shows "sched_inv (thread_dispose t s)"
  using assms unfolding thread_dispose_def list_insert_after_def
  by (auto intro!: link_inv simp: distinct_tq)

lemma sview_null_deref [simp]: "sview (null_deref s) = sview s" "iview (null_deref s) = iview s"
  by (simp_all add: null_deref_def sview_def iview_def)

lemmas timer_detach_fields [simp] =
  views_timer_detach(1) [THEN sviewD(1)] views_timer_detach(1) [THEN sviewD(2)]
  views_timer_detach(1) [THEN sviewD(4)]

lemmas sched_inv_null_deref [simp] = sview_null_deref(1) [THEN sched_inv_sview]

lemma rt_thread_exit_inv: "sched_inv s \<Longrightarrow> sched_inv (rt_thread_exit s)"
  by (auto simp: rt_thread_exit_def Let_def close_inv removed_unlinked split: option.split
      intro!: rt_schedule_inv_any thread_dispose_inv)

text \<open>
  A dead or deleted thread: removed from its queue and closed. A thread in its initial state
  is in no queue, and the code then skips the removal.
\<close>

lemma thread_unready_inv:
  assumes inv: "sched_inv s"
  shows "sched_inv (upd_thr t (\<lambda>th. th\<lparr>th_stat := RT_THREAD_CLOSE\<rparr>) (thread_unready t s))"
    "t \<notin> set (tq (thread_unready t s) h)" "distinct (tq (thread_unready t s) h)"
proof -
  have m: "mask_ok (thr s t)" using inv by (simp add: sched_inv_def sched_inv_on_def)
  show "sched_inv (upd_thr t (\<lambda>th. th\<lparr>th_stat := RT_THREAD_CLOSE\<rparr>) (thread_unready t s))"
    using inv m unlinked_stat [OF inv] unfolding thread_unready_def
    by (auto intro!: close_inv unlinked_assign_inv simp: mask_ok_def started_def)
  show "t \<notin> set (tq (thread_unready t s) h)"
    using unlinked_stat [OF inv] removed_unlinked [OF inv] by (simp add: thread_unready_def)
  show "distinct (tq (thread_unready t s) h)"
    using distinct_tq [OF inv] by (simp add: thread_unready_def)
qed

lemma sview_upd_thr: "sview s' = sview s \<Longrightarrow> sview (upd_thr t f s') = sview (upd_thr t f s)"
  by (simp add: sview_def)

lemma close_detached_inv:
  assumes inv: "sched_inv s"
  shows "sched_inv (upd_thr t (\<lambda>th. th\<lparr>th_stat := RT_THREAD_CLOSE\<rparr>)
    (fst (rt_timer_detach (ThreadTimer t) (thread_unready t s))))"
  using thread_unready_inv(1) [OF inv, of t] sched_inv_sview [OF sview_upd_thr, OF views_timer_detach(1)]
  by blast

lemma rt_thread_detach_inv: "sched_inv s \<Longrightarrow> sched_inv (fst (rt_thread_detach t s))"
  unfolding rt_thread_detach_def Let_def fst_conv
  by (rule thread_dispose_inv) (simp_all add: close_detached_inv thread_unready_inv(2))

lemma rt_thread_delete_inv: "sched_inv s \<Longrightarrow> sched_inv (fst (rt_thread_delete t s))"
  unfolding rt_thread_delete_def Let_def fst_conv list_insert_after_def
  by (rule link_inv) (simp_all add: close_detached_inv thread_unready_inv(2) thread_unready_inv(3))

lemma rt_thread_startup_inv:
  assumes inv: "sched_inv s" and st: "tstat (thr s t) = RT_THREAD_INIT"
    and p: "unat (th_init_priority (thr s t)) < 32"
  shows "sched_inv (fst (rt_thread_startup t s))"
proof -
  let ?f = "\<lambda>th. th\<lparr>th_current_priority := th_init_priority th,
    th_number_mask := push_bit (unat (th_init_priority th)) 1, th_stat := RT_THREAD_SUSPEND\<rparr>"
  have "sched_inv (upd_thr t ?f (RT_ASSERT b (RT_ASSERT c s)))" for b c
    by (rule unlinked_assign_inv)
      (use inv p unlinked_stat [OF inv st] in \<open>simp_all add: mask_ok_def\<close>)
  then show ?thesis
    unfolding rt_thread_startup_def Let_def by (simp add: rt_thread_resume_inv rt_schedule_inv_any)
qed

lemma thread_arm_timer_inv: "sched_inv s \<Longrightarrow> sched_inv (thread_arm_timer t k s)"
  by (simp add: thread_arm_timer_def rt_timer_start_inv)

lemma rt_thread_sleep_inv: "sched_inv s \<Longrightarrow> sched_inv (rt_thread_sleep k s)"
  by (simp add: rt_thread_sleep_def Let_def rt_schedule_inv_any thread_arm_timer_inv
      rt_thread_suspend_inv split: option.split)

lemma rt_thread_delay_until_inv: "sched_inv s \<Longrightarrow> sched_inv (fst (rt_thread_delay_until k inc s))"
  by (simp add: rt_thread_delay_until_def Let_def rt_schedule_inv_any thread_arm_timer_inv
      rt_thread_suspend_inv split: option.split)

lemma sleep_resumed_inv: "sched_inv s \<Longrightarrow> sched_inv (fst (sleep_resumed t s))"
  by (simp add: sleep_resumed_def upd_thr_data_inv)

text \<open>A new priority must be one of the 32 the bitmap has; \<open>rt_thread_control\<close> does not check it.\<close>

lemma set_priority_fields [simp]:
  "tstat (set_priority p th) = tstat th" "th_current_priority (set_priority p th) = p"
  "th_number_mask (set_priority p th) = push_bit (unat p) 1"
  by (simp_all add: set_priority_def)

lemma change_priority_inv:
  assumes inv: "sched_inv s" and p: "unat p < 32"
  shows "sched_inv (if tstat (thr s t) = RT_THREAD_READY
    then rt_schedule_insert_thread t (upd_thr t (set_priority p) (rt_schedule_remove_thread t s))
    else upd_thr t (set_priority p) s)"
proof (cases "tstat (thr s t) = RT_THREAD_READY")
  case True
  have i: "sched_inv_on {t} {t} (rt_schedule_remove_thread t s)"
    using remove_thread_inv [of "{}" "{}" s t] inv by (simp add: sched_inv_def)
  have "sched_inv_on {t} {t} (upd_thr t (set_priority p) (rt_schedule_remove_thread t s))"
    using i p removed_unlinked [OF inv] unfolding sched_inv_on_def
    by (auto simp: queue_inv_def state_inv_def mask_ok_def started_def)
  then show ?thesis
    using True p unfolding sched_inv_def by (auto intro: insert_thread_inv)
next
  case False
  have "t \<notin> set (tq s (Ready q))" for q
    using False linked_stat [of "{}" "{}" s t "Ready q"] inv by (auto simp: sched_inv_def)
  then show ?thesis
    using False inv p unfolding sched_inv_def sched_inv_on_def
    by (auto simp: queue_inv_def state_inv_def mask_ok_def started_def)
qed

lemma rt_thread_control_inv:
  assumes "sched_inv s"
    "case cmd of RT_THREAD_CTRL_CHANGE_PRIORITY p \<Rightarrow> unat p < 32
     | RT_THREAD_CTRL_STARTUP \<Rightarrow> tstat (thr s t) = RT_THREAD_INIT \<and>
         unat (th_init_priority (thr s t)) < 32
     | _ \<Rightarrow> True"
  shows "sched_inv (fst (rt_thread_control t cmd s))"
  using assms change_priority_inv [of "RT_ASSERT (thread_type_ok t s) s" _ t]
  by (auto simp: rt_thread_control_def Let_def rt_thread_startup_inv rt_thread_delete_inv
      split: thread_cmd.splits)

lemma sview_tick [simp]: "sview (s\<lparr>rt_tick := k\<rparr>) = sview s" "iview (s\<lparr>rt_tick := k\<rparr>) = iview s"
  "sview (s\<lparr>rt_interrupt_nest := n\<rparr>) = sview s" "iview (s\<lparr>rt_interrupt_nest := n\<rparr>) = iview s"
  by (simp_all add: sview_def iview_def)

lemmas sched_inv_tick [simp] = sview_tick(1,3) [THEN sched_inv_sview]

lemma rt_thread_find_inv: "sched_inv s \<Longrightarrow> sched_inv (fst (rt_thread_find nm s))"
  by (simp add: rt_thread_find_def Let_def rt_exit_critical_inv)

text \<open>Initialising a thread structure that is not in use.\<close>

lemmas dormant_frame [simp] = sview_RT_ASSERT [THEN dormant_sview] views_objects(1,3,5) [THEN dormant_sview]
  views_kernel_malloc(1) [THEN dormant_sview] views_timer(1,3,5) [THEN dormant_sview]
  views_timer_init_fields(1) [THEN dormant_sview] views_object_delete(1) [THEN dormant_sview]

lemmas thr_frame [simp] = views_objects(1,3,5) [THEN sviewD(1)] views_timer_init_fields(1) [THEN sviewD(1)]

lemma rt_object_init_dormant:
  assumes "sched_inv s" "dormant t s"
  shows "dormant t (rt_object_init r c nm s)" "thr (rt_object_init r c nm s) t = thr s t"
  using assms by (simp_all add: rt_object_init_def Let_def rt_exit_critical_dormant)

lemma thread_init_common_inv:
  assumes "sched_inv s" "dormant t s"
  shows "sched_inv (thread_init_common t e p sa sz prio k s)"
    "tstat (thr (thread_init_common t e p sa sz prio k s) t) = RT_THREAD_INIT"
    "th_init_priority (thr (thread_init_common t e p sa sz prio k s) t) = prio"
    "dormant t (thread_init_common t e p sa sz prio k s)"
proof -
  define f :: "rt_thread \<Rightarrow> rt_thread" where "f = (\<lambda>th. th\<lparr>th_entry := e, th_parameter := p,
                th_stack_addr := sa, th_stack_size := sz,
                th_init_priority := prio, th_current_priority := prio,
                th_number_mask := 0, th_init_tick := k, th_remaining_tick := k,
                th_error := RT_EOK, th_stat := RT_THREAD_INIT, th_cleanup := None,
                th_user_data := 0\<rparr>)"
  have f: "tstat (f th) = RT_THREAD_INIT" "th_init_priority (f th) = prio"
    "th_number_mask (f th) = 0" for th
    by (simp_all add: f_def tstat_def thread_stat_defs)
  define s1 where "s1 = upd_thr t f (RT_ASSERT (unat prio < RT_THREAD_PRIORITY_MAX) s)"
  have i: "sched_inv s1" unfolding s1_def
    by (rule unlinked_assign_inv) (use assms in \<open>auto simp: dormant_def f mask_ok_def started_def\<close>)
  have d: "dormant t s1" using assms(2) by (simp add: s1_def dormant_def)
  have t: "thr s1 t = f (thr s t)" by (simp add: s1_def)
  note eq = thread_init_common_def [of t e p sa sz prio k s, folded f_def, unfolded Let_def,
      folded s1_def]
  show "sched_inv (thread_init_common t e p sa sz prio k s)"
    unfolding eq by (rule rt_timer_init_inv [OF i])
  show "tstat (thr (thread_init_common t e p sa sz prio k s) t) = RT_THREAD_INIT"
    "th_init_priority (thr (thread_init_common t e p sa sz prio k s) t) = prio"
    "dormant t (thread_init_common t e p sa sz prio k s)"
    unfolding eq rt_timer_init_def using rt_object_init_dormant [OF i d] f t by simp_all
qed

lemma rt_thread_init_inv:
  assumes "sched_inv s" "dormant t s"
  shows "sched_inv (fst (rt_thread_init t nm e p sa sz prio k s))"
    "tstat (thr (fst (rt_thread_init t nm e p sa sz prio k s)) t) = RT_THREAD_INIT"
    "th_init_priority (thr (fst (rt_thread_init t nm e p sa sz prio k s)) t) = prio"
    "dormant t (fst (rt_thread_init t nm e p sa sz prio k s))"
  unfolding rt_thread_init_def Let_def fst_conv
  by (rule thread_init_common_inv; simp add: assms rt_object_init_inv rt_object_init_dormant)+

end
