(* ===== verification/IpcBase.thy ===== *)
theory IpcBase
  imports Thread
begin

text \<open>
  What the kernel objects of \<^verbatim>\<open>rt-thread/src/ipc.c\<close> share: the waiting lists (in order of
  arrival or of priority), waking the first waiter or all of them, and putting the calling
  thread to sleep on a list with an optional timeout. \<open>qhead\<close> names the list; the results
  say how these operations change the lists and that they keep the scheduler invariant.
\<close>

section \<open>Operations\<close>

fun prio_insert :: "(tid \<Rightarrow> rt_uint8_t) \<Rightarrow> tid \<Rightarrow> tid list \<Rightarrow> tid list" where
  "prio_insert prio t [] = [t]"
| "prio_insert prio t (u # us) =
    (if prio t < prio u then t # u # us else u # prio_insert prio t us)"

definition rt_ipc_list_suspend :: "qhead \<Rightarrow> tid \<Rightarrow> rt_uint8_t \<Rightarrow> kstate \<Rightarrow> kstate" where
  "rt_ipc_list_suspend h t flag s =
    (let s1 = fst (rt_thread_suspend t s) in
     if flag = RT_IPC_FLAG_FIFO then list_insert_before h t s1
     else if flag = RT_IPC_FLAG_PRIO
     then s1\<lparr>tq := (tq s1)(h := prio_insert (\<lambda>u. th_current_priority (thr s1 u)) t (tq s1 h))\<rparr>
     else s1)"

definition rt_ipc_list_resume :: "qhead \<Rightarrow> kstate \<Rightarrow> kstate" where
  "rt_ipc_list_resume h s =
    (case tq s h of [] \<Rightarrow> null_deref s | t # _ \<Rightarrow> fst (rt_thread_resume t s))"

text \<open>
  The loop ends when the list is empty. It runs once per waiter; if a waiter could not be
  resumed it would run forever, which counts as a fault.
\<close>

fun resume_all_loop :: "qhead \<Rightarrow> nat \<Rightarrow> kstate \<Rightarrow> kstate" where
  "resume_all_loop h 0 s = (if tq s h = [] then s else s\<lparr>kfault := True\<rparr>)"
| "resume_all_loop h (Suc n) s =
    (case tq s h of [] \<Rightarrow> s
     | t # _ \<Rightarrow> resume_all_loop h n
         (fst (rt_thread_resume t (upd_thr t (\<lambda>th. th\<lparr>th_error := - RT_ERROR\<rparr>) s))))"

definition rt_ipc_list_resume_all :: "qhead \<Rightarrow> kstate \<Rightarrow> kstate" where
  "rt_ipc_list_resume_all h s = resume_all_loop h (length (tq s h)) s"

text \<open>
  The common end of the blocking calls: link the thread, start its timer when the timeout is
  positive, and schedule. The timeout is a signed 32-bit number; negative means forever.
\<close>

definition wait_on :: "qhead \<Rightarrow> tid \<Rightarrow> rt_uint8_t \<Rightarrow> rt_int32_t \<Rightarrow> kstate \<Rightarrow> kstate" where
  "wait_on h t flag time s =
    (let s1 = rt_ipc_list_suspend h t flag s
     in if sint time > 0 then thread_arm_timer t time s1 else s1)"

datatype 'a outcome = Returns 'a | Waits

definition set_error :: "tid \<Rightarrow> rt_err_t \<Rightarrow> kstate \<Rightarrow> kstate" where
  "set_error t e s = upd_thr t (\<lambda>th. th\<lparr>th_error := e\<rparr>) s"

section \<open>Waiting lists\<close>

definition wait_head :: "qhead \<Rightarrow> bool" where
  "wait_head h \<longleftrightarrow> qstat h = RT_THREAD_SUSPEND"

lemma wait_head_simps [simp]:
  "wait_head (SemQ a)" "wait_head (MutexQ a)" "wait_head (EventQ a)" "wait_head (MailboxQ a)"
  "wait_head (MailboxSendQ a)" "wait_head (MqQ a)" "wait_head (MqSendQ a)" "wait_head (MempoolQ a)"
  "wait_head (CompletionQ a)" "wait_head (DqPushQ a)" "wait_head (DqPopQ a)"
  "\<not> wait_head (Ready p)" "\<not> wait_head Defunct"
  by (simp_all add: wait_head_def)

lemma wait_head_not_ready: "wait_head h \<Longrightarrow> h \<noteq> Ready p"
  by auto

lemma set_prio_insert [simp]: "set (prio_insert prio t us) = insert t (set us)"
  by (induction us) auto

lemma distinct_prio_insert: "t \<notin> set us \<Longrightarrow> distinct us \<Longrightarrow> distinct (prio_insert prio t us)"
  by (induction us) auto

lemma prio_insert_sorted:
  "sorted (map prio us) \<Longrightarrow> sorted (map prio (prio_insert prio t us))"
  by (induction us) auto

text \<open>Among waiters of the same priority the newest is last.\<close>

lemma prio_insert_position:
  assumes "sorted (map prio us)"
  shows "prio_insert prio t us =
    takeWhile (\<lambda>u. prio u \<le> prio t) us @ t # dropWhile (\<lambda>u. prio u \<le> prio t) us"
  using assms by (induction us) (auto simp: not_le)

section \<open>The scheduler invariant\<close>

lemma iview_wait [simp]:
  "iview (rt_ipc_list_suspend h t flag s) = iview s" "iview (rt_ipc_list_resume h s) = iview s"
  "iview (thread_arm_timer t k s) = iview s" "iview (wait_on h t flag time s) = iview s"
  "iview (set_error t e s) = iview s"
proof -
  show 1: "iview (rt_ipc_list_suspend h t flag s) = iview s"
    by (simp add: rt_ipc_list_suspend_def Let_def)
  show "iview (rt_ipc_list_resume h s) = iview s"
    by (simp add: rt_ipc_list_resume_def split: list.split)
  show 2: "iview (thread_arm_timer t k s) = iview s" for t k s by (simp add: thread_arm_timer_def)
  show "iview (wait_on h t flag time s) = iview s" by (simp add: wait_on_def Let_def 1 2)
  show "iview (set_error t e s) = iview s" by (simp add: set_error_def)
qed

lemma iview_resume_all_loop [simp]: "iview (resume_all_loop h n s) = iview s"
  by (induction n arbitrary: s) (simp_all split: list.split)

lemma iview_resume_all [simp]: "iview (rt_ipc_list_resume_all h s) = iview s"
  by (simp add: rt_ipc_list_resume_all_def)

lemma set_error_inv [simp]: "sched_inv s \<Longrightarrow> sched_inv (set_error t e s)"
  by (simp add: set_error_def upd_thr_data_inv)

text \<open>The running thread can be put on any waiting list.\<close>

lemma rt_ipc_list_suspend_inv:
  assumes inv: "sched_inv s" and st: "tstat (thr s t) \<in> {RT_THREAD_READY, RT_THREAD_RUNNING}"
    and h: "wait_head h"
  shows "sched_inv (rt_ipc_list_suspend h t flag s)"
proof -
  let ?s = "fst (rt_thread_suspend t s)"
  have i: "sched_inv ?s" by (rule rt_thread_suspend_inv [OF inv])
  have u: "t \<notin> set (tq ?s k)" for k
    using removed_unlinked [OF inv] by (simp add: rt_thread_suspend_effect [OF st])
  have s: "tstat (thr ?s t) = qstat h"
    using h by (simp add: rt_thread_suspend_effect [OF st] wait_head_def)
  show ?thesis
    unfolding rt_ipc_list_suspend_def Let_def list_insert_before_def
    using i u s distinct_tq [OF i] wait_head_not_ready [OF h]
    by (auto intro!: link_inv distinct_prio_insert)
qed

lemma wait_on_inv:
  assumes "sched_inv s" "tstat (thr s t) \<in> {RT_THREAD_READY, RT_THREAD_RUNNING}" "wait_head h"
  shows "sched_inv (wait_on h t flag time s)"
  using rt_ipc_list_suspend_inv [OF assms] by (simp add: wait_on_def Let_def thread_arm_timer_inv)

lemma rt_ipc_list_resume_inv: "sched_inv s \<Longrightarrow> sched_inv (rt_ipc_list_resume h s)"
  by (simp add: rt_ipc_list_resume_def rt_thread_resume_inv split: list.split)

lemma sched_inv_kfault [simp]: "sched_inv (s\<lparr>kfault := b\<rparr>) = sched_inv s"
  by (simp add: sched_inv_def sched_inv_on_def)

lemma resume_all_loop_inv: "sched_inv s \<Longrightarrow> sched_inv (resume_all_loop h n s)"
  by (induction n arbitrary: s)
    (simp_all add: rt_thread_resume_inv upd_thr_data_inv split: list.split)

lemma rt_ipc_list_resume_all_inv: "sched_inv s \<Longrightarrow> sched_inv (rt_ipc_list_resume_all h s)"
  by (simp add: rt_ipc_list_resume_all_def resume_all_loop_inv)

section \<open>Effect on the lists\<close>

lemma rt_ipc_list_suspend_tq:
  assumes inv: "sched_inv s" and st: "tstat (thr s t) = RT_THREAD_RUNNING"
  shows "tq (rt_ipc_list_suspend h t RT_IPC_FLAG_FIFO s) = (tq s)(h := tq s h @ [t])"
    "tq (rt_ipc_list_suspend h t RT_IPC_FLAG_PRIO s) =
      (tq s)(h := prio_insert (\<lambda>u. th_current_priority (thr s u)) t (tq s h))"
    "thr (rt_ipc_list_suspend h t flag s) = (thr s)(t := set_stat RT_THREAD_SUSPEND (thr s t))"
    "rt_current_thread (rt_ipc_list_suspend h t flag s) = rt_current_thread s"
proof -
  have st': "tstat (thr s t) \<in> {RT_THREAD_READY, RT_THREAD_RUNNING}" using st by simp
  note eff = rt_thread_suspend_effect [OF st']
  have u: "t \<notin> set (tq s k)" for k using running_unlinked [OF _ st] inv by (simp add: sched_inv_def)
  have tq: "tq (fst (rt_thread_suspend t s)) = tq s" using eff(2) u by (simp add: fun_eq_iff)
  have fl: "RT_IPC_FLAG_PRIO \<noteq> RT_IPC_FLAG_FIFO" by (simp add: rt_flag_defs)
  have p: "(\<lambda>u. th_current_priority (thr (fst (rt_thread_suspend t s)) u)) =
      (\<lambda>u. th_current_priority (thr s u))"
    using eff(1) by (simp add: fun_eq_iff)
  show "tq (rt_ipc_list_suspend h t RT_IPC_FLAG_FIFO s) = (tq s)(h := tq s h @ [t])"
    "tq (rt_ipc_list_suspend h t RT_IPC_FLAG_PRIO s) =
      (tq s)(h := prio_insert (\<lambda>u. th_current_priority (thr s u)) t (tq s h))"
    using tq fl p by (simp_all add: rt_ipc_list_suspend_def Let_def list_insert_before_def)
  show "thr (rt_ipc_list_suspend h t flag s) = (thr s)(t := set_stat RT_THREAD_SUSPEND (thr s t))"
    "rt_current_thread (rt_ipc_list_suspend h t flag s) = rt_current_thread s"
    using eff by (simp_all add: rt_ipc_list_suspend_def Let_def list_insert_before_def)
qed

text \<open>Waking the first waiter takes it off its list and makes it ready.\<close>

lemma rt_ipc_list_resume_effect:
  assumes inv: "sched_inv s" and q: "tq s h = t # ts" and h: "wait_head h"
  shows "tq (rt_ipc_list_resume h s) h = ts"
    "\<And>h'. h' \<noteq> h \<Longrightarrow> wait_head h' \<Longrightarrow> tq (rt_ipc_list_resume h s) h' = tq s h'"
    "tstat (thr (rt_ipc_list_resume h s) t) =
      (if rt_current_thread s = Some t then RT_THREAD_RUNNING else RT_THREAD_READY)"
    "rt_current_thread (rt_ipc_list_resume h s) = rt_current_thread s"
proof -
  have i: "sched_inv_on {} {} s" using inv by (simp add: sched_inv_def)
  have t: "t \<in> set (tq s h)" using q by simp
  have st: "tstat (thr s t) = RT_THREAD_SUSPEND" using linked_stat [OF i t] h by (simp add: wait_head_def)
  have o: "t \<notin> set (tq s h')" if "h' \<noteq> h" for h' using sched_inv_on_linked_unique [OF i t] that by blast
  have nr: "h \<noteq> Ready p" for p using h by auto
  show "tq (rt_ipc_list_resume h s) h = ts"
    "\<And>h'. h' \<noteq> h \<Longrightarrow> wait_head h' \<Longrightarrow> tq (rt_ipc_list_resume h s) h' = tq s h'"
    "tstat (thr (rt_ipc_list_resume h s) t) =
      (if rt_current_thread s = Some t then RT_THREAD_RUNNING else RT_THREAD_READY)"
    "rt_current_thread (rt_ipc_list_resume h s) = rt_current_thread s"
    using q st nr o by (auto simp: rt_ipc_list_resume_def rt_thread_resume_def Let_def
        rt_schedule_insert_thread_def list_insert_before_def list_remove_def)
qed

lemma tq_resume_hd:
  assumes inv: "sched_inv s" and q: "tq s h = t # ts" and h: "wait_head h"
  shows "tq (fst (rt_thread_resume t s)) h = ts"
  using rt_ipc_list_resume_effect(1) [OF assms] q by (simp add: rt_ipc_list_resume_def)

lemma resume_all_loop_empty:
  assumes "sched_inv s" "wait_head h"
  shows "tq (resume_all_loop h (length (tq s h)) s) h = []"
  using assms
proof (induction "length (tq s h)" arbitrary: s)
  case (Suc n)
  then obtain t ts where q: "tq s h = t # ts" by (cases "tq s h") auto
  let ?s = "upd_thr t (\<lambda>th. th\<lparr>th_error := - RT_ERROR\<rparr>) s"
  have i: "sched_inv ?s" using Suc.prems by (simp add: upd_thr_data_inv)
  have q': "tq (fst (rt_thread_resume t ?s)) h = ts"
    using tq_resume_hd [OF i] q Suc.prems by simp
  then have "n = length (tq (fst (rt_thread_resume t ?s)) h)" using Suc.hyps(2) q by simp
  from Suc.hyps(1) [OF this rt_thread_resume_inv [OF i] Suc.prems(2)] q q'
  show ?case using Suc.hyps(2) by (simp flip: Suc.hyps(2))
qed simp

lemma rt_ipc_list_resume_all_empty:
  "sched_inv s \<Longrightarrow> wait_head h \<Longrightarrow> tq (rt_ipc_list_resume_all h s) h = []"
  by (simp add: rt_ipc_list_resume_all_def resume_all_loop_empty)

text \<open>Thread timers are hard timers: \<open>_rt_thread_init\<close> creates them without the soft flag.\<close>

lemma soft_timer_ipc_suspend [simp]: "soft_timer r (rt_ipc_list_suspend h t fl s) = soft_timer r s"
  using soft_timer_tmview [OF tmview_fields(6)]
  by (simp add: rt_ipc_list_suspend_def Let_def)

lemma sview_arm_timer:
  "\<not> soft_timer (ThreadTimer t) s \<Longrightarrow> sview (thread_arm_timer t k s) = sview s"
  using sview_timer_start_hard [of "ThreadTimer t"
      "fst (rt_timer_control (ThreadTimer t) (RT_TIMER_CTRL_SET_TIME k) s)"]
  by (simp add: thread_arm_timer_def)

lemma wait_on_sview:
  "\<not> soft_timer (ThreadTimer t) s \<Longrightarrow>
    sview (wait_on h t flag time s) = sview (rt_ipc_list_suspend h t flag s)"
  by (simp add: wait_on_def Let_def sview_arm_timer)

text \<open>The position a waiter takes in a list, by the object's flag.\<close>

definition wait_insert :: "rt_uint8_t \<Rightarrow> (tid \<Rightarrow> rt_uint8_t) \<Rightarrow> tid \<Rightarrow> tid list \<Rightarrow> tid list" where
  "wait_insert flag prio t ws =
    (if flag = RT_IPC_FLAG_FIFO then ws @ [t] else if flag = RT_IPC_FLAG_PRIO then prio_insert prio t ws
     else ws)"

lemma rt_ipc_list_suspend_wait:
  assumes "sched_inv s" "tstat (thr s t) = RT_THREAD_RUNNING"
  shows "tq (rt_ipc_list_suspend h t flag s) =
    (tq s)(h := wait_insert flag (\<lambda>u. th_current_priority (thr s u)) t (tq s h))"
proof -
  have "tstat (thr s t) \<in> {RT_THREAD_READY, RT_THREAD_RUNNING}" using assms(2) by simp
  from rt_thread_suspend_effect(2) [OF this]
  have "tq (fst (rt_thread_suspend t s)) = tq s"
    using running_unlinked [OF _ assms(2)] assms(1) by (simp add: fun_eq_iff sched_inv_def)
  then show ?thesis
    using rt_ipc_list_suspend_tq [OF assms]
    by (simp add: wait_insert_def) (simp add: rt_ipc_list_suspend_def Let_def)
qed

lemma set_error_fields [simp]:
  "tq (set_error t e s) = tq s" "rt_current_thread (set_error t e s) = rt_current_thread s"
  "objs (set_error t e s) = objs s"
  by (simp_all add: set_error_def tmviewD(4) [OF tmview_scheduler(2)])

text \<open>A wait of the running thread on a list, seen from the other lists.\<close>

lemma wait_block_tq:
  assumes inv: "sched_inv s" and cur: "rt_current_thread s = Some t" "tstat (thr s t) = RT_THREAD_RUNNING"
    and hard: "\<not> soft_timer (ThreadTimer t) s" and h: "wait_head h" "wait_head h'"
  shows "tq (rt_schedule (wait_on h t flag time s)) h' =
    (if h' = h then wait_insert flag (\<lambda>u. th_current_priority (thr s u)) t (tq s h) else tq s h')"
    "sched_inv (rt_schedule (wait_on h t flag time s))"
    "th_current_priority (thr (rt_schedule (wait_on h t flag time s)) u) = th_current_priority (thr s u)"
proof -
  have i: "sched_inv (wait_on h t flag time s)" by (rule wait_on_inv [OF inv _ h(1)]) (simp add: cur)
  have v: "sview (wait_on h t flag time s) = sview (rt_ipc_list_suspend h t flag s)"
    by (rule wait_on_sview [OF hard])
  show "tq (rt_schedule (wait_on h t flag time s)) h' =
    (if h' = h then wait_insert flag (\<lambda>u. th_current_priority (thr s u)) t (tq s h) else tq s h')"
    using rt_schedule_waiting [OF i wait_head_not_ready [OF h(2)]] sviewD(2) [OF v]
      rt_ipc_list_suspend_wait [OF inv cur(2)] by simp
  show "sched_inv (rt_schedule (wait_on h t flag time s))" by (rule rt_schedule_inv_any [OF i])
  show "th_current_priority (thr (rt_schedule (wait_on h t flag time s)) u) = th_current_priority (thr s u)"
    using sviewD(1) [OF v] rt_ipc_list_suspend_tq(3) [OF inv cur(2)] by simp
qed

lemma thr_set_error [simp]:
  "tstat (thr (set_error t e s) u) = tstat (thr s u)"
  "th_current_priority (thr (set_error t e s) u) = th_current_priority (thr s u)"
  by (simp_all add: set_error_def)

lemma soft_timer_objs: "objs s' = objs s \<Longrightarrow> soft_timer r s' = soft_timer r s"
  by (simp add: soft_timer_def timer_flag_def)

lemma objs_context [simp]:
  "objs (RT_DEBUG_IN_THREAD_CONTEXT s) = objs s" "objs (RT_DEBUG_NOT_IN_INTERRUPT s) = objs s"
  "objs (RT_ASSERT b s) = objs s"
  by (simp_all add: RT_DEBUG_IN_THREAD_CONTEXT_def RT_DEBUG_NOT_IN_INTERRUPT_def RT_ASSERT_def)

lemma wait_call_tq:
  assumes "sched_inv s" "rt_current_thread s = Some t" "tstat (thr s t) = RT_THREAD_RUNNING"
    "\<not> soft_timer (ThreadTimer t) s" "wait_head h" "wait_head h'"
  shows "tq (rt_schedule (wait_on h t flag time (set_error t e s))) h' =
    (if h' = h then wait_insert flag (\<lambda>u. th_current_priority (thr s u)) t (tq s h) else tq s h')"
  using wait_block_tq(1) [of "set_error t e s" t h h'] assms
    soft_timer_objs [of "set_error t e s" s] by simp

lemma set_wait_insert: "set (wait_insert flag prio t ws) \<subseteq> insert t (set ws)"
  by (auto simp: wait_insert_def)

section \<open>Stores of kernel objects\<close>

text \<open>
  The interface every class of kernel objects has to the rest of the kernel: an object is read
  and written at its address, writing it does not touch threads or queues, and an operation
  that keeps the object view of the state keeps it. The lemmas say that the kernel operations
  a blocking call is made of leave the objects alone.
\<close>

locale object_store =
  fixes get :: "addr \<Rightarrow> kstate \<Rightarrow> 'o" and upd :: "addr \<Rightarrow> ('o \<Rightarrow> 'o) \<Rightarrow> kstate \<Rightarrow> kstate"
  assumes get_upd: "get a (upd a f s) = f (get a s)"
    and get_upd_other: "a \<noteq> b \<Longrightarrow> get b (upd a f s) = get b s"
    and sview_upd: "sview (upd a f s) = sview s"
    and get_iview: "iview s' = iview s \<Longrightarrow> get a s' = get a s"
begin

lemma upd_inv: "sched_inv (upd a f s) = sched_inv s"
  by (rule sched_inv_sview [OF sview_upd])

lemma upd_fields:
  "thr (upd a f s) = thr s" "tq (upd a f s) = tq s" "rt_current_thread (upd a f s) = rt_current_thread s"
  using sviewD [OF sview_upd] by simp_all

lemma get_kernel:
  "get a (RT_ASSERT b s) = get a s" "get a (rt_schedule s) = get a s"
  "get a (fst (rt_thread_resume t s)) = get a s" "get a (fst (rt_thread_suspend t s)) = get a s"
  "get a (rt_ipc_list_suspend h t flag s) = get a s" "get a (rt_ipc_list_resume h s) = get a s"
  "get a (rt_ipc_list_resume_all h s) = get a s" "get a (wait_on h t flag time s) = get a s"
  "get a (set_error t e s) = get a s" "get a (RT_DEBUG_IN_THREAD_CONTEXT s) = get a s"
  "get a (RT_DEBUG_NOT_IN_INTERRUPT s) = get a s" "get a (upd_thr t f s) = get a s"
  "get a (null_deref s) = get a s" "get a (upd_obj r g s) = get a s"
  by (rule get_iview, simp)+

lemma upd_wake_inv:
  "sched_inv s \<Longrightarrow> sched_inv (rt_schedule (upd a f (rt_ipc_list_resume h s)))"
  by (simp add: rt_schedule_inv_any upd_inv rt_ipc_list_resume_inv)

end

definition rt_ipc_object_init :: "qhead \<Rightarrow> kstate \<Rightarrow> kstate" where
  "rt_ipc_object_init h s = s\<lparr>tq := (tq s)(h := [])\<rparr>"

lemma rt_ipc_object_init_inv:
  assumes "sched_inv s" "wait_head h"
  shows "sched_inv (rt_ipc_object_init h s)"
proof -
  have "Ready p \<noteq> h" for p using assms(2) by auto
  then show ?thesis
    using assms(1) unfolding rt_ipc_object_init_def sched_inv_def sched_inv_on_def
      queue_inv_def bitmap_inv_def state_inv_def by auto
qed

text \<open>Allocating an object of a class other than threads does not touch threads.\<close>

lemma sview_clear_struct [simp]: "(\<And>t. r \<noteq> ObjThread t) \<Longrightarrow> sview (clear_struct r s) = sview s"
  by (cases r) (blast, simp_all add: sview_def)

lemma obj_ref_at_not_thread: "c \<noteq> RT_Object_Class_Thread \<Longrightarrow> obj_ref_at c a \<noteq> ObjThread t"
  by (auto simp: obj_ref_at_def)

lemma sview_object_allocate:
  assumes "c \<noteq> RT_Object_Class_Thread"
  shows "sview (fst (rt_object_allocate c nm s)) = sview s"
proof -
  have m: "sview s' = sview s" if "kernel_malloc k s0 = (s', r)" "sview s0 = sview s" for k s0 s' r
    using that views_kernel_malloc(1) [of k s0] by simp
  show ?thesis
    unfolding rt_object_allocate_def Let_def
    by (auto simp: obj_ref_at_not_thread [OF assms] dest!: m split: prod.split option.split)
qed

lemma object_allocate_inv:
  "sched_inv s \<Longrightarrow> c \<noteq> RT_Object_Class_Thread \<Longrightarrow> rt_object_allocate c nm s = (s', r) \<Longrightarrow> sched_inv s'"
  using sched_inv_sview [OF sview_object_allocate, of c nm s] by simp

end
