(* ===== verification/Semaphore.thy ===== *)
theory Semaphore
  imports IpcBase
begin

text \<open>
  Counting semaphores (\<^verbatim>\<open>rt-thread/src/ipc.c\<close>). A call of \<open>rt_sem_take\<close> that has to wait is
  cut at \<^verbatim>\<open>rt_schedule\<close>: the outcome is \<open>Waits\<close>, and \<open>sem_take_resumed\<close> is what the call
  returns once the thread runs again. The results: the operations refine an abstract counting
  semaphore with a waiting list, a semaphore with a positive count has no waiters, and every
  operation keeps the scheduler invariant.
\<close>

section \<open>Operations\<close>

definition upd_sem :: "addr \<Rightarrow> (rt_semaphore \<Rightarrow> rt_semaphore) \<Rightarrow> kstate \<Rightarrow> kstate" where
  "upd_sem a f s = s\<lparr>sems := (sems s)(a := f (sems s a))\<rparr>"

definition get_sem :: "addr \<Rightarrow> kstate \<Rightarrow> rt_semaphore" where
  "get_sem a s = sems s a"

definition obj_type_ok :: "obj_ref \<Rightarrow> rt_uint8_t \<Rightarrow> kstate \<Rightarrow> bool" where
  "obj_type_ok r c s \<longleftrightarrow> rt_object_get_type r s = c"

definition set_obj_flag :: "obj_ref \<Rightarrow> rt_uint8_t \<Rightarrow> kstate \<Rightarrow> kstate" where
  "set_obj_flag r flag s = upd_obj r (\<lambda>ob. ob\<lparr>obj_flag := flag\<rparr>) s"

definition rt_sem_init :: "addr \<Rightarrow> cstr \<Rightarrow> rt_uint32_t \<Rightarrow> rt_uint8_t \<Rightarrow> kstate \<Rightarrow> kstate \<times> rt_err_t" where
  "rt_sem_init a name value flag s =
    (let s1 = RT_ASSERT (value < 0x10000) s;
         s2 = rt_object_init (ObjSem a) RT_Object_Class_Semaphore name s1;
         s3 = upd_sem a (\<lambda>m. m\<lparr>sem_value := ucast value\<rparr>) (rt_ipc_object_init (SemQ a) s2)
     in (set_obj_flag (ObjSem a) flag s3, RT_EOK))"

definition rt_sem_detach :: "addr \<Rightarrow> kstate \<Rightarrow> kstate \<times> rt_err_t" where
  "rt_sem_detach a s =
    (let s1 = RT_ASSERT (obj_type_ok (ObjSem a) RT_Object_Class_Semaphore s) s;
         s2 = RT_ASSERT (rt_object_is_systemobject (ObjSem a) s1) s1
     in (rt_object_detach (ObjSem a) (rt_ipc_list_resume_all (SemQ a) s2), RT_EOK))"

definition rt_sem_create :: "cstr \<Rightarrow> rt_uint32_t \<Rightarrow> rt_uint8_t \<Rightarrow> kstate \<Rightarrow> kstate \<times> addr option" where
  "rt_sem_create name value flag s =
    (let s1 = RT_ASSERT (value < 0x10000) (RT_DEBUG_NOT_IN_INTERRUPT s) in
     case rt_object_allocate RT_Object_Class_Semaphore name s1 of
       (s2, None) \<Rightarrow> (s2, None)
     | (s2, Some a) \<Rightarrow>
         (set_obj_flag (ObjSem a) flag
            (upd_sem a (\<lambda>m. m\<lparr>sem_value := ucast value\<rparr>) (rt_ipc_object_init (SemQ a) s2)), Some a))"

definition rt_sem_delete :: "addr \<Rightarrow> kstate \<Rightarrow> kstate \<times> rt_err_t" where
  "rt_sem_delete a s =
    (let s0 = RT_DEBUG_NOT_IN_INTERRUPT s;
         s1 = RT_ASSERT (obj_type_ok (ObjSem a) RT_Object_Class_Semaphore s0) s0;
         s2 = RT_ASSERT (\<not> rt_object_is_systemobject (ObjSem a) s1) s1
     in (rt_object_delete (ObjSem a) (rt_ipc_list_resume_all (SemQ a) s2), RT_EOK))"

definition rt_sem_take :: "addr \<Rightarrow> rt_int32_t \<Rightarrow> kstate \<Rightarrow> kstate \<times> rt_err_t outcome" where
  "rt_sem_take a time s =
    (let s1 = RT_ASSERT (obj_type_ok (ObjSem a) RT_Object_Class_Semaphore s) s in
     if sem_value (get_sem a s1) > 0
     then (upd_sem a (\<lambda>m. m\<lparr>sem_value := sem_value m - 1\<rparr>) s1, Returns RT_EOK)
     else if time = 0 then (s1, Returns (- RT_ETIMEOUT))
     else
       let s2 = RT_DEBUG_IN_THREAD_CONTEXT s1 in
       case rt_thread_self s2 of
         None \<Rightarrow> (null_deref s2, Waits)
       | Some t \<Rightarrow>
           let s3 = set_error t RT_EOK s2;
               s4 = wait_on (SemQ a) t (obj_flag (objs s3 (ObjSem a))) time s3
           in (rt_schedule s4, Waits))"

definition sem_take_resumed :: "tid \<Rightarrow> kstate \<Rightarrow> rt_err_t" where
  "sem_take_resumed t s =
    (if th_error (thr s t) \<noteq> RT_EOK then th_error (thr s t) else RT_EOK)"

definition rt_sem_trytake :: "addr \<Rightarrow> kstate \<Rightarrow> kstate \<times> rt_err_t outcome" where
  "rt_sem_trytake a s = rt_sem_take a 0 s"

definition rt_sem_release :: "addr \<Rightarrow> kstate \<Rightarrow> kstate \<times> rt_err_t" where
  "rt_sem_release a s =
    (let s1 = RT_ASSERT (obj_type_ok (ObjSem a) RT_Object_Class_Semaphore s) s in
     if tq s1 (SemQ a) \<noteq> [] then (rt_schedule (rt_ipc_list_resume (SemQ a) s1), RT_EOK)
     else (upd_sem a (\<lambda>m. m\<lparr>sem_value := sem_value m + 1\<rparr>) s1, RT_EOK))"

datatype ipc_cmd = RT_IPC_CMD_RESET rt_uint32_t | Ipc_cmd_other

definition rt_sem_control :: "addr \<Rightarrow> ipc_cmd \<Rightarrow> kstate \<Rightarrow> kstate \<times> rt_err_t" where
  "rt_sem_control a cmd s =
    (let s1 = RT_ASSERT (obj_type_ok (ObjSem a) RT_Object_Class_Semaphore s) s in
     case cmd of
       RT_IPC_CMD_RESET value \<Rightarrow>
         (rt_schedule (upd_sem a (\<lambda>m. m\<lparr>sem_value := ucast value\<rparr>)
            (rt_ipc_list_resume_all (SemQ a) s1)), RT_EOK)
     | Ipc_cmd_other \<Rightarrow> (s1, - RT_ERROR))"

section \<open>The store of semaphores\<close>

interpretation sem: object_store get_sem upd_sem
proof
  show "get_sem a s' = get_sem a s" if "iview s' = iview s" for s' s a
    using iviewD(1) [OF that] by (simp add: get_sem_def)
qed (simp_all add: get_sem_def upd_sem_def sview_def)

lemmas sem_store [simp] = sem.get_kernel sem.get_upd sem.get_upd_other sem.upd_inv sem.upd_fields

lemma views_set_obj_flag [simp]:
  "sview (set_obj_flag r fl s) = sview s" "iview (set_obj_flag r fl s) = iview s"
  by (simp_all add: set_obj_flag_def)

lemmas sched_inv_set_obj_flag [simp] = views_set_obj_flag(1) [THEN sched_inv_sview]

section \<open>The scheduler invariant\<close>

lemma wait_call_inv:
  assumes "sched_inv s" "rt_current_thread s = Some t" "tstat (thr s t) = RT_THREAD_RUNNING"
    "wait_head h"
  shows "sched_inv (rt_schedule (wait_on h t flag time (set_error t e (RT_DEBUG_IN_THREAD_CONTEXT s))))"
proof -
  have "tstat (thr (set_error t e (RT_DEBUG_IN_THREAD_CONTEXT s)) t) = RT_THREAD_RUNNING"
    using assms(3) sviewD(1) [OF views_context(3), of s] by (simp add: set_error_def)
  then show ?thesis using assms by (simp add: rt_schedule_inv_any wait_on_inv)
qed

lemma thr_context [simp]:
  "thr (RT_DEBUG_IN_THREAD_CONTEXT s) = thr s" "tq (RT_DEBUG_IN_THREAD_CONTEXT s) = tq s"
  "rt_current_thread (RT_DEBUG_IN_THREAD_CONTEXT s) = rt_current_thread s"
  "thr (RT_DEBUG_NOT_IN_INTERRUPT s) = thr s" "tq (RT_DEBUG_NOT_IN_INTERRUPT s) = tq s"
  "rt_current_thread (RT_DEBUG_NOT_IN_INTERRUPT s) = rt_current_thread s"
  using sviewD [OF views_context(3), of s] sviewD [OF views_context(1), of s] by simp_all

definition thread_context :: "kstate \<Rightarrow> bool" where
  "thread_context s \<longleftrightarrow>
    (case rt_current_thread s of None \<Rightarrow> True | Some t \<Rightarrow> tstat (thr s t) = RT_THREAD_RUNNING)"

lemma rt_sem_take_inv:
  "sched_inv s \<Longrightarrow> thread_context s \<Longrightarrow> sched_inv (fst (rt_sem_take a time s))"
  by (auto simp: rt_sem_take_def Let_def thread_context_def rt_thread_self_def
      intro!: wait_call_inv split: option.split)

lemma rt_sem_release_inv: "sched_inv s \<Longrightarrow> sched_inv (fst (rt_sem_release a s))"
  by (simp add: rt_sem_release_def Let_def rt_schedule_inv_any rt_ipc_list_resume_inv)

lemma rt_sem_control_inv: "sched_inv s \<Longrightarrow> sched_inv (fst (rt_sem_control a cmd s))"
  by (simp add: rt_sem_control_def Let_def rt_schedule_inv_any rt_ipc_list_resume_all_inv
      split: ipc_cmd.split)

lemma rt_sem_init_inv: "sched_inv s \<Longrightarrow> sched_inv (fst (rt_sem_init a nm v fl s))"
  by (simp add: rt_sem_init_def Let_def rt_ipc_object_init_inv rt_object_init_inv)

lemma rt_sem_create_inv: "sched_inv s \<Longrightarrow> sched_inv (fst (rt_sem_create nm v fl s))"
  unfolding rt_sem_create_def Let_def
  by (auto simp: rt_ipc_object_init_inv rt_flag_defs dest!: object_allocate_inv [rotated 2]
      split: prod.split option.split)

lemma rt_sem_detach_inv: "sched_inv s \<Longrightarrow> sched_inv (fst (rt_sem_detach a s))"
  by (simp add: rt_sem_detach_def Let_def rt_ipc_list_resume_all_inv)

lemma rt_sem_delete_inv: "sched_inv s \<Longrightarrow> sched_inv (fst (rt_sem_delete a s))"
  by (simp add: rt_sem_delete_def Let_def rt_ipc_list_resume_all_inv)

section \<open>Refinement of a counting semaphore\<close>

definition sem_abs :: "addr \<Rightarrow> kstate \<Rightarrow> nat \<times> tid list" where
  "sem_abs a s = (unat (sem_value (get_sem a s)), tq s (SemQ a))"

text \<open>An abstract counting semaphore: a count below \<open>2 ^ 16\<close> and the waiting threads.\<close>

fun spec_release :: "nat \<times> tid list \<Rightarrow> nat \<times> tid list" where
  "spec_release (n, []) = ((n + 1) mod 2 ^ 16, [])"
| "spec_release (n, w # ws) = (n, ws)"

fun spec_take :: "(tid list \<Rightarrow> tid list) \<Rightarrow> bool \<Rightarrow> nat \<times> tid list \<Rightarrow> nat \<times> tid list" where
  "spec_take enq blocking (n, ws) =
    (if n > 0 then (n - 1, ws) else if blocking then (0, enq ws) else (0, ws))"

lemma sem_release_refines:
  assumes "sched_inv s"
  shows "sem_abs a (fst (rt_sem_release a s)) = spec_release (sem_abs a s)"
proof (cases "tq s (SemQ a)")
  case Nil
  then show ?thesis
    by (simp add: sem_abs_def rt_sem_release_def Let_def unat_word_ariths)
next
  case (Cons w ws)
  let ?s = "RT_ASSERT (obj_type_ok (ObjSem a) RT_Object_Class_Semaphore s) s"
  have i: "sched_inv ?s" using assms by simp
  have "tq (rt_ipc_list_resume (SemQ a) ?s) (SemQ a) = ws"
    using rt_ipc_list_resume_effect(1) [OF i] Cons by simp
  then show ?thesis
    using Cons rt_schedule_waiting [OF rt_ipc_list_resume_inv [OF i], of "SemQ a"]
    by (simp add: sem_abs_def rt_sem_release_def Let_def)
qed

lemma sem_take_refines:
  assumes inv: "sched_inv s" and cur: "rt_current_thread s = Some t" "tstat (thr s t) = RT_THREAD_RUNNING"
    and hard: "\<not> soft_timer (ThreadTimer t) s"
  shows "sem_abs a (fst (rt_sem_take a time s)) =
    spec_take (wait_insert (obj_flag (objs s (ObjSem a))) (\<lambda>u. th_current_priority (thr s u)) t)
      (time \<noteq> 0) (sem_abs a s)"
proof -
  let ?s1 = "RT_ASSERT (obj_type_ok (ObjSem a) RT_Object_Class_Semaphore s) s"
  let ?s = "RT_DEBUG_IN_THREAD_CONTEXT ?s1"
  have o: "objs ?s = objs s" by (simp add: RT_DEBUG_IN_THREAD_CONTEXT_def RT_DEBUG_NOT_IN_INTERRUPT_def
        RT_ASSERT_def)
  have "\<not> soft_timer (ThreadTimer t) ?s"
    using hard o by (simp add: soft_timer_def timer_flag_def)
  then have "tq (rt_schedule (wait_on (SemQ a) t fl time (set_error t RT_EOK ?s))) (SemQ a) =
      wait_insert fl (\<lambda>u. th_current_priority (thr s u)) t (tq s (SemQ a))" for fl
    using wait_call_tq [of ?s t "SemQ a" "SemQ a" fl time RT_EOK] inv cur by simp
  moreover have "unat (v - 1) = unat v - 1" if "v > 0" for v :: rt_uint16_t
    using that by (simp add: unat_minus_one word_greater_zero_iff)
  ultimately show ?thesis
    using cur o by (simp add: sem_abs_def rt_sem_take_def Let_def rt_thread_self_def unat_gt_0
        word_greater_zero_iff)
qed

text \<open>A positive count means nobody waits.\<close>

definition sem_inv :: "addr \<Rightarrow> kstate \<Rightarrow> bool" where
  "sem_inv a s \<longleftrightarrow> (sem_value (get_sem a s) \<noteq> 0 \<longrightarrow> tq s (SemQ a) = [])"

lemma sem_inv_abs: "sem_inv a s \<longleftrightarrow> (case sem_abs a s of (n, ws) \<Rightarrow> n > 0 \<longrightarrow> ws = [])"
  by (simp add: sem_inv_def sem_abs_def unat_gt_0)

text \<open>A release with waiters makes the first of them ready, or running.\<close>

lemma sem_release_wakes:
  assumes inv: "sched_inv s" and q: "tq s (SemQ a) = w # ws"
  shows "tstat (thr (fst (rt_sem_release a s)) w) \<in> {RT_THREAD_READY, RT_THREAD_RUNNING}"
    "snd (rt_sem_release a s) = RT_EOK"
proof -
  let ?s = "RT_ASSERT (obj_type_ok (ObjSem a) RT_Object_Class_Semaphore s) s"
  have "tstat (thr (rt_ipc_list_resume (SemQ a) ?s) w) \<in> {RT_THREAD_READY, RT_THREAD_RUNNING}"
    using rt_ipc_list_resume_effect(3) [of ?s "SemQ a" w ws] inv q by simp
  then show "tstat (thr (fst (rt_sem_release a s)) w) \<in> {RT_THREAD_READY, RT_THREAD_RUNNING}"
    "snd (rt_sem_release a s) = RT_EOK"
    using q schedule_stat_cases [of "rt_ipc_list_resume (SemQ a) ?s" w]
    by (auto simp: rt_sem_release_def Let_def)
qed

lemma sem_inv_steps:
  assumes "sched_inv s" "sem_inv a s"
  shows "sem_inv a (fst (rt_sem_release a s))"
    "rt_current_thread s = Some t \<Longrightarrow> tstat (thr s t) = RT_THREAD_RUNNING \<Longrightarrow>
      \<not> soft_timer (ThreadTimer t) s \<Longrightarrow> sem_inv a (fst (rt_sem_take a time s))"
proof -
  obtain n ws where a: "sem_abs a s = (n, ws)" by fastforce
  then have i: "n > 0 \<Longrightarrow> ws = []" using assms(2) by (simp add: sem_inv_abs)
  show "sem_inv a (fst (rt_sem_release a s))"
    using i sem_release_refines [OF assms(1), of a] a by (cases ws) (auto simp: sem_inv_abs)
  show "rt_current_thread s = Some t \<Longrightarrow> tstat (thr s t) = RT_THREAD_RUNNING \<Longrightarrow>
      \<not> soft_timer (ThreadTimer t) s \<Longrightarrow> sem_inv a (fst (rt_sem_take a time s))"
    using i sem_take_refines [OF assms(1), of t a time] a by (simp add: sem_inv_abs split: if_splits)
qed

end
