(* ===== verification/Completion.thy ===== *)
theory Completion
  imports Semaphore
begin

text \<open>
  Completions (\<^verbatim>\<open>rt-thread/components/drivers/src/completion.c\<close>): a flag that one thread waits
  for and an interrupt handler or another thread sets. A wait that has to sleep ends with
  \<open>Waits\<close>; \<open>completion_wait_resumed\<close> is the rest of the call. The results: the operations
  refine a one-shot event with at most one waiter, a signal that comes before the wait is kept,
  one that comes during it wakes the waiter, and one that comes between a timeout and the
  waiter's next run is lost.
\<close>

section \<open>Operations\<close>

definition RT_COMPLETED :: rt_uint32_t where "RT_COMPLETED = 1"
definition RT_UNCOMPLETED :: rt_uint32_t where "RT_UNCOMPLETED = 0"

definition upd_cmp :: "addr \<Rightarrow> (rt_completion \<Rightarrow> rt_completion) \<Rightarrow> kstate \<Rightarrow> kstate" where
  "upd_cmp a f s = s\<lparr>completions := (completions s)(a := f (completions s a))\<rparr>"

definition get_cmp :: "addr \<Rightarrow> kstate \<Rightarrow> rt_completion" where
  "get_cmp a s = completions s a"

definition set_cmp_flag :: "addr \<Rightarrow> rt_uint32_t \<Rightarrow> kstate \<Rightarrow> kstate" where
  "set_cmp_flag a v s = upd_cmp a (\<lambda>c. c\<lparr>cmp_flag := v\<rparr>) s"

definition rt_completion_init :: "addr \<Rightarrow> kstate \<Rightarrow> kstate" where
  "rt_completion_init a s = rt_ipc_object_init (CompletionQ a) (set_cmp_flag a RT_UNCOMPLETED s)"

definition rt_completion_wait :: "addr \<Rightarrow> rt_int32_t \<Rightarrow> kstate \<Rightarrow> kstate \<times> rt_err_t outcome" where
  "rt_completion_wait a timeout s =
    (if cmp_flag (get_cmp a s) \<noteq> RT_COMPLETED then
       let s1 = RT_ASSERT (tq s (CompletionQ a) = []) s in
       if timeout = 0 then (s1, Returns (- RT_ETIMEOUT))
       else case rt_thread_self s1 of
           None \<Rightarrow> (null_deref s1, Waits)
         | Some t \<Rightarrow>
             let s2 = RT_DEBUG_NOT_IN_INTERRUPT (set_error t RT_EOK s1);
                 s3 = wait_on (CompletionQ a) t RT_IPC_FLAG_FIFO timeout s2
             in (rt_schedule s3, Waits)
     else (set_cmp_flag a RT_UNCOMPLETED s, Returns RT_EOK))"

definition completion_wait_resumed :: "addr \<Rightarrow> tid \<Rightarrow> kstate \<Rightarrow> kstate \<times> rt_err_t" where
  "completion_wait_resumed a t s = (set_cmp_flag a RT_UNCOMPLETED s, th_error (thr s t))"

definition rt_completion_done :: "addr \<Rightarrow> kstate \<Rightarrow> kstate" where
  "rt_completion_done a s =
    (if cmp_flag (get_cmp a s) = RT_COMPLETED then s
     else
       let s1 = set_cmp_flag a RT_COMPLETED s in
       case tq s1 (CompletionQ a) of
         [] \<Rightarrow> s1
       | t # _ \<Rightarrow> rt_schedule (fst (rt_thread_resume t s1)))"

section \<open>The store of completions\<close>

interpretation cmp: object_store get_cmp upd_cmp
proof
  show "get_cmp a s' = get_cmp a s" if "iview s' = iview s" for s' s a
    using iviewD(8) [OF that] by (simp add: get_cmp_def)
qed (simp_all add: get_cmp_def upd_cmp_def sview_def)

lemmas cmp_store [simp] = cmp.get_kernel cmp.get_upd cmp.get_upd_other cmp.upd_inv cmp.upd_fields

lemma cmp_flag_values [simp]: "RT_COMPLETED \<noteq> RT_UNCOMPLETED" "RT_UNCOMPLETED \<noteq> RT_COMPLETED"
  by (simp_all add: RT_COMPLETED_def RT_UNCOMPLETED_def)

lemma set_cmp_flag_simps [simp]:
  "cmp_flag (get_cmp a (set_cmp_flag a v s)) = v" "tq (set_cmp_flag a v s) = tq s"
  "thr (set_cmp_flag a v s) = thr s" "rt_current_thread (set_cmp_flag a v s) = rt_current_thread s"
  "sched_inv (set_cmp_flag a v s) = sched_inv s"
  by (simp_all add: set_cmp_flag_def)

section \<open>The scheduler invariant\<close>

lemma sched_inv_wait_fifo:
  assumes "sched_inv s" "tstat (thr s t) = RT_THREAD_RUNNING" "wait_head h"
  shows "sched_inv (rt_schedule (wait_on h t flag time (RT_DEBUG_NOT_IN_INTERRUPT (set_error t e s))))"
  using assms by (simp add: rt_schedule_inv_any wait_on_inv)

lemma rt_completion_init_inv: "sched_inv s \<Longrightarrow> sched_inv (rt_completion_init a s)"
  by (simp add: rt_completion_init_def rt_ipc_object_init_inv)

lemma rt_completion_wait_inv:
  "sched_inv s \<Longrightarrow> thread_context s \<Longrightarrow> sched_inv (fst (rt_completion_wait a timeout s))"
  by (auto simp: rt_completion_wait_def Let_def thread_context_def rt_thread_self_def
      intro!: sched_inv_wait_fifo split: option.split)

lemma rt_completion_done_inv: "sched_inv s \<Longrightarrow> sched_inv (rt_completion_done a s)"
  by (simp add: rt_completion_done_def Let_def rt_schedule_inv_any rt_thread_resume_inv split: list.split)

section \<open>Refinement of a one-shot event\<close>

text \<open>The event is signalled or not, and the threads that wait for it.\<close>

definition cmp_abs :: "addr \<Rightarrow> kstate \<Rightarrow> bool \<times> tid list" where
  "cmp_abs a s = (cmp_flag (get_cmp a s) = RT_COMPLETED, tq s (CompletionQ a))"

fun spec_done :: "bool \<times> tid list \<Rightarrow> bool \<times> tid list" where
  "spec_done (True, ws) = (True, ws)"
| "spec_done (False, ws) = (True, tl ws)"

fun spec_wait :: "tid \<Rightarrow> bool \<Rightarrow> bool \<times> tid list \<Rightarrow> bool \<times> tid list" where
  "spec_wait t blocking (True, ws) = (False, ws)"
| "spec_wait t blocking (False, ws) = (False, if blocking then ws @ [t] else ws)"

lemma completion_done_refines:
  assumes "sched_inv s"
  shows "cmp_abs a (rt_completion_done a s) = spec_done (cmp_abs a s)"
proof (cases "cmp_flag (get_cmp a s) = RT_COMPLETED")
  case False
  let ?s = "set_cmp_flag a RT_COMPLETED s"
  have i: "sched_inv ?s" using assms by simp
  show ?thesis
  proof (cases "tq s (CompletionQ a)")
    case (Cons w ws)
    then have "tq (fst (rt_thread_resume w ?s)) (CompletionQ a) = ws"
      using tq_resume_hd [OF i] by simp
    then show ?thesis
      using False Cons rt_schedule_waiting [OF rt_thread_resume_inv [OF i], of "CompletionQ a" w]
      by (simp add: cmp_abs_def rt_completion_done_def Let_def)
  qed (use False in \<open>simp add: cmp_abs_def rt_completion_done_def Let_def\<close>)
qed (simp add: cmp_abs_def rt_completion_done_def)

lemma tq_not_in_interrupt:
  assumes "sched_inv s" "rt_current_thread s = Some t" "tstat (thr s t) = RT_THREAD_RUNNING"
    "\<not> soft_timer (ThreadTimer t) s" "wait_head h" "wait_head h'"
  shows "tq (rt_schedule (wait_on h t RT_IPC_FLAG_FIFO time (RT_DEBUG_NOT_IN_INTERRUPT (set_error t e s)))) h' =
    (if h' = h then tq s h @ [t] else tq s h')"
  using wait_block_tq(1) [of "RT_DEBUG_NOT_IN_INTERRUPT (set_error t e s)" t h h' RT_IPC_FLAG_FIFO time]
    assms soft_timer_objs [of "RT_DEBUG_NOT_IN_INTERRUPT (set_error t e s)" s]
  by (simp add: wait_insert_def)

lemma completion_wait_refines:
  assumes inv: "sched_inv s" and cur: "rt_current_thread s = Some t" "tstat (thr s t) = RT_THREAD_RUNNING"
    and hard: "\<not> soft_timer (ThreadTimer t) s"
  shows "cmp_abs a (fst (rt_completion_wait a timeout s)) = spec_wait t (timeout \<noteq> 0) (cmp_abs a s)"
    "snd (rt_completion_wait a timeout s) =
      (if fst (cmp_abs a s) then Returns RT_EOK else if timeout = 0 then Returns (- RT_ETIMEOUT) else Waits)"
proof -
  let ?s = "RT_ASSERT (tq s (CompletionQ a) = []) s"
  have "\<not> soft_timer (ThreadTimer t) ?s" using hard soft_timer_objs [of ?s s] by simp
  from tq_not_in_interrupt [OF _ _ _ this, of "CompletionQ a" "CompletionQ a" timeout RT_EOK] inv cur
  show "cmp_abs a (fst (rt_completion_wait a timeout s)) = spec_wait t (timeout \<noteq> 0) (cmp_abs a s)"
    by (simp add: cmp_abs_def rt_completion_wait_def Let_def rt_thread_self_def)
  show "snd (rt_completion_wait a timeout s) =
      (if fst (cmp_abs a s) then Returns RT_EOK else if timeout = 0 then Returns (- RT_ETIMEOUT) else Waits)"
    using cur by (simp add: cmp_abs_def rt_completion_wait_def Let_def rt_thread_self_def)
qed

text \<open>A signal wakes the waiter, whose call then returns success.\<close>

lemma completion_done_wakes:
  assumes inv: "sched_inv s" and q: "tq s (CompletionQ a) = w # ws"
    and f: "cmp_flag (get_cmp a s) \<noteq> RT_COMPLETED"
  shows "tstat (thr (rt_completion_done a s) w) \<in> {RT_THREAD_READY, RT_THREAD_RUNNING}"
proof -
  let ?s = "set_cmp_flag a RT_COMPLETED s"
  have i: "sched_inv ?s" and q': "tq ?s (CompletionQ a) = w # ws" using inv q by simp_all
  have "tstat (thr (fst (rt_thread_resume w ?s)) w) \<in> {RT_THREAD_READY, RT_THREAD_RUNNING}"
    using rt_ipc_list_resume_effect(3) [OF i q'] q' by (simp add: rt_ipc_list_resume_def)
  then show ?thesis
    using f q' schedule_stat_cases [of "fst (rt_thread_resume w ?s)" w]
    by (auto simp: rt_completion_done_def Let_def)
qed

text \<open>At most one thread waits, and none once the event is signalled.\<close>

definition cmp_wf :: "addr \<Rightarrow> kstate \<Rightarrow> bool" where
  "cmp_wf a s \<longleftrightarrow> (case cmp_abs a s of (done, ws) \<Rightarrow> length ws \<le> 1 \<and> (done \<longrightarrow> ws = []))"

lemma tl_short: "length ws \<le> Suc 0 \<Longrightarrow> tl ws = []"
  by (cases ws) auto

lemma cmp_wf_done:
  assumes "sched_inv s" "cmp_wf a s"
  shows "cmp_wf a (rt_completion_done a s)"
proof (cases "cmp_abs a s")
  case (Pair dn ws)
  then show ?thesis using assms(2) by (cases dn) (auto simp: cmp_wf_def completion_done_refines [OF assms(1)] tl_short)
qed

lemma cmp_wf_wait:
  assumes "sched_inv s" "rt_current_thread s = Some t" "tstat (thr s t) = RT_THREAD_RUNNING"
    "\<not> soft_timer (ThreadTimer t) s" "cmp_wf a s" "tq s (CompletionQ a) = []"
  shows "cmp_wf a (fst (rt_completion_wait a timeout s))"
proof -
  obtain dn where d: "cmp_abs a s = (dn, [])" using assms(6) by (simp add: cmp_abs_def)
  show ?thesis
    unfolding cmp_wf_def completion_wait_refines(1) [OF assms(1-4)] d by (cases dn) simp_all
qed

section \<open>A timeout and a signal\<close>

lemma th_error_schedule [simp]: "th_error (thr (rt_schedule s) u) = th_error (thr s u)"
  by (auto simp: rt_schedule_def Let_def rt_schedule_insert_thread_def list_insert_before_def set_stat_def
      split: prod.split option.split)

lemma timeout_effect:
  assumes inv: "sched_inv s" and q: "tq s h = [t]" and h: "wait_head h"
  shows "tq (rt_thread_timeout t s) h = []" "th_error (thr (rt_thread_timeout t s) t) = - RT_ETIMEOUT"
    "sched_inv (rt_thread_timeout t s)"
proof -
  have "t \<in> set (tq s h)" using q by simp
  from linked_stat [OF _ this] inv h have st: "tstat (thr s t) = RT_THREAD_SUSPEND"
    by (simp add: wait_head_def sched_inv_def)
  have nr: "h \<noteq> Ready p" for p using h by auto
  define s3 where "s3 = upd_thr t (\<lambda>th. th\<lparr>th_error := - RT_ETIMEOUT\<rparr>) (RT_ASSERT (thread_type_ok t
     (RT_ASSERT (tstat (thr s t) = RT_THREAD_SUSPEND) s)) (RT_ASSERT (tstat (thr s t) = RT_THREAD_SUSPEND) s))"
  have e: "rt_thread_timeout t s = rt_schedule (rt_schedule_insert_thread t (list_remove t s3))"
    by (simp add: rt_thread_timeout_def Let_def s3_def)
  have i: "sched_inv s3" unfolding s3_def using inv by (simp add: upd_thr_data_inv)
  have st3: "tstat (thr s3 t) = RT_THREAD_SUSPEND" using st by (simp add: s3_def tstat_def)
  have i4: "sched_inv (rt_schedule_insert_thread t (list_remove t s3))" by (rule wake_inv [OF i]) (simp_all add: st3)
  have "tq (rt_schedule_insert_thread t (list_remove t s3)) h = []"
    using q nr by (auto simp: s3_def rt_schedule_insert_thread_def list_insert_before_def list_remove_def Let_def)
  then show "tq (rt_thread_timeout t s) h = []" unfolding e using rt_schedule_waiting [OF i4 nr] by simp
  show "th_error (thr (rt_thread_timeout t s) t) = - RT_ETIMEOUT"
    unfolding e by (auto simp: s3_def rt_schedule_insert_thread_def list_insert_before_def list_remove_def
        Let_def set_stat_def)
  show "sched_inv (rt_thread_timeout t s)" by (rule rt_thread_timeout_inv [OF inv st])
qed

text \<open>
  A signal given after the waiter's timer has expired, but before the waiter runs again, is
  consumed by the wait that reports the timeout.
\<close>

lemma completion_lost:
  assumes inv: "sched_inv s" and q: "tq s (CompletionQ a) = [t]" and f: "cmp_flag (get_cmp a s) \<noteq> RT_COMPLETED"
  shows "let s1 = rt_thread_timeout t s; s2 = rt_completion_done a s1;
             (s3, r) = completion_wait_resumed a t s2
         in cmp_abs a s2 = (True, []) \<and> r = - RT_ETIMEOUT \<and> cmp_abs a s3 = (False, [])"
proof -
  note te = timeout_effect [OF inv q]
  let ?s1 = "rt_thread_timeout t s"
  have g: "get_cmp a ?s1 = get_cmp a s" by (rule cmp.get_iview) simp
  have a1: "cmp_abs a ?s1 = (False, [])" using te(1) f g by (simp add: cmp_abs_def)
  have d: "rt_completion_done a ?s1 = set_cmp_flag a RT_COMPLETED ?s1"
    using te(1) f g by (simp add: rt_completion_done_def Let_def)
  show ?thesis
    using te(1,2) by (simp add: Let_def completion_wait_resumed_def d cmp_abs_def)
qed

end
