(* ===== verification/Fifo.thy ===== *)
theory Fifo
  imports Prelude
begin

text \<open>
  The contract of a bounded first-in first-out queue, and circular buffers. The mailbox, the
  message queue and the byte ring buffer each keep their own representation; each is shown to
  meet the contract by an interpretation, and gets the results on sequences of operations
  from it.
\<close>

section \<open>Bounded queues\<close>

text \<open>Sequences of operations: put the elements of a list, get a number of elements.\<close>

primrec put_all :: "('a \<Rightarrow> 'q \<Rightarrow> 'q) \<Rightarrow> 'a list \<Rightarrow> 'q \<Rightarrow> 'q" where
  "put_all put [] q = q"
| "put_all put (x # xs) q = put_all put xs (put x q)"

primrec get_n :: "('q \<Rightarrow> 'a \<times> 'q) \<Rightarrow> nat \<Rightarrow> 'q \<Rightarrow> 'a list \<times> 'q" where
  "get_n get 0 q = ([], q)"
| "get_n get (Suc n) q = (let (x, q1) = get q; (xs, q2) = get_n get n q1 in (x # xs, q2))"

text \<open>
  \<open>valid q x\<close> tells which elements fit into the queue (a message queue takes messages of its own
  size; the others take every element).
\<close>

locale bounded_fifo =
  fixes wf :: "'q \<Rightarrow> bool" and contents :: "'q \<Rightarrow> 'a list" and cap :: "'q \<Rightarrow> nat"
    and valid :: "'q \<Rightarrow> 'a \<Rightarrow> bool" and put :: "'a \<Rightarrow> 'q \<Rightarrow> 'q" and get :: "'q \<Rightarrow> 'a \<times> 'q"
  assumes len_cap: "wf q \<Longrightarrow> length (contents q) \<le> cap q"
    and put_wf: "wf q \<Longrightarrow> length (contents q) < cap q \<Longrightarrow> valid q x \<Longrightarrow> wf (put x q)"
    and put_contents: "wf q \<Longrightarrow> length (contents q) < cap q \<Longrightarrow> valid q x \<Longrightarrow>
      contents (put x q) = contents q @ [x]"
    and put_cap: "wf q \<Longrightarrow> length (contents q) < cap q \<Longrightarrow> valid q x \<Longrightarrow> cap (put x q) = cap q"
    and put_valid: "wf q \<Longrightarrow> length (contents q) < cap q \<Longrightarrow> valid q x \<Longrightarrow> valid (put x q) y = valid q y"
    and get_wf: "wf q \<Longrightarrow> contents q \<noteq> [] \<Longrightarrow> wf (snd (get q))"
    and get_contents: "wf q \<Longrightarrow> contents q \<noteq> [] \<Longrightarrow> contents q = fst (get q) # contents (snd (get q))"
    and get_cap: "wf q \<Longrightarrow> contents q \<noteq> [] \<Longrightarrow> cap (snd (get q)) = cap q"
begin

lemma put_all_contents:
  assumes "wf q" "length (contents q) + length xs \<le> cap q" "\<forall>x\<in>set xs. valid q x"
  shows "wf (put_all put xs q) \<and> contents (put_all put xs q) = contents q @ xs \<and>
    cap (put_all put xs q) = cap q"
  using assms
proof (induction xs arbitrary: q)
  case (Cons x xs)
  then have "length (contents q) < cap q" "valid q x" by simp_all
  with Cons show ?case by (simp add: put_wf put_contents put_cap put_valid)
qed simp

lemma get_n_contents:
  assumes "wf q" "n \<le> length (contents q)"
  shows "fst (get_n get n q) = take n (contents q) \<and> contents (snd (get_n get n q)) = drop n (contents q) \<and>
    wf (snd (get_n get n q))"
  using assms
proof (induction n arbitrary: q)
  case (Suc n)
  then have ne: "contents q \<noteq> []" by auto
  have c: "contents q = fst (get q) # contents (snd (get q))" using get_contents [OF Suc.prems(1) ne] .
  have n: "n \<le> length (contents (snd (get q)))" using Suc.prems(2) by (subst (asm) c) simp
  show ?case
    using Suc.IH [OF get_wf [OF Suc.prems(1) ne] n] by (subst (1 2) c) (simp add: Let_def split_beta)
qed simp

text \<open>What is put in comes out, in order, behind what was there before.\<close>

lemma round_trip:
  assumes "wf q" "length (contents q) + length xs \<le> cap q" "\<forall>x\<in>set xs. valid q x"
  shows "fst (get_n get (length (contents q) + length xs) (put_all put xs q)) = contents q @ xs"
  using get_n_contents [of "put_all put xs q" "length (contents q) + length xs"] put_all_contents [OF assms]
  by simp

end

section \<open>Circular buffers\<close>

text \<open>The \<open>n\<close> cells of a buffer of \<open>sz\<close> cells that start at index \<open>out\<close> and wrap around.\<close>

definition circ :: "(nat \<Rightarrow> 'a) \<Rightarrow> nat \<Rightarrow> nat \<Rightarrow> nat \<Rightarrow> 'a list" where
  "circ f sz out n = map (\<lambda>i. f ((out + i) mod sz)) [0..<n]"

lemma length_circ [simp]: "length (circ f sz out n) = n"
  by (simp add: circ_def)

lemma circ_empty_iff [simp]: "circ f sz out n = [] \<longleftrightarrow> n = 0"
  by (simp add: circ_def)

lemma circ_index_neq:
  assumes "i < n" "n < (sz :: nat)"
  shows "(out + i) mod sz \<noteq> (out + n) mod sz"
proof
  assume "(out + i) mod sz = (out + n) mod sz"
  then have "sz dvd (out + n) - (out + i)"
    by (metis add_le_cancel_left assms(1) less_imp_le_nat mod_eq_dvd_iff_nat)
  then have "sz dvd n - i" by simp
  then show False using assms by (auto dest: dvd_imp_le)
qed

lemma circ_put:
  assumes "n < sz"
  shows "circ (f((out + n) mod sz := x)) sz out (Suc n) = circ f sz out n @ [x]"
  using assms circ_index_neq [OF _ assms] by (simp add: circ_def)

lemma circ_get:
  assumes "0 < n" "out < sz"
  shows "circ f sz out n = f out # circ f sz ((out + 1) mod sz) (n - 1)"
proof -
  have "[0..<n] = 0 # map Suc [0..<n - 1]"
    using assms(1) by (simp add: map_Suc_upt upt_conv_Cons)
  moreover have "(Suc out mod sz + i) mod sz = (out + Suc i) mod sz" for i
    by (simp add: mod_add_left_eq)
  ultimately show ?thesis using assms(2) by (simp add: circ_def)
qed

text \<open>Appending a slice, and dropping one.\<close>

lemma circ_append:
  assumes "n \<le> length xs" "\<And>i. i < n0 \<Longrightarrow> g ((out + i) mod sz) = f ((out + i) mod sz)"
    "\<And>j. j < n \<Longrightarrow> g ((out + n0 + j) mod sz) = xs ! j"
  shows "circ g sz out (n0 + n) = circ f sz out n0 @ take n xs"
proof (rule nth_equalityI)
  fix i assume "i < length (circ g sz out (n0 + n))"
  then show "circ g sz out (n0 + n) ! i = (circ f sz out n0 @ take n xs) ! i"
    using assms(1) assms(2) [of i] assms(3) [of "i - n0"] by (auto simp: circ_def nth_append)
qed (use assms(1) in \<open>simp add: circ_def\<close>)

lemma circ_drop: "drop n (circ f sz out k) = circ f sz ((out + n) mod sz) (k - n)"
  by (rule nth_equalityI) (simp_all add: circ_def mod_add_left_eq add.assoc less_diff_conv add.commute [of n])

lemma nth_circ: "i < n \<Longrightarrow> circ f sz out n ! i = f ((out + i) mod sz)"
  by (simp add: circ_def)

text \<open>The wrap of an index that is counted up.\<close>

lemma next_index: "(out :: nat) < sz \<Longrightarrow> (out + 1) mod sz = (if out + 1 \<ge> sz then 0 else out + 1)"
  by (auto simp: mod_Suc le_Suc_eq)

end
