(* ===== verification/DataQueue.thy ===== *)
theory DataQueue
  imports Completion Fifo
begin

text \<open>
  The data queues of the device layer (\<^verbatim>\<open>rt-thread/components/drivers/src/dataqueue.c\<close>):
  a bounded queue of (pointer, size) items with blocking push and pop, a low-water mark and an
  event callback, which is a parameter \<open>cb\<close> here. The two indices are 16 bits wide and count
  up; a slot is the index modulo the size. \<open>while\<close> loops are cut at \<^verbatim>\<open>rt_schedule\<close> as in
  \<open>Mailbox\<close>. The results: as long as the put index has not wrapped around, the queue is a
  bounded first-in first-out queue; once it has, the test for a full queue, done on promoted
  integers, never holds again, and a push overwrites items that were not yet read.
\<close>

section \<open>The queue\<close>

definition RT_DATAQUEUE_EVENT_POP :: rt_uint32_t where "RT_DATAQUEUE_EVENT_POP = 1"
definition RT_DATAQUEUE_EVENT_PUSH :: rt_uint32_t where "RT_DATAQUEUE_EVENT_PUSH = 2"
definition RT_DATAQUEUE_EVENT_LWM :: rt_uint32_t where "RT_DATAQUEUE_EVENT_LWM = 3"

text \<open>\<^verbatim>\<open>put_index - get_index\<close>: both operands are promoted to \<^verbatim>\<open>int\<close> before the subtraction.\<close>

definition RT_DATAQUEUE_SIZE :: "rt_data_queue \<Rightarrow> int" where
  "RT_DATAQUEUE_SIZE q = uint (dq_put_index q) - uint (dq_get_index q)"

definition dq_full :: "rt_data_queue \<Rightarrow> bool" where
  "dq_full q \<longleftrightarrow> RT_DATAQUEUE_SIZE q = uint (dq_size q)"

definition dq_empty :: "rt_data_queue \<Rightarrow> bool" where
  "dq_empty q \<longleftrightarrow> dq_get_index q = dq_put_index q"

definition dq_slot :: "rt_data_queue \<Rightarrow> rt_uint16_t \<Rightarrow> nat" where
  "dq_slot q i = unat i mod unat (dq_size q)"

definition dq_store :: "rt_data_item \<Rightarrow> rt_data_queue \<Rightarrow> rt_data_queue" where
  "dq_store x q = q\<lparr>dq_items := (dq_items q)(dq_slot q (dq_put_index q) := x),
     dq_put_index := dq_put_index q + 1\<rparr>"

definition dq_head :: "rt_data_queue \<Rightarrow> rt_data_item" where
  "dq_head q = dq_items q (dq_slot q (dq_get_index q))"

definition dq_drop :: "rt_data_queue \<Rightarrow> rt_data_queue" where
  "dq_drop q = q\<lparr>dq_get_index := dq_get_index q + 1\<rparr>"

section \<open>Operations\<close>

definition upd_dq :: "addr \<Rightarrow> (rt_data_queue \<Rightarrow> rt_data_queue) \<Rightarrow> kstate \<Rightarrow> kstate" where
  "upd_dq a f s = s\<lparr>dataqueues := (dataqueues s)(a := f (dataqueues s a))\<rparr>"

definition get_dq :: "addr \<Rightarrow> kstate \<Rightarrow> rt_data_queue" where
  "get_dq a s = dataqueues s a"

type_synonym dq_callback = "addr \<Rightarrow> addr \<Rightarrow> rt_uint32_t \<Rightarrow> kstate \<Rightarrow> kstate"

definition dq_notify :: "dq_callback \<Rightarrow> addr \<Rightarrow> rt_uint32_t \<Rightarrow> kstate \<Rightarrow> kstate" where
  "dq_notify cb a event s =
    (case dq_evt_notify (get_dq a s) of None \<Rightarrow> s | Some f \<Rightarrow> cb f a event s)"

definition rt_data_queue_init ::
    "addr \<Rightarrow> rt_uint16_t \<Rightarrow> rt_uint16_t \<Rightarrow> addr option \<Rightarrow> kstate \<Rightarrow> kstate \<times> rt_err_t" where
  "rt_data_queue_init a sz lwm evt_notify s =
    (let s1 = upd_dq a (\<lambda>q. q\<lparr>dq_evt_notify := evt_notify, dq_size := sz, dq_lwm := lwm,
                            dq_get_index := 0, dq_put_index := 0\<rparr>) s;
         s2 = rt_ipc_object_init (DqPopQ a) (rt_ipc_object_init (DqPushQ a) s1);
         (s3, r) = kernel_malloc (8 * unat sz) s2;
         s4 = upd_dq a (\<lambda>q. q\<lparr>dq_queue := r\<rparr>) s3
     in (s4, if r = None then - RT_ENOMEM else RT_EOK))"

definition rt_data_queue_push ::
    "dq_callback \<Rightarrow> addr \<Rightarrow> rt_data_item \<Rightarrow> rt_int32_t \<Rightarrow> kstate \<Rightarrow> kstate \<times> rt_err_t outcome" where
  "rt_data_queue_push cb a x timeout s =
    (if dq_full (get_dq a s) then
       if timeout = 0 then (s, Returns (- RT_ETIMEOUT))
       else case rt_thread_self s of
           None \<Rightarrow> (null_deref s, Waits)
         | Some t \<Rightarrow>
             let s1 = RT_DEBUG_NOT_IN_INTERRUPT (set_error t RT_EOK s);
                 s2 = wait_on (DqPushQ a) t RT_IPC_FLAG_FIFO timeout s1
             in (rt_schedule s2, Waits)
     else
       let s1 = (if dq_queue (get_dq a s) = None then null_deref s else s);
           s2 = upd_dq a (dq_store x) s1
       in case tq s2 (DqPopQ a) of
            t # _ \<Rightarrow> (rt_schedule (fst (rt_thread_resume t s2)), Returns RT_EOK)
          | [] \<Rightarrow> (dq_notify cb a RT_DATAQUEUE_EVENT_PUSH s2, Returns RT_EOK))"

definition dq_push_resumed :: "dq_callback \<Rightarrow> addr \<Rightarrow> rt_data_item \<Rightarrow> rt_int32_t \<Rightarrow> tid \<Rightarrow> kstate \<Rightarrow>
    kstate \<times> rt_err_t outcome" where
  "dq_push_resumed cb a x timeout t s =
    (if th_error (thr s t) \<noteq> RT_EOK then (s, Returns (th_error (thr s t)))
     else rt_data_queue_push cb a x timeout s)"

definition rt_data_queue_pop ::
    "dq_callback \<Rightarrow> addr \<Rightarrow> rt_int32_t \<Rightarrow> kstate \<Rightarrow> kstate \<times> (rt_err_t \<times> rt_data_item option) outcome" where
  "rt_data_queue_pop cb a timeout s =
    (if dq_empty (get_dq a s) then
       if timeout = 0 then (s, Returns (- RT_ETIMEOUT, None))
       else case rt_thread_self s of
           None \<Rightarrow> (null_deref s, Waits)
         | Some t \<Rightarrow>
             let s1 = RT_DEBUG_NOT_IN_INTERRUPT (set_error t RT_EOK s);
                 s2 = wait_on (DqPopQ a) t RT_IPC_FLAG_FIFO timeout s1
             in (rt_schedule s2, Waits)
     else
       let s1 = (if dq_queue (get_dq a s) = None then null_deref s else s);
           x = dq_head (get_dq a s1);
           s2 = upd_dq a dq_drop s1
       in if RT_DATAQUEUE_SIZE (get_dq a s2) \<le> uint (dq_lwm (get_dq a s2)) then
            let s3 = (case tq s2 (DqPushQ a) of
                        t # _ \<Rightarrow> rt_schedule (fst (rt_thread_resume t s2))
                      | [] \<Rightarrow> s2)
            in (dq_notify cb a RT_DATAQUEUE_EVENT_LWM s3, Returns (RT_EOK, Some x))
          else (dq_notify cb a RT_DATAQUEUE_EVENT_POP s2, Returns (RT_EOK, Some x)))"

definition dq_pop_resumed :: "dq_callback \<Rightarrow> addr \<Rightarrow> rt_int32_t \<Rightarrow> tid \<Rightarrow> kstate \<Rightarrow>
    kstate \<times> (rt_err_t \<times> rt_data_item option) outcome" where
  "dq_pop_resumed cb a timeout t s =
    (if th_error (thr s t) \<noteq> RT_EOK then (s, Returns (th_error (thr s t), None))
     else rt_data_queue_pop cb a timeout s)"

definition rt_data_queue_peak :: "addr \<Rightarrow> kstate \<Rightarrow> rt_err_t \<times> rt_data_item option" where
  "rt_data_queue_peak a s =
    (let q = get_dq a s in
     if dq_empty q then (- RT_EEMPTY, None) else (RT_EOK, Some (dq_head q)))"

definition rt_data_queue_reset :: "addr \<Rightarrow> kstate \<Rightarrow> kstate" where
  "rt_data_queue_reset a s =
    (let s1 = rt_enter_critical s;
         s2 = rt_ipc_list_resume_all (DqPopQ a) s1;
         s3 = rt_ipc_list_resume_all (DqPushQ a) s2
     in rt_schedule (rt_exit_critical s3))"

section \<open>The store of data queues\<close>

interpretation dq: object_store get_dq upd_dq
proof
  show "get_dq a s' = get_dq a s" if "iview s' = iview s" for s' s a
    using iviewD(9) [OF that] by (simp add: get_dq_def)
qed (simp_all add: get_dq_def upd_dq_def sview_def)

lemmas dq_store_simps [simp] = dq.get_kernel dq.get_upd dq.get_upd_other dq.upd_inv dq.upd_fields

section \<open>The queue before its index wraps around\<close>

definition dq_contents :: "rt_data_queue \<Rightarrow> rt_data_item list" where
  "dq_contents q = circ (dq_items q) (unat (dq_size q)) (unat (dq_get_index q))
     (unat (dq_put_index q) - unat (dq_get_index q))"

definition dq_wf :: "rt_data_queue \<Rightarrow> bool" where
  "dq_wf q \<longleftrightarrow> dq_get_index q \<le> dq_put_index q \<and>
     unat (dq_put_index q) - unat (dq_get_index q) \<le> unat (dq_size q)"

lemma dq_size_diff: "dq_wf q \<Longrightarrow> RT_DATAQUEUE_SIZE q = int (length (dq_contents q))"
  by (simp add: dq_wf_def RT_DATAQUEUE_SIZE_def dq_contents_def word_le_nat_alt of_nat_diff)

lemma dq_full_iff: "dq_wf q \<Longrightarrow> dq_full q \<longleftrightarrow> length (dq_contents q) = unat (dq_size q)"
  using dq_size_diff [of q] by (simp add: dq_full_def)
    (metis nat_int uint_nat int_eq_iff)

lemma dq_empty_iff: "dq_wf q \<Longrightarrow> dq_empty q \<longleftrightarrow> dq_contents q = []"
  by (auto simp: dq_wf_def dq_empty_def dq_contents_def word_le_nat_alt word_unat_eq_iff)

lemma dq_store_contents:
  assumes wf: "dq_wf q" and "\<not> dq_full q" and mx: "dq_put_index q \<noteq> - 1"
  shows "dq_wf (dq_store x q)" "dq_contents (dq_store x q) = dq_contents q @ [x]"
proof -
  have lt: "unat (dq_put_index q) - unat (dq_get_index q) < unat (dq_size q)"
    using dq_full_iff [OF wf] assms(2) wf by (simp add: dq_contents_def dq_wf_def)
  have le: "unat (dq_get_index q) \<le> unat (dq_put_index q)" using wf by (simp add: dq_wf_def word_le_nat_alt)
  have p: "unat (dq_put_index q + 1) = Suc (unat (dq_put_index q))"
    using mx by (metis unatSuc add.commute add_eq_0_iff2)
  show "dq_wf (dq_store x q)" using lt le p by (simp add: dq_wf_def dq_store_def word_le_nat_alt)
  show "dq_contents (dq_store x q) = dq_contents q @ [x]"
    using circ_put [OF lt, of "dq_items q" "unat (dq_get_index q)" x] le p
    by (simp add: dq_contents_def dq_store_def dq_slot_def Suc_diff_le)
qed

lemma circ_get_mod:
  assumes "0 < n"
  shows "circ f sz out n = f (out mod sz) # circ f sz (Suc out) (n - 1)"
proof -
  have "[0..<n] = 0 # map Suc [0..<n - 1]" using assms by (simp add: map_Suc_upt upt_conv_Cons)
  then show ?thesis by (simp add: circ_def)
qed

lemma dq_drop_contents:
  assumes wf: "dq_wf q" and ne: "\<not> dq_empty q"
  shows "dq_wf (dq_drop q)" "dq_contents q = dq_head q # dq_contents (dq_drop q)"
proof -
  have lt: "dq_get_index q < dq_put_index q" using wf ne by (auto simp: dq_wf_def dq_empty_def)
  then have g: "unat (dq_get_index q + 1) = Suc (unat (dq_get_index q))" by (rule unat_inc)
  have lt': "unat (dq_get_index q) < unat (dq_put_index q)" using lt by (simp add: word_less_nat_alt)
  show "dq_wf (dq_drop q)" using wf lt' g by (simp add: dq_wf_def dq_drop_def word_le_nat_alt)
  show "dq_contents q = dq_head q # dq_contents (dq_drop q)"
    using circ_get_mod [of "unat (dq_put_index q) - unat (dq_get_index q)"] lt' g
    by (simp add: dq_contents_def dq_head_def dq_drop_def dq_slot_def)
qed

section \<open>Push and pop\<close>

text \<open>
  What the results assume of the event callback: it does not itself work on the queue that
  calls it.
\<close>

definition dq_quiet :: "dq_callback \<Rightarrow> addr \<Rightarrow> bool" where
  "dq_quiet cb a \<longleftrightarrow> (\<forall>f ev s. get_dq a (cb f a ev s) = get_dq a s)"

lemma dq_quiet_none [simp]: "dq_quiet (\<lambda>_ _ _ s. s) a"
  by (simp add: dq_quiet_def)

lemma dq_notify_keeps: "dq_quiet cb a \<Longrightarrow> get_dq a (dq_notify cb a ev s) = get_dq a s"
  by (simp add: dq_notify_def dq_quiet_def split: option.split)

lemma dq_push_step:
  assumes "dq_quiet cb a" "\<not> dq_full (get_dq a s)"
  shows "get_dq a (fst (rt_data_queue_push cb a x time s)) = dq_store x (get_dq a s)"
    "snd (rt_data_queue_push cb a x time s) = Returns RT_EOK"
  using assms by (simp_all add: rt_data_queue_push_def Let_def dq_notify_keeps split: list.split)

lemma dq_pop_step:
  assumes "dq_quiet cb a" "\<not> dq_empty (get_dq a s)"
  shows "get_dq a (fst (rt_data_queue_pop cb a time s)) = dq_drop (get_dq a s)"
    "snd (rt_data_queue_pop cb a time s) = Returns (RT_EOK, Some (dq_head (get_dq a s)))"
  using assms by (simp_all add: rt_data_queue_pop_def Let_def dq_notify_keeps split: list.split)

text \<open>Every outcome of a push and of a pop that does not wait.\<close>

lemma dq_push_cases:
  assumes wf: "dq_wf (get_dq a s)" and cb: "dq_quiet cb a" and mx: "dq_put_index (get_dq a s) \<noteq> - 1"
  shows "if length (dq_contents (get_dq a s)) = unat (dq_size (get_dq a s))
      then rt_data_queue_push cb a x 0 s = (s, Returns (- RT_ETIMEOUT))
      else \<forall>time. snd (rt_data_queue_push cb a x time s) = Returns RT_EOK \<and>
        dq_wf (get_dq a (fst (rt_data_queue_push cb a x time s))) \<and>
        dq_contents (get_dq a (fst (rt_data_queue_push cb a x time s))) = dq_contents (get_dq a s) @ [x]"
proof (cases "dq_full (get_dq a s)")
  case True
  then show ?thesis using dq_full_iff [OF wf] by (simp add: rt_data_queue_push_def)
next
  case False
  then show ?thesis
    using dq_full_iff [OF wf] dq_push_step [OF cb False] dq_store_contents [OF wf False mx] by simp
qed

lemma dq_pop_cases:
  assumes wf: "dq_wf (get_dq a s)" and cb: "dq_quiet cb a"
  shows "if dq_contents (get_dq a s) = []
      then rt_data_queue_pop cb a 0 s = (s, Returns (- RT_ETIMEOUT, None)) \<and>
        rt_data_queue_peak a s = (- RT_EEMPTY, None)
      else rt_data_queue_peak a s = (RT_EOK, Some (hd (dq_contents (get_dq a s)))) \<and>
       (\<forall>time. snd (rt_data_queue_pop cb a time s) = Returns (RT_EOK, Some (hd (dq_contents (get_dq a s)))) \<and>
        dq_wf (get_dq a (fst (rt_data_queue_pop cb a time s))) \<and>
        dq_contents (get_dq a (fst (rt_data_queue_pop cb a time s))) = tl (dq_contents (get_dq a s)))"
proof (cases "dq_empty (get_dq a s)")
  case True
  then show ?thesis using dq_empty_iff [OF wf] by (simp add: rt_data_queue_pop_def rt_data_queue_peak_def Let_def)
next
  case False
  then have ne: "dq_contents (get_dq a s) \<noteq> []" using dq_empty_iff [OF wf] by simp
  show ?thesis
    using ne False dq_pop_step [OF cb False] dq_drop_contents [OF wf False]
    by (simp add: rt_data_queue_peak_def Let_def)
qed

section \<open>Wrap-around of the indices\<close>

text \<open>The calls as queue operations.\<close>

definition dq_push_value :: "dq_callback \<Rightarrow> addr \<Rightarrow> rt_data_item \<Rightarrow> kstate \<Rightarrow> kstate" where
  "dq_push_value cb a x s = fst (rt_data_queue_push cb a x 0 s)"

definition dq_pop_value :: "dq_callback \<Rightarrow> addr \<Rightarrow> kstate \<Rightarrow> rt_data_item option \<times> kstate" where
  "dq_pop_value cb a s =
    (case rt_data_queue_pop cb a 0 s of
       (s', Returns (_, v)) \<Rightarrow> (v, s')
     | (s', Waits) \<Rightarrow> (None, s'))"

lemma dq_push_value_get:
  "dq_quiet cb a \<Longrightarrow> \<not> dq_full (get_dq a s) \<Longrightarrow> get_dq a (dq_push_value cb a x s) = dq_store x (get_dq a s)"
  by (simp add: dq_push_value_def dq_push_step)

lemma dq_pop_value_get:
  assumes "dq_quiet cb a" "\<not> dq_empty (get_dq a s)"
  shows "fst (dq_pop_value cb a s) = Some (dq_head (get_dq a s))"
    "get_dq a (snd (dq_pop_value cb a s)) = dq_drop (get_dq a s)"
  using dq_pop_step [OF assms, of 0]
  by (cases "rt_data_queue_pop cb a 0 s"; simp add: dq_pop_value_def)+

text \<open>A push followed by a pop, \<open>n\<close> times: the indices count up together.\<close>

primrec dq_cycles :: "dq_callback \<Rightarrow> addr \<Rightarrow> rt_data_item \<Rightarrow> nat \<Rightarrow> kstate \<Rightarrow> kstate" where
  "dq_cycles cb a x 0 s = s"
| "dq_cycles cb a x (Suc n) s = dq_cycles cb a x n (snd (dq_pop_value cb a (dq_push_value cb a x s)))"

lemma dq_cycle_step:
  assumes "dq_quiet cb a" "dq_size (get_dq a s) \<noteq> 0" "dq_empty (get_dq a s)"
  shows "let q = get_dq a (snd (dq_pop_value cb a (dq_push_value cb a x s)))
    in dq_size q = dq_size (get_dq a s) \<and> dq_get_index q = dq_get_index (get_dq a s) + 1 \<and> dq_empty q"
proof -
  have nf: "\<not> dq_full (get_dq a s)"
    using assms(2,3) by (simp add: dq_full_def dq_empty_def RT_DATAQUEUE_SIZE_def uint_0_iff)
  note p = dq_push_value_get [OF assms(1) nf, of x]
  have ne: "\<not> dq_empty (get_dq a (dq_push_value cb a x s))"
    using assms(3) by (simp add: p dq_store_def dq_empty_def)
  show ?thesis
    using dq_pop_value_get(2) [OF assms(1) ne] assms(3) by (simp add: p dq_store_def dq_drop_def dq_empty_def Let_def)
qed

lemma dq_cycles_indices:
  assumes "dq_quiet cb a" "dq_size (get_dq a s) \<noteq> 0" "dq_empty (get_dq a s)"
  shows "dq_size (get_dq a (dq_cycles cb a x n s)) = dq_size (get_dq a s) \<and>
    dq_get_index (get_dq a (dq_cycles cb a x n s)) = dq_get_index (get_dq a s) + of_nat n \<and>
    dq_empty (get_dq a (dq_cycles cb a x n s))"
  using assms
proof (induction n arbitrary: s)
  case (Suc n)
  let ?s = "snd (dq_pop_value cb a (dq_push_value cb a x s))"
  have "dq_size (get_dq a ?s) = dq_size (get_dq a s)" "dq_get_index (get_dq a ?s) = dq_get_index (get_dq a s) + 1"
    "dq_empty (get_dq a ?s)"
    using dq_cycle_step [OF Suc.prems, of x] by (simp_all add: Let_def)
  then show ?case using Suc.IH [of ?s] Suc.prems by simp
qed simp

text \<open>Once the put index has wrapped below the get index, no push finds the queue full.\<close>

lemma dq_wrapped_never_full: "dq_put_index q < dq_get_index q \<Longrightarrow> \<not> dq_full q"
  by (simp add: dq_full_def RT_DATAQUEUE_SIZE_def word_less_def)
    (smt (verit) uint_ge_0)

lemma dq_overrun:
  assumes cb: "dq_quiet cb a" and "dq_size (get_dq a s) = 4" "dq_get_index (get_dq a s) = 65533"
    "dq_empty (get_dq a s)"
  shows "fst (get_n (dq_pop_value cb a) 5 (put_all (dq_push_value cb a) [x0, x1, x2, x3, x4] s)) =
    [Some x4, Some x1, Some x2, Some x3, Some x4]"
proof -
  have p: "dq_put_index (get_dq a s) = 65533" using assms(3,4) by (simp add: dq_empty_def)
  note idx = assms(2,3) p
  note ops = dq_push_value_get [OF cb] dq_pop_value_get [OF cb] dq_full_def dq_empty_def
    RT_DATAQUEUE_SIZE_def dq_store_def dq_drop_def dq_head_def dq_slot_def
  have n5: "5 = Suc (Suc (Suc (Suc (Suc 0))))" by simp
  define s' where "s' = put_all (dq_push_value cb a) [x0, x1, x2, x3, x4] s"
  have s': "get_dq a s' = (get_dq a s)\<lparr>dq_put_index := 2,
      dq_items := (dq_items (get_dq a s))(0 := x3, 1 := x4, 2 := x1, 3 := x2)\<rparr>"
    by (simp add: s'_def ops idx fun_eq_iff)
  show ?thesis
    unfolding s'_def [symmetric] n5 by (simp add: ops s' idx Let_def split_beta)
qed

section \<open>Waiting threads\<close>

text \<open>A push makes the first waiting reader ready.\<close>

lemma resumed_awake:
  assumes "sched_inv s" "tq s h = t # ts" "wait_head h"
  shows "tstat (thr (rt_schedule (fst (rt_thread_resume t s))) t) \<in> {RT_THREAD_READY, RT_THREAD_RUNNING}"
    "tq (rt_schedule (fst (rt_thread_resume t s))) h = ts"
proof -
  have "tstat (thr (fst (rt_thread_resume t s)) t) \<in> {RT_THREAD_READY, RT_THREAD_RUNNING}"
    using rt_ipc_list_resume_effect(3) [OF assms] assms(2) by (simp add: rt_ipc_list_resume_def)
  then show "tstat (thr (rt_schedule (fst (rt_thread_resume t s))) t) \<in> {RT_THREAD_READY, RT_THREAD_RUNNING}"
    using schedule_stat_cases [of "fst (rt_thread_resume t s)" t] by auto
  show "tq (rt_schedule (fst (rt_thread_resume t s))) h = ts"
    using tq_resume_hd [OF assms] rt_schedule_waiting [OF rt_thread_resume_inv [OF assms(1)] wait_head_not_ready [OF assms(3)]]
    by simp
qed

lemma dq_push_wakes_reader:
  assumes "sched_inv s" "tq s (DqPopQ a) = t # ts" "\<not> dq_full (get_dq a s)"
  shows "tstat (thr (fst (rt_data_queue_push cb a x time s)) t) \<in> {RT_THREAD_READY, RT_THREAD_RUNNING}"
    "tq (fst (rt_data_queue_push cb a x time s)) (DqPopQ a) = ts"
proof -
  let ?s = "upd_dq a (dq_store x) (if dq_queue (get_dq a s) = None then null_deref s else s)"
  have i: "sched_inv ?s" using assms(1) by (simp add: null_deref_def)
  have q: "tq ?s (DqPopQ a) = t # ts" using assms(2) by (simp add: null_deref_def)
  have e: "fst (rt_data_queue_push cb a x time s) = rt_schedule (fst (rt_thread_resume t ?s))"
    using assms(3) q by (simp add: rt_data_queue_push_def Let_def)
  show "tstat (thr (fst (rt_data_queue_push cb a x time s)) t) \<in> {RT_THREAD_READY, RT_THREAD_RUNNING}"
    "tq (fst (rt_data_queue_push cb a x time s)) (DqPopQ a) = ts"
    unfolding e by (rule resumed_awake [OF i q]; simp)+
qed

lemma tq_resume_all_loop_other:
  assumes "sched_inv s" "wait_head h" "wait_head h'" "h' \<noteq> h"
  shows "tq (resume_all_loop h n s) h' = tq s h'"
  using assms
proof (induction n arbitrary: s)
  case (Suc n)
  show ?case
  proof (cases "tq s h")
    case (Cons t ts)
    let ?s = "upd_thr t (\<lambda>th. th\<lparr>th_error := - RT_ERROR\<rparr>) s"
    have i: "sched_inv ?s" using Suc.prems by (simp add: upd_thr_data_inv)
    have "tq (fst (rt_thread_resume t ?s)) h' = tq ?s h'"
      using rt_ipc_list_resume_effect(2) [OF i, of h t ts h'] Cons Suc.prems by (simp add: rt_ipc_list_resume_def)
    then show ?thesis
      using Cons Suc.IH [OF rt_thread_resume_inv [OF i]] Suc.prems by simp
  qed simp
qed simp

lemma tq_resume_all_other:
  "sched_inv s \<Longrightarrow> wait_head h \<Longrightarrow> wait_head h' \<Longrightarrow> h' \<noteq> h \<Longrightarrow> tq (rt_ipc_list_resume_all h s) h' = tq s h'"
  by (simp add: rt_ipc_list_resume_all_def tq_resume_all_loop_other)

lemma tq_exit_critical: "sched_inv s \<Longrightarrow> wait_head h \<Longrightarrow> tq (rt_exit_critical s) h = tq s h"
  using rt_schedule_waiting [of "s\<lparr>rt_scheduler_lock_nest := n\<rparr>" h for n] wait_head_not_ready [of h]
  by (auto simp: rt_exit_critical_def Let_def sched_inv_def sched_inv_on_def)

text \<open>A reset wakes every waiting reader and writer, and leaves the items and the indices as they are.\<close>

lemma rt_data_queue_reset_effect:
  assumes inv: "sched_inv s"
  shows "tq (rt_data_queue_reset a s) (DqPopQ a) = []" "tq (rt_data_queue_reset a s) (DqPushQ a) = []"
    "get_dq a (rt_data_queue_reset a s) = get_dq a s"
proof -
  let ?s1 = "rt_ipc_list_resume_all (DqPopQ a) (rt_enter_critical s)"
  let ?s2 = "rt_ipc_list_resume_all (DqPushQ a) ?s1"
  have i: "sched_inv ?s1" "sched_inv ?s2" using inv by (simp_all add: rt_ipc_list_resume_all_inv)
  have e: "tq ?s2 (DqPopQ a) = []" "tq ?s2 (DqPushQ a) = []"
    using rt_ipc_list_resume_all_empty [of "rt_enter_critical s" "DqPopQ a"] inv i(1)
    by (simp_all add: tq_resume_all_other rt_ipc_list_resume_all_empty)
  show "tq (rt_data_queue_reset a s) (DqPopQ a) = []" "tq (rt_data_queue_reset a s) (DqPushQ a) = []"
    using e i(2) by (simp_all add: rt_data_queue_reset_def Let_def rt_schedule_waiting rt_exit_critical_inv tq_exit_critical)
  show "get_dq a (rt_data_queue_reset a s) = get_dq a s"
    by (rule dq.get_iview) (simp add: rt_data_queue_reset_def Let_def)
qed

end
