(* ===== verification/WaitQueue.thy ===== *)
theory WaitQueue
  imports Completion
begin

text \<open>
  Wait queues (\<^verbatim>\<open>rt-thread/components/drivers/src/waitqueue.c\<close>): threads that poll a condition
  sleep on a list of nodes, and a wake-up resumes the first whose wake function agrees. The node
  of \<^verbatim>\<open>rt_wqueue_wait\<close> lies on the caller's stack; its address is a parameter. Wake functions of
  the application are a parameter \<open>wk\<close>; they are not expected to change the list they are called
  from. The results: a wake-up that comes before the wait is not lost, and one that comes during
  it makes exactly the first waiter ready.
\<close>

section \<open>Operations\<close>

definition RT_WQ_FLAG_CLEAN :: rt_uint32_t where "RT_WQ_FLAG_CLEAN = 0"
definition RT_WQ_FLAG_WAKEUP :: rt_uint32_t where "RT_WQ_FLAG_WAKEUP = 1"

type_synonym wake_callback = "addr \<Rightarrow> addr \<Rightarrow> addr \<Rightarrow> kstate \<Rightarrow> kstate \<times> int"

definition upd_wq :: "addr \<Rightarrow> (rt_wqueue \<Rightarrow> rt_wqueue) \<Rightarrow> kstate \<Rightarrow> kstate" where
  "upd_wq a f s = s\<lparr>wqueues := (wqueues s)(a := f (wqueues s a))\<rparr>"

definition get_wq :: "addr \<Rightarrow> kstate \<Rightarrow> rt_wqueue" where
  "get_wq a s = wqueues s a"

definition rt_wqueue_init :: "addr \<Rightarrow> kstate \<Rightarrow> kstate" where
  "rt_wqueue_init a s = upd_wq a (\<lambda>_. \<lparr>wq_flag = RT_WQ_FLAG_CLEAN, wq_waiting_list = []\<rparr>) s"

definition rt_wqueue_add :: "addr \<Rightarrow> addr \<Rightarrow> kstate \<Rightarrow> kstate" where
  "rt_wqueue_add a n s = upd_wq a (\<lambda>w. w\<lparr>wq_waiting_list := wq_waiting_list w @ [n]\<rparr>) s"

text \<open>Unlinking a node needs no list head; a node that is linked nowhere stays so.\<close>

definition rt_wqueue_remove :: "addr \<Rightarrow> kstate \<Rightarrow> kstate" where
  "rt_wqueue_remove n s =
    s\<lparr>wqueues := (\<lambda>a. (wqueues s a)\<lparr>wq_waiting_list := remove1 n (wq_waiting_list (wqueues s a))\<rparr>)\<rparr>"

definition wqueue_default_wake :: "addr \<Rightarrow> addr \<Rightarrow> int" where
  "wqueue_default_wake wait key = 0"

definition node_wakeup :: "wake_callback \<Rightarrow> addr \<Rightarrow> addr \<Rightarrow> kstate \<Rightarrow> kstate \<times> int" where
  "node_wakeup wk n key s =
    (case wn_wakeup (wqueue_nodes s n) of
       Wqueue_default_wake \<Rightarrow> (s, wqueue_default_wake n key)
     | App_wake f \<Rightarrow> wk f n key s)"

fun wakeup_loop :: "wake_callback \<Rightarrow> addr \<Rightarrow> addr list \<Rightarrow> kstate \<Rightarrow> kstate \<times> bool" where
  "wakeup_loop wk key [] s = (s, False)"
| "wakeup_loop wk key (n # ns) s =
    (let (s1, r) = node_wakeup wk n key s in
     if r = 0 then
       (rt_wqueue_remove n (fst (rt_thread_resume (wn_polling_thread (wqueue_nodes s1 n)) s1)), True)
     else wakeup_loop wk key ns s1)"

definition rt_wqueue_wakeup :: "wake_callback \<Rightarrow> addr \<Rightarrow> addr \<Rightarrow> kstate \<Rightarrow> kstate" where
  "rt_wqueue_wakeup wk a key s =
    (let s1 = upd_wq a (\<lambda>w. w\<lparr>wq_flag := RT_WQ_FLAG_WAKEUP\<rparr>) s;
         (s2, need_schedule) = wakeup_loop wk key (wq_waiting_list (get_wq a s1)) s1
     in if need_schedule then rt_schedule s2 else s2)"

definition wqueue_wait_exit :: "addr \<Rightarrow> addr \<Rightarrow> kstate \<Rightarrow> kstate" where
  "wqueue_wait_exit a n s = rt_wqueue_remove n (upd_wq a (\<lambda>w. w\<lparr>wq_flag := 0\<rparr>) s)"

definition rt_wqueue_wait ::
    "addr \<Rightarrow> addr \<Rightarrow> bool \<Rightarrow> rt_int32_t \<Rightarrow> kstate \<Rightarrow> kstate \<times> int outcome" where
  "rt_wqueue_wait a n condition msec s =
    (case rt_thread_self s of
       None \<Rightarrow> (null_deref s, Waits)
     | Some t \<Rightarrow>
         let s1 = RT_DEBUG_NOT_IN_INTERRUPT s;
             tick = rt_tick_from_millisecond msec
         in if condition \<or> tick = 0 then (s1, Returns 0)
            else
              let s2 = s1\<lparr>wqueue_nodes := (wqueue_nodes s1)(n := \<lparr>wn_polling_thread = t,
                         wn_wakeup = Wqueue_default_wake, wn_key = 0\<rparr>)\<rparr>
              in if wq_flag (get_wq a s2) = RT_WQ_FLAG_WAKEUP
                 then (wqueue_wait_exit a n s2, Returns 0)
                 else
                   let s3 = fst (rt_thread_suspend t (rt_wqueue_add a n s2));
                       s4 = (if tick \<noteq> RT_WAITING_FOREVER then thread_arm_timer t tick s3 else s3)
                   in (rt_schedule s4, Waits))"

definition wqueue_wait_resumed :: "addr \<Rightarrow> addr \<Rightarrow> kstate \<Rightarrow> kstate \<times> int" where
  "wqueue_wait_resumed a n s = (wqueue_wait_exit a n s, 0)"

section \<open>The store of wait queues\<close>

interpretation wqs: object_store get_wq upd_wq
proof
  show "get_wq a s' = get_wq a s" if "iview s' = iview s" for s' s a
    using iviewD(10) [OF that] by (simp add: get_wq_def)
qed (simp_all add: get_wq_def upd_wq_def sview_def)

lemmas wq_store [simp] = wqs.get_kernel wqs.get_upd wqs.get_upd_other wqs.upd_inv wqs.upd_fields

lemma wqueue_nodes_iview: "iview s' = iview s \<Longrightarrow> wqueue_nodes s' = wqueue_nodes s"
  by (rule iviewD(11))

lemma wqueue_nodes_upd [simp]: "wqueue_nodes (upd_wq a f s) = wqueue_nodes s"
  by (simp add: upd_wq_def)

lemma wqueue_remove_simps [simp]:
  "sview (rt_wqueue_remove n s) = sview s" "tmview (rt_wqueue_remove n s) = tmview s"
  "wqueue_nodes (rt_wqueue_remove n s) = wqueue_nodes s"
  "wq_flag (get_wq a (rt_wqueue_remove n s)) = wq_flag (get_wq a s)"
  "wq_waiting_list (get_wq a (rt_wqueue_remove n s)) = remove1 n (wq_waiting_list (get_wq a s))"
  by (simp_all add: rt_wqueue_remove_def sview_def tmview_def get_wq_def)

section \<open>Waking up\<close>

text \<open>
  With default wake functions a wake-up takes the first node off the list and makes its thread
  ready, or running.
\<close>

lemma wqueue_wakeup_first:
  assumes "wq_waiting_list (get_wq a s) = n # ns" "wn_wakeup (wqueue_nodes s n) = Wqueue_default_wake"
    "wn_polling_thread (wqueue_nodes s n) = t" "tstat (thr s t) = RT_THREAD_SUSPEND"
  shows "wq_waiting_list (get_wq a (rt_wqueue_wakeup wk a key s)) = ns"
    "wq_flag (get_wq a (rt_wqueue_wakeup wk a key s)) = RT_WQ_FLAG_WAKEUP"
    "tstat (thr (rt_wqueue_wakeup wk a key s) t) \<in> {RT_THREAD_READY, RT_THREAD_RUNNING}"
proof -
  let ?s1 = "upd_wq a (\<lambda>w. w\<lparr>wq_flag := RT_WQ_FLAG_WAKEUP\<rparr>) s"
  let ?s2 = "rt_wqueue_remove n (fst (rt_thread_resume t ?s1))"
  have e: "rt_wqueue_wakeup wk a key s = rt_schedule ?s2"
    using assms(1-3) by (simp add: rt_wqueue_wakeup_def node_wakeup_def wqueue_default_wake_def Let_def)
  show "wq_waiting_list (get_wq a (rt_wqueue_wakeup wk a key s)) = ns"
    "wq_flag (get_wq a (rt_wqueue_wakeup wk a key s)) = RT_WQ_FLAG_WAKEUP"
    unfolding e using assms(1) by simp_all
  have "tstat (thr (fst (rt_thread_resume t ?s1)) t) \<in> {RT_THREAD_READY, RT_THREAD_RUNNING}"
    using assms(4) by (auto simp: rt_thread_resume_def Let_def rt_schedule_insert_thread_def list_insert_before_def
        list_remove_def)
  moreover have "thr ?s2 = thr (fst (rt_thread_resume t ?s1))" by (rule sviewD(1)) simp
  ultimately show "tstat (thr (rt_wqueue_wakeup wk a key s) t) \<in> {RT_THREAD_READY, RT_THREAD_RUNNING}"
    unfolding e using schedule_stat_cases [of ?s2 t] by auto
qed

text \<open>A wake-up with nobody waiting is remembered, and the next wait returns at once and consumes it.\<close>

lemma wqueue_wakeup_before_wait:
  assumes "wq_waiting_list (get_wq a s) = []" "rt_current_thread s = Some t" "rt_tick_from_millisecond msec \<noteq> 0"
    and s1_def: "s1 = rt_wqueue_wakeup wk a key s"
  shows "snd (rt_wqueue_wait a n False msec s1) = Returns 0"
    "get_wq a (fst (rt_wqueue_wait a n False msec s1)) = \<lparr>wq_flag = RT_WQ_FLAG_CLEAN, wq_waiting_list = []\<rparr>"
    "thr (fst (rt_wqueue_wait a n False msec s1)) = thr s"
proof -
  have e: "s1 = upd_wq a (\<lambda>w. w\<lparr>wq_flag := RT_WQ_FLAG_WAKEUP\<rparr>) s"
    using assms(1) by (simp add: s1_def rt_wqueue_wakeup_def Let_def)
  have g: "get_wq a (s'\<lparr>wqueue_nodes := f\<rparr>) = get_wq a s'" for s' f by (simp add: get_wq_def)
  have c: "rt_current_thread s1 = Some t" using assms(2) by (simp add: e)
  show "snd (rt_wqueue_wait a n False msec s1) = Returns 0"
    using assms(3) c by (simp add: rt_wqueue_wait_def Let_def rt_thread_self_def e g)
  show "get_wq a (fst (rt_wqueue_wait a n False msec s1)) = \<lparr>wq_flag = RT_WQ_FLAG_CLEAN, wq_waiting_list = []\<rparr>"
    using assms(1,3) c
    by (simp add: rt_wqueue_wait_def Let_def rt_thread_self_def e g wqueue_wait_exit_def RT_WQ_FLAG_CLEAN_def
        rt_wqueue.equality)
  show "thr (fst (rt_wqueue_wait a n False msec s1)) = thr s"
    using assms(3) c
    by (simp add: rt_wqueue_wait_def Let_def rt_thread_self_def e g wqueue_wait_exit_def
        sviewD(1) [OF wqueue_remove_simps(1)])
qed

text \<open>A wait that sleeps links its node at the end and suspends the caller.\<close>

lemma wqueue_wait_sleeps:
  assumes "sched_inv s" "rt_current_thread s = Some t" "tstat (thr s t) = RT_THREAD_RUNNING"
    "wq_flag (get_wq a s) \<noteq> RT_WQ_FLAG_WAKEUP" "rt_tick_from_millisecond msec \<noteq> 0"
  shows "snd (rt_wqueue_wait a n False msec s) = Waits"
    "wq_waiting_list (get_wq a (fst (rt_wqueue_wait a n False msec s))) = wq_waiting_list (get_wq a s) @ [n]"
    "wn_polling_thread (wqueue_nodes (fst (rt_wqueue_wait a n False msec s)) n) = t"
    "sched_inv (fst (rt_wqueue_wait a n False msec s))"
proof -
  define s2 where "s2 = rt_wqueue_add a n ((RT_DEBUG_NOT_IN_INTERRUPT s)\<lparr>wqueue_nodes :=
    (wqueue_nodes (RT_DEBUG_NOT_IN_INTERRUPT s))(n := \<lparr>wn_polling_thread = t, wn_wakeup = Wqueue_default_wake, wn_key = 0\<rparr>)\<rparr>)"
  define s3 where "s3 = fst (rt_thread_suspend t s2)"
  have g: "get_wq a (s'\<lparr>wqueue_nodes := f\<rparr>) = get_wq a s'" for s' f by (simp add: get_wq_def)
  have e: "rt_wqueue_wait a n False msec s = (rt_schedule (if rt_tick_from_millisecond msec \<noteq> RT_WAITING_FOREVER
      then thread_arm_timer t (rt_tick_from_millisecond msec) s3 else s3), Waits)"
    using assms(2,4,5) by (simp add: rt_wqueue_wait_def Let_def rt_thread_self_def s2_def s3_def g)
  have v: "iview (fst (rt_wqueue_wait a n False msec s)) = iview s2" by (simp add: e s3_def)
  show "snd (rt_wqueue_wait a n False msec s) = Waits" by (simp add: e)
  show "wq_waiting_list (get_wq a (fst (rt_wqueue_wait a n False msec s))) = wq_waiting_list (get_wq a s) @ [n]"
    using wqs.get_iview [OF v, of a] by (simp add: s2_def rt_wqueue_add_def g)
  show "wn_polling_thread (wqueue_nodes (fst (rt_wqueue_wait a n False msec s)) n) = t"
    using wqueue_nodes_iview [OF v] by (simp add: s2_def rt_wqueue_add_def)
  have "sched_inv (s'\<lparr>wqueue_nodes := f\<rparr>) = sched_inv s'" for s' f
    by (rule sched_inv_sview) (simp add: sview_def)
  then have "sched_inv s2" using assms(1) by (simp add: s2_def rt_wqueue_add_def)
  then show "sched_inv (fst (rt_wqueue_wait a n False msec s))"
    by (simp add: e s3_def rt_schedule_inv_any thread_arm_timer_inv rt_thread_suspend_inv)
qed

end
