(* ===== verification/Mutex.thy ===== *)
theory Mutex
  imports Semaphore
begin

text \<open>
  Mutexes with priority inheritance (\<^verbatim>\<open>rt-thread/src/ipc.c\<close>). \<open>mutex_acquire\<close> is the code from
  the label \<^verbatim>\<open>__again\<close> of \<^verbatim>\<open>rt_mutex_take\<close>, which a thread runs again when its wait was
  interrupted. The results: a mutex is either free, with no owner and no waiters, or held by
  one thread; only the owner can release it; a waiter lifts the owner to its own priority and
  the release restores the owner's priority and hands the mutex to the first waiter.
\<close>

section \<open>Operations\<close>

definition upd_mutex :: "addr \<Rightarrow> (rt_mutex \<Rightarrow> rt_mutex) \<Rightarrow> kstate \<Rightarrow> kstate" where
  "upd_mutex a f s = s\<lparr>mutexes := (mutexes s)(a := f (mutexes s a))\<rparr>"

definition get_mutex :: "addr \<Rightarrow> kstate \<Rightarrow> rt_mutex" where
  "get_mutex a s = mutexes s a"

definition mutex_initial :: "rt_mutex \<Rightarrow> rt_mutex" where
  "mutex_initial m = m\<lparr>mtx_value := 1, mtx_owner := None, mtx_original_priority := 0xFF, mtx_hold := 0\<rparr>"

definition rt_mutex_init :: "addr \<Rightarrow> cstr \<Rightarrow> rt_uint8_t \<Rightarrow> kstate \<Rightarrow> kstate \<times> rt_err_t" where
  "rt_mutex_init a name flag s =
    (let s1 = rt_object_init (ObjMutex a) RT_Object_Class_Mutex name s;
         s2 = upd_mutex a mutex_initial (rt_ipc_object_init (MutexQ a) s1)
     in (set_obj_flag (ObjMutex a) flag s2, RT_EOK))"

definition rt_mutex_detach :: "addr \<Rightarrow> kstate \<Rightarrow> kstate \<times> rt_err_t" where
  "rt_mutex_detach a s =
    (let s1 = RT_ASSERT (obj_type_ok (ObjMutex a) RT_Object_Class_Mutex s) s;
         s2 = RT_ASSERT (rt_object_is_systemobject (ObjMutex a) s1) s1
     in (rt_object_detach (ObjMutex a) (rt_ipc_list_resume_all (MutexQ a) s2), RT_EOK))"

definition rt_mutex_create :: "cstr \<Rightarrow> rt_uint8_t \<Rightarrow> kstate \<Rightarrow> kstate \<times> addr option" where
  "rt_mutex_create name flag s =
    (case rt_object_allocate RT_Object_Class_Mutex name (RT_DEBUG_NOT_IN_INTERRUPT s) of
       (s1, None) \<Rightarrow> (s1, None)
     | (s1, Some a) \<Rightarrow>
         (set_obj_flag (ObjMutex a) flag
            (upd_mutex a mutex_initial (rt_ipc_object_init (MutexQ a) s1)), Some a))"

definition rt_mutex_delete :: "addr \<Rightarrow> kstate \<Rightarrow> kstate \<times> rt_err_t" where
  "rt_mutex_delete a s =
    (let s0 = RT_DEBUG_NOT_IN_INTERRUPT s;
         s1 = RT_ASSERT (obj_type_ok (ObjMutex a) RT_Object_Class_Mutex s0) s0;
         s2 = RT_ASSERT (\<not> rt_object_is_systemobject (ObjMutex a) s1) s1
     in (rt_object_delete (ObjMutex a) (rt_ipc_list_resume_all (MutexQ a) s2), RT_EOK))"

definition inherit_priority :: "tid \<Rightarrow> tid \<Rightarrow> kstate \<Rightarrow> kstate" where
  "inherit_priority t ow s =
    (if th_current_priority (thr s t) < th_current_priority (thr s ow)
     then fst (rt_thread_control ow (RT_THREAD_CTRL_CHANGE_PRIORITY (th_current_priority (thr s t))) s)
     else s)"

definition mutex_acquire :: "addr \<Rightarrow> tid \<Rightarrow> rt_int32_t \<Rightarrow> kstate \<Rightarrow> kstate \<times> rt_err_t outcome" where
  "mutex_acquire a t time s =
    (if mtx_value (get_mutex a s) > 0
     then (upd_mutex a (\<lambda>m. m\<lparr>mtx_value := mtx_value m - 1, mtx_owner := Some t,
             mtx_original_priority := th_current_priority (thr s t), mtx_hold := mtx_hold m + 1\<rparr>) s,
           Returns RT_EOK)
     else if time = 0 then (set_error t (- RT_ETIMEOUT) s, Returns (- RT_ETIMEOUT))
     else case mtx_owner (get_mutex a s) of
         None \<Rightarrow> (null_deref s, Waits)
       | Some ow \<Rightarrow>
           let s1 = inherit_priority t ow s;
               s2 = wait_on (MutexQ a) t (obj_flag (objs s1 (ObjMutex a))) time s1
           in (rt_schedule s2, Waits))"

definition rt_mutex_take :: "addr \<Rightarrow> rt_int32_t \<Rightarrow> kstate \<Rightarrow> kstate \<times> rt_err_t outcome" where
  "rt_mutex_take a time s =
    (let s0 = RT_DEBUG_IN_THREAD_CONTEXT s;
         s1 = RT_ASSERT (obj_type_ok (ObjMutex a) RT_Object_Class_Mutex s0) s0
     in case rt_thread_self s1 of
          None \<Rightarrow> (null_deref s1, Waits)
        | Some t \<Rightarrow>
            let s2 = set_error t RT_EOK s1 in
            if mtx_owner (get_mutex a s2) = Some t
            then (upd_mutex a (\<lambda>m. m\<lparr>mtx_hold := mtx_hold m + 1\<rparr>) s2, Returns RT_EOK)
            else mutex_acquire a t time s2)"

definition mutex_take_resumed :: "addr \<Rightarrow> tid \<Rightarrow> rt_int32_t \<Rightarrow> kstate \<Rightarrow> kstate \<times> rt_err_t outcome" where
  "mutex_take_resumed a t time s =
    (if th_error (thr s t) \<noteq> RT_EOK then
       if th_error (thr s t) = - RT_EINTR then mutex_acquire a t time s
       else (s, Returns (th_error (thr s t)))
     else (s, Returns RT_EOK))"

text \<open>What the last release of an owner does: restore its priority, then hand over or free.\<close>

definition mutex_pass_on :: "addr \<Rightarrow> tid \<Rightarrow> kstate \<Rightarrow> kstate" where
  "mutex_pass_on a t s =
    (let orig = mtx_original_priority (get_mutex a s);
         s1 = (if orig \<noteq> th_current_priority (thr s t)
               then fst (rt_thread_control t (RT_THREAD_CTRL_CHANGE_PRIORITY orig) s) else s)
     in case tq s1 (MutexQ a) of
          w # _ \<Rightarrow>
            rt_schedule (rt_ipc_list_resume (MutexQ a)
              (upd_mutex a (\<lambda>m. m\<lparr>mtx_owner := Some w,
                 mtx_original_priority := th_current_priority (thr s1 w), mtx_hold := mtx_hold m + 1\<rparr>) s1))
        | [] \<Rightarrow> upd_mutex a (\<lambda>m. m\<lparr>mtx_value := mtx_value m + 1, mtx_owner := None,
                 mtx_original_priority := 0xff\<rparr>) s1)"

definition rt_mutex_release :: "addr \<Rightarrow> kstate \<Rightarrow> kstate \<times> rt_err_t" where
  "rt_mutex_release a s =
    (let s0 = RT_ASSERT (obj_type_ok (ObjMutex a) RT_Object_Class_Mutex s) s;
         s1 = RT_DEBUG_IN_THREAD_CONTEXT s0
     in case rt_thread_self s1 of
          None \<Rightarrow> (null_deref s1, RT_EOK)
        | Some t \<Rightarrow>
            if mtx_owner (get_mutex a s1) \<noteq> Some t then (set_error t (- RT_ERROR) s1, - RT_ERROR)
            else
              let s2 = upd_mutex a (\<lambda>m. m\<lparr>mtx_hold := mtx_hold m - 1\<rparr>) s1
              in (if mtx_hold (get_mutex a s2) = 0 then mutex_pass_on a t s2 else s2, RT_EOK))"

definition rt_mutex_control :: "addr \<Rightarrow> ipc_cmd \<Rightarrow> kstate \<Rightarrow> kstate \<times> rt_err_t" where
  "rt_mutex_control a cmd s =
    (RT_ASSERT (obj_type_ok (ObjMutex a) RT_Object_Class_Mutex s) s, - RT_ERROR)"

section \<open>The store of mutexes\<close>

interpretation mtx: object_store get_mutex upd_mutex
proof
  show "get_mutex a s' = get_mutex a s" if "iview s' = iview s" for s' s a
    using iviewD(2) [OF that] by (simp add: get_mutex_def)
qed (simp_all add: get_mutex_def upd_mutex_def sview_def)

lemmas mtx_store [simp] = mtx.get_kernel mtx.get_upd mtx.get_upd_other mtx.upd_inv mtx.upd_fields

text \<open>Changing a priority, and the fields it leaves alone.\<close>

lemma iview_change_priority [simp]:
  "iview (fst (rt_thread_control t (RT_THREAD_CTRL_CHANGE_PRIORITY p) s)) = iview s"
  by (simp add: rt_thread_control_def Let_def)

lemma change_priority_effect:
  "rt_current_thread (fst (rt_thread_control t (RT_THREAD_CTRL_CHANGE_PRIORITY p) s)) = rt_current_thread s"
  "u \<noteq> t \<Longrightarrow> thr (fst (rt_thread_control t (RT_THREAD_CTRL_CHANGE_PRIORITY p) s)) u = thr s u"
  "th_current_priority (thr (fst (rt_thread_control t (RT_THREAD_CTRL_CHANGE_PRIORITY p) s)) t) = p"
  by (simp_all add: rt_thread_control_def Let_def)

lemma change_priority_waiting:
  assumes "sched_inv s" "wait_head h"
  shows "tq (fst (rt_thread_control t (RT_THREAD_CTRL_CHANGE_PRIORITY p) s)) h = tq s h"
proof -
  let ?s = "RT_ASSERT (thread_type_ok t s) s"
  have "t \<notin> set (tq s h)" if "tstat (thr s t) = RT_THREAD_READY"
    using that assms linked_stat [of "{}" "{}" s t h] by (auto simp: sched_inv_def wait_head_def)
  then show ?thesis
    using assms(2) by (auto simp: rt_thread_control_def Let_def rt_schedule_insert_thread_def
        list_insert_before_def)
qed

lemma change_priority_stat:
  assumes "rt_current_thread s \<noteq> Some t \<or> tstat (thr s t) \<noteq> RT_THREAD_READY"
  shows "tstat (thr (fst (rt_thread_control t (RT_THREAD_CTRL_CHANGE_PRIORITY p) s)) u) = tstat (thr s u)"
  using assms by (auto simp: rt_thread_control_def Let_def rt_schedule_insert_thread_def
        list_insert_before_def)

lemma get_change_priority [simp]:
  "get_mutex a (fst (rt_thread_control t (RT_THREAD_CTRL_CHANGE_PRIORITY p) s)) = get_mutex a s"
  by (rule mtx.get_iview) simp

lemma current_not_ready:
  "sched_inv s \<Longrightarrow> rt_current_thread s = Some t \<Longrightarrow> tstat (thr s t) \<noteq> RT_THREAD_READY"
  by (auto simp: sched_inv_def sched_inv_on_def state_inv_def)

section \<open>Ownership\<close>

definition mutex_inv :: "addr \<Rightarrow> kstate \<Rightarrow> bool" where
  "mutex_inv a s \<longleftrightarrow>
    (case mtx_owner (get_mutex a s) of
       None \<Rightarrow> mtx_value (get_mutex a s) = 1 \<and> mtx_hold (get_mutex a s) = 0 \<and> tq s (MutexQ a) = []
     | Some t \<Rightarrow> mtx_value (get_mutex a s) = 0 \<and> mtx_hold (get_mutex a s) \<noteq> 0 \<and>
         t \<notin> set (tq s (MutexQ a)) \<and> unat (mtx_original_priority (get_mutex a s)) < 32)"

lemma mutex_inv_cong:
  assumes "get_mutex a s' = get_mutex a s" "tq s' (MutexQ a) = tq s (MutexQ a)"
  shows "mutex_inv a s' = mutex_inv a s"
  by (simp only: mutex_inv_def assms)

lemma inherit_priority_facts:
  assumes inv: "sched_inv s" and st: "tstat (thr s t) = RT_THREAD_RUNNING"
    "rt_current_thread s = Some t" and ne: "t \<noteq> ow"
  shows "sched_inv (inherit_priority t ow s)" "get_mutex a (inherit_priority t ow s) = get_mutex a s"
    "wait_head h \<Longrightarrow> tq (inherit_priority t ow s) h = tq s h"
    "thr (inherit_priority t ow s) t = thr s t"
    "rt_current_thread (inherit_priority t ow s) = rt_current_thread s"
    "th_current_priority (thr (inherit_priority t ow s) ow) \<le> th_current_priority (thr s t)"
    "tmview (inherit_priority t ow s) = tmview s"
proof -
  have p: "prio_of (thr s t) < 32" using current_running_prio [OF inv] st by simp
  show "sched_inv (inherit_priority t ow s)"
    using inv p by (simp add: inherit_priority_def rt_thread_control_inv)
  show "get_mutex a (inherit_priority t ow s) = get_mutex a s" by (simp add: inherit_priority_def)
  show "tq (inherit_priority t ow s) h = tq s h" if "wait_head h"
    using change_priority_waiting [OF inv that] by (simp add: inherit_priority_def)
  show "thr (inherit_priority t ow s) t = thr s t"
    "rt_current_thread (inherit_priority t ow s) = rt_current_thread s"
    "th_current_priority (thr (inherit_priority t ow s) ow) \<le> th_current_priority (thr s t)"
    using ne by (simp_all add: inherit_priority_def change_priority_effect not_less)
  show "tmview (inherit_priority t ow s) = tmview s"
    by (simp add: inherit_priority_def rt_thread_control_def Let_def)
qed

lemma mutex_acquire_ok:
  assumes inv: "sched_inv s" and m: "mutex_inv a s"
    and cur: "rt_current_thread s = Some t" "tstat (thr s t) = RT_THREAD_RUNNING"
    and ne: "mtx_owner (get_mutex a s) \<noteq> Some t" and hard: "\<not> soft_timer (ThreadTimer t) s"
  shows "sched_inv (fst (mutex_acquire a t time s))" "mutex_inv a (fst (mutex_acquire a t time s))"
proof -
  have "sched_inv (fst (mutex_acquire a t time s)) \<and> mutex_inv a (fst (mutex_acquire a t time s))"
  proof (cases "mtx_owner (get_mutex a s)")
    case None
    then show ?thesis
      using m inv current_running_prio [OF inv, of t] cur
      by (simp add: mutex_acquire_def mutex_inv_def)
  next
    case (Some ow)
    with ne have ne: "t \<noteq> ow" by auto
    note ih = inherit_priority_facts [OF inv cur(2,1) ne]
    have h: "\<not> soft_timer (ThreadTimer t) (inherit_priority t ow s)"
      using hard soft_timer_tmview [OF ih(7)] by simp
    have c: "rt_current_thread (inherit_priority t ow s) = Some t"
      "tstat (thr (inherit_priority t ow s) t) = RT_THREAD_RUNNING" using ih(4,5) cur by simp_all
    note w = wait_block_tq [OF ih(1) c h, of "MutexQ a" "MutexQ a", simplified]
    show ?thesis
      using Some m inv ih(2) ih(3) [of "MutexQ a"] w(1,2) ne
      by (auto simp: mutex_acquire_def Let_def mutex_inv_def set_error_inv
          dest!: set_wait_insert [THEN subsetD])
  qed
  then show "sched_inv (fst (mutex_acquire a t time s))" "mutex_inv a (fst (mutex_acquire a t time s))"
    by simp_all
qed

lemma rt_mutex_take_ok:
  assumes inv: "sched_inv s" and m: "mutex_inv a s"
    and cur: "rt_current_thread s = Some t" "tstat (thr s t) = RT_THREAD_RUNNING"
    and nest: "mtx_owner (get_mutex a s) = Some t \<Longrightarrow> mtx_hold (get_mutex a s) \<noteq> 0xFF"
    and hard: "\<not> soft_timer (ThreadTimer t) s"
  shows "sched_inv (fst (rt_mutex_take a time s)) \<and> mutex_inv a (fst (rt_mutex_take a time s))"
proof -
  define s0 where "s0 = RT_DEBUG_IN_THREAD_CONTEXT s"
  define s1 where "s1 = RT_ASSERT (obj_type_ok (ObjMutex a) RT_Object_Class_Mutex s0) s0"
  define s2 where "s2 = set_error t RT_EOK s1"
  have i: "sched_inv s2" "mutex_inv a s2"
    using inv m mutex_inv_cong [of a s2 s] by (simp_all add: s2_def s1_def s0_def)
  have c: "rt_current_thread s2 = Some t" "tstat (thr s2 t) = RT_THREAD_RUNNING"
    "get_mutex a s2 = get_mutex a s" "objs s2 = objs s"
    using cur by (simp_all add: s2_def s1_def s0_def)
  have h: "\<not> soft_timer (ThreadTimer t) s2" using hard soft_timer_objs [OF c(4)] by simp
  have self: "rt_thread_self s1 = Some t" using cur by (simp add: s1_def s0_def rt_thread_self_def)
  have eq: "rt_mutex_take a time s = (if mtx_owner (get_mutex a s2) = Some t
      then (upd_mutex a (\<lambda>m. m\<lparr>mtx_hold := mtx_hold m + 1\<rparr>) s2, Returns RT_EOK)
      else mutex_acquire a t time s2)"
    unfolding rt_mutex_take_def Let_def s0_def [symmetric] s1_def [symmetric] self option.case
      s2_def [symmetric] ..
  have "x + 1 \<noteq> 0" if "x \<noteq> 0xFF" for x :: rt_uint8_t
  proof
    assume "x + 1 = 0"
    then have "x = - 1" by (simp add: eq_neg_iff_add_eq_0)
    then show False using that by simp
  qed
  then show ?thesis
    unfolding eq using i c nest mutex_acquire_ok [OF i(1,2) c(1,2) _ h]
    by (auto simp: mutex_inv_def)
qed

lemma restore_priority_facts:
  assumes inv: "sched_inv s" and cur: "rt_current_thread s = Some t" and p: "unat p < 32"
  defines "s1 \<equiv> (if p \<noteq> th_current_priority (thr s t)
               then fst (rt_thread_control t (RT_THREAD_CTRL_CHANGE_PRIORITY p) s) else s)"
  shows "sched_inv s1" "get_mutex a s1 = get_mutex a s" "wait_head h \<Longrightarrow> tq s1 h = tq s h"
    "u \<noteq> t \<Longrightarrow> thr s1 u = thr s u" "th_current_priority (thr s1 t) = p"
    "rt_current_thread s1 = Some t"
  using inv p cur change_priority_waiting [OF inv]
  by (simp_all add: s1_def change_priority_effect rt_thread_control_inv)

text \<open>
  Handing over: the first waiter becomes the owner, at its own priority, and is made ready;
  the old owner runs on at the priority it had when it took the mutex.
\<close>

lemma mutex_pass_on_ok:
  assumes inv: "sched_inv s" and cur: "rt_current_thread s = Some t"
    and p: "unat (mtx_original_priority (get_mutex a s)) < 32"
    and m: "t \<notin> set (tq s (MutexQ a))" "mtx_value (get_mutex a s) = 0" "mtx_hold (get_mutex a s) = 0"
  shows "sched_inv (mutex_pass_on a t s)" "mutex_inv a (mutex_pass_on a t s)"
    "mtx_owner (get_mutex a (mutex_pass_on a t s)) =
      (case tq s (MutexQ a) of [] \<Rightarrow> None | w # _ \<Rightarrow> Some w)"
    "tq (mutex_pass_on a t s) (MutexQ a) = tl (tq s (MutexQ a))"
    "th_current_priority (thr (mutex_pass_on a t s) t) = mtx_original_priority (get_mutex a s)"
proof -
  let ?p = "mtx_original_priority (get_mutex a s)"
  define s1 where "s1 = (if ?p \<noteq> th_current_priority (thr s t)
               then fst (rt_thread_control t (RT_THREAD_CTRL_CHANGE_PRIORITY ?p) s) else s)"
  note f = restore_priority_facts [OF inv cur p, folded s1_def]
  have q: "tq s1 (MutexQ a) = tq s (MutexQ a)" by (rule f(3)) simp
  note eq = mutex_pass_on_def [of a t s, unfolded Let_def, folded s1_def]
  have "sched_inv (mutex_pass_on a t s) \<and> mutex_inv a (mutex_pass_on a t s) \<and>
    mtx_owner (get_mutex a (mutex_pass_on a t s)) = (case tq s (MutexQ a) of [] \<Rightarrow> None | w # _ \<Rightarrow> Some w) \<and>
    tq (mutex_pass_on a t s) (MutexQ a) = tl (tq s (MutexQ a)) \<and>
    th_current_priority (thr (mutex_pass_on a t s) t) = ?p"
  proof (cases "tq s (MutexQ a)")
    case Nil
    then show ?thesis using f m q unfolding eq by (simp add: mutex_inv_def)
  next
    case (Cons w ws)
    define s2 where "s2 = upd_mutex a (\<lambda>m. m\<lparr>mtx_owner := Some w,
      mtx_original_priority := th_current_priority (thr s1 w), mtx_hold := mtx_hold m + 1\<rparr>) s1"
    have i2: "sched_inv s2" using f(1) by (simp add: s2_def)
    have q2: "tq s2 (MutexQ a) = w # ws" using q Cons by (simp add: s2_def)
    have "tstat (thr s2 w) = RT_THREAD_SUSPEND"
      using linked_stat [of "{}" "{}" s2 w "MutexQ a"] i2 q2 by (simp add: sched_inv_def)
    then have pw: "prio_of (thr s1 w) < 32" using current_running_prio [OF i2] by (simp add: s2_def)
    have d: "w \<notin> set ws" using distinct_tq [OF i2, of "MutexQ a"] q2 by simp
    note r = rt_ipc_list_resume_effect [OF i2 q2]
    have i3: "sched_inv (rt_ipc_list_resume (MutexQ a) s2)" by (rule rt_ipc_list_resume_inv [OF i2])
    have e: "mutex_pass_on a t s = rt_schedule (rt_ipc_list_resume (MutexQ a) s2)"
      unfolding eq s2_def using q Cons by simp
    have t: "tq (mutex_pass_on a t s) (MutexQ a) = ws"
      unfolding e using rt_schedule_waiting [OF i3, of "MutexQ a"] r(1) by simp
    have g: "get_mutex a (mutex_pass_on a t s) = get_mutex a s2" unfolding e by simp
    have "th_current_priority (thr (rt_ipc_list_resume (MutexQ a) s2) t) = th_current_priority (thr s1 t)"
      using q2 by (simp add: rt_ipc_list_resume_def rt_thread_resume_def Let_def s2_def list_remove_def)
    then show ?thesis
      using g t d pw m(2,3) f(1,2,5) Cons i3
      by (simp add: mutex_inv_def s2_def [symmetric] e rt_schedule_inv_any) (simp add: s2_def)
  qed
  then show "sched_inv (mutex_pass_on a t s)" "mutex_inv a (mutex_pass_on a t s)"
    "mtx_owner (get_mutex a (mutex_pass_on a t s)) =
      (case tq s (MutexQ a) of [] \<Rightarrow> None | w # _ \<Rightarrow> Some w)"
    "tq (mutex_pass_on a t s) (MutexQ a) = tl (tq s (MutexQ a))"
    "th_current_priority (thr (mutex_pass_on a t s) t) = ?p" by simp_all
qed

text \<open>The call of \<open>rt_mutex_release\<close> without its checks.\<close>

lemma rt_mutex_release_eq:
  assumes "rt_current_thread s = Some t"
  obtains s1 where "sview s1 = sview s" "iview s1 = iview s" "tmview s1 = tmview s"
    "rt_mutex_release a s = (if mtx_owner (get_mutex a s) \<noteq> Some t then (set_error t (- RT_ERROR) s1, - RT_ERROR)
      else (if mtx_hold (get_mutex a s) - 1 = 0
            then mutex_pass_on a t (upd_mutex a (\<lambda>m. m\<lparr>mtx_hold := mtx_hold m - 1\<rparr>) s1)
            else upd_mutex a (\<lambda>m. m\<lparr>mtx_hold := mtx_hold m - 1\<rparr>) s1, RT_EOK))"
proof
  let ?s1 = "RT_DEBUG_IN_THREAD_CONTEXT (RT_ASSERT (obj_type_ok (ObjMutex a) RT_Object_Class_Mutex s) s)"
  show "sview ?s1 = sview s" "iview ?s1 = iview s" by simp_all
  show "tmview ?s1 = tmview s"
    by (simp add: RT_DEBUG_IN_THREAD_CONTEXT_def RT_DEBUG_NOT_IN_INTERRUPT_def)
  show "rt_mutex_release a s = (if mtx_owner (get_mutex a s) \<noteq> Some t then (set_error t (- RT_ERROR) ?s1, - RT_ERROR)
      else (if mtx_hold (get_mutex a s) - 1 = 0
            then mutex_pass_on a t (upd_mutex a (\<lambda>m. m\<lparr>mtx_hold := mtx_hold m - 1\<rparr>) ?s1)
            else upd_mutex a (\<lambda>m. m\<lparr>mtx_hold := mtx_hold m - 1\<rparr>) ?s1, RT_EOK))"
    using assms by (simp add: rt_mutex_release_def Let_def rt_thread_self_def)
qed

lemma rt_mutex_release_ok:
  assumes inv: "sched_inv s" and m: "mutex_inv a s" and cur: "rt_current_thread s = Some t"
  shows "sched_inv (fst (rt_mutex_release a s)) \<and> mutex_inv a (fst (rt_mutex_release a s))"
proof -
  obtain s1 where s1: "sview s1 = sview s" "iview s1 = iview s"
    and eq: "rt_mutex_release a s = (if mtx_owner (get_mutex a s) \<noteq> Some t then (set_error t (- RT_ERROR) s1, - RT_ERROR)
      else (if mtx_hold (get_mutex a s) - 1 = 0
            then mutex_pass_on a t (upd_mutex a (\<lambda>m. m\<lparr>mtx_hold := mtx_hold m - 1\<rparr>) s1)
            else upd_mutex a (\<lambda>m. m\<lparr>mtx_hold := mtx_hold m - 1\<rparr>) s1, RT_EOK))"
    using rt_mutex_release_eq [OF cur] by blast
  have i: "sched_inv s1" by (rule sched_inv_frame [OF s1(1) inv])
  have g: "get_mutex a s1 = get_mutex a s" by (rule mtx.get_iview [OF s1(2)])
  have q: "tq s1 = tq s" "rt_current_thread s1 = Some t" using sviewD [OF s1(1)] cur by simp_all
  have m1: "mutex_inv a s1" using m mutex_inv_cong [OF g] q by simp
  show ?thesis
  proof (cases "mtx_owner (get_mutex a s) = Some t")
    case True
    let ?s2 = "upd_mutex a (\<lambda>m. m\<lparr>mtx_hold := mtx_hold m - 1\<rparr>) s1"
    have "mtx_hold (get_mutex a s) - 1 \<noteq> 0 \<Longrightarrow> mutex_inv a ?s2"
      using m1 g True by (simp add: mutex_inv_def)
    moreover have "mtx_hold (get_mutex a s) - 1 = 0 \<Longrightarrow>
        sched_inv (mutex_pass_on a t ?s2) \<and> mutex_inv a (mutex_pass_on a t ?s2)"
      using mutex_pass_on_ok(1,2) [of ?s2 t a] i m1 g True q by (simp add: mutex_inv_def)
    ultimately show ?thesis using True i unfolding eq by simp
  next
    case False
    have "mutex_inv a (set_error t e s1)" for e using m1 mutex_inv_cong [of a "set_error t e s1" s1] by simp
    with False i show ?thesis unfolding eq by simp
  qed
qed

text \<open>The last release of an owner: the first waiter owns the mutex and the priority is restored.\<close>

lemma rt_mutex_release_last:
  assumes inv: "sched_inv s" and m: "mutex_inv a s" and cur: "rt_current_thread s = Some t"
    and own: "mtx_owner (get_mutex a s) = Some t" "mtx_hold (get_mutex a s) = 1"
  defines "s' \<equiv> fst (rt_mutex_release a s)"
  shows "mtx_owner (get_mutex a s') = (case tq s (MutexQ a) of [] \<Rightarrow> None | w # _ \<Rightarrow> Some w)"
    "tq s' (MutexQ a) = tl (tq s (MutexQ a))"
    "th_current_priority (thr s' t) = mtx_original_priority (get_mutex a s)"
    "snd (rt_mutex_release a s) = RT_EOK"
proof -
  obtain s1 where s1: "sview s1 = sview s" "iview s1 = iview s"
    and eq: "rt_mutex_release a s = (if mtx_owner (get_mutex a s) \<noteq> Some t then (set_error t (- RT_ERROR) s1, - RT_ERROR)
      else (if mtx_hold (get_mutex a s) - 1 = 0
            then mutex_pass_on a t (upd_mutex a (\<lambda>m. m\<lparr>mtx_hold := mtx_hold m - 1\<rparr>) s1)
            else upd_mutex a (\<lambda>m. m\<lparr>mtx_hold := mtx_hold m - 1\<rparr>) s1, RT_EOK))"
    using rt_mutex_release_eq [OF cur] by blast
  let ?s2 = "upd_mutex a (\<lambda>m. m\<lparr>mtx_hold := mtx_hold m - 1\<rparr>) s1"
  have g: "get_mutex a s1 = get_mutex a s" by (rule mtx.get_iview [OF s1(2)])
  have q: "tq s1 = tq s" "rt_current_thread s1 = Some t" using sviewD [OF s1(1)] cur by simp_all
  have "sched_inv ?s2" using sched_inv_frame [OF s1(1) inv] by simp
  note p = mutex_pass_on_ok [OF this, of t a]
  have s': "s' = mutex_pass_on a t ?s2" "snd (rt_mutex_release a s) = RT_EOK"
    using own unfolding s'_def eq by simp_all
  show "mtx_owner (get_mutex a s') = (case tq s (MutexQ a) of [] \<Rightarrow> None | w # _ \<Rightarrow> Some w)"
    "tq s' (MutexQ a) = tl (tq s (MutexQ a))"
    "th_current_priority (thr s' t) = mtx_original_priority (get_mutex a s)"
    "snd (rt_mutex_release a s) = RT_EOK"
    using p(3-5) q g m own s' by (simp_all add: mutex_inv_def)
qed

text \<open>A thread that has to wait lifts the owner to its own priority, at least.\<close>

lemma rt_mutex_take_inherits:
  assumes inv: "sched_inv s" and m: "mutex_inv a s"
    and cur: "rt_current_thread s = Some t" "tstat (thr s t) = RT_THREAD_RUNNING"
    and own: "mtx_owner (get_mutex a s) = Some ow" "ow \<noteq> t" and time: "time \<noteq> 0"
    and hard: "\<not> soft_timer (ThreadTimer t) s"
  defines "s' \<equiv> fst (rt_mutex_take a time s)"
  shows "snd (rt_mutex_take a time s) = Waits"
    "th_current_priority (thr s' ow) \<le> th_current_priority (thr s t)"
    "tq s' (MutexQ a) = wait_insert (obj_flag (objs s (ObjMutex a)))
      ((\<lambda>u. th_current_priority (thr s u))(ow := min (th_current_priority (thr s ow)) (th_current_priority (thr s t))))
      t (tq s (MutexQ a))"
proof -
  define s0 where "s0 = RT_DEBUG_IN_THREAD_CONTEXT s"
  define s1 where "s1 = RT_ASSERT (obj_type_ok (ObjMutex a) RT_Object_Class_Mutex s0) s0"
  define s2 where "s2 = set_error t RT_EOK s1"
  define s3 where "s3 = inherit_priority t ow s2"
  have i: "sched_inv s2" using inv by (simp add: s2_def s1_def s0_def)
  have c: "rt_current_thread s2 = Some t" "tstat (thr s2 t) = RT_THREAD_RUNNING"
    "get_mutex a s2 = get_mutex a s" "objs s2 = objs s" "tq s2 = tq s"
    "\<And>u. th_current_priority (thr s2 u) = th_current_priority (thr s u)"
    using cur by (simp_all add: s2_def s1_def s0_def)
  have ne: "t \<noteq> ow" using own by auto
  note ih = inherit_priority_facts [OF i c(2,1) ne, folded s3_def]
  have c3: "rt_current_thread s3 = Some t" "tstat (thr s3 t) = RT_THREAD_RUNNING"
    "tq s3 (MutexQ a) = tq s (MutexQ a)" "objs s3 = objs s"
    using ih(3) [of "MutexQ a"] ih(4,5) c tmviewD(4) [OF ih(7)] by simp_all
  have "\<not> soft_timer (ThreadTimer t) s3" using hard soft_timer_objs [OF c3(4)] by simp
  note w = wait_block_tq [OF ih(1) c3(1,2) this, of "MutexQ a" "MutexQ a", simplified]
  have pr: "(\<lambda>u. th_current_priority (thr s3 u)) =
      (\<lambda>u. th_current_priority (thr s u))(ow := min (th_current_priority (thr s ow)) (th_current_priority (thr s t)))"
    using c(6) by (auto simp: s3_def inherit_priority_def fun_eq_iff change_priority_effect min_def)
  have self: "rt_thread_self s1 = Some t" using cur by (simp add: s1_def s0_def rt_thread_self_def)
  have eq: "rt_mutex_take a time s =
      (rt_schedule (wait_on (MutexQ a) t (obj_flag (objs s3 (ObjMutex a))) time s3), Waits)"
    using m own time unfolding rt_mutex_take_def Let_def s0_def [symmetric] s1_def [symmetric] self option.case
      s2_def [symmetric] mutex_acquire_def
    by (simp add: c(3) s3_def mutex_inv_def)
  show "snd (rt_mutex_take a time s) = Waits" by (simp add: eq)
  show "th_current_priority (thr s' ow) \<le> th_current_priority (thr s t)"
    using ih(6) c(6) w(3) by (simp add: s'_def eq)
  show "tq s' (MutexQ a) = wait_insert (obj_flag (objs s (ObjMutex a)))
      ((\<lambda>u. th_current_priority (thr s u))(ow := min (th_current_priority (thr s ow)) (th_current_priority (thr s t))))
      t (tq s (MutexQ a))"
    using w(1) c3 pr by (simp add: s'_def eq)
qed

text \<open>A thread that does not own the mutex cannot release it.\<close>

lemma rt_mutex_release_foreign:
  assumes cur: "rt_current_thread s = Some t" and own: "mtx_owner (get_mutex a s) \<noteq> Some t"
  shows "snd (rt_mutex_release a s) = - RT_ERROR" "get_mutex a (fst (rt_mutex_release a s)) = get_mutex a s"
    "tq (fst (rt_mutex_release a s)) = tq s" "th_error (thr (fst (rt_mutex_release a s)) t) = - RT_ERROR"
proof -
  obtain s1 where s1: "sview s1 = sview s" "iview s1 = iview s"
    "rt_mutex_release a s = (set_error t (- RT_ERROR) s1, - RT_ERROR)"
    using rt_mutex_release_eq [OF cur] own by (metis (full_types))
  then show "snd (rt_mutex_release a s) = - RT_ERROR" "get_mutex a (fst (rt_mutex_release a s)) = get_mutex a s"
    "tq (fst (rt_mutex_release a s)) = tq s" "th_error (thr (fst (rt_mutex_release a s)) t) = - RT_ERROR"
    using mtx.get_iview [OF s1(2), of a] sviewD(2) [OF s1(1)] by (simp_all add: set_error_def)
qed

end
