(* ===== verification/Event.thy ===== *)
theory Event
  imports Mutex
begin

text \<open>
  Event sets (\<^verbatim>\<open>rt-thread/src/ipc.c\<close>): threads wait for all or any of a set of bits, and sending
  bits wakes every waiter whose condition holds at its turn. The results: sending refines a
  scan of the waiting list, and no thread is left waiting whose condition the set satisfies.
\<close>

section \<open>Operations\<close>

definition upd_event :: "addr \<Rightarrow> (rt_event \<Rightarrow> rt_event) \<Rightarrow> kstate \<Rightarrow> kstate" where
  "upd_event a f s = s\<lparr>events := (events s)(a := f (events s a))\<rparr>"

definition get_event :: "addr \<Rightarrow> kstate \<Rightarrow> rt_event" where
  "get_event a s = events s a"

definition rt_event_init :: "addr \<Rightarrow> cstr \<Rightarrow> rt_uint8_t \<Rightarrow> kstate \<Rightarrow> kstate \<times> rt_err_t" where
  "rt_event_init a name flag s =
    (let s1 = rt_object_init (ObjEvent a) RT_Object_Class_Event name s;
         s2 = rt_ipc_object_init (EventQ a) (set_obj_flag (ObjEvent a) flag s1)
     in (upd_event a (\<lambda>e. e\<lparr>ev_set := 0\<rparr>) s2, RT_EOK))"

definition rt_event_detach :: "addr \<Rightarrow> kstate \<Rightarrow> kstate \<times> rt_err_t" where
  "rt_event_detach a s =
    (let s1 = RT_ASSERT (obj_type_ok (ObjEvent a) RT_Object_Class_Event s) s;
         s2 = RT_ASSERT (rt_object_is_systemobject (ObjEvent a) s1) s1
     in (rt_object_detach (ObjEvent a) (rt_ipc_list_resume_all (EventQ a) s2), RT_EOK))"

definition rt_event_create :: "cstr \<Rightarrow> rt_uint8_t \<Rightarrow> kstate \<Rightarrow> kstate \<times> addr option" where
  "rt_event_create name flag s =
    (case rt_object_allocate RT_Object_Class_Event name (RT_DEBUG_NOT_IN_INTERRUPT s) of
       (s1, None) \<Rightarrow> (s1, None)
     | (s1, Some a) \<Rightarrow>
         (upd_event a (\<lambda>e. e\<lparr>ev_set := 0\<rparr>)
            (rt_ipc_object_init (EventQ a) (set_obj_flag (ObjEvent a) flag s1)), Some a))"

definition rt_event_delete :: "addr \<Rightarrow> kstate \<Rightarrow> kstate \<times> rt_err_t" where
  "rt_event_delete a s =
    (let s0 = RT_ASSERT (obj_type_ok (ObjEvent a) RT_Object_Class_Event s) s;
         s1 = RT_ASSERT (\<not> rt_object_is_systemobject (ObjEvent a) s0) s0;
         s2 = RT_DEBUG_NOT_IN_INTERRUPT s1
     in (rt_object_delete (ObjEvent a) (rt_ipc_list_resume_all (EventQ a) s2), RT_EOK))"

definition event_match :: "rt_uint8_t \<Rightarrow> rt_uint32_t \<Rightarrow> rt_uint32_t \<Rightarrow> bool" where
  "event_match option wanted evset \<longleftrightarrow>
    (if option AND RT_EVENT_FLAG_AND \<noteq> 0 then wanted AND evset = wanted
     else if option AND RT_EVENT_FLAG_OR \<noteq> 0 then wanted AND evset \<noteq> 0
     else False)"

text \<open>The body of the loop over the waiting list; the flag is \<^verbatim>\<open>need_schedule\<close>.\<close>

definition event_visit :: "addr \<Rightarrow> tid \<Rightarrow> kstate \<times> bool \<Rightarrow> kstate \<times> bool" where
  "event_visit a t sb =
    (let s = fst sb;
         info = th_event_info (thr s t);
         evset = ev_set (get_event a s)
     in if event_match info (th_event_set (thr s t)) evset then
          let s1 = (if info AND RT_EVENT_FLAG_AND \<noteq> 0 then s
                    else upd_thr t (\<lambda>th. th\<lparr>th_event_set := th_event_set th AND evset\<rparr>) s);
              s2 = (if info AND RT_EVENT_FLAG_CLEAR \<noteq> 0
                    then upd_event a (\<lambda>e. e\<lparr>ev_set := ev_set e AND NOT (th_event_set (thr s1 t))\<rparr>) s1
                    else s1)
          in (fst (rt_thread_resume t s2), True)
        else sb)"

text \<open>
  The loop reads the next node before it resumes a thread, and only the thread it visits
  leaves the list, so it visits the threads that wait when it starts.
\<close>

definition rt_event_send :: "addr \<Rightarrow> rt_uint32_t \<Rightarrow> kstate \<Rightarrow> kstate \<times> rt_err_t" where
  "rt_event_send a evset s =
    (let s1 = RT_ASSERT (obj_type_ok (ObjEvent a) RT_Object_Class_Event s) s in
     if evset = 0 then (s1, - RT_ERROR)
     else
       let s2 = upd_event a (\<lambda>e. e\<lparr>ev_set := ev_set e OR evset\<rparr>) s1;
           (s3, need_schedule) = fold (event_visit a) (tq s2 (EventQ a)) (s2, False)
       in (if need_schedule then rt_schedule s3 else s3, RT_EOK))"

definition rt_event_recv ::
    "addr \<Rightarrow> rt_uint32_t \<Rightarrow> rt_uint8_t \<Rightarrow> rt_int32_t \<Rightarrow> kstate \<Rightarrow>
     kstate \<times> (rt_err_t \<times> rt_uint32_t option) outcome" where
  "rt_event_recv a evset option timeout s =
    (let s0 = RT_DEBUG_IN_THREAD_CONTEXT s;
         s1 = RT_ASSERT (obj_type_ok (ObjEvent a) RT_Object_Class_Event s0) s0
     in if evset = 0 then (s1, Returns (- RT_ERROR, None))
        else case rt_thread_self s1 of
          None \<Rightarrow> (null_deref s1, Waits)
        | Some t \<Rightarrow>
            let s2 = RT_ASSERT (option AND RT_EVENT_FLAG_AND \<noteq> 0 \<or> option AND RT_EVENT_FLAG_OR \<noteq> 0)
                       (set_error t RT_EOK s1);
                cur = ev_set (get_event a s2)
            in if event_match option evset cur then
                 (if option AND RT_EVENT_FLAG_CLEAR \<noteq> 0
                  then upd_event a (\<lambda>e. e\<lparr>ev_set := ev_set e AND NOT evset\<rparr>) s2 else s2,
                  Returns (RT_EOK, Some (cur AND evset)))
               else if timeout = 0 then
                 (set_error t (- RT_ETIMEOUT) s2, Returns (- RT_ETIMEOUT, None))
               else
                 let s3 = upd_thr t (\<lambda>th. th\<lparr>th_event_set := evset, th_event_info := option\<rparr>) s2;
                     s4 = wait_on (EventQ a) t (obj_flag (objs s3 (ObjEvent a))) timeout s3
                 in (rt_schedule s4, Waits))"

definition event_recv_resumed :: "tid \<Rightarrow> kstate \<Rightarrow> rt_err_t \<times> rt_uint32_t option" where
  "event_recv_resumed t s =
    (if th_error (thr s t) \<noteq> RT_EOK then (th_error (thr s t), None)
     else (th_error (thr s t), Some (th_event_set (thr s t))))"

definition rt_event_control :: "addr \<Rightarrow> ipc_cmd \<Rightarrow> kstate \<Rightarrow> kstate \<times> rt_err_t" where
  "rt_event_control a cmd s =
    (let s1 = RT_ASSERT (obj_type_ok (ObjEvent a) RT_Object_Class_Event s) s in
     case cmd of
       RT_IPC_CMD_RESET _ \<Rightarrow>
         (rt_schedule (upd_event a (\<lambda>e. e\<lparr>ev_set := 0\<rparr>) (rt_ipc_list_resume_all (EventQ a) s1)), RT_EOK)
     | Ipc_cmd_other \<Rightarrow> (s1, - RT_ERROR))"

section \<open>The store of events\<close>

interpretation ev: object_store get_event upd_event
proof
  show "get_event a s' = get_event a s" if "iview s' = iview s" for s' s a
    using iviewD(3) [OF that] by (simp add: get_event_def)
qed (simp_all add: get_event_def upd_event_def sview_def)

lemmas ev_store [simp] = ev.get_kernel ev.get_upd ev.get_upd_other ev.upd_inv ev.upd_fields

section \<open>The scheduler invariant\<close>

lemma tstat_event_data [simp]:
  "tstat (th\<lparr>th_event_set := v, th_event_info := i\<rparr>) = tstat th"
  by (simp add: tstat_def)

lemma event_visit_inv: "sched_inv (fst sb) \<Longrightarrow> sched_inv (fst (event_visit a t sb))"
  by (simp add: event_visit_def Let_def rt_thread_resume_inv upd_thr_data_inv)

lemma fold_event_visit_inv: "sched_inv (fst sb) \<Longrightarrow> sched_inv (fst (fold (event_visit a) ts sb))"
  by (induction ts arbitrary: sb) (simp_all add: event_visit_inv)

lemma rt_event_send_inv: "sched_inv s \<Longrightarrow> sched_inv (fst (rt_event_send a v s))"
  by (simp add: rt_event_send_def Let_def case_prod_beta rt_schedule_inv_any fold_event_visit_inv)

lemma rt_event_recv_inv:
  assumes "sched_inv s" "thread_context s"
  shows "sched_inv (fst (rt_event_recv a v opt time s))"
  using assms
  by (auto simp: rt_event_recv_def Let_def thread_context_def rt_thread_self_def upd_thr_data_inv
      intro!: rt_schedule_inv_any wait_on_inv split: option.splits)

lemma rt_event_control_inv: "sched_inv s \<Longrightarrow> sched_inv (fst (rt_event_control a cmd s))"
  by (simp add: rt_event_control_def Let_def rt_schedule_inv_any rt_ipc_list_resume_all_inv
      split: ipc_cmd.split)

section \<open>Sending as a scan of the waiting list\<close>

text \<open>
  The abstract send: given what each thread waits for, the scan of the list computes the set
  of bits left, the threads that keep waiting, in their order, and the threads that are woken.
\<close>

fun spec_scan :: "(tid \<Rightarrow> rt_uint8_t \<times> rt_uint32_t) \<Rightarrow> rt_uint32_t \<Rightarrow> tid list \<Rightarrow>
    rt_uint32_t \<times> tid list \<times> tid list" where
  "spec_scan want v [] = (v, [], [])"
| "spec_scan want v (t # ts) =
    (case want t of (opt, w) \<Rightarrow>
       if event_match opt w v then
         let got = (if opt AND RT_EVENT_FLAG_AND \<noteq> 0 then w else w AND v);
             v' = (if opt AND RT_EVENT_FLAG_CLEAR \<noteq> 0 then v AND NOT got else v);
             (v'', waiting, woken) = spec_scan want v' ts
         in (v'', waiting, t # woken)
       else
         let (v'', waiting, woken) = spec_scan want v ts in (v'', t # waiting, woken))"

definition want_of :: "kstate \<Rightarrow> tid \<Rightarrow> rt_uint8_t \<times> rt_uint32_t" where
  "want_of s t = (th_event_info (thr s t), th_event_set (thr s t))"

text \<open>A resume changes the state of one thread only, and takes it off its list.\<close>

lemma thread_resume_other:
  "u \<noteq> t \<Longrightarrow> thr (fst (rt_thread_resume t s)) u = thr s u"
  "rt_current_thread (fst (rt_thread_resume t s)) = rt_current_thread s"
  by (simp_all add: rt_thread_resume_def Let_def list_remove_def)

lemma tq_thread_resume:
  assumes "tstat (thr s t) = RT_THREAD_SUSPEND" "wait_head h"
  shows "tq (fst (rt_thread_resume t s)) h = remove1 t (tq s h)"
  using assms by (auto simp: rt_thread_resume_def Let_def rt_schedule_insert_thread_def
      list_insert_before_def list_remove_def)

lemma event_visit_wake:
  fixes b :: bool
  assumes "event_match (fst (want_of s t)) (snd (want_of s t)) (ev_set (get_event a s))"
    and st: "tstat (thr s t) = RT_THREAD_SUSPEND"
  defines "got \<equiv> (if fst (want_of s t) AND RT_EVENT_FLAG_AND \<noteq> 0 then snd (want_of s t)
     else snd (want_of s t) AND ev_set (get_event a s))"
  defines "s' \<equiv> fst (event_visit a t (s, b))"
  shows "ev_set (get_event a s') = (if fst (want_of s t) AND RT_EVENT_FLAG_CLEAR \<noteq> 0
      then ev_set (get_event a s) AND NOT got else ev_set (get_event a s))"
    "u \<noteq> t \<Longrightarrow> thr s' u = thr s u"
    "wait_head h \<Longrightarrow> tq s' h = remove1 t (tq s h)"
    "snd (event_visit a t (s, b)) = True"
  using assms(1,2) unfolding s'_def got_def
  by (simp_all add: event_visit_def Let_def want_of_def thread_resume_other tq_thread_resume)

lemma event_visit_skip:
  "\<not> event_match (fst (want_of s t)) (snd (want_of s t)) (ev_set (get_event a s)) \<Longrightarrow>
    event_visit a t (s, b) = (s, b)"
  by (simp add: event_visit_def want_of_def Let_def)

lemma spec_scan_cong:
  "(\<And>t. t \<in> set ts \<Longrightarrow> want' t = want t) \<Longrightarrow> spec_scan want' v ts = spec_scan want v ts"
  by (induction ts arbitrary: v) (simp_all add: Let_def split: prod.split)

lemma fold_event_visit_spec:
  assumes "sched_inv s" "tq s (EventQ a) = pre @ ts" "distinct (pre @ ts)"
    "spec_scan (want_of s) (ev_set (get_event a s)) ts = (v, waiting, woken)"
  shows "ev_set (get_event a (fst (fold (event_visit a) ts (s, b)))) = v \<and>
    tq (fst (fold (event_visit a) ts (s, b))) (EventQ a) = pre @ waiting \<and>
    snd (fold (event_visit a) ts (s, b)) = (b \<or> woken \<noteq> []) \<and>
    (\<forall>u. u \<notin> set woken \<longrightarrow> want_of (fst (fold (event_visit a) ts (s, b))) u = want_of s u)"
  using assms
proof (induction ts arbitrary: s pre b v waiting woken)
  case (Cons t ts)
  let ?m = "event_match (fst (want_of s t)) (snd (want_of s t)) (ev_set (get_event a s))"
  have st: "tstat (thr s t) = RT_THREAD_SUSPEND"
    using linked_stat [of "{}" "{}" s t "EventQ a"] Cons.prems(1,2) by (simp add: sched_inv_def)
  show ?case
  proof (cases ?m)
    case True
    define s' where "s' = fst (event_visit a t (s, b))"
    note w = event_visit_wake [OF True st, where b = b, folded s'_def]
    have e: "event_visit a t (s, b) = (s', True)" using w(4) by (simp add: s'_def prod_eq_iff)
    have i: "sched_inv s'" using event_visit_inv [of "(s, b)"] Cons.prems(1) by (simp add: s'_def)
    have q: "tq s' (EventQ a) = pre @ ts"
      using w(3) [of "EventQ a"] Cons.prems(2,3) by (simp add: remove1_append)
    have wt: "want_of s' u = want_of s u" if "u \<noteq> t" for u
      using w(2) [OF that] by (simp add: want_of_def)
    have want: "want_of s' u = want_of s u" if "u \<in> set ts" for u
      using that Cons.prems(3) by (intro wt) auto
    obtain v' wt wk where sc: "spec_scan (want_of s) (ev_set (get_event a s')) ts = (v', wt, wk)"
      by (metis prod_cases3)
    then have "v' = v" "wt = waiting" "woken = t # wk"
      using Cons.prems(4) True w(1) by (auto simp: Let_def split_beta prod_eq_iff)
    then show ?thesis
      using Cons.IH [OF i q, of v' wt wk True] sc spec_scan_cong [of ts "want_of s'"] want wt Cons.prems(3) e
      by simp
  next
    case False
    obtain v' wt wk where sc: "spec_scan (want_of s) (ev_set (get_event a s)) ts = (v', wt, wk)"
      by (metis prod_cases3)
    then have "v' = v" "waiting = t # wt" "wk = woken"
      using Cons.prems(4) False by (auto simp: Let_def split_beta prod_eq_iff)
    then show ?thesis
      using Cons.IH [of s "pre @ [t]" v' wt wk b] Cons.prems(1,2,3) sc event_visit_skip [OF False]
      by simp
  qed
qed simp

text \<open>What the scan leaves waiting cannot be satisfied by the bits that are left.\<close>

lemma event_match_mono:
  assumes "event_match opt w (v AND m)"
  shows "event_match opt w v"
proof (cases "opt AND RT_EVENT_FLAG_AND = 0")
  case True
  then show ?thesis using assms by (auto simp: event_match_def simp flip: and.assoc split: if_splits)
next
  case False
  then have "w AND (v AND m) = w" using assms by (simp add: event_match_def)
  then have "w AND v = w" by (metis and.assoc and.commute and.left_commute and.idem)
  then show ?thesis using False by (simp add: event_match_def)
qed

lemma spec_scan_rest:
  assumes "spec_scan want v ts = (v', waiting, woken)"
  shows "(\<exists>m. v' = v AND m) \<and> (\<forall>t\<in>set waiting. \<not> event_match (fst (want t)) (snd (want t)) v') \<and>
    set waiting \<union> set woken = set ts \<and> (distinct ts \<longrightarrow> set waiting \<inter> set woken = {})"
  using assms
proof (induction ts arbitrary: v v' waiting woken)
  case Nil
  then show ?case by (auto intro: exI [of _ "- 1"])
next
  case (Cons t ts)
  obtain opt w where w: "want t = (opt, w)" by fastforce
  define v1 where "v1 = (if event_match opt w v \<and> opt AND RT_EVENT_FLAG_CLEAR \<noteq> 0
    then v AND NOT (if opt AND RT_EVENT_FLAG_AND \<noteq> 0 then w else w AND v) else v)"
  have m1: "\<exists>m. v1 = v AND m" by (auto simp: v1_def intro: exI [of _ "- 1"])
  obtain v2 wt wk where sc: "spec_scan want v1 ts = (v2, wt, wk)" by (metis prod_cases3)
  note ih = Cons.IH [OF sc]
  have r: "v' = v2" "waiting = (if event_match opt w v then wt else t # wt)"
    "woken = (if event_match opt w v then t # wk else wk)"
    using Cons.prems sc w by (auto simp: v1_def Let_def split: if_splits prod.splits)
  obtain m m' where mm: "v1 = v AND m" "v2 = v1 AND m'" using m1 ih by blast
  then have v2: "v2 = v AND (m AND m')" by (simp add: and.assoc)
  then have "\<exists>m. v' = v AND m" using r(1) by blast
  moreover have "\<not> event_match opt w v \<Longrightarrow> \<not> event_match opt w v2"
    using event_match_mono v2 by blast
  moreover have "\<forall>t\<in>set wt. \<not> event_match (fst (want t)) (snd (want t)) v2" "set wt \<union> set wk = set ts"
    "distinct ts \<Longrightarrow> set wt \<inter> set wk = {}"
    using ih by blast+
  ultimately show ?case using r w by (auto split: if_splits)
qed

section \<open>No satisfied thread is left waiting\<close>

definition event_inv :: "addr \<Rightarrow> kstate \<Rightarrow> bool" where
  "event_inv a s \<longleftrightarrow> (\<forall>t\<in>set (tq s (EventQ a)).
    \<not> event_match (fst (want_of s t)) (snd (want_of s t)) (ev_set (get_event a s)))"

lemma schedule_event_data [simp]:
  "th_event_set (thr (rt_schedule s) u) = th_event_set (thr s u)"
  "th_event_info (thr (rt_schedule s) u) = th_event_info (thr s u)"
proof -
  have i: "th_event_set (thr (rt_schedule_insert_thread t s) u) = th_event_set (thr s u)"
    "th_event_info (thr (rt_schedule_insert_thread t s) u) = th_event_info (thr s u)" for t s
    by (auto simp: rt_schedule_insert_thread_def list_insert_before_def Let_def set_stat_def)
  show "th_event_set (thr (rt_schedule s) u) = th_event_set (thr s u)"
    "th_event_info (thr (rt_schedule s) u) = th_event_info (thr s u)"
    by (auto simp: rt_schedule_def Let_def i set_stat_def split: prod.split option.split)
qed

lemma want_of_frame [simp]:
  "want_of (rt_schedule s) = want_of s" "want_of (set_error t e s) = want_of s"
  "want_of (RT_ASSERT b s) = want_of s" "want_of (upd_event a f s) = want_of s"
  "want_of (RT_DEBUG_IN_THREAD_CONTEXT s) = want_of s"
  by (simp_all add: want_of_def fun_eq_iff set_error_def)

lemma rt_event_send_scan:
  fixes a :: addr
  assumes inv: "sched_inv s" and v: "v \<noteq> 0"
  defines "s' \<equiv> fst (rt_event_send a v s)"
    and "r \<equiv> spec_scan (want_of s) (ev_set (get_event a s) OR v) (tq s (EventQ a))"
  shows "ev_set (get_event a s') = fst r" "tq s' (EventQ a) = fst (snd r)"
    "u \<notin> set (snd (snd r)) \<Longrightarrow> want_of s' u = want_of s u" "snd (rt_event_send a v s) = RT_EOK"
proof -
  define s2 where "s2 = upd_event a (\<lambda>e. e\<lparr>ev_set := ev_set e OR v\<rparr>)
    (RT_ASSERT (obj_type_ok (ObjEvent a) RT_Object_Class_Event s) s)"
  define f where "f = fold (event_visit a) (tq s2 (EventQ a)) (s2, False)"
  have i: "sched_inv s2" using inv by (simp add: s2_def)
  have q: "tq s2 (EventQ a) = tq s (EventQ a)" "want_of s2 = want_of s"
    "ev_set (get_event a s2) = ev_set (get_event a s) OR v"
    by (simp_all add: s2_def want_of_def fun_eq_iff)
  obtain v' wt wk where r: "r = (v', wt, wk)" by (metis prod_cases3)
  have sp: "ev_set (get_event a (fst f)) = v' \<and> tq (fst f) (EventQ a) = wt \<and>
      snd f = (False \<or> wk \<noteq> []) \<and> (\<forall>u. u \<notin> set wk \<longrightarrow> want_of (fst f) u = want_of s2 u)"
    using fold_event_visit_spec [OF i, of a "[]" "tq s2 (EventQ a)" v' wt wk False] r q
      distinct_tq [OF i, of "EventQ a"] by (simp add: f_def r_def)
  have fi: "sched_inv (fst f)" using fold_event_visit_inv [of "(s2, False)"] i by (simp add: f_def)
  have eq: "rt_event_send a v s = (if snd f then rt_schedule (fst f) else fst f, RT_EOK)"
    using v by (simp add: rt_event_send_def Let_def f_def s2_def case_prod_beta)
  show "ev_set (get_event a s') = fst r" "tq s' (EventQ a) = fst (snd r)"
    "u \<notin> set (snd (snd r)) \<Longrightarrow> want_of s' u = want_of s u" "snd (rt_event_send a v s) = RT_EOK"
    using sp r q rt_schedule_waiting [OF fi, of "EventQ a"] unfolding s'_def eq by simp_all
qed

lemma rt_event_send_ok:
  assumes inv: "sched_inv s" and e: "event_inv a s"
  shows "event_inv a (fst (rt_event_send a v s))"
proof (cases "v = 0")
  case True
  then show ?thesis using e by (simp add: rt_event_send_def event_inv_def want_of_def)
next
  case False
  obtain v' wt wk where r: "spec_scan (want_of s) (ev_set (get_event a s) OR v) (tq s (EventQ a)) = (v', wt, wk)"
    by (metis prod_cases3)
  note sc = rt_event_send_scan [OF inv False, where a = a, unfolded r, simplified]
  have "set wt \<inter> set wk = {}" using spec_scan_rest [OF r] distinct_tq [OF inv] by blast
  then have "want_of (fst (rt_event_send a v s)) t = want_of s t" if "t \<in> set wt" for t
    using sc(3) [of t] that by blast
  then show ?thesis
    using sc(1,2) spec_scan_rest [OF r] by (simp add: event_inv_def)
qed


lemma thread_suspend_data:
  "th_event_set (thr (fst (rt_thread_suspend t s)) u) = th_event_set (thr s u)"
  "th_event_info (thr (fst (rt_thread_suspend t s)) u) = th_event_info (thr s u)"
  by (simp_all add: rt_thread_suspend_def Let_def set_stat_def)

lemma want_of_wait_on:
  "\<not> soft_timer (ThreadTimer t) s \<Longrightarrow> want_of (wait_on h t flag time s) = want_of s"
  using sviewD(1) [OF wait_on_sview, of t s]
  by (simp add: want_of_def fun_eq_iff rt_ipc_list_suspend_def Let_def list_insert_before_def
      thread_suspend_data)

lemma rt_event_recv_ok:
  assumes inv: "sched_inv s" and e: "event_inv a s"
    and cur: "rt_current_thread s = Some t" "tstat (thr s t) = RT_THREAD_RUNNING"
    and hard: "\<not> soft_timer (ThreadTimer t) s"
  shows "event_inv a (fst (rt_event_recv a v opt time s))"
proof -
  define s1 where "s1 = RT_ASSERT (obj_type_ok (ObjEvent a) RT_Object_Class_Event
    (RT_DEBUG_IN_THREAD_CONTEXT s)) (RT_DEBUG_IN_THREAD_CONTEXT s)"
  define s2 where "s2 = RT_ASSERT (opt AND RT_EVENT_FLAG_AND \<noteq> 0 \<or> opt AND RT_EVENT_FLAG_OR \<noteq> 0)
    (set_error t RT_EOK s1)"
  define s3 where "s3 = upd_thr t (\<lambda>th. th\<lparr>th_event_set := v, th_event_info := opt\<rparr>) s2"
  have w2: "want_of s2 = want_of s" by (simp add: s2_def s1_def)
  have "tq s2 = tq s" "get_event a s2 = get_event a s" "objs s2 = objs s"
    "rt_current_thread s2 = Some t" "tstat (thr s2 t) = RT_THREAD_RUNNING" "sched_inv s2"
    using cur inv by (simp_all add: s2_def s1_def)
  note v2 = w2 this
  have i3: "sched_inv s3" using v2(7) by (simp add: s3_def upd_thr_data_inv)
  have un: "t \<notin> set (tq s (EventQ a))"
    using running_unlinked [of "{}" "{}" s t] inv cur by (simp add: sched_inv_def)
  have w3: "want_of s3 = (want_of s)(t := (opt, v))" using v2(1) by (auto simp: s3_def want_of_def fun_eq_iff)
  have h3: "\<not> soft_timer (ThreadTimer t) s3" using hard v2(4) soft_timer_objs [of s2 s] by (simp add: s3_def)
  have c3: "rt_current_thread s3 = Some t" "tstat (thr s3 t) = RT_THREAD_RUNNING" "tq s3 = tq s"
    "get_event a s3 = get_event a s"
    using v2 by (simp_all add: s3_def)
  have "event_inv a (rt_schedule (wait_on (EventQ a) t fl time s3))"
    if "\<not> event_match opt v (ev_set (get_event a s))" for fl
    using that e un w3 c3(3,4) wait_block_tq(1) [OF i3 c3(1,2) h3, of "EventQ a" "EventQ a" fl time]
    by (auto simp: event_inv_def want_of_wait_on [OF h3] dest!: set_wait_insert [THEN subsetD])
  moreover have "event_inv a (set_error t x s2)" "event_inv a s1" "event_inv a s2" for x
    using e v2 by (simp_all add: event_inv_def s1_def)
  moreover have "event_inv a (upd_event a (\<lambda>e. e\<lparr>ev_set := ev_set e AND m\<rparr>) s2)" for m
    using e v2 event_match_mono by (auto simp: event_inv_def)
  moreover have self: "rt_thread_self s1 = Some t" using cur by (simp add: s1_def rt_thread_self_def)
  have eq: "rt_event_recv a v opt time s = (if v = 0 then (s1, Returns (- RT_ERROR, None))
    else if event_match opt v (ev_set (get_event a s2)) then
      (if opt AND RT_EVENT_FLAG_CLEAR \<noteq> 0
       then upd_event a (\<lambda>e. e\<lparr>ev_set := ev_set e AND NOT v\<rparr>) s2 else s2,
       Returns (RT_EOK, Some (ev_set (get_event a s2) AND v)))
    else if time = 0 then (set_error t (- RT_ETIMEOUT) s2, Returns (- RT_ETIMEOUT, None))
    else (rt_schedule (wait_on (EventQ a) t (obj_flag (objs s3 (ObjEvent a))) time s3), Waits))"
    unfolding rt_event_recv_def Let_def s1_def [symmetric] self option.case s2_def [symmetric]
      s3_def [symmetric] ..
  ultimately show ?thesis using v2(3) unfolding eq by simp
qed

end
