(* ===== verification/Mailbox.thy ===== *)
theory Mailbox
  imports Event Fifo
begin

text \<open>
  Mailboxes (\<^verbatim>\<open>rt-thread/src/ipc.c\<close>): bounded queues of machine words in a circular buffer. Both
  \<^verbatim>\<open>rt_mb_send_wait\<close> and \<^verbatim>\<open>rt_mb_recv\<close> loop while they cannot proceed; a round of the loop that
  puts the thread to sleep ends with \<open>Waits\<close>, and the definition with suffix \<open>_resumed\<close> is the rest of
  the round and the next one, given the tick at which the wait began. The results: the buffer
  implements a bounded first-in first-out queue, for any sequence of operations.
\<close>

section \<open>The message buffer\<close>

definition mb_next :: "rt_uint16_t \<Rightarrow> rt_uint16_t \<Rightarrow> rt_uint16_t" where
  "mb_next offset sz = (if offset + 1 \<ge> sz then 0 else offset + 1)"

definition mb_put_msg :: "rt_uint32_t \<Rightarrow> rt_mailbox \<Rightarrow> rt_mailbox" where
  "mb_put_msg value m =
    m\<lparr>mb_msg_pool := (mb_msg_pool m)(unat (mb_in_offset m) := value),
      mb_in_offset := mb_next (mb_in_offset m) (mb_size m), mb_entry := mb_entry m + 1\<rparr>"

definition mb_get_msg :: "rt_mailbox \<Rightarrow> rt_uint32_t \<times> rt_mailbox" where
  "mb_get_msg m =
    (mb_msg_pool m (unat (mb_out_offset m)),
     m\<lparr>mb_out_offset := mb_next (mb_out_offset m) (mb_size m), mb_entry := mb_entry m - 1\<rparr>)"

section \<open>Operations\<close>

definition upd_mb :: "addr \<Rightarrow> (rt_mailbox \<Rightarrow> rt_mailbox) \<Rightarrow> kstate \<Rightarrow> kstate" where
  "upd_mb a f s = s\<lparr>mailboxes := (mailboxes s)(a := f (mailboxes s a))\<rparr>"

definition get_mb :: "addr \<Rightarrow> kstate \<Rightarrow> rt_mailbox" where
  "get_mb a s = mailboxes s a"

definition mb_reset :: "rt_mailbox \<Rightarrow> rt_mailbox" where
  "mb_reset m = m\<lparr>mb_entry := 0, mb_in_offset := 0, mb_out_offset := 0\<rparr>"

definition rt_mb_init ::
    "addr \<Rightarrow> cstr \<Rightarrow> addr \<Rightarrow> rt_size_t \<Rightarrow> rt_uint8_t \<Rightarrow> kstate \<Rightarrow> kstate \<times> rt_err_t" where
  "rt_mb_init a name msgpool sz flag s =
    (let s1 = rt_object_init (ObjMailBox a) RT_Object_Class_MailBox name s;
         s2 = rt_ipc_object_init (MailboxQ a) (set_obj_flag (ObjMailBox a) flag s1);
         s3 = upd_mb a (\<lambda>m. mb_reset (m\<lparr>mb_pool_addr := msgpool, mb_size := ucast sz\<rparr>)) s2
     in (rt_ipc_object_init (MailboxSendQ a) s3, RT_EOK))"

definition rt_mb_detach :: "addr \<Rightarrow> kstate \<Rightarrow> kstate \<times> rt_err_t" where
  "rt_mb_detach a s =
    (let s1 = RT_ASSERT (obj_type_ok (ObjMailBox a) RT_Object_Class_MailBox s) s;
         s2 = RT_ASSERT (rt_object_is_systemobject (ObjMailBox a) s1) s1;
         s3 = rt_ipc_list_resume_all (MailboxSendQ a) (rt_ipc_list_resume_all (MailboxQ a) s2)
     in (rt_object_detach (ObjMailBox a) s3, RT_EOK))"

definition rt_mb_create :: "cstr \<Rightarrow> rt_size_t \<Rightarrow> rt_uint8_t \<Rightarrow> kstate \<Rightarrow> kstate \<times> addr option" where
  "rt_mb_create name sz flag s =
    (case rt_object_allocate RT_Object_Class_MailBox name (RT_DEBUG_NOT_IN_INTERRUPT s) of
       (s1, None) \<Rightarrow> (s1, None)
     | (s1, Some a) \<Rightarrow>
         let s2 = rt_ipc_object_init (MailboxQ a) (set_obj_flag (ObjMailBox a) flag s1);
             s3 = upd_mb a (\<lambda>m. m\<lparr>mb_size := ucast sz\<rparr>) s2
         in case kernel_malloc (unat (mb_size (get_mb a s3)) * 4) s3 of
              (s4, None) \<Rightarrow> (rt_object_delete (ObjMailBox a) s4, None)
            | (s4, Some pool) \<Rightarrow>
                (rt_ipc_object_init (MailboxSendQ a)
                   (upd_mb a (\<lambda>m. mb_reset (m\<lparr>mb_pool_addr := pool\<rparr>)) s4), Some a))"

definition rt_mb_delete :: "addr \<Rightarrow> kstate \<Rightarrow> kstate \<times> rt_err_t" where
  "rt_mb_delete a s =
    (let s0 = RT_DEBUG_NOT_IN_INTERRUPT s;
         s1 = RT_ASSERT (obj_type_ok (ObjMailBox a) RT_Object_Class_MailBox s0) s0;
         s2 = RT_ASSERT (\<not> rt_object_is_systemobject (ObjMailBox a) s1) s1;
         s3 = rt_ipc_list_resume_all (MailboxSendQ a) (rt_ipc_list_resume_all (MailboxQ a) s2);
         s4 = kernel_free (Some (mb_pool_addr (get_mb a s3))) s3
     in (rt_object_delete (ObjMailBox a) s4, RT_EOK))"

text \<open>The timeout left after a wait that began at tick \<open>t0\<close>: signed, not below 0.\<close>

definition remaining_timeout :: "rt_int32_t \<Rightarrow> rt_tick_t \<Rightarrow> rt_tick_t \<Rightarrow> rt_int32_t" where
  "remaining_timeout timeout t0 now =
    (if sint timeout > 0 then
       let left = timeout - (now - t0) in if sint left < 0 then 0 else left
     else timeout)"

definition mb_send_loop :: "addr \<Rightarrow> rt_uint32_t \<Rightarrow> rt_int32_t \<Rightarrow> kstate \<Rightarrow> kstate \<times> rt_err_t outcome" where
  "mb_send_loop a value timeout s =
    (if mb_entry (get_mb a s) = mb_size (get_mb a s) then
       case rt_thread_self s of
         None \<Rightarrow> (null_deref s, Waits)
       | Some t \<Rightarrow>
           let s1 = set_error t RT_EOK s in
           if timeout = 0 then (s1, Returns (- RT_EFULL))
           else
             let s2 = RT_DEBUG_IN_THREAD_CONTEXT s1;
                 s3 = wait_on (MailboxSendQ a) t (obj_flag (objs s2 (ObjMailBox a))) timeout s2
             in (rt_schedule s3, Waits)
     else
       let s1 = upd_mb a (mb_put_msg value) s in
       if tq s1 (MailboxQ a) \<noteq> [] then (rt_schedule (rt_ipc_list_resume (MailboxQ a) s1), Returns RT_EOK)
       else (s1, Returns RT_EOK))"

definition rt_mb_send_wait :: "addr \<Rightarrow> rt_uint32_t \<Rightarrow> rt_int32_t \<Rightarrow> kstate \<Rightarrow> kstate \<times> rt_err_t outcome" where
  "rt_mb_send_wait a value timeout s =
    (let s1 = RT_ASSERT (obj_type_ok (ObjMailBox a) RT_Object_Class_MailBox s) s in
     if mb_entry (get_mb a s1) = mb_size (get_mb a s1) \<and> timeout = 0 then (s1, Returns (- RT_EFULL))
     else mb_send_loop a value timeout s1)"

definition mb_send_resumed ::
    "addr \<Rightarrow> rt_uint32_t \<Rightarrow> rt_int32_t \<Rightarrow> rt_tick_t \<Rightarrow> tid \<Rightarrow> kstate \<Rightarrow> kstate \<times> rt_err_t outcome" where
  "mb_send_resumed a value timeout t0 t s =
    (if th_error (thr s t) \<noteq> RT_EOK then (s, Returns (th_error (thr s t)))
     else mb_send_loop a value (remaining_timeout timeout t0 (rt_tick_get s)) s)"

definition rt_mb_send :: "addr \<Rightarrow> rt_uint32_t \<Rightarrow> kstate \<Rightarrow> kstate \<times> rt_err_t outcome" where
  "rt_mb_send a value s = rt_mb_send_wait a value 0 s"

definition mb_recv_loop ::
    "addr \<Rightarrow> rt_int32_t \<Rightarrow> kstate \<Rightarrow> kstate \<times> (rt_err_t \<times> rt_uint32_t option) outcome" where
  "mb_recv_loop a timeout s =
    (if mb_entry (get_mb a s) = 0 then
       case rt_thread_self s of
         None \<Rightarrow> (null_deref s, Waits)
       | Some t \<Rightarrow>
           let s1 = set_error t RT_EOK s in
           if timeout = 0 then (set_error t (- RT_ETIMEOUT) s1, Returns (- RT_ETIMEOUT, None))
           else
             let s2 = RT_DEBUG_IN_THREAD_CONTEXT s1;
                 s3 = wait_on (MailboxQ a) t (obj_flag (objs s2 (ObjMailBox a))) timeout s2
             in (rt_schedule s3, Waits)
     else
       let (value, m) = mb_get_msg (get_mb a s);
           s1 = upd_mb a (\<lambda>_. m) s
       in if tq s1 (MailboxSendQ a) \<noteq> []
          then (rt_schedule (rt_ipc_list_resume (MailboxSendQ a) s1), Returns (RT_EOK, Some value))
          else (s1, Returns (RT_EOK, Some value)))"

definition rt_mb_recv ::
    "addr \<Rightarrow> rt_int32_t \<Rightarrow> kstate \<Rightarrow> kstate \<times> (rt_err_t \<times> rt_uint32_t option) outcome" where
  "rt_mb_recv a timeout s =
    (let s1 = RT_ASSERT (obj_type_ok (ObjMailBox a) RT_Object_Class_MailBox s) s in
     if mb_entry (get_mb a s1) = 0 \<and> timeout = 0 then (s1, Returns (- RT_ETIMEOUT, None))
     else mb_recv_loop a timeout s1)"

definition mb_recv_resumed ::
    "addr \<Rightarrow> rt_int32_t \<Rightarrow> rt_tick_t \<Rightarrow> tid \<Rightarrow> kstate \<Rightarrow> kstate \<times> (rt_err_t \<times> rt_uint32_t option) outcome" where
  "mb_recv_resumed a timeout t0 t s =
    (if th_error (thr s t) \<noteq> RT_EOK then (s, Returns (th_error (thr s t), None))
     else mb_recv_loop a (remaining_timeout timeout t0 (rt_tick_get s)) s)"

definition rt_mb_control :: "addr \<Rightarrow> ipc_cmd \<Rightarrow> kstate \<Rightarrow> kstate \<times> rt_err_t" where
  "rt_mb_control a cmd s =
    (let s1 = RT_ASSERT (obj_type_ok (ObjMailBox a) RT_Object_Class_MailBox s) s in
     case cmd of
       RT_IPC_CMD_RESET _ \<Rightarrow>
         (rt_schedule (upd_mb a mb_reset
            (rt_ipc_list_resume_all (MailboxSendQ a) (rt_ipc_list_resume_all (MailboxQ a) s1))), RT_EOK)
     | Ipc_cmd_other \<Rightarrow> (s1, - RT_ERROR))"

section \<open>The buffer is a bounded queue\<close>

definition mb_wf :: "rt_mailbox \<Rightarrow> bool" where
  "mb_wf m \<longleftrightarrow> mb_entry m \<le> mb_size m \<and> mb_in_offset m < mb_size m \<and> mb_out_offset m < mb_size m \<and>
    unat (mb_in_offset m) = (unat (mb_out_offset m) + unat (mb_entry m)) mod unat (mb_size m)"

definition mb_contents :: "rt_mailbox \<Rightarrow> rt_uint32_t list" where
  "mb_contents m = circ (mb_msg_pool m) (unat (mb_size m)) (unat (mb_out_offset m)) (unat (mb_entry m))"

definition mb_cap :: "rt_mailbox \<Rightarrow> nat" where
  "mb_cap m = unat (mb_size m)"

lemma unat_mb_next:
  assumes "x < sz"
  shows "unat (mb_next x sz) = (unat x + 1) mod unat sz" "mb_next x sz < sz"
proof -
  have lt: "unat x < unat sz" using assms by (simp add: word_less_nat_alt)
  have s: "unat (x + 1) = unat x + 1" using unat_inc [OF assms] by simp
  show *: "unat (mb_next x sz) = (unat x + 1) mod unat sz"
    using next_index [OF lt] s by (simp add: mb_next_def word_le_nat_alt)
  show "mb_next x sz < sz"
    using lt unfolding word_less_nat_alt * by simp
qed

interpretation mbq: bounded_fifo mb_wf mb_contents mb_cap "\<lambda>_ _. True" mb_put_msg mb_get_msg
proof
  fix q :: rt_mailbox and x
  assume wf: "mb_wf q"
  then have le: "unat (mb_entry q) \<le> unat (mb_size q)"
    and o: "unat (mb_out_offset q) < unat (mb_size q)" "mb_out_offset q < mb_size q"
    and i: "mb_in_offset q < mb_size q"
      "unat (mb_in_offset q) = (unat (mb_out_offset q) + unat (mb_entry q)) mod unat (mb_size q)"
    by (simp_all add: mb_wf_def word_le_nat_alt word_less_nat_alt)
  show "length (mb_contents q) \<le> mb_cap q" using le by (simp add: mb_contents_def mb_cap_def)
  show "True = True" ..
  show "mb_wf (mb_put_msg x q)" "mb_contents (mb_put_msg x q) = mb_contents q @ [x]"
    "mb_cap (mb_put_msg x q) = mb_cap q" if "length (mb_contents q) < mb_cap q"
  proof -
    have lt: "mb_entry q < mb_size q" and ltn: "unat (mb_entry q) < unat (mb_size q)"
      using that by (simp_all add: mb_contents_def mb_cap_def word_less_nat_alt)
    show "mb_wf (mb_put_msg x q)"
      using unat_mb_next [OF i(1)] o i lt ltn unat_inc [OF lt]
      by (simp add: mb_wf_def mb_put_msg_def word_le_nat_alt mod_add_left_eq mod_Suc_eq)
    show "mb_contents (mb_put_msg x q) = mb_contents q @ [x]"
      using circ_put [OF ltn, of "mb_msg_pool q" "unat (mb_out_offset q)" x] unat_inc [OF lt] i(2)
      by (simp add: mb_contents_def mb_put_msg_def)
    show "mb_cap (mb_put_msg x q) = mb_cap q" by (simp add: mb_cap_def mb_put_msg_def)
  qed
  show "mb_wf (snd (mb_get_msg q))" "mb_contents q = fst (mb_get_msg q) # mb_contents (snd (mb_get_msg q))"
    "mb_cap (snd (mb_get_msg q)) = mb_cap q" if "mb_contents q \<noteq> []"
  proof -
    have ne: "mb_entry q \<noteq> 0" "0 < unat (mb_entry q)"
      using that by (simp_all add: mb_contents_def unat_gt_0)
    have idx: "((out + 1) mod sz + (n - 1)) mod sz = (out + n) mod sz" if "0 < n" for out sz n :: nat
    proof -
      have "((out + 1) mod sz + (n - 1)) mod sz = (out + 1 + (n - 1)) mod sz" by (rule mod_add_left_eq)
      then show ?thesis using that by simp
    qed
    show "mb_wf (snd (mb_get_msg q))"
      using unat_mb_next [OF o(2)] i le unat_dec [OF ne(1)] idx [OF ne(2)]
      by (simp add: mb_wf_def mb_get_msg_def word_le_nat_alt)
    show "mb_contents q = fst (mb_get_msg q) # mb_contents (snd (mb_get_msg q))"
      using circ_get [OF ne(2) o(1), of "mb_msg_pool q"] unat_mb_next [OF o(2)] unat_dec [OF ne(1)]
      by (simp add: mb_contents_def mb_get_msg_def)
    show "mb_cap (snd (mb_get_msg q)) = mb_cap q" by (simp add: mb_cap_def mb_get_msg_def)
  qed
qed

section \<open>The store of mailboxes\<close>

interpretation mb: object_store get_mb upd_mb
proof
  show "get_mb a s' = get_mb a s" if "iview s' = iview s" for s' s a
    using iviewD(4) [OF that] by (simp add: get_mb_def)
qed (simp_all add: get_mb_def upd_mb_def sview_def)

lemmas mb_store [simp] = mb.get_kernel mb.get_upd mb.get_upd_other mb.upd_inv mb.upd_fields

section \<open>The scheduler invariant\<close>

lemma mb_send_loop_inv:
  "sched_inv s \<Longrightarrow> thread_context s \<Longrightarrow> sched_inv (fst (mb_send_loop a v time s))"
  by (auto simp: mb_send_loop_def Let_def thread_context_def rt_thread_self_def
      intro!: rt_schedule_inv_any wait_on_inv rt_ipc_list_resume_inv split: option.splits)

lemma mb_recv_loop_inv:
  "sched_inv s \<Longrightarrow> thread_context s \<Longrightarrow> sched_inv (fst (mb_recv_loop a time s))"
  by (auto simp: mb_recv_loop_def Let_def thread_context_def rt_thread_self_def split_beta
      intro!: rt_schedule_inv_any wait_on_inv rt_ipc_list_resume_inv split: option.splits)

lemma thread_context_RT_ASSERT [simp]: "thread_context (RT_ASSERT b s) = thread_context s"
  by (simp add: thread_context_def split: option.split)

lemma rt_mb_send_wait_inv:
  "sched_inv s \<Longrightarrow> thread_context s \<Longrightarrow> sched_inv (fst (rt_mb_send_wait a v time s))"
  by (simp add: rt_mb_send_wait_def Let_def mb_send_loop_inv)

lemma rt_mb_recv_inv:
  "sched_inv s \<Longrightarrow> thread_context s \<Longrightarrow> sched_inv (fst (rt_mb_recv a time s))"
  by (simp add: rt_mb_recv_def Let_def mb_recv_loop_inv)

lemma rt_mb_control_inv: "sched_inv s \<Longrightarrow> sched_inv (fst (rt_mb_control a cmd s))"
  by (simp add: rt_mb_control_def Let_def rt_schedule_inv_any rt_ipc_list_resume_all_inv
      split: ipc_cmd.split)

section \<open>Sending and receiving\<close>

lemma mb_not_full: "mb_wf m \<Longrightarrow> length (mb_contents m) < mb_cap m \<longleftrightarrow> mb_entry m \<noteq> mb_size m"
  by (auto simp: mb_wf_def mb_contents_def mb_cap_def word_le_nat_alt le_less word_unat_eq_iff)

lemma mb_empty: "mb_contents m = [] \<longleftrightarrow> mb_entry m = 0"
  by (simp add: mb_contents_def unat_eq_zero)

text \<open>A send into a mailbox with room, and a receive from one with a message, never block.\<close>

lemma rt_mb_send_step:
  assumes "mb_entry (get_mb a s) \<noteq> mb_size (get_mb a s)"
  shows "get_mb a (fst (rt_mb_send_wait a v time s)) = mb_put_msg v (get_mb a s)"
    "snd (rt_mb_send_wait a v time s) = Returns RT_EOK"
  using assms by (simp_all add: rt_mb_send_wait_def mb_send_loop_def Let_def)

lemma rt_mb_recv_step:
  assumes "mb_entry (get_mb a s) \<noteq> 0"
  shows "get_mb a (fst (rt_mb_recv a time s)) = snd (mb_get_msg (get_mb a s))"
    "snd (rt_mb_recv a time s) = Returns (RT_EOK, Some (fst (mb_get_msg (get_mb a s))))"
  using assms by (simp_all add: rt_mb_recv_def mb_recv_loop_def Let_def split_beta)

text \<open>The kernel calls as queue operations: send, and receive with the value returned.\<close>

definition mb_recv_value :: "addr \<Rightarrow> kstate \<Rightarrow> rt_uint32_t \<times> kstate" where
  "mb_recv_value a s =
    (case rt_mb_recv a 0 s of
       (s', Returns (_, Some v)) \<Rightarrow> (v, s')
     | (s', _) \<Rightarrow> (0, s'))"

definition mb_send_value :: "addr \<Rightarrow> rt_uint32_t \<Rightarrow> kstate \<Rightarrow> kstate" where
  "mb_send_value a v s = fst (rt_mb_send a v s)"

interpretation mbk: bounded_fifo "\<lambda>s. mb_wf (get_mb a s)" "\<lambda>s. mb_contents (get_mb a s)"
  "\<lambda>s. mb_cap (get_mb a s)" "\<lambda>_ _. True" "mb_send_value a" "mb_recv_value a" for a :: addr
proof
  fix s v
  assume wf: "mb_wf (get_mb a s)"
  show "length (mb_contents (get_mb a s)) \<le> mb_cap (get_mb a s)" by (rule mbq.len_cap [OF wf])
  show "True = True" ..
  show "mb_wf (get_mb a (mb_send_value a v s))"
    "mb_contents (get_mb a (mb_send_value a v s)) = mb_contents (get_mb a s) @ [v]"
    "mb_cap (get_mb a (mb_send_value a v s)) = mb_cap (get_mb a s)"
    if "length (mb_contents (get_mb a s)) < mb_cap (get_mb a s)"
  proof -
    have "get_mb a (mb_send_value a v s) = mb_put_msg v (get_mb a s)"
      using that mb_not_full [OF wf] rt_mb_send_step(1) by (simp add: mb_send_value_def rt_mb_send_def)
    then show "mb_wf (get_mb a (mb_send_value a v s))"
      "mb_contents (get_mb a (mb_send_value a v s)) = mb_contents (get_mb a s) @ [v]"
      "mb_cap (get_mb a (mb_send_value a v s)) = mb_cap (get_mb a s)"
      using mbq.put_wf [OF wf that] mbq.put_contents [OF wf that] mbq.put_cap [OF wf that] by simp_all
  qed
  show "mb_wf (get_mb a (snd (mb_recv_value a s)))"
    "mb_contents (get_mb a s) = fst (mb_recv_value a s) # mb_contents (get_mb a (snd (mb_recv_value a s)))"
    "mb_cap (get_mb a (snd (mb_recv_value a s))) = mb_cap (get_mb a s)"
    if "mb_contents (get_mb a s) \<noteq> []"
  proof -
    have e: "mb_entry (get_mb a s) \<noteq> 0" using that mb_empty by simp
    have "rt_mb_recv a 0 s = (fst (rt_mb_recv a 0 s), Returns (RT_EOK, Some (fst (mb_get_msg (get_mb a s)))))"
      using rt_mb_recv_step(2) [OF e] by (simp add: prod_eq_iff)
    then have "fst (mb_recv_value a s) = fst (mb_get_msg (get_mb a s))"
      "get_mb a (snd (mb_recv_value a s)) = snd (mb_get_msg (get_mb a s))"
      unfolding mb_recv_value_def using rt_mb_recv_step(1) [OF e, of 0]
      by (metis (no_types, lifting) fst_conv snd_conv prod.case outcome.case(1) option.case(2))+
    then show "mb_wf (get_mb a (snd (mb_recv_value a s)))"
      "mb_contents (get_mb a s) = fst (mb_recv_value a s) # mb_contents (get_mb a (snd (mb_recv_value a s)))"
      "mb_cap (get_mb a (snd (mb_recv_value a s))) = mb_cap (get_mb a s)"
      using mbq.get_wf [OF wf that] mbq.get_contents [OF wf that] mbq.get_cap [OF wf that] by simp_all
  qed
qed

text \<open>Every outcome of a send and of a receive.\<close>


lemma mb_send_cases:
  assumes wf: "mb_wf (get_mb a s)"
  shows "if length (mb_contents (get_mb a s)) = mb_cap (get_mb a s)
      then snd (rt_mb_send a v s) = Returns (- RT_EFULL) \<and> get_mb a (fst (rt_mb_send a v s)) = get_mb a s
      else \<forall>time. snd (rt_mb_send_wait a v time s) = Returns RT_EOK \<and>
        mb_contents (get_mb a (fst (rt_mb_send_wait a v time s))) = mb_contents (get_mb a s) @ [v]"
proof (cases "mb_entry (get_mb a s) = mb_size (get_mb a s)")
  case True
  then have "length (mb_contents (get_mb a s)) = mb_cap (get_mb a s)" by (simp add: mb_contents_def mb_cap_def)
  then show ?thesis using True by (simp add: rt_mb_send_def rt_mb_send_wait_def)
next
  case False
  then have lt: "length (mb_contents (get_mb a s)) < mb_cap (get_mb a s)" using mb_not_full [OF wf] by simp
  then show ?thesis using rt_mb_send_step [OF False, of v] mbq.put_contents [OF wf lt, of v] by simp
qed

lemma mb_recv_cases:
  assumes wf: "mb_wf (get_mb a s)"
  shows "if mb_contents (get_mb a s) = []
      then snd (rt_mb_recv a 0 s) = Returns (- RT_ETIMEOUT, None) \<and> get_mb a (fst (rt_mb_recv a 0 s)) = get_mb a s
      else \<forall>time. snd (rt_mb_recv a time s) = Returns (RT_EOK, Some (hd (mb_contents (get_mb a s)))) \<and>
        mb_contents (get_mb a (fst (rt_mb_recv a time s))) = tl (mb_contents (get_mb a s))"
proof (cases "mb_contents (get_mb a s) = []")
  case True
  then have "mb_entry (get_mb a s) = 0" by (simp add: mb_empty)
  then show ?thesis using True by (simp add: rt_mb_recv_def)
next
  case False
  then have e: "mb_entry (get_mb a s) \<noteq> 0" by (simp add: mb_empty)
  have c: "hd (mb_contents (get_mb a s)) = fst (mb_get_msg (get_mb a s))"
    "tl (mb_contents (get_mb a s)) = mb_contents (snd (mb_get_msg (get_mb a s)))"
    by (subst mbq.get_contents [OF wf False], simp)+
  show ?thesis unfolding c using False rt_mb_recv_step [OF e] by simp
qed

end
