(* ===== verification/MessageQueue.thy ===== *)
theory MessageQueue
  imports Mailbox
begin

text \<open>
  Message queues (\<^verbatim>\<open>rt-thread/src/ipc.c\<close>): a pool of equally sized messages, threaded into a queue
  and a free list. The nodes of the pool are numbered from 0. The calls open and close
  interrupts several times, so they are built from one definition per critical section
  (taking a node off the free list, filling it, linking it, \<dots>); between two of them a node
  belongs to neither list. The invariant accounts for such nodes, so it also holds when calls
  are interleaved at these points. The results: nodes are never lost or linked twice, messages
  leave in the order they were sent, and urgent ones leave first.
\<close>

section \<open>The pool of messages\<close>

text \<open>The loop of \<^verbatim>\<open>rt_mq_init\<close> that threads all nodes into the free list.\<close>

fun mq_build_free :: "nat \<Rightarrow> nat \<Rightarrow> rt_messagequeue \<Rightarrow> rt_messagequeue" where
  "mq_build_free temp 0 m = m"
| "mq_build_free temp (Suc k) m =
    mq_build_free (temp + 1) k
      (m\<lparr>mq_next := (mq_next m)(temp := msg_queue_free m), msg_queue_free := Some temp\<rparr>)"

definition mq_setup :: "rt_messagequeue \<Rightarrow> rt_messagequeue" where
  "mq_setup m =
    (let m1 = m\<lparr>msg_queue_head := None, msg_queue_tail := None, msg_queue_free := None\<rparr>
     in (mq_build_free 0 (unat (mq_max_msgs m1)) m1)\<lparr>mq_entry := 0\<rparr>)"

definition mq_take_free :: "nat \<Rightarrow> rt_messagequeue \<Rightarrow> rt_messagequeue" where
  "mq_take_free n m = m\<lparr>msg_queue_free := mq_next m n\<rparr>"

definition mq_fill :: "nat \<Rightarrow> rt_uint8_t list \<Rightarrow> rt_messagequeue \<Rightarrow> rt_messagequeue" where
  "mq_fill n buf m =
    m\<lparr>mq_data := (mq_data m)(n := (\<lambda>i. if i < length buf then buf ! i else mq_data m n i))\<rparr>"

definition mq_clear_next :: "nat \<Rightarrow> rt_messagequeue \<Rightarrow> rt_messagequeue" where
  "mq_clear_next n m = m\<lparr>mq_next := (mq_next m)(n := None)\<rparr>"

definition mq_link_tail :: "nat \<Rightarrow> rt_messagequeue \<Rightarrow> rt_messagequeue" where
  "mq_link_tail n m =
    (let m1 = (case msg_queue_tail m of
                 Some t \<Rightarrow> m\<lparr>mq_next := (mq_next m)(t := Some n)\<rparr> | None \<Rightarrow> m);
         m2 = m1\<lparr>msg_queue_tail := Some n\<rparr>;
         m3 = (if msg_queue_head m2 = None then m2\<lparr>msg_queue_head := Some n\<rparr> else m2)
     in m3\<lparr>mq_entry := mq_entry m3 + 1\<rparr>)"

definition mq_link_head :: "nat \<Rightarrow> rt_messagequeue \<Rightarrow> rt_messagequeue" where
  "mq_link_head n m =
    (let m1 = m\<lparr>mq_next := (mq_next m)(n := msg_queue_head m), msg_queue_head := Some n\<rparr>;
         m2 = (if msg_queue_tail m1 = None then m1\<lparr>msg_queue_tail := Some n\<rparr> else m1)
     in m2\<lparr>mq_entry := mq_entry m2 + 1\<rparr>)"

definition mq_unlink_head :: "nat \<Rightarrow> rt_messagequeue \<Rightarrow> rt_messagequeue" where
  "mq_unlink_head n m =
    (let m1 = m\<lparr>msg_queue_head := mq_next m n\<rparr>
     in if msg_queue_tail m1 = Some n then m1\<lparr>msg_queue_tail := None\<rparr> else m1)"

definition mq_dec_entry :: "rt_messagequeue \<Rightarrow> rt_messagequeue" where
  "mq_dec_entry m = m\<lparr>mq_entry := mq_entry m - 1\<rparr>"

definition mq_read :: "nat \<Rightarrow> rt_size_t \<Rightarrow> rt_messagequeue \<Rightarrow> rt_uint8_t list" where
  "mq_read n sz m = map (mq_data m n) [0..<(if sz > ucast (mq_msg_size m) then unat (mq_msg_size m) else unat sz)]"

definition mq_give_back :: "nat \<Rightarrow> rt_messagequeue \<Rightarrow> rt_messagequeue" where
  "mq_give_back n m =
    m\<lparr>mq_next := (mq_next m)(n := msg_queue_free m), msg_queue_free := Some n\<rparr>"

text \<open>The loop of \<^verbatim>\<open>RT_IPC_CMD_RESET\<close>, with fuel; \<open>None\<close> when it runs out.\<close>

fun mq_drain :: "nat \<Rightarrow> rt_messagequeue \<Rightarrow> rt_messagequeue option" where
  "mq_drain 0 m = (case msg_queue_head m of None \<Rightarrow> Some m | Some n \<Rightarrow> None)"
| "mq_drain (Suc fuel) m =
    (case msg_queue_head m of
       None \<Rightarrow> Some m
     | Some n \<Rightarrow> mq_drain fuel (mq_give_back n (mq_unlink_head n m)))"

section \<open>Operations\<close>

definition upd_mq :: "addr \<Rightarrow> (rt_messagequeue \<Rightarrow> rt_messagequeue) \<Rightarrow> kstate \<Rightarrow> kstate" where
  "upd_mq a f s = s\<lparr>messagequeues := (messagequeues s)(a := f (messagequeues s a))\<rparr>"

definition get_mq :: "addr \<Rightarrow> kstate \<Rightarrow> rt_messagequeue" where
  "get_mq a s = messagequeues s a"

definition MQ_HEADER :: rt_uint32_t where "MQ_HEADER = 4"

definition rt_mq_init ::
    "addr \<Rightarrow> cstr \<Rightarrow> addr \<Rightarrow> rt_size_t \<Rightarrow> rt_size_t \<Rightarrow> rt_uint8_t \<Rightarrow> kstate \<Rightarrow> kstate \<times> rt_err_t" where
  "rt_mq_init a name msgpool msg_size pool_size flag s =
    (let s1 = rt_object_init (ObjMessageQueue a) RT_Object_Class_MessageQueue name s;
         s2 = rt_ipc_object_init (MqQ a) (set_obj_flag (ObjMessageQueue a) flag s1);
         s3 = upd_mq a (\<lambda>m. m\<lparr>mq_pool_addr := msgpool,
                mq_msg_size := ucast (RT_ALIGN msg_size RT_ALIGN_SIZE)\<rparr>) s2;
         s4 = upd_mq a (\<lambda>m. mq_setup (m\<lparr>mq_max_msgs :=
                ucast (pool_size div (ucast (mq_msg_size m) + MQ_HEADER))\<rparr>)) s3
     in (rt_ipc_object_init (MqSendQ a) s4, RT_EOK))"

definition rt_mq_detach :: "addr \<Rightarrow> kstate \<Rightarrow> kstate \<times> rt_err_t" where
  "rt_mq_detach a s =
    (let s1 = RT_ASSERT (obj_type_ok (ObjMessageQueue a) RT_Object_Class_MessageQueue s) s;
         s2 = RT_ASSERT (rt_object_is_systemobject (ObjMessageQueue a) s1) s1;
         s3 = rt_ipc_list_resume_all (MqSendQ a) (rt_ipc_list_resume_all (MqQ a) s2)
     in (rt_object_detach (ObjMessageQueue a) s3, RT_EOK))"

definition rt_mq_create ::
    "cstr \<Rightarrow> rt_size_t \<Rightarrow> rt_size_t \<Rightarrow> rt_uint8_t \<Rightarrow> kstate \<Rightarrow> kstate \<times> addr option" where
  "rt_mq_create name msg_size max_msgs flag s =
    (case rt_object_allocate RT_Object_Class_MessageQueue name (RT_DEBUG_NOT_IN_INTERRUPT s) of
       (s1, None) \<Rightarrow> (s1, None)
     | (s1, Some a) \<Rightarrow>
         let s2 = rt_ipc_object_init (MqQ a) (set_obj_flag (ObjMessageQueue a) flag s1);
             s3 = upd_mq a (\<lambda>m. m\<lparr>mq_msg_size := ucast (RT_ALIGN msg_size RT_ALIGN_SIZE),
                    mq_max_msgs := ucast max_msgs\<rparr>) s2;
             m = get_mq a s3
         in case kernel_malloc (unat ((ucast (mq_msg_size m) + MQ_HEADER) * ucast (mq_max_msgs m))) s3 of
              (s4, None) \<Rightarrow> (rt_object_delete (ObjMessageQueue a) s4, None)
            | (s4, Some pool) \<Rightarrow>
                (rt_ipc_object_init (MqSendQ a)
                   (upd_mq a (\<lambda>m. mq_setup (m\<lparr>mq_pool_addr := pool\<rparr>)) s4), Some a))"

definition rt_mq_delete :: "addr \<Rightarrow> kstate \<Rightarrow> kstate \<times> rt_err_t" where
  "rt_mq_delete a s =
    (let s0 = RT_DEBUG_NOT_IN_INTERRUPT s;
         s1 = RT_ASSERT (obj_type_ok (ObjMessageQueue a) RT_Object_Class_MessageQueue s0) s0;
         s2 = RT_ASSERT (\<not> rt_object_is_systemobject (ObjMessageQueue a) s1) s1;
         s3 = rt_ipc_list_resume_all (MqSendQ a) (rt_ipc_list_resume_all (MqQ a) s2);
         s4 = kernel_free (Some (mq_pool_addr (get_mq a s3))) s3
     in (rt_object_delete (ObjMessageQueue a) s4, RT_EOK))"

text \<open>What both senders and receivers do when somebody waits on the other side.\<close>

definition wake_and_schedule :: "qhead \<Rightarrow> kstate \<Rightarrow> kstate" where
  "wake_and_schedule h s = (if tq s h \<noteq> [] then rt_schedule (rt_ipc_list_resume h s) else s)"

definition mq_send_loop ::
    "addr \<Rightarrow> rt_uint8_t list \<Rightarrow> rt_int32_t \<Rightarrow> kstate \<Rightarrow> kstate \<times> rt_err_t outcome" where
  "mq_send_loop a buf timeout s =
    (case msg_queue_free (get_mq a s) of
       None \<Rightarrow>
         (case rt_thread_self s of
            None \<Rightarrow> (null_deref s, Waits)
          | Some t \<Rightarrow>
              let s1 = set_error t RT_EOK s in
              if timeout = 0 then (s1, Returns (- RT_EFULL))
              else
                let s2 = RT_DEBUG_IN_THREAD_CONTEXT s1;
                    s3 = wait_on (MqSendQ a) t (obj_flag (objs s2 (ObjMessageQueue a))) timeout s2
                in (rt_schedule s3, Waits))
     | Some n \<Rightarrow>
         let s1 = upd_mq a (mq_take_free n) s;
             s2 = upd_mq a (\<lambda>m. mq_fill n buf (mq_clear_next n m)) s1;
             s3 = upd_mq a (mq_link_tail n) s2
         in (wake_and_schedule (MqQ a) s3, Returns RT_EOK))"

definition mq_check_send :: "addr \<Rightarrow> rt_uint8_t list \<Rightarrow> kstate \<Rightarrow> kstate" where
  "mq_check_send a buf s =
    RT_ASSERT (length buf \<noteq> 0) (RT_ASSERT (obj_type_ok (ObjMessageQueue a) RT_Object_Class_MessageQueue s) s)"

definition rt_mq_send_wait ::
    "addr \<Rightarrow> rt_uint8_t list \<Rightarrow> rt_int32_t \<Rightarrow> kstate \<Rightarrow> kstate \<times> rt_err_t outcome" where
  "rt_mq_send_wait a buf timeout s =
    (let s1 = mq_check_send a buf s in
     if length buf > unat (mq_msg_size (get_mq a s1)) then (s1, Returns (- RT_ERROR))
     else if msg_queue_free (get_mq a s1) = None \<and> timeout = 0 then (s1, Returns (- RT_EFULL))
     else mq_send_loop a buf timeout s1)"

definition mq_send_resumed ::
    "addr \<Rightarrow> rt_uint8_t list \<Rightarrow> rt_int32_t \<Rightarrow> rt_tick_t \<Rightarrow> tid \<Rightarrow> kstate \<Rightarrow> kstate \<times> rt_err_t outcome" where
  "mq_send_resumed a buf timeout t0 t s =
    (if th_error (thr s t) \<noteq> RT_EOK then (s, Returns (th_error (thr s t)))
     else mq_send_loop a buf (remaining_timeout timeout t0 (rt_tick_get s)) s)"

definition rt_mq_send :: "addr \<Rightarrow> rt_uint8_t list \<Rightarrow> kstate \<Rightarrow> kstate \<times> rt_err_t outcome" where
  "rt_mq_send a buf s = rt_mq_send_wait a buf 0 s"

definition rt_mq_urgent :: "addr \<Rightarrow> rt_uint8_t list \<Rightarrow> kstate \<Rightarrow> kstate \<times> rt_err_t" where
  "rt_mq_urgent a buf s =
    (let s1 = mq_check_send a buf s in
     if length buf > unat (mq_msg_size (get_mq a s1)) then (s1, - RT_ERROR)
     else case msg_queue_free (get_mq a s1) of
         None \<Rightarrow> (s1, - RT_EFULL)
       | Some n \<Rightarrow>
           let s2 = upd_mq a (mq_take_free n) s1;
               s3 = upd_mq a (mq_fill n buf) s2;
               s4 = upd_mq a (mq_link_head n) s3
           in (wake_and_schedule (MqQ a) s4, RT_EOK))"

definition mq_recv_loop ::
    "addr \<Rightarrow> rt_size_t \<Rightarrow> rt_int32_t \<Rightarrow> kstate \<Rightarrow> kstate \<times> (rt_err_t \<times> rt_uint8_t list) outcome" where
  "mq_recv_loop a sz timeout s =
    (if mq_entry (get_mq a s) = 0 then
       let s0 = RT_DEBUG_IN_THREAD_CONTEXT s in
       case rt_thread_self s0 of
         None \<Rightarrow> (null_deref s0, Waits)
       | Some t \<Rightarrow>
           let s1 = set_error t RT_EOK s0 in
           if timeout = 0 then (set_error t (- RT_ETIMEOUT) s1, Returns (- RT_ETIMEOUT, []))
           else
             (rt_schedule (wait_on (MqQ a) t (obj_flag (objs s1 (ObjMessageQueue a))) timeout s1), Waits)
     else case msg_queue_head (get_mq a s) of
         None \<Rightarrow> (null_deref s, Waits)
       | Some n \<Rightarrow>
           let s1 = upd_mq a (\<lambda>m. mq_dec_entry (mq_unlink_head n m)) s;
               data = mq_read n sz (get_mq a s1);
               s2 = upd_mq a (mq_give_back n) s1
           in (wake_and_schedule (MqSendQ a) s2, Returns (RT_EOK, data)))"

definition rt_mq_recv ::
    "addr \<Rightarrow> rt_size_t \<Rightarrow> rt_int32_t \<Rightarrow> kstate \<Rightarrow> kstate \<times> (rt_err_t \<times> rt_uint8_t list) outcome" where
  "rt_mq_recv a sz timeout s =
    (let s1 = RT_ASSERT (sz \<noteq> 0) (RT_ASSERT (obj_type_ok (ObjMessageQueue a) RT_Object_Class_MessageQueue s) s) in
     if mq_entry (get_mq a s1) = 0 \<and> timeout = 0 then (s1, Returns (- RT_ETIMEOUT, []))
     else mq_recv_loop a sz timeout s1)"

definition mq_recv_resumed ::
    "addr \<Rightarrow> rt_size_t \<Rightarrow> rt_int32_t \<Rightarrow> rt_tick_t \<Rightarrow> tid \<Rightarrow> kstate \<Rightarrow>
     kstate \<times> (rt_err_t \<times> rt_uint8_t list) outcome" where
  "mq_recv_resumed a sz timeout t0 t s =
    (if th_error (thr s t) \<noteq> RT_EOK then (s, Returns (th_error (thr s t), []))
     else mq_recv_loop a sz (remaining_timeout timeout t0 (rt_tick_get s)) s)"

definition rt_mq_control :: "addr \<Rightarrow> ipc_cmd \<Rightarrow> kstate \<Rightarrow> kstate \<times> rt_err_t" where
  "rt_mq_control a cmd s =
    (let s1 = RT_ASSERT (obj_type_ok (ObjMessageQueue a) RT_Object_Class_MessageQueue s) s in
     case cmd of
       RT_IPC_CMD_RESET _ \<Rightarrow>
         (let s2 = rt_ipc_list_resume_all (MqSendQ a) (rt_ipc_list_resume_all (MqQ a) s1)
          in case mq_drain (unat (mq_max_msgs (get_mq a s2))) (get_mq a s2) of
               None \<Rightarrow> (s2\<lparr>kfault := True\<rparr>, RT_EOK)
             | Some m \<Rightarrow> (rt_schedule (upd_mq a (\<lambda>_. m\<lparr>mq_entry := 0\<rparr>) s2), RT_EOK))
     | Ipc_cmd_other \<Rightarrow> (s1, - RT_ERROR))"

section \<open>The invariant of the pool\<close>

fun mchain :: "(nat \<Rightarrow> nat option) \<Rightarrow> nat option \<Rightarrow> nat list \<Rightarrow> bool" where
  "mchain nxt h [] \<longleftrightarrow> h = None"
| "mchain nxt h (n # ns) \<longleftrightarrow> h = Some n \<and> mchain nxt (nxt n) ns"

text \<open>
  \<open>q\<close> is the queue, \<open>f\<close> the free list, and \<open>fl\<close> the nodes in flight: taken off one list by a call
  that has not yet put them on the other.
\<close>

definition mq_lists :: "nat list \<Rightarrow> nat list \<Rightarrow> nat list \<Rightarrow> rt_messagequeue \<Rightarrow> bool" where
  "mq_lists q f fl m \<longleftrightarrow>
    mchain (mq_next m) (msg_queue_head m) q \<and> mchain (mq_next m) (msg_queue_free m) f \<and>
    msg_queue_tail m = (if q = [] then None else Some (last q)) \<and>
    distinct (q @ f @ fl) \<and> set (q @ f @ fl) = {..<unat (mq_max_msgs m)} \<and>
    unat (mq_entry m) = length q"

lemma mchain_update: "n \<notin> set ns \<Longrightarrow> mchain (nxt(n := x)) h ns = mchain nxt h ns"
  by (induction ns arbitrary: h) auto

lemma mchain_append:
  "mchain nxt h ns \<Longrightarrow> ns \<noteq> [] \<Longrightarrow> n \<notin> set ns \<Longrightarrow> distinct ns \<Longrightarrow> nxt n = None \<Longrightarrow>
    mchain (nxt(last ns := Some n)) h (ns @ [n])"
proof (induction ns arbitrary: h)
  case (Cons x xs)
  have "last xs \<noteq> x" if "xs \<noteq> []" using Cons.prems(4) last_in_set [OF that] by auto
  then show ?case using Cons by (cases "xs = []") auto
qed simp

lemma mchain_head: "mchain nxt h ns \<Longrightarrow> (h = None \<longleftrightarrow> ns = []) \<and> (h = Some n \<longrightarrow> ns = n # tl ns)"
  by (cases ns) auto

lemma mq_entry_room:
  assumes "mq_lists q f (n # fl) m"
  shows "unat (mq_entry m + 1) = Suc (length q)"
proof -
  have "length (q @ f @ n # fl) = unat (mq_max_msgs m)"
    using assms by (metis mq_lists_def distinct_card card_lessThan)
  then have "unat (mq_entry m) < unat (mq_max_msgs m)" using assms by (simp add: mq_lists_def)
  then show ?thesis
    using unat_inc [of "mq_entry m" "mq_max_msgs m"] assms by (simp add: word_less_nat_alt mq_lists_def)
qed

lemma mq_take_free_lists:
  assumes "mq_lists q f fl m" "msg_queue_free m = Some n"
  shows "f = n # tl f" "mq_lists q (tl f) (n # fl) (mq_take_free n m)"
proof -
  show f: "f = n # tl f" using assms mchain_head by (metis mq_lists_def)
  then have "mchain (mq_next m) (mq_next m n) (tl f)"
    using assms by (metis mq_lists_def mchain.simps(2))
  then show "mq_lists q (tl f) (n # fl) (mq_take_free n m)"
    using assms f by (cases f) (auto simp: mq_lists_def mq_take_free_def)
qed

lemma mq_fill_lists: "mq_lists q f fl (mq_fill n buf m) = mq_lists q f fl m"
  by (simp add: mq_lists_def mq_fill_def)

lemma mq_clear_next_lists:
  "mq_lists q f (n # fl) m \<Longrightarrow> mq_lists q f (n # fl) (mq_clear_next n m)"
  by (auto simp: mq_lists_def mq_clear_next_def mchain_update)

lemma mq_link_tail_lists:
  assumes m: "mq_lists q f (n # fl) m" and n: "mq_next m n = None"
  shows "mq_lists (q @ [n]) f fl (mq_link_tail n m)"
proof -
  have e: "unat (mq_entry m + 1) = Suc (length q)" by (rule mq_entry_room [OF m])
  have d: "n \<notin> set q" "n \<notin> set f" "distinct q" using m by (auto simp: mq_lists_def)
  show ?thesis
  proof (cases "q = []")
    case True
    then show ?thesis using m n e by (auto simp: mq_lists_def mq_link_tail_def Let_def)
  next
    case False
    have "last q \<in> set q" using False by simp
    then have l: "last q \<notin> set f" using m unfolding mq_lists_def by auto
    have "mchain (mq_next m) (msg_queue_head m) q" using m by (simp add: mq_lists_def)
    then have "mchain ((mq_next m)(last q := Some n)) (msg_queue_head m) (q @ [n])"
      using mchain_append False d n by blast
    moreover have "msg_queue_head m \<noteq> None" using m False mchain_head by (metis mq_lists_def)
    ultimately show ?thesis
      using m e False l by (auto simp: mq_lists_def mq_link_tail_def Let_def mchain_update)
  qed
qed

lemma mq_link_head_lists:
  assumes m: "mq_lists q f (n # fl) m"
  shows "mq_lists (n # q) f fl (mq_link_head n m)"
proof -
  have e: "unat (mq_entry m + 1) = Suc (length q)" by (rule mq_entry_room [OF m])
  show ?thesis
    using m e by (auto simp: mq_lists_def mq_link_head_def Let_def mchain_update)
qed

lemma mq_unlink_head_lists:
  assumes m: "mq_lists (n # q) f fl m"
  shows "msg_queue_head m = Some n" "mq_lists q f (n # fl) (mq_dec_entry (mq_unlink_head n m))"
proof -
  show "msg_queue_head m = Some n" using m by (simp add: mq_lists_def)
  have "mq_entry m \<noteq> 0" using m by (auto simp: mq_lists_def)
  then have "unat (mq_entry m - 1) = length q" using m unat_dec [of "mq_entry m"] by (simp add: mq_lists_def)
  moreover have "last q \<noteq> n" if "q \<noteq> []" using that m by (auto simp: mq_lists_def)
  ultimately show "mq_lists q f (n # fl) (mq_dec_entry (mq_unlink_head n m))"
    using m by (auto simp: mq_lists_def mq_dec_entry_def mq_unlink_head_def Let_def)
qed

lemma mq_give_back_lists:
  assumes m: "mq_lists q f (n # fl) m"
  shows "mq_lists q (n # f) fl (mq_give_back n m)"
  using m by (auto simp: mq_lists_def mq_give_back_def mchain_update)

section \<open>Reading the lists off the links\<close>

fun mq_walk :: "(nat \<Rightarrow> nat option) \<Rightarrow> nat option \<Rightarrow> nat \<Rightarrow> nat list" where
  "mq_walk nxt h 0 = []"
| "mq_walk nxt h (Suc k) = (case h of None \<Rightarrow> [] | Some n \<Rightarrow> n # mq_walk nxt (nxt n) k)"

definition mq_queue :: "rt_messagequeue \<Rightarrow> nat list" where
  "mq_queue m = mq_walk (mq_next m) (msg_queue_head m) (unat (mq_max_msgs m))"

definition mq_free :: "rt_messagequeue \<Rightarrow> nat list" where
  "mq_free m = mq_walk (mq_next m) (msg_queue_free m) (unat (mq_max_msgs m))"

definition mq_wf :: "rt_messagequeue \<Rightarrow> bool" where
  "mq_wf m \<longleftrightarrow> mq_lists (mq_queue m) (mq_free m) [] m \<and> 0 < unat (mq_msg_size m)"

definition mq_contents :: "rt_messagequeue \<Rightarrow> rt_uint8_t list list" where
  "mq_contents m = map (\<lambda>n. map (mq_data m n) [0..<unat (mq_msg_size m)]) (mq_queue m)"

lemma mq_walk_chain: "mchain nxt h ns \<Longrightarrow> length ns \<le> k \<Longrightarrow> mq_walk nxt h k = ns"
proof (induction ns arbitrary: h k)
  case Nil
  then show ?case by (cases k) auto
next
  case (Cons n ns)
  then show ?case by (cases k) auto
qed

lemma mq_lists_length:
  assumes "mq_lists q f fl m"
  shows "length q + length f + length fl = unat (mq_max_msgs m)"
proof -
  have "length (q @ f @ fl) = unat (mq_max_msgs m)"
    using assms by (metis mq_lists_def distinct_card card_lessThan)
  then show ?thesis by simp
qed

lemma mq_lists_read:
  assumes "mq_lists q f fl m"
  shows "mq_queue m = q" "mq_free m = f"
  using assms mq_lists_length [OF assms]
  by (simp_all add: mq_lists_def mq_queue_def mq_free_def mq_walk_chain)

lemma mq_wfI: "mq_lists q f [] m \<Longrightarrow> 0 < unat (mq_msg_size m) \<Longrightarrow> mq_wf m"
  using mq_lists_read by (simp add: mq_wf_def)

text \<open>A new queue has all its nodes in the free list.\<close>

lemma mq_build_free_chain:
  assumes "mchain (mq_next m) (msg_queue_free m) (rev [0..<k])"
  shows "mchain (mq_next (mq_build_free k n m)) (msg_queue_free (mq_build_free k n m)) (rev [0..<k + n]) \<and>
    mq_max_msgs (mq_build_free k n m) = mq_max_msgs m \<and>
    msg_queue_head (mq_build_free k n m) = msg_queue_head m \<and>
    msg_queue_tail (mq_build_free k n m) = msg_queue_tail m \<and>
    mq_msg_size (mq_build_free k n m) = mq_msg_size m"
  using assms
proof (induction n arbitrary: k m)
  case (Suc n)
  let ?m = "m\<lparr>mq_next := (mq_next m)(k := msg_queue_free m), msg_queue_free := Some k\<rparr>"
  have c: "mchain (mq_next ?m) (msg_queue_free ?m) (rev [0..<k + 1])"
    using Suc.prems by (simp add: mchain_update)
  show ?case using Suc.IH [OF c] by simp
qed simp

lemma mq_setup_lists: "mq_lists [] (rev [0..<unat (mq_max_msgs m)]) [] (mq_setup m)"
proof -
  let ?m = "m\<lparr>msg_queue_head := None, msg_queue_tail := None, msg_queue_free := None\<rparr>"
  have "mchain (mq_next ?m) (msg_queue_free ?m) (rev [0..<0])" by simp
  note b = mq_build_free_chain [OF this, of "unat (mq_max_msgs m)"]
  show ?thesis using b by (auto simp: mq_lists_def mq_setup_def Let_def)
qed

text \<open>The counter plays no part in the loop that empties the queue.\<close>

lemma mq_dec_entry_commute:
  "mq_give_back n (mq_unlink_head n (mq_dec_entry x)) = mq_dec_entry (mq_give_back n (mq_unlink_head n x))"
  by (cases x) (simp add: mq_dec_entry_def mq_give_back_def mq_unlink_head_def Let_def)

lemma mq_drain_dec_entry: "mq_drain k (mq_dec_entry x) = map_option mq_dec_entry (mq_drain k x)"
proof (induction k arbitrary: x)
  case 0
  then show ?case by (simp add: mq_dec_entry_def split: option.split)
next
  case (Suc k)
  have "msg_queue_head (mq_dec_entry x) = msg_queue_head x" by (simp add: mq_dec_entry_def)
  then show ?case by (simp add: mq_dec_entry_commute Suc split: option.split)
qed

lemma mq_drain_lists:
  assumes "mq_lists q f [] m" "length q \<le> fuel"
  shows "\<exists>m'. mq_drain fuel m = Some m' \<and> mq_lists [] (rev q @ f) [] (m'\<lparr>mq_entry := 0\<rparr>) \<and>
    mq_msg_size m' = mq_msg_size m"
  using assms
proof (induction q arbitrary: f m fuel)
  case Nil
  then show ?case by (cases fuel) (auto simp: mq_lists_def)
next
  case (Cons n q)
  then obtain k where k: "fuel = Suc k" "length q \<le> k" by (cases fuel) auto
  let ?m = "mq_give_back n (mq_unlink_head n m)"
  have "mq_lists q (n # f) [] (mq_give_back n (mq_dec_entry (mq_unlink_head n m)))"
    using mq_give_back_lists [OF mq_unlink_head_lists(2) [OF Cons.prems(1)]] .
  then have l: "mq_lists q (n # f) [] (mq_dec_entry ?m)"
    by (simp add: mq_lists_def mq_give_back_def mq_dec_entry_def)
  obtain m' where "mq_drain k (mq_dec_entry ?m) = Some m'" "mq_lists [] (rev q @ n # f) [] (m'\<lparr>mq_entry := 0\<rparr>)"
    "mq_msg_size m' = mq_msg_size (mq_dec_entry ?m)"
    using Cons.IH [OF l k(2)] by blast
  then obtain m1 where "mq_drain k ?m = Some m1" "m' = mq_dec_entry m1"
    by (auto simp: mq_drain_dec_entry)
  with \<open>mq_lists [] _ _ _\<close> \<open>mq_msg_size m' = _\<close> show ?case
    using k mq_unlink_head_lists(1) [OF Cons.prems(1)]
    by (simp add: mq_dec_entry_def mq_give_back_def mq_unlink_head_def Let_def split: if_splits)
qed

section \<open>The store of message queues\<close>

interpretation mq: object_store get_mq upd_mq
proof
  show "get_mq a s' = get_mq a s" if "iview s' = iview s" for s' s a
    using iviewD(5) [OF that] by (simp add: get_mq_def)
qed (simp_all add: get_mq_def upd_mq_def sview_def)

lemmas mq_store [simp] = mq.get_kernel mq.get_upd mq.get_upd_other mq.upd_inv mq.upd_fields

lemma wake_and_schedule_inv: "sched_inv s \<Longrightarrow> sched_inv (wake_and_schedule h s)"
  by (simp add: wake_and_schedule_def rt_schedule_inv_any rt_ipc_list_resume_inv)

lemma get_mq_wake [simp]: "get_mq a (wake_and_schedule h s) = get_mq a s"
  by (simp add: wake_and_schedule_def)

lemma get_mq_check [simp]: "get_mq a (mq_check_send b buf s) = get_mq a s"
  by (simp add: mq_check_send_def)

section \<open>The scheduler invariant\<close>

lemma mq_check_frame [simp]:
  "sched_inv (mq_check_send a buf s) = sched_inv s" "thread_context (mq_check_send a buf s) = thread_context s"
  by (simp_all add: mq_check_send_def)

lemma mq_send_loop_inv:
  "sched_inv s \<Longrightarrow> thread_context s \<Longrightarrow> sched_inv (fst (mq_send_loop a buf time s))"
  by (auto simp: mq_send_loop_def Let_def thread_context_def rt_thread_self_def
      intro!: rt_schedule_inv_any wait_on_inv wake_and_schedule_inv split: option.splits)

lemma mq_recv_loop_inv:
  "sched_inv s \<Longrightarrow> thread_context s \<Longrightarrow> sched_inv (fst (mq_recv_loop a sz time s))"
  by (auto simp: mq_recv_loop_def Let_def thread_context_def rt_thread_self_def
      intro!: rt_schedule_inv_any wait_on_inv wake_and_schedule_inv split: option.splits)

lemma rt_mq_send_wait_inv:
  "sched_inv s \<Longrightarrow> thread_context s \<Longrightarrow> sched_inv (fst (rt_mq_send_wait a buf time s))"
  by (simp add: rt_mq_send_wait_def Let_def mq_send_loop_inv)

lemma rt_mq_urgent_inv: "sched_inv s \<Longrightarrow> sched_inv (fst (rt_mq_urgent a buf s))"
  by (simp add: rt_mq_urgent_def Let_def wake_and_schedule_inv split: option.split)

lemma rt_mq_recv_inv:
  "sched_inv s \<Longrightarrow> thread_context s \<Longrightarrow> sched_inv (fst (rt_mq_recv a sz time s))"
  by (simp add: rt_mq_recv_def Let_def mq_recv_loop_inv)

lemma rt_mq_control_inv: "sched_inv s \<Longrightarrow> sched_inv (fst (rt_mq_control a cmd s))"
  by (simp add: rt_mq_control_def Let_def rt_schedule_inv_any rt_ipc_list_resume_all_inv
      split: ipc_cmd.split option.split)

section \<open>Sending and receiving\<close>

definition mq_sent :: "nat \<Rightarrow> rt_uint8_t list \<Rightarrow> rt_messagequeue \<Rightarrow> rt_messagequeue" where
  "mq_sent n buf m = mq_link_tail n (mq_fill n buf (mq_clear_next n (mq_take_free n m)))"

lemma mq_sent_lists:
  assumes m: "mq_lists q f [] m" and f: "msg_queue_free m = Some n"
  shows "mq_lists (q @ [n]) (tl f) [] (mq_sent n buf m)"
proof -
  have "mq_lists q (tl f) [n] (mq_clear_next n (mq_take_free n m))"
    using mq_clear_next_lists mq_take_free_lists [OF m f] by blast
  then show ?thesis
    unfolding mq_sent_def
    by (intro mq_link_tail_lists) (simp_all add: mq_fill_lists, simp add: mq_fill_def mq_clear_next_def)
qed

lemma mq_ops_data [simp]:
  "mq_data (mq_link_tail n m) = mq_data m" "mq_data (mq_link_head n m) = mq_data m"
  "mq_data (mq_take_free n m) = mq_data m" "mq_data (mq_clear_next n m) = mq_data m"
  "mq_data (mq_give_back n m) = mq_data m" "mq_data (mq_dec_entry m) = mq_data m"
  "mq_data (mq_unlink_head n m) = mq_data m"
  by (simp_all add: mq_link_tail_def mq_link_head_def mq_take_free_def mq_clear_next_def
      mq_give_back_def mq_dec_entry_def mq_unlink_head_def Let_def split: option.split)

lemma mq_ops_size [simp]:
  "mq_msg_size (mq_link_tail n m) = mq_msg_size m" "mq_msg_size (mq_link_head n m) = mq_msg_size m"
  "mq_msg_size (mq_take_free n m) = mq_msg_size m" "mq_msg_size (mq_clear_next n m) = mq_msg_size m"
  "mq_msg_size (mq_give_back n m) = mq_msg_size m" "mq_msg_size (mq_dec_entry m) = mq_msg_size m"
  "mq_msg_size (mq_unlink_head n m) = mq_msg_size m" "mq_msg_size (mq_fill n buf m) = mq_msg_size m"
  "mq_max_msgs (mq_link_tail n m) = mq_max_msgs m" "mq_max_msgs (mq_link_head n m) = mq_max_msgs m"
  "mq_max_msgs (mq_take_free n m) = mq_max_msgs m" "mq_max_msgs (mq_clear_next n m) = mq_max_msgs m"
  "mq_max_msgs (mq_give_back n m) = mq_max_msgs m" "mq_max_msgs (mq_dec_entry m) = mq_max_msgs m"
  "mq_max_msgs (mq_unlink_head n m) = mq_max_msgs m" "mq_max_msgs (mq_fill n buf m) = mq_max_msgs m"
  by (simp_all add: mq_link_tail_def mq_link_head_def mq_take_free_def mq_clear_next_def mq_fill_def
      mq_give_back_def mq_dec_entry_def mq_unlink_head_def Let_def split: option.split)

definition mq_message :: "rt_messagequeue \<Rightarrow> nat \<Rightarrow> rt_uint8_t list" where
  "mq_message m n = map (mq_data m n) [0..<unat (mq_msg_size m)]"

lemma mq_contents_eq: "mq_lists q f fl m \<Longrightarrow> mq_contents m = map (mq_message m) q"
  using mq_lists_read(1) by (simp add: mq_contents_def mq_message_def)

lemma mq_message_fill:
  "u \<noteq> n \<Longrightarrow> mq_message (mq_fill n buf m) u = mq_message m u"
  "length buf = unat (mq_msg_size m) \<Longrightarrow> mq_message (mq_fill n buf m) n = buf"
  by (auto simp: mq_message_def mq_fill_def intro: nth_equalityI)

lemma mq_message_fill_map:
  "n \<notin> set q \<Longrightarrow> map (mq_message (mq_fill n buf m)) q = map (mq_message m) q"
  by (induction q) (auto simp: mq_message_fill(1))

lemma mq_message_cong: "mq_data m' = mq_data m \<Longrightarrow> mq_msg_size m' = mq_msg_size m \<Longrightarrow> mq_message m' = mq_message m"
  by (simp add: mq_message_def fun_eq_iff)

lemma mq_sent_contents:
  assumes m: "mq_lists q f [] m" and f: "msg_queue_free m = Some n" and b: "length buf = unat (mq_msg_size m)"
  shows "mq_contents (mq_sent n buf m) = mq_contents m @ [buf]"
proof -
  have n: "n \<notin> set q" using mq_take_free_lists [OF m f] by (auto simp: mq_lists_def)
  have "mq_message (mq_sent n buf m) = mq_message (mq_fill n buf m)"
    by (rule mq_message_cong) (simp_all add: mq_sent_def mq_fill_def cong: if_cong)
  then show ?thesis
    using mq_contents_eq [OF mq_sent_lists [OF m f]] mq_contents_eq [OF m] b
    by (simp add: mq_message_fill(2) mq_message_fill_map [OF n])
qed

text \<open>Sending succeeds without waiting exactly when a node is free.\<close>

lemma rt_mq_send_step:
  assumes "msg_queue_free (get_mq a s) = Some n" "length buf \<le> unat (mq_msg_size (get_mq a s))"
  shows "get_mq a (fst (rt_mq_send_wait a buf time s)) = mq_sent n buf (get_mq a s)"
    "snd (rt_mq_send_wait a buf time s) = Returns RT_EOK"
  using assms by (simp_all add: rt_mq_send_wait_def mq_send_loop_def Let_def mq_sent_def)

lemma rt_mq_recv_step:
  assumes "msg_queue_head (get_mq a s) = Some n" "mq_entry (get_mq a s) \<noteq> 0"
  shows "get_mq a (fst (rt_mq_recv a sz time s)) =
      mq_give_back n (mq_dec_entry (mq_unlink_head n (get_mq a s)))"
    "snd (rt_mq_recv a sz time s) = Returns (RT_EOK, mq_read n sz (get_mq a s))"
  using assms by (simp_all add: rt_mq_recv_def mq_recv_loop_def Let_def mq_read_def)

lemma rt_mq_urgent_step:
  assumes "msg_queue_free (get_mq a s) = Some n" "length buf \<le> unat (mq_msg_size (get_mq a s))"
  shows "get_mq a (fst (rt_mq_urgent a buf s)) = mq_link_head n (mq_fill n buf (mq_take_free n (get_mq a s)))"
    "snd (rt_mq_urgent a buf s) = RT_EOK"
  using assms by (simp_all add: rt_mq_urgent_def Let_def)

lemma mq_urgent_lists:
  assumes m: "mq_lists q f [] m" and f: "msg_queue_free m = Some n"
  shows "mq_lists (n # q) (tl f) [] (mq_link_head n (mq_fill n buf (mq_take_free n m)))"
  using mq_take_free_lists(2) [OF m f] by (intro mq_link_head_lists) (simp add: mq_fill_lists)

lemma mq_urgent_contents:
  assumes m: "mq_lists q f [] m" and f: "msg_queue_free m = Some n" and b: "length buf = unat (mq_msg_size m)"
  shows "mq_contents (mq_link_head n (mq_fill n buf (mq_take_free n m))) = buf # mq_contents m"
proof -
  have n: "n \<notin> set q" using mq_take_free_lists [OF m f] by (auto simp: mq_lists_def)
  have "mq_message (mq_link_head n (mq_fill n buf (mq_take_free n m))) = mq_message (mq_fill n buf m)"
    by (rule mq_message_cong) (simp_all add: mq_fill_def cong: if_cong)
  then show ?thesis
    using mq_contents_eq [OF mq_urgent_lists [OF m f]] mq_contents_eq [OF m] b
    by (simp add: mq_message_fill(2) mq_message_fill_map [OF n])
qed

lemma mq_recv_lists:
  assumes m: "mq_lists (n # q) f [] m"
  shows "mq_lists q (n # f) [] (mq_give_back n (mq_dec_entry (mq_unlink_head n m)))"
    "mq_contents (mq_give_back n (mq_dec_entry (mq_unlink_head n m))) = map (mq_message m) q"
    "mq_read n (ucast (mq_msg_size m)) m = mq_message m n"
proof -
  show l: "mq_lists q (n # f) [] (mq_give_back n (mq_dec_entry (mq_unlink_head n m)))"
    using mq_give_back_lists [OF mq_unlink_head_lists(2) [OF m]] .
  have "mq_message (mq_give_back n (mq_dec_entry (mq_unlink_head n m))) = mq_message m"
    by (rule mq_message_cong) simp_all
  then show "mq_contents (mq_give_back n (mq_dec_entry (mq_unlink_head n m))) = map (mq_message m) q"
    using mq_contents_eq [OF l] by simp
  show "mq_read n (ucast (mq_msg_size m)) m = mq_message m n"
    by (simp add: mq_read_def mq_message_def unat_ucast_16_32)
qed

text \<open>
  Send and receive as queue operations: messages of the queue's own message size, and a
  receive with a buffer of that size.
\<close>

definition mq_recv_message :: "addr \<Rightarrow> kstate \<Rightarrow> rt_uint8_t list \<times> kstate" where
  "mq_recv_message a s =
    (case rt_mq_recv a (ucast (mq_msg_size (get_mq a s))) 0 s of
       (s', Returns (_, data)) \<Rightarrow> (data, s')
     | (s', Waits) \<Rightarrow> ([], s'))"

definition mq_send_message :: "addr \<Rightarrow> rt_uint8_t list \<Rightarrow> kstate \<Rightarrow> kstate" where
  "mq_send_message a buf s = fst (rt_mq_send a buf s)"

lemma mq_wf_free:
  assumes "mq_wf m" "length (mq_contents m) < unat (mq_max_msgs m)"
  obtains n where "msg_queue_free m = Some n"
proof -
  have "mq_lists (mq_queue m) (mq_free m) [] m" using assms(1) by (simp add: mq_wf_def)
  moreover from this have "length (mq_queue m) + length (mq_free m) = unat (mq_max_msgs m)"
    using mq_lists_length by fastforce
  moreover have "length (mq_contents m) = length (mq_queue m)" by (simp add: mq_contents_def)
  ultimately have "mq_free m \<noteq> []" "mchain (mq_next m) (msg_queue_free m) (mq_free m)"
    using assms(2) by (auto simp: mq_lists_def)
  then show ?thesis using that mchain_head by (metis not_None_eq)
qed

interpretation mqk: bounded_fifo "\<lambda>s. mq_wf (get_mq a s)" "\<lambda>s. mq_contents (get_mq a s)"
  "\<lambda>s. unat (mq_max_msgs (get_mq a s))" "\<lambda>s buf. length buf = unat (mq_msg_size (get_mq a s))"
  "mq_send_message a" "mq_recv_message a" for a :: addr
proof
  fix s buf
  let ?m = "get_mq a s"
  assume wf: "mq_wf ?m"
  then have l: "mq_lists (mq_queue ?m) (mq_free ?m) [] ?m" and z: "0 < unat (mq_msg_size ?m)"
    by (simp_all add: mq_wf_def)
  show "length (mq_contents ?m) \<le> unat (mq_max_msgs ?m)"
    using mq_lists_length [OF l] by (simp add: mq_contents_def)
  show "mq_wf (get_mq a (mq_send_message a buf s))"
    "mq_contents (get_mq a (mq_send_message a buf s)) = mq_contents ?m @ [buf]"
    "unat (mq_max_msgs (get_mq a (mq_send_message a buf s))) = unat (mq_max_msgs ?m)"
    "\<And>y. (length y = unat (mq_msg_size (get_mq a (mq_send_message a buf s)))) = (length y = unat (mq_msg_size ?m))"
    if room: "length (mq_contents ?m) < unat (mq_max_msgs ?m)" and b: "length buf = unat (mq_msg_size ?m)"
  proof -
    obtain n where n: "msg_queue_free ?m = Some n" using mq_wf_free [OF wf room] .
    have s: "get_mq a (mq_send_message a buf s) = mq_sent n buf ?m"
      using rt_mq_send_step(1) [OF n] b by (simp add: mq_send_message_def rt_mq_send_def)
    show "mq_wf (get_mq a (mq_send_message a buf s))"
      "mq_contents (get_mq a (mq_send_message a buf s)) = mq_contents ?m @ [buf]"
      "unat (mq_max_msgs (get_mq a (mq_send_message a buf s))) = unat (mq_max_msgs ?m)"
      "\<And>y. (length y = unat (mq_msg_size (get_mq a (mq_send_message a buf s)))) = (length y = unat (mq_msg_size ?m))"
      unfolding s using mq_wfI [OF mq_sent_lists [OF l n]] mq_sent_contents [OF l n b] z
      by (simp_all add: mq_sent_def)
  qed
  show "mq_wf (get_mq a (snd (mq_recv_message a s)))"
    "mq_contents ?m = fst (mq_recv_message a s) # mq_contents (get_mq a (snd (mq_recv_message a s)))"
    "unat (mq_max_msgs (get_mq a (snd (mq_recv_message a s)))) = unat (mq_max_msgs ?m)"
    if ne: "mq_contents ?m \<noteq> []"
  proof -
    obtain n q where q: "mq_queue ?m = n # q" using ne by (cases "mq_queue ?m") (auto simp: mq_contents_def)
    have l: "mq_lists (n # q) (mq_free ?m) [] ?m" using l q by simp
    have h: "msg_queue_head ?m = Some n" using mq_unlink_head_lists(1) [OF l] .
    have e: "mq_entry ?m \<noteq> 0" using l by (auto simp: mq_lists_def)
    note st = rt_mq_recv_step [OF h e, of "ucast (mq_msg_size ?m)" 0]
    have "mq_recv_message a s = (mq_message ?m n, fst (rt_mq_recv a (ucast (mq_msg_size ?m)) 0 s))"
      using st(2) mq_recv_lists(3) [OF l] by (simp add: mq_recv_message_def split_beta)
    then have r: "fst (mq_recv_message a s) = mq_message ?m n"
      "get_mq a (snd (mq_recv_message a s)) = mq_give_back n (mq_dec_entry (mq_unlink_head n ?m))"
      using st(1) by simp_all
    show "mq_wf (get_mq a (snd (mq_recv_message a s)))"
      "mq_contents ?m = fst (mq_recv_message a s) # mq_contents (get_mq a (snd (mq_recv_message a s)))"
      "unat (mq_max_msgs (get_mq a (snd (mq_recv_message a s)))) = unat (mq_max_msgs ?m)"
      unfolding r using mq_wfI [OF mq_recv_lists(1) [OF l]] mq_recv_lists(2) [OF l] mq_contents_eq [OF l] z
      by simp_all
  qed
qed

section \<open>New queues, urgent messages and reset\<close>


lemma mq_setup_wf:
  assumes "0 < unat (mq_msg_size m)"
  shows "mq_wf (mq_setup m)" "mq_contents (mq_setup m) = []"
    "mq_max_msgs (mq_setup m) = mq_max_msgs m" "mq_msg_size (mq_setup m) = mq_msg_size m"
proof -
  have "mchain (mq_next x) (msg_queue_free x) (rev [0..<0])" if "msg_queue_free x = None" for x
    using that by simp
  note b = mq_build_free_chain [OF this, of "m\<lparr>msg_queue_head := None, msg_queue_tail := None, msg_queue_free := None\<rparr>"
      "unat (mq_max_msgs m)"]
  show z: "mq_max_msgs (mq_setup m) = mq_max_msgs m" "mq_msg_size (mq_setup m) = mq_msg_size m"
    using b by (simp_all add: mq_setup_def Let_def)
  show "mq_wf (mq_setup m)" using mq_wfI [OF mq_setup_lists] assms z by simp
  show "mq_contents (mq_setup m) = []" using mq_contents_eq [OF mq_setup_lists] by simp
qed

lemma mq_full_iff:
  assumes "mq_wf m"
  shows "msg_queue_free m = None \<longleftrightarrow> length (mq_contents m) = unat (mq_max_msgs m)"
proof -
  have l: "mq_lists (mq_queue m) (mq_free m) [] m" using assms by (simp add: mq_wf_def)
  have "msg_queue_free m = None \<longleftrightarrow> mq_free m = []" using l mchain_head by (metis mq_lists_def)
  then show ?thesis using mq_lists_length [OF l] by (auto simp: mq_contents_def)
qed

lemma mq_urgent_cases:
  assumes wf: "mq_wf (get_mq a s)"
  shows "length b > unat (mq_msg_size (get_mq a s)) \<Longrightarrow>
      snd (rt_mq_urgent a b s) = - RT_ERROR \<and> get_mq a (fst (rt_mq_urgent a b s)) = get_mq a s"
    "length b = unat (mq_msg_size (get_mq a s)) \<Longrightarrow>
      if length (mq_contents (get_mq a s)) = unat (mq_max_msgs (get_mq a s))
       then snd (rt_mq_urgent a b s) = - RT_EFULL \<and> get_mq a (fst (rt_mq_urgent a b s)) = get_mq a s
       else snd (rt_mq_urgent a b s) = RT_EOK \<and> mq_wf (get_mq a (fst (rt_mq_urgent a b s))) \<and>
         mq_contents (get_mq a (fst (rt_mq_urgent a b s))) = b # mq_contents (get_mq a s)"
proof -
  let ?m = "get_mq a s"
  have l: "mq_lists (mq_queue ?m) (mq_free ?m) [] ?m" and z: "0 < unat (mq_msg_size ?m)"
    using wf by (simp_all add: mq_wf_def)
  show "length b > unat (mq_msg_size ?m) \<Longrightarrow>
      snd (rt_mq_urgent a b s) = - RT_ERROR \<and> get_mq a (fst (rt_mq_urgent a b s)) = ?m"
    by (simp add: rt_mq_urgent_def Let_def)
  assume b: "length b = unat (mq_msg_size ?m)"
  show "if length (mq_contents ?m) = unat (mq_max_msgs ?m)
       then snd (rt_mq_urgent a b s) = - RT_EFULL \<and> get_mq a (fst (rt_mq_urgent a b s)) = ?m
       else snd (rt_mq_urgent a b s) = RT_EOK \<and> mq_wf (get_mq a (fst (rt_mq_urgent a b s))) \<and>
         mq_contents (get_mq a (fst (rt_mq_urgent a b s))) = b # mq_contents ?m"
  proof (cases "msg_queue_free ?m")
    case None
    then show ?thesis using mq_full_iff [OF wf] b by (simp add: rt_mq_urgent_def Let_def)
  next
    case (Some n)
    then show ?thesis
      using mq_full_iff [OF wf] b rt_mq_urgent_step [OF Some, of b] mq_urgent_contents [OF l Some b]
        mq_wfI [OF mq_urgent_lists [OF l Some, of b]] z by simp
  qed
qed

lemma mq_reset_ok:
  fixes v :: rt_uint32_t
  assumes wf: "mq_wf (get_mq a s)"
  defines "s' \<equiv> fst (rt_mq_control a (RT_IPC_CMD_RESET v) s)"
  shows "mq_wf (get_mq a s')" "mq_contents (get_mq a s') = []"
    "length (mq_free (get_mq a s')) = unat (mq_max_msgs (get_mq a s))"
    "snd (rt_mq_control a (RT_IPC_CMD_RESET v) s) = RT_EOK"
proof -
  let ?m = "get_mq a s"
  have l: "mq_lists (mq_queue ?m) (mq_free ?m) [] ?m" and z: "0 < unat (mq_msg_size ?m)"
    using wf by (simp_all add: mq_wf_def)
  have le: "length (mq_queue ?m) \<le> unat (mq_max_msgs ?m)" using mq_lists_length [OF l] by simp
  obtain m' where m': "mq_drain (unat (mq_max_msgs ?m)) ?m = Some m'"
    "mq_lists [] (rev (mq_queue ?m) @ mq_free ?m) [] (m'\<lparr>mq_entry := 0\<rparr>)" "mq_msg_size m' = mq_msg_size ?m"
    using mq_drain_lists [OF l le] by blast
  have g: "get_mq a s' = m'\<lparr>mq_entry := 0\<rparr>" and r: "snd (rt_mq_control a (RT_IPC_CMD_RESET v) s) = RT_EOK"
    using m'(1) by (simp_all add: s'_def rt_mq_control_def Let_def)
  show "snd (rt_mq_control a (RT_IPC_CMD_RESET v) s) = RT_EOK" by (rule r)
  show "mq_wf (get_mq a s')" unfolding g using mq_wfI [OF m'(2)] z m'(3) by simp
  show "mq_contents (get_mq a s') = []" unfolding g using mq_contents_eq [OF m'(2)] by simp
  show "length (mq_free (get_mq a s')) = unat (mq_max_msgs ?m)"
    unfolding g using mq_lists_read(2) [OF m'(2)] mq_lists_length [OF l] by simp
qed

end
