(* ===== verification/Mempool.thy ===== *)
theory Mempool
  imports MessageQueue
begin

text \<open>
  Memory pools (\<^verbatim>\<open>rt-thread/src/mempool.c\<close>): blocks of one size, each behind a word that links the
  free blocks or names the pool of an allocated one. \<open>block_words\<close> of the kernel state holds
  these words. The results: free blocks and allocated blocks partition the pool, allocation
  hands out a block that was free, and freeing it restores the pool.
\<close>

section \<open>Operations\<close>

definition rt_set_errno :: "rt_err_t \<Rightarrow> kstate \<Rightarrow> kstate" where
  "rt_set_errno e s =
    (if rt_interrupt_get_nest s \<noteq> 0 then s\<lparr>rt_errno := e\<rparr>
     else case rt_thread_self s of None \<Rightarrow> s\<lparr>rt_errno := e\<rparr> | Some t \<Rightarrow> set_error t e s)"

definition rt_get_errno :: "kstate \<Rightarrow> rt_err_t" where
  "rt_get_errno s =
    (if rt_interrupt_get_nest s \<noteq> 0 then rt_errno s
     else case rt_thread_self s of None \<Rightarrow> rt_errno s | Some t \<Rightarrow> th_error (thr s t))"

definition upd_mp :: "addr \<Rightarrow> (rt_mempool \<Rightarrow> rt_mempool) \<Rightarrow> kstate \<Rightarrow> kstate" where
  "upd_mp a f s = s\<lparr>mempools := (mempools s)(a := f (mempools s a))\<rparr>"

definition get_mp :: "addr \<Rightarrow> kstate \<Rightarrow> rt_mempool" where
  "get_mp a s = mempools s a"

definition put_word :: "addr \<Rightarrow> block_word \<Rightarrow> kstate \<Rightarrow> kstate" where
  "put_word b w s = s\<lparr>block_words := (block_words s)(b := w)\<rparr>"

text \<open>The address of block \<open>k\<close>, in the 32-bit arithmetic of the code.\<close>

definition block_at :: "addr \<Rightarrow> nat \<Rightarrow> nat \<Rightarrow> addr" where
  "block_at start block_size k = (start + k * (block_size + 4)) mod 2 ^ 32"

definition mp_link_blocks :: "addr \<Rightarrow> nat \<Rightarrow> nat \<Rightarrow> kstate \<Rightarrow> kstate" where
  "mp_link_blocks start block_size cnt s =
    (let s1 = fold (\<lambda>k. put_word (block_at start block_size k)
                (NextBlock (Some (block_at start block_size (k + 1))))) [0..<cnt] s
     in put_word (block_at start block_size (sub32 cnt 1)) (NextBlock None) s1)"

definition mp_set_counts :: "nat \<Rightarrow> rt_mempool \<Rightarrow> rt_mempool" where
  "mp_set_counts cnt m = m\<lparr>mp_block_total_count := cnt, mp_block_free_count := cnt\<rparr>"

definition rt_mp_init :: "addr \<Rightarrow> cstr \<Rightarrow> addr \<Rightarrow> nat \<Rightarrow> nat \<Rightarrow> kstate \<Rightarrow> kstate \<times> rt_err_t" where
  "rt_mp_init a name start sz block_size s =
    (let s0 = RT_ASSERT (sz > 0 \<and> block_size > 0) (RT_ASSERT (start \<noteq> 0) s);
         s1 = rt_object_init (ObjMemPool a) RT_Object_Class_MemPool name s0;
         bs = align4 block_size;
         cnt = align4_down sz div add32 bs 4;
         s2 = upd_mp a (\<lambda>m. mp_set_counts cnt
                (m\<lparr>mp_start_address := start, mp_size := align4_down sz, mp_block_size := bs\<rparr>)) s1;
         s3 = mp_link_blocks start bs cnt (rt_ipc_object_init (MempoolQ a) s2)
     in (upd_mp a (\<lambda>m. m\<lparr>mp_block_list := Some start\<rparr>) s3, RT_EOK))"

definition rt_mp_detach :: "addr \<Rightarrow> kstate \<Rightarrow> kstate \<times> rt_err_t" where
  "rt_mp_detach a s =
    (let s1 = RT_ASSERT (obj_type_ok (ObjMemPool a) RT_Object_Class_MemPool s) s;
         s2 = RT_ASSERT (rt_object_is_systemobject (ObjMemPool a) s1) s1
     in (rt_object_detach (ObjMemPool a) (rt_ipc_list_resume_all (MempoolQ a) s2), RT_EOK))"

definition rt_mp_create :: "cstr \<Rightarrow> nat \<Rightarrow> nat \<Rightarrow> kstate \<Rightarrow> kstate \<times> addr option" where
  "rt_mp_create name block_count block_size s =
    (let s0 = RT_ASSERT (block_count > 0 \<and> block_size > 0) (RT_DEBUG_NOT_IN_INTERRUPT s) in
     case rt_object_allocate RT_Object_Class_MemPool name s0 of
       (s1, None) \<Rightarrow> (s1, None)
     | (s1, Some a) \<Rightarrow>
         let bs = align4 block_size;
             bytes = mul32 (add32 bs 4) block_count;
             s2 = upd_mp a (\<lambda>m. m\<lparr>mp_block_size := bs, mp_size := bytes\<rparr>) s1
         in case kernel_malloc bytes s2 of
              (s3, None) \<Rightarrow> (rt_object_delete (ObjMemPool a) s3, None)
            | (s3, Some start) \<Rightarrow>
                let s4 = upd_mp a (\<lambda>m. mp_set_counts block_count (m\<lparr>mp_start_address := start\<rparr>)) s3;
                    s5 = mp_link_blocks start bs block_count (rt_ipc_object_init (MempoolQ a) s4)
                in (upd_mp a (\<lambda>m. m\<lparr>mp_block_list := Some start\<rparr>) s5, Some a))"

definition rt_mp_delete :: "addr \<Rightarrow> kstate \<Rightarrow> kstate \<times> rt_err_t" where
  "rt_mp_delete a s =
    (let s0 = RT_DEBUG_NOT_IN_INTERRUPT s;
         s1 = RT_ASSERT (obj_type_ok (ObjMemPool a) RT_Object_Class_MemPool s0) s0;
         s2 = RT_ASSERT (\<not> rt_object_is_systemobject (ObjMemPool a) s1) s1;
         s3 = rt_ipc_list_resume_all (MempoolQ a) s2;
         s4 = kernel_free (Some (mp_start_address (get_mp a s3))) s3
     in (rt_object_delete (ObjMemPool a) s4, RT_EOK))"

text \<open>The link word of a block, read as the pointer the code takes it for.\<close>

definition word_pointer :: "block_word \<Rightarrow> addr option" where
  "word_pointer w = (case w of NextBlock n \<Rightarrow> n | OwnerPool p \<Rightarrow> Some p)"

definition mp_alloc_loop :: "addr \<Rightarrow> rt_int32_t \<Rightarrow> kstate \<Rightarrow> kstate \<times> addr option outcome" where
  "mp_alloc_loop a time s =
    (if mp_block_free_count (get_mp a s) = 0 then
       if time = 0 then (rt_set_errno (- RT_ETIMEOUT) s, Returns None)
       else
         let s1 = RT_DEBUG_NOT_IN_INTERRUPT s in
         case rt_thread_self s1 of
           None \<Rightarrow> (null_deref s1, Waits)
         | Some t \<Rightarrow>
             let s2 = fst (rt_thread_suspend t (set_error t RT_EOK s1));
                 s3 = list_insert_after (MempoolQ a) t s2;
                 s4 = (if sint time > 0 then thread_arm_timer t time s3 else s3)
             in (rt_schedule s4, Waits)
     else
       let s1 = upd_mp a (\<lambda>m. m\<lparr>mp_block_free_count := mp_block_free_count m - 1\<rparr>) s in
       case mp_block_list (get_mp a s1) of
         None \<Rightarrow> (null_deref s1, Returns None)
       | Some b \<Rightarrow>
           let s2 = upd_mp a (\<lambda>m. m\<lparr>mp_block_list := word_pointer (block_words s1 b)\<rparr>) s1
           in (put_word b (OwnerPool a) s2, Returns (Some (b + 4))))"

definition rt_mp_alloc :: "addr \<Rightarrow> rt_int32_t \<Rightarrow> kstate \<Rightarrow> kstate \<times> addr option outcome" where
  "rt_mp_alloc a time s = mp_alloc_loop a time s"

definition mp_alloc_resumed ::
    "addr \<Rightarrow> rt_int32_t \<Rightarrow> rt_tick_t \<Rightarrow> tid \<Rightarrow> kstate \<Rightarrow> kstate \<times> addr option outcome" where
  "mp_alloc_resumed a time before_sleep t s =
    (if th_error (thr s t) \<noteq> RT_EOK then (s, Returns None)
     else mp_alloc_loop a (remaining_timeout time before_sleep (rt_tick_get s)) s)"

definition rt_mp_free :: "addr option \<Rightarrow> kstate \<Rightarrow> kstate" where
  "rt_mp_free block s =
    (case block of
       None \<Rightarrow> s
     | Some p \<Rightarrow>
         (case block_words s (p - 4) of
            NextBlock _ \<Rightarrow> null_deref s
          | OwnerPool a \<Rightarrow>
              let b = p - 4;
                  s1 = upd_mp a (\<lambda>m. m\<lparr>mp_block_free_count := mp_block_free_count m + 1\<rparr>) s;
                  s2 = put_word b (NextBlock (mp_block_list (get_mp a s1))) s1;
                  s3 = upd_mp a (\<lambda>m. m\<lparr>mp_block_list := Some b\<rparr>) s2
              in (case tq s3 (MempoolQ a) of
                    [] \<Rightarrow> s3
                  | t # _ \<Rightarrow> rt_schedule (fst (rt_thread_resume t (set_error t RT_EOK s3))))))"

section \<open>The store of pools\<close>

interpretation mp: object_store get_mp upd_mp
proof
  show "get_mp a s' = get_mp a s" if "iview s' = iview s" for s' s a
    using iviewD(6) [OF that] by (simp add: get_mp_def)
qed (simp_all add: get_mp_def upd_mp_def sview_def)

lemmas mp_store [simp] = mp.get_kernel mp.get_upd mp.get_upd_other mp.upd_inv mp.upd_fields

lemma put_word_frame [simp]:
  "sview (put_word b w s) = sview s" "get_mp a (put_word b w s) = get_mp a s"
  "block_words (put_word b w s) = (block_words s)(b := w)" "tq (put_word b w s) = tq s"
  "block_words (upd_mp a f s) = block_words s"
  by (simp_all add: put_word_def sview_def get_mp_def upd_mp_def)

lemmas sched_inv_put_word [simp] = put_word_frame(1) [THEN sched_inv_sview]

section \<open>The scheduler invariant\<close>

lemma rt_set_errno_inv:
  assumes "sched_inv s"
  shows "sched_inv (rt_set_errno e s)"
proof -
  have "sched_inv (s\<lparr>rt_errno := e\<rparr>)" by (rule sched_inv_frame [OF _ assms]) (simp add: sview_def)
  then show ?thesis using assms by (simp add: rt_set_errno_def split: option.split)
qed

lemma mp_wait_inv:
  assumes inv: "sched_inv s" and st: "tstat (thr s t) = RT_THREAD_RUNNING"
  shows "sched_inv (list_insert_after (MempoolQ a) t (fst (rt_thread_suspend t s)))"
proof -
  let ?s = "fst (rt_thread_suspend t s)"
  have st': "tstat (thr s t) \<in> {RT_THREAD_READY, RT_THREAD_RUNNING}" using st by simp
  note eff = rt_thread_suspend_effect [OF st']
  have i: "sched_inv ?s" by (rule rt_thread_suspend_inv [OF inv])
  have u: "t \<notin> set (tq ?s h)" for h using removed_unlinked [OF inv] by (simp add: eff)
  show ?thesis
    unfolding list_insert_after_def
    by (rule link_inv [OF i u]) (use u distinct_tq [OF i] in \<open>simp_all add: eff\<close>)
qed

lemma mp_alloc_loop_inv:
  "sched_inv s \<Longrightarrow> thread_context s \<Longrightarrow> sched_inv (fst (mp_alloc_loop a time s))"
  by (auto simp: mp_alloc_loop_def Let_def thread_context_def rt_thread_self_def rt_set_errno_inv
      intro!: rt_schedule_inv_any thread_arm_timer_inv mp_wait_inv split: option.splits)

lemma rt_mp_free_inv: "sched_inv s \<Longrightarrow> sched_inv (rt_mp_free p s)"
  by (auto simp: rt_mp_free_def Let_def split: option.split block_word.split list.split
      intro!: rt_schedule_inv_any rt_thread_resume_inv)

section \<open>Free and allocated blocks\<close>

fun bchain :: "(addr \<Rightarrow> block_word) \<Rightarrow> addr option \<Rightarrow> addr list \<Rightarrow> bool" where
  "bchain bw h [] \<longleftrightarrow> h = None"
| "bchain bw h (b # bs) \<longleftrightarrow> h = Some b \<and> (\<exists>n. bw b = NextBlock n \<and> bchain bw n bs)"

definition mp_blocks :: "rt_mempool \<Rightarrow> addr list" where
  "mp_blocks m = map (block_at (mp_start_address m) (mp_block_size m)) [0..<mp_block_total_count m]"

text \<open>\<open>fl\<close> are the free blocks in the order in which they will be handed out.\<close>

definition mp_ok :: "addr \<Rightarrow> addr list \<Rightarrow> kstate \<Rightarrow> bool" where
  "mp_ok a fl s \<longleftrightarrow>
    bchain (block_words s) (mp_block_list (get_mp a s)) fl \<and> distinct fl \<and>
    set fl \<subseteq> set (mp_blocks (get_mp a s)) \<and> mp_block_free_count (get_mp a s) = length fl \<and>
    (\<forall>b\<in>set (mp_blocks (get_mp a s)) - set fl. block_words s b = OwnerPool a)"

lemma bchain_update: "b \<notin> set bs \<Longrightarrow> bchain (bw(b := w)) h bs = bchain bw h bs"
  by (induction bs arbitrary: h) auto

lemma mp_blocks_update [simp]:
  "mp_blocks (m\<lparr>mp_block_list := l\<rparr>) = mp_blocks m" "mp_blocks (m\<lparr>mp_block_free_count := n\<rparr>) = mp_blocks m"
  by (simp_all add: mp_blocks_def)

text \<open>Allocation takes the first free block.\<close>

lemma rt_mp_alloc_step:
  assumes ok: "mp_ok a (b # fl) s"
  shows "snd (rt_mp_alloc a time s) = Returns (Some (b + 4))" "mp_ok a fl (fst (rt_mp_alloc a time s))"
    "b \<in> set (mp_blocks (get_mp a s))" "block_words (fst (rt_mp_alloc a time s)) b = OwnerPool a"
proof -
  obtain n where n: "mp_block_list (get_mp a s) = Some b" "block_words s b = NextBlock n"
    "bchain (block_words s) n fl" "mp_block_free_count (get_mp a s) = Suc (length fl)" "b \<notin> set fl"
    using ok by (auto simp: mp_ok_def)
  show "snd (rt_mp_alloc a time s) = Returns (Some (b + 4))"
    "block_words (fst (rt_mp_alloc a time s)) b = OwnerPool a"
    using n by (simp_all add: rt_mp_alloc_def mp_alloc_loop_def Let_def)
  show "mp_ok a fl (fst (rt_mp_alloc a time s))"
    using n ok by (auto simp: rt_mp_alloc_def mp_alloc_loop_def Let_def mp_ok_def word_pointer_def bchain_update)
  show "b \<in> set (mp_blocks (get_mp a s))" using ok by (simp add: mp_ok_def)
qed

text \<open>Freeing an allocated block puts it at the front of the free list.\<close>

lemma rt_mp_free_step:
  assumes ok: "mp_ok a fl s" and b: "b \<in> set (mp_blocks (get_mp a s))" "b \<notin> set fl"
  shows "mp_ok a (b # fl) (rt_mp_free (Some (b + 4)) s)"
proof -
  have w: "block_words s b = OwnerPool a" using ok b by (auto simp: mp_ok_def)
  have g: "get_mp a (rt_mp_free (Some (b + 4)) s) = (get_mp a s)\<lparr>mp_block_free_count := mp_block_free_count (get_mp a s) + 1,
      mp_block_list := Some b\<rparr>"
    using w by (simp add: rt_mp_free_def Let_def split: list.split)
  have v: "iview (rt_mp_free (Some (b + 4)) s) = iview (upd_mp a (\<lambda>m. m\<lparr>mp_block_list := Some b\<rparr>)
      (put_word b (NextBlock (mp_block_list (get_mp a s)))
        (upd_mp a (\<lambda>m. m\<lparr>mp_block_free_count := mp_block_free_count m + 1\<rparr>) s)))"
    using w by (simp add: rt_mp_free_def Let_def split: list.split)
  have bw: "block_words (rt_mp_free (Some (b + 4)) s) =
      (block_words s)(b := NextBlock (mp_block_list (get_mp a s)))"
    using iviewD(7) [OF v] by simp
  show ?thesis
    using ok b w unfolding mp_ok_def g bw by (auto simp: bchain_update)
qed

lemma mp_ok_exhausted: "mp_ok a [] s \<Longrightarrow> rt_mp_alloc a 0 s = (rt_set_errno (- RT_ETIMEOUT) s, Returns None)"
  by (simp add: mp_ok_def rt_mp_alloc_def mp_alloc_loop_def)

section \<open>A new pool\<close>

lemma block_at_inj:
  assumes "start + n * (bs + 4) \<le> 2 ^ 32" "i < n" "j < n"
  shows "block_at start bs i = block_at start bs j \<longleftrightarrow> i = j"
proof -
  have "start + k * (bs + 4) < 2 ^ 32" if "k < n" for k
  proof -
    have "Suc k * (bs + 4) \<le> n * (bs + 4)" using that by (intro mult_le_mono1) simp
    then show ?thesis using assms(1) by simp
  qed
  then show ?thesis using assms by (simp add: block_at_def)
qed

lemma fold_put_word:
  assumes "start + n * (bs + 4) \<le> 2 ^ 32" "k \<le> n"
  defines "f \<equiv> fold (\<lambda>k. put_word (block_at start bs k) (NextBlock (Some (block_at start bs (k + 1))))) [0..<k]"
  shows "sview (f s) = sview s" "get_mp a (f s) = get_mp a s"
    "i < k \<Longrightarrow> block_words (f s) (block_at start bs i) = NextBlock (Some (block_at start bs (i + 1)))"
  unfolding f_def using assms(2)
proof (induction k)
  case (Suc k)
  {
    case 1 then show ?case using Suc by simp
  next
    case 2 then show ?case using Suc by simp
  next
    case 3 then show ?case
      using Suc block_at_inj [OF assms(1), of i k] by (auto simp: less_Suc_eq)
  }
qed simp_all

lemma mp_link_blocks_chain:
  fixes s :: kstate
  assumes n: "0 < n" "start + n * (bs + 4) \<le> 2 ^ 32" "n < 2 ^ 32"
  defines "s' \<equiv> mp_link_blocks start bs n s"
  shows "sview s' = sview s" "get_mp a s' = get_mp a s"
    "bchain (block_words s') (Some (block_at start bs 0)) (map (block_at start bs) [0..<n])"
proof -
  note f = fold_put_word [OF n(2) order.refl]
  have l: "sub32 n (Suc 0) = n - Suc 0" using n by (intro sub32_le) simp_all
  show "sview s' = sview s" "get_mp a s' = get_mp a s"
    using f(1,2) by (simp_all add: s'_def mp_link_blocks_def)
  have w: "block_words s' (block_at start bs i) =
      NextBlock (if i = n - 1 then None else Some (block_at start bs (i + 1)))" if "i < n" for i
    using f(3) [OF that] block_at_inj [OF n(2), of i "n - 1"] that n(1)
    by (auto simp: s'_def mp_link_blocks_def l)
  have "bchain (block_words s') (if i = n then None else Some (block_at start bs i))
      (map (block_at start bs) [i..<n])" if "i \<le> n" for i
    using that
  proof (induction rule: inc_induct)
    case (step i)
    then show ?case using w [of i] by (auto simp: upt_conv_Cons Suc_diff_Suc split: if_splits)
  qed simp
  from this [of 0] n(1) show "bchain (block_words s') (Some (block_at start bs 0)) (map (block_at start bs) [0..<n])"
    by simp
qed

lemma get_mp_object_init [simp]: "get_mp a (rt_object_init r c nm s) = get_mp a s"
  by (rule mp.get_iview) simp

lemma get_mp_ipc_init [simp]: "get_mp a (rt_ipc_object_init h s) = get_mp a s"
  by (rule mp.get_iview) (simp add: rt_ipc_object_init_def)

lemma rt_mp_init_ok:
  assumes n: "0 < align4_down sz div add32 (align4 bs) 4"
    and fit: "start + align4_down sz div add32 (align4 bs) 4 * (align4 bs + 4) \<le> 2 ^ 32"
    and sz: "sz < 2 ^ 32" and st: "start < 2 ^ 32"
  shows "mp_ok a (mp_blocks (get_mp a (fst (rt_mp_init a nm start sz bs s)))) (fst (rt_mp_init a nm start sz bs s))"
    "length (mp_blocks (get_mp a (fst (rt_mp_init a nm start sz bs s)))) = align4_down sz div add32 (align4 bs) 4"
proof -
  let ?n = "align4_down sz div add32 (align4 bs) 4"
  let ?s = "fst (rt_mp_init a nm start sz bs s)"
  have lt: "?n < 2 ^ 32"
  proof -
    have "?n \<le> align4_down sz" by (rule div_le_dividend)
    also have "\<dots> \<le> sz" by (simp add: align4_down_def)
    finally show ?thesis using sz by simp
  qed
  note l = mp_link_blocks_chain [OF n fit lt]
  have m: "mp_blocks (get_mp a ?s) = map (block_at start (align4 bs)) [0..<?n]"
    by (simp add: rt_mp_init_def Let_def l(2) mp_blocks_def mp_set_counts_def)
  have "block_at start (align4 bs) 0 = start" using st by (simp add: block_at_def)
  then have "bchain (block_words ?s) (mp_block_list (get_mp a ?s)) (map (block_at start (align4 bs)) [0..<?n])"
    using l(3) by (simp add: rt_mp_init_def Let_def)
  moreover have "distinct (map (block_at start (align4 bs)) [0..<?n])"
    using block_at_inj [OF fit] by (auto simp: distinct_map inj_on_def)
  moreover have "mp_block_free_count (get_mp a ?s) = ?n"
    by (simp add: rt_mp_init_def Let_def l(2) mp_set_counts_def)
  ultimately show "mp_ok a (mp_blocks (get_mp a ?s)) ?s" unfolding mp_ok_def m by simp
  show "length (mp_blocks (get_mp a ?s)) = ?n" by (simp add: m)
qed

lemma mp_alloc_free_cases:
  assumes ok: "mp_ok a fl s"
  shows "case fl of
      [] \<Rightarrow> snd (rt_mp_alloc a 0 s) = Returns None
    | b # bs \<Rightarrow> snd (rt_mp_alloc a time s) = Returns (Some (b + 4)) \<and>
        mp_ok a bs (fst (rt_mp_alloc a time s)) \<and>
        block_words (fst (rt_mp_alloc a time s)) b = OwnerPool a \<and>
        mp_ok a fl (rt_mp_free (Some (b + 4)) (fst (rt_mp_alloc a time s)))"
proof (cases fl)
  case Nil
  then show ?thesis using mp_ok_exhausted ok by simp
next
  case (Cons b bs)
  note al = rt_mp_alloc_step(1,2,4) [OF ok [unfolded Cons], where time = time]
  let ?s = "fst (rt_mp_alloc a time s)"
  have "b \<notin> set bs" using ok Cons by (simp add: mp_ok_def)
  moreover have "mp_blocks (get_mp a ?s) = mp_blocks (get_mp a s)"
    using ok Cons by (auto simp: rt_mp_alloc_def mp_alloc_loop_def Let_def mp_ok_def)
  ultimately show ?thesis using al rt_mp_alloc_step(3) [OF ok [unfolded Cons]] rt_mp_free_step [OF al(2)] Cons by simp
qed

text \<open>A pool of 100 bytes at address 4096 for blocks of 13 bytes has five blocks.\<close>

lemma mp_demo_blocks:
  "mp_blocks (get_mp a (fst (rt_mp_init a nm 4096 100 13 s))) = [4096, 4116, 4136, 4156, 4176]"
proof -
  have "mp_blocks (get_mp a (fst (rt_mp_init a nm 4096 100 13 s))) = map (block_at 4096 16) [0..<5]"
    using mp_link_blocks_chain(2) [of 5 4096 16]
    by (simp add: rt_mp_init_def Let_def mp_blocks_def mp_set_counts_def align4_def align4_down_def add32_def)
  then show ?thesis by (simp add: block_at_def upt_rec)
qed

end
