(* ===== verification/TimerCheck.thy ===== *)
theory TimerCheck
  imports TimerStart
begin

text \<open>
  What the two timer checks of \<^verbatim>\<open>rt-thread/src/timer.c\<close> do. With callbacks that leave the timers
  alone, \<^verbatim>\<open>rt_timer_check\<close> ends, fires exactly the expired timers in the order of their
  deadlines, puts the periodic ones back and leaves a list with nothing expired. The soft check
  reads its next node before a callback runs: a callback that stops the timer of that node
  makes the loop run forever.
\<close>

section \<open>What starting a hard timer does\<close>

definition timeouts :: "kstate \<Rightarrow> timer_ref \<Rightarrow> rt_tick_t" where
  "timeouts s t = tm_timeout_tick (tmr s t)"

definition periodic :: "timer_ref \<Rightarrow> kstate \<Rightarrow> bool" where
  "periodic r s \<longleftrightarrow> timer_flag r s AND RT_TIMER_FLAG_PERIODIC \<noteq> 0"

definition activated :: "timer_ref \<Rightarrow> kstate \<Rightarrow> bool" where
  "activated r s \<longleftrightarrow> timer_flag r s AND RT_TIMER_FLAG_ACTIVATED \<noteq> 0"

lemma flag_bits:
  "(f AND NOT RT_TIMER_FLAG_ACTIVATED) AND RT_TIMER_FLAG_PERIODIC = f AND RT_TIMER_FLAG_PERIODIC"
  "(f OR RT_TIMER_FLAG_ACTIVATED) AND RT_TIMER_FLAG_PERIODIC = f AND RT_TIMER_FLAG_PERIODIC"
  "(f OR RT_TIMER_FLAG_ACTIVATED) AND RT_TIMER_FLAG_ACTIVATED \<noteq> 0"
  "(f AND NOT RT_TIMER_FLAG_ACTIVATED) AND RT_TIMER_FLAG_ACTIVATED = 0"
proof -
  have "NOT RT_TIMER_FLAG_ACTIVATED AND RT_TIMER_FLAG_PERIODIC = RT_TIMER_FLAG_PERIODIC"
    "RT_TIMER_FLAG_ACTIVATED AND RT_TIMER_FLAG_PERIODIC = 0" "RT_TIMER_FLAG_ACTIVATED \<noteq> 0"
    by (simp_all add: rt_flag_defs)
  then show "(f AND NOT RT_TIMER_FLAG_ACTIVATED) AND RT_TIMER_FLAG_PERIODIC = f AND RT_TIMER_FLAG_PERIODIC"
    "(f OR RT_TIMER_FLAG_ACTIVATED) AND RT_TIMER_FLAG_PERIODIC = f AND RT_TIMER_FLAG_PERIODIC"
    "(f OR RT_TIMER_FLAG_ACTIVATED) AND RT_TIMER_FLAG_ACTIVATED \<noteq> 0"
    "(f AND NOT RT_TIMER_FLAG_ACTIVATED) AND RT_TIMER_FLAG_ACTIVATED = 0"
    by (simp_all add: and.assoc bit.conj_disj_distrib2)
qed

lemma activated_nonzero [simp]: "RT_TIMER_FLAG_ACTIVATED \<noteq> 0"
  by (simp add: rt_flag_defs)

lemma timer_flag_upd:
  "timer_flag u (upd_flag r f s) = (if u = r then f (timer_flag r s) else timer_flag u s)"
  by (simp add: timer_flag_def upd_flag_def upd_obj_def)

lemma upd_flag_fields [simp]:
  "tmr (upd_flag r f s) = tmr s" "rt_timer_list (upd_flag r f s) = rt_timer_list s"
  "rt_soft_timer_list (upd_flag r f s) = rt_soft_timer_list s" "rt_tick (upd_flag r f s) = rt_tick s"
  by (simp_all add: upd_flag_def upd_obj_def)

lemma timer_remove_fields [simp]:
  "tmr (timer_remove r s) = tmr s" "rt_timer_list (timer_remove r s) = remove1 r (rt_timer_list s)"
  "timer_flag u (timer_remove r s) = timer_flag u s" "rt_tick (timer_remove r s) = rt_tick s"
  by (simp_all add: timer_remove_def timer_flag_def)

lemma upd_tmr_fields [simp]:
  "tmr (upd_tmr r f s) = (tmr s)(r := f (tmr s r))" "rt_timer_list (upd_tmr r f s) = rt_timer_list s"
  "timer_flag u (upd_tmr r f s) = timer_flag u s" "rt_tick (upd_tmr r f s) = rt_tick s"
  "rt_soft_timer_list (upd_tmr r f s) = rt_soft_timer_list s"
  by (simp_all add: upd_tmr_def timer_flag_def)

lemma RT_ASSERT_timer [simp]:
  "tmr (RT_ASSERT b s) = tmr s" "rt_timer_list (RT_ASSERT b s) = rt_timer_list s"
  "timer_flag u (RT_ASSERT b s) = timer_flag u s" "rt_tick (RT_ASSERT b s) = rt_tick s"
  "rt_soft_timer_list (RT_ASSERT b s) = rt_soft_timer_list s"
  by (simp_all add: RT_ASSERT_def timer_flag_def)

lemma timer_flag_list [simp]: "timer_flag u (s\<lparr>rt_timer_list := ts\<rparr>) = timer_flag u s"
  by (simp add: timer_flag_def)

lemma timer_start_hard:
  assumes "\<not> soft_timer r s"
  defines "s' \<equiv> fst (rt_timer_start r s)"
  shows "tmr s' = (tmr s)(r := (tmr s r)\<lparr>tm_timeout_tick := rt_tick s + tm_init_tick (tmr s r)\<rparr>)"
    "rt_timer_list s' = timer_insert (timeouts s') r (remove1 r (rt_timer_list s))"
    "rt_tick s' = rt_tick s" "periodic u s' = periodic u s" "soft_timer u s' = soft_timer u s"
    "activated u s' = (if u = r then True else activated u s)"
proof -
  have soft: "timer_flag r s AND RT_TIMER_FLAG_SOFT_TIMER = 0" using assms(1) by (simp add: soft_timer_def)
  show "tmr s' = (tmr s)(r := (tmr s r)\<lparr>tm_timeout_tick := rt_tick s + tm_init_tick (tmr s r)\<rparr>)"
    "rt_tick s' = rt_tick s" "periodic u s' = periodic u s" "soft_timer u s' = soft_timer u s"
    "activated u s' = (if u = r then True else activated u s)"
    using soft by (auto simp: s'_def rt_timer_start_def Let_def timer_flag_upd soft_flag_active flag_bits
        rt_tick_get_def periodic_def soft_timer_def activated_def)
  show "rt_timer_list s' = timer_insert (timeouts s') r (remove1 r (rt_timer_list s))"
    using soft by (simp add: s'_def rt_timer_start_def Let_def timer_flag_upd soft_flag_active
        rt_tick_get_def timeouts_def [abs_def])
qed

text \<open>Where a started hard timer goes in an ordered list.\<close>

lemma timer_start_hard_position:
  assumes o: "timer_ordered base (timeouts s) (rt_timer_list s)" and d: "distinct (rt_timer_list s)"
    and h: "\<not> soft_timer r s" and b: "delta base (rt_tick s + tm_init_tick (tmr s r)) < half_range"
  defines "s' \<equiv> fst (rt_timer_start r s)" and "x \<equiv> rt_tick s + tm_init_tick (tmr s r)"
  shows "timer_ordered base (timeouts s') (rt_timer_list s')" "timeouts s' r = x"
    "\<exists>before after. rt_timer_list s' = before @ r # after \<and> before @ after = remove1 r (rt_timer_list s) \<and>
      (\<forall>t\<in>set before. delta base (timeouts s t) \<le> delta base x) \<and>
      (\<forall>t\<in>set after. delta base x < delta base (timeouts s t))"
proof -
  let ?l = "remove1 r (rt_timer_list s)"
  note st = timer_start_hard [OF h, folded s'_def]
  show x: "timeouts s' r = x" by (simp add: timeouts_def st(1) x_def)
  have same: "timeouts s' t = timeouts s t" if "t \<in> set ?l" for t
    using that d by (auto simp: timeouts_def st(1))
  have "timer_ordered base (timeouts s) ?l" by (rule timer_ordered_remove1 [OF o])
  then have o': "timer_ordered base (timeouts s') ?l"
    using same by (auto simp: timer_ordered_def cong: map_cong)
  show "timer_ordered base (timeouts s') (rt_timer_list s')"
    unfolding st(2) using timer_insert_ordered [OF o'] b x by (simp add: x_def)
  let ?P = "\<lambda>t. delta base (timeouts s' t) \<le> delta base (timeouts s' r)"
  have l: "rt_timer_list s' = takeWhile ?P ?l @ r # dropWhile ?P ?l"
    unfolding st(2) using timer_insert_position [OF o'] b x by (simp add: x_def)
  have late: "\<not> ?P t" if "t \<in> set (dropWhile ?P ?l)" for t
  proof -
    have "sorted (map (\<lambda>t. delta base (timeouts s' t)) (dropWhile ?P ?l))"
      using o' by (auto simp: timer_ordered_def sorted_wrt_map intro: sorted_wrt_dropWhile)
    moreover have ne: "dropWhile ?P ?l \<noteq> []" using that by (metis empty_iff list.set(1))
    then obtain u us where u: "dropWhile ?P ?l = u # us" by (metis neq_Nil_conv)
    moreover from this have "\<not> ?P u" using hd_dropWhile [OF ne] by simp
    ultimately show ?thesis using that by auto
  qed
  have "(\<forall>t\<in>set (takeWhile ?P ?l). delta base (timeouts s t) \<le> delta base x)"
  proof
    fix t assume "t \<in> set (takeWhile ?P ?l)"
    from set_takeWhileD [OF this] show "delta base (timeouts s t) \<le> delta base x" using same [of t] x by simp
  qed
  moreover have "(\<forall>t\<in>set (dropWhile ?P ?l). delta base x < delta base (timeouts s t))"
  proof
    fix t assume t: "t \<in> set (dropWhile ?P ?l)"
    show "delta base x < delta base (timeouts s t)"
      using late [OF t] same [OF set_dropWhileD [OF t]] x by simp
  qed
  ultimately show "\<exists>before after. rt_timer_list s' = before @ r # after \<and> before @ after = ?l \<and>
      (\<forall>t\<in>set before. delta base (timeouts s t) \<le> delta base x) \<and>
      (\<forall>t\<in>set after. delta base x < delta base (timeouts s t))"
    using l by (intro exI [of _ "takeWhile ?P ?l"] exI [of _ "dropWhile ?P ?l"]) simp
qed

lemma timer_rearm_hard:
  assumes "\<not> soft_timer r s"
  shows "periodic r s \<and> activated r s \<Longrightarrow> rt_timer_list (timer_rearm r s) =
      timer_insert (timeouts (timer_rearm r s)) r (remove1 r (rt_timer_list s))"
    "\<not> (periodic r s \<and> activated r s) \<Longrightarrow> rt_timer_list (timer_rearm r s) = rt_timer_list s"
    "tmr (timer_rearm r s) = (if periodic r s \<and> activated r s
       then (tmr s)(r := (tmr s r)\<lparr>tm_timeout_tick := rt_tick s + tm_init_tick (tmr s r)\<rparr>) else tmr s)"
    "rt_tick (timer_rearm r s) = rt_tick s" "periodic u (timer_rearm r s) = periodic u s"
    "soft_timer u (timer_rearm r s) = soft_timer u s"
    "u \<noteq> r \<Longrightarrow> activated u (timer_rearm r s) = activated u s"
proof -
  let ?c = "upd_flag r (\<lambda>f. f AND NOT RT_TIMER_FLAG_ACTIVATED) s"
  have h: "\<not> soft_timer r ?c" using assms by simp
  note st = timer_start_hard [OF h]
  have p: "periodic u ?c = periodic u s" "u \<noteq> r \<Longrightarrow> activated u ?c = activated u s" for u
    by (simp_all add: periodic_def activated_def timer_flag_upd flag_bits)
  have eq: "timer_rearm r s = (if periodic r s \<and> activated r s then fst (rt_timer_start r ?c) else ?c)"
    by (simp add: timer_rearm_def Let_def periodic_def activated_def)
  show "periodic r s \<and> activated r s \<Longrightarrow> rt_timer_list (timer_rearm r s) =
      timer_insert (timeouts (timer_rearm r s)) r (remove1 r (rt_timer_list s))"
    "\<not> (periodic r s \<and> activated r s) \<Longrightarrow> rt_timer_list (timer_rearm r s) = rt_timer_list s"
    "tmr (timer_rearm r s) = (if periodic r s \<and> activated r s
       then (tmr s)(r := (tmr s r)\<lparr>tm_timeout_tick := rt_tick s + tm_init_tick (tmr s r)\<rparr>) else tmr s)"
    "rt_tick (timer_rearm r s) = rt_tick s" "periodic u (timer_rearm r s) = periodic u s"
    "soft_timer u (timer_rearm r s) = soft_timer u s"
    "u \<noteq> r \<Longrightarrow> activated u (timer_rearm r s) = activated u s"
    unfolding eq using st p by auto
qed

section \<open>Running the expired timers\<close>

text \<open>A callback is quiet when it does not touch the timers or the tick.\<close>

definition quiet :: "callbacks \<Rightarrow> bool" where
  "quiet cb \<longleftrightarrow> (\<forall>f p s. tmview (cb f p s) = tmview s)"

lemma tmview_run_timeout: "quiet cb \<Longrightarrow> tmview (run_timeout cb f s) = tmview s"
  by (simp add: run_timeout_def quiet_def split: timeout_func.split)

lemma expired_iff:
  assumes "delta base now < half_range" "delta base x < half_range"
  shows "now - x < RT_TICK_MAX div 2 \<longleftrightarrow> delta base x \<le> delta base now"
proof (cases "now - x = 0")
  case True
  then show ?thesis by (simp add: tick_less_half half_range_val)
next
  case False
  then have "delta base x \<noteq> delta base now" by (simp add: delta_def word_unat_eq_iff [symmetric])
  then show ?thesis using later_iff [OF assms] False by auto
qed

text \<open>
  What the check assumes of the list: hard timers, ordered from \<open>base\<close>, and periods that are
  positive and reach less than half the range from \<open>base\<close>.
\<close>

definition check_pre :: "rt_tick_t \<Rightarrow> kstate \<Rightarrow> bool" where
  "check_pre base s \<longleftrightarrow>
    distinct (rt_timer_list s) \<and> timer_ordered base (timeouts s) (rt_timer_list s) \<and>
    delta base (rt_tick s) < half_range \<and>
    (\<forall>t\<in>set (rt_timer_list s). \<not> soft_timer t s \<and>
      (periodic t s \<longrightarrow> 0 < tm_init_tick (tmr s t) \<and>
        delta base (rt_tick s) + unat (tm_init_tick (tmr s t)) < half_range))"

definition expired :: "rt_tick_t \<Rightarrow> kstate \<Rightarrow> timer_ref list" where
  "expired base s = filter (\<lambda>t. delta base (timeouts s t) \<le> delta base (rt_tick s)) (rt_timer_list s)"

lemma delta_add:
  assumes "delta base now + unat k < half_range"
  shows "delta base (now + k) = delta base now + unat k"
proof -
  have eq: "now + k - base = (now - base) + k" by simp
  have "unat (now - base) + unat k < 2 ^ LENGTH(32)"
    using assms by (simp add: delta_def half_range_val)
  then have "unat ((now - base) + k) = unat (now - base) + unat k" by (simp add: unat_word_ariths)
  then show ?thesis unfolding delta_def eq .
qed

text \<open>One round of the loop: the first timer fires, and is put back when it is periodic.\<close>

lemma check_round:
  assumes pre: "check_pre base s" and l: "rt_timer_list s = t # ts" and q: "quiet cb"
    and e: "delta base (timeouts s t) \<le> delta base (rt_tick s)"
  defines "s' \<equiv> timer_rearm t (timer_fire cb t s)"
  defines "re \<equiv> periodic t s \<and> activated t s"
  shows "check_pre base s'" "expired base s' = tl (expired base s)" "rt_tick s' = rt_tick s"
    "set (rt_timer_list s') = (if re then insert t (set ts) else set ts)"
    "u \<noteq> t \<Longrightarrow> tmr s' u = tmr s u" "re \<Longrightarrow> timeouts s' t = rt_tick s + tm_init_tick (tmr s t)"
    "periodic u s' = periodic u s" "u \<noteq> t \<Longrightarrow> activated u s' = activated u s"
proof -
  define s1 where "s1 = timer_fire cb t s"
  have v: "tmview s1 = tmview (timer_remove t s)"
    unfolding s1_def timer_fire_def by (rule tmview_run_timeout [OF q])
  note f = tmviewD [OF v]
  have fl: "timer_flag u s1 = timer_flag u s" for u using f(4) by (simp add: timer_flag_def timer_remove_def)
  have s1: "rt_timer_list s1 = ts" "tmr s1 = tmr s" "rt_tick s1 = rt_tick s"
    "soft_timer u s1 = soft_timer u s" "periodic u s1 = periodic u s" "activated u s1 = activated u s" for u
    using f l fl by (simp_all add: soft_timer_def periodic_def activated_def)
  have p: "distinct (t # ts)" "timer_ordered base (timeouts s) (t # ts)" "\<not> soft_timer t s"
    "delta base (rt_tick s) < half_range"
    "periodic t s \<Longrightarrow> 0 < tm_init_tick (tmr s t) \<and> delta base (rt_tick s) + unat (tm_init_tick (tmr s t)) < half_range"
    using pre l by (auto simp: check_pre_def)
  have h: "\<not> soft_timer t s1" using p s1 by simp
  have s': "s' = timer_rearm t s1" by (simp add: s'_def s1_def)
  note r = timer_rearm_hard [OF h, folded s']
  have re: "re = (periodic t s1 \<and> activated t s1)" by (simp add: re_def s1)
  have rm: "remove1 t ts = ts" using p(1) by simp
  have li: "rt_timer_list s' = (if re then timer_insert (timeouts s') t ts else ts)"
    using r(1,2) re s1(1) rm by auto
  show tk: "rt_tick s' = rt_tick s" using r(4) s1 by simp
  show tm: "u \<noteq> t \<Longrightarrow> tmr s' u = tmr s u" for u using r(3) s1 by simp
  show nt: "re \<Longrightarrow> timeouts s' t = rt_tick s + tm_init_tick (tmr s t)"
    using r(3) re s1 by (simp add: timeouts_def)
  show "set (rt_timer_list s') = (if re then insert t (set ts) else set ts)" using li by simp
  show pd: "periodic u s' = periodic u s" for u using r(5) s1 by simp
  show "u \<noteq> t \<Longrightarrow> activated u s' = activated u s" using r(7) s1 by simp
  have same: "timeouts s' u = timeouts s u" if "u \<in> set ts" for u
  proof -
    have "u \<noteq> t" using that p(1) by auto
    then show ?thesis using tm by (simp add: timeouts_def)
  qed
  have ots: "timer_ordered base (timeouts s') ts"
    using p(2) same by (auto simp: timer_ordered_def cong: map_cong)
  have nd: "delta base (timeouts s' t) = delta base (rt_tick s) + unat (tm_init_tick (tmr s t))" if re
    using nt [OF that] p(5) that delta_add re_def by simp
  have late: "delta base (rt_tick s) < delta base (timeouts s' t)" "delta base (timeouts s' t) < half_range" if re
    using nd [OF that] p(5) that re_def by (simp_all add: word_less_nat_alt)
  have o: "timer_ordered base (timeouts s') (rt_timer_list s')"
    using li ots timer_insert_ordered [OF ots] late(2) by simp
  have init: "tm_init_tick (tmr s' u) = tm_init_tick (tmr s u)" for u using r(3) s1 by simp
  have d: "distinct (rt_timer_list s')"
    using li p(1) mset_distinct_timer_insert [of t ts] by simp
  have sub: "set (rt_timer_list s') \<subseteq> set (rt_timer_list s)" using li l by auto
  show "check_pre base s'"
    using pre sub o d tk pd init r(6) s1 unfolding check_pre_def by (simp add: subset_iff)
  have "expired base s' = filter (\<lambda>u. delta base (timeouts s' u) \<le> delta base (rt_tick s)) ts"
  proof (cases re)
    case True
    have "filter P (timer_insert (timeouts s') t xs) = filter P xs" if "\<not> P t" for P xs
      using that by (induction xs) auto
    then show ?thesis using True late(1) li tk by (simp add: expired_def)
  qed (use li tk in \<open>simp add: expired_def\<close>)
  also have "\<dots> = filter (\<lambda>u. delta base (timeouts s u) \<le> delta base (rt_tick s)) ts"
    using same by (intro filter_cong) simp_all
  finally show "expired base s' = tl (expired base s)" using e by (simp add: expired_def l)
qed

lemma expired_hd:
  assumes "check_pre base s" "expired base s \<noteq> []"
  shows "rt_timer_list s \<noteq> []" "expired base s = hd (rt_timer_list s) # tl (expired base s)"
    "delta base (timeouts s (hd (rt_timer_list s))) \<le> delta base (rt_tick s)"
proof -
  obtain u where u: "u \<in> set (rt_timer_list s)" "delta base (timeouts s u) \<le> delta base (rt_tick s)"
    using assms(2) by (auto simp: expired_def filter_empty_conv)
  then show ne: "rt_timer_list s \<noteq> []" by auto
  show le: "delta base (timeouts s (hd (rt_timer_list s))) \<le> delta base (rt_tick s)"
    using timer_ordered_hd [of base "timeouts s" "rt_timer_list s" u] u assms(1) by (auto simp: check_pre_def)
  show "expired base s = hd (rt_timer_list s) # tl (expired base s)"
    using ne le by (cases "rt_timer_list s") (auto simp: expired_def)
qed

lemma expired_nil:
  assumes "check_pre base s" "expired base s = []" "rt_timer_list s = t # ts"
  shows "\<not> rt_tick s - tm_timeout_tick (tmr s t) < RT_TICK_MAX div 2"
proof -
  have "delta base (timeouts s t) < half_range" "delta base (rt_tick s) < half_range"
    using assms by (auto simp: check_pre_def timer_ordered_def)
  then show ?thesis
    using assms expired_iff [of base "rt_tick s" "timeouts s t"] by (simp add: expired_def timeouts_def split: if_splits)
qed

lemma timer_check_loop_spec:
  assumes "check_pre base s" "quiet cb" "length (expired base s) < fuel"
  shows "timer_check_loop cb fuel (rt_tick s) s =
      Some (fold (\<lambda>t s. timer_rearm t (timer_fire cb t s)) (expired base s) s) \<and>
    expired base (fold (\<lambda>t s. timer_rearm t (timer_fire cb t s)) (expired base s) s) = [] \<and>
    check_pre base (fold (\<lambda>t s. timer_rearm t (timer_fire cb t s)) (expired base s) s)"
  using assms
proof (induction "length (expired base s)" arbitrary: s fuel)
  case 0
  then have e: "expired base s = []" by simp
  obtain k where k: "fuel = Suc k" using 0 by (cases fuel) auto
  show ?case
    using expired_nil [OF 0(2) e] 0(2) e k by (cases "rt_timer_list s") simp_all
next
  case (Suc n)
  obtain k where k: "fuel = Suc k" using Suc.prems by (cases fuel) auto
  have ne: "expired base s \<noteq> []" using Suc.hyps(2) by auto
  note hd = expired_hd [OF Suc.prems(1) ne]
  define t where "t = hd (rt_timer_list s)"
  have l: "rt_timer_list s = t # tl (rt_timer_list s)" using hd(1) by (simp add: t_def)
  have le: "delta base (timeouts s t) \<le> delta base (rt_tick s)" using hd(3) by (simp add: t_def)
  note rd = check_round [OF Suc.prems(1) l Suc.prems(2) le]
  let ?s = "timer_rearm t (timer_fire cb t s)"
  have ex: "expired base s = t # expired base ?s" using hd(2) rd(2) by (simp add: t_def)
  have "delta base (timeouts s t) < half_range" "delta base (rt_tick s) < half_range"
    using Suc.prems(1) list.set_sel(1) [OF hd(1)] by (auto simp: check_pre_def timer_ordered_def t_def)
  then have fire: "rt_tick s - tm_timeout_tick (tmr s t) < RT_TICK_MAX div 2"
    using expired_iff [of base "rt_tick s" "timeouts s t"] le by (simp add: timeouts_def)
  have tk: "rt_tick_get (timer_fire cb t s) = rt_tick ?s"
  proof -
    have "rt_tick (timer_fire cb t s) = rt_tick (timer_remove t s)"
      unfolding timer_fire_def by (rule tmviewD(5) [OF tmview_run_timeout [OF Suc.prems(2)]])
    then show ?thesis using rd(3) by (simp add: rt_tick_get_def)
  qed
  have step: "timer_check_loop cb fuel (rt_tick s) s = timer_check_loop cb k (rt_tick ?s) ?s"
    using fire unfolding k timer_check_loop.simps(2) by (subst l) (simp add: Let_def tk)
  have "n = length (expired base ?s)" "length (expired base ?s) < k"
    using Suc.hyps(2) Suc.prems(3) ex k by simp_all
  from Suc.hyps(1) [OF this(1) rd(1) Suc.prems(2) this(2)]
  show ?case using step ex by simp
qed

lemma timer_check_ends:
  assumes "check_pre base s" "quiet cb" "length (rt_timer_list s) < fuel"
  defines "s' \<equiv> fold (\<lambda>t s. timer_rearm t (timer_fire cb t s)) (expired base s) s"
  shows "rt_timer_check cb fuel s = Some s'" "expired base s' = []" "check_pre base s'"
proof -
  have "length (expired base s) \<le> length (rt_timer_list s)" by (simp add: expired_def)
  then show "rt_timer_check cb fuel s = Some s'" "expired base s' = []" "check_pre base s'"
    using timer_check_loop_spec [OF assms(1,2), of fuel] assms(3)
    by (simp_all add: rt_timer_check_def rt_tick_get_def s'_def)
qed

section \<open>A callback that stops the next soft timer\<close>

text \<open>
  \<^verbatim>\<open>rt_soft_timer_check\<close> reads the next node before it runs a callback. If the callback stops that
  timer, the node is unlinked and its link points to itself, so the loop visits it again and
  again: with the callbacks below no amount of fuel is enough.
\<close>

definition stop_cb :: "timer_ref \<Rightarrow> callbacks" where
  "stop_cb r f p s = fst (rt_timer_stop r s)"

lemma list_succ_unlinked: "r \<notin> set xs \<Longrightarrow> list_succ r xs = Some r"
  by (induction xs) auto

lemma timer_remove_soft [simp]:
  "rt_soft_timer_list (timer_remove r s) = remove1 r (rt_soft_timer_list s)"
  by (simp add: timer_remove_def)

lemma timer_flag_tmview: "tmview s' = tmview s \<Longrightarrow> timer_flag r s' = timer_flag r s"
  by (simp add: timer_flag_def tmview_def)

lemma timer_rearm_oneshot:
  assumes "\<not> (periodic r s \<and> activated r s)"
  shows "timer_rearm r s = upd_flag r (\<lambda>f. f AND NOT RT_TIMER_FLAG_ACTIVATED) s"
  using assms by (auto simp: timer_rearm_def Let_def periodic_def activated_def)

lemma stop_cb_fields:
  "tmr (stop_cb r f p s) = tmr s" "rt_tick (stop_cb r f p s) = rt_tick s"
  "activated u (stop_cb r f p s) = (if u = r then False else activated u s)"
  "periodic u (stop_cb r f p s) = periodic u s"
  "r \<notin> set (rt_soft_timer_list s) \<or> activated r s \<Longrightarrow>
    rt_soft_timer_list (stop_cb r f p s) = remove1 r (rt_soft_timer_list s)"
  by (auto simp: stop_cb_def rt_timer_stop_def Let_def activated_def periodic_def timer_flag_upd flag_bits
      remove1_idem)

text \<open>One round of the soft loop for a one-shot timer whose callback stops \<open>b\<close>.\<close>

definition soft_round :: "timer_ref \<Rightarrow> timer_ref \<Rightarrow> addr \<Rightarrow> addr \<Rightarrow> kstate \<Rightarrow> kstate" where
  "soft_round b t f p s =
    timer_rearm t (rt_enter_critical (stop_cb b f p (rt_exit_critical (timer_remove t s))))"

lemma soft_round_fields:
  assumes "\<not> (periodic t s \<and> activated t s) \<or> t = b"
    "b \<notin> set (remove1 t (rt_soft_timer_list s)) \<or> activated b s"
  shows "tmr (soft_round b t f p s) = tmr s" "rt_tick (soft_round b t f p s) = rt_tick s"
    "\<not> activated b (soft_round b t f p s)"
    "rt_soft_timer_list (soft_round b t f p s) = remove1 b (remove1 t (rt_soft_timer_list s))"
proof -
  define s1 where "s1 = rt_exit_critical (timer_remove t s)"
  have v: "tmview s1 = tmview (timer_remove t s)" by (simp add: s1_def)
  have a: "activated u s1 = activated u s" "periodic u s1 = periodic u s" for u
    using timer_flag_tmview [OF v] by (simp_all add: activated_def periodic_def)
  have l: "rt_soft_timer_list s1 = remove1 t (rt_soft_timer_list s)" "tmr s1 = tmr s" "rt_tick s1 = rt_tick s"
    using tmviewD [OF v] by simp_all
  define s3 where "s3 = rt_enter_critical (stop_cb b f p s1)"
  have v3: "tmview s3 = tmview (stop_cb b f p s1)" by (simp add: s3_def)
  have a3: "activated u s3 = activated u (stop_cb b f p s1)" "periodic u s3 = periodic u (stop_cb b f p s1)" for u
    using timer_flag_tmview [OF v3] by (simp_all add: activated_def periodic_def)
  have "\<not> (periodic t s3 \<and> activated t s3)" using assms(1) a a3 by (auto simp: stop_cb_fields)
  then have eq: "soft_round b t f p s = upd_flag t (\<lambda>f. f AND NOT RT_TIMER_FLAG_ACTIVATED) s3"
    unfolding soft_round_def s1_def [symmetric] s3_def [symmetric] by (rule timer_rearm_oneshot)
  show "tmr (soft_round b t f p s) = tmr s" "rt_tick (soft_round b t f p s) = rt_tick s"
    using tmviewD [OF v3] l by (simp_all add: eq stop_cb_fields)
  show "\<not> activated b (soft_round b t f p s)"
  proof -
    have "\<not> activated b s3" using a3 by (simp add: stop_cb_fields)
    then show ?thesis unfolding eq by (simp add: activated_def timer_flag_upd flag_bits)
  qed
  show "rt_soft_timer_list (soft_round b t f p s) = remove1 b (remove1 t (rt_soft_timer_list s))"
    using tmviewD [OF v3] l assms(2) a by (simp add: eq stop_cb_fields)
qed

lemma soft_check_step:
  assumes "rt_tick s - tm_timeout_tick (tmr s t) < RT_TICK_MAX div 2"
    "tm_timeout_func (tmr s t) = App_timeout f p"
  shows "soft_check_loop (stop_cb b) (Suc fuel) (rt_tick s) (Some t) s =
    soft_check_loop (stop_cb b) fuel (rt_tick s) (list_succ t (rt_soft_timer_list s)) (soft_round b t f p s)"
proof -
  have "rt_tick (stop_cb b f p (rt_exit_critical (timer_remove t s))) = rt_tick s"
    using tmviewD(5) [OF tmview_critical(2), of "timer_remove t s"] by (simp add: stop_cb_fields)
  then show ?thesis using assms by (simp add: Let_def run_timeout_def soft_round_def rt_tick_get_def)
qed

lemma soft_check_stuck:
  assumes "b \<notin> set (rt_soft_timer_list s)" "\<not> activated b s"
    "rt_tick s - tm_timeout_tick (tmr s b) < RT_TICK_MAX div 2"
    "tm_timeout_func (tmr s b) = App_timeout f p"
  shows "soft_check_loop (stop_cb b) fuel (rt_tick s) (Some b) s = None"
  using assms
proof (induction fuel arbitrary: s)
  case (Suc fuel)
  have r: "b \<notin> set (remove1 b (rt_soft_timer_list s))" using Suc.prems(1) by (simp add: remove1_idem)
  note rd = soft_round_fields [of b s b f p, OF disjI2 [OF refl] disjI1 [OF r]]
  have "soft_check_loop (stop_cb b) fuel (rt_tick (soft_round b b f p s)) (Some b) (soft_round b b f p s) = None"
    using Suc.prems by (intro Suc.IH) (simp_all add: rd remove1_idem)
  then show ?case
    unfolding soft_check_step [OF Suc.prems(3,4)] using Suc.prems(1) by (simp add: rd list_succ_unlinked)
qed simp

lemma soft_check_never_returns:
  assumes l: "rt_soft_timer_list s = a # b # ts" "distinct (a # b # ts)"
    and a: "\<not> periodic a s" "rt_tick s - tm_timeout_tick (tmr s a) < RT_TICK_MAX div 2"
      "tm_timeout_func (tmr s a) = App_timeout f p"
    and b: "activated b s" "rt_tick s - tm_timeout_tick (tmr s b) < RT_TICK_MAX div 2"
      "tm_timeout_func (tmr s b) = App_timeout g q"
  shows "rt_soft_timer_check (stop_cb b) fuel s = None"
proof -
  define s1 where "s1 = rt_enter_critical s"
  have v: "tmview s1 = tmview s" by (simp add: s1_def)
  have f: "activated u s1 = activated u s" "periodic u s1 = periodic u s" for u
    using timer_flag_tmview [OF v] by (simp_all add: activated_def periodic_def)
  note v1 = tmviewD [OF v]
  have rd: "tmr (soft_round b a f p s1) = tmr s" "rt_tick (soft_round b a f p s1) = rt_tick s"
    "\<not> activated b (soft_round b a f p s1)" "rt_soft_timer_list (soft_round b a f p s1) = ts"
    using soft_round_fields [of a s1 b f p] a(1) b(1) l f v1 by simp_all
  have "soft_check_loop (stop_cb b) fuel (rt_tick s) (Some a) s1 = None"
  proof (cases fuel)
    case (Suc k)
    have e: "rt_tick s1 - tm_timeout_tick (tmr s1 a) < RT_TICK_MAX div 2"
      "tm_timeout_func (tmr s1 a) = App_timeout f p" using a(2,3) v1 by simp_all
    have "soft_check_loop (stop_cb b) k (rt_tick (soft_round b a f p s1)) (Some b) (soft_round b a f p s1) = None"
      using b(2,3) l(2) by (intro soft_check_stuck) (simp_all add: rd)
    then show ?thesis
      using soft_check_step [OF e, of b k] l v1 by (simp add: Suc rd)
  qed simp
  then show ?thesis using l v1 by (simp add: rt_soft_timer_check_def Let_def s1_def [symmetric] rt_tick_get_def)
qed

section \<open>An example\<close>

text \<open>Tick 10, a one-shot timer due at tick 8 and a periodic one due at tick 10.\<close>

definition timer_demo :: "timer_ref list \<Rightarrow> timer_ref list \<Rightarrow> kstate" where
  "timer_demo hard soft = demo_state\<lparr>rt_tick := 10, rt_timer_list := hard, rt_soft_timer_list := soft,
     tmr := (\<lambda>_. zero_timer)(TimerAt 8 := zero_timer\<lparr>tm_init_tick := 5, tm_timeout_tick := 8\<rparr>,
       TimerAt 9 := zero_timer\<lparr>tm_init_tick := 7, tm_timeout_tick := 10\<rparr>),
     objs := (\<lambda>_. blank_object)(ObjTimer (TimerAt 8) := blank_object\<lparr>obj_flag := 0x1\<rparr>,
       ObjTimer (TimerAt 9) := blank_object\<lparr>obj_flag := 0x3\<rparr>)\<rparr>"

lemma timer_demo_fields [simp]:
  "rt_tick (timer_demo h so) = 10" "rt_timer_list (timer_demo h so) = h"
  "rt_soft_timer_list (timer_demo h so) = so"
  "tmr (timer_demo h so) (TimerAt 8) = zero_timer\<lparr>tm_init_tick := 5, tm_timeout_tick := 8\<rparr>"
  "tmr (timer_demo h so) (TimerAt 9) = zero_timer\<lparr>tm_init_tick := 7, tm_timeout_tick := 10\<rparr>"
  "\<not> periodic (TimerAt 8) (timer_demo h so)" "periodic (TimerAt 9) (timer_demo h so)"
  "activated (TimerAt 8) (timer_demo h so)" "activated (TimerAt 9) (timer_demo h so)"
  "\<not> soft_timer (TimerAt 8) (timer_demo h so)" "\<not> soft_timer (TimerAt 9) (timer_demo h so)"
  by (simp_all add: timer_demo_def periodic_def activated_def soft_timer_def timer_flag_def rt_flag_defs
      blank_object_def)

lemma timer_demo_pre: "check_pre 0 (timer_demo [TimerAt 8, TimerAt 9] [])"
  by (simp add: check_pre_def timer_ordered_def delta_def half_range_val timeouts_def)

lemma demo_due: "(2 :: rt_tick_t) < RT_TICK_MAX div 2" "(0 :: rt_tick_t) < RT_TICK_MAX div 2"
  by (simp_all add: tick_less_half half_range_val)

end
