(* ===== verification/Kernel.thy ===== *)
theory Kernel
  imports Event Mailbox MessageQueue Mempool TimerCheck
begin

text \<open>
  The kernel as a whole: one invariant for the scheduler, the timers of the threads and the mutexes, and that
  every kernel call and every tick keeps it. A thread's timer is on the timer list only while the thread is
  suspended; \<open>rt_thread_timeout\<close> relies on it.
\<close>

section \<open>The timers of the threads\<close>

definition timer_inv :: "kstate \<Rightarrow> bool" where
  "timer_inv s \<longleftrightarrow> distinct (rt_timer_list s) \<and> (\<forall>t. \<not> soft_timer (ThreadTimer t) s \<and> \<not> periodic (ThreadTimer t) s) \<and>
    (\<forall>t. ThreadTimer t \<in> set (rt_timer_list s) \<longrightarrow>
      tstat (thr s t) = RT_THREAD_SUSPEND \<and> activated (ThreadTimer t) s) \<and>
    (\<forall>r u. tm_timeout_func (tmr s r) = Rt_thread_timeout u \<longrightarrow> r = ThreadTimer u) \<and>
    (\<forall>t. started (thr s t) \<longrightarrow> tm_timeout_func (tmr s (ThreadTimer t)) = Rt_thread_timeout t)"

lemma timer_invD:
  assumes "timer_inv s"
  shows "distinct (rt_timer_list s)" "\<not> soft_timer (ThreadTimer t) s"
    "ThreadTimer t \<in> set (rt_timer_list s) \<Longrightarrow> tstat (thr s t) = RT_THREAD_SUSPEND"
    "ThreadTimer t \<in> set (rt_timer_list s) \<Longrightarrow> activated (ThreadTimer t) s"
    "tm_timeout_func (tmr s r) = Rt_thread_timeout u \<Longrightarrow> r = ThreadTimer u" "\<not> periodic (ThreadTimer t) s"
    "started (thr s t) \<Longrightarrow> tm_timeout_func (tmr s (ThreadTimer t)) = Rt_thread_timeout t"
  using assms by (simp_all add: timer_inv_def)

text \<open>A step that leaves the timers alone may wake only threads whose timer is not running.\<close>

lemma timer_inv_mono_init:
  assumes i: "timer_inv s" and v: "tmview s' = tmview s"
    and st: "\<And>t. ThreadTimer t \<in> set (rt_timer_list s) \<Longrightarrow> tstat (thr s t) = RT_THREAD_SUSPEND \<Longrightarrow>
      tstat (thr s' t) = RT_THREAD_SUSPEND"
      "\<And>t. started (thr s' t) \<Longrightarrow> started (thr s t) \<or> tm_timeout_func (tmr s (ThreadTimer t)) = Rt_thread_timeout t"
  shows "timer_inv s'"
proof -
  have "activated r s' = activated r s" "periodic r s' = periodic r s" for r
    using tmviewD(4) [OF v] by (simp_all add: activated_def periodic_def timer_flag_def)
  then show ?thesis
    using i st soft_timer_tmview [OF v] tmviewD(1,2) [OF v] unfolding timer_inv_def by simp blast
qed

lemma timer_inv_mono:
  assumes "timer_inv s" "tmview s' = tmview s"
    "\<And>t. ThreadTimer t \<in> set (rt_timer_list s) \<Longrightarrow> tstat (thr s t) = RT_THREAD_SUSPEND \<Longrightarrow>
      tstat (thr s' t) = RT_THREAD_SUSPEND" "\<And>t. started (thr s' t) \<Longrightarrow> started (thr s t)"
  shows "timer_inv s'"
  using assms by (intro timer_inv_mono_init [OF assms(1,2)]) blast+

lemma schedule_keeps_suspended:
  assumes inv: "sched_inv s" and u: "tstat (thr s u) = RT_THREAD_SUSPEND"
  shows "tstat (thr (rt_schedule s) u) = RT_THREAD_SUSPEND"
proof (cases "rt_current_thread s")
  case None
  then show ?thesis using u sviewD(1) [OF rt_schedule_no_current] by simp
next
  case (Some cur)
  have r: "x \<noteq> u" if "x \<in> set (tq s (Ready p))" for x p
    using that u linked_stat [of "{}" "{}" s x "Ready p"] inv by (auto simp: sched_inv_def)
  show ?thesis
  proof (cases rule: rt_schedule_cases [OF inv Some, case_names idle keep preempt yielded])
    case (preempt x hp)
    have "x \<noteq> cur" using ready_not_current [OF inv preempt(3)] Some by auto
    then show ?thesis using preempt(1) u r [OF preempt(3)] unfolding preempt(5)
      by (auto simp: schedule_switch_def rt_schedule_insert_thread_def list_insert_before_def Let_def)
  next
    case (yielded x hp)
    then show ?thesis using u r [OF yielded(2)] by (auto simp: schedule_switch_def)
  qed (use u in auto)
qed

lemma schedule_started:
  assumes inv: "sched_inv s" and u: "started (thr (rt_schedule s) u)"
  shows "started (thr s u)"
proof (cases "rt_current_thread s")
  case None
  then show ?thesis using u sviewD(1) [OF rt_schedule_no_current] by simp
next
  case (Some cur)
  have r: "started (thr s x)" if "x \<in> set (tq s (Ready p))" for x p
    using that linked_stat [of "{}" "{}" s x "Ready p"] inv by (auto simp: sched_inv_def started_def)
  show ?thesis
  proof (cases rule: rt_schedule_cases [OF inv Some, case_names idle keep preempt yielded])
    case (keep hp)
    then show ?thesis using u by (auto simp: started_def split: if_splits)
  next
    case (preempt x hp)
    then show ?thesis using u r [OF preempt(3)] unfolding preempt(5)
      by (auto simp: started_def schedule_switch_def rt_schedule_insert_thread_def list_insert_before_def Let_def split: if_splits)
  next
    case (yielded x hp)
    then show ?thesis using u r [OF yielded(2)] by (auto simp: started_def schedule_switch_def split: if_splits)
  qed (use u in simp)
qed

lemma timer_inv_schedule: "sched_inv s \<Longrightarrow> timer_inv s \<Longrightarrow> timer_inv (rt_schedule s)"
  by (rule timer_inv_mono [of s]) (simp_all add: schedule_keeps_suspended schedule_started)

text \<open>Stopping, starting and detaching the timer of a thread.\<close>

lemma timer_stop_fields':
  "tmr (fst (rt_timer_stop r s)) = tmr s"
  "rt_timer_list (fst (rt_timer_stop r s)) = (if activated r s then remove1 r (rt_timer_list s) else rt_timer_list s)"
  "activated u (fst (rt_timer_stop r s)) = (activated u s \<and> u \<noteq> r)" "periodic u (fst (rt_timer_stop r s)) = periodic u s"
  by (auto simp: rt_timer_stop_def Let_def activated_def periodic_def timer_flag_upd flag_bits)

lemma timer_inv_stop:
  assumes "timer_inv s"
  shows "timer_inv (fst (rt_timer_stop r s))" "ThreadTimer t \<notin> set (rt_timer_list (fst (rt_timer_stop (ThreadTimer t) s)))"
proof -
  note d = timer_invD [OF assms]
  show "ThreadTimer t \<notin> set (rt_timer_list (fst (rt_timer_stop (ThreadTimer t) s)))"
    using d(1) d(4) [of t] by (auto simp: timer_stop_fields' set_remove1_distinct)
  show "timer_inv (fst (rt_timer_stop r s))"
    using d unfolding timer_inv_def timer_stop_fields' soft_timer_stop timer_stop_fields
    by (auto simp: set_remove1_distinct)
qed

lemma timer_inv_start:
  assumes "timer_inv s" "\<not> soft_timer r s" "\<And>t. r = ThreadTimer t \<Longrightarrow> tstat (thr s t) = RT_THREAD_SUSPEND"
  shows "timer_inv (fst (rt_timer_start r s))"
proof -
  note d = timer_invD [OF assms(1)] and h = timer_start_hard [OF assms(2)]
  have dis: "distinct (rt_timer_list (fst (rt_timer_start r s)))"
    unfolding h(2) using d(1) by (subst mset_distinct_timer_insert) (simp_all add: set_remove1_distinct)
  have l: "set (rt_timer_list (fst (rt_timer_start r s))) = insert r (set (rt_timer_list s))"
    unfolding h(2) using d(1) by (auto simp: set_remove1_distinct)
  show ?thesis
    using d dis assms(3) sviewD(1) [OF sview_timer_start_hard [OF assms(2)]]
    unfolding timer_inv_def l h by (auto split: if_splits)
qed

lemmas thr_timer_fields [simp] = views_timer(1,3,5) [THEN sviewD(1)]

lemma timer_inv_set_time: "timer_inv s \<Longrightarrow> timer_inv (fst (rt_timer_control r (RT_TIMER_CTRL_SET_TIME k) s))"
  by (auto simp: timer_inv_def rt_timer_control_def Let_def activated_def periodic_def split: if_splits)

lemma timer_inv_arm:
  assumes "timer_inv s" "tstat (thr s t) = RT_THREAD_SUSPEND"
  shows "timer_inv (thread_arm_timer t k s)"
  unfolding thread_arm_timer_def
  by (rule timer_inv_start)
    (use assms timer_invD(2) [OF timer_inv_set_time [OF assms(1)]] sviewD(1) [OF views_timer_control(1)] in
      \<open>simp_all add: timer_inv_set_time timer_invD(2)\<close>)

text \<open>A thread that is suspended and woken.\<close>

lemma timer_inv_suspend: "timer_inv s \<Longrightarrow> timer_inv (fst (rt_thread_suspend t s))"
proof (cases "tstat (thr s t) \<in> {RT_THREAD_READY, RT_THREAD_RUNNING}")
  case st: True
  assume i: "timer_inv s"
  have "timer_inv (upd_thr t (set_stat RT_THREAD_SUSPEND) (rt_schedule_remove_thread t s'))"
    if "tmview s' = tmview s" "thr s' = thr s" for s'
    by (rule timer_inv_mono [OF i]) (use that st in \<open>auto simp: started_def split: if_splits\<close>)
  then show ?thesis using st by (auto simp: rt_thread_suspend_def Let_def intro!: timer_inv_stop(1))
next
  case False
  assume i: "timer_inv s"
  have "timer_inv (RT_ASSERT b s)" for b by (rule timer_inv_mono [OF i]) simp_all
  then show ?thesis using False by (simp add: rt_thread_suspend_def Let_def)
qed

lemma timer_inv_resume: "timer_inv s \<Longrightarrow> timer_inv (fst (rt_thread_resume t s))"
proof (cases "tstat (thr s t) = RT_THREAD_SUSPEND")
  case st: True
  assume i: "timer_inv s"
  let ?s = "RT_ASSERT (thread_type_ok t s) s"
  have a: "timer_inv ?s" by (rule timer_inv_mono [OF i]) simp_all
  have b: "timer_inv (list_remove t ?s)" by (rule timer_inv_mono [OF a]) (simp_all add: list_remove_def)
  have "timer_inv (rt_schedule_insert_thread t (fst (rt_timer_stop (ThreadTimer t) (list_remove t ?s))))"
  proof (rule timer_inv_mono [OF timer_inv_stop(1) [OF b]])
    fix u
    assume "ThreadTimer u \<in> set (rt_timer_list (fst (rt_timer_stop (ThreadTimer t) (list_remove t ?s))))"
    then have "u \<noteq> t" using timer_inv_stop(2) [OF b] by auto
    then show "tstat (thr (fst (rt_timer_stop (ThreadTimer t) (list_remove t ?s))) u) = RT_THREAD_SUSPEND \<Longrightarrow>
        tstat (thr (rt_schedule_insert_thread t (fst (rt_timer_stop (ThreadTimer t) (list_remove t ?s)))) u) = RT_THREAD_SUSPEND"
      by (simp add: rt_schedule_insert_thread_def list_insert_before_def Let_def)
  qed (use st in \<open>auto simp: rt_schedule_insert_thread_def list_insert_before_def list_remove_def Let_def started_def
      split: if_splits\<close>)
  then show ?thesis using a by (simp add: rt_thread_resume_def Let_def)
next
  case False
  assume i: "timer_inv s"
  have "timer_inv (RT_ASSERT b s)" for b by (rule timer_inv_mono [OF i]) simp_all
  then show ?thesis using False by (simp add: rt_thread_resume_def Let_def)
qed

section \<open>The invariant of the kernel\<close>

text \<open>The priority a mutex remembers for its owner is one of the 32.\<close>

definition mutex_prio_ok :: "kstate \<Rightarrow> bool" where
  "mutex_prio_ok s \<longleftrightarrow> (\<forall>a. mtx_owner (get_mutex a s) \<noteq> None \<longrightarrow> unat (mtx_original_priority (get_mutex a s)) < 32)"

definition kernel_inv :: "kstate \<Rightarrow> bool" where
  "kernel_inv s \<longleftrightarrow> sched_inv s \<and> timer_inv s \<and> mutex_prio_ok s"

lemma kernel_invD: "kernel_inv s \<Longrightarrow> sched_inv s" "kernel_inv s \<Longrightarrow> timer_inv s" "kernel_inv s \<Longrightarrow> mutex_prio_ok s"
  by (simp_all add: kernel_inv_def)

lemma mutex_prio_iview:
  assumes "iview s' = iview s"
  shows "mutex_prio_ok s' = mutex_prio_ok s"
proof -
  have "get_mutex a s' = get_mutex a s" for a by (rule mtx.get_iview [OF assms])
  then show ?thesis by (simp add: mutex_prio_ok_def)
qed

lemma kernel_invI:
  assumes "kernel_inv s" "sched_inv s'" "timer_inv s'" "iview s' = iview s"
  shows "kernel_inv s'"
  using assms mutex_prio_iview [OF assms(4)] by (simp add: kernel_inv_def)

lemma timer_inv_frame:
  assumes "sview s' = sview s" "tmview s' = tmview s" "timer_inv s"
  shows "timer_inv s'"
  by (rule timer_inv_mono [OF assms(3,2)]) (simp_all add: sviewD(1) [OF assms(1)])

text \<open>
  The steps kernel calls are made of. The collection \<open>kernel_steps\<close> holds that they keep the invariant.
\<close>

named_theorems kernel_steps "steps that keep the kernel invariant"

lemma kernel_inv_frame:
  assumes "kernel_inv s" "sview s' = sview s" "tmview s' = tmview s" "iview s' = iview s"
  shows "kernel_inv s'"
  by (rule kernel_invI [OF assms(1)])
    (use assms timer_inv_frame [OF assms(2,3)] sched_inv_frame [OF assms(2)] in \<open>simp_all add: kernel_inv_def\<close>)

lemma kernel_inv_basic [kernel_steps]:
  "kernel_inv s \<Longrightarrow> kernel_inv (RT_ASSERT b s)" "kernel_inv s \<Longrightarrow> kernel_inv (null_deref s)"
  "kernel_inv s \<Longrightarrow> kernel_inv (s\<lparr>kfault := c\<rparr>)"
  "kernel_inv s \<Longrightarrow> kernel_inv (RT_DEBUG_IN_THREAD_CONTEXT s)" "kernel_inv s \<Longrightarrow> kernel_inv (RT_DEBUG_NOT_IN_INTERRUPT s)"
  by (erule kernel_inv_frame; simp add: null_deref_def sview_def iview_def RT_DEBUG_IN_THREAD_CONTEXT_def
      RT_DEBUG_NOT_IN_INTERRUPT_def RT_ASSERT_def tmview_def)+

lemma kernel_inv_schedule [kernel_steps]: "kernel_inv s \<Longrightarrow> kernel_inv (rt_schedule s)"
  by (rule kernel_invI) (simp_all add: kernel_inv_def rt_schedule_inv_any timer_inv_schedule)

lemma kernel_inv_resume [kernel_steps]: "kernel_inv s \<Longrightarrow> kernel_inv (fst (rt_thread_resume t s))"
  by (rule kernel_invI) (simp_all add: kernel_inv_def rt_thread_resume_inv timer_inv_resume)

lemma kernel_inv_suspend [kernel_steps]: "kernel_inv s \<Longrightarrow> kernel_inv (fst (rt_thread_suspend t s))"
  by (rule kernel_invI) (simp_all add: kernel_inv_def rt_thread_suspend_inv timer_inv_suspend)

lemma kernel_inv_list_resume [kernel_steps]: "kernel_inv s \<Longrightarrow> kernel_inv (rt_ipc_list_resume h s)"
  by (simp add: rt_ipc_list_resume_def kernel_steps split: list.split)

text \<open>Fields of a thread that the scheduler does not read.\<close>

lemma kernel_inv_thread_data:
  assumes "kernel_inv s" "\<And>th. tstat (f th) = tstat th" "\<And>th. th_current_priority (f th) = th_current_priority th"
    "\<And>th. th_number_mask (f th) = th_number_mask th"
  shows "kernel_inv (upd_thr t f s)"
proof (rule kernel_invI [OF assms(1)])
  have i: "sched_inv_on {} {} s" using assms(1) by (simp add: kernel_inv_def sched_inv_def)
  show "sched_inv (upd_thr t f s)" unfolding sched_inv_def by (rule upd_thr_invisible [OF i]) (use assms in auto)
  show "timer_inv (upd_thr t f s)" by (rule timer_inv_mono [of s]) (use assms in \<open>auto simp: kernel_inv_def started_def split: if_splits\<close>)
qed simp

lemma kernel_inv_errors [kernel_steps]:
  "kernel_inv s \<Longrightarrow> kernel_inv (set_error t e s)"
  "kernel_inv s \<Longrightarrow> kernel_inv (upd_thr t (\<lambda>th. th\<lparr>th_error := e\<rparr>) s)"
  by (simp_all add: set_error_def kernel_inv_thread_data)

lemma kernel_inv_resume_all [kernel_steps]: "kernel_inv s \<Longrightarrow> kernel_inv (rt_ipc_list_resume_all h s)"
proof -
  have "kernel_inv s \<Longrightarrow> kernel_inv (resume_all_loop h n s)" for n
    by (induction n arbitrary: s) (simp_all add: kernel_steps split: list.split)
  then show "kernel_inv s \<Longrightarrow> kernel_inv (rt_ipc_list_resume_all h s)" by (simp add: rt_ipc_list_resume_all_def)
qed

text \<open>Writing an object that is not a mutex.\<close>

lemma kernel_inv_object:
  assumes "kernel_inv s" "sview s' = sview s" "tmview s' = tmview s" "mutexes s' = mutexes s"
  shows "kernel_inv s'"
  using assms(1) timer_inv_frame [OF assms(2,3)] sched_inv_frame [OF assms(2)] assms(4)
  by (simp add: kernel_inv_def mutex_prio_ok_def get_mutex_def)

lemma kernel_inv_objects [kernel_steps]:
  assumes "kernel_inv s"
  shows "kernel_inv (upd_sem a f1 s)" "kernel_inv (upd_event a f2 s)" "kernel_inv (upd_mb a f3 s)"
    "kernel_inv (upd_mq a f4 s)" "kernel_inv (upd_mp a f5 s)" "kernel_inv (put_word b w s)" "kernel_inv (s\<lparr>rt_errno := e\<rparr>)"
  by (rule kernel_inv_object [OF assms]; simp add: upd_sem_def upd_event_def upd_mb_def upd_mq_def upd_mp_def put_word_def
      sview_def tmview_def)+

lemma kernel_inv_set_errno [kernel_steps]: "kernel_inv s \<Longrightarrow> kernel_inv (rt_set_errno e s)"
  by (simp add: rt_set_errno_def kernel_steps split: option.split)

lemma kernel_inv_upd_mutex:
  assumes "kernel_inv s" "mtx_owner (f (get_mutex a s)) \<noteq> None \<Longrightarrow> unat (mtx_original_priority (f (get_mutex a s))) < 32"
  shows "kernel_inv (upd_mutex a f s)"
proof -
  have "timer_inv (upd_mutex a f s)"
    by (rule timer_inv_frame [OF mtx.sview_upd]) (use assms(1) in \<open>simp_all add: kernel_inv_def upd_mutex_def tmview_def\<close>)
  moreover have "mutex_prio_ok (upd_mutex a f s)" unfolding mutex_prio_ok_def
  proof
    fix b
    show "mtx_owner (get_mutex b (upd_mutex a f s)) \<noteq> None \<longrightarrow> unat (mtx_original_priority (get_mutex b (upd_mutex a f s))) < 32"
      using assms by (cases "b = a") (simp_all add: kernel_inv_def mutex_prio_ok_def)
  qed
  ultimately show ?thesis using assms(1) by (simp add: kernel_inv_def)
qed

text \<open>Waiting.\<close>

lemma suspend_stat: "tstat (thr s t) \<in> {RT_THREAD_READY, RT_THREAD_RUNNING} \<Longrightarrow>
  tstat (thr (fst (rt_thread_suspend t s)) t) = RT_THREAD_SUSPEND"
  by (simp add: rt_thread_suspend_effect(1))

lemma kernel_inv_arm:
  assumes "kernel_inv s" "tstat (thr s t) = RT_THREAD_SUSPEND"
  shows "kernel_inv (thread_arm_timer t k s)"
  by (rule kernel_invI [OF assms(1)])
    (use assms in \<open>simp_all add: kernel_inv_def thread_arm_timer_inv timer_inv_arm\<close>)

lemma ipc_suspend_thr: "thr (rt_ipc_list_suspend h t flag s) = thr (fst (rt_thread_suspend t s))"
  by (simp add: rt_ipc_list_suspend_def Let_def list_insert_before_def)

lemma kernel_inv_wait:
  assumes inv: "kernel_inv s" and st: "tstat (thr s t) \<in> {RT_THREAD_READY, RT_THREAD_RUNNING}" and h: "wait_head h"
  shows "kernel_inv (wait_on h t flag time s)"
proof -
  let ?s = "rt_ipc_list_suspend h t flag s"
  have tm: "tmview ?s = tmview (fst (rt_thread_suspend t s))"
    by (simp add: rt_ipc_list_suspend_def Let_def)
  have "timer_inv ?s"
    by (rule timer_inv_mono [OF timer_inv_suspend tm]) (use inv in \<open>simp_all add: kernel_inv_def ipc_suspend_thr\<close>)
  then have i: "kernel_inv ?s"
    using rt_ipc_list_suspend_inv [OF _ st h] inv by (intro kernel_invI [OF inv]) (simp_all add: kernel_inv_def)
  moreover have "tstat (thr ?s t) = RT_THREAD_SUSPEND" using suspend_stat [OF st] by (simp add: ipc_suspend_thr)
  ultimately show ?thesis by (simp add: wait_on_def Let_def kernel_inv_arm)
qed

lemma kernel_inv_mp_wait:
  assumes inv: "kernel_inv s" and st: "tstat (thr s t) = RT_THREAD_RUNNING"
  shows "kernel_inv (list_insert_after (MempoolQ a) t (fst (rt_thread_suspend t s)))"
    "tstat (thr (list_insert_after (MempoolQ a) t (fst (rt_thread_suspend t s))) t) = RT_THREAD_SUSPEND"
proof -
  show "kernel_inv (list_insert_after (MempoolQ a) t (fst (rt_thread_suspend t s)))"
  proof (rule kernel_invI [OF inv])
    show "sched_inv (list_insert_after (MempoolQ a) t (fst (rt_thread_suspend t s)))"
      using mp_wait_inv [OF _ st] inv by (simp add: kernel_inv_def)
    show "timer_inv (list_insert_after (MempoolQ a) t (fst (rt_thread_suspend t s)))"
      by (rule timer_inv_mono [OF timer_inv_suspend]) (use inv in \<open>simp_all add: kernel_inv_def list_insert_after_def\<close>)
  qed simp
  show "tstat (thr (list_insert_after (MempoolQ a) t (fst (rt_thread_suspend t s))) t) = RT_THREAD_SUSPEND"
    using suspend_stat [of s t] st by (simp add: list_insert_after_def)
qed

lemma kernel_inv_wake [kernel_steps]: "kernel_inv s \<Longrightarrow> kernel_inv (wake_and_schedule h s)"
  by (simp add: wake_and_schedule_def kernel_steps)

section \<open>Kernel calls\<close>

text \<open>Semaphores, events, mailboxes, message queues and pools.\<close>

lemmas kernel_call_defs = Let_def thread_context_def rt_thread_self_def

lemma kernel_inv_sem:
  assumes "kernel_inv s"
  shows "thread_context s \<Longrightarrow> kernel_inv (fst (rt_sem_take a time s))" "kernel_inv (fst (rt_sem_release a s))"
    "kernel_inv (fst (rt_sem_control a cmd s))"
proof -
  show "kernel_inv (fst (rt_sem_take a time s))" if "thread_context s"
    using assms that by (auto simp: rt_sem_take_def kernel_call_defs kernel_steps intro!: kernel_inv_schedule kernel_inv_wait
        split: option.splits)
qed (use assms in \<open>simp_all add: rt_sem_release_def rt_sem_control_def Let_def kernel_steps split: ipc_cmd.split\<close>)

lemma kernel_inv_event:
  assumes "kernel_inv s"
  shows "kernel_inv (fst (rt_event_send a v s))" "thread_context s \<Longrightarrow> kernel_inv (fst (rt_event_recv a v opt time s))"
    "kernel_inv (fst (rt_event_control a cmd s))"
proof -
  have d: "kernel_inv s \<Longrightarrow> kernel_inv (upd_thr t (\<lambda>th. th\<lparr>th_event_set := f th\<rparr>) s)" for t f s
    by (rule kernel_inv_thread_data) (simp_all add: tstat_def)
  have "kernel_inv (fst sb) \<Longrightarrow> kernel_inv (fst (event_visit a t sb))" for t sb
    by (simp add: event_visit_def Let_def kernel_steps d)
  then have "kernel_inv (fst sb) \<Longrightarrow> kernel_inv (fst (fold (event_visit a) ts sb))" for ts sb
    by (induction ts arbitrary: sb) simp_all
  then show "kernel_inv (fst (rt_event_send a v s))"
    using assms by (simp add: rt_event_send_def Let_def case_prod_beta kernel_steps)
  have d2: "kernel_inv s \<Longrightarrow> kernel_inv (upd_thr t (\<lambda>th. th\<lparr>th_event_set := v, th_event_info := i\<rparr>) s)" for t v i s
    by (rule kernel_inv_thread_data) (simp_all add: tstat_def)
  show "kernel_inv (fst (rt_event_recv a v opt time s))" if "thread_context s"
    using assms that by (auto simp: rt_event_recv_def kernel_call_defs kernel_steps
        intro!: kernel_inv_schedule kernel_inv_wait d2 split: option.splits)
qed (use assms in \<open>simp add: rt_event_control_def Let_def kernel_steps split: ipc_cmd.split\<close>)

lemma kernel_inv_mb:
  assumes "kernel_inv s"
  shows "thread_context s \<Longrightarrow> kernel_inv (fst (rt_mb_send_wait a v time s))"
    "thread_context s \<Longrightarrow> kernel_inv (fst (rt_mb_recv a time s))" "kernel_inv (fst (rt_mb_control a cmd s))"
proof -
  show "kernel_inv (fst (rt_mb_send_wait a v time s))" "kernel_inv (fst (rt_mb_recv a time s))" if "thread_context s"
    using assms that by (auto simp: rt_mb_send_wait_def mb_send_loop_def rt_mb_recv_def mb_recv_loop_def kernel_call_defs
        kernel_steps split_beta intro!: kernel_inv_schedule kernel_inv_wait split: option.splits)
qed (use assms in \<open>simp add: rt_mb_control_def Let_def kernel_steps split: ipc_cmd.split\<close>)

lemma kernel_inv_mq:
  assumes "kernel_inv s"
  shows "thread_context s \<Longrightarrow> kernel_inv (fst (rt_mq_send_wait a buf time s))" "kernel_inv (fst (rt_mq_urgent a buf s))"
    "thread_context s \<Longrightarrow> kernel_inv (fst (rt_mq_recv a sz time s))" "kernel_inv (fst (rt_mq_control a cmd s))"
proof -
  show "kernel_inv (fst (rt_mq_send_wait a buf time s))" "kernel_inv (fst (rt_mq_recv a sz time s))" if "thread_context s"
    using assms that by (auto simp: rt_mq_send_wait_def mq_send_loop_def rt_mq_recv_def mq_recv_loop_def mq_check_send_def
        kernel_call_defs kernel_steps intro!: kernel_inv_schedule kernel_inv_wait kernel_inv_wake split: option.splits)
qed (use assms in \<open>simp_all add: rt_mq_urgent_def rt_mq_control_def mq_check_send_def Let_def kernel_steps
    split: ipc_cmd.split option.split\<close>)

lemma kernel_inv_mp:
  assumes "kernel_inv s"
  shows "thread_context s \<Longrightarrow> kernel_inv (fst (rt_mp_alloc a time s))" "kernel_inv (rt_mp_free p s)"
proof -
  show "kernel_inv (fst (rt_mp_alloc a time s))" if "thread_context s"
    using assms that by (auto simp: rt_mp_alloc_def mp_alloc_loop_def kernel_call_defs kernel_steps
        intro!: kernel_inv_schedule kernel_inv_arm kernel_inv_mp_wait split: option.splits)
qed (use assms in \<open>auto simp: rt_mp_free_def Let_def kernel_steps split: option.split block_word.split list.split\<close>)

text \<open>Steps that touch timers other than those of the threads, or take timers off the list.\<close>

lemma timer_inv_step:
  assumes "timer_inv s" "thr s' = thr s" "\<And>t. timer_flag (ThreadTimer t) s' = timer_flag (ThreadTimer t) s"
    "distinct (rt_timer_list s')" "\<And>t. ThreadTimer t \<in> set (rt_timer_list s') \<Longrightarrow> ThreadTimer t \<in> set (rt_timer_list s)"
    "\<And>t. tm_timeout_func (tmr s' (ThreadTimer t)) = tm_timeout_func (tmr s (ThreadTimer t))"
    "\<And>a u. tm_timeout_func (tmr s' (TimerAt a)) \<noteq> Rt_thread_timeout u"
  shows "timer_inv s'"
proof -
  have "r = ThreadTimer u" if "tm_timeout_func (tmr s' r) = Rt_thread_timeout u" for r u
    using that assms(6,7) timer_invD(5) [OF assms(1)] by (cases r) auto
  then show ?thesis using assms by (simp add: timer_inv_def soft_timer_def periodic_def activated_def)
qed

lemma app_timeout:
  assumes "timer_inv s"
  shows "tm_timeout_func (tmr s (TimerAt a)) \<noteq> Rt_thread_timeout u"
  using timer_invD(5) [OF assms] by blast

lemma timer_inv_remove: "timer_inv s \<Longrightarrow> timer_inv (timer_remove r s)"
  by (rule timer_inv_step [of s]) (auto simp: timer_invD(1) app_timeout dest: notin_set_remove1 [rotated])

lemma kernel_inv_remove [kernel_steps]: "kernel_inv s \<Longrightarrow> kernel_inv (timer_remove r s)"
  by (rule kernel_invI) (simp_all add: kernel_inv_def timer_inv_remove)

lemma timer_flag_object:
  "timer_flag u (object_unlink r s) = timer_flag u s" "timer_flag u (object_link ty r s) = timer_flag u s"
  "timer_flag u (upd_obj r f s) = (if r = ObjTimer u then obj_flag (f (objs s r)) else timer_flag u s)"
  by (simp_all add: timer_flag_def object_unlink_def object_link_def upd_obj_def)

lemma timers_object [simp]:
  "tmr (object_unlink r s) = tmr s" "rt_timer_list (object_unlink r s) = rt_timer_list s" "thr (object_unlink r s) = thr s"
  "tmr (object_link ty r s) = tmr s" "rt_timer_list (object_link ty r s) = rt_timer_list s" "thr (object_link ty r s) = thr s"
  "tmr (upd_obj r f s) = tmr s" "rt_timer_list (upd_obj r f s) = rt_timer_list s" "thr (upd_obj r f s) = thr s"
  by (simp_all add: object_unlink_def object_link_def upd_obj_def)

lemma timer_inv_detach_obj: "timer_inv s \<Longrightarrow> timer_inv (rt_object_detach r s)"
  by (rule timer_inv_step [of s])
    (simp_all add: rt_object_detach_def timer_flag_object app_timeout timer_invD(1), simp add: timer_flag_def)

lemma kernel_inv_detach_obj [kernel_steps]: "kernel_inv s \<Longrightarrow> kernel_inv (rt_object_detach r s)"
  by (rule kernel_invI) (simp_all add: kernel_inv_def timer_inv_detach_obj)

lemma kernel_inv_timer_detach [kernel_steps]: "kernel_inv s \<Longrightarrow> kernel_inv (fst (rt_timer_detach r s))"
  by (simp add: rt_timer_detach_def Let_def kernel_steps)

lemma timer_detached:
  "timer_inv s \<Longrightarrow> r \<notin> set (rt_timer_list (fst (rt_timer_detach r s)))"
  by (simp add: rt_timer_detach_def rt_object_detach_def Let_def timer_invD(1) set_remove1_distinct)

text \<open>Threads end: the timer is taken off the list before the thread is closed.\<close>

lemma timer_inv_close:
  assumes "timer_inv s" "ThreadTimer t \<notin> set (rt_timer_list s)"
  shows "timer_inv (upd_thr t (\<lambda>th. th\<lparr>th_stat := RT_THREAD_CLOSE\<rparr>) s)"
  by (rule timer_inv_mono [OF assms(1)])
    (use assms(2) in \<open>auto simp: started_def tstat_def thread_stat_defs split: if_splits\<close>)

lemma timer_inv_remove_thread: "timer_inv s \<Longrightarrow> timer_inv (rt_schedule_remove_thread t s)"
  by (rule timer_inv_mono [of s]) simp_all

lemma timer_inv_dispose: "timer_inv s \<Longrightarrow> timer_inv (thread_dispose t s)"
proof -
  assume i: "timer_inv s"
  have "timer_inv (list_insert_after h t s)" for h
    by (rule timer_inv_mono [OF i]) (simp_all add: list_insert_after_def)
  then show ?thesis using i by (simp add: thread_dispose_def timer_inv_detach_obj)
qed

lemma iview_dispose [simp]: "iview (thread_dispose t s) = iview s"
  by (simp add: thread_dispose_def)

lemma timer_inv_detach_timer: "timer_inv s \<Longrightarrow> timer_inv (fst (rt_timer_detach r s))"
proof -
  assume i: "timer_inv s"
  have "timer_inv (RT_ASSERT b (RT_ASSERT c s))" for b c by (rule timer_inv_mono [OF i]) simp_all
  then show ?thesis by (simp add: rt_timer_detach_def Let_def timer_inv_detach_obj timer_inv_remove)
qed

lemma rt_timer_detach_list: "rt_timer_list (fst (rt_timer_detach r s)) = remove1 r (rt_timer_list s)"
  by (simp add: rt_timer_detach_def rt_object_detach_def Let_def)

lemma kernel_inv_exit:
  assumes inv: "kernel_inv s" and ctx: "thread_context s"
  shows "kernel_inv (rt_thread_exit s)"
proof (cases "rt_current_thread s")
  case None
  then show ?thesis using inv by (simp add: rt_thread_exit_def rt_thread_self_def kernel_steps)
next
  case (Some t)
  let ?s1 = "upd_thr t (\<lambda>th. th\<lparr>th_stat := RT_THREAD_CLOSE\<rparr>) (rt_schedule_remove_thread t s)"
  let ?s3 = "thread_dispose t (fst (rt_timer_detach (ThreadTimer t) ?s1))"
  have i: "timer_inv s" "sched_inv s" using inv by (simp_all add: kernel_inv_def)
  have run: "tstat (thr s t) = RT_THREAD_RUNNING" using ctx Some by (simp add: thread_context_def)
  have l: "rt_timer_list (rt_schedule_remove_thread t s) = rt_timer_list s" using tmviewD(2) [OF tmview_schedule(2)] .
  have "ThreadTimer t \<notin> set (rt_timer_list (rt_schedule_remove_thread t s))"
    using run timer_invD(3) [OF i(1), of t] unfolding l by (auto simp: thread_stat_defs)
  then have t3: "timer_inv ?s3"
    by (intro timer_inv_dispose timer_inv_detach_timer timer_inv_close timer_inv_remove_thread i(1))
  have s3: "sched_inv ?s3"
    using i(2) by (auto intro!: thread_dispose_inv simp: close_inv removed_unlinked)
  have eq: "rt_thread_exit s = rt_schedule ?s3" using Some by (simp add: rt_thread_exit_def rt_thread_self_def Let_def)
  show ?thesis unfolding eq
    by (rule kernel_invI [OF inv]) (use s3 t3 in \<open>simp_all add: rt_schedule_inv_any timer_inv_schedule\<close>)
qed

lemma timer_inv_unready:
  assumes "timer_inv s"
  shows "timer_inv (upd_thr t (\<lambda>th. th\<lparr>th_stat := RT_THREAD_CLOSE\<rparr>)
    (fst (rt_timer_detach (ThreadTimer t) (thread_unready t (RT_ASSERT b (RT_ASSERT c s))))))"
proof -
  have "timer_inv (RT_ASSERT b (RT_ASSERT c s))" by (rule timer_inv_mono [OF assms]) simp_all
  then have "timer_inv (thread_unready t (RT_ASSERT b (RT_ASSERT c s)))" by (simp add: thread_unready_def timer_inv_remove_thread)
  then show ?thesis by (intro timer_inv_close timer_inv_detach_timer timer_detached)
qed

lemma kernel_inv_detach:
  assumes "kernel_inv s"
  shows "kernel_inv (fst (rt_thread_detach t s))" "kernel_inv (fst (rt_thread_delete t s))"
proof -
  have i: "timer_inv s" "sched_inv s" using assms by (simp_all add: kernel_inv_def)
  have u [simp]: "iview (thread_unready t s') = iview s'" for s' by (simp add: thread_unready_def)
  show "kernel_inv (fst (rt_thread_detach t s))"
  proof (rule kernel_invI [OF assms rt_thread_detach_inv [OF i(2)]])
    show "timer_inv (fst (rt_thread_detach t s))"
      unfolding rt_thread_detach_def Let_def fst_conv by (intro timer_inv_dispose timer_inv_unready i(1))
    show "iview (fst (rt_thread_detach t s)) = iview s" by (simp add: rt_thread_detach_def Let_def)
  qed
  show "kernel_inv (fst (rt_thread_delete t s))"
  proof (rule kernel_invI [OF assms rt_thread_delete_inv [OF i(2)]])
    show "timer_inv (fst (rt_thread_delete t s))"
      unfolding rt_thread_delete_def Let_def fst_conv
      by (rule timer_inv_mono [OF timer_inv_unready [OF i(1), of t]]) (simp_all add: list_insert_after_def)
    show "iview (fst (rt_thread_delete t s)) = iview s" by (simp add: rt_thread_delete_def Let_def)
  qed
qed

text \<open>Sleeping and priorities.\<close>

lemma kernel_inv_sleep:
  assumes inv: "kernel_inv s" and ctx: "thread_context s"
  shows "kernel_inv (rt_thread_sleep k s)" "kernel_inv (fst (rt_thread_delay_until k inc s))" "kernel_inv (fst (rt_thread_yield s))"
proof -
  have a: "kernel_inv (thread_arm_timer t j (fst (rt_thread_suspend t (RT_ASSERT b s))))" if "rt_current_thread s = Some t" for t j b
    by (rule kernel_inv_arm) (use inv ctx that suspend_stat [of "RT_ASSERT b s" t] in \<open>simp_all add: thread_context_def kernel_steps\<close>)
  show "kernel_inv (rt_thread_sleep k s)" "kernel_inv (fst (rt_thread_delay_until k inc s))"
    using inv a by (auto simp: rt_thread_sleep_def rt_thread_delay_until_def Let_def rt_thread_self_def kernel_steps
        split: option.split)
  show "kernel_inv (fst (rt_thread_yield s))" using inv by (simp add: rt_thread_yield_def kernel_steps)
qed

lemma kernel_inv_priority:
  assumes inv: "kernel_inv s" and p: "unat p < 32"
  shows "kernel_inv (fst (rt_thread_control t (RT_THREAD_CTRL_CHANGE_PRIORITY p) s))"
proof (rule kernel_invI [OF inv])
  show "sched_inv (fst (rt_thread_control t (RT_THREAD_CTRL_CHANGE_PRIORITY p) s))"
    by (rule rt_thread_control_inv) (use inv p in \<open>simp_all add: kernel_inv_def\<close>)
  show "timer_inv (fst (rt_thread_control t (RT_THREAD_CTRL_CHANGE_PRIORITY p) s))"
    by (rule timer_inv_mono [of s])
      (use inv in \<open>auto simp: kernel_inv_def rt_thread_control_def rt_schedule_insert_thread_def list_insert_before_def Let_def
        started_def split: if_splits\<close>)
qed simp

text \<open>A thread structure that is not in use is initialised, and an initialised thread is started.\<close>

lemma kernel_inv_critical [kernel_steps]:
  "kernel_inv s \<Longrightarrow> kernel_inv (rt_enter_critical s)" "kernel_inv s \<Longrightarrow> kernel_inv (rt_exit_critical s)"
proof -
  have n: "kernel_inv (s\<lparr>rt_scheduler_lock_nest := k\<rparr>)" if "kernel_inv s" for k s
    by (rule kernel_invI [OF that]) (use that in \<open>auto simp: kernel_inv_def iview_def intro: timer_inv_mono [of s]\<close>)
  show "kernel_inv s \<Longrightarrow> kernel_inv (rt_enter_critical s)" "kernel_inv s \<Longrightarrow> kernel_inv (rt_exit_critical s)"
    by (simp_all add: rt_enter_critical_def rt_exit_critical_def Let_def n kernel_inv_schedule)
qed

lemma kernel_inv_object_init [kernel_steps]: "kernel_inv s \<Longrightarrow> kernel_inv (rt_object_init r c nm s)"
proof -
  have "kernel_inv (object_link c r (upd_obj r (\<lambda>ob. ob\<lparr>obj_type := ty, obj_name := n\<rparr>) s))" if "kernel_inv s" for ty n s
  proof (rule kernel_invI [OF that])
    show "timer_inv (object_link c r (upd_obj r (\<lambda>ob. ob\<lparr>obj_type := ty, obj_name := n\<rparr>) s))"
      by (rule timer_inv_step [OF kernel_invD(2) [OF that]])
        (use that in \<open>simp_all add: kernel_inv_def timer_flag_object app_timeout timer_invD(1)\<close>, simp add: timer_flag_def)
  qed (use that in \<open>simp_all add: kernel_inv_def\<close>)
  then show "kernel_inv s \<Longrightarrow> kernel_inv (rt_object_init r c nm s)"
    by (simp add: rt_object_init_def Let_def kernel_steps)
qed

lemma object_init_list: "rt_timer_list (rt_object_init r c nm s) = rt_timer_list s"
proof -
  have "rt_timer_list (rt_exit_critical s') = rt_timer_list s'" "rt_timer_list (rt_enter_critical s') = rt_timer_list s'" for s'
    by (rule tmviewD(2), simp)+
  then show ?thesis by (simp add: rt_object_init_def Let_def)
qed

lemma timer_inv_init_fields:
  assumes "timer_inv s" "ThreadTimer t \<notin> set (rt_timer_list s)"
  shows "timer_inv (timer_init_fields (ThreadTimer t) (Rt_thread_timeout t) k RT_TIMER_FLAG_ONE_SHOT s)"
proof -
  have z: "RT_TIMER_FLAG_ONE_SHOT = 0" by (simp add: rt_flag_defs)
  show ?thesis
    using assms unfolding timer_inv_def timer_init_fields_def
    by (auto simp: soft_timer_def periodic_def activated_def timer_flag_upd z split: if_splits)
qed

lemma kernel_inv_thread_init:
  assumes inv: "kernel_inv s" and d: "dormant t s" "\<not> started (thr s t)"
  shows "kernel_inv (fst (rt_thread_init t nm e p sa sz prio k s))"
    "tm_timeout_func (tmr (fst (rt_thread_init t nm e p sa sz prio k s)) (ThreadTimer t)) = Rt_thread_timeout t"
proof -
  have n: "ThreadTimer t \<notin> set (rt_timer_list s)"
    using d(2) timer_invD(3) [OF kernel_invD(2) [OF inv], of t] by (auto simp: started_def)
  define s1 where "s1 = rt_object_init (ObjThread t) RT_Object_Class_Thread nm (RT_ASSERT (sa \<noteq> 0) s)"
  have k1: "kernel_inv s1" using inv by (simp add: s1_def kernel_steps)
  have l1: "rt_timer_list s1 = rt_timer_list s" by (simp add: s1_def object_init_list)
  have d1: "dormant t s1" "thr s1 t = thr s t"
    using rt_object_init_dormant [of "RT_ASSERT (sa \<noteq> 0) s" t] inv d(1) by (simp_all add: s1_def kernel_inv_def)
  define s2 where "s2 = upd_thr t (\<lambda>th. th\<lparr>th_entry := e, th_parameter := p,
                th_stack_addr := sa, th_stack_size := sz, th_init_priority := prio, th_current_priority := prio,
                th_number_mask := 0, th_init_tick := k, th_remaining_tick := k,
                th_error := RT_EOK, th_stat := RT_THREAD_INIT, th_cleanup := None,
                th_user_data := 0\<rparr>) (RT_ASSERT (unat prio < RT_THREAD_PRIORITY_MAX) s1)"
  have t2: "timer_inv s2"
    by (rule timer_inv_mono [OF kernel_invD(2) [OF k1]])
      (use n l1 in \<open>auto simp: s2_def started_def tstat_def thread_stat_defs split: if_splits\<close>)
  have s2: "sched_inv s2" unfolding s2_def
    by (rule unlinked_assign_inv)
      (use k1 d1 in \<open>auto simp: kernel_inv_def dormant_def mask_ok_def started_def tstat_def thread_stat_defs\<close>)
  have k2: "kernel_inv s2" by (rule kernel_invI [OF k1 s2 t2]) (simp add: s2_def)
  have eq: "fst (rt_thread_init t nm e p sa sz prio k s) =
      timer_init_fields (ThreadTimer t) (Rt_thread_timeout t) 0 RT_TIMER_FLAG_ONE_SHOT
        (rt_object_init (ObjTimer (ThreadTimer t)) RT_Object_Class_Timer (obj_cname (ObjThread t) s2) s2)"
    by (simp add: rt_thread_init_def thread_init_common_def rt_timer_init_def Let_def s1_def s2_def)
  have l2: "rt_timer_list s2 = rt_timer_list s" using tmviewD(2) [OF tmview_scheduler(2)] l1 by (simp add: s2_def)
  have k3: "kernel_inv (rt_object_init (ObjTimer (ThreadTimer t)) RT_Object_Class_Timer (obj_cname (ObjThread t) s2) s2)"
    using k2 by (simp add: kernel_steps)
  show "kernel_inv (fst (rt_thread_init t nm e p sa sz prio k s))" unfolding eq
    by (rule kernel_invI [OF k3])
      (use k3 n l2 in \<open>simp_all add: kernel_inv_def timer_inv_init_fields object_init_list\<close>)
  show "tm_timeout_func (tmr (fst (rt_thread_init t nm e p sa sz prio k s)) (ThreadTimer t)) = Rt_thread_timeout t"
    unfolding eq by (simp add: timer_init_fields_def)
qed

lemma kernel_inv_startup:
  assumes inv: "kernel_inv s" and st: "tstat (thr s t) = RT_THREAD_INIT" and p: "unat (th_init_priority (thr s t)) < 32"
    and f: "tm_timeout_func (tmr s (ThreadTimer t)) = Rt_thread_timeout t"
  shows "kernel_inv (fst (rt_thread_startup t s))"
proof -
  let ?f = "\<lambda>th. th\<lparr>th_current_priority := th_init_priority th,
    th_number_mask := push_bit (unat (th_init_priority th)) 1, th_stat := RT_THREAD_SUSPEND\<rparr>"
  have "kernel_inv (upd_thr t ?f (RT_ASSERT b (RT_ASSERT c s)))" (is "kernel_inv ?s") for b c
  proof (rule kernel_invI [OF inv])
    have i: "sched_inv s" using inv by (simp add: kernel_inv_def)
    show "sched_inv ?s"
      by (rule unlinked_assign_inv) (use i p unlinked_stat [OF i st] in \<open>simp_all add: mask_ok_def\<close>)
    show "timer_inv ?s"
      by (rule timer_inv_mono_init [OF kernel_invD(2) [OF inv]])
        (use f in \<open>auto simp: tstat_def thread_stat_defs split: if_splits\<close>)
  qed simp
  then show ?thesis unfolding rt_thread_startup_def Let_def by (simp add: kernel_steps)
qed

text \<open>Mutexes.\<close>

lemma kernel_inv_acquire:
  assumes inv: "kernel_inv s" and run: "tstat (thr s t) = RT_THREAD_RUNNING"
  shows "kernel_inv (fst (mutex_acquire a t time s))"
proof -
  have p: "prio_of (thr s t) < 32" using current_running_prio [OF kernel_invD(1) [OF inv]] run by simp
  have i: "kernel_inv (inherit_priority t ow s)" for ow
    using inv p by (simp add: inherit_priority_def kernel_inv_priority)
  have r: "tstat (thr (inherit_priority t ow s) t) \<in> {RT_THREAD_READY, RT_THREAD_RUNNING}" for ow
    using run by (auto simp: inherit_priority_def rt_thread_control_def rt_schedule_insert_thread_def list_insert_before_def Let_def)
  show ?thesis
    using inv p i r by (auto simp: mutex_acquire_def Let_def kernel_steps intro!: kernel_inv_upd_mutex kernel_inv_schedule
        kernel_inv_wait split: option.split)
qed

lemma kernel_inv_hold: "kernel_inv s \<Longrightarrow> kernel_inv (upd_mutex a (\<lambda>m. m\<lparr>mtx_hold := f m\<rparr>) s)"
  by (rule kernel_inv_upd_mutex) (simp_all add: kernel_inv_def mutex_prio_ok_def)

lemma kernel_inv_mutex_take:
  assumes inv: "kernel_inv s" and ctx: "thread_context s"
  shows "kernel_inv (fst (rt_mutex_take a time s))"
  using assms by (auto simp: rt_mutex_take_def kernel_call_defs kernel_steps intro!: kernel_inv_acquire kernel_inv_hold
      split: option.splits)

lemma kernel_inv_mutex_release:
  assumes inv: "kernel_inv s"
  shows "kernel_inv (fst (rt_mutex_release a s))"
proof -
  have pass: "kernel_inv (mutex_pass_on a t s)" if k: "kernel_inv s" and o: "mtx_owner (get_mutex a s) = Some t" for t s
  proof -
    let ?p = "mtx_original_priority (get_mutex a s)"
    define s1 where "s1 = (if ?p \<noteq> th_current_priority (thr s t)
                 then fst (rt_thread_control t (RT_THREAD_CTRL_CHANGE_PRIORITY ?p) s) else s)"
    have "unat ?p < 32" using k o by (simp add: kernel_inv_def mutex_prio_ok_def)
    then have k1: "kernel_inv s1" using k by (simp add: s1_def kernel_inv_priority)
    have w: "prio_of (thr s1 w) < 32" if "tq s1 (MutexQ a) = w # ws" for w ws
      using current_running_prio [OF kernel_invD(1) [OF k1], of w] linked_stat [of "{}" "{}" s1 w "MutexQ a"] that k1
      by (auto simp: kernel_inv_def sched_inv_def)
    show ?thesis
      unfolding mutex_pass_on_def Let_def s1_def [symmetric] using k1 w
      by (auto intro!: kernel_inv_schedule kernel_inv_list_resume kernel_inv_upd_mutex split: list.split)
  qed
  show ?thesis
    using inv pass by (auto simp: rt_mutex_release_def Let_def rt_thread_self_def kernel_steps intro!: kernel_inv_hold pass
        split: option.splits)
qed

text \<open>The timers of the application.\<close>

lemma kernel_inv_app_flag [kernel_steps]: "kernel_inv s \<Longrightarrow> kernel_inv (upd_flag (TimerAt a) f s)"
  by (rule kernel_invI)
    (auto simp: kernel_inv_def timer_flag_upd app_timeout timer_invD(1) intro!: timer_inv_step [of s])

lemma kernel_inv_app_tmr:
  "kernel_inv s \<Longrightarrow> (\<And>tm. tm_timeout_func (f tm) = tm_timeout_func tm) \<Longrightarrow> kernel_inv (upd_tmr (TimerAt a) f s)"
  by (rule kernel_invI)
    (auto simp: kernel_inv_def app_timeout timer_invD(1) intro!: timer_inv_step [of s] split: if_splits)

lemma kernel_inv_app_start:
  assumes inv: "kernel_inv s"
  shows "kernel_inv (fst (rt_timer_start (TimerAt a) s))"
proof -
  let ?r = "TimerAt a"
  have ins: "kernel_inv (s'\<lparr>rt_timer_list := timer_insert f ?r (rt_timer_list s')\<rparr>)"
    if "kernel_inv s'" "?r \<notin> set (rt_timer_list s')" for s' f
    by (rule kernel_invI [OF that(1)])
      (use that in \<open>auto simp: kernel_inv_def app_timeout timer_invD(1) mset_distinct_timer_insert intro!: timer_inv_step [of s']\<close>)
  have soft: "kernel_inv (s'\<lparr>rt_soft_timer_list := l\<rparr>)" if "kernel_inv s'" for s' l
    by (rule kernel_invI [OF that])
      (use that in \<open>auto simp: kernel_inv_def app_timeout timer_invD(1) timer_flag_def intro!: timer_inv_step [of s']\<close>)
  define s3 where "s3 = (let s1 = RT_ASSERT (timer_type_ok ?r s) s;
         s2 = upd_flag ?r (\<lambda>f. f AND NOT RT_TIMER_FLAG_ACTIVATED) (timer_remove ?r s1)
     in RT_ASSERT (tm_init_tick (tmr s2 ?r) < RT_TICK_MAX div 2) s2)"
  define s4 where "s4 = upd_tmr ?r (\<lambda>tm. tm\<lparr>tm_timeout_tick := rt_tick_get s3 + tm_init_tick tm\<rparr>) s3"
  have k3: "kernel_inv s3" using inv by (simp add: s3_def Let_def kernel_steps)
  then have k4: "kernel_inv s4" by (simp add: s4_def kernel_inv_app_tmr)
  have "?r \<notin> set (rt_timer_list s4)"
    using timer_invD(1) [OF kernel_invD(2) [OF inv]] by (simp add: s4_def s3_def Let_def set_remove1_distinct)
  note k5 = ins [OF k4 this] soft [OF k4]
  show ?thesis
    unfolding rt_timer_start_def Let_def fst_conv s3_def [unfolded Let_def, symmetric] s4_def [symmetric]
    using k5 by (auto intro!: kernel_steps)
qed

lemma kernel_inv_app_stop: "kernel_inv s \<Longrightarrow> kernel_inv (fst (rt_timer_stop (TimerAt a) s))"
  by (simp add: rt_timer_stop_def Let_def kernel_steps)

text \<open>The tick.\<close>

lemma timer_inv_timeout:
  assumes k: "kernel_inv s" and st: "tstat (thr s t) = RT_THREAD_SUSPEND" and n: "ThreadTimer t \<notin> set (rt_timer_list s)"
  shows "kernel_inv (rt_thread_timeout t s)"
proof -
  have i: "sched_inv s" "timer_inv s" using k by (simp_all add: kernel_inv_def)
  define s3 where "s3 = upd_thr t (\<lambda>th. th\<lparr>th_error := - RT_ETIMEOUT\<rparr>)
    (RT_ASSERT (thread_type_ok t (RT_ASSERT (tstat (thr s t) = RT_THREAD_SUSPEND) s)) (RT_ASSERT (tstat (thr s t) = RT_THREAD_SUSPEND) s))"
  have k3: "kernel_inv s3" using k by (simp add: s3_def kernel_steps)
  have st3: "tstat (thr s3 t) = RT_THREAD_SUSPEND" using st by (simp add: s3_def tstat_def)
  have l3: "rt_timer_list s3 = rt_timer_list s" using tmviewD(2) [OF tmview_scheduler(2)] by (simp add: s3_def)
  let ?s4 = "rt_schedule_insert_thread t (list_remove t s3)"
  have "sched_inv ?s4" by (rule wake_inv [OF kernel_invD(1) [OF k3] st3]) simp
  moreover have "timer_inv ?s4"
    by (rule timer_inv_mono [OF kernel_invD(2) [OF k3]])
      (use n l3 st3 in \<open>auto simp: rt_schedule_insert_thread_def list_insert_before_def list_remove_def Let_def started_def
        split: if_splits\<close>)
  ultimately have "kernel_inv ?s4" by (intro kernel_invI [OF k3]) simp_all
  moreover have "rt_thread_timeout t s = rt_schedule ?s4" by (simp add: rt_thread_timeout_def Let_def s3_def)
  ultimately show ?thesis by (simp add: kernel_steps)
qed

type_synonym callback_pred = "callbacks \<Rightarrow> bool"

text \<open>Callbacks of application timers may call the kernel, but must keep its invariant.\<close>

definition callbacks_ok :: callback_pred where
  "callbacks_ok cb \<longleftrightarrow> (\<forall>f p s. kernel_inv s \<longrightarrow> kernel_inv (cb f p s))"

lemma timer_inv_clear:
  assumes "timer_inv s" "ThreadTimer t \<notin> set (rt_timer_list s)"
  shows "timer_inv (upd_flag (ThreadTimer t) (\<lambda>f. f AND NOT RT_TIMER_FLAG_ACTIVATED) s)"
  using assms unfolding timer_inv_def by (auto simp: periodic_def activated_def timer_flag_upd flag_bits)

lemma kernel_inv_fire:
  assumes inv: "kernel_inv s" and cb: "callbacks_ok cb" and r: "r \<in> set (rt_timer_list s)"
  shows "kernel_inv (timer_rearm r (timer_fire cb r s))"
proof (cases r)
  case (ThreadTimer t)
  note d = timer_invD [OF kernel_invD(2) [OF inv]]
  let ?s = "timer_remove r s"
  have st: "tstat (thr s t) = RT_THREAD_SUSPEND" using d(3) r ThreadTimer by simp
  have f: "tm_timeout_func (tmr s r) = Rt_thread_timeout t" using d(7) st ThreadTimer by (simp add: started_def)
  have n: "ThreadTimer t \<notin> set (rt_timer_list ?s)" using d(1) ThreadTimer by (simp add: set_remove1_distinct)
  have k: "kernel_inv (rt_thread_timeout t ?s)"
    by (rule timer_inv_timeout) (use inv st n in \<open>simp_all add: kernel_steps\<close>)
  have l: "rt_timer_list (rt_thread_timeout t ?s) = rt_timer_list ?s" by (rule tmviewD(2)) simp
  note dk = timer_invD [OF kernel_invD(2) [OF k]]
  have "timer_inv (upd_flag r (\<lambda>f. f AND NOT RT_TIMER_FLAG_ACTIVATED) (rt_thread_timeout t ?s))"
    using timer_inv_clear [OF kernel_invD(2) [OF k] n [folded l]] ThreadTimer by simp
  then have "kernel_inv (upd_flag r (\<lambda>f. f AND NOT RT_TIMER_FLAG_ACTIVATED) (rt_thread_timeout t ?s))"
    using k by (intro kernel_invI [OF k]) (simp_all add: kernel_inv_def)
  moreover have "\<not> periodic r (rt_thread_timeout t ?s)" using dk(6) ThreadTimer by simp
  ultimately show ?thesis
    by (simp add: timer_rearm_def timer_fire_def run_timeout_def f Let_def periodic_def)
next
  case (TimerAt a)
  obtain f p where f: "tm_timeout_func (tmr s (TimerAt a)) = App_timeout f p"
    using app_timeout [OF kernel_invD(2) [OF inv], of a] by (cases "tm_timeout_func (tmr s (TimerAt a))") auto
  have "kernel_inv (cb f p (timer_remove (TimerAt a) s))" using cb inv by (simp add: callbacks_ok_def kernel_steps)
  then show ?thesis
    by (simp add: timer_rearm_def timer_fire_def run_timeout_def f Let_def TimerAt kernel_steps kernel_inv_app_start)
qed

lemma kernel_inv_timer_check:
  assumes "kernel_inv s" "callbacks_ok cb" "rt_timer_check cb fuel s = Some s'"
  shows "kernel_inv s'"
proof -
  have "timer_check_loop cb fuel k s = Some s' \<Longrightarrow> kernel_inv s'" if "kernel_inv s" for k s
    using that
  proof (induction fuel arbitrary: k s)
    case (Suc fuel)
    then show ?case
      using kernel_inv_fire [OF Suc.prems(2) assms(2)]
      by (auto simp: Let_def split: list.splits if_splits)
  qed simp
  then show ?thesis using assms by (simp add: rt_timer_check_def)
qed

lemma kernel_inv_tick:
  assumes inv: "kernel_inv s" and cb: "callbacks_ok cb" and r: "rt_tick_increase cb fuel s = Some s'"
  shows "kernel_inv s'"
proof -
  have k1: "kernel_inv (s\<lparr>rt_tick := k\<rparr>)" for k
    by (rule kernel_invI [OF inv])
      (use inv in \<open>auto simp: kernel_inv_def app_timeout timer_invD(1) timer_flag_def intro!: timer_inv_step [of s]\<close>)
  have d: "kernel_inv (upd_thr t (\<lambda>th. th\<lparr>th_remaining_tick := th_remaining_tick th - 1\<rparr>) s)" if "kernel_inv s" for t s
    by (rule kernel_inv_thread_data [OF that]) (simp_all add: tstat_def)
  have y: "kernel_inv (upd_thr t (\<lambda>th. th\<lparr>th_remaining_tick := th_init_tick th,
      th_stat := th_stat th OR RT_THREAD_STAT_YIELD\<rparr>) s)" if "kernel_inv s" for t s
  proof (rule kernel_inv_thread_data [OF that])
    show "tstat (th\<lparr>th_remaining_tick := th_init_tick th, th_stat := th_stat th OR RT_THREAD_STAT_YIELD\<rparr>) = tstat th" for th
      using tstat_set_yield [of "th\<lparr>th_remaining_tick := th_init_tick th\<rparr>"] by simp
  qed simp_all
  show ?thesis
    using r k1 cb by (auto simp: rt_tick_increase_def rt_thread_yield_def Let_def d y kernel_steps
        dest!: kernel_inv_timer_check [rotated 2] split: option.splits if_splits)
qed

section \<open>The running kernel\<close>

text \<open>
  The kernel calls of threads and interrupt handlers. A blocking call is two calls: up to the point where the
  thread gives up the processor, and what it does when it runs again (\<open>_again\<close>).
\<close>

datatype kcall =
    Th_init tid cstr addr addr addr rt_uint32_t rt_uint8_t rt_uint32_t | Th_startup tid | Th_suspend tid | Th_resume tid
  | Th_sleep rt_tick_t | Th_sleep_again tid | Th_delay_until rt_tick_t rt_tick_t | Th_yield
  | Th_set_priority tid rt_uint8_t | Th_exit | Th_detach tid | Th_delete tid
  | Sem_take addr rt_int32_t | Sem_release addr | Sem_control addr ipc_cmd
  | Mutex_take addr rt_int32_t | Mutex_take_again addr tid rt_int32_t | Mutex_release addr
  | Event_send addr rt_uint32_t | Event_recv addr rt_uint32_t rt_uint8_t rt_int32_t | Event_control addr ipc_cmd
  | Mb_send addr rt_uint32_t rt_int32_t | Mb_send_again addr rt_uint32_t rt_int32_t rt_tick_t tid
  | Mb_recv addr rt_int32_t | Mb_recv_again addr rt_int32_t rt_tick_t tid | Mb_control addr ipc_cmd
  | Mq_send addr "rt_uint8_t list" rt_int32_t | Mq_send_again addr "rt_uint8_t list" rt_int32_t rt_tick_t tid
  | Mq_urgent addr "rt_uint8_t list" | Mq_recv addr rt_size_t rt_int32_t
  | Mq_recv_again addr rt_size_t rt_int32_t rt_tick_t tid | Mq_control addr ipc_cmd
  | Mp_alloc addr rt_int32_t | Mp_alloc_again addr rt_int32_t rt_tick_t tid | Mp_free "addr option"
  | Timer_start addr | Timer_stop addr | Enter_critical | Exit_critical

fun run_call :: "kcall \<Rightarrow> kstate \<Rightarrow> kstate" where
  "run_call (Th_init t nm e p sa sz prio k) s = fst (rt_thread_init t nm e p sa sz prio k s)"
| "run_call (Th_startup t) s = fst (rt_thread_startup t s)"
| "run_call (Th_suspend t) s = fst (rt_thread_suspend t s)"
| "run_call (Th_resume t) s = fst (rt_thread_resume t s)"
| "run_call (Th_sleep k) s = rt_thread_sleep k s"
| "run_call (Th_sleep_again t) s = fst (sleep_resumed t s)"
| "run_call (Th_delay_until k inc) s = fst (rt_thread_delay_until k inc s)"
| "run_call Th_yield s = fst (rt_thread_yield s)"
| "run_call (Th_set_priority t p) s = fst (rt_thread_control t (RT_THREAD_CTRL_CHANGE_PRIORITY p) s)"
| "run_call Th_exit s = rt_thread_exit s"
| "run_call (Th_detach t) s = fst (rt_thread_detach t s)"
| "run_call (Th_delete t) s = fst (rt_thread_delete t s)"
| "run_call (Sem_take a time) s = fst (rt_sem_take a time s)"
| "run_call (Sem_release a) s = fst (rt_sem_release a s)"
| "run_call (Sem_control a cmd) s = fst (rt_sem_control a cmd s)"
| "run_call (Mutex_take a time) s = fst (rt_mutex_take a time s)"
| "run_call (Mutex_take_again a t time) s = fst (mutex_take_resumed a t time s)"
| "run_call (Mutex_release a) s = fst (rt_mutex_release a s)"
| "run_call (Event_send a v) s = fst (rt_event_send a v s)"
| "run_call (Event_recv a v opt time) s = fst (rt_event_recv a v opt time s)"
| "run_call (Event_control a cmd) s = fst (rt_event_control a cmd s)"
| "run_call (Mb_send a v time) s = fst (rt_mb_send_wait a v time s)"
| "run_call (Mb_send_again a v time t0 t) s = fst (mb_send_resumed a v time t0 t s)"
| "run_call (Mb_recv a time) s = fst (rt_mb_recv a time s)"
| "run_call (Mb_recv_again a time t0 t) s = fst (mb_recv_resumed a time t0 t s)"
| "run_call (Mb_control a cmd) s = fst (rt_mb_control a cmd s)"
| "run_call (Mq_send a buf time) s = fst (rt_mq_send_wait a buf time s)"
| "run_call (Mq_send_again a buf time t0 t) s = fst (mq_send_resumed a buf time t0 t s)"
| "run_call (Mq_urgent a buf) s = fst (rt_mq_urgent a buf s)"
| "run_call (Mq_recv a sz time) s = fst (rt_mq_recv a sz time s)"
| "run_call (Mq_recv_again a sz time t0 t) s = fst (mq_recv_resumed a sz time t0 t s)"
| "run_call (Mq_control a cmd) s = fst (rt_mq_control a cmd s)"
| "run_call (Mp_alloc a time) s = fst (rt_mp_alloc a time s)"
| "run_call (Mp_alloc_again a time t0 t) s = fst (mp_alloc_resumed a time t0 t s)"
| "run_call (Mp_free p) s = rt_mp_free p s"
| "run_call (Timer_start a) s = fst (rt_timer_start (TimerAt a) s)"
| "run_call (Timer_stop a) s = fst (rt_timer_stop (TimerAt a) s)"
| "run_call Enter_critical s = rt_enter_critical s"
| "run_call Exit_critical s = rt_exit_critical s"

text \<open>
  When a call is allowed: a call that may block is made by the running thread; a thread is initialised
  when its structure is not in use and started once after that; priorities are below 32.
\<close>

definition may_call :: "kcall \<Rightarrow> kstate \<Rightarrow> bool" where
  "may_call c s \<longleftrightarrow>
    (case c of
       Th_init t nm e p sa sz prio k \<Rightarrow> dormant t s \<and> \<not> started (thr s t)
     | Th_startup t \<Rightarrow> tstat (thr s t) = RT_THREAD_INIT \<and> unat (th_init_priority (thr s t)) < 32 \<and>
         tm_timeout_func (tmr s (ThreadTimer t)) = Rt_thread_timeout t
     | Th_set_priority t p \<Rightarrow> unat p < 32
     | Mutex_take_again a t time \<Rightarrow> tstat (thr s t) = RT_THREAD_RUNNING
     | Th_suspend _ \<Rightarrow> True | Th_resume _ \<Rightarrow> True | Th_detach _ \<Rightarrow> True | Th_delete _ \<Rightarrow> True | Th_yield \<Rightarrow> True
     | Sem_release _ \<Rightarrow> True | Sem_control _ _ \<Rightarrow> True | Mutex_release _ \<Rightarrow> True | Event_send _ _ \<Rightarrow> True
     | Event_control _ _ \<Rightarrow> True | Mb_control _ _ \<Rightarrow> True | Mq_urgent _ _ \<Rightarrow> True | Mq_control _ _ \<Rightarrow> True | Mp_free _ \<Rightarrow> True
     | Timer_start _ \<Rightarrow> True | Timer_stop _ \<Rightarrow> True | Enter_critical \<Rightarrow> True | Exit_critical \<Rightarrow> True
     | _ \<Rightarrow> thread_context s)"

lemma kernel_inv_loops:
  assumes "kernel_inv s" "thread_context s"
  shows "kernel_inv (fst (mb_send_loop a v time s))" "kernel_inv (fst (mb_recv_loop a time s))"
    "kernel_inv (fst (mq_send_loop a buf time s))" "kernel_inv (fst (mq_recv_loop a sz time s))"
  using assms by (auto simp: mb_send_loop_def mb_recv_loop_def mq_send_loop_def mq_recv_loop_def kernel_call_defs
        kernel_steps split_beta intro!: kernel_inv_schedule kernel_inv_wait kernel_inv_wake split: option.splits)

lemma kernel_inv_again:
  assumes "kernel_inv s" "thread_context s"
  shows "kernel_inv (fst (mb_send_resumed a v time t0 t s))" "kernel_inv (fst (mb_recv_resumed a time t0 t s))"
    "kernel_inv (fst (mq_send_resumed a buf time t0 t s))" "kernel_inv (fst (mq_recv_resumed a sz time t0 t s))"
    "kernel_inv (fst (mp_alloc_resumed a time t0 t s))"
  using assms kernel_inv_loops [OF assms] kernel_inv_mp(1) [OF assms]
  by (simp_all add: mb_send_resumed_def mb_recv_resumed_def mq_send_resumed_def mq_recv_resumed_def mp_alloc_resumed_def
      rt_mp_alloc_def)

lemma kernel_inv_sleep_again: "kernel_inv s \<Longrightarrow> kernel_inv (fst (sleep_resumed t s))"
  by (simp add: sleep_resumed_def kernel_steps)

lemma kernel_inv_mutex_again:
  "kernel_inv s \<Longrightarrow> tstat (thr s t) = RT_THREAD_RUNNING \<Longrightarrow> kernel_inv (fst (mutex_take_resumed a t time s))"
  by (simp add: mutex_take_resumed_def kernel_inv_acquire)

lemmas kernel_call_inv = kernel_inv_sem kernel_inv_event kernel_inv_mb kernel_inv_mq kernel_inv_mp kernel_inv_again
  kernel_inv_sleep kernel_inv_sleep_again kernel_inv_mutex_again kernel_inv_mutex_take kernel_inv_mutex_release
  kernel_inv_exit kernel_inv_detach kernel_inv_priority kernel_inv_startup kernel_inv_thread_init(1)
  kernel_inv_app_start kernel_inv_app_stop

lemma run_call_inv: "kernel_inv s \<Longrightarrow> may_call c s \<Longrightarrow> kernel_inv (run_call c s)"
  by (cases c) (simp_all add: may_call_def kernel_call_inv kernel_steps rt_thread_yield_def)

text \<open>Starting the scheduler: the most urgent ready thread becomes the running one.\<close>

lemma kernel_inv_scheduler_start:
  assumes inv: "kernel_inv s" and cur: "rt_current_thread s = None"
  shows "kernel_inv (rt_system_scheduler_start s)"
proof (cases "fst (get_highest_priority_thread s)")
  case None
  then show ?thesis using inv by (auto simp: rt_system_scheduler_start_def kernel_steps split: prod.split)
next
  case (Some t)
  obtain hp where g: "get_highest_priority_thread s = (Some t, hp)" using Some by (cases "get_highest_priority_thread s") auto
  let ?f = "\<lambda>th. th\<lparr>th_stat := RT_THREAD_RUNNING\<rparr>" and ?s = "s\<lparr>rt_current_thread := Some t\<rparr>"
  have eq: "rt_system_scheduler_start s = upd_thr t ?f (rt_schedule_remove_thread t ?s)"
    by (simp add: rt_system_scheduler_start_def g)
  have i: "sched_inv_on {} {} s" using inv by (simp add: kernel_inv_def sched_inv_def)
  have t: "t \<in> set (tq s (Ready hp))"
    using g by (auto simp: get_highest_priority_thread_def Let_def split: list.splits)
  have st: "tstat (thr s t) = RT_THREAD_READY" using linked_stat [OF i t] by simp
  have run: "tstat (?f th) = RT_THREAD_RUNNING" for th by (simp add: tstat_def thread_stat_defs)
  have "sched_inv_on {} {t} ?s" using i cur by (auto simp: sched_inv_on_def state_inv_def)
  then have r: "sched_inv_on (insert t {}) (insert t {}) (rt_schedule_remove_thread t ?s)"
    using remove_thread_inv [of "{}" "{t}" ?s t] by simp
  have m: "mask_ok (?f (thr s t))"
    using started_mask [OF i, of t] st run by (simp add: mask_ok_def started_def)
  have "sched_inv (rt_system_scheduler_start s)" unfolding eq sched_inv_def
    by (rule settle_inv [OF r]) (use m run in \<open>simp_all add: thread_stat_defs\<close>)
  moreover have "timer_inv (rt_system_scheduler_start s)" unfolding eq
    by (rule timer_inv_mono [OF kernel_invD(2) [OF inv]])
      (use st run in \<open>auto simp: started_def split: if_splits\<close>)
  ultimately show ?thesis by (intro kernel_invI [OF inv]) (simp_all add: eq)
qed

lemma reset_state_kernel_inv: "kernel_inv reset_state"
proof -
  have "timer_inv reset_state"
    by (simp add: timer_inv_def reset_state_def soft_timer_def periodic_def timer_flag_def blank_object_def zero_timer_def
        started_def thread_stat_defs tstat_def zero_thread_def)
  moreover have "mutex_prio_ok reset_state" by (simp add: mutex_prio_ok_def reset_state_def get_mutex_def zero_mutex_def)
  ultimately show ?thesis using reset_state_inv by (simp add: kernel_inv_def)
qed

inductive kernel_reach :: "callbacks \<Rightarrow> kstate \<Rightarrow> bool" for cb where
  kernel_reset: "kernel_reach cb reset_state"
| kernel_start: "kernel_reach cb s \<Longrightarrow> rt_current_thread s = None \<Longrightarrow> kernel_reach cb (rt_system_scheduler_start s)"
| kernel_call: "kernel_reach cb s \<Longrightarrow> may_call c s \<Longrightarrow> kernel_reach cb (run_call c s)"
| kernel_tick: "kernel_reach cb s \<Longrightarrow> rt_tick_increase cb fuel s = Some s' \<Longrightarrow> kernel_reach cb s'"

lemma kernel_reach_inv:
  assumes "kernel_reach cb s" "callbacks_ok cb"
  shows "kernel_inv s"
  using assms(1)
proof induction
  case kernel_reset
  show ?case by (rule reset_state_kernel_inv)
next
  case (kernel_start s)
  then show ?case by (simp add: kernel_inv_scheduler_start)
next
  case (kernel_call s c)
  then show ?case by (simp add: run_call_inv)
next
  case (kernel_tick s fuel s')
  then show ?case using kernel_inv_tick [OF _ assms(2)] by blast
qed

section \<open>Sleepers wake up\<close>

definition awake :: "tid \<Rightarrow> kstate \<Rightarrow> bool" where
  "awake t s \<longleftrightarrow> tstat (thr s t) \<in> {RT_THREAD_READY, RT_THREAD_RUNNING}"

definition lets_run :: "callbacks \<Rightarrow> bool" where
  "lets_run cb \<longleftrightarrow> (\<forall>f p s t. awake t s \<longrightarrow> awake t (cb f p s))"

lemma awake_schedule: "awake t s \<Longrightarrow> awake t (rt_schedule s)"
  using schedule_stat_cases [of s t] by (auto simp: awake_def)

lemma awake_insert: "awake t s \<or> t = u \<Longrightarrow> awake t (rt_schedule_insert_thread u s)"
  by (auto simp: awake_def rt_schedule_insert_thread_def list_insert_before_def Let_def)

lemma awake_same: "thr s' = thr s \<Longrightarrow> awake t s' = awake t s"
  by (simp add: awake_def)

lemma awake_timeout: "awake t s \<or> t = u \<Longrightarrow> awake t (rt_thread_timeout u s)"
proof -
  assume a: "awake t s \<or> t = u"
  have "awake t (list_remove u (upd_thr u (\<lambda>th. th\<lparr>th_error := e\<rparr>) s')) \<or> t = u" if "thr s' = thr s" for e s'
    using a that by (auto simp: awake_def list_remove_def)
  then show ?thesis by (auto simp: rt_thread_timeout_def Let_def intro!: awake_schedule awake_insert)
qed

lemma awake_resume: "awake t s \<Longrightarrow> awake t (fst (rt_thread_resume u s))"
proof -
  assume a: "awake t s"
  have "awake t (fst (rt_timer_stop r (list_remove u (RT_ASSERT b s))))" for r b
    using a by (simp add: awake_def list_remove_def)
  then show ?thesis using a by (auto simp: rt_thread_resume_def Let_def awake_def [of t "RT_ASSERT b s" for b]
      intro!: awake_insert) (simp_all add: awake_def)
qed

lemma awake_timer_start: "awake t s \<Longrightarrow> awake t (fst (rt_timer_start r s))"
proof -
  assume a: "awake t s"
  have "awake t (upd_flag r f (upd_tmr r g (RT_ASSERT b (upd_flag r h (timer_remove r (RT_ASSERT c s))))\<lparr>rt_timer_list := l\<rparr>))"
    "awake t (upd_flag r f (upd_tmr r g (RT_ASSERT b (upd_flag r h (timer_remove r (RT_ASSERT c s))))\<lparr>rt_soft_timer_list := l\<rparr>))"
    for f g h b c l using a by (simp_all add: awake_def)
  then show ?thesis unfolding rt_timer_start_def Let_def fst_conv by (auto intro!: awake_schedule awake_resume)
qed

lemma awake_rearm: "awake t s \<Longrightarrow> awake t (timer_rearm r s)"
proof -
  assume "awake t s"
  then have "awake t (upd_flag r f s)" for f by (simp add: awake_def)
  then show ?thesis by (auto simp: timer_rearm_def Let_def intro!: awake_timer_start)
qed

lemma awake_fire:
  assumes "lets_run cb" "awake t s \<or> tm_timeout_func (tmr s r) = Rt_thread_timeout t"
  shows "awake t (timer_rearm r (timer_fire cb r s))"
proof (rule awake_rearm)
  have n: "awake t (timer_remove r s) = awake t s" by (rule awake_same) simp
  show "awake t (timer_fire cb r s)"
  proof (cases "tm_timeout_func (tmr s r)")
    case (Rt_thread_timeout u)
    then show ?thesis using assms(2) n awake_timeout [of t "timer_remove r s" u] by (auto simp: timer_fire_def run_timeout_def)
  next
    case (App_timeout f p)
    then show ?thesis using assms n by (simp add: timer_fire_def run_timeout_def lets_run_def)
  qed
qed

text \<open>Firing a timer does not change what another timer calls.\<close>

lemma fire_keeps_func:
  assumes "quiet cb"
  shows "tm_timeout_func (tmr (timer_rearm r (timer_fire cb r s)) u) = tm_timeout_func (tmr s u)"
proof -
  have f: "tmr (timer_fire cb r s) = tmr s"
    using tmviewD(1) [OF tmview_run_timeout [OF assms]] by (simp add: timer_fire_def)
  have "tm_timeout_func (tmr (fst (rt_timer_start r s)) u) = tm_timeout_func (tmr s u)" for s
  proof -
    have st: "tmr (fst (rt_timer_stop x s)) = tmr s" for x s by (simp add: timer_stop_fields')
    have sc: "tmr (rt_schedule_insert_thread x s) = tmr s" "tmr (rt_schedule s) = tmr s" "tmr (list_remove x s) = tmr s" for x s
      by (rule tmviewD(1), simp)+
    have "tmr (fst (rt_thread_resume x s)) = tmr s" for x s
      by (simp add: rt_thread_resume_def Let_def st sc)
    then show ?thesis by (simp add: rt_timer_start_def Let_def sc)
  qed
  then show ?thesis by (simp add: timer_rearm_def Let_def f)
qed

lemma fold_fire_awake:
  assumes "quiet cb" "lets_run cb"
    "awake t s \<or> (\<exists>r\<in>set rs. tm_timeout_func (tmr s r) = Rt_thread_timeout t)"
  shows "awake t (fold (\<lambda>r s. timer_rearm r (timer_fire cb r s)) rs s)"
  using assms(3)
proof (induction rs arbitrary: s)
  case (Cons r rs)
  let ?s = "timer_rearm r (timer_fire cb r s)"
  have "awake t ?s \<or> (\<exists>r\<in>set rs. tm_timeout_func (tmr ?s r) = Rt_thread_timeout t)"
    using Cons.prems awake_fire [OF assms(2), of t s r] by (auto simp: fire_keeps_func [OF assms(1)])
  from Cons.IH [OF this] show ?case by simp
qed simp

lemma timer_check_wakes:
  assumes k: "timer_inv s" and pre: "check_pre base s" and cb: "quiet cb" "lets_run cb"
    and fuel: "length (rt_timer_list s) < fuel" and t: "ThreadTimer t \<in> set (expired base s)"
  shows "\<exists>s'. rt_timer_check cb fuel s = Some s' \<and> awake t s'"
proof -
  have "ThreadTimer t \<in> set (rt_timer_list s)" using t by (auto simp: expired_def)
  then have "tstat (thr s t) = RT_THREAD_SUSPEND" using timer_invD(3) [OF k] by simp
  then have "tm_timeout_func (tmr s (ThreadTimer t)) = Rt_thread_timeout t" using timer_invD(7) [OF k] by (simp add: started_def)
  then have "awake t (fold (\<lambda>t s. timer_rearm t (timer_fire cb t s)) (expired base s) s)"
    using fold_fire_awake [OF cb] t by blast
  then show ?thesis using timer_check_ends(1) [OF pre cb(1) fuel] by blast
qed

section \<open>Delays\<close>

lemma delay_until_armed:
  assumes h: "\<not> soft_timer (ThreadTimer t) s" and c: "rt_current_thread s = Some t" and d: "rt_tick s - tick < inc"
  shows "tm_init_tick (tmr (fst (rt_thread_delay_until tick inc s)) (ThreadTimer t)) = (rt_tick s - tick) + inc"
proof -
  have sc: "tmr (rt_schedule s') = tmr s'" for s' by (rule tmviewD(1)) simp
  have arm: "tm_init_tick (tmr (thread_arm_timer t k s') (ThreadTimer t)) = k" if "\<not> soft_timer (ThreadTimer t) s'" for k s'
    using timer_start_hard(1) [of "ThreadTimer t" "fst (rt_timer_control (ThreadTimer t) (RT_TIMER_CTRL_SET_TIME k) s')"] that
    by (simp add: thread_arm_timer_def) (simp add: rt_timer_control_def Let_def)
  show ?thesis
    using c d arm h by (simp add: rt_thread_delay_until_def rt_thread_self_def rt_tick_get_def Let_def sc)
qed

lemma yield_keeps_current:
  assumes inv: "sched_inv s" and c: "rt_current_thread s = Some t" "tstat (thr s t) = RT_THREAD_RUNNING"
    and y: "th_stat (thr s t) AND RT_THREAD_STAT_YIELD = 0" and best: "\<And>p. p < prio_of (thr s t) \<Longrightarrow> tq s (Ready p) = []"
  shows "rt_current_thread (fst (rt_thread_yield s)) = Some t"
proof -
  have "rt_current_thread (rt_schedule s) = Some t"
  proof (cases rule: rt_schedule_cases [OF inv c(1), case_names idle keep preempt yielded])
    case (preempt u hp)
    have "\<not> hp < prio_of (thr s t)" using best [of hp] preempt(3) by auto
    then show ?thesis using preempt(2) c(2) y by (auto simp: schedule_keeps_def)
  qed (use c in simp_all)
  then show ?thesis by (simp add: rt_thread_yield_def)
qed

lemma tick_from_ms: "rt_tick_from_millisecond ms = (if sint ms < 0 then RT_WAITING_FOREVER else ms)"
proof (cases "sint ms < 0")
  case False
  have m: "(1000 * (sint ms mod 1000) + 999) div 1000 = sint ms mod 1000" by simp
  have "rt_tick_from_millisecond ms = word_of_int (1000 * (sint ms div 1000)) + word_of_int (sint ms mod 1000)"
    using False m by (simp add: rt_tick_from_millisecond_def RT_TICK_PER_SECOND_def)
  also have "\<dots> = word_of_int (sint ms)" by (simp only: of_int_add [symmetric] mult_div_mod_eq)
  also have "\<dots> = ms" by simp
  finally show ?thesis using False by simp
qed (simp add: rt_tick_from_millisecond_def)

section \<open>An example\<close>

text \<open>Thread 3 waits for the semaphore at address 100 with a timeout that ends at tick 5, and it is tick 5.\<close>

definition sleep_demo :: kstate where
  "sleep_demo = demo_state\<lparr>tmr := (\<lambda>r. case r of ThreadTimer t \<Rightarrow>
       \<lparr>tm_timeout_func = Rt_thread_timeout t, tm_init_tick = 5, tm_timeout_tick = 5\<rparr> | TimerAt a \<Rightarrow> zero_timer),
     rt_timer_list := [ThreadTimer 3],
     objs := (\<lambda>_. blank_object)(ObjTimer (ThreadTimer 3) := blank_object\<lparr>obj_flag := RT_TIMER_FLAG_ACTIVATED\<rparr>),
     rt_tick := 5\<rparr>"

lemma sleep_demo_fields [simp]:
  "thr sleep_demo = thr demo_state" "tq sleep_demo = tq demo_state" "rt_current_thread sleep_demo = Some 1"
  "rt_timer_list sleep_demo = [ThreadTimer 3]" "rt_tick sleep_demo = 5"
  "timer_flag r sleep_demo = (if r = ThreadTimer 3 then RT_TIMER_FLAG_ACTIVATED else 0)"
  "tmr sleep_demo (ThreadTimer t) = \<lparr>tm_timeout_func = Rt_thread_timeout t, tm_init_tick = 5, tm_timeout_tick = 5\<rparr>"
  "tmr sleep_demo (TimerAt a) = zero_timer"
  by (simp_all add: sleep_demo_def timer_flag_def blank_object_def)

lemma demo_no_yield: "th_stat (demo_thread RT_THREAD_RUNNING p) AND RT_THREAD_STAT_YIELD = 0"
  by (simp add: demo_thread_def thread_stat_defs)

lemma sleep_demo_ok:
  "kernel_inv sleep_demo" "check_pre 0 sleep_demo" "ThreadTimer 3 \<in> set (expired 0 sleep_demo)"
proof -
  have s: "sched_inv sleep_demo" by (rule sched_inv_frame [OF _ demo_state_inv]) (simp add: sview_def sleep_demo_def)
  have fl: "RT_TIMER_FLAG_ACTIVATED AND RT_TIMER_FLAG_SOFT_TIMER = 0" "RT_TIMER_FLAG_ACTIVATED AND RT_TIMER_FLAG_PERIODIC = 0"
    by (simp_all add: rt_flag_defs)
  have r: "tm_timeout_func (tmr sleep_demo r) = Rt_thread_timeout u \<Longrightarrow> r = ThreadTimer u" for r u
    by (cases r) (simp_all add: zero_timer_def)
  have "timer_inv sleep_demo"
    unfolding timer_inv_def using r fl by (auto simp: soft_timer_def periodic_def activated_def)
  moreover have "mutex_prio_ok sleep_demo"
    by (simp add: mutex_prio_ok_def sleep_demo_def get_mutex_def demo_on_def reset_state_def zero_mutex_def)
  ultimately show "kernel_inv sleep_demo" using s by (simp add: kernel_inv_def)
  show "check_pre 0 sleep_demo" "ThreadTimer 3 \<in> set (expired 0 sleep_demo)"
    by (simp_all add: check_pre_def expired_def timer_ordered_def timeouts_def delta_def half_range_val soft_timer_def
        periodic_def rt_flag_defs)
qed

end
