(* ===== verification/WorkQueue.thy ===== *)
theory WorkQueue
  imports Completion Kernel
begin

text \<open>
  Work queues (\<^verbatim>\<open>rt-thread/components/drivers/src/workqueue.c\<close>): items of work are submitted,
  at once or after a delay, and a thread of the queue runs them one after the other. The
  semaphore and the timer embedded in the structures are at their offsets (12 and 20 bytes, on the
  32-bit target). The endless loop of \<^verbatim>\<open>_workqueue_thread_entry\<close> is cut into its steps: test for
  work, sleep, take an item, run it, tell the threads that wait for it; the functions run are a
  parameter \<open>run\<close>. The results: items are run in the order of submission, an item is linked into
  at most one queue and never into the one that runs it, the loop that tells the waiting threads
  ends with all of them awake, and the cases in which work or an item is lost.
\<close>

section \<open>Structures\<close>

definition RT_WORK_STATE_PENDING :: rt_uint16_t where "RT_WORK_STATE_PENDING = 1"
definition RT_WORK_STATE_SUBMITTING :: rt_uint16_t where "RT_WORK_STATE_SUBMITTING = 2"
definition RT_WORK_TYPE_DELAYED :: rt_uint16_t where "RT_WORK_TYPE_DELAYED = 1"

definition EINVAL :: int where "EINVAL = 22"

definition wkq_sem :: "addr \<Rightarrow> addr" where "wkq_sem q = q + 12"
definition wk_timer :: "addr \<Rightarrow> timer_ref" where "wk_timer w = TimerAt (w + 20)"
definition sizeof_workqueue :: nat where "sizeof_workqueue = 48"

definition get_wkq :: "addr \<Rightarrow> kstate \<Rightarrow> rt_workqueue" where
  "get_wkq q s = workqueues s q"

definition upd_wkq :: "addr \<Rightarrow> (rt_workqueue \<Rightarrow> rt_workqueue) \<Rightarrow> kstate \<Rightarrow> kstate" where
  "upd_wkq q f s = s\<lparr>workqueues := (workqueues s)(q := f (workqueues s q))\<rparr>"

definition get_work :: "addr \<Rightarrow> kstate \<Rightarrow> rt_work" where
  "get_work w s = works s w"

definition upd_work :: "addr \<Rightarrow> (rt_work \<Rightarrow> rt_work) \<Rightarrow> kstate \<Rightarrow> kstate" where
  "upd_work w f s = s\<lparr>works := (works s)(w := f (works s w))\<rparr>"

abbreviation work_list :: "addr \<Rightarrow> kstate \<Rightarrow> addr list" where
  "work_list q s \<equiv> wkq_work_list (get_wkq q s)"

abbreviation work_current :: "addr \<Rightarrow> kstate \<Rightarrow> addr option" where
  "work_current q s \<equiv> wkq_work_current (get_wkq q s)"

definition pending :: "addr \<Rightarrow> kstate \<Rightarrow> bool" where
  "pending w s \<longleftrightarrow> wk_flags (get_work w s) AND RT_WORK_STATE_PENDING \<noteq> 0"

definition set_flags :: "rt_uint16_t \<Rightarrow> addr \<Rightarrow> kstate \<Rightarrow> kstate" where
  "set_flags m w s = upd_work w (\<lambda>k. k\<lparr>wk_flags := wk_flags k OR m\<rparr>) s"

definition clear_flags :: "rt_uint16_t \<Rightarrow> addr \<Rightarrow> kstate \<Rightarrow> kstate" where
  "clear_flags m w s = upd_work w (\<lambda>k. k\<lparr>wk_flags := wk_flags k AND NOT m\<rparr>) s"

text \<open>\<^verbatim>\<open>rt_list_remove(&(work->list))\<close>: from whichever list it is in.\<close>

definition work_unlink :: "addr \<Rightarrow> kstate \<Rightarrow> kstate" where
  "work_unlink w s =
    s\<lparr>workqueues := (\<lambda>q. (workqueues s q)\<lparr>wkq_work_list := remove1 w (wkq_work_list (workqueues s q))\<rparr>)\<rparr>"

section \<open>Submitting and cancelling\<close>

definition rt_work_init :: "addr \<Rightarrow> addr \<Rightarrow> addr \<Rightarrow> kstate \<Rightarrow> kstate" where
  "rt_work_init w work_func work_data s =
    upd_work w (\<lambda>_. \<lparr>wk_work_func = work_func, wk_work_data = work_data, wk_flags = 0, wk_type = 0,
                     wk_workqueue = None\<rparr>) s"

definition rt_delayed_work_init :: "addr \<Rightarrow> addr \<Rightarrow> addr \<Rightarrow> kstate \<Rightarrow> kstate" where
  "rt_delayed_work_init w work_func work_data s = rt_work_init w work_func work_data s"

definition work_append :: "addr \<Rightarrow> addr \<Rightarrow> kstate \<Rightarrow> kstate" where
  "work_append q w s =
    upd_wkq q (\<lambda>k. k\<lparr>wkq_work_list := wkq_work_list k @ [w]\<rparr>) (work_unlink w s)"

text \<open>The end of a submission: when no item is being run, the queue's thread is resumed.\<close>

definition workqueue_kick :: "addr \<Rightarrow> kstate \<Rightarrow> kstate" where
  "workqueue_kick q s =
    (if work_current q s = None then rt_schedule (fst (rt_thread_resume (wkq_work_thread (get_wkq q s)) s))
     else s)"

definition workqueue_submit_work :: "addr \<Rightarrow> addr \<Rightarrow> kstate \<Rightarrow> kstate \<times> rt_err_t" where
  "workqueue_submit_work q w s =
    (if pending w s then (s, - RT_EBUSY)
     else if work_current q s = Some w then (s, - RT_EBUSY)
     else (workqueue_kick q (set_flags RT_WORK_STATE_PENDING w (work_append q w s)), RT_EOK))"

definition workqueue_cancel_work :: "addr \<Rightarrow> addr \<Rightarrow> kstate \<Rightarrow> kstate \<times> rt_err_t" where
  "workqueue_cancel_work q w s =
    (if work_current q s = Some w then (s, - RT_EBUSY)
     else (clear_flags RT_WORK_STATE_PENDING w (work_unlink w s), RT_EOK))"

definition work_leave_queue :: "addr \<Rightarrow> kstate \<Rightarrow> kstate" where
  "work_leave_queue w s =
    clear_flags RT_WORK_STATE_PENDING w (upd_work w (\<lambda>k. k\<lparr>wk_workqueue := None\<rparr>) s)"

definition workqueue_cancel_delayed_work :: "addr \<Rightarrow> kstate \<Rightarrow> kstate \<times> rt_err_t" where
  "workqueue_cancel_delayed_work w s =
    (case wk_workqueue (get_work w s) of
       None \<Rightarrow> (s, - EINVAL)
     | Some q \<Rightarrow>
         if pending w s then
           (case workqueue_cancel_work q w s of
              (s1, ret) \<Rightarrow> if ret \<noteq> 0 then (s1, ret) else (work_leave_queue w s1, RT_EOK))
         else
           let s1 = (if wk_flags (get_work w s) AND RT_WORK_STATE_SUBMITTING \<noteq> 0
                     then clear_flags RT_WORK_STATE_SUBMITTING w
                       (fst (rt_timer_detach (wk_timer w) (fst (rt_timer_stop (wk_timer w) s))))
                     else s)
           in (work_leave_queue w s1, RT_EOK))"

definition workqueue_submit_delayed_work ::
    "cstr \<Rightarrow> addr \<Rightarrow> addr \<Rightarrow> addr \<Rightarrow> rt_tick_t \<Rightarrow> kstate \<Rightarrow> kstate \<times> rt_err_t" where
  "workqueue_submit_delayed_work name handler q w ticks s =
    (let wq = wk_workqueue (get_work w s) in
     if wq \<noteq> None \<and> wq \<noteq> Some q then (s, - RT_EINVAL)
     else
       let (s1, ret) = (if wq = Some q then workqueue_cancel_delayed_work w s else (s, RT_EOK)) in
       if ret < 0 then (s1, ret)
       else
         let s2 = upd_work w (\<lambda>k. k\<lparr>wk_workqueue := Some q\<rparr>) s1 in
         if ticks = 0 then workqueue_submit_work q w s2
         else
           let s3 = rt_timer_init (wk_timer w) name (App_timeout handler w) ticks
                      (RT_TIMER_FLAG_ONE_SHOT OR RT_TIMER_FLAG_SOFT_TIMER)
                      (set_flags RT_WORK_STATE_SUBMITTING w s2)
           in (fst (rt_timer_start (wk_timer w) s3), ret))"

definition delayed_work_timeout_handler :: "addr \<Rightarrow> kstate \<Rightarrow> kstate" where
  "delayed_work_timeout_handler w s =
    (let s1 = fst (rt_timer_detach (wk_timer w) (fst (rt_timer_stop (wk_timer w) s)));
         s2 = upd_work w (\<lambda>k. k\<lparr>wk_type := wk_type k AND NOT RT_WORK_TYPE_DELAYED\<rparr>)
                (clear_flags RT_WORK_STATE_SUBMITTING w s1)
     in case wk_workqueue (get_work w s2) of
          None \<Rightarrow> null_deref s2
        | Some q \<Rightarrow> fst (workqueue_submit_work q w s2))"

definition rt_workqueue_dowork :: "addr \<Rightarrow> addr \<Rightarrow> kstate \<Rightarrow> kstate \<times> rt_err_t" where
  "rt_workqueue_dowork q w s = workqueue_submit_work q w s"

definition rt_workqueue_submit_work ::
    "cstr \<Rightarrow> addr \<Rightarrow> addr \<Rightarrow> addr \<Rightarrow> rt_tick_t \<Rightarrow> kstate \<Rightarrow> kstate \<times> rt_err_t" where
  "rt_workqueue_submit_work name handler q w time s =
    (let s1 = (if time > 0 then upd_work w (\<lambda>k. k\<lparr>wk_type := wk_type k OR RT_WORK_TYPE_DELAYED\<rparr>) s else s) in
     if wk_type (get_work w s1) AND RT_WORK_TYPE_DELAYED \<noteq> 0
     then workqueue_submit_delayed_work name handler q w time s1
     else workqueue_submit_work q w s1)"

definition rt_workqueue_critical_work :: "addr \<Rightarrow> addr \<Rightarrow> kstate \<Rightarrow> kstate \<times> rt_err_t" where
  "rt_workqueue_critical_work q w s =
    (if work_current q s = Some w then (s, - RT_EBUSY)
     else (workqueue_kick q (work_append q w s), RT_EOK))"

definition rt_workqueue_cancel_work :: "addr \<Rightarrow> addr \<Rightarrow> kstate \<Rightarrow> kstate \<times> rt_err_t" where
  "rt_workqueue_cancel_work q w s =
    (if wk_type (get_work w s) AND RT_WORK_TYPE_DELAYED \<noteq> 0 then workqueue_cancel_delayed_work w s
     else workqueue_cancel_work q w s)"

text \<open>Cancelling an item that runs waits on the queue's semaphore; the rest of the call follows.\<close>

definition rt_workqueue_cancel_work_sync :: "addr \<Rightarrow> addr \<Rightarrow> kstate \<Rightarrow> kstate \<times> rt_err_t outcome" where
  "rt_workqueue_cancel_work_sync q w s =
    (if work_current q s = Some w then
       (case rt_sem_take (wkq_sem q) RT_WAITING_FOREVER s of
          (s1, Returns _) \<Rightarrow> (clear_flags RT_WORK_STATE_PENDING w s1, Returns RT_EOK)
        | (s1, Waits) \<Rightarrow> (s1, Waits))
     else (clear_flags RT_WORK_STATE_PENDING w (work_unlink w s), Returns RT_EOK))"

definition cancel_sync_resumed :: "addr \<Rightarrow> kstate \<Rightarrow> kstate \<times> rt_err_t" where
  "cancel_sync_resumed w s = (clear_flags RT_WORK_STATE_PENDING w s, RT_EOK)"

definition rt_workqueue_cancel_all_work :: "addr \<Rightarrow> kstate \<Rightarrow> kstate \<times> rt_err_t" where
  "rt_workqueue_cancel_all_work q s =
    (let s1 = rt_enter_critical s
     in (rt_exit_critical (fold work_unlink (work_list q s1) s1), RT_EOK))"

section \<open>The thread of the queue\<close>

text \<open>
  \<open>_workqueue_work_completion\<close> takes the semaphore without waiting and, as long as that fails,
  releases it, which wakes a waiting thread. The fuel bounds the rounds; \<open>completion_loop_ends\<close>
  gives the number that is enough.
\<close>

fun completion_loop :: "nat \<Rightarrow> addr \<Rightarrow> kstate \<Rightarrow> (kstate \<times> rt_err_t) option" where
  "completion_loop 0 q s = None"
| "completion_loop (Suc n) q s =
    (case rt_sem_trytake (wkq_sem q) s of
       (s1, Returns r) \<Rightarrow>
         if r = - RT_ETIMEOUT then completion_loop n q (fst (rt_sem_release (wkq_sem q) s1))
         else if r = RT_EOK then Some (s1, RT_EOK) else Some (s1, - RT_ERROR)
     | (s1, Waits) \<Rightarrow> None)"

definition workqueue_work_completion :: "nat \<Rightarrow> addr \<Rightarrow> kstate \<Rightarrow> (kstate \<times> rt_err_t) option" where
  "workqueue_work_completion n q s =
    (case completion_loop n q (rt_enter_critical s) of
       None \<Rightarrow> None
     | Some (s1, r) \<Rightarrow> Some (rt_exit_critical s1, r))"

definition workqueue_sleep :: "kstate \<Rightarrow> kstate" where
  "workqueue_sleep s =
    (case rt_thread_self s of
       None \<Rightarrow> null_deref s
     | Some t \<Rightarrow> rt_schedule (fst (rt_thread_suspend t s)))"

definition workqueue_take :: "addr \<Rightarrow> kstate \<Rightarrow> kstate \<times> addr option" where
  "workqueue_take q s =
    (case work_list q s of
       [] \<Rightarrow> (null_deref s, None)
     | w # _ \<Rightarrow>
         let s1 = upd_wkq q (\<lambda>k. k\<lparr>wkq_work_current := Some w\<rparr>) (work_unlink w s);
             s2 = clear_flags RT_WORK_STATE_PENDING w s1
         in (upd_work w (\<lambda>k. k\<lparr>wk_workqueue := None\<rparr>) s2, Some w))"

type_synonym work_callback = "addr \<Rightarrow> addr \<Rightarrow> addr \<Rightarrow> kstate \<Rightarrow> kstate"

definition workqueue_finish :: "nat \<Rightarrow> addr \<Rightarrow> kstate \<Rightarrow> (kstate \<times> rt_err_t) option" where
  "workqueue_finish n q s =
    workqueue_work_completion n q (upd_wkq q (\<lambda>k. k\<lparr>wkq_work_current := None\<rparr>) s)"

text \<open>A round of the loop that finds work: take, run, finish.\<close>

definition workqueue_round :: "work_callback \<Rightarrow> nat \<Rightarrow> addr \<Rightarrow> kstate \<Rightarrow> kstate option" where
  "workqueue_round run n q s =
    (case workqueue_take q s of
       (s1, None) \<Rightarrow> None
     | (s1, Some w) \<Rightarrow>
         let k = get_work w s1 in
         map_option fst (workqueue_finish n q (run (wk_work_func k) w (wk_work_data k) s1)))"

section \<open>Creating and destroying a queue\<close>

definition rt_workqueue_create ::
    "cstr \<Rightarrow> cstr \<Rightarrow> addr \<Rightarrow> rt_uint16_t \<Rightarrow> rt_uint8_t \<Rightarrow> kstate \<Rightarrow> kstate \<times> addr option" where
  "rt_workqueue_create sem_name name entry stack_size priority s =
    (case kernel_malloc sizeof_workqueue s of
       (s1, None) \<Rightarrow> (s1, None)
     | (s1, Some q) \<Rightarrow>
         let s2 = upd_wkq q (\<lambda>k. k\<lparr>wkq_work_list := [], wkq_work_current := None\<rparr>) s1;
             s3 = fst (rt_sem_init (wkq_sem q) sem_name 0 RT_IPC_FLAG_FIFO s2)
         in case rt_thread_create name entry q (ucast stack_size) priority 10 s3 of
              (s4, None) \<Rightarrow> (kernel_free (Some q) s4, None)
            | (s4, Some t) \<Rightarrow>
                (fst (rt_thread_startup t (upd_wkq q (\<lambda>k. k\<lparr>wkq_work_thread := t\<rparr>) s4)), Some q))"

definition rt_workqueue_destroy :: "addr \<Rightarrow> kstate \<Rightarrow> kstate \<times> rt_err_t" where
  "rt_workqueue_destroy q s =
    (kernel_free (Some q) (fst (rt_thread_delete (wkq_work_thread (get_wkq q s)) s)), RT_EOK)"

text \<open>The queue of the system: its pointer is null until it is created.\<close>

definition rt_work_submit :: "cstr \<Rightarrow> addr \<Rightarrow> addr option \<Rightarrow> addr \<Rightarrow> rt_tick_t \<Rightarrow> kstate \<Rightarrow> kstate \<times> rt_err_t" where
  "rt_work_submit name handler sys_workq w time s =
    (case sys_workq of
       None \<Rightarrow> (RT_ASSERT False s, - RT_ERROR)
     | Some q \<Rightarrow> rt_workqueue_submit_work name handler q w time s)"

definition rt_work_cancel :: "addr option \<Rightarrow> addr \<Rightarrow> kstate \<Rightarrow> kstate \<times> rt_err_t" where
  "rt_work_cancel sys_workq w s =
    (case sys_workq of
       None \<Rightarrow> (RT_ASSERT False s, - RT_ERROR)
     | Some q \<Rightarrow> rt_workqueue_cancel_work q w s)"

definition rt_work_sys_workqueue_init ::
    "cstr \<Rightarrow> cstr \<Rightarrow> addr \<Rightarrow> addr option \<Rightarrow> kstate \<Rightarrow> kstate \<times> addr option" where
  "rt_work_sys_workqueue_init sem_name name entry sys_workq s =
    (case sys_workq of
       Some q \<Rightarrow> (s, Some q)
     | None \<Rightarrow> rt_workqueue_create sem_name name entry 2048 23 s)"

section \<open>The stores of queues and items\<close>

interpretation wkqs: object_store get_wkq upd_wkq
proof
  show "get_wkq a s' = get_wkq a s" if "iview s' = iview s" for s' s a
    using iviewD(12) [OF that] by (simp add: get_wkq_def)
qed (simp_all add: get_wkq_def upd_wkq_def sview_def)

interpretation wks: object_store get_work upd_work
proof
  show "get_work a s' = get_work a s" if "iview s' = iview s" for s' s a
    using iviewD(13) [OF that] by (simp add: get_work_def)
qed (simp_all add: get_work_def upd_work_def sview_def)

lemmas wk_store [simp] = wkqs.get_kernel wkqs.get_upd wkqs.get_upd_other wkqs.upd_inv wkqs.upd_fields
  wks.get_kernel wks.get_upd wks.get_upd_other wks.upd_inv wks.upd_fields

lemma wk_independent [simp]:
  "get_wkq q (upd_work w f s) = get_wkq q s" "get_work w (upd_wkq q g s) = get_work w s"
  "get_work w (work_unlink v s) = get_work w s" "get_wkq q (set_flags m w s) = get_wkq q s"
  "get_wkq q (clear_flags m w s) = get_wkq q s"
  by (simp_all add: get_wkq_def get_work_def upd_work_def upd_wkq_def work_unlink_def set_flags_def clear_flags_def)

lemma wk_views [simp]:
  "sview (work_unlink w s) = sview s" "sview (set_flags m w s) = sview s" "sview (clear_flags m w s) = sview s"
  "sview (work_append q w s) = sview s" "sview (upd_wkq q g s) = sview s" "sview (upd_work w f s) = sview s"
  by (simp_all add: sview_def work_unlink_def set_flags_def clear_flags_def work_append_def upd_work_def upd_wkq_def)

lemma get_wkq_unlink [simp]:
  "get_wkq q (work_unlink w s) = (get_wkq q s)\<lparr>wkq_work_list := remove1 w (work_list q s)\<rparr>"
  by (simp add: get_wkq_def work_unlink_def)

lemma get_wkq_append:
  "get_wkq p (work_append q w s) = (get_wkq p s)\<lparr>wkq_work_list :=
     remove1 w (work_list p s) @ (if p = q then [w] else [])\<rparr>"
  by (cases "p = q") (simp_all add: work_append_def)

lemma get_work_flags [simp]:
  "get_work w (set_flags m w s) = (get_work w s)\<lparr>wk_flags := wk_flags (get_work w s) OR m\<rparr>"
  "get_work w (clear_flags m w s) = (get_work w s)\<lparr>wk_flags := wk_flags (get_work w s) AND NOT m\<rparr>"
  "v \<noteq> w \<Longrightarrow> get_work v (set_flags m w s) = get_work v s"
  "v \<noteq> w \<Longrightarrow> get_work v (clear_flags m w s) = get_work v s"
  by (simp_all add: set_flags_def clear_flags_def)

lemma get_work_append [simp]: "get_work v (work_append q w s) = get_work v s"
  by (simp add: work_append_def)

lemma kick_objects [simp]:
  "get_wkq p (workqueue_kick q s) = get_wkq p s" "get_work w (workqueue_kick q s) = get_work w s"
  by (simp_all add: workqueue_kick_def)

lemma pending_flags [simp]:
  "pending w (set_flags RT_WORK_STATE_PENDING w s)" "\<not> pending w (clear_flags RT_WORK_STATE_PENDING w s)"
  by (simp_all add: pending_def RT_WORK_STATE_PENDING_def word_nonzero_bit bit_simps)

section \<open>Which items are queued\<close>

text \<open>
  An item is linked at most once, into at most one queue, and never into the queue that is
  running it.
\<close>

definition work_inv :: "kstate \<Rightarrow> bool" where
  "work_inv s \<longleftrightarrow>
    (\<forall>q. distinct (work_list q s)) \<and>
    (\<forall>p q w. w \<in> set (work_list p s) \<longrightarrow> w \<in> set (work_list q s) \<longrightarrow> p = q) \<and>
    (\<forall>q w. work_current q s = Some w \<longrightarrow> w \<notin> set (work_list q s))"

lemma work_inv_same: "(\<And>q. get_wkq q s' = get_wkq q s) \<Longrightarrow> work_inv s' = work_inv s"
  by (simp add: work_inv_def)

lemma work_inv_unlink: "work_inv s \<Longrightarrow> work_inv (work_unlink w s)"
  by (auto simp: work_inv_def dest: notin_set_remove1)

lemma work_inv_append: "work_inv s \<Longrightarrow> work_current q s \<noteq> Some w \<Longrightarrow> work_inv (work_append q w s)"
  unfolding work_inv_def get_wkq_append
  by (auto simp: split: if_splits dest: notin_set_remove1)

lemma work_inv_submit: "work_inv s \<Longrightarrow> work_inv (fst (workqueue_submit_work q w s))"
proof -
  assume i: "work_inv s"
  have "work_inv (workqueue_kick q (set_flags m w (work_append q w s)))" if "work_current q s \<noteq> Some w" for m
    using work_inv_append [OF i that] by (subst work_inv_same [of _ "work_append q w s"]) simp_all
  with i show ?thesis by (simp add: workqueue_submit_work_def)
qed

lemma work_inv_critical: "work_inv s \<Longrightarrow> work_inv (fst (rt_workqueue_critical_work q w s))"
proof -
  assume i: "work_inv s"
  have "work_inv (workqueue_kick q (work_append q w s))" if "work_current q s \<noteq> Some w"
    using work_inv_append [OF i that] by (subst work_inv_same [of _ "work_append q w s"]) simp_all
  with i show ?thesis by (simp add: rt_workqueue_critical_work_def)
qed

lemma work_inv_flags [simp]:
  "work_inv (set_flags m w s) = work_inv s" "work_inv (clear_flags m w s) = work_inv s"
  "work_inv (upd_work w f s) = work_inv s" "work_inv (work_leave_queue w s) = work_inv s"
  by (rule work_inv_same, simp add: work_leave_queue_def)+

lemma work_inv_cancel: "work_inv s \<Longrightarrow> work_inv (fst (workqueue_cancel_work q w s))"
  by (simp add: workqueue_cancel_work_def work_inv_unlink)

lemma get_wkq_timer [simp]:
  "get_wkq q (fst (rt_timer_stop r s)) = get_wkq q s" "get_wkq q (fst (rt_timer_detach r s)) = get_wkq q s"
  "get_wkq q (fst (rt_timer_start r s)) = get_wkq q s" "get_wkq q (rt_timer_init r nm f k fl s) = get_wkq q s"
  by (rule wkqs.get_iview, simp)+

lemma work_inv_cancel_delayed: "work_inv s \<Longrightarrow> work_inv (fst (workqueue_cancel_delayed_work w s))"
proof -
  assume i: "work_inv s"
  have "work_inv (clear_flags m w (fst (rt_timer_detach r (fst (rt_timer_stop r s)))))" for m r
    using i by (subst work_inv_same [of _ s]) simp_all
  with i show ?thesis
    using work_inv_cancel [OF i, of _ w]
    by (auto simp: workqueue_cancel_delayed_work_def Let_def split: option.split prod.split)
      (metis fst_conv)+
qed

lemma work_inv_submit_delayed:
  "work_inv s \<Longrightarrow> work_inv (fst (workqueue_submit_delayed_work nm hdl q w ticks s))"
proof -
  assume i: "work_inv s"
  have t: "work_inv (fst (rt_timer_start r (rt_timer_init r nm f k fl s')))" if "work_inv s'" for r f k fl s'
    using that by (subst work_inv_same [of _ s']) simp_all
  have c: "work_inv s1" if "workqueue_cancel_delayed_work w s = (s1, ret)" for s1 ret
    using work_inv_cancel_delayed [OF i, of w] that by simp
  show ?thesis
    using i by (auto simp: workqueue_submit_delayed_work_def Let_def intro!: t work_inv_submit
        dest: c split: prod.split)
qed

lemma work_inv_take: "work_inv s \<Longrightarrow> work_inv (fst (workqueue_take q s))"
proof (cases "work_list q s")
  case Nil
  assume "work_inv s"
  then show ?thesis using Nil by (simp add: workqueue_take_def) (subst work_inv_same [of _ s]; simp)
next
  case (Cons w ws)
  assume i: "work_inv s"
  have "work_inv (upd_wkq q (\<lambda>k. k\<lparr>wkq_work_current := Some w\<rparr>) (work_unlink w s))"
    unfolding work_inv_def
  proof (intro conjI allI impI)
    fix p p' v
    let ?s = "upd_wkq q (\<lambda>k. k\<lparr>wkq_work_current := Some w\<rparr>) (work_unlink w s)"
    have l: "work_list p ?s = remove1 w (work_list p s)" for p by (cases "p = q") simp_all
    show "distinct (work_list p ?s)" using i by (simp add: l work_inv_def)
    show "p = p'" if "v \<in> set (work_list p ?s)" "v \<in> set (work_list p' ?s)"
      using i that unfolding l work_inv_def by (blast dest: notin_set_remove1)
    show "v \<notin> set (work_list p ?s)" if "work_current p ?s = Some v"
      using i that unfolding l work_inv_def by (cases "p = q") (auto dest: notin_set_remove1)
  qed
  then show ?thesis using Cons by (simp add: workqueue_take_def Let_def)
qed

lemma work_inv_cancel_all: "work_inv s \<Longrightarrow> work_inv (fst (rt_workqueue_cancel_all_work q s))"
proof -
  assume i: "work_inv s"
  have f: "work_inv (fold work_unlink ws s')" if "work_inv s'" for ws s'
    using that by (induction ws arbitrary: s') (simp_all add: work_inv_unlink)
  have c: "get_wkq p (rt_enter_critical s') = get_wkq p s'" "get_wkq p (rt_exit_critical s') = get_wkq p s'" for p s'
    by (rule wkqs.get_iview, simp)+
  have e: "work_inv (rt_enter_critical s)" by (subst work_inv_same [of _ s]) (use i c in simp_all)
  have x: "work_inv (rt_exit_critical s') = work_inv s'" for s' by (rule work_inv_same) (rule c)
  show ?thesis using f [OF e] by (simp add: rt_workqueue_cancel_all_work_def Let_def x)
qed

section \<open>Order\<close>

definition unlinked_work :: "addr \<Rightarrow> kstate \<Rightarrow> bool" where
  "unlinked_work w s \<longleftrightarrow> (\<forall>q. w \<notin> set (work_list q s))"

lemma submit_appends:
  assumes "\<not> pending w s" "work_current q s \<noteq> Some w" "unlinked_work w s"
  shows "snd (workqueue_submit_work q w s) = RT_EOK"
    "work_list q (fst (workqueue_submit_work q w s)) = work_list q s @ [w]"
    "p \<noteq> q \<Longrightarrow> work_list p (fst (workqueue_submit_work q w s)) = work_list p s"
    "pending w (fst (workqueue_submit_work q w s))"
proof -
  have "pending w (workqueue_kick q s') = pending w s'" for s' by (simp add: pending_def)
  then show "snd (workqueue_submit_work q w s) = RT_EOK"
    "work_list q (fst (workqueue_submit_work q w s)) = work_list q s @ [w]"
    "p \<noteq> q \<Longrightarrow> work_list p (fst (workqueue_submit_work q w s)) = work_list p s"
    "pending w (fst (workqueue_submit_work q w s))"
    using assms by (simp_all add: workqueue_submit_work_def get_wkq_append unlinked_work_def)
qed

lemma take_first:
  assumes "work_list q s = w # ws"
  shows "snd (workqueue_take q s) = Some w" "work_list q (fst (workqueue_take q s)) = ws"
    "work_current q (fst (workqueue_take q s)) = Some w" "\<not> pending w (fst (workqueue_take q s))"
proof -
  let ?s = "clear_flags RT_WORK_STATE_PENDING w (upd_wkq q (\<lambda>k. k\<lparr>wkq_work_current := Some w\<rparr>) (work_unlink w s))"
  have e: "workqueue_take q s = (upd_work w (\<lambda>k. k\<lparr>wk_workqueue := None\<rparr>) ?s, Some w)"
    using assms by (simp add: workqueue_take_def Let_def)
  show "snd (workqueue_take q s) = Some w" "work_list q (fst (workqueue_take q s)) = ws"
    "work_current q (fst (workqueue_take q s)) = Some w"
    unfolding e using assms by simp_all
  have "pending w (upd_work w (\<lambda>k. k\<lparr>wk_workqueue := None\<rparr>) s') = pending w s'" for s' by (simp add: pending_def)
  then show "\<not> pending w (fst (workqueue_take q s))" unfolding e by simp
qed

section \<open>Telling the threads that wait for an item\<close>

lemma trytake_cases:
  "rt_sem_trytake a s = (let s1 = RT_ASSERT (obj_type_ok (ObjSem a) RT_Object_Class_Semaphore s) s in
    if sem_value (get_sem a s) > 0 then (upd_sem a (\<lambda>m. m\<lparr>sem_value := sem_value m - 1\<rparr>) s1, Returns RT_EOK)
    else (s1, Returns (- RT_ETIMEOUT)))"
  by (simp add: rt_sem_trytake_def rt_sem_take_def Let_def)

lemma work_awake_release: "awake t s \<Longrightarrow> awake t (fst (rt_sem_release a s))"
  by (auto simp: rt_sem_release_def Let_def rt_ipc_list_resume_def null_deref_def awake_same [of "upd_sem a f s'" s' for f s']
      awake_same [of "RT_ASSERT b s'" s' for b s'] intro!: awake_schedule awake_resume split: list.split)

lemma completion_loop_runnable:
  "completion_loop n q s = Some (s', r) \<Longrightarrow> awake t s \<Longrightarrow> awake t s'"
proof (induction n arbitrary: s)
  case (Suc n)
  have k: "awake t (RT_ASSERT b s')" "awake t (upd_sem a f s')" if "awake t s'" for b a f s'
    using that by (simp_all add: awake_def)
  show ?case
    using Suc.prems Suc.IH [OF _ work_awake_release [OF k(1) [OF Suc.prems(2)]]]
    by (auto simp: trytake_cases Let_def k rt_err_defs split: if_splits)
qed simp

lemma release_waiting:
  assumes "sched_inv s" "tq s (SemQ a) = w # ws"
  shows "tq (fst (rt_sem_release a s)) (SemQ a) = ws" "get_sem a (fst (rt_sem_release a s)) = get_sem a s"
    "awake w (fst (rt_sem_release a s))"
  using sem_release_refines [OF assms(1), of a] sem_release_wakes(1) [OF assms] assms(2)
  by (simp_all add: sem_abs_def awake_def rt_sem_release_def Let_def)

lemma completion_loop_ends:
  assumes "sched_inv s" "sem_value (get_sem (wkq_sem q) s) = 0" "length (tq s (SemQ (wkq_sem q))) + 2 \<le> n"
  shows "\<exists>s'. completion_loop n q s = Some (s', RT_EOK) \<and> tq s' (SemQ (wkq_sem q)) = [] \<and>
    sem_value (get_sem (wkq_sem q) s') = 0 \<and> sched_inv s' \<and>
    (\<forall>t \<in> set (tq s (SemQ (wkq_sem q))). awake t s')"
  using assms
proof (induction "tq s (SemQ (wkq_sem q))" arbitrary: s n)
  case Nil
  obtain m where n: "n = Suc (Suc m)" using Nil.prems(3) by (metis add_2_eq_Suc' le_Suc_ex add_Suc)
  show ?case
    using Nil by (simp add: n trytake_cases Let_def rt_sem_release_def rt_err_defs)
next
  case (Cons w ws)
  obtain m where n: "n = Suc m" "length ws + 2 \<le> m" using Cons.prems(3) Cons.hyps(2) [symmetric] by (cases n) auto
  let ?a = "wkq_sem q"
  let ?s1 = "RT_ASSERT (obj_type_ok (ObjSem ?a) RT_Object_Class_Semaphore s) s"
  let ?s2 = "fst (rt_sem_release ?a ?s1)"
  have i1: "sched_inv ?s1" and q1: "tq ?s1 (SemQ ?a) = w # ws" using Cons.prems(1) Cons.hyps(2) by simp_all
  note r = release_waiting [OF i1 q1]
  have st: "completion_loop n q s = completion_loop m q ?s2"
    using Cons.prems(2) by (simp add: n(1) trytake_cases Let_def)
  have "\<exists>s'. completion_loop m q ?s2 = Some (s', RT_EOK) \<and> tq s' (SemQ ?a) = [] \<and>
    sem_value (get_sem ?a s') = 0 \<and> sched_inv s' \<and> (\<forall>t \<in> set (tq ?s2 (SemQ ?a)). awake t s')"
    by (rule Cons.hyps(1)) (use r Cons.prems(2) n(2) rt_sem_release_inv [OF i1] in simp_all)
  then show ?case
    using completion_loop_runnable [OF _ r(3)] r(1) Cons.hyps(2) [symmetric] st by fastforce
qed

section \<open>Lost work\<close>

text \<open>
  The thread of the queue tests its list and suspends itself without masking interrupts. Work
  submitted from an interrupt between the two does not wake it, because it still runs, and stays
  in the list while the thread sleeps.
\<close>

lemma submit_before_sleep:
  assumes inv: "sched_inv s" and w: "\<not> pending w s" "unlinked_work w s"
    and q: "work_list q s = []" "work_current q s = None" "wkq_work_thread (get_wkq q s) = t"
    and s1: "s1 = fst (workqueue_submit_work q w s)"
    and run: "rt_current_thread s1 = Some t" "tstat (thr s1 t) = RT_THREAD_RUNNING"
  shows "work_list q (workqueue_sleep s1) = [w]" "work_current q (workqueue_sleep s1) = None"
    "tstat (thr (workqueue_sleep s1) t) = RT_THREAD_SUSPEND"
proof -
  have e: "workqueue_sleep s1 = rt_schedule (fst (rt_thread_suspend t s1))"
    using run(1) by (simp add: workqueue_sleep_def rt_thread_self_def)
  have "sched_inv (work_append q w s) = sched_inv s" "sched_inv (set_flags m w s') = sched_inv s'" for m s'
    by (rule sched_inv_sview, simp)+
  then have i1: "sched_inv s1" unfolding s1 workqueue_submit_work_def workqueue_kick_def
    using inv by (simp add: rt_schedule_inv_any rt_thread_resume_inv)
  show "work_list q (workqueue_sleep s1) = [w]"
    unfolding e using submit_appends(2) [of w s q] w q(1,2) by (simp add: s1)
  have "work_current q (fst (workqueue_submit_work q w s)) = None"
    using q(2) by (simp add: workqueue_submit_work_def get_wkq_append)
  then show "work_current q (workqueue_sleep s1) = None" unfolding e by (simp add: s1)
  have st: "tstat (thr s1 t) \<in> {RT_THREAD_READY, RT_THREAD_RUNNING}" using run(2) by simp
  show "tstat (thr (workqueue_sleep s1) t) = RT_THREAD_SUSPEND" unfolding e
    by (rule schedule_keeps_suspended [OF rt_thread_suspend_inv [OF i1]])
      (simp add: rt_thread_suspend_effect [OF st])
qed

text \<open>
  Cancelling all work empties the list and leaves the items marked as pending: none of them can
  be submitted again.
\<close>

lemma cancel_all_effect:
  "work_list q (fst (rt_workqueue_cancel_all_work q s)) = []"
  "get_work w (fst (rt_workqueue_cancel_all_work q s)) = get_work w s"
proof -
  have f: "get_wkq p (fold work_unlink ws s') =
      (get_wkq p s')\<lparr>wkq_work_list := fold remove1 ws (work_list p s')\<rparr>" for p ws s'
    by (induction ws arbitrary: s') simp_all
  have g: "get_work w (fold work_unlink ws s') = get_work w s'" for ws s'
    by (induction ws arbitrary: s') simp_all
  have r: "fold remove1 xs xs = []" for xs :: "addr list" by (induction xs) simp_all
  have c: "get_wkq p (rt_enter_critical s') = get_wkq p s'" "get_wkq p (rt_exit_critical s') = get_wkq p s'"
    "get_work w (rt_enter_critical s') = get_work w s'" "get_work w (rt_exit_critical s') = get_work w s'" for p s'
    by (rule wkqs.get_iview wks.get_iview, simp)+
  show "work_list q (fst (rt_workqueue_cancel_all_work q s)) = []"
    "get_work w (fst (rt_workqueue_cancel_all_work q s)) = get_work w s"
    by (simp_all add: rt_workqueue_cancel_all_work_def Let_def f g c r)
qed

lemma cancel_all_blocks_resubmission:
  assumes "pending w s"
  shows "snd (workqueue_submit_work q w (fst (rt_workqueue_cancel_all_work q s))) = - RT_EBUSY"
  using assms by (simp add: workqueue_submit_work_def pending_def cancel_all_effect)

lemma cancel_then_submit:
  assumes "work_inv s" "work_current q s \<noteq> Some w" "w \<in> set (work_list q s)"
  shows "snd (workqueue_cancel_work q w s) = RT_EOK" "unlinked_work w (fst (workqueue_cancel_work q w s))"
    "snd (workqueue_submit_work q w (fst (workqueue_cancel_work q w s))) = RT_EOK"
proof -
  have d: "distinct (work_list p s)" "p \<noteq> q \<Longrightarrow> w \<notin> set (work_list p s)" for p
    using assms(1,3) unfolding work_inv_def by blast+
  show "snd (workqueue_cancel_work q w s) = RT_EOK" using assms(2) by (simp add: workqueue_cancel_work_def)
  show "unlinked_work w (fst (workqueue_cancel_work q w s))"
    using assms(2) d by (auto simp: unlinked_work_def workqueue_cancel_work_def set_remove1_distinct)
  show "snd (workqueue_submit_work q w (fst (workqueue_cancel_work q w s))) = RT_EOK"
    using assms(2) by (simp add: workqueue_cancel_work_def workqueue_submit_work_def)
qed

text \<open>A critical item goes to the end of the list, like any other.\<close>

lemma critical_work_appends:
  assumes "work_current q s \<noteq> Some w" "w \<notin> set (work_list q s)"
  shows "work_list q (fst (rt_workqueue_critical_work q w s)) = work_list q s @ [w]"
  using assms by (simp add: rt_workqueue_critical_work_def get_wkq_append)

end
