(* ===== verification/Device.thy ===== *)
theory Device
  imports Mempool
begin

text \<open>
  The device layer (\<^verbatim>\<open>rt-thread/src/device.c\<close>): devices are kernel objects found by name, opened
  and closed with a reference count, and read, written and controlled through the function
  pointers of their driver. The drivers are a parameter \<open>drv\<close> that runs the function behind a
  pointer. The results: a registered device is found under its name, the calls refine a
  reference-counted resource whose driver is asked to close once per last close, a standalone
  device is never opened twice, a device that is not open is not read or written, and
  \<open>rt_device_destroy\<close> fails an assertion on every device.
\<close>

section \<open>Operations\<close>

definition RT_DEVICE_FLAG_STANDALONE :: rt_uint16_t where "RT_DEVICE_FLAG_STANDALONE = 0x008"
definition RT_DEVICE_FLAG_ACTIVATED :: rt_uint16_t where "RT_DEVICE_FLAG_ACTIVATED = 0x010"
definition RT_DEVICE_OFLAG_CLOSE :: rt_uint16_t where "RT_DEVICE_OFLAG_CLOSE = 0x000"
definition RT_DEVICE_OFLAG_OPEN :: rt_uint16_t where "RT_DEVICE_OFLAG_OPEN = 0x008"
definition RT_DEVICE_OFLAG_MASK :: rt_uint16_t where "RT_DEVICE_OFLAG_MASK = 0xf0f"

lemmas [rt_flag_defs] = RT_DEVICE_FLAG_STANDALONE_def RT_DEVICE_FLAG_ACTIVATED_def
  RT_DEVICE_OFLAG_CLOSE_def RT_DEVICE_OFLAG_OPEN_def RT_DEVICE_OFLAG_MASK_def

text \<open>The driver functions: each takes the function pointer and the device first.\<close>

record drivers =
  drv_init :: "addr \<Rightarrow> addr \<Rightarrow> kstate \<Rightarrow> kstate \<times> rt_err_t"
  drv_open :: "addr \<Rightarrow> addr \<Rightarrow> rt_uint16_t \<Rightarrow> kstate \<Rightarrow> kstate \<times> rt_err_t"
  drv_close :: "addr \<Rightarrow> addr \<Rightarrow> kstate \<Rightarrow> kstate \<times> rt_err_t"
  drv_read :: "addr \<Rightarrow> addr \<Rightarrow> rt_int32_t \<Rightarrow> addr \<Rightarrow> rt_size_t \<Rightarrow> kstate \<Rightarrow> kstate \<times> rt_size_t"
  drv_write :: "addr \<Rightarrow> addr \<Rightarrow> rt_int32_t \<Rightarrow> addr \<Rightarrow> rt_size_t \<Rightarrow> kstate \<Rightarrow> kstate \<times> rt_size_t"
  drv_control :: "addr \<Rightarrow> addr \<Rightarrow> int \<Rightarrow> addr \<Rightarrow> kstate \<Rightarrow> kstate \<times> rt_err_t"

definition get_dev :: "addr \<Rightarrow> kstate \<Rightarrow> rt_device" where
  "get_dev a s = devices s a"

definition upd_dev :: "addr \<Rightarrow> (rt_device \<Rightarrow> rt_device) \<Rightarrow> kstate \<Rightarrow> kstate" where
  "upd_dev a f s = s\<lparr>devices := (devices s)(a := f (devices s a))\<rparr>"

definition dev_assert :: "addr \<Rightarrow> kstate \<Rightarrow> kstate" where
  "dev_assert a s = RT_ASSERT (obj_type_ok (ObjDevice a) RT_Object_Class_Device s) s"

definition rt_device_find :: "cstr \<Rightarrow> kstate \<Rightarrow> kstate \<times> obj_ref option" where
  "rt_device_find name s =
    (let s1 = (if rt_thread_self s \<noteq> None then rt_enter_critical s else s);
         s2 = RT_ASSERT (rt_object_get_information RT_Object_Class_Device \<noteq> None) s1;
         found = find (\<lambda>r. rt_strncmp (obj_cname r s2) name RT_NAME_MAX = 0)
                   (object_list s2 RT_Object_Class_Device)
     in (if rt_thread_self s2 \<noteq> None then rt_exit_critical s2 else s2, found))"

definition rt_device_register :: "addr option \<Rightarrow> cstr \<Rightarrow> rt_uint16_t \<Rightarrow> kstate \<Rightarrow> kstate \<times> rt_err_t" where
  "rt_device_register dev name flags s =
    (case dev of
       None \<Rightarrow> (s, - RT_ERROR)
     | Some a \<Rightarrow>
         (case rt_device_find name s of
            (s1, Some _) \<Rightarrow> (s1, - RT_ERROR)
          | (s1, None) \<Rightarrow>
              (upd_dev a (\<lambda>d. d\<lparr>dev_flag := flags, dev_ref_count := 0, dev_open_flag := 0\<rparr>)
                 (rt_object_init (ObjDevice a) RT_Object_Class_Device name s1), RT_EOK)))"

definition rt_device_unregister :: "addr \<Rightarrow> kstate \<Rightarrow> kstate \<times> rt_err_t" where
  "rt_device_unregister a s =
    (let s1 = dev_assert a s;
         s2 = RT_ASSERT (rt_object_is_systemobject (ObjDevice a) s1) s1
     in (rt_object_detach (ObjDevice a) s2, RT_EOK))"

definition rt_device_init_all :: rt_err_t where
  "rt_device_init_all = RT_EOK"

text \<open>
  A new device is zeroed, its object header included. \<^verbatim>\<open>sizeof(struct rt_device)\<close> is the size the
  object container has for the class.
\<close>

definition rt_device_create :: "int \<Rightarrow> rt_size_t \<Rightarrow> kstate \<Rightarrow> kstate \<times> addr option" where
  "rt_device_create type attach_size s =
    (let sz = RT_ALIGN (word_of_nat (object_size s RT_Object_Class_Device)) RT_ALIGN_SIZE
                + RT_ALIGN attach_size RT_ALIGN_SIZE
     in case kernel_malloc (unat sz) s of
          (s1, None) \<Rightarrow> (s1, None)
        | (s1, Some a) \<Rightarrow>
            (upd_dev a (\<lambda>_. zero_device\<lparr>dev_type := type\<rparr>)
               (upd_obj (ObjDevice a)
                  (\<lambda>_. \<lparr>obj_name = replicate RT_NAME_MAX 0, obj_type = 0, obj_flag = 0\<rparr>) s1), Some a))"

definition rt_device_destroy :: "addr \<Rightarrow> kstate \<Rightarrow> kstate" where
  "rt_device_destroy a s =
    (let s1 = dev_assert a s;
         s2 = RT_ASSERT (\<not> rt_object_is_systemobject (ObjDevice a) s1) s1
     in kernel_free (Some a) (rt_object_detach (ObjDevice a) s2))"

definition dev_activated :: "rt_device \<Rightarrow> bool" where
  "dev_activated d \<longleftrightarrow> dev_flag d AND RT_DEVICE_FLAG_ACTIVATED \<noteq> 0"

definition set_activated :: "addr \<Rightarrow> kstate \<Rightarrow> kstate" where
  "set_activated a s = upd_dev a (\<lambda>d. d\<lparr>dev_flag := dev_flag d OR RT_DEVICE_FLAG_ACTIVATED\<rparr>) s"

definition rt_device_init :: "drivers \<Rightarrow> addr \<Rightarrow> kstate \<Rightarrow> kstate \<times> rt_err_t" where
  "rt_device_init drv a s =
    (case dev_init (get_dev a s) of
       None \<Rightarrow> (s, RT_EOK)
     | Some f \<Rightarrow>
         if dev_activated (get_dev a s) then (s, RT_EOK)
         else
           (case drv_init drv f a s of
              (s1, result) \<Rightarrow> if result \<noteq> RT_EOK then (s1, result) else (set_activated a s1, result)))"

text \<open>The first part of an open: a device that is not yet active is initialised.\<close>

definition device_activate :: "drivers \<Rightarrow> addr \<Rightarrow> kstate \<Rightarrow> kstate \<times> rt_err_t" where
  "device_activate drv a s =
    (if dev_activated (get_dev a s) then (s, RT_EOK)
     else
       (case dev_init (get_dev a s) of
          None \<Rightarrow> (set_activated a s, RT_EOK)
        | Some f \<Rightarrow>
            (case drv_init drv f a s of
               (s1, result) \<Rightarrow> if result \<noteq> RT_EOK then (s1, result) else (set_activated a s1, RT_EOK))))"

definition rt_device_open :: "drivers \<Rightarrow> addr \<Rightarrow> rt_uint16_t \<Rightarrow> kstate \<Rightarrow> kstate \<times> rt_err_t" where
  "rt_device_open drv a oflag s =
    (case device_activate drv a (dev_assert a s) of
       (s1, r) \<Rightarrow>
         if r \<noteq> RT_EOK then (s1, r)
         else if dev_flag (get_dev a s1) AND RT_DEVICE_FLAG_STANDALONE \<noteq> 0 \<and>
           dev_open_flag (get_dev a s1) AND RT_DEVICE_OFLAG_OPEN \<noteq> 0 then (s1, - RT_EBUSY)
         else
           let (s2, result) =
             (case dev_open (get_dev a s1) of
                Some f \<Rightarrow> drv_open drv f a oflag s1
              | None \<Rightarrow> (upd_dev a (\<lambda>d. d\<lparr>dev_open_flag := oflag AND RT_DEVICE_OFLAG_MASK\<rparr>) s1, RT_EOK))
           in if result = RT_EOK \<or> result = - RT_ENOSYS then
                let s3 = upd_dev a (\<lambda>d. d\<lparr>dev_open_flag := dev_open_flag d OR RT_DEVICE_OFLAG_OPEN,
                                         dev_ref_count := dev_ref_count d + 1\<rparr>) s2
                in (RT_ASSERT (dev_ref_count (get_dev a s3) \<noteq> 0) s3, result)
              else (s2, result))"

definition rt_device_close :: "drivers \<Rightarrow> addr \<Rightarrow> kstate \<Rightarrow> kstate \<times> rt_err_t" where
  "rt_device_close drv a s =
    (let s1 = dev_assert a s in
     if dev_ref_count (get_dev a s1) = 0 then (s1, - RT_ERROR)
     else
       let s2 = upd_dev a (\<lambda>d. d\<lparr>dev_ref_count := dev_ref_count d - 1\<rparr>) s1 in
       if dev_ref_count (get_dev a s2) \<noteq> 0 then (s2, RT_EOK)
       else
         let (s3, result) = (case dev_close (get_dev a s2) of
               Some f \<Rightarrow> drv_close drv f a s2
             | None \<Rightarrow> (s2, RT_EOK))
         in if result = RT_EOK \<or> result = - RT_ENOSYS
            then (upd_dev a (\<lambda>d. d\<lparr>dev_open_flag := RT_DEVICE_OFLAG_CLOSE\<rparr>) s3, result)
            else (s3, result))"

definition rt_device_read ::
    "drivers \<Rightarrow> addr \<Rightarrow> rt_int32_t \<Rightarrow> addr \<Rightarrow> rt_size_t \<Rightarrow> kstate \<Rightarrow> kstate \<times> rt_size_t" where
  "rt_device_read drv a pos buffer sz s =
    (let s1 = dev_assert a s in
     if dev_ref_count (get_dev a s1) = 0 then (rt_set_errno (- RT_ERROR) s1, 0)
     else case dev_read (get_dev a s1) of
         Some f \<Rightarrow> drv_read drv f a pos buffer sz s1
       | None \<Rightarrow> (rt_set_errno (- RT_ENOSYS) s1, 0))"

definition rt_device_write ::
    "drivers \<Rightarrow> addr \<Rightarrow> rt_int32_t \<Rightarrow> addr \<Rightarrow> rt_size_t \<Rightarrow> kstate \<Rightarrow> kstate \<times> rt_size_t" where
  "rt_device_write drv a pos buffer sz s =
    (let s1 = dev_assert a s in
     if dev_ref_count (get_dev a s1) = 0 then (rt_set_errno (- RT_ERROR) s1, 0)
     else case dev_write (get_dev a s1) of
         Some f \<Rightarrow> drv_write drv f a pos buffer sz s1
       | None \<Rightarrow> (rt_set_errno (- RT_ENOSYS) s1, 0))"

definition rt_device_control :: "drivers \<Rightarrow> addr \<Rightarrow> int \<Rightarrow> addr \<Rightarrow> kstate \<Rightarrow> kstate \<times> rt_err_t" where
  "rt_device_control drv a cmd arg s =
    (let s1 = dev_assert a s in
     case dev_control (get_dev a s1) of
       Some f \<Rightarrow> drv_control drv f a cmd arg s1
     | None \<Rightarrow> (s1, - RT_ENOSYS))"

definition rt_device_set_rx_indicate :: "addr \<Rightarrow> addr option \<Rightarrow> kstate \<Rightarrow> kstate \<times> rt_err_t" where
  "rt_device_set_rx_indicate a rx_ind s =
    (upd_dev a (\<lambda>d. d\<lparr>dev_rx_indicate := rx_ind\<rparr>) (dev_assert a s), RT_EOK)"

definition rt_device_set_tx_complete :: "addr \<Rightarrow> addr option \<Rightarrow> kstate \<Rightarrow> kstate \<times> rt_err_t" where
  "rt_device_set_tx_complete a tx_done s =
    (upd_dev a (\<lambda>d. d\<lparr>dev_tx_complete := tx_done\<rparr>) (dev_assert a s), RT_EOK)"

section \<open>The store of devices\<close>

interpretation dev: object_store get_dev upd_dev
proof
  show "get_dev a s' = get_dev a s" if "iview s' = iview s" for s' s a
    using iviewD(14) [OF that] by (simp add: get_dev_def)
qed (simp_all add: get_dev_def upd_dev_def sview_def)

lemmas dev_store [simp] = dev.get_kernel dev.get_upd dev.get_upd_other dev.upd_inv dev.upd_fields

lemma get_dev_assert [simp]: "get_dev b (dev_assert a s) = get_dev b s"
  by (simp add: dev_assert_def)

lemma set_activated_simps [simp]:
  "get_dev a (set_activated a s) = (get_dev a s)\<lparr>dev_flag := dev_flag (get_dev a s) OR RT_DEVICE_FLAG_ACTIVATED\<rparr>"
  by (simp add: set_activated_def)

section \<open>Names\<close>

lemma rt_device_find_result:
  "snd (rt_device_find name s) =
    find (\<lambda>r. names_agree (obj_cname r s) name RT_NAME_MAX) (object_list s RT_Object_Class_Device)"
  by (simp add: rt_device_find_def Let_def rt_strncmp_0_iff obj_cname_def RT_ASSERT_def)

lemma device_find_objects [simp]:
  "objs (fst (rt_device_find name s)) = objs s" "object_list (fst (rt_device_find name s)) = object_list s"
  by (simp_all add: rt_device_find_def Let_def RT_ASSERT_def)

lemma objects_upd_dev [simp]:
  "objs (upd_dev a f s) = objs s" "object_list (upd_dev a f s) = object_list s"
  by (simp_all add: upd_dev_def)

lemma find_hd: "P x \<Longrightarrow> find P (x # xs) = Some x"
  by simp

lemma device_register_find:
  assumes "rt_device_register (Some a) name flags s = (s', RT_EOK)"
  shows "snd (rt_device_find name s') = Some (ObjDevice a)"
    "snd (rt_device_register (Some b) name flags' s') = - RT_ERROR"
    "obj_type (objs s' (ObjDevice a)) = RT_Object_Class_Device OR RT_Object_Class_Static"
proof -
  obtain s1 where f: "rt_device_find name s = (s1, None)"
    and s': "s' = upd_dev a (\<lambda>d. d\<lparr>dev_flag := flags, dev_ref_count := 0, dev_open_flag := 0\<rparr>)
                 (rt_object_init (ObjDevice a) RT_Object_Class_Device name s1)"
    using assms by (auto simp: rt_device_register_def rt_err_defs split: prod.splits option.splits)
  have "names_agree (obj_cname (ObjDevice a) s') name RT_NAME_MAX"
    using rt_strncpy_agree [of name RT_NAME_MAX] by (simp add: s' obj_cname_def rt_object_init_objects)
  then show fnd: "snd (rt_device_find name s') = Some (ObjDevice a)"
    by (simp add: rt_device_find_result) (simp add: s' rt_object_init_objects)
  show "snd (rt_device_register (Some b) name flags' s') = - RT_ERROR"
    using fnd by (cases "rt_device_find name s'") (simp add: rt_device_register_def)
  show "obj_type (objs s' (ObjDevice a)) = RT_Object_Class_Device OR RT_Object_Class_Static"
    by (simp add: s' rt_object_init_objects)
qed

lemma device_register_fields:
  assumes "rt_device_register (Some a) name flags s = (s', RT_EOK)"
  shows "dev_flag (get_dev a s') = flags" "dev_ref_count (get_dev a s') = 0" "dev_open_flag (get_dev a s') = 0"
  using assms by (auto simp: rt_device_register_def rt_err_defs split: prod.splits option.splits)

section \<open>Destroying a device\<close>

text \<open>
  \<open>rt_device_destroy\<close> wants a device whose header has the device class without the static bit;
  \<open>rt_device_register\<close> always sets that bit, and before it and after \<open>rt_device_unregister\<close> the class is 0.
\<close>

lemma kfault_mono [simp]:
  "kfault s \<Longrightarrow> kfault (RT_ASSERT b s)" "kfault s \<Longrightarrow> kfault (kernel_free r s)"
  "kfault (rt_object_detach r' s) = kfault s" "kfault (RT_ASSERT False s)"
  by (simp_all add: RT_ASSERT_def kernel_free_def Let_def rt_object_detach_def object_unlink_def upd_obj_def)

lemma device_destroy_faults:
  assumes "obj_type (objs s (ObjDevice a)) \<in> {0, RT_Object_Class_Device OR RT_Object_Class_Static}"
  shows "kfault (rt_device_destroy a s)"
proof -
  let ?ok = "obj_type_ok (ObjDevice a) RT_Object_Class_Device s"
  have o: "objs (dev_assert a s) = objs s" by (simp add: dev_assert_def)
  have "\<not> ?ok \<or> rt_object_is_systemobject (ObjDevice a) (dev_assert a s)"
    using assms by (auto simp: obj_type_ok_def rt_object_get_type_def rt_object_is_systemobject_def o rt_flag_defs)
  then have "kfault (RT_ASSERT (\<not> rt_object_is_systemobject (ObjDevice a) (dev_assert a s)) (dev_assert a s))"
  proof
    assume "\<not> ?ok"
    then have "kfault (dev_assert a s)" by (simp add: dev_assert_def)
    then show ?thesis by simp
  qed simp
  then show ?thesis by (simp add: rt_device_destroy_def Let_def)
qed

lemma device_created_type:
  assumes "rt_device_create ty k s = (s', Some a)"
  shows "obj_type (objs s' (ObjDevice a)) = 0"
  using assms by (auto simp: rt_device_create_def Let_def upd_obj_def split: prod.splits option.splits)

lemma device_unregistered_type: "obj_type (objs (fst (rt_device_unregister a s)) (ObjDevice a)) = 0"
  by (simp add: rt_device_unregister_def Let_def rt_object_detach_def object_unlink_def upd_obj_def)

section \<open>Opening and closing\<close>

text \<open>
  What the results assume of a driver: its functions leave the reference count and the flags that
  the device layer keeps for the device alone.
\<close>

definition keeps_count :: "addr \<Rightarrow> kstate \<Rightarrow> kstate \<Rightarrow> bool" where
  "keeps_count a s s' \<longleftrightarrow> dev_ref_count (get_dev a s') = dev_ref_count (get_dev a s) \<and>
     dev_flag (get_dev a s') = dev_flag (get_dev a s)"

definition driver_ok :: "drivers \<Rightarrow> addr \<Rightarrow> bool" where
  "driver_ok drv a \<longleftrightarrow>
    (\<forall>f s. keeps_count a s (fst (drv_init drv f a s))) \<and>
    (\<forall>f oflag s. keeps_count a s (fst (drv_open drv f a oflag s))) \<and>
    (\<forall>f s. keeps_count a s (fst (drv_close drv f a s)))"

lemma driver_okD:
  assumes "driver_ok drv a"
  shows "drv_init drv f a s = (s', r) \<Longrightarrow> keeps_count a s s'" "drv_open drv f a o' s = (s', r) \<Longrightarrow> keeps_count a s s'"
    "drv_close drv f a s = (s', r) \<Longrightarrow> keeps_count a s s'"
  using assms unfolding driver_ok_def by (metis fst_conv)+

lemma standalone_flag [simp]:
  "(d OR RT_DEVICE_FLAG_ACTIVATED) AND RT_DEVICE_FLAG_STANDALONE = d AND RT_DEVICE_FLAG_STANDALONE"
proof -
  have "RT_DEVICE_FLAG_ACTIVATED AND RT_DEVICE_FLAG_STANDALONE = 0" by (simp add: rt_flag_defs)
  then show ?thesis by (simp add: bit.conj_disj_distrib2)
qed

lemma device_activate_count:
  assumes "driver_ok drv a" "device_activate drv a s = (s1, r)"
  shows "dev_ref_count (get_dev a s1) = dev_ref_count (get_dev a s)"
    "r = RT_EOK \<Longrightarrow> dev_flag (get_dev a s1) = dev_flag (get_dev a s) OR RT_DEVICE_FLAG_ACTIVATED"
    "dev_flag (get_dev a s1) AND RT_DEVICE_FLAG_STANDALONE = dev_flag (get_dev a s) AND RT_DEVICE_FLAG_STANDALONE"
proof -
  have o: "d OR RT_DEVICE_FLAG_ACTIVATED = d" if "d AND RT_DEVICE_FLAG_ACTIVATED \<noteq> 0" for d :: rt_uint16_t
  proof (rule bit_word_eqI)
    fix n
    have b: "bit RT_DEVICE_FLAG_ACTIVATED k \<longleftrightarrow> k = 4" for k
      using bit_single [where 'a = 16, of 4 k] by (simp add: RT_DEVICE_FLAG_ACTIVATED_def push_bit_eq_mult)
    have "bit d 4" using that by (auto simp: word_nonzero_bit bit_simps b)
    then show "bit (d OR RT_DEVICE_FLAG_ACTIVATED) n = bit d n" by (auto simp: bit_simps b)
  qed
  have k: "keeps_count a s s'" if "drv_init drv f a s = (s', r')" for f s' r'
    by (rule driver_okD(1) [OF assms(1) that])
  show "dev_ref_count (get_dev a s1) = dev_ref_count (get_dev a s)"
    "r = RT_EOK \<Longrightarrow> dev_flag (get_dev a s1) = dev_flag (get_dev a s) OR RT_DEVICE_FLAG_ACTIVATED"
    "dev_flag (get_dev a s1) AND RT_DEVICE_FLAG_STANDALONE = dev_flag (get_dev a s) AND RT_DEVICE_FLAG_STANDALONE"
    using assms(2) by (auto simp: device_activate_def dev_activated_def o keeps_count_def dest!: k
        split: if_splits option.splits prod.splits)
qed

lemma or_and_absorb: "(x OR m) AND m = (m :: 'a::len word)"
  by (rule bit_word_eqI) (auto simp: bit_simps)

lemma count_plus_one: "c + 1 \<noteq> 0 \<Longrightarrow> unat (c + 1) = unat (c :: rt_uint8_t) + 1"
  by (metis unatSuc add.commute Suc_eq_plus1)

text \<open>The step of a successful open.\<close>

lemma device_open_cases:
  assumes ok: "driver_ok drv a" and op: "rt_device_open drv a oflag s = (s', r)"
  obtains (failed) "r \<noteq> RT_EOK" "dev_ref_count (get_dev a s') = dev_ref_count (get_dev a s)"
      "dev_flag (get_dev a s') AND RT_DEVICE_FLAG_STANDALONE = dev_flag (get_dev a s) AND RT_DEVICE_FLAG_STANDALONE"
  | (opened) s3 where "r = RT_EOK \<or> r = - RT_ENOSYS" "s' = RT_ASSERT (dev_ref_count (get_dev a s3) \<noteq> 0) s3"
      "dev_ref_count (get_dev a s3) = dev_ref_count (get_dev a s) + 1"
      "dev_open_flag (get_dev a s3) AND RT_DEVICE_OFLAG_OPEN = RT_DEVICE_OFLAG_OPEN"
      "dev_flag (get_dev a s3) = dev_flag (get_dev a s) OR RT_DEVICE_FLAG_ACTIVATED"
      "dev_flag (get_dev a s) AND RT_DEVICE_FLAG_STANDALONE = 0 \<or> dev_open_flag (get_dev a s) AND RT_DEVICE_OFLAG_OPEN = 0 \<or>
        \<not> dev_activated (get_dev a s)"
proof -
  obtain s1 r1 where act: "device_activate drv a (dev_assert a s) = (s1, r1)" by fastforce
  note c = device_activate_count [OF ok act, simplified]
  let ?open = "case dev_open (get_dev a s1) of Some f \<Rightarrow> drv_open drv f a oflag s1
     | None \<Rightarrow> (upd_dev a (\<lambda>d. d\<lparr>dev_open_flag := oflag AND RT_DEVICE_OFLAG_MASK\<rparr>) s1, RT_EOK)"
  obtain s2 res where d: "?open = (s2, res)" by fastforce
  have k: "keeps_count a s1 s2"
    using d driver_okD(2) [OF ok] by (auto simp: keeps_count_def split: option.splits)
  let ?busy = "dev_flag (get_dev a s1) AND RT_DEVICE_FLAG_STANDALONE \<noteq> 0 \<and>
      dev_open_flag (get_dev a s1) AND RT_DEVICE_OFLAG_OPEN \<noteq> 0"
  have same: "get_dev a s1 = get_dev a s" if "dev_activated (get_dev a s)"
    using act that by (auto simp: device_activate_def)
  consider "r1 \<noteq> RT_EOK" | "r1 = RT_EOK" "?busy" | "r1 = RT_EOK" "\<not> ?busy" "\<not> (res = RT_EOK \<or> res = - RT_ENOSYS)"
    | "r1 = RT_EOK" "\<not> ?busy" "res = RT_EOK \<or> res = - RT_ENOSYS" by blast
  then show thesis
  proof cases
    case 1
    then show thesis using failed op act c(1,3) by (simp add: rt_device_open_def)
  next
    case 2
    then show thesis using failed op act c(1,3) by (auto simp: rt_device_open_def rt_err_defs)
  next
    case 3
    then show thesis using failed op act c(1,3) k unfolding rt_device_open_def
      by (simp add: d split: if_splits) (auto simp: keeps_count_def)
  next
    case 4
    let ?s3 = "upd_dev a (\<lambda>d. d\<lparr>dev_open_flag := dev_open_flag d OR RT_DEVICE_OFLAG_OPEN,
                                         dev_ref_count := dev_ref_count d + 1\<rparr>) s2"
    have e: "rt_device_open drv a oflag s = (RT_ASSERT (dev_ref_count (get_dev a ?s3) \<noteq> 0) ?s3, res)"
      using 4 act unfolding rt_device_open_def by (auto simp: d Let_def)
    show thesis
    proof (rule opened [of ?s3])
      show "dev_flag (get_dev a s) AND RT_DEVICE_FLAG_STANDALONE = 0 \<or> dev_open_flag (get_dev a s) AND RT_DEVICE_OFLAG_OPEN = 0 \<or>
        \<not> dev_activated (get_dev a s)" using 4(2) same by auto
    qed (use 4 e op c k in \<open>simp_all add: keeps_count_def or_and_absorb\<close>)
  qed
qed

lemma device_open_count:
  assumes ok: "driver_ok drv a" and op: "rt_device_open drv a oflag s = (s', RT_EOK)" and nf: "\<not> kfault s'"
  shows "unat (dev_ref_count (get_dev a s')) = unat (dev_ref_count (get_dev a s)) + 1"
proof (cases rule: device_open_cases [OF ok op, case_names failed opened])
  case (opened s3)
  then show ?thesis using nf count_plus_one [of "dev_ref_count (get_dev a s)"] by (auto simp: RT_ASSERT_def split: if_splits)
qed simp

text \<open>Every outcome of a close.\<close>

lemma device_close_cases:
  "rt_device_close drv a s =
    (let s1 = dev_assert a s; n = unat (dev_ref_count (get_dev a s));
         s2 = upd_dev a (\<lambda>d. d\<lparr>dev_ref_count := dev_ref_count d - 1\<rparr>) s1
     in if n = 0 then (s1, - RT_ERROR)
        else if n > 1 then (s2, RT_EOK)
        else let (s3, r) = (case dev_close (get_dev a s) of Some f \<Rightarrow> drv_close drv f a s2 | None \<Rightarrow> (s2, RT_EOK))
             in (if r = RT_EOK \<or> r = - RT_ENOSYS
                 then upd_dev a (\<lambda>d. d\<lparr>dev_open_flag := RT_DEVICE_OFLAG_CLOSE\<rparr>) s3 else s3, r))"
proof -
  have u: "c - 1 \<noteq> 0 \<longleftrightarrow> unat c > 1" if "c \<noteq> 0" for c :: rt_uint8_t
    using unat_dec [OF that] that by (metis One_nat_def diff_is_0_eq not_le unat_eq_zero)
  show ?thesis
    using u [of "dev_ref_count (get_dev a s)"]
    by (auto simp: rt_device_close_def Let_def unat_eq_zero split: option.split prod.split)
qed

lemma device_close_count:
  assumes "driver_ok drv a"
  shows "unat (dev_ref_count (get_dev a (fst (rt_device_close drv a s)))) = unat (dev_ref_count (get_dev a s)) - 1"
proof -
  have k: "keeps_count a s2 s3" if "drv_close drv f a s2 = (s3, r)" for f s2 s3 r
    by (rule driver_okD(3) [OF assms that])
  show ?thesis
  proof (cases "dev_ref_count (get_dev a s) = 0")
    case False
    then show ?thesis
      using unat_dec [OF False]
      by (auto simp: rt_device_close_def Let_def keeps_count_def dest!: k split: option.split prod.split)
  qed (simp add: rt_device_close_def Let_def)
qed

section \<open>Standalone devices\<close>

text \<open>A standalone device has at most one user, and while it has one it is marked open and active.\<close>

definition standalone_ok :: "addr \<Rightarrow> kstate \<Rightarrow> bool" where
  "standalone_ok a s \<longleftrightarrow>
    (dev_flag (get_dev a s) AND RT_DEVICE_FLAG_STANDALONE \<noteq> 0 \<longrightarrow>
      dev_ref_count (get_dev a s) = 0 \<or>
      dev_ref_count (get_dev a s) = 1 \<and> dev_open_flag (get_dev a s) AND RT_DEVICE_OFLAG_OPEN \<noteq> 0 \<and>
        dev_activated (get_dev a s))"

text \<open>While it is open, another open is refused and nothing changes.\<close>

lemma standalone_busy:
  assumes "dev_flag (get_dev a s) AND RT_DEVICE_FLAG_STANDALONE \<noteq> 0"
    "dev_open_flag (get_dev a s) AND RT_DEVICE_OFLAG_OPEN \<noteq> 0" "dev_activated (get_dev a s)"
  shows "rt_device_open drv a oflag s = (dev_assert a s, - RT_EBUSY)"
  using assms by (simp add: rt_device_open_def device_activate_def)

lemma standalone_open:
  assumes ok: "driver_ok drv a" and inv: "standalone_ok a s" and op: "rt_device_open drv a oflag s = (s', r)"
  shows "standalone_ok a s'"
proof (cases rule: device_open_cases [OF ok op, case_names failed opened])
  case failed
  show ?thesis
  proof (cases "dev_flag (get_dev a s) AND RT_DEVICE_FLAG_STANDALONE = 0 \<or> dev_ref_count (get_dev a s) = 0")
    case False
    then have "s' = dev_assert a s"
      using standalone_busy [of a s drv oflag] inv op by (simp add: standalone_ok_def)
    then show ?thesis using inv by (simp add: standalone_ok_def)
  qed (use failed in \<open>auto simp: standalone_ok_def\<close>)
next
  case (opened s3)
  have "dev_ref_count (get_dev a s) = 0" if "dev_flag (get_dev a s) AND RT_DEVICE_FLAG_STANDALONE \<noteq> 0"
    using inv opened(6) that by (auto simp: standalone_ok_def)
  then show ?thesis
    using opened by (auto simp: standalone_ok_def dev_activated_def or_and_absorb) (simp_all add: rt_flag_defs)
qed

lemma standalone_close:
  assumes ok: "driver_ok drv a" and inv: "standalone_ok a s"
  shows "standalone_ok a (fst (rt_device_close drv a s))"
proof -
  have k: "keeps_count a s2 s3" if "drv_close drv f a s2 = (s3, r)" for f s2 s3 r
    by (rule driver_okD(3) [OF ok that])
  show ?thesis
    using inv by (auto simp: rt_device_close_def Let_def standalone_ok_def keeps_count_def dev_activated_def dest!: k
        split: option.split prod.split)
qed

text \<open>
  When the driver fails to close, the count is already 0 and the device stays marked as open: a
  standalone device can then be neither closed nor opened.
\<close>

lemma failed_close_sticks:
  assumes ok: "driver_ok drv a" and f: "dev_close (get_dev a s) = Some f"
    and one: "dev_ref_count (get_dev a s) = 1" "dev_flag (get_dev a s) AND RT_DEVICE_FLAG_STANDALONE \<noteq> 0"
    "dev_activated (get_dev a s)"
    and cl: "drv_close drv f a (upd_dev a (\<lambda>d. d\<lparr>dev_ref_count := 0\<rparr>) (dev_assert a s)) = (s', r)"
    and fail: "r \<noteq> RT_EOK" "r \<noteq> - RT_ENOSYS" and still: "dev_open_flag (get_dev a s') AND RT_DEVICE_OFLAG_OPEN \<noteq> 0"
  shows "rt_device_close drv a s = (s', r)" "snd (rt_device_close drv a s') = - RT_ERROR"
    "snd (rt_device_open drv a oflag s') = - RT_EBUSY"
proof -
  let ?s = "upd_dev a (\<lambda>d. d\<lparr>dev_ref_count := dev_ref_count d - 1\<rparr>) (dev_assert a s)"
  have e: "?s = upd_dev a (\<lambda>d. d\<lparr>dev_ref_count := 0\<rparr>) (dev_assert a s)"
    using one(1) get_dev_assert [of a a s] by (simp add: upd_dev_def get_dev_def)
  show "rt_device_close drv a s = (s', r)"
    using f one(1) cl fail by (simp add: rt_device_close_def Let_def e)
  have k: "keeps_count a (upd_dev a (\<lambda>d. d\<lparr>dev_ref_count := 0\<rparr>) (dev_assert a s)) s'" by (rule driver_okD(3) [OF ok cl])
  show "snd (rt_device_close drv a s') = - RT_ERROR" using k by (simp add: rt_device_close_def keeps_count_def)
  show "snd (rt_device_open drv a oflag s') = - RT_EBUSY"
    using k one(2,3) still by (subst standalone_busy) (simp_all add: keeps_count_def dev_activated_def)
qed

section \<open>Reading and writing\<close>

lemma closed_device_untouched:
  assumes "dev_ref_count (get_dev a s) = 0"
  shows "rt_device_read drv a pos buf sz s = (rt_set_errno (- RT_ERROR) (dev_assert a s), 0)"
    "rt_device_write drv a pos buf sz s = (rt_set_errno (- RT_ERROR) (dev_assert a s), 0)"
  using assms by (simp_all add: rt_device_read_def rt_device_write_def Let_def)

end
