(* ===== verification/System.thy ===== *)
theory System
  imports DataQueue WaitQueue WorkQueue Device
begin

text \<open>
  The kernel together with the device layer: completions, data queues, wait queues, work queues
  and devices are built from the kernel's threads, lists and timers, and keep the invariant of
  \<open>Kernel\<close>. \<open>system_reach\<close> holds of every state reached from reset by kernel calls, calls of the
  device layer, clock ticks and the callbacks of the application, and the kernel invariant holds in all of them.
\<close>

section \<open>Stores\<close>

lemma kernel_inv_dev_objects [kernel_steps]:
  assumes "kernel_inv s"
  shows "kernel_inv (upd_cmp a f1 s)" "kernel_inv (upd_dq a f2 s)" "kernel_inv (upd_wq a f3 s)"
    "kernel_inv (rt_wqueue_remove n s)" "kernel_inv (s\<lparr>wqueue_nodes := g\<rparr>)" "kernel_inv (upd_wkq a f4 s)"
    "kernel_inv (upd_work a f5 s)" "kernel_inv (work_unlink n s)" "kernel_inv (upd_dev a f6 s)"
  by (rule kernel_inv_object [OF assms];
      simp add: upd_cmp_def upd_dq_def upd_wq_def rt_wqueue_remove_def upd_wkq_def upd_work_def work_unlink_def
        upd_dev_def sview_def tmview_def)+

lemma kernel_inv_list_init [kernel_steps]:
  assumes "kernel_inv s" "wait_head h"
  shows "kernel_inv (rt_ipc_object_init h s)"
proof (rule kernel_invI [OF assms(1)])
  show "sched_inv (rt_ipc_object_init h s)" using assms by (simp add: kernel_inv_def rt_ipc_object_init_inv)
  show "timer_inv (rt_ipc_object_init h s)"
    by (rule timer_inv_mono [OF kernel_invD(2) [OF assms(1)]]) (simp_all add: rt_ipc_object_init_def tmview_def)
qed (simp add: rt_ipc_object_init_def iview_def)

section \<open>Completions, data queues and wait queues\<close>

lemma running_context:
  "thread_context s \<Longrightarrow> rt_current_thread s = Some t \<Longrightarrow> tstat (thr s t) = RT_THREAD_RUNNING"
  by (simp add: thread_context_def)

lemma kernel_inv_cmp:
  assumes "kernel_inv s"
  shows "kernel_inv (rt_completion_init a s)" "kernel_inv (rt_completion_done a s)"
    "kernel_inv (fst (completion_wait_resumed a t s))"
    "thread_context s \<Longrightarrow> kernel_inv (fst (rt_completion_wait a time s))"
proof -
  show "kernel_inv (rt_completion_init a s)" "kernel_inv (fst (completion_wait_resumed a t s))"
    using assms by (simp_all add: rt_completion_init_def completion_wait_resumed_def set_cmp_flag_def kernel_steps)
  show "kernel_inv (rt_completion_done a s)"
    using assms by (simp add: rt_completion_done_def set_cmp_flag_def Let_def kernel_steps split: list.split)
  show "thread_context s \<Longrightarrow> kernel_inv (fst (rt_completion_wait a time s))"
    using assms by (auto simp: rt_completion_wait_def set_cmp_flag_def kernel_call_defs kernel_steps
        intro!: kernel_inv_schedule kernel_inv_wait split: option.splits)
qed

definition dq_callback_ok :: "dq_callback \<Rightarrow> bool" where
  "dq_callback_ok dcb \<longleftrightarrow> (\<forall>f a ev s. kernel_inv s \<longrightarrow> kernel_inv (dcb f a ev s))"

lemma kernel_inv_notify [kernel_steps]:
  "dq_callback_ok dcb \<Longrightarrow> kernel_inv s \<Longrightarrow> kernel_inv (dq_notify dcb a ev s)"
  by (simp add: dq_notify_def dq_callback_ok_def split: option.split)

lemma kernel_inv_dq:
  assumes "kernel_inv s" "dq_callback_ok dcb"
  shows "thread_context s \<Longrightarrow> kernel_inv (fst (rt_data_queue_push dcb a x time s))"
    "thread_context s \<Longrightarrow> kernel_inv (fst (rt_data_queue_pop dcb a time s))"
proof -
  show "thread_context s \<Longrightarrow> kernel_inv (fst (rt_data_queue_push dcb a x time s))"
    using assms by (auto simp: rt_data_queue_push_def kernel_call_defs kernel_steps
        intro!: kernel_inv_schedule kernel_inv_wait split: option.splits list.splits)
  show "thread_context s \<Longrightarrow> kernel_inv (fst (rt_data_queue_pop dcb a time s))"
    using assms by (auto simp: rt_data_queue_pop_def kernel_call_defs kernel_steps
        intro!: kernel_inv_schedule kernel_inv_wait kernel_inv_notify split: option.splits list.splits)
qed

lemma kernel_inv_dq_reset: "kernel_inv s \<Longrightarrow> kernel_inv (rt_data_queue_reset a s)"
  by (simp add: rt_data_queue_reset_def Let_def kernel_steps)

definition wake_callback_ok :: "wake_callback \<Rightarrow> bool" where
  "wake_callback_ok wk \<longleftrightarrow> (\<forall>f n key s. kernel_inv s \<longrightarrow> kernel_inv (fst (wk f n key s)))"

lemma kernel_inv_wakeup_loop:
  "wake_callback_ok wk \<Longrightarrow> kernel_inv s \<Longrightarrow> kernel_inv (fst (wakeup_loop wk key ns s))"
proof (induction ns arbitrary: s)
  case (Cons n ns)
  have "kernel_inv (fst (node_wakeup wk n key s))"
    using Cons.prems by (simp add: node_wakeup_def wake_callback_ok_def split: wake_func.split)
  then show ?case using Cons by (cases "node_wakeup wk n key s") (simp add: kernel_steps)
qed simp

lemma kernel_inv_wq:
  assumes "kernel_inv s"
  shows "wake_callback_ok wk \<Longrightarrow> kernel_inv (rt_wqueue_wakeup wk a key s)"
    "thread_context s \<Longrightarrow> kernel_inv (fst (rt_wqueue_wait a n c ms s))"
    "kernel_inv (fst (wqueue_wait_resumed a n s))"
proof -
  show "kernel_inv (rt_wqueue_wakeup wk a key s)" if "wake_callback_ok wk"
    using kernel_inv_wakeup_loop [OF that] assms
    by (simp add: rt_wqueue_wakeup_def Let_def split_beta kernel_steps)
  show "kernel_inv (fst (rt_wqueue_wait a n c ms s))" if ctx: "thread_context s"
  proof -
    have arm: "kernel_inv (thread_arm_timer t k (fst (rt_thread_suspend t s')))"
      if "kernel_inv s'" "tstat (thr s' t) = RT_THREAD_RUNNING" for t k s'
      by (rule kernel_inv_arm) (use that suspend_stat [of s' t] in \<open>simp_all add: kernel_steps\<close>)
    show ?thesis
      using assms ctx by (auto simp: rt_wqueue_wait_def rt_wqueue_add_def wqueue_wait_exit_def kernel_call_defs kernel_steps
          intro!: kernel_inv_schedule arm split: option.splits)
  qed
  show "kernel_inv (fst (wqueue_wait_resumed a n s))"
    using assms by (simp add: wqueue_wait_resumed_def wqueue_wait_exit_def kernel_steps)
qed

section \<open>Work queues\<close>

lemma kernel_inv_app_init:
  assumes "kernel_inv s"
  shows "kernel_inv (rt_timer_init (TimerAt b) nm (App_timeout f p) k fl s)"
proof -
  let ?s = "rt_object_init (ObjTimer (TimerAt b)) RT_Object_Class_Timer nm s"
  have k: "kernel_inv ?s" using assms by (simp add: kernel_steps)
  show ?thesis unfolding rt_timer_init_def timer_init_fields_def
    by (rule kernel_invI [OF k])
      (use k in \<open>auto simp: kernel_inv_def app_timeout timer_invD(1) timer_flag_upd intro!: timer_inv_step [of ?s] split: if_splits\<close>)
qed

lemma kernel_inv_work:
  assumes "kernel_inv s"
  shows "kernel_inv (set_flags m w s)" "kernel_inv (clear_flags m w s)" "kernel_inv (work_append q w s)"
    "kernel_inv (workqueue_kick q s)" "kernel_inv (work_leave_queue w s)"
  using assms by (simp_all add: set_flags_def clear_flags_def work_append_def workqueue_kick_def work_leave_queue_def kernel_steps)

lemma kernel_inv_submit:
  assumes "kernel_inv s"
  shows "kernel_inv (fst (workqueue_submit_work q w s))" "kernel_inv (fst (rt_workqueue_critical_work q w s))"
    "kernel_inv (fst (workqueue_cancel_work q w s))"
  using assms by (simp_all add: workqueue_submit_work_def rt_workqueue_critical_work_def workqueue_cancel_work_def
      kernel_inv_work kernel_steps)

lemma kernel_inv_work_timer:
  "kernel_inv s \<Longrightarrow> kernel_inv (fst (rt_timer_detach (wk_timer w) (fst (rt_timer_stop (wk_timer w) s))))"
  by (simp add: wk_timer_def kernel_inv_app_stop kernel_steps)

lemma kernel_inv_cancel_delayed: "kernel_inv s \<Longrightarrow> kernel_inv (fst (workqueue_cancel_delayed_work w s))"
proof -
  assume k: "kernel_inv s"
  have c: "kernel_inv s1" if "workqueue_cancel_work q w s = (s1, r)" for q s1 r
    using kernel_inv_submit(3) [OF k, of q w] that by simp
  show ?thesis
    using k by (auto simp: workqueue_cancel_delayed_work_def Let_def intro!: kernel_inv_work kernel_inv_work_timer
        dest: c split: option.split prod.split)
qed

lemma kernel_inv_submit_delayed:
  "kernel_inv s \<Longrightarrow> kernel_inv (fst (workqueue_submit_delayed_work nm hdl q w ticks s))"
proof -
  assume k: "kernel_inv s"
  have c: "kernel_inv s1" if "workqueue_cancel_delayed_work w s = (s1, r)" for s1 r
    using kernel_inv_cancel_delayed [OF k, of w] that by simp
  have t: "kernel_inv (fst (rt_timer_start (wk_timer w) (rt_timer_init (wk_timer w) nm (App_timeout hdl w) ticks fl s')))"
    if "kernel_inv s'" for s' fl
    using that by (simp add: wk_timer_def kernel_inv_app_init kernel_inv_app_start)
  show ?thesis
    using k by (auto simp: workqueue_submit_delayed_work_def Let_def kernel_steps intro!: t kernel_inv_submit kernel_inv_work
        dest: c split: prod.split)
qed

lemma kernel_inv_workqueue:
  assumes "kernel_inv s"
  shows "kernel_inv (fst (rt_workqueue_submit_work nm hdl q w time s))" "kernel_inv (fst (rt_workqueue_cancel_work q w s))"
    "kernel_inv (delayed_work_timeout_handler w s)" "kernel_inv (fst (rt_workqueue_cancel_all_work q s))"
    "kernel_inv (workqueue_sleep s)" "kernel_inv (fst (workqueue_take q s))"
    "thread_context s \<Longrightarrow> kernel_inv (fst (rt_workqueue_cancel_work_sync q w s))" "kernel_inv (fst (cancel_sync_resumed w s))"
proof -
  show "kernel_inv (fst (rt_workqueue_submit_work nm hdl q w time s))" "kernel_inv (fst (rt_workqueue_cancel_work q w s))"
    using assms by (simp_all add: rt_workqueue_submit_work_def rt_workqueue_cancel_work_def Let_def kernel_steps
        kernel_inv_submit_delayed kernel_inv_submit kernel_inv_cancel_delayed)
  show "kernel_inv (delayed_work_timeout_handler w s)"
    using assms by (simp add: delayed_work_timeout_handler_def Let_def kernel_steps kernel_inv_submit kernel_inv_work
        kernel_inv_work_timer split: option.split)
  have f: "kernel_inv s' \<Longrightarrow> kernel_inv (fold work_unlink ws s')" for ws s'
    by (induction ws arbitrary: s') (simp_all add: kernel_steps)
  show "kernel_inv (fst (rt_workqueue_cancel_all_work q s))"
    using assms by (simp add: rt_workqueue_cancel_all_work_def Let_def f kernel_steps)
  show "kernel_inv (workqueue_sleep s)" using assms by (simp add: workqueue_sleep_def kernel_steps split: option.split)
  show "kernel_inv (fst (workqueue_take q s))"
    using assms by (simp add: workqueue_take_def Let_def kernel_steps kernel_inv_work split: list.split)
  show "kernel_inv (fst (rt_workqueue_cancel_work_sync q w s))" if "thread_context s"
  proof -
    have "kernel_inv s1" if "rt_sem_take a RT_WAITING_FOREVER s = (s1, r)" for a s1 r
      using kernel_inv_sem(1) [OF assms \<open>thread_context s\<close>, of a RT_WAITING_FOREVER] that by simp
    then show ?thesis
      using assms by (auto simp: rt_workqueue_cancel_work_sync_def kernel_steps kernel_inv_work split: prod.split outcome.split)
  qed
  show "kernel_inv (fst (cancel_sync_resumed w s))" using assms by (simp add: cancel_sync_resumed_def kernel_inv_work)
qed

lemma kernel_inv_completion_loop:
  "kernel_inv s \<Longrightarrow> completion_loop n q s = Some (s', r) \<Longrightarrow> kernel_inv s'"
proof (induction n arbitrary: s)
  case (Suc n)
  have "kernel_inv (RT_ASSERT b s)" for b using Suc.prems(1) by (simp add: kernel_steps)
  then have k: "kernel_inv (fst (rt_sem_release a (RT_ASSERT b s)))" "kernel_inv (upd_sem a f (RT_ASSERT b s))" for a b f
    by (simp_all add: kernel_inv_sem kernel_steps)
  show ?case
    using Suc.prems(2) Suc.IH [OF k(1)] k(2) by (auto simp: trytake_cases Let_def rt_err_defs split: if_splits)
qed simp

lemma kernel_inv_finish: "kernel_inv s \<Longrightarrow> workqueue_finish n q s = Some (s', r) \<Longrightarrow> kernel_inv s'"
  by (auto simp: workqueue_finish_def workqueue_work_completion_def kernel_steps split: option.splits
      dest!: kernel_inv_completion_loop [rotated])

section \<open>Devices\<close>

definition drivers_inv :: "drivers \<Rightarrow> bool" where
  "drivers_inv drv \<longleftrightarrow>
    (\<forall>f a s. kernel_inv s \<longrightarrow> kernel_inv (fst (drv_init drv f a s)) \<and> kernel_inv (fst (drv_close drv f a s)) \<and>
      (\<forall>oflag. kernel_inv (fst (drv_open drv f a oflag s))) \<and>
      (\<forall>pos buf sz. kernel_inv (fst (drv_read drv f a pos buf sz s)) \<and> kernel_inv (fst (drv_write drv f a pos buf sz s))) \<and>
      (\<forall>cmd arg. kernel_inv (fst (drv_control drv f a cmd arg s))))"

lemma kernel_inv_dev_assert [kernel_steps]: "kernel_inv s \<Longrightarrow> kernel_inv (dev_assert a s)"
  by (simp add: dev_assert_def kernel_steps)

lemma kernel_inv_device_names:
  assumes "kernel_inv s"
  shows "kernel_inv (fst (rt_device_find nm s))" "kernel_inv (fst (rt_device_register d nm fl s))"
    "kernel_inv (fst (rt_device_unregister a s))"
proof -
  show f: "kernel_inv (fst (rt_device_find nm s))"
    using assms by (simp add: rt_device_find_def Let_def kernel_steps)
  then show "kernel_inv (fst (rt_device_register d nm fl s))"
    by (cases "rt_device_find nm s") (use assms in \<open>simp add: rt_device_register_def kernel_steps split: option.split\<close>)
  show "kernel_inv (fst (rt_device_unregister a s))" using assms by (simp add: rt_device_unregister_def Let_def kernel_steps)
qed

lemma kernel_inv_device_activate:
  assumes "drivers_inv drv" "kernel_inv s"
  shows "kernel_inv (fst (device_activate drv a s))"
proof -
  have "kernel_inv s1" if "drv_init drv f a s = (s1, r)" for f s1 r
    using assms that unfolding drivers_inv_def by (metis fst_conv)
  then show ?thesis
    using assms(2) by (auto simp: device_activate_def set_activated_def kernel_steps split: option.split prod.split)
qed

lemma kernel_inv_device:
  assumes d: "drivers_inv drv" and k: "kernel_inv s"
  shows "kernel_inv (fst (rt_device_open drv a oflag s))" "kernel_inv (fst (rt_device_close drv a s))"
    "kernel_inv (fst (rt_device_read drv a pos buf sz s))" "kernel_inv (fst (rt_device_write drv a pos buf sz s))"
    "kernel_inv (fst (rt_device_control drv a cmd arg s))"
proof -
  have dd: "kernel_inv (fst (drv_open drv f a oflag s'))" "kernel_inv (fst (drv_close drv f a s'))"
    "kernel_inv (fst (drv_read drv f a pos buf sz s'))" "kernel_inv (fst (drv_write drv f a pos buf sz s'))"
    "kernel_inv (fst (drv_control drv f a cmd arg s'))" if "kernel_inv s'" for s' f
    using d that unfolding drivers_inv_def by blast+
  obtain s1 r1 where act: "device_activate drv a (dev_assert a s) = (s1, r1)" by fastforce
  have k1: "kernel_inv s1"
    using kernel_inv_device_activate [OF d, of "dev_assert a s" a] k act by (simp add: kernel_steps)
  have o: "kernel_inv s2" if "drv_open drv f a oflag s1 = (s2, r)" for f s2 r using dd(1) [OF k1, of f] that by simp
  show "kernel_inv (fst (rt_device_open drv a oflag s))"
    unfolding rt_device_open_def act using k1
    by (auto simp: kernel_steps Let_def dest: o split: option.split prod.split)
  have c: "kernel_inv s3" if "drv_close drv f a s2 = (s3, r)" "kernel_inv s2" for f s2 s3 r using dd(2) [OF that(2), of f] that(1) by simp
  show "kernel_inv (fst (rt_device_close drv a s))"
    using k by (auto simp: rt_device_close_def Let_def kernel_steps intro!: kernel_inv_dev_objects(9) intro: c split: option.split prod.split)
  show "kernel_inv (fst (rt_device_read drv a pos buf sz s))" "kernel_inv (fst (rt_device_write drv a pos buf sz s))"
    "kernel_inv (fst (rt_device_control drv a cmd arg s))"
    using k by (auto simp: rt_device_read_def rt_device_write_def rt_device_control_def Let_def kernel_steps dd split: option.split)
qed

section \<open>Reachable states\<close>

datatype dcall = Cmp_init addr | Cmp_wait addr rt_int32_t | Cmp_wait_again addr tid | Cmp_done addr
  | Dq_push addr rt_data_item rt_int32_t | Dq_push_again addr rt_data_item rt_int32_t tid
  | Dq_pop addr rt_int32_t | Dq_pop_again addr rt_int32_t tid | Dq_reset addr
  | Wq_wait addr addr bool rt_int32_t | Wq_wait_again addr addr | Wq_wakeup addr addr
  | Work_submit cstr addr addr addr rt_tick_t | Work_critical addr addr | Work_cancel addr addr
  | Work_cancel_sync addr addr | Work_cancel_sync_again addr | Work_cancel_all addr | Work_timeout addr
  | Work_sleep | Work_take addr
  | Dev_register "addr option" cstr rt_uint16_t | Dev_unregister addr | Dev_open addr rt_uint16_t | Dev_close addr
  | Dev_read addr rt_int32_t addr rt_size_t | Dev_write addr rt_int32_t addr rt_size_t | Dev_control addr int addr

record app =
  app_timer :: callbacks
  app_notify :: dq_callback
  app_wake :: wake_callback
  app_drivers :: drivers

definition app_ok :: "app \<Rightarrow> bool" where
  "app_ok ap \<longleftrightarrow> callbacks_ok (app_timer ap) \<and> dq_callback_ok (app_notify ap) \<and> wake_callback_ok (app_wake ap) \<and>
     drivers_inv (app_drivers ap)"

fun run_dcall :: "app \<Rightarrow> dcall \<Rightarrow> kstate \<Rightarrow> kstate" where
  "run_dcall ap (Cmp_init a) s = rt_completion_init a s"
| "run_dcall ap (Cmp_wait a time) s = fst (rt_completion_wait a time s)"
| "run_dcall ap (Cmp_wait_again a t) s = fst (completion_wait_resumed a t s)"
| "run_dcall ap (Cmp_done a) s = rt_completion_done a s"
| "run_dcall ap (Dq_push a x time) s = fst (rt_data_queue_push (app_notify ap) a x time s)"
| "run_dcall ap (Dq_push_again a x time t) s = fst (dq_push_resumed (app_notify ap) a x time t s)"
| "run_dcall ap (Dq_pop a time) s = fst (rt_data_queue_pop (app_notify ap) a time s)"
| "run_dcall ap (Dq_pop_again a time t) s = fst (dq_pop_resumed (app_notify ap) a time t s)"
| "run_dcall ap (Dq_reset a) s = rt_data_queue_reset a s"
| "run_dcall ap (Wq_wait a n c ms) s = fst (rt_wqueue_wait a n c ms s)"
| "run_dcall ap (Wq_wait_again a n) s = fst (wqueue_wait_resumed a n s)"
| "run_dcall ap (Wq_wakeup a key) s = rt_wqueue_wakeup (app_wake ap) a key s"
| "run_dcall ap (Work_submit nm hdl q w time) s = fst (rt_workqueue_submit_work nm hdl q w time s)"
| "run_dcall ap (Work_critical q w) s = fst (rt_workqueue_critical_work q w s)"
| "run_dcall ap (Work_cancel q w) s = fst (rt_workqueue_cancel_work q w s)"
| "run_dcall ap (Work_cancel_sync q w) s = fst (rt_workqueue_cancel_work_sync q w s)"
| "run_dcall ap (Work_cancel_sync_again w) s = fst (cancel_sync_resumed w s)"
| "run_dcall ap (Work_cancel_all q) s = fst (rt_workqueue_cancel_all_work q s)"
| "run_dcall ap (Work_timeout w) s = delayed_work_timeout_handler w s"
| "run_dcall ap Work_sleep s = workqueue_sleep s"
| "run_dcall ap (Work_take q) s = fst (workqueue_take q s)"
| "run_dcall ap (Dev_register d nm fl) s = fst (rt_device_register d nm fl s)"
| "run_dcall ap (Dev_unregister a) s = fst (rt_device_unregister a s)"
| "run_dcall ap (Dev_open a oflag) s = fst (rt_device_open (app_drivers ap) a oflag s)"
| "run_dcall ap (Dev_close a) s = fst (rt_device_close (app_drivers ap) a s)"
| "run_dcall ap (Dev_read a pos buf sz) s = fst (rt_device_read (app_drivers ap) a pos buf sz s)"
| "run_dcall ap (Dev_write a pos buf sz) s = fst (rt_device_write (app_drivers ap) a pos buf sz s)"
| "run_dcall ap (Dev_control a cmd arg) s = fst (rt_device_control (app_drivers ap) a cmd arg s)"

text \<open>The calls that may put their caller to sleep are made by the running thread.\<close>

definition may_dcall :: "dcall \<Rightarrow> kstate \<Rightarrow> bool" where
  "may_dcall c s \<longleftrightarrow>
    (case c of
       Cmp_wait _ _ \<Rightarrow> thread_context s | Dq_push _ _ _ \<Rightarrow> thread_context s | Dq_push_again _ _ _ _ \<Rightarrow> thread_context s
     | Dq_pop _ _ \<Rightarrow> thread_context s | Dq_pop_again _ _ _ \<Rightarrow> thread_context s | Wq_wait _ _ _ _ \<Rightarrow> thread_context s
     | Work_cancel_sync _ _ \<Rightarrow> thread_context s | _ \<Rightarrow> True)"

lemma run_dcall_inv: "app_ok ap \<Longrightarrow> kernel_inv s \<Longrightarrow> may_dcall c s \<Longrightarrow> kernel_inv (run_dcall ap c s)"
  by (cases c) (simp_all add: app_ok_def may_dcall_def kernel_inv_cmp kernel_inv_dq kernel_inv_dq_reset kernel_inv_wq kernel_inv_workqueue
      kernel_inv_submit kernel_inv_device_names kernel_inv_device dq_push_resumed_def dq_pop_resumed_def)

inductive system_reach :: "app \<Rightarrow> kstate \<Rightarrow> bool" for ap where
  system_reset: "system_reach ap reset_state"
| system_start: "system_reach ap s \<Longrightarrow> rt_current_thread s = None \<Longrightarrow> system_reach ap (rt_system_scheduler_start s)"
| system_call: "system_reach ap s \<Longrightarrow> may_call c s \<Longrightarrow> system_reach ap (run_call c s)"
| system_dcall: "system_reach ap s \<Longrightarrow> may_dcall d s \<Longrightarrow> system_reach ap (run_dcall ap d s)"
| system_finish: "system_reach ap s \<Longrightarrow> workqueue_finish n q s = Some (s', r) \<Longrightarrow> system_reach ap s'"
| system_tick: "system_reach ap s \<Longrightarrow> rt_tick_increase (app_timer ap) fuel s = Some s' \<Longrightarrow> system_reach ap s'"

lemma system_reach_inv:
  assumes "system_reach ap s" "app_ok ap"
  shows "kernel_inv s"
  using assms(1)
proof induction
  case system_reset
  show ?case by (rule reset_state_kernel_inv)
next
  case (system_start s)
  then show ?case by (simp add: kernel_inv_scheduler_start)
next
  case (system_call s c)
  then show ?case by (simp add: run_call_inv)
next
  case (system_dcall s d)
  then show ?case using run_dcall_inv [OF assms(2)] by blast
next
  case (system_finish s n q s' r)
  then show ?case using kernel_inv_finish by blast
next
  case (system_tick s fuel s')
  have "callbacks_ok (app_timer ap)" using assms(2) by (simp add: app_ok_def)
  then show ?case using system_tick kernel_inv_tick by blast
qed

section \<open>Concrete systems\<close>

text \<open>An application whose callbacks and drivers do nothing, for evaluating the results.\<close>

definition quiet_drivers :: drivers where
  "quiet_drivers = \<lparr>drv_init = (\<lambda>_ _ s. (s, RT_EOK)), drv_open = (\<lambda>_ _ _ s. (s, RT_EOK)), drv_close = (\<lambda>_ _ s. (s, RT_EOK)),
     drv_read = (\<lambda>_ _ _ _ _ s. (s, 0)), drv_write = (\<lambda>_ _ _ _ _ s. (s, 0)), drv_control = (\<lambda>_ _ _ _ s. (s, RT_EOK))\<rparr>"

definition quiet_app :: app where
  "quiet_app = \<lparr>app_timer = (\<lambda>_ _ s. s), app_notify = (\<lambda>_ _ _ s. s), app_wake = (\<lambda>_ _ _ s. (s, 0)),
     app_drivers = quiet_drivers\<rparr>"

lemma quiet_drivers_ok: "driver_ok quiet_drivers a" "drivers_inv quiet_drivers"
  by (simp_all add: driver_ok_def keeps_count_def drivers_inv_def quiet_drivers_def)

lemma quiet_app_ok: "app_ok quiet_app"
  by (simp add: app_ok_def quiet_app_def callbacks_ok_def dq_callback_ok_def wake_callback_ok_def quiet_drivers_ok)

text \<open>A stand-alone device that is open.\<close>

definition busy_device :: kstate where
  "busy_device = upd_dev 64 (\<lambda>d. d\<lparr>dev_flag := RT_DEVICE_FLAG_STANDALONE OR RT_DEVICE_FLAG_ACTIVATED,
     dev_open_flag := RT_DEVICE_OFLAG_OPEN, dev_ref_count := 1\<rparr>) reset_state"

lemma busy_device_simps:
  "dev_flag (get_dev 64 busy_device) = 0x18" "dev_open_flag (get_dev 64 busy_device) = RT_DEVICE_OFLAG_OPEN"
  "dev_ref_count (get_dev 64 busy_device) = 1" "dev_activated (get_dev 64 busy_device)"
  by (simp_all add: busy_device_def dev_activated_def RT_DEVICE_FLAG_STANDALONE_def RT_DEVICE_FLAG_ACTIVATED_def)

text \<open>An empty data queue of four items whose indices stand at \<open>i\<close>.\<close>

definition item :: "addr \<Rightarrow> rt_size_t \<Rightarrow> rt_data_item" where
  "item p n = \<lparr>di_data_ptr = p, di_data_size = n\<rparr>"

definition queue_at :: "rt_uint16_t \<Rightarrow> kstate" where
  "queue_at i = upd_dq 64 (\<lambda>q. q\<lparr>dq_size := 4, dq_get_index := i, dq_put_index := i\<rparr>) reset_state"

lemma queue_at_ok:
  "dq_wf (get_dq 64 (queue_at i))" "dq_size (get_dq 64 (queue_at i)) = 4" "dq_get_index (get_dq 64 (queue_at i)) = i"
  "dq_put_index (get_dq 64 (queue_at i)) = i" "dq_empty (get_dq 64 (queue_at i))" "dq_contents (get_dq 64 (queue_at i)) = []"
  by (simp_all add: queue_at_def dq_wf_def dq_empty_def dq_contents_def circ_def)

end
