(* ===== verification/RingBuffer.thy ===== *)
theory RingBuffer
  imports Fifo Mem
begin

text \<open>
  The byte ring buffer of the device drivers (\<^verbatim>\<open>rt-thread/components/drivers/src/ringbuffer.c\<close>):
  a circular buffer whose read and write indices carry a mirror bit each, so that a full
  buffer and an empty one differ. Indices are 15-bit fields, written here as natural numbers
  with their reduction modulo \<open>2 ^ 15\<close>; the bytes read from \<^verbatim>\<open>ptr\<close> are a list. The results: the buffer
  is a bounded first-in first-out queue for single bytes and for blocks, and where the
  overwriting put keeps the newest bytes and where it loses everything.
\<close>

section \<open>State\<close>

record rt_ringbuffer =
  buffer_ptr :: "rt_uint8_t list"
  read_mirror :: bool
  read_index :: nat
  write_mirror :: bool
  write_index :: nat
  buffer_size :: nat

datatype rt_ringbuffer_state = RT_RINGBUFFER_EMPTY | RT_RINGBUFFER_FULL | RT_RINGBUFFER_HALFFULL

definition idx15 :: "nat \<Rightarrow> nat" where
  "idx15 n = n mod 2 ^ 15"

section \<open>Operations\<close>

definition rt_ringbuffer_status :: "rt_ringbuffer \<Rightarrow> rt_ringbuffer_state" where
  "rt_ringbuffer_status rb =
    (if read_index rb = write_index rb then
       if read_mirror rb = write_mirror rb then RT_RINGBUFFER_EMPTY else RT_RINGBUFFER_FULL
     else RT_RINGBUFFER_HALFFULL)"

definition rt_ringbuffer_init :: "rt_uint8_t list \<Rightarrow> nat \<Rightarrow> rt_ringbuffer" where
  "rt_ringbuffer_init pool sz =
    \<lparr>buffer_ptr = pool, read_mirror = False, read_index = 0, write_mirror = False,
     write_index = 0, buffer_size = align4_down sz\<rparr>"

definition rt_ringbuffer_data_len :: "rt_ringbuffer \<Rightarrow> nat" where
  "rt_ringbuffer_data_len rb =
    (case rt_ringbuffer_status rb of
       RT_RINGBUFFER_EMPTY \<Rightarrow> 0
     | RT_RINGBUFFER_FULL \<Rightarrow> buffer_size rb
     | RT_RINGBUFFER_HALFFULL \<Rightarrow>
         if write_index rb > read_index rb then write_index rb - read_index rb
         else buffer_size rb - (read_index rb - write_index rb))"

definition rt_ringbuffer_space_len :: "rt_ringbuffer \<Rightarrow> nat" where
  "rt_ringbuffer_space_len rb = buffer_size rb - rt_ringbuffer_data_len rb"

definition rt_ringbuffer_put :: "rt_ringbuffer \<Rightarrow> rt_uint8_t list \<Rightarrow> rt_ringbuffer \<times> nat" where
  "rt_ringbuffer_put rb ptr =
    (let sz = rt_ringbuffer_space_len rb in
     if sz = 0 then (rb, 0)
     else
       let len = (if sz < length ptr then sz else length ptr);
           tail = buffer_size rb - write_index rb
       in if tail > len then
            (rb\<lparr>buffer_ptr := memcpy_at (buffer_ptr rb) (write_index rb) (take len ptr),
                write_index := idx15 (write_index rb + len)\<rparr>, len)
          else
            (rb\<lparr>buffer_ptr := memcpy_at (memcpy_at (buffer_ptr rb) (write_index rb) (take tail ptr)) 0
                  (take (len - tail) (drop tail ptr)),
                write_mirror := \<not> write_mirror rb, write_index := idx15 (len - tail)\<rparr>, len))"

definition rt_ringbuffer_put_force :: "rt_ringbuffer \<Rightarrow> rt_uint8_t list \<Rightarrow> rt_ringbuffer \<times> nat" where
  "rt_ringbuffer_put_force rb ptr0 =
    (let space_length = rt_ringbuffer_space_len rb;
         ptr = (if length ptr0 > buffer_size rb then drop (length ptr0 - buffer_size rb) ptr0 else ptr0);
         len = length ptr;
         tail = buffer_size rb - write_index rb
     in if tail > len then
          let rb1 = rb\<lparr>buffer_ptr := memcpy_at (buffer_ptr rb) (write_index rb) ptr,
                       write_index := idx15 (write_index rb + len)\<rparr>
          in (if len > space_length then rb1\<lparr>read_index := write_index rb1\<rparr> else rb1, len)
        else
          let rb1 = rb\<lparr>buffer_ptr := memcpy_at (memcpy_at (buffer_ptr rb) (write_index rb) (take tail ptr)) 0
                         (drop tail ptr),
                       write_mirror := \<not> write_mirror rb, write_index := idx15 (len - tail)\<rparr>
          in (if len > space_length
              then rb1\<lparr>read_mirror := \<not> read_mirror rb1, read_index := write_index rb1\<rparr> else rb1, len))"

definition rt_ringbuffer_get :: "rt_ringbuffer \<Rightarrow> nat \<Rightarrow> rt_ringbuffer \<times> rt_uint8_t list" where
  "rt_ringbuffer_get rb n =
    (let sz = rt_ringbuffer_data_len rb in
     if sz = 0 then (rb, [])
     else
       let len = (if sz < n then sz else n);
           tail = buffer_size rb - read_index rb
       in if tail > len then
            (rb\<lparr>read_index := idx15 (read_index rb + len)\<rparr>, take len (drop (read_index rb) (buffer_ptr rb)))
          else
            (rb\<lparr>read_mirror := \<not> read_mirror rb, read_index := idx15 (len - tail)\<rparr>,
             take tail (drop (read_index rb) (buffer_ptr rb)) @ take (len - tail) (buffer_ptr rb)))"

definition rt_ringbuffer_putchar :: "rt_ringbuffer \<Rightarrow> rt_uint8_t \<Rightarrow> rt_ringbuffer \<times> nat" where
  "rt_ringbuffer_putchar rb ch =
    (if rt_ringbuffer_space_len rb = 0 then (rb, 0)
     else
       let rb1 = rb\<lparr>buffer_ptr := (buffer_ptr rb)[write_index rb := ch]\<rparr> in
       if write_index rb1 = buffer_size rb1 - 1
       then (rb1\<lparr>write_mirror := \<not> write_mirror rb1, write_index := 0\<rparr>, 1)
       else (rb1\<lparr>write_index := idx15 (write_index rb1 + 1)\<rparr>, 1))"

definition rt_ringbuffer_putchar_force :: "rt_ringbuffer \<Rightarrow> rt_uint8_t \<Rightarrow> rt_ringbuffer \<times> nat" where
  "rt_ringbuffer_putchar_force rb ch =
    (let old_state = rt_ringbuffer_status rb;
         rb1 = rb\<lparr>buffer_ptr := (buffer_ptr rb)[write_index rb := ch]\<rparr>
     in if write_index rb1 = buffer_size rb1 - 1 then
          let rb2 = rb1\<lparr>write_mirror := \<not> write_mirror rb1, write_index := 0\<rparr>
          in (if old_state = RT_RINGBUFFER_FULL
              then rb2\<lparr>read_mirror := \<not> read_mirror rb2, read_index := write_index rb2\<rparr> else rb2, 1)
        else
          let rb2 = rb1\<lparr>write_index := idx15 (write_index rb1 + 1)\<rparr>
          in (if old_state = RT_RINGBUFFER_FULL then rb2\<lparr>read_index := write_index rb2\<rparr> else rb2, 1))"

definition rt_ringbuffer_getchar :: "rt_ringbuffer \<Rightarrow> rt_ringbuffer \<times> rt_uint8_t option" where
  "rt_ringbuffer_getchar rb =
    (if rt_ringbuffer_data_len rb = 0 then (rb, None)
     else
       let ch = buffer_ptr rb ! read_index rb in
       if read_index rb = buffer_size rb - 1
       then (rb\<lparr>read_mirror := \<not> read_mirror rb, read_index := 0\<rparr>, Some ch)
       else (rb\<lparr>read_index := idx15 (read_index rb + 1)\<rparr>, Some ch))"

definition rt_ringbuffer_reset :: "rt_ringbuffer \<Rightarrow> rt_ringbuffer" where
  "rt_ringbuffer_reset rb =
    rb\<lparr>read_mirror := False, read_index := 0, write_mirror := False, write_index := 0\<rparr>"

definition rt_ringbuffer_get_size :: "rt_ringbuffer \<Rightarrow> nat" where
  "rt_ringbuffer_get_size rb = buffer_size rb"

section \<open>The buffer as a queue\<close>

definition rb_wf :: "rt_ringbuffer \<Rightarrow> bool" where
  "rb_wf rb \<longleftrightarrow> 0 < buffer_size rb \<and> buffer_size rb < 2 ^ 15 \<and> buffer_size rb \<le> length (buffer_ptr rb) \<and>
    read_index rb < buffer_size rb \<and> write_index rb < buffer_size rb \<and>
    (if read_mirror rb = write_mirror rb then read_index rb \<le> write_index rb
     else write_index rb \<le> read_index rb)"

definition rb_contents :: "rt_ringbuffer \<Rightarrow> rt_uint8_t list" where
  "rb_contents rb = circ (\<lambda>i. buffer_ptr rb ! i) (buffer_size rb) (read_index rb) (rt_ringbuffer_data_len rb)"

lemma rb_len:
  assumes "rb_wf rb"
  shows "rt_ringbuffer_data_len rb =
    (if read_mirror rb = write_mirror rb then write_index rb - read_index rb
     else buffer_size rb - (read_index rb - write_index rb))"
  using assms by (auto simp: rb_wf_def rt_ringbuffer_data_len_def rt_ringbuffer_status_def split: if_splits)

lemma rb_len_le: "rb_wf rb \<Longrightarrow> rt_ringbuffer_data_len rb \<le> buffer_size rb"
  by (subst rb_len) (auto simp: rb_wf_def)

lemma rb_write_index:
  assumes "rb_wf rb"
  shows "write_index rb = (read_index rb + rt_ringbuffer_data_len rb) mod buffer_size rb"
proof -
  have *: "read_index rb + (buffer_size rb - (read_index rb - write_index rb)) = write_index rb + buffer_size rb"
    if "read_mirror rb \<noteq> write_mirror rb"
    using that assms by (auto simp: rb_wf_def)
  show ?thesis using assms * by (auto simp: rb_len rb_wf_def)
qed

text \<open>Conversely, the indices determine the length.\<close>

lemma idx15_less: "n < 2 ^ 15 \<Longrightarrow> idx15 n = n"
  by (simp add: idx15_def)

text \<open>The index arithmetic of a block of \<open>len\<close> bytes written at \<open>w\<close>.\<close>

lemma rb_put_shape:
  assumes wf: "rb_wf rb" and len: "0 < len" "len \<le> rt_ringbuffer_space_len rb"
    and buf: "length buf = length (buffer_ptr rb)"
  defines "rb' \<equiv> (if buffer_size rb - write_index rb > len
      then rb\<lparr>buffer_ptr := buf, write_index := idx15 (write_index rb + len)\<rparr>
      else rb\<lparr>buffer_ptr := buf, write_mirror := \<not> write_mirror rb,
             write_index := idx15 (len - (buffer_size rb - write_index rb))\<rparr>)"
  shows "rb_wf rb'" "rt_ringbuffer_data_len rb' = rt_ringbuffer_data_len rb + len"
    "read_index rb' = read_index rb" "buffer_size rb' = buffer_size rb" "buffer_ptr rb' = buf"
proof -
  have i: "idx15 n = n" if "n < buffer_size rb" for n using that wf by (simp add: rb_wf_def idx15_def)
  have l: "len \<le> buffer_size rb - rt_ringbuffer_data_len rb" using len by (simp add: rt_ringbuffer_space_len_def)
  show r: "read_index rb' = read_index rb" "buffer_size rb' = buffer_size rb" "buffer_ptr rb' = buf"
    by (simp_all add: rb'_def)
  have "rb_wf rb' \<and> rt_ringbuffer_data_len rb' = rt_ringbuffer_data_len rb + len"
  proof (cases "buffer_size rb - write_index rb > len")
    case True
    have w: "idx15 (write_index rb + len) = write_index rb + len" by (rule i) (use True in simp)
    have eq: "rb' = rb\<lparr>buffer_ptr := buf, write_index := write_index rb + len\<rparr>"
      using True by (simp only: rb'_def w if_True)
    have wf': "rb_wf rb'"
      using wf True l len buf unfolding eq rb_wf_def rb_len [OF wf] by (auto split: if_splits)
    show ?thesis
      using wf' wf True l len unfolding rb_len [OF wf] rb_len [OF wf'] by (auto simp: eq rb_wf_def split: if_splits)
  next
    case False
    have m: "read_mirror rb = write_mirror rb"
      using False l len wf unfolding rb_len [OF wf] by (auto simp: rb_wf_def split: if_splits)
    have w: "idx15 (len - (buffer_size rb - write_index rb)) = len - (buffer_size rb - write_index rb)"
      by (rule i) (use l m wf rb_len [OF wf] in \<open>auto simp: rb_wf_def\<close>)
    have eq: "rb' = rb\<lparr>buffer_ptr := buf, write_mirror := \<not> write_mirror rb,
        write_index := len - (buffer_size rb - write_index rb)\<rparr>"
      using False by (simp only: rb'_def w if_False)
    have wf': "rb_wf rb'"
      using wf False l len buf m unfolding eq rb_wf_def rb_len [OF wf] by (auto split: if_splits)
    show ?thesis
      using wf' wf False l len m unfolding rb_len [OF wf] rb_len [OF wf'] by (auto simp: eq rb_wf_def split: if_splits)
  qed
  then show "rb_wf rb'" "rt_ringbuffer_data_len rb' = rt_ringbuffer_data_len rb + len" by simp_all
qed

text \<open>The two copies of a block that may wrap around.\<close>

definition copy_in :: "rt_uint8_t list \<Rightarrow> nat \<Rightarrow> nat \<Rightarrow> rt_uint8_t list \<Rightarrow> rt_uint8_t list" where
  "copy_in buf sz w xs =
    (if sz - w > length xs then memcpy_at buf w xs
     else memcpy_at (memcpy_at buf w (take (sz - w) xs)) 0 (drop (sz - w) xs))"

lemma length_copy_in [simp]:
  "w < sz \<Longrightarrow> length xs \<le> sz \<Longrightarrow> sz \<le> length buf \<Longrightarrow> length (copy_in buf sz w xs) = length buf"
  by (auto simp: copy_in_def)

lemma nth_copy_in:
  assumes "w < sz" "length xs \<le> sz" "sz \<le> length buf" "k < sz"
  shows "copy_in buf sz w xs ! k =
    (if w \<le> k \<and> k < w + length xs then xs ! (k - w)
     else if k + sz < w + length xs then xs ! (k + sz - w) else buf ! k)"
proof (cases "sz - w > length xs")
  case True
  then show ?thesis using assms by (auto simp: copy_in_def nth_memcpy_at)
next
  case False
  then show ?thesis using assms by (auto simp: copy_in_def nth_memcpy_at add.commute)
qed

lemma copy_in_circ:
  assumes "n0 + length xs \<le> sz" "out < sz" "sz \<le> length buf" "0 < sz"
  shows "circ (\<lambda>i. copy_in buf sz ((out + n0) mod sz) xs ! i) sz out (n0 + length xs) =
    circ (\<lambda>i. buf ! i) sz out n0 @ xs"
proof -
  let ?w = "(out + n0) mod sz"
  have w: "?w < sz" using assms(4) by simp
  have wr: "(out + n) mod sz = (if out + n < sz then out + n else out + n - sz)" if "n \<le> sz" for n
    using that assms(2,4) by (auto simp: le_mod_geq mod_less)
  have "copy_in buf sz ?w xs ! ((out + i) mod sz) = buf ! ((out + i) mod sz)" if "i < n0" for i
    using nth_copy_in [OF w _ assms(3), of xs "(out + i) mod sz"] wr [of i] wr [of n0] that assms
    by (auto split: if_splits)
  moreover have "copy_in buf sz ?w xs ! ((out + n0 + j) mod sz) = xs ! j" if "j < length xs" for j
    using nth_copy_in [OF w _ assms(3), of xs "(out + n0 + j) mod sz"] wr [of "n0 + j"] wr [of n0] that assms
    by (auto simp: add.assoc split: if_splits)
  ultimately show ?thesis
    using circ_append [of "length xs" xs n0 "\<lambda>i. copy_in buf sz ?w xs ! i" out sz "\<lambda>i. buf ! i"] by simp
qed

section \<open>Blocks of bytes\<close>

text \<open>A put stores as many bytes as there is room for, behind the bytes already there.\<close>

lemma rt_ringbuffer_put_spec:
  fixes xs :: "rt_uint8_t list"
  assumes wf: "rb_wf rb"
  defines "n \<equiv> min (length xs) (buffer_size rb - length (rb_contents rb))"
  shows "snd (rt_ringbuffer_put rb xs) = n"
    "rb_wf (fst (rt_ringbuffer_put rb xs))"
    "rb_contents (fst (rt_ringbuffer_put rb xs)) = rb_contents rb @ take n xs"
    "buffer_size (fst (rt_ringbuffer_put rb xs)) = buffer_size rb"
proof -
  let ?l = "rt_ringbuffer_data_len rb" and ?r = "rt_ringbuffer_put rb xs"
  have len: "length (rb_contents rb) = ?l" by (simp add: rb_contents_def)
  have b: "write_index rb < buffer_size rb" "read_index rb < buffer_size rb"
    "buffer_size rb \<le> length (buffer_ptr rb)" "0 < buffer_size rb"
    using wf by (auto simp: rb_wf_def)
  have "snd ?r = n \<and> rb_wf (fst ?r) \<and> rb_contents (fst ?r) = rb_contents rb @ take n xs \<and>
    buffer_size (fst ?r) = buffer_size rb"
  proof (cases "n = 0")
    case True
    then consider "rt_ringbuffer_space_len rb = 0" | "xs = []" "rt_ringbuffer_space_len rb \<noteq> 0"
      by (auto simp: n_def len rt_ringbuffer_space_len_def min_def split: if_splits)
    then show ?thesis
    proof cases
      case 1
      then show ?thesis using wf True by (simp add: rt_ringbuffer_put_def)
    next
      case 2
      have "rb\<lparr>buffer_ptr := buffer_ptr rb, write_index := write_index rb\<rparr> = rb" by simp
      then show ?thesis
        using 2 wf b True by (simp add: rt_ringbuffer_put_def Let_def memcpy_at_def idx15_def rb_wf_def)
    qed
  next
    case False
    let ?buf = "copy_in (buffer_ptr rb) (buffer_size rb) (write_index rb) (take n xs)"
    have n: "0 < n" "n \<le> rt_ringbuffer_space_len rb" "length (take n xs) = n"
      using False by (simp_all add: n_def len rt_ringbuffer_space_len_def)
    have s1: "rt_ringbuffer_space_len rb \<noteq> 0" using n(1,2) by simp
    have s2: "(if rt_ringbuffer_space_len rb < length xs then rt_ringbuffer_space_len rb
        else length xs) = n"
      unfolding n_def len rt_ringbuffer_space_len_def by (auto simp: min_def)
    note s = s1 s2
    have nl: "n \<le> buffer_size rb" "?l + n \<le> buffer_size rb"
      using n(2) rb_len_le [OF wf] by (simp_all add: rt_ringbuffer_space_len_def)
    note sh = rb_put_shape [OF wf n(1,2), of ?buf]
    have r: "?r = ((if buffer_size rb - write_index rb > n
        then rb\<lparr>buffer_ptr := ?buf, write_index := idx15 (write_index rb + n)\<rparr>
        else rb\<lparr>buffer_ptr := ?buf, write_mirror := \<not> write_mirror rb,
               write_index := idx15 (n - (buffer_size rb - write_index rb))\<rparr>), n)"
      unfolding rt_ringbuffer_put_def Let_def s(2) using s(1) n(3)
      by (simp add: copy_in_def drop_take min_absorb1)
    have "rb_contents (fst ?r) = rb_contents rb @ take n xs"
      using sh b n nl rb_write_index [OF wf] copy_in_circ [of ?l "take n xs" "buffer_size rb" "read_index rb" "buffer_ptr rb"]
      unfolding r by (simp add: rb_contents_def)
    then show ?thesis using sh b n nl r by simp
  qed
  then show "snd ?r = n" "rb_wf (fst ?r)" "rb_contents (fst ?r) = rb_contents rb @ take n xs"
    "buffer_size (fst ?r) = buffer_size rb" by simp_all
qed

lemma rb_get_shape:
  assumes wf: "rb_wf rb" and len: "0 < len" "len \<le> rt_ringbuffer_data_len rb"
  defines "rb' \<equiv> (if buffer_size rb - read_index rb > len
      then rb\<lparr>read_index := idx15 (read_index rb + len)\<rparr>
      else rb\<lparr>read_mirror := \<not> read_mirror rb,
             read_index := idx15 (len - (buffer_size rb - read_index rb))\<rparr>)"
  shows "rb_wf rb'" "rt_ringbuffer_data_len rb' = rt_ringbuffer_data_len rb - len"
    "read_index rb' = (read_index rb + len) mod buffer_size rb" "buffer_size rb' = buffer_size rb"
    "buffer_ptr rb' = buffer_ptr rb"
proof -
  have i: "idx15 n = n" if "n < buffer_size rb" for n using that wf by (simp add: rb_wf_def idx15_def)
  have l: "len \<le> rt_ringbuffer_data_len rb" using len by simp
  have ls: "len \<le> buffer_size rb" using l rb_len_le [OF wf] by simp
  show "buffer_size rb' = buffer_size rb" "buffer_ptr rb' = buffer_ptr rb" by (simp_all add: rb'_def)
  have "rb_wf rb' \<and> rt_ringbuffer_data_len rb' = rt_ringbuffer_data_len rb - len \<and>
    read_index rb' = (read_index rb + len) mod buffer_size rb"
  proof (cases "buffer_size rb - read_index rb > len")
    case True
    have w: "idx15 (read_index rb + len) = read_index rb + len" by (rule i) (use True in simp)
    have eq: "rb' = rb\<lparr>read_index := read_index rb + len\<rparr>"
      using True by (simp only: rb'_def w if_True)
    have wf': "rb_wf rb'"
      using wf True l len unfolding eq rb_wf_def rb_len [OF wf] by (auto split: if_splits)
    have "rt_ringbuffer_data_len rb' = rt_ringbuffer_data_len rb - len"
      using wf' wf True l len unfolding rb_len [OF wf] rb_len [OF wf'] by (auto simp: eq rb_wf_def split: if_splits)
    then show ?thesis using wf' True by (simp add: eq)
  next
    case False
    have m: "read_mirror rb \<noteq> write_mirror rb"
      using False l len wf unfolding rb_len [OF wf] by (auto simp: rb_wf_def split: if_splits)
    have w: "idx15 (len - (buffer_size rb - read_index rb)) = len - (buffer_size rb - read_index rb)"
      by (rule i) (use ls wf in \<open>auto simp: rb_wf_def\<close>)
    have eq: "rb' = rb\<lparr>read_mirror := \<not> read_mirror rb,
        read_index := len - (buffer_size rb - read_index rb)\<rparr>"
      using False by (simp only: rb'_def w if_False)
    have wf': "rb_wf rb'"
      using wf False l len m unfolding eq rb_wf_def rb_len [OF wf] by (auto split: if_splits)
    have "rt_ringbuffer_data_len rb' = rt_ringbuffer_data_len rb - len"
      using wf' wf False l len m unfolding rb_len [OF wf] rb_len [OF wf'] by (auto simp: eq rb_wf_def split: if_splits)
    moreover have "(read_index rb + len) mod buffer_size rb = read_index rb + len - buffer_size rb"
      using False ls wf by (subst le_mod_geq) (auto simp: rb_wf_def)
    moreover have "read_index rb < buffer_size rb" using wf by (simp add: rb_wf_def)
    ultimately show ?thesis using wf' False by (simp add: eq)
  qed
  then show "rb_wf rb'" "rt_ringbuffer_data_len rb' = rt_ringbuffer_data_len rb - len"
    "read_index rb' = (read_index rb + len) mod buffer_size rb" by simp_all
qed

text \<open>The two copies out of the buffer.\<close>

lemma copy_out_circ:
  assumes "n \<le> sz" "out < sz" "sz \<le> length buf"
  shows "circ (\<lambda>i. buf ! i) sz out n =
    (if sz - out > n then take n (drop out buf)
     else take (sz - out) (drop out buf) @ take (n - (sz - out)) buf)"
proof (rule nth_equalityI)
  fix i assume "i < length (circ (\<lambda>i. buf ! i) sz out n)"
  then have i: "i < n" by simp
  have "(out + i) mod sz = (if out + i < sz then out + i else out + i - sz)"
    using i assms by (auto simp: le_mod_geq)
  then show "circ (\<lambda>i. buf ! i) sz out n ! i = (if sz - out > n then take n (drop out buf)
     else take (sz - out) (drop out buf) @ take (n - (sz - out)) buf) ! i"
    using i assms by (auto simp: nth_circ nth_append min_absorb2 add.commute)
qed (use assms in \<open>auto simp: min_def\<close>)

text \<open>A get returns the oldest bytes, at most as many as there are.\<close>

lemma rt_ringbuffer_get_spec:
  assumes wf: "rb_wf rb"
  shows "snd (rt_ringbuffer_get rb k) = take k (rb_contents rb)"
    "rb_wf (fst (rt_ringbuffer_get rb k))"
    "rb_contents (fst (rt_ringbuffer_get rb k)) = drop k (rb_contents rb)"
    "buffer_size (fst (rt_ringbuffer_get rb k)) = buffer_size rb"
proof -
  let ?l = "rt_ringbuffer_data_len rb" and ?r = "rt_ringbuffer_get rb k"
  let ?n = "if ?l < k then ?l else k"
  have len: "length (rb_contents rb) = ?l" by (simp add: rb_contents_def)
  have tk: "take k (rb_contents rb) = take ?n (rb_contents rb)" "drop k (rb_contents rb) = drop ?n (rb_contents rb)"
    using len by auto
  have "snd ?r = take k (rb_contents rb) \<and> rb_wf (fst ?r) \<and> rb_contents (fst ?r) = drop k (rb_contents rb) \<and>
    buffer_size (fst ?r) = buffer_size rb"
  proof (cases "?n = 0")
    case True
    then consider "?l = 0" | "k = 0" "?l \<noteq> 0" by (auto split: if_splits)
    then show ?thesis
    proof cases
      case 1
      then show ?thesis using wf len by (auto simp: rt_ringbuffer_get_def)
    next
      case 2
      then show ?thesis using wf by (auto simp: rt_ringbuffer_get_def Let_def idx15_def rb_wf_def)
    qed
  next
    case False
    define n where "n = ?n"
    have n: "0 < n" "n \<le> ?l" "n \<le> buffer_size rb" using False rb_len_le [OF wf] by (auto simp: n_def)
    define rb' where "rb' = (if buffer_size rb - read_index rb > n
      then rb\<lparr>read_index := idx15 (read_index rb + n)\<rparr>
      else rb\<lparr>read_mirror := \<not> read_mirror rb,
             read_index := idx15 (n - (buffer_size rb - read_index rb))\<rparr>)"
    note sh = rb_get_shape [OF wf n(1,2), folded rb'_def]
    have ne: "?l \<noteq> 0" using n by auto
    have c: "take n (rb_contents rb) = circ (\<lambda>i. buffer_ptr rb ! i) (buffer_size rb) (read_index rb) n"
      using n(2) by (simp add: rb_contents_def circ_def take_map)
    have b: "read_index rb < buffer_size rb" "buffer_size rb \<le> length (buffer_ptr rb)"
      using wf by (auto simp: rb_wf_def)
    have r: "?r = (rb', take n (rb_contents rb))"
      unfolding rt_ringbuffer_get_def Let_def n_def [symmetric] rb'_def c copy_out_circ [OF n(3) b]
      using ne by simp
    show ?thesis
      using sh r tk unfolding n_def [symmetric] by (simp add: rb_contents_def circ_drop)
  qed
  then show "snd ?r = take k (rb_contents rb)" "rb_wf (fst ?r)" "rb_contents (fst ?r) = drop k (rb_contents rb)"
    "buffer_size (fst ?r) = buffer_size rb" by simp_all
qed

section \<open>Single bytes\<close>

text \<open>The byte operations are the block operations for one byte.\<close>

lemma putchar_is_put:
  assumes "rb_wf rb"
  shows "rt_ringbuffer_putchar rb ch = rt_ringbuffer_put rb [ch]"
proof -
  have b: "write_index rb < buffer_size rb" "buffer_size rb \<le> length (buffer_ptr rb)"
    using assms by (auto simp: rb_wf_def)
  have u: "memcpy_at (buffer_ptr rb) (write_index rb) [ch] = (buffer_ptr rb)[write_index rb := ch]"
    using b by (simp add: memcpy_at_def upd_conv_take_nth_drop)
  have z: "memcpy_at xs 0 [] = xs" for xs :: "rt_uint8_t list" by (simp add: memcpy_at_def)
  have t: "(buffer_size rb - write_index rb > 1) = (write_index rb \<noteq> buffer_size rb - 1)"
    "buffer_size rb - write_index rb \<ge> 1" using b by auto
  show ?thesis
    using t u b by (auto simp: rt_ringbuffer_putchar_def rt_ringbuffer_put_def Let_def z idx15_def)
qed

lemma getchar_is_get:
  assumes "rb_wf rb"
  shows "rt_ringbuffer_getchar rb =
    (fst (rt_ringbuffer_get rb 1), if rb_contents rb = [] then None else Some (hd (rb_contents rb)))"
proof -
  have b: "read_index rb < buffer_size rb" using assms by (auto simp: rb_wf_def)
  have e: "rb_contents rb = [] \<longleftrightarrow> rt_ringbuffer_data_len rb = 0" by (simp add: rb_contents_def)
  have h: "hd (rb_contents rb) = buffer_ptr rb ! read_index rb" if "rt_ringbuffer_data_len rb \<noteq> 0"
    using that b by (simp add: rb_contents_def hd_conv_nth nth_circ)
  have t: "(buffer_size rb - read_index rb > 1) = (read_index rb \<noteq> buffer_size rb - 1)" using b by auto
  show ?thesis
    using t e h b by (auto simp: rt_ringbuffer_getchar_def rt_ringbuffer_get_def Let_def idx15_def)
qed

definition rb_put :: "rt_uint8_t \<Rightarrow> rt_ringbuffer \<Rightarrow> rt_ringbuffer" where
  "rb_put ch rb = fst (rt_ringbuffer_putchar rb ch)"

definition rb_get :: "rt_ringbuffer \<Rightarrow> rt_uint8_t \<times> rt_ringbuffer" where
  "rb_get rb = (case rt_ringbuffer_getchar rb of (rb', Some ch) \<Rightarrow> (ch, rb') | (rb', None) \<Rightarrow> (0, rb'))"

interpretation rbq: bounded_fifo rb_wf rb_contents buffer_size "\<lambda>_ _. True" rb_put rb_get
proof
  fix rb ch
  assume wf: "rb_wf rb"
  show "length (rb_contents rb) \<le> buffer_size rb" using rb_len_le [OF wf] by (simp add: rb_contents_def)
  show "True = True" ..
  note p = rt_ringbuffer_put_spec [OF wf, of "[ch]"] and g = rt_ringbuffer_get_spec [OF wf, of 1]
  show "rb_wf (rb_put ch rb)" "rb_contents (rb_put ch rb) = rb_contents rb @ [ch]"
    "buffer_size (rb_put ch rb) = buffer_size rb" if "length (rb_contents rb) < buffer_size rb"
    using that p by (simp_all add: rb_put_def putchar_is_put [OF wf])
  show "rb_wf (snd (rb_get rb))" "rb_contents rb = fst (rb_get rb) # rb_contents (snd (rb_get rb))"
    "buffer_size (snd (rb_get rb)) = buffer_size rb" if "rb_contents rb \<noteq> []"
    using that g by (simp_all add: rb_get_def getchar_is_get [OF wf] drop_Suc)
qed

section \<open>Overwriting puts\<close>

text \<open>The byte variant drops the oldest byte of a full buffer and is the plain put otherwise.\<close>

lemma rb_status_full:
  assumes "rb_wf rb"
  shows "rt_ringbuffer_status rb = RT_RINGBUFFER_FULL \<longleftrightarrow> length (rb_contents rb) = buffer_size rb"
  using assms rb_len [OF assms]
  by (auto simp: rb_contents_def rt_ringbuffer_status_def rb_wf_def split: if_splits)

lemma putchar_force_full:
  assumes wf: "rb_wf rb" and f: "rt_ringbuffer_status rb = RT_RINGBUFFER_FULL"
  shows "fst (rt_ringbuffer_putchar_force rb ch) =
    fst (rt_ringbuffer_putchar (fst (rt_ringbuffer_getchar rb)) ch)"
proof -
  have m: "read_index rb = write_index rb" "read_mirror rb \<noteq> write_mirror rb" "rt_ringbuffer_data_len rb \<noteq> 0"
    using f wf by (auto simp: rt_ringbuffer_status_def rt_ringbuffer_data_len_def rb_wf_def split: if_splits)
  have g: "rb_wf (fst (rt_ringbuffer_getchar rb))"
    using rt_ringbuffer_get_spec(2) [OF wf] getchar_is_get [OF wf] by simp
  have "length (rb_contents (fst (rt_ringbuffer_getchar rb))) < buffer_size rb"
    "buffer_size (fst (rt_ringbuffer_getchar rb)) = buffer_size rb"
    using rt_ringbuffer_get_spec [OF wf, of 1] getchar_is_get [OF wf] rb_status_full [OF wf] f wf
    by (simp_all add: rb_wf_def)
  then have "rt_ringbuffer_space_len (fst (rt_ringbuffer_getchar rb)) \<noteq> 0"
    by (simp add: rt_ringbuffer_space_len_def rb_contents_def)
  then show ?thesis
    using m f wf by (auto simp: rt_ringbuffer_putchar_force_def rt_ringbuffer_putchar_def
        rt_ringbuffer_getchar_def Let_def idx15_def rb_wf_def)
qed

lemma putchar_force_room:
  assumes wf: "rb_wf rb" and f: "rt_ringbuffer_status rb \<noteq> RT_RINGBUFFER_FULL"
  shows "rt_ringbuffer_putchar_force rb ch = rt_ringbuffer_putchar rb ch"
proof -
  have "length (rb_contents rb) \<noteq> buffer_size rb" using rb_status_full [OF wf] f by simp
  then have "rt_ringbuffer_space_len rb \<noteq> 0"
    using rb_len_le [OF wf] by (simp add: rt_ringbuffer_space_len_def rb_contents_def)
  then show ?thesis
    using f by (simp add: rt_ringbuffer_putchar_force_def rt_ringbuffer_putchar_def Let_def)
qed

lemma putchar_force_contents:
  assumes wf: "rb_wf rb"
  shows "rb_contents (fst (rt_ringbuffer_putchar_force rb ch)) =
    (if length (rb_contents rb) = buffer_size rb then tl (rb_contents rb) else rb_contents rb) @ [ch]"
proof (cases "rt_ringbuffer_status rb = RT_RINGBUFFER_FULL")
  case True
  let ?g = "fst (rt_ringbuffer_get rb 1)"
  note g = rt_ringbuffer_get_spec [OF wf, of 1]
  have "fst (rt_ringbuffer_putchar_force rb ch) = fst (rt_ringbuffer_put ?g [ch])"
    using putchar_force_full [OF wf True] getchar_is_get [OF wf] putchar_is_put [OF g(2)] by simp
  then show ?thesis
    using rt_ringbuffer_put_spec(3) [OF g(2), of "[ch]"] g rb_status_full [OF wf] True wf
    by (simp add: rb_wf_def drop_Suc)
next
  case False
  then have ne: "length (rb_contents rb) < buffer_size rb"
    using rb_status_full [OF wf] rbq.len_cap [OF wf] by simp
  then show ?thesis
    using putchar_force_room [OF wf False] putchar_is_put [OF wf] rt_ringbuffer_put_spec(3) [OF wf, of "[ch]"]
    by simp
qed

text \<open>
  The block variant: when the new bytes do not fit and the write index wraps around while both
  indices are in the same mirror, the read mirror is flipped as well, so the buffer counts as
  empty afterwards.
\<close>

lemma put_force_lost:
  assumes wf: "rb_wf rb" and m: "read_mirror rb = write_mirror rb"
    and len: "length xs \<le> buffer_size rb" "rt_ringbuffer_space_len rb < length xs"
  shows "rb_contents (fst (rt_ringbuffer_put_force rb xs)) = []"
proof -
  have w: "\<not> buffer_size rb - write_index rb > length xs"
    using len(2) m wf rb_len [OF wf] by (auto simp: rt_ringbuffer_space_len_def rb_wf_def)
  then show ?thesis
    using len m by (simp add: rt_ringbuffer_put_force_def Let_def rb_contents_def rt_ringbuffer_data_len_def
        rt_ringbuffer_status_def)
qed

text \<open>In the other mirror the buffer is full afterwards and holds the newest bytes.\<close>

lemma put_force_newest:
  assumes wf: "rb_wf rb" and m: "read_mirror rb \<noteq> write_mirror rb"
    and len: "length xs \<le> buffer_size rb" "rt_ringbuffer_space_len rb < length xs"
  shows "rb_contents (fst (rt_ringbuffer_put_force rb xs)) =
    drop (length (rb_contents rb) + length xs - buffer_size rb) (rb_contents rb) @ xs"
proof -
  let ?sz = "buffer_size rb" and ?w = "write_index rb" and ?l = "rt_ringbuffer_data_len rb"
  let ?w' = "(?w + length xs) mod ?sz"
  define rb' where "rb' = fst (rt_ringbuffer_put_force rb xs)"
  have b: "?w < ?sz" "?sz \<le> length (buffer_ptr rb)" "0 < ?sz" "?sz < 2 ^ 15" using wf by (auto simp: rb_wf_def)
  have ll: "?l + length xs > ?sz" "?l \<le> ?sz"
    using len(2) rb_len_le [OF wf] by (auto simp: rt_ringbuffer_space_len_def)
  have i15: "idx15 n = n" if "n < ?sz" for n using that b by (simp add: idx15_def)
  have w': "?w' = (if ?sz - ?w > length xs then ?w + length xs else length xs - (?sz - ?w))"
    using b len(1) by (auto simp: le_mod_geq)
  have lt: "?w' < ?sz" using b by simp
  have i1: "idx15 (?w + length xs) = ?w'" if "?sz - ?w > length xs"
    using that w' i15 [of "?w + length xs"] by simp
  have i2: "idx15 (length xs - (?sz - ?w)) = ?w'" if "\<not> ?sz - ?w > length xs"
    using that w' i15 [of "length xs - (?sz - ?w)"] lt by simp
  have f: "read_index rb' = ?w'" "write_index rb' = ?w'" "read_mirror rb' \<noteq> write_mirror rb'"
    "buffer_size rb' = ?sz" "buffer_ptr rb' = copy_in (buffer_ptr rb) ?sz ?w xs"
    using m len i1 i2 by (auto simp: rb'_def rt_ringbuffer_put_force_def Let_def copy_in_def)
  then have full: "rt_ringbuffer_data_len rb' = ?sz"
    by (simp add: rt_ringbuffer_data_len_def rt_ringbuffer_status_def)
  have bk: "(?w' + (?sz - length xs)) mod ?sz = ?w"
  proof -
    have "(?w' + (?sz - length xs)) mod ?sz = (?w + length xs + (?sz - length xs)) mod ?sz"
      by (rule mod_add_left_eq)
    also have "?w + length xs + (?sz - length xs) = ?w + ?sz" using len(1) by simp
    finally show ?thesis using b(1) by simp
  qed
  have "(read_index rb + (?l + length xs - ?sz)) mod ?sz = ?w'"
  proof -
    have "?w' = (read_index rb + ?l + length xs) mod ?sz"
      by (subst rb_write_index [OF wf]) (simp add: mod_add_left_eq)
    also have "\<dots> = (read_index rb + (?l + length xs - ?sz)) mod ?sz"
      using ll by (simp add: le_mod_geq add.assoc)
    finally show ?thesis by simp
  qed
  then have d: "drop (?l + length xs - ?sz) (rb_contents rb) =
      circ (\<lambda>i. buffer_ptr rb ! i) ?sz ?w' (?sz - length xs)"
    using ll by (simp add: rb_contents_def circ_drop)
  have "rb_contents rb' = circ (\<lambda>i. copy_in (buffer_ptr rb) ?sz ?w xs ! i) ?sz ?w' (?sz - length xs + length xs)"
    using f full len(1) by (simp add: rb_contents_def)
  also have "\<dots> = circ (\<lambda>i. buffer_ptr rb ! i) ?sz ?w' (?sz - length xs) @ xs"
    using copy_in_circ [of "?sz - length xs" xs ?sz ?w' "buffer_ptr rb"] bk len(1) lt b by simp
  finally show ?thesis using d by (simp add: rb'_def rb_contents_def)
qed

text \<open>A new buffer is empty.\<close>


lemma rt_ringbuffer_init_wf:
  assumes "4 \<le> sz" "sz < 2 ^ 15" "sz \<le> length pool"
  shows "rb_wf (rt_ringbuffer_init pool sz)" "rb_contents (rt_ringbuffer_init pool sz) = []"
    "buffer_size (rt_ringbuffer_init pool sz) = align4_down sz"
proof -
  have "0 < align4_down sz" "align4_down sz \<le> sz" using assms(1) by (auto simp: align4_down_def)
  then show "rb_wf (rt_ringbuffer_init pool sz)" using assms by (simp add: rb_wf_def rt_ringbuffer_init_def)
  show "rb_contents (rt_ringbuffer_init pool sz) = []" "buffer_size (rt_ringbuffer_init pool sz) = align4_down sz"
    by (simp_all add: rb_contents_def rt_ringbuffer_data_len_def rt_ringbuffer_status_def rt_ringbuffer_init_def)
qed

end
