(* ===== verification/Heap.thy ===== *)
theory Heap
  imports Mem
begin

text \<open>
  The allocator of \<open>Mem\<close> is correct. The blocks of the heap form a doubly linked chain of
  ascending offsets that covers the heap without gaps; \<open>heap_inv\<close> adds that no two
  neighbouring blocks are free, that \<^verbatim>\<open>lfree\<close> is a free block or the end and that \<^verbatim>\<open>used_mem\<close> is the
  space in use. \<open>lowest\<close> says that no free block lies below \<^verbatim>\<open>lfree\<close>; \<open>rt_malloc\<close> and
  \<open>rt_free\<close> keep it, \<open>rt_realloc\<close> does not (theory \<open>Realloc\<close>). Every operation ends and keeps
  \<open>heap_inv\<close>; what is allocated changes by exactly the block that is handed out or given back.
\<close>

section \<open>The chain of blocks\<close>

text \<open>\<open>q\<close> is the block before the first, \<open>p\<close> the first and \<open>e\<close> the end.\<close>

fun hchain :: "(nat \<Rightarrow> heap_mem) \<Rightarrow> nat \<Rightarrow> nat \<Rightarrow> nat list \<Rightarrow> nat \<Rightarrow> bool" where
  "hchain m q p [] e \<longleftrightarrow> p = e"
| "hchain m q p (b # bs) e \<longleftrightarrow> p = b \<and> hm_prev (m b) = q \<and> b + 16 \<le> hm_next (m b) \<and>
    hchain m b (hm_next (m b)) bs e"

lemma hchain_bounds:
  assumes "hchain m q p bs e"
  shows "p \<le> e" "b \<in> set bs \<Longrightarrow> p \<le> b \<and> b + 16 \<le> hm_next (m b) \<and> hm_next (m b) \<le> e"
    "p + 16 * length bs \<le> e"
  using assms
proof (induction bs arbitrary: q p)
  case (Cons a bs)
  {
    case 1 then show ?case using Cons.IH(1) by fastforce
  next
    case 2 then show ?case using Cons.IH(1,2) by fastforce
  next
    case 3 then show ?case using Cons.IH(3) [of a "hm_next (m a)"] by simp
  }
qed simp_all

lemma hchain_sorted: "hchain m q p bs e \<Longrightarrow> sorted_wrt (<) bs"
proof (induction bs arbitrary: q p)
  case (Cons a bs)
  then have "a < b" if "b \<in> set bs" for b
    using hchain_bounds(2) [of m a "hm_next (m a)" bs e b] that by auto
  then show ?case using Cons by auto
qed simp

lemma hchain_append:
  "hchain m q p (xs @ ys) e \<longleftrightarrow>
    (\<exists>p'. hchain m q p xs p' \<and> hchain m (if xs = [] then q else last xs) p' ys e)"
  by (induction xs arbitrary: q p) auto

lemma hchain_cong:
  assumes "\<And>b. b \<in> set bs \<Longrightarrow> hm_next (m' b) = hm_next (m b) \<and> hm_prev (m' b) = hm_prev (m b)"
  shows "hchain m' q p bs e = hchain m q p bs e"
  using assms by (induction bs arbitrary: q p) auto

text \<open>Changing what the first block takes for its predecessor.\<close>

lemma hchain_reprev:
  assumes "hchain m q p bs e" "\<And>b. hm_next (m' b) = hm_next (m b)"
    "\<And>b. b \<in> set bs \<Longrightarrow> hm_prev (m' b) = (if b = p then q' else hm_prev (m b))"
  shows "hchain m' q' p bs e"
proof (cases bs)
  case Nil
  then show ?thesis using assms(1) by simp
next
  case (Cons b ys)
  have "b \<notin> set ys" using hchain_sorted [OF assms(1)] Cons by auto
  then have "hchain m' b (hm_next (m b)) ys e = hchain m b (hm_next (m b)) ys e"
    using assms Cons by (intro hchain_cong) auto
  then show ?thesis using assms Cons by auto
qed

text \<open>The place of a block: what comes before, its neighbours and what comes after.\<close>

lemma hchain_mid:
  "hchain m q p (xs @ b # ys) e \<longleftrightarrow>
    hchain m q p xs b \<and> hm_prev (m b) = (if xs = [] then q else last xs) \<and> b + 16 \<le> hm_next (m b) \<and>
    hchain m b (hm_next (m b)) ys e"
  by (auto simp: hchain_append)

lemma hchain_mid_distinct:
  assumes "hchain m q p (xs @ b # ys) e"
  shows "b \<notin> set xs" "b \<notin> set ys" "set xs \<inter> set ys = {}" "x \<in> set xs \<Longrightarrow> x < b" "y \<in> set ys \<Longrightarrow> b < y"
    "x \<in> set xs \<Longrightarrow> hm_next (m x) \<le> b" "y \<in> set ys \<Longrightarrow> hm_next (m b) \<le> y" "e \<notin> set (xs @ b # ys)"
proof -
  note m = assms [unfolded hchain_mid]
  have s: "sorted_wrt (<) (xs @ b # ys)" using hchain_sorted [OF assms] .
  then show "b \<notin> set xs" "b \<notin> set ys" "x \<in> set xs \<Longrightarrow> x < b" "y \<in> set ys \<Longrightarrow> b < y"
    by (auto simp: sorted_wrt_append)
  show "set xs \<inter> set ys = {}" using s by (fastforce simp: sorted_wrt_append)
  show "x \<in> set xs \<Longrightarrow> hm_next (m x) \<le> b" using hchain_bounds(2) [of m q p xs b] m by blast
  show "y \<in> set ys \<Longrightarrow> hm_next (m b) \<le> y" using hchain_bounds(2) [of m b "hm_next (m b)" ys e] m by blast
  show "e \<notin> set (xs @ b # ys)" using hchain_bounds(2) [OF assms, of e] by auto
qed

text \<open>Splitting a block at \<open>c\<close>, and joining it with the next one.\<close>

lemma hchain_split:
  assumes ch: "hchain m q p (xs @ b # ys) e" and c: "b + 16 \<le> c" "c + 16 \<le> hm_next (m b)"
    and m': "hm_next (m' b) = c" "hm_prev (m' b) = hm_prev (m b)" "hm_next (m' c) = hm_next (m b)" "hm_prev (m' c) = b"
    and o: "\<And>x. x \<noteq> b \<Longrightarrow> x \<noteq> c \<Longrightarrow> hm_next (m' x) = hm_next (m x)"
      "\<And>x. x \<noteq> b \<Longrightarrow> x \<noteq> c \<Longrightarrow> x \<noteq> hm_next (m b) \<Longrightarrow> hm_prev (m' x) = hm_prev (m x)"
    and n: "hm_next (m b) \<noteq> e \<Longrightarrow> hm_prev (m' (hm_next (m b))) = c"
  shows "hchain m' q p (xs @ b # c # ys) e"
proof -
  note mid = ch [unfolded hchain_mid] and d = hchain_mid_distinct [OF ch]
  have cb: "c \<notin> set xs" "c \<notin> set ys" "c \<noteq> b" using d(4) [of c] d(7) [of c] c by auto
  have x: "hchain m' q p xs b"
  proof -
    have "hm_next (m' x) = hm_next (m x) \<and> hm_prev (m' x) = hm_prev (m x)" if "x \<in> set xs" for x
    proof -
      have "x \<noteq> b" "x \<noteq> c" "x \<noteq> hm_next (m b)" using d(1) d(4) [of x] cb that mid by auto
      then show ?thesis using o by simp
    qed
    then have "hchain m' q p xs b = hchain m q p xs b" by (rule hchain_cong)
    then show ?thesis using mid by simp
  qed
  have y: "hchain m' c (hm_next (m b)) ys e"
  proof (cases ys)
    case Nil
    then show ?thesis using mid by simp
  next
    case (Cons z zs)
    have z: "z = hm_next (m b)" using mid Cons by simp
    have ne: "z \<noteq> e" using d(8) Cons by auto
    have zz: "hm_next (m' z) = hm_next (m z)" using o(1) [of z] d(2) cb(2) Cons by auto
    have "hchain m' z (hm_next (m z)) zs e = hchain m z (hm_next (m z)) zs e"
    proof (rule hchain_cong)
      fix y assume y: "y \<in> set zs"
      have "z < y" using hchain_sorted [of m b z ys e] mid z y Cons by auto
      then have "y \<noteq> b" "y \<noteq> c" "y \<noteq> hm_next (m b)" using y Cons d(2) cb z by auto
      then show "hm_next (m' y) = hm_next (m y) \<and> hm_prev (m' y) = hm_prev (m y)" using o by simp
    qed
    then show ?thesis using mid Cons z ne n zz by auto
  qed
  show ?thesis unfolding hchain_mid using mid x y m' c by simp
qed

lemma hchain_join:
  assumes ch: "hchain m q p (xs @ b # n # ys) e"
    and m': "hm_next (m' b) = hm_next (m n)" "hm_prev (m' b) = hm_prev (m b)"
    and o: "\<And>x. x \<noteq> b \<Longrightarrow> hm_next (m' x) = hm_next (m x)"
      "\<And>x. x \<noteq> b \<Longrightarrow> x \<noteq> hm_next (m n) \<Longrightarrow> hm_prev (m' x) = hm_prev (m x)"
      "hm_prev (m' (hm_next (m n))) = b"
  shows "hchain m' q p (xs @ b # ys) e"
proof -
  note mid = ch [unfolded hchain_mid] and d = hchain_mid_distinct [OF ch]
  have nb: "hm_next (m b) = n" and nn: "n + 16 \<le> hm_next (m n)" and y: "hchain m n (hm_next (m n)) ys e"
    using mid by auto
  have bn: "b < n" using mid nb by simp
  have x: "hchain m' q p xs b"
  proof -
    have "hm_next (m' x) = hm_next (m x) \<and> hm_prev (m' x) = hm_prev (m x)" if "x \<in> set xs" for x
    proof -
      have "x \<noteq> b" "x \<noteq> hm_next (m n)" using d(4) [OF that] bn nn by auto
      then show ?thesis using o by simp
    qed
    then have "hchain m' q p xs b = hchain m q p xs b" by (rule hchain_cong)
    then show ?thesis using mid by simp
  qed
  have "hchain m' b (hm_next (m n)) ys e"
  proof (cases ys)
    case Nil
    then show ?thesis using y by simp
  next
    case (Cons z zs)
    have z: "z = hm_next (m n)" using y Cons by simp
    have "hchain m' z (hm_next (m z)) zs e = hchain m z (hm_next (m z)) zs e"
    proof (rule hchain_cong)
      fix u assume u: "u \<in> set zs"
      have "z < u" using hchain_sorted [OF y] u Cons by auto
      then have "u \<noteq> b" "u \<noteq> hm_next (m n)" using z bn nn by auto
      then show "hm_next (m' u) = hm_next (m u) \<and> hm_prev (m' u) = hm_prev (m u)" using o by simp
    qed
    moreover have "z \<noteq> b" using z bn nn by simp
    ultimately show ?thesis using y Cons z o by simp
  qed
  then show ?thesis unfolding hchain_mid using mid x m' bn nn by simp
qed

section \<open>The invariant\<close>

definition hused :: "heap_state \<Rightarrow> nat \<Rightarrow> bool" where
  "hused h b \<longleftrightarrow> hm_used (mems h b) \<noteq> 0"

definition bsize :: "heap_state \<Rightarrow> nat \<Rightarrow> nat" where
  "bsize h b = hm_next (mems h b) - (b + 12)"

fun no_adj :: "(nat \<Rightarrow> bool) \<Rightarrow> nat list \<Rightarrow> bool" where
  "no_adj u (a # b # bs) \<longleftrightarrow> (u a \<or> u b) \<and> no_adj u (b # bs)"
| "no_adj u bs \<longleftrightarrow> True"

definition used_total :: "nat list \<Rightarrow> heap_state \<Rightarrow> nat" where
  "used_total bs h = sum_list (map (\<lambda>b. if hused h b then hm_next (mems h b) - b else 0) bs)"

definition allocated :: "nat list \<Rightarrow> heap_state \<Rightarrow> (nat \<times> nat) list" where
  "allocated bs h = map (\<lambda>b. (b, bsize h b)) (filter (hused h) bs)"

definition heap_shape :: "nat list \<Rightarrow> heap_state \<Rightarrow> bool" where
  "heap_shape bs h \<longleftrightarrow>
    hchain (mems h) 0 0 bs (heap_end h) \<and> heap_end h = mem_size_aligned h + 12 \<and> 12 \<le> mem_size_aligned h \<and>
    heap_ptr h + heap_end h + 12 \<le> 2 ^ 32 \<and> heap_ptr h mod 4 = 0 \<and> mem_size_aligned h mod 4 = 0 \<and>
    (\<forall>b\<in>set bs. b mod 4 = 0 \<and> hm_magic (mems h b) = HEAP_MAGIC) \<and> hused h (heap_end h)"

definition lfree_ok :: "nat list \<Rightarrow> heap_state \<Rightarrow> bool" where
  "lfree_ok bs h \<longleftrightarrow> lfree h = heap_end h \<or> lfree h \<in> set bs \<and> \<not> hused h (lfree h)"

text \<open>No free block below \<^verbatim>\<open>lfree\<close>. \<^verbatim>\<open>rt_realloc\<close> does not keep this; the other operations do.\<close>

definition lowest :: "nat list \<Rightarrow> heap_state \<Rightarrow> bool" where
  "lowest bs h \<longleftrightarrow> (\<forall>b\<in>set bs. \<not> hused h b \<longrightarrow> lfree h \<le> b)"

definition heap_inv :: "nat list \<Rightarrow> heap_state \<Rightarrow> bool" where
  "heap_inv bs h \<longleftrightarrow> heap_shape bs h \<and> no_adj (hused h) bs \<and> lfree_ok bs h \<and> used_mem h = used_total bs h"

lemma no_adj_append:
  "no_adj u (xs @ ys) \<longleftrightarrow>
    no_adj u xs \<and> no_adj u ys \<and> (xs = [] \<or> ys = [] \<or> u (last xs) \<or> u (hd ys))"
proof (induction xs)
  case (Cons x xs)
  then show ?case by (cases xs; cases ys) auto
qed simp

lemma no_adj_cong: "(\<And>b. b \<in> set bs \<Longrightarrow> u' b = u b) \<Longrightarrow> no_adj u' bs = no_adj u bs"
  by (induction u bs rule: no_adj.induct) auto

lemma no_adj_more: "no_adj u bs \<Longrightarrow> (\<And>b. b \<in> set bs \<Longrightarrow> u b \<Longrightarrow> u' b) \<Longrightarrow> no_adj u' bs"
  by (induction u bs rule: no_adj.induct) auto

lemma blocks_Nil [simp]: "used_total [] h = 0" "allocated [] h = []"
  by (simp_all add: used_total_def allocated_def)

lemma used_total_append [simp]: "used_total (xs @ ys) h = used_total xs h + used_total ys h"
  by (simp add: used_total_def)

lemma used_total_Cons [simp]:
  "used_total (b # ys) h = (if hused h b then hm_next (mems h b) - b else 0) + used_total ys h"
  by (simp add: used_total_def)

lemma allocated_append [simp]: "allocated (xs @ ys) h = allocated xs h @ allocated ys h"
  by (simp add: allocated_def)

lemma allocated_Cons [simp]:
  "allocated (b # ys) h = (if hused h b then (b, bsize h b) # allocated ys h else allocated ys h)"
  by (simp add: allocated_def)

lemma blocks_cong:
  assumes "\<And>b. b \<in> set bs \<Longrightarrow> hm_next (mems h' b) = hm_next (mems h b) \<and> hused h' b = hused h b"
  shows "used_total bs h' = used_total bs h" "allocated bs h' = allocated bs h"
proof -
  show "used_total bs h' = used_total bs h" using assms by (induction bs) simp_all
  show "allocated bs h' = allocated bs h" using assms by (induction bs) (simp_all add: bsize_def)
qed

text \<open>The space in use is no more than the heap.\<close>

lemma used_total_le: "hchain (mems h) q p bs e \<Longrightarrow> p + used_total bs h \<le> e"
proof (induction bs arbitrary: q p)
  case (Cons b bs)
  then show ?case using Cons.IH [of b "hm_next (mems h b)"] by auto
qed (simp add: used_total_def)

text \<open>Payloads of different blocks do not overlap and lie inside the heap.\<close>

lemma allocated_disjoint:
  assumes "heap_shape bs h" "(b, n) \<in> set (allocated bs h)" "(b', n') \<in> set (allocated bs h)" "b < b'"
  shows "b + 12 + n \<le> b'"
proof -
  have ch: "hchain (mems h) 0 0 bs (heap_end h)" using assms(1) unfolding heap_shape_def by blast
  have b: "b \<in> set bs" "n = bsize h b" "b' \<in> set bs" using assms(2,3) by (auto simp: allocated_def)
  obtain xs ys where bs: "bs = xs @ b # ys" using b(1) by (auto dest: split_list)
  have "b' \<in> set ys" using hchain_mid_distinct(4) [of "mems h" 0 0 xs b ys "heap_end h" b'] ch bs b(3) assms(4) by auto
  then show ?thesis
    using hchain_mid_distinct(7) [of "mems h" 0 0 xs b ys "heap_end h" b'] ch bs b(2) by (auto simp: bsize_def hchain_mid)
qed

lemma allocated_inside:
  assumes "heap_shape bs h" "(b, n) \<in> set (allocated bs h)"
  shows "b + 12 + n \<le> heap_end h" "b mod 4 = 0"
  using assms hchain_bounds(2) [of "mems h" 0 0 bs "heap_end h" b]
  by (auto simp: allocated_def bsize_def heap_shape_def)

section \<open>The searches\<close>

definition fits :: "nat \<Rightarrow> heap_state \<Rightarrow> nat \<Rightarrow> bool" where
  "fits sz h b \<longleftrightarrow> \<not> hused h b \<and> b < mem_size_aligned h - sz \<and> sz \<le> bsize h b"

text \<open>The search starts at \<^verbatim>\<open>lfree\<close>.\<close>

definition first_fit :: "nat \<Rightarrow> heap_state \<Rightarrow> nat list \<Rightarrow> nat option" where
  "first_fit sz h bs = find (\<lambda>b. lfree h \<le> b \<and> fits sz h b) bs"

lemma malloc_search_find:
  assumes "hchain (mems h) q p bs (heap_end h)" "heap_end h = mem_size_aligned h + 12" "heap_end h < 2 ^ 32"
    "sz \<le> mem_size_aligned h" "length bs < fuel"
  shows "malloc_search fuel p sz h = Some (find (fits sz h) bs)"
  using assms
proof (induction bs arbitrary: q p fuel)
  case Nil
  then obtain k where "fuel = Suc k" by (cases fuel) auto
  moreover have "sub32 (mem_size_aligned h) sz = mem_size_aligned h - sz" using Nil by (intro sub32_le) simp_all
  ultimately show ?case using Nil by auto
next
  case (Cons b bs)
  then obtain k where k: "fuel = Suc k" "length bs < k" by (cases fuel) auto
  have lim: "sub32 (mem_size_aligned h) sz = mem_size_aligned h - sz" using Cons.prems by (intro sub32_le) simp_all
  have n: "b + 12 \<le> hm_next (mems h b)" "hm_next (mems h b) \<le> heap_end h"
    using hchain_bounds(2) [OF Cons.prems(1), of b] by simp_all
  then have s: "sub32 (hm_next (mems h b)) (b + 12) = bsize h b"
    using Cons.prems(3) by (simp add: bsize_def sub32_le)
  have ih: "malloc_search k (hm_next (mems h b)) sz h = Some (find (fits sz h) bs)"
    using Cons.IH [of b "hm_next (mems h b)" k] Cons.prems k by simp
  have p: "p = b" using Cons.prems(1) by simp
  show ?case
  proof (cases "b < mem_size_aligned h - sz")
    case True
    then show ?thesis using ih s lim p k
      by (auto simp: fits_def [of sz h b] hused_def [of h b] SIZEOF_STRUCT_MEM_def)
  next
    case False
    then have "\<not> fits sz h c" if "c \<in> set (b # bs)" for c
      using hchain_bounds(2) [OF Cons.prems(1) that] p by (auto simp: fits_def)
    then have "find (fits sz h) (b # bs) = None" by (auto simp: find_None_iff)
    then show ?thesis using False lim p k by simp
  qed
qed

lemma lfree_search_find:
  assumes "hchain (mems h) q p bs (heap_end h)" "length bs < fuel"
  shows "lfree_search fuel p h = Some (case find (\<lambda>b. \<not> hused h b) bs of None \<Rightarrow> heap_end h | Some b \<Rightarrow> b)"
  using assms
proof (induction bs arbitrary: q p fuel)
  case Nil
  then obtain k where "fuel = Suc k" by (cases fuel) auto
  then show ?case using Nil by simp
next
  case (Cons b bs)
  then obtain k where k: "fuel = Suc k" "length bs < k" by (cases fuel) auto
  have ne: "b \<noteq> heap_end h" using hchain_bounds(2) [OF Cons.prems(1), of b] by auto
  have p: "p = b" using Cons.prems(1) by simp
  have "lfree_search k (hm_next (mems h b)) h =
      Some (case find (\<lambda>b. \<not> hused h b) bs of None \<Rightarrow> heap_end h | Some b \<Rightarrow> b)"
    using Cons.IH [of b "hm_next (mems h b)" k] Cons.prems k by simp
  then show ?case using p k ne by (simp add: hused_def)
qed

lemma heap_fuel_enough:
  assumes "heap_shape bs h"
  shows "length bs < heap_fuel h"
  using assms hchain_bounds(3) [of "mems h" 0 0 bs "heap_end h"] by (auto simp: heap_shape_def heap_fuel_def)

section \<open>Allocation\<close>

lemma upd_mem_fields [simp]:
  "heap_end (upd_mem p f h) = heap_end h" "heap_ptr (upd_mem p f h) = heap_ptr h"
  "mem_size_aligned (upd_mem p f h) = mem_size_aligned h" "lfree (upd_mem p f h) = lfree h"
  "used_mem (upd_mem p f h) = used_mem h" "mems (upd_mem p f h) = (mems h)(p := f (mems h p))"
  "mem_bytes (upd_mem p f h) = mem_bytes h" "max_mem (upd_mem p f h) = max_mem h"
  "heap_fault (upd_mem p f h) = heap_fault h"
  by (simp_all add: upd_mem_def)

text \<open>What taking the block \<open>b\<close> for \<open>sz\<close> bytes makes of the headers.\<close>

definition taken :: "nat \<Rightarrow> nat \<Rightarrow> heap_state \<Rightarrow> heap_state" where
  "taken b sz h = upd_mem b (\<lambda>m. m\<lparr>hm_magic := HEAP_MAGIC\<rparr>) (malloc_take b sz h)"

lemma taken_fields [simp]:
  "heap_end (taken b sz h) = heap_end h" "heap_ptr (taken b sz h) = heap_ptr h"
  "mem_size_aligned (taken b sz h) = mem_size_aligned h" "lfree (taken b sz h) = lfree h"
  "mem_bytes (taken b sz h) = mem_bytes h" "heap_fault (taken b sz h) = heap_fault h"
  by (simp_all add: taken_def malloc_take_def Let_def)

lemma heap_shapeD:
  assumes "heap_shape bs h"
  shows "hchain (mems h) 0 0 bs (heap_end h)" "heap_end h = mem_size_aligned h + 12"
    "heap_ptr h + heap_end h + 12 \<le> 2 ^ 32" "\<And>b. b \<in> set bs \<Longrightarrow> b mod 4 = 0"
    "\<And>b. b \<in> set bs \<Longrightarrow> hm_magic (mems h b) = HEAP_MAGIC" "hused h (heap_end h)"
    "12 \<le> mem_size_aligned h" "heap_ptr h mod 4 = 0" "mem_size_aligned h mod 4 = 0"
  using assms unfolding heap_shape_def by blast+

lemma taken_whole:
  assumes sh: "heap_shape (xs @ b # ys) h" and sz: "bsize h b < sz + 24"
  shows "mems (taken b sz h) = (mems h)(b := (mems h b)\<lparr>hm_used := 1, hm_magic := HEAP_MAGIC\<rparr>)"
    "used_mem (taken b sz h) = add32 (used_mem h) (hm_next (mems h b) - b)"
    "heap_shape (xs @ b # ys) (taken b sz h)"
proof -
  note s = heap_shapeD [OF sh]
  have n: "b + 12 \<le> hm_next (mems h b)" "hm_next (mems h b) \<le> heap_end h" "b mod 4 = 0"
    using hchain_bounds(2) [OF s(1), of b] s(4) by simp_all
  have z: "sub32 (hm_next (mems h b)) (b + 12) = bsize h b" "sub32 (hm_next (mems h b)) b = hm_next (mems h b) - b"
    using n s(3) by (simp_all add: sub32_le bsize_def)
  show m: "mems (taken b sz h) = (mems h)(b := (mems h b)\<lparr>hm_used := 1, hm_magic := HEAP_MAGIC\<rparr>)"
    "used_mem (taken b sz h) = add32 (used_mem h) (hm_next (mems h b) - b)"
    using sz z by (simp_all add: taken_def malloc_take_def Let_def SIZEOF_STRUCT_MEM_def MIN_SIZE_ALIGNED_def)
  have "hchain (mems (taken b sz h)) 0 0 (xs @ b # ys) (heap_end h) = hchain (mems h) 0 0 (xs @ b # ys) (heap_end h)"
    by (rule hchain_cong) (simp add: m)
  then show "heap_shape (xs @ b # ys) (taken b sz h)"
    using s unfolding heap_shape_def by (simp add: m hused_def)
qed

lemma taken_split:
  assumes sh: "heap_shape (xs @ b # ys) h" and sz: "sz + 24 \<le> bsize h b" "sz mod 4 = 0" "4 \<le> sz"
  defines "c \<equiv> b + 12 + sz" and "n \<equiv> hm_next (mems h b)"
  shows "\<And>x. hm_next (mems (taken b sz h) x) = (if x = b then c else if x = c then n else hm_next (mems h x))"
    "\<And>x. hm_used (mems (taken b sz h) x) = (if x = b then 1 else if x = c then 0 else hm_used (mems h x))"
    "used_mem (taken b sz h) = add32 (used_mem h) (sz + 12)"
    "heap_shape (xs @ b # c # ys) (taken b sz h)" "c \<notin> set (xs @ b # ys)"
proof -
  note s = heap_shapeD [OF sh] and d = hchain_mid_distinct [OF heap_shapeD(1) [OF sh]]
  have nb: "b + 12 \<le> n" "n \<le> heap_end h" "b mod 4 = 0"
    using hchain_bounds(2) [OF s(1), of b] s(4) by (simp_all add: n_def)
  have c: "b + 16 \<le> c" "c + 16 \<le> n" using sz nb by (simp_all add: c_def bsize_def n_def)
  show cn: "c \<notin> set (xs @ b # ys)" using d(4) [of c] d(7) [of c] c nb by (auto simp: n_def)
  have z: "sub32 n (b + 12) = bsize h b" using nb s(3) by (simp add: sub32_le bsize_def n_def)
  have t: "taken b sz h = (let h1 = h\<lparr>mems := (mems h)
             (c := \<lparr>hm_magic = HEAP_MAGIC, hm_used = 0, hm_next = n, hm_prev = b\<rparr>)\<rparr>;
           h2 = upd_mem b (\<lambda>m. m\<lparr>hm_next := c, hm_used := 1\<rparr>) h1;
           h3 = (if n \<noteq> heap_end h then upd_mem n (\<lambda>m. m\<lparr>hm_prev := c\<rparr>) h2 else h2);
           used = add32 (used_mem h) (sz + 12)
       in upd_mem b (\<lambda>m. m\<lparr>hm_magic := HEAP_MAGIC\<rparr>) (h3\<lparr>used_mem := used, max_mem := max (max_mem h) used\<rparr>))"
    using sz z s(2) by (simp add: taken_def malloc_take_def Let_def SIZEOF_STRUCT_MEM_def MIN_SIZE_ALIGNED_def
        c_def n_def add.commute)
  have m: "mems (taken b sz h) = (let m2 = (mems h)
         (c := \<lparr>hm_magic = HEAP_MAGIC, hm_used = 0, hm_next = n, hm_prev = b\<rparr>,
          b := (mems h b)\<lparr>hm_next := c, hm_used := 1, hm_magic := HEAP_MAGIC\<rparr>)
       in if n \<noteq> heap_end h then m2(n := (mems h n)\<lparr>hm_prev := c\<rparr>) else m2)"
    using c nb by (auto simp: t Let_def fun_eq_iff)
  show nx: "hm_next (mems (taken b sz h) x) = (if x = b then c else if x = c then n else hm_next (mems h x))" for x
    using c nb by (auto simp: m Let_def)
  show us: "hm_used (mems (taken b sz h) x) = (if x = b then 1 else if x = c then 0 else hm_used (mems h x))" for x
    using c nb by (auto simp: m Let_def)
  show "used_mem (taken b sz h) = add32 (used_mem h) (sz + 12)" by (simp add: t Let_def)
  have "hchain (mems (taken b sz h)) 0 0 (xs @ b # c # ys) (heap_end h)"
    by (rule hchain_split [OF s(1), of c]) (use c nb in \<open>auto simp: m Let_def n_def\<close>)
  moreover have "hm_magic (mems (taken b sz h) x) = HEAP_MAGIC" if "x \<in> set (xs @ b # c # ys)" for x
    using that s(5) c nb by (auto simp: m Let_def)
  moreover have "hused h (heap_end h)" "heap_end h \<noteq> b" "heap_end h \<noteq> c" using s(6) nb c by auto
  moreover have "c mod 4 = 0" using sz(2) nb(3) unfolding c_def by presburger
  ultimately show "heap_shape (xs @ b # c # ys) (taken b sz h)"
    using s unfolding heap_shape_def by (auto simp: us hused_def)
qed

text \<open>Taking a free block that is large enough.\<close>

lemma taken_ok:
  assumes sh: "heap_shape (xs @ b # ys) h" and f: "\<not> hused h b" "sz \<le> bsize h b" "sz mod 4 = 0" "4 \<le> sz"
    and adj: "no_adj (hused h) (xs @ b # ys)" and um: "used_mem h = used_total (xs @ b # ys) h"
  obtains zs n where "heap_shape (xs @ b # zs) (taken b sz h)" "no_adj (hused (taken b sz h)) (xs @ b # zs)"
    "used_mem (taken b sz h) = used_total (xs @ b # zs) (taken b sz h)" "sz \<le> n"
    "allocated (xs @ b # zs) (taken b sz h) = allocated xs h @ (b, n) # allocated ys h"
    "\<And>x. x \<in> set xs \<Longrightarrow> hused (taken b sz h) x = hused h x" "hused (taken b sz h) b"
    "set ys \<subseteq> set zs" "\<And>x. x \<in> set zs \<Longrightarrow> b < x"
proof -
  note s = heap_shapeD [OF sh] and d = hchain_mid_distinct [OF heap_shapeD(1) [OF sh]]
  let ?h = "taken b sz h"
  have nb: "b + 12 \<le> hm_next (mems h b)" "hm_next (mems h b) \<le> heap_end h"
    using hchain_bounds(2) [OF s(1), of b] by simp_all
  have lt: "used_total (xs @ b # ys) h + (hm_next (mems h b) - b) \<le> heap_end h"
  proof -
    have "0 + used_total xs h \<le> b" "hm_next (mems h b) + used_total ys h \<le> heap_end h"
      using used_total_le s(1) unfolding hchain_mid by blast+
    then show ?thesis using f(1) nb by simp
  qed
  have add: "add32 (used_mem h) k = used_total xs h + used_total ys h + k" if "k \<le> hm_next (mems h b) - b" for k
    using lt that s(3) f(1) unfolding um add32_def by (intro mod_less [THEN trans]) simp_all
  show ?thesis
  proof (cases "sz + 24 \<le> bsize h b")
    case True
    define c where "c = b + 12 + sz"
    note t = taken_split [OF sh True f(3,4), folded c_def]
    have cx: "c \<notin> set xs" "c \<notin> set ys" "c \<noteq> b" using t(5) by auto
    have same: "hm_next (mems ?h x) = hm_next (mems h x) \<and> hused ?h x = hused h x" if "x \<noteq> b" "x \<noteq> c" for x
      using that t(1,2) by (simp add: hused_def)
    have sx: "x \<noteq> b \<and> x \<noteq> c" if "x \<in> set xs \<or> x \<in> set ys" for x using that d(1,2) cx by auto
    note cong = blocks_cong [of xs ?h h] blocks_cong [of ys ?h h]
    have bc: "hused ?h b" "\<not> hused ?h c" "hm_next (mems ?h b) = c" "bsize ?h b = sz"
      using t(1,2) cx by (simp_all add: hused_def bsize_def c_def)
    have na: "no_adj (hused h) xs" "no_adj (hused h) ys" "ys = [] \<or> hused h (hd ys)"
      using adj f(1) by (cases ys; simp add: no_adj_append)+
    have ny: "ys = [] \<or> hused ?h (hd ys)" using na(3) same [of "hd ys"] sx [of "hd ys"] by (cases ys) auto
    have "no_adj (hused ?h) xs" "no_adj (hused ?h) ys"
      using na no_adj_cong [of xs "hused ?h" "hused h"] no_adj_cong [of ys "hused ?h" "hused h"] same sx by blast+
    then have nadj: "no_adj (hused ?h) (xs @ b # c # ys)"
      using bc ny by (cases ys) (auto simp: no_adj_append)
    have tot: "used_mem ?h = used_total (xs @ b # c # ys) ?h"
      using t(3) add [of "sz + 12"] True cong same sx bc by (simp add: bsize_def c_def)
    show ?thesis
      by (rule that [of "c # ys" sz])
        (use t(4) nadj tot cong same sx bc d(5) in \<open>auto simp: c_def\<close>)
  next
    case False
    then have sz: "bsize h b < sz + 24" by simp
    note t = taken_whole [OF sh sz]
    have same: "hm_next (mems ?h x) = hm_next (mems h x) \<and> (x \<noteq> b \<longrightarrow> hused ?h x = hused h x)" for x
      by (simp add: t(1) hused_def)
    have b: "hused ?h b" "bsize ?h b = bsize h b" by (simp_all add: t(1) hused_def bsize_def)
    have cong: "used_total xs ?h = used_total xs h" "allocated xs ?h = allocated xs h"
      "used_total ys ?h = used_total ys h" "allocated ys ?h = allocated ys h"
      by (rule blocks_cong; metis same d(1,2))+
    have nadj: "no_adj (hused ?h) (xs @ b # ys)" by (rule no_adj_more [OF adj]) (metis same b(1))
    have tot: "used_mem ?h = used_total (xs @ b # ys) ?h"
      using t(2) add [of "hm_next (mems h b) - b"] cong same [of b] b(1) by simp
    have samex: "hused ?h x = hused h x" if "x \<in> set xs" for x using that same [of x] d(1) by metis
    show ?thesis
      by (rule that [of ys "bsize h b"]) (use t(3) nadj tot cong samex b d(1,5) f(2) in auto)
  qed
qed

text \<open>The size a request is rounded to.\<close>

definition request :: "nat \<Rightarrow> nat" where
  "request sz0 = (if align4 sz0 < MIN_SIZE_ALIGNED then MIN_SIZE_ALIGNED else align4 sz0)"

lemma request_props:
  assumes "align4 sz0 \<le> mem_size_aligned h" "heap_shape bs h"
  shows "request sz0 \<le> mem_size_aligned h" "request sz0 mod 4 = 0" "12 \<le> request sz0"
    "sz0 + 3 < 2 ^ 32 \<Longrightarrow> sz0 \<le> request sz0"
  using assms heap_shapeD(7) [OF assms(2)]
  by (auto simp: request_def MIN_SIZE_ALIGNED_def align4_def)

lemma heap_assert_true [simp]: "b \<Longrightarrow> heap_assert b h = h"
  by (simp add: heap_assert_def)

lemma lfree_suffix:
  assumes sh: "heap_shape bs h" and lf: "lfree_ok bs h"
  obtains us vs where "bs = us @ vs" "\<And>x. x \<in> set us \<Longrightarrow> x < lfree h" "\<And>x. x \<in> set vs \<Longrightarrow> lfree h \<le> x"
    "hchain (mems h) (if us = [] then 0 else last us) (lfree h) vs (heap_end h)"
proof (cases "lfree h = heap_end h")
  case True
  have "x < lfree h" if "x \<in> set bs" for x
    using that True hchain_bounds(2) [OF heap_shapeD(1) [OF sh] that] by simp
  then show ?thesis using that [of bs "[]"] True by simp
next
  case False
  note s = heap_shapeD(1) [OF sh]
  obtain us ys where bs: "bs = us @ lfree h # ys" using False lf by (auto simp: lfree_ok_def dest: split_list)
  have "hchain (mems h) (if us = [] then 0 else last us) (lfree h) (lfree h # ys) (heap_end h)"
    using s bs by (simp add: hchain_mid)
  then show ?thesis
    using that [of us "lfree h # ys"] bs hchain_mid_distinct(4,5) [OF s [unfolded bs]] by fastforce
qed

lemma find_skip: "(\<And>x. x \<in> set us \<Longrightarrow> \<not> P x) \<Longrightarrow> find P (us @ vs) = find P vs"
  by (induction us) auto

lemma find_cong_set: "(\<And>x. x \<in> set vs \<Longrightarrow> P x = Q x) \<Longrightarrow> find P vs = find Q vs"
  by (induction vs) auto

lemma malloc_search_first_fit:
  assumes inv: "heap_inv bs h" and sz: "sz \<le> mem_size_aligned h"
  shows "malloc_search (heap_fuel h) (lfree h) sz h = Some (first_fit sz h bs)"
proof -
  have sh: "heap_shape bs h" and lf: "lfree_ok bs h" using inv by (simp_all add: heap_inv_def)
  note s = heap_shapeD [OF sh]
  obtain us vs where v: "bs = us @ vs" "\<And>x. x \<in> set us \<Longrightarrow> x < lfree h" "\<And>x. x \<in> set vs \<Longrightarrow> lfree h \<le> x"
    "hchain (mems h) (if us = [] then 0 else last us) (lfree h) vs (heap_end h)"
    using lfree_suffix [OF sh lf] by blast
  have "malloc_search (heap_fuel h) (lfree h) sz h = Some (find (fits sz h) vs)"
    using heap_fuel_enough [OF sh] v(1) s(3) by (intro malloc_search_find [OF v(4) s(2) _ sz]) simp_all
  moreover have "first_fit sz h bs = find (\<lambda>b. lfree h \<le> b \<and> fits sz h b) vs"
    unfolding first_fit_def v(1) using v(2) by (intro find_skip) fastforce
  moreover have "\<dots> = find (fits sz h) vs" using v(3) by (intro find_cong_set) simp
  ultimately show ?thesis by simp
qed

text \<open>With nothing free below \<^verbatim>\<open>lfree\<close> it is the first fit in the whole heap.\<close>

lemma first_fit_lowest: "lowest bs h \<Longrightarrow> first_fit sz h bs = find (fits sz h) bs"
  unfolding first_fit_def by (intro find_cong_set) (auto simp: lowest_def fits_def)

lemma find_SomeD:
  "find P xs = Some x \<Longrightarrow> \<exists>us vs. xs = us @ x # vs \<and> P x \<and> (\<forall>u\<in>set us. \<not> P u)"
proof (induction xs)
  case (Cons a xs)
  show ?case
  proof (cases "P a")
    case True
    then show ?thesis using Cons.prems by (auto intro: exI [of _ "[]"])
  next
    case False
    then obtain us vs where "xs = us @ x # vs" "P x" "\<forall>u\<in>set us. \<not> P u" using Cons by auto
    then show ?thesis using False by (intro exI [of _ "a # us"] exI [of _ vs]) simp
  qed
qed simp

lemma hused_lfree [simp]: "hused (h\<lparr>lfree := p\<rparr>) = hused h"
  by (simp add: hused_def fun_eq_iff)

text \<open>After a block was taken, the lowest free block is found again.\<close>

lemma lfree_after_take:
  assumes sh: "heap_shape (xs @ b # zs) h" and u: "hused h b" and lf: "lfree h = b"
  obtains p where "lfree_search (heap_fuel h) (lfree h) h = Some p" "lfree_ok (xs @ b # zs) (h\<lparr>lfree := p\<rparr>)"
    "p = heap_end h \<or> \<not> hused h p" "(\<And>x. x \<in> set xs \<Longrightarrow> hused h x) \<Longrightarrow> lowest (xs @ b # zs) (h\<lparr>lfree := p\<rparr>)"
proof -
  note s = heap_shapeD [OF sh]
  have ch: "hchain (mems h) (if xs = [] then 0 else last xs) b (b # zs) (heap_end h)" using s(1) by (simp add: hchain_mid)
  let ?p = "case find (\<lambda>x. \<not> hused h x) (b # zs) of None \<Rightarrow> heap_end h | Some x \<Rightarrow> x"
  have r: "lfree_search (heap_fuel h) (lfree h) h = Some ?p"
    unfolding lf using heap_fuel_enough [OF sh] by (intro lfree_search_find [OF ch]) simp
  have so: "sorted_wrt (<) (b # zs)" by (rule hchain_sorted [OF ch])
  show thesis
  proof (cases "find (\<lambda>x. \<not> hused h x) (b # zs)")
    case None
    then have "hused h x" if "x \<in> set (b # zs)" for x
      using that u by (auto simp: find_None_iff split: if_splits)
    then show thesis using that [of "heap_end h"] r None by (auto simp: lfree_ok_def lowest_def)
  next
    case (Some f)
    then obtain vs ws where f: "b # zs = vs @ f # ws" "\<not> hused h f" "\<forall>x\<in>set vs. hused h x"
      using find_SomeD [OF Some] by blast
    have "f \<le> x" if "x \<in> set (b # zs)" "\<not> hused h x" for x
    proof -
      have "x \<in> set (f # ws)" using that f(3) unfolding f(1) by auto
      then show ?thesis using so unfolding f(1) by (auto simp: sorted_wrt_append)
    qed
    moreover have "f \<in> set (b # zs)" unfolding f(1) by simp
    ultimately show thesis using that [of f] r Some f(2) by (auto simp: lfree_ok_def lowest_def)
  qed
qed

lemma heap_inv_lfree:
  "heap_shape bs (h\<lparr>lfree := p\<rparr>) = heap_shape bs h" "used_total bs (h\<lparr>lfree := p\<rparr>) = used_total bs h"
  "allocated bs (h\<lparr>lfree := p\<rparr>) = allocated bs h"
  by (simp_all add: heap_shape_def used_total_def allocated_def bsize_def cong: if_cong)

text \<open>Taking the block that was found, and moving \<^verbatim>\<open>lfree\<close> when it was the lowest free block.\<close>

lemma take_and_move:
  assumes inv: "heap_inv bs h" and b: "bs = xs @ b # ys" "\<not> hused h b" "lfree h \<le> b"
    and sz: "sz \<le> bsize h b" "sz mod 4 = 0" "4 \<le> sz"
  obtains p bs' n where
    "(if b = lfree (taken b sz h) then lfree_search (heap_fuel (taken b sz h)) (lfree (taken b sz h)) (taken b sz h)
      else Some (lfree (taken b sz h))) = Some p"
    "b = lfree (taken b sz h) \<Longrightarrow> p = heap_end h \<or> \<not> hused (taken b sz h) p"
    "heap_inv bs' ((taken b sz h)\<lparr>lfree := p\<rparr>)" "sz \<le> n"
    "allocated bs' ((taken b sz h)\<lparr>lfree := p\<rparr>) = allocated xs h @ (b, n) # allocated ys h"
    "lowest bs h \<Longrightarrow> lowest bs' ((taken b sz h)\<lparr>lfree := p\<rparr>)"
proof -
  note goal = that
  let ?h = "taken b sz h"
  have sh: "heap_shape (xs @ b # ys) h" and adj: "no_adj (hused h) (xs @ b # ys)" and lf: "lfree_ok (xs @ b # ys) h"
    and um: "used_mem h = used_total (xs @ b # ys) h" using inv b(1) by (simp_all add: heap_inv_def)
  note d = hchain_mid_distinct [OF heap_shapeD(1) [OF sh]]
  obtain zs n where t: "heap_shape (xs @ b # zs) ?h" "no_adj (hused ?h) (xs @ b # zs)"
    "used_mem ?h = used_total (xs @ b # zs) ?h" "sz \<le> n"
    "allocated (xs @ b # zs) ?h = allocated xs h @ (b, n) # allocated ys h"
    "\<And>x. x \<in> set xs \<Longrightarrow> hused ?h x = hused h x" "hused ?h b" "\<And>x. x \<in> set zs \<Longrightarrow> b < x"
    using taken_ok [OF sh b(2) sz adj um] by metis
  have res: thesis if p: "(if b = lfree ?h then lfree_search (heap_fuel ?h) (lfree ?h) ?h else Some (lfree ?h)) = Some p"
      "b = lfree ?h \<Longrightarrow> p = heap_end h \<or> \<not> hused ?h p" "lfree_ok (xs @ b # zs) (?h\<lparr>lfree := p\<rparr>)"
      "lowest bs h \<Longrightarrow> lowest (xs @ b # zs) (?h\<lparr>lfree := p\<rparr>)" for p
    by (rule goal [OF p(1,2), of "xs @ b # zs" n]) (use p(3,4) t in \<open>simp_all add: heap_inv_def heap_inv_lfree\<close>)
  show thesis
  proof (cases "b = lfree h")
    case True
    have "hused ?h x" if "x \<in> set xs" "lowest bs h" for x
      using that t(6) [OF that(1)] d(4) [OF that(1)] True b(1) by (force simp: lowest_def)
    then show thesis using lfree_after_take [OF t(1,7)] True res by (metis taken_fields(1,4))
  next
    case False
    have l: "lfree h \<in> set xs" "\<not> hused h (lfree h)"
      using lf b(3) False d(5) [of "lfree h"] hchain_bounds(2) [OF heap_shapeD(1) [OF sh], of b]
      by (auto simp: lfree_ok_def)
    have "lfree h \<le> x" if "x \<in> set (xs @ b # zs)" "\<not> hused ?h x" "lowest bs h" for x
      using that t(6,7,8) b(1,3) by (fastforce simp: lowest_def)
    moreover have "lfree_ok (xs @ b # zs) (?h\<lparr>lfree := lfree h\<rparr>)" using t(6) l by (auto simp: lfree_ok_def)
    ultimately show thesis using res [of "lfree h"] False by (simp add: lowest_def)
  qed
qed

lemma rt_malloc_ok:
  assumes inv: "heap_inv bs h" and sz: "sz0 \<noteq> 0" "align4 sz0 \<le> mem_size_aligned h"
  shows "first_fit (request sz0) h bs = None \<Longrightarrow> rt_malloc sz0 h = Some (h, None)"
    "first_fit (request sz0) h bs = Some b \<Longrightarrow>
      \<exists>h' bs' n us vs. rt_malloc sz0 h = Some (h', Some (heap_ptr h + b + 12)) \<and> heap_inv bs' h' \<and>
        request sz0 \<le> n \<and> allocated bs h = us @ vs \<and> allocated bs' h' = us @ (b, n) # vs \<and>
        heap_ptr h' = heap_ptr h \<and> mem_size_aligned h' = mem_size_aligned h \<and> mem_bytes h' = mem_bytes h \<and>
        heap_fault h' = heap_fault h \<and> (lowest bs h \<longrightarrow> lowest bs' h')"
proof -
  let ?sz = "request sz0"
  have sh: "heap_shape bs h" using inv by (simp add: heap_inv_def)
  note s = heap_shapeD [OF sh] and rq = request_props [OF sz(2) sh]
  note search = malloc_search_first_fit [OF inv rq(1)]
  note eq = rt_malloc_def [of sz0 h, unfolded Let_def request_def [symmetric] search, folded taken_def]
  show "first_fit ?sz h bs = None \<Longrightarrow> rt_malloc sz0 h = Some (h, None)"
    using sz by (simp add: eq)
  assume f: "first_fit ?sz h bs = Some b"
  then obtain xs ys where b: "bs = xs @ b # ys" and fb: "fits ?sz h b" "lfree h \<le> b"
    using find_SomeD [OF f [unfolded first_fit_def]] by blast
  have nb: "b + 12 \<le> hm_next (mems h b)" "hm_next (mems h b) \<le> heap_end h"
    using hchain_bounds(2) [OF s(1), of b] b by simp_all
  let ?h = "taken b ?sz h"
  have u: "\<not> hused h b" "?sz \<le> bsize h b" using fb(1) by (simp_all add: fits_def)
  have sz4: "4 \<le> ?sz" using rq(3) by simp
  from take_and_move [OF inv b u(1) fb(2) u(2) rq(2) sz4]
  obtain p bs' n where r: "(if b = lfree ?h then lfree_search (heap_fuel ?h) (lfree ?h) ?h else Some (lfree ?h)) = Some p"
    "b = lfree ?h \<Longrightarrow> p = heap_end h \<or> \<not> hused ?h p" "heap_inv bs' (?h\<lparr>lfree := p\<rparr>)" "?sz \<le> n"
    "allocated bs' (?h\<lparr>lfree := p\<rparr>) = allocated xs h @ (b, n) # allocated ys h"
    "lowest bs h \<Longrightarrow> lowest bs' (?h\<lparr>lfree := p\<rparr>)" by blast
  have a1: "b = lfree ?h \<longrightarrow> p = heap_end ?h \<or> hm_used (mems ?h p) = 0" using r(2) by (simp add: hused_def)
  have a2: "b + SIZEOF_STRUCT_MEM + ?sz \<le> heap_end h" using u(2) nb by (simp add: bsize_def SIZEOF_STRUCT_MEM_def)
  have a3: "(heap_ptr h + b) mod 4 = 0" "(heap_ptr h + b + SIZEOF_STRUCT_MEM) mod 4 = 0"
    using s(4) [of b] s(8) b unfolding SIZEOF_STRUCT_MEM_def by simp_all presburger+
  have m: "rt_malloc sz0 h = Some (?h\<lparr>lfree := p\<rparr>, Some (heap_ptr h + b + 12))"
    using sz unfolding eq f option.case r(1) heap_assert_true [OF a1]
    by (simp add: a2 a3 heap_assert_def) (simp add: SIZEOF_STRUCT_MEM_def)
  have "allocated bs h = allocated xs h @ allocated ys h" using b u(1) by simp
  then show "\<exists>h' bs' n us vs. rt_malloc sz0 h = Some (h', Some (heap_ptr h + b + 12)) \<and> heap_inv bs' h' \<and>
        request sz0 \<le> n \<and> allocated bs h = us @ vs \<and> allocated bs' h' = us @ (b, n) # vs \<and>
        heap_ptr h' = heap_ptr h \<and> mem_size_aligned h' = mem_size_aligned h \<and> mem_bytes h' = mem_bytes h \<and>
        heap_fault h' = heap_fault h \<and> (lowest bs h \<longrightarrow> lowest bs' h')"
    using m r(3-6) by (intro exI [of _ "?h\<lparr>lfree := p\<rparr>"] exI [of _ bs'] exI [of _ n] exI [of _ "allocated xs h"]
        exI [of _ "allocated ys h"]) simp
qed

section \<open>Joining free neighbours\<close>

definition join :: "nat \<Rightarrow> nat \<Rightarrow> heap_state \<Rightarrow> heap_state" where
  "join a n h = upd_mem (hm_next (mems h n)) (\<lambda>m. m\<lparr>hm_prev := a\<rparr>)
    (upd_mem a (\<lambda>m. m\<lparr>hm_next := hm_next (mems h n)\<rparr>) h)"

lemma join_fields [simp]:
  "heap_end (join a n h) = heap_end h" "heap_ptr (join a n h) = heap_ptr h"
  "mem_size_aligned (join a n h) = mem_size_aligned h" "lfree (join a n h) = lfree h"
  "used_mem (join a n h) = used_mem h" "mem_bytes (join a n h) = mem_bytes h" "heap_fault (join a n h) = heap_fault h"
  "hm_next (mems (join a n h) x) = (if x = a then hm_next (mems h n) else hm_next (mems h x))"
  "hm_magic (mems (join a n h) x) = hm_magic (mems h x)" "hused (join a n h) = hused h"
  by (auto simp: join_def hused_def fun_eq_iff)

text \<open>Joining \<open>a\<close> with its successor \<open>n\<close>; \<^verbatim>\<open>lfree\<close> follows when it was \<open>n\<close>.\<close>

definition joined :: "nat \<Rightarrow> nat \<Rightarrow> heap_state \<Rightarrow> heap_state" where
  "joined a n h = join a n (if lfree h = n then h\<lparr>lfree := a\<rparr> else h)"

lemma joined_fields [simp]:
  "heap_ptr (joined a n h) = heap_ptr h" "mem_size_aligned (joined a n h) = mem_size_aligned h"
  "used_mem (joined a n h) = used_mem h" "mem_bytes (joined a n h) = mem_bytes h"
  "heap_fault (joined a n h) = heap_fault h" "hused (joined a n h) = hused h" "heap_end (joined a n h) = heap_end h"
  by (simp_all add: joined_def)

lemma join_ok:
  assumes sh: "heap_shape (xs @ a # n # ys) h" and f: "\<not> hused h a" "\<not> hused h n"
  shows "heap_shape (xs @ a # ys) (joined a n h)"
    "used_total (xs @ a # ys) (joined a n h) = used_total (xs @ a # n # ys) h"
    "allocated (xs @ a # ys) (joined a n h) = allocated (xs @ a # n # ys) h"
    "lfree_ok (xs @ a # n # ys) h \<Longrightarrow> lfree_ok (xs @ a # ys) (joined a n h)"
    "lowest (xs @ a # n # ys) h \<Longrightarrow> lowest (xs @ a # ys) (joined a n h)"
proof -
  define g where "g = (if lfree h = n then h\<lparr>lfree := a\<rparr> else h)"
  have jg: "joined a n h = join a n g" by (simp add: joined_def g_def)
  have g: "mems g = mems h" "hused g = hused h" "lfree g = (if lfree h = n then a else lfree h)"
    "heap_end g = heap_end h" "used_total bs g = used_total bs h" "allocated bs g = allocated bs h"
    "heap_shape bs g = heap_shape bs h" for bs
    by (simp_all add: g_def heap_inv_lfree)
  have sg: "heap_shape (xs @ a # n # ys) g" using sh g by simp
  note s = heap_shapeD [OF sg] and d = hchain_mid_distinct [OF heap_shapeD(1) [OF sg]]
  have an: "a < n" using d(5) [of n] by simp
  have nn: "n + 16 \<le> hm_next (mems g n)" using hchain_bounds(2) [OF s(1), of n] by simp
  have "hchain (mems (join a n g)) 0 0 (xs @ a # ys) (heap_end g)"
    by (rule hchain_join [OF s(1)]) (use an nn in \<open>auto simp: join_def\<close>)
  then show "heap_shape (xs @ a # ys) (joined a n h)" using s unfolding heap_shape_def jg by simp
  have "a \<notin> set xs" "a \<notin> set ys" using d(1,2) by auto
  then have c: "used_total xs (join a n g) = used_total xs g" "used_total ys (join a n g) = used_total ys g"
    "allocated xs (join a n g) = allocated xs g" "allocated ys (join a n g) = allocated ys g"
    by (auto intro!: blocks_cong)
  show "used_total (xs @ a # ys) (joined a n h) = used_total (xs @ a # n # ys) h"
    "allocated (xs @ a # ys) (joined a n h) = allocated (xs @ a # n # ys) h"
    unfolding jg using f c g by simp_all
  show "lfree_ok (xs @ a # n # ys) h \<Longrightarrow> lfree_ok (xs @ a # ys) (joined a n h)"
    using f g(3) by (auto simp: lfree_ok_def jg g)
  show "lowest (xs @ a # n # ys) h \<Longrightarrow> lowest (xs @ a # ys) (joined a n h)"
    using f an by (auto simp: lowest_def jg g)
qed

text \<open>The list after a free block has absorbed a free successor.\<close>

definition absorb :: "heap_state \<Rightarrow> nat list \<Rightarrow> nat list" where
  "absorb h ys = (case ys of [] \<Rightarrow> [] | n # zs \<Rightarrow> if hused h n then ys else zs)"

lemma plug_holes_next_eq:
  assumes sh: "heap_shape (xs @ b # ys) h"
  shows "plug_holes_next b h = (case ys of [] \<Rightarrow> h | n # _ \<Rightarrow> if hused h n then h else joined b n h)"
proof -
  note s = heap_shapeD(1) [OF sh]
  have mid: "b + 16 \<le> hm_next (mems h b)" "hchain (mems h) b (hm_next (mems h b)) ys (heap_end h)"
    using s by (simp_all add: hchain_mid)
  show ?thesis
  proof (cases ys)
    case Nil
    then have "hm_next (mems h b) = heap_end h" using mid(2) by simp
    then show ?thesis using Nil by (simp add: plug_holes_next_def)
  next
    case (Cons n ws)
    then have n: "hm_next (mems h b) = n" using mid(2) by simp
    have "n \<noteq> b" "n \<noteq> heap_end h" using mid n hchain_bounds(2) [OF s, of n] Cons by auto
    then show ?thesis
      using Cons n by (simp add: plug_holes_next_def Let_def hused_def join_def joined_def)
  qed
qed

lemma plug_holes_next_ok:
  assumes sh: "heap_shape (xs @ b # ys) h" and f: "\<not> hused h b" and lf: "lfree_ok (xs @ b # ys) h"
    and na: "no_adj (hused h) ys"
  defines "h' \<equiv> plug_holes_next b h" and "zs \<equiv> absorb h ys"
  shows "heap_shape (xs @ b # zs) h'" "used_total (xs @ b # zs) h' = used_total (xs @ b # ys) h"
    "allocated (xs @ b # zs) h' = allocated (xs @ b # ys) h" "lfree_ok (xs @ b # zs) h'"
    "no_adj (hused h') (b # zs)" "hused h' = hused h" "used_mem h' = used_mem h" "heap_ptr h' = heap_ptr h"
    "mem_size_aligned h' = mem_size_aligned h" "mem_bytes h' = mem_bytes h" "heap_fault h' = heap_fault h"
    "lowest (xs @ b # ys) h \<Longrightarrow> lowest (xs @ b # zs) h'"
proof -
  consider (same) "h' = h" "zs = ys" "ys = [] \<or> hused h (hd ys)"
    | (joined) n ws where "ys = n # ws" "\<not> hused h n" "h' = joined b n h" "zs = ws"
    using plug_holes_next_eq [OF sh] by (cases ys) (auto simp: zs_def absorb_def h'_def)
  then have "heap_shape (xs @ b # zs) h' \<and> used_total (xs @ b # zs) h' = used_total (xs @ b # ys) h \<and>
    allocated (xs @ b # zs) h' = allocated (xs @ b # ys) h \<and> lfree_ok (xs @ b # zs) h' \<and>
    no_adj (hused h') (b # zs) \<and> hused h' = hused h \<and> used_mem h' = used_mem h \<and> heap_ptr h' = heap_ptr h \<and>
    mem_size_aligned h' = mem_size_aligned h \<and> mem_bytes h' = mem_bytes h \<and> heap_fault h' = heap_fault h \<and>
    (lowest (xs @ b # ys) h \<longrightarrow> lowest (xs @ b # zs) h')"
  proof cases
    case same
    then have "no_adj (hused h) (b # ys)" using na by (cases ys) auto
    then show ?thesis using same sh lf by simp
  next
    case joined
    note j = join_ok [OF sh [unfolded joined(1)] f joined(2)]
    have "no_adj (hused h) (b # ws)" using na joined(1,2) by (cases ws) auto
    then show ?thesis using j lf joined by simp
  qed
  then show "heap_shape (xs @ b # zs) h'" "used_total (xs @ b # zs) h' = used_total (xs @ b # ys) h"
    "allocated (xs @ b # zs) h' = allocated (xs @ b # ys) h" "lfree_ok (xs @ b # zs) h'"
    "no_adj (hused h') (b # zs)" "hused h' = hused h" "used_mem h' = used_mem h" "heap_ptr h' = heap_ptr h"
    "mem_size_aligned h' = mem_size_aligned h" "mem_bytes h' = mem_bytes h" "heap_fault h' = heap_fault h"
    "lowest (xs @ b # ys) h \<Longrightarrow> lowest (xs @ b # zs) h'"
    by blast+
qed

text \<open>What an operation leaves alone.\<close>

definition same_heap :: "heap_state \<Rightarrow> heap_state \<Rightarrow> bool" where
  "same_heap h' h \<longleftrightarrow> heap_ptr h' = heap_ptr h \<and> mem_size_aligned h' = mem_size_aligned h \<and>
    mem_bytes h' = mem_bytes h \<and> heap_fault h' = heap_fault h"

lemma plug_holes_prev_ok:
  assumes sh: "heap_shape (xs @ b # ys) h" and f: "\<not> hused h b" and lf: "lfree_ok (xs @ b # ys) h"
    and na: "no_adj (hused h) xs" "no_adj (hused h) (b # ys)" and um: "used_mem h = used_total (xs @ b # ys) h"
  obtains bs' where "heap_inv bs' (plug_holes_prev b h)" "allocated bs' (plug_holes_prev b h) = allocated (xs @ b # ys) h"
    "same_heap (plug_holes_prev b h) h" "lowest (xs @ b # ys) h \<Longrightarrow> lowest bs' (plug_holes_prev b h)"
proof (cases xs rule: rev_cases)
  case Nil
  then have "b = 0" "hm_prev (mems h b) = 0" using heap_shapeD(1) [OF sh] by auto
  then have "plug_holes_prev b h = h" by (simp add: plug_holes_prev_def)
  then show thesis using that [of "b # ys"] Nil sh lf na um by (simp add: heap_inv_def same_heap_def)
next
  case (snoc ws a)
  then have pr: "hm_prev (mems h b) = a" using heap_shapeD(1) [OF sh] by (simp add: hchain_mid)
  have ab: "a < b" using hchain_mid_distinct(4) [OF heap_shapeD(1) [OF sh], of a] snoc by simp
  show thesis
  proof (cases "hused h a")
    case True
    then have "plug_holes_prev b h = h" using pr by (simp add: plug_holes_prev_def hused_def)
    moreover have "no_adj (hused h) (xs @ b # ys)" using na True snoc by (simp add: no_adj_append)
    ultimately show thesis using that [of "xs @ b # ys"] sh lf um by (simp add: heap_inv_def same_heap_def)
  next
    case False
    have eq: "plug_holes_prev b h = joined a b h"
      using pr ab False by (simp add: plug_holes_prev_def Let_def hused_def join_def joined_def)
    have bs: "xs @ b # ys = ws @ a # b # ys" using snoc by simp
    note j = join_ok [OF sh [unfolded bs] False f]
    have "ys = [] \<or> hused h (hd ys)" "no_adj (hused h) ys" using na(2) f by (cases ys; simp)+
    then have "no_adj (hused h) (ws @ a # ys)" using na(1) snoc
      by (cases ys) (auto simp: no_adj_append)
    then show thesis using that [of "ws @ a # ys"] j lf um unfolding eq by (simp add: heap_inv_def same_heap_def bs)
  qed
qed

text \<open>Giving a block back.\<close>

lemma plug_holes_ok:
  assumes sh: "heap_shape (xs @ b # ys) h" and f: "\<not> hused h b" and lf: "lfree_ok (xs @ b # ys) h"
    and na: "no_adj (hused h) xs" "no_adj (hused h) ys" and um: "used_mem h = used_total (xs @ b # ys) h"
  obtains bs' where "heap_inv bs' (plug_holes b h)" "allocated bs' (plug_holes b h) = allocated (xs @ b # ys) h"
    "same_heap (plug_holes b h) h" "lowest (xs @ b # ys) h \<Longrightarrow> lowest bs' (plug_holes b h)"
proof -
  have "b < heap_end h" using hchain_bounds(2) [OF heap_shapeD(1) [OF sh], of b] by simp
  then have eq: "plug_holes b h = plug_holes_prev b (plug_holes_next b h)"
    using f by (simp add: plug_holes_def hused_def)
  note n = plug_holes_next_ok [OF sh f lf na(2)]
  have p: "\<not> hused (plug_holes_next b h) b" "no_adj (hused (plug_holes_next b h)) xs"
    "used_mem (plug_holes_next b h) = used_total (xs @ b # absorb h ys) (plug_holes_next b h)"
    using n(2,6,7) f na(1) um by simp_all
  from plug_holes_prev_ok [OF n(1) p(1) n(4) p(2) n(5) p(3)]
  obtain bs' where "heap_inv bs' (plug_holes b h)"
    "allocated bs' (plug_holes b h) = allocated (xs @ b # absorb h ys) (plug_holes_next b h)"
    "same_heap (plug_holes b h) (plug_holes_next b h)"
    "lowest (xs @ b # absorb h ys) (plug_holes_next b h) \<Longrightarrow> lowest bs' (plug_holes b h)"
    unfolding eq by blast
  then show thesis using that [of bs'] n(3,8-12) by (simp add: same_heap_def)
qed

lemma rt_free_ok:
  assumes inv: "heap_inv bs h" and b: "bs = xs @ b # ys" "hused h b"
  obtains bs' where "heap_inv bs' (rt_free (Some (heap_ptr h + b + 12)) h)"
    "allocated bs' (rt_free (Some (heap_ptr h + b + 12)) h) = allocated xs h @ allocated ys h"
    "same_heap (rt_free (Some (heap_ptr h + b + 12)) h) h"
    "lowest bs h \<Longrightarrow> lowest bs' (rt_free (Some (heap_ptr h + b + 12)) h)"
proof -
  have sh: "heap_shape (xs @ b # ys) h" and adj: "no_adj (hused h) (xs @ b # ys)" and lf: "lfree_ok (xs @ b # ys) h"
    and um: "used_mem h = used_total (xs @ b # ys) h" using inv b(1) by (simp_all add: heap_inv_def)
  note s = heap_shapeD [OF sh] and d = hchain_mid_distinct [OF heap_shapeD(1) [OF sh]]
  let ?r = "heap_ptr h + b + 12" and ?n = "hm_next (mems h b)"
  have nb: "b + 16 \<le> ?n" "?n \<le> heap_end h" using hchain_bounds(2) [OF s(1), of b] by simp_all
  have ih: "in_heap ?r h" using nb by (simp add: in_heap_def)
  have al: "?r mod 4 = 0" using s(4) [of b] s(8) by simp presburger
  have m: "mem_of ?r h = b"
    using sub32_le [of 12 "b + 12"] nb s(3) by (simp add: mem_of_def SIZEOF_STRUCT_MEM_def)
  define h4 where "h4 = h\<lparr>mems := (mems h)(b := (mems h b)\<lparr>hm_used := 0, hm_magic := HEAP_MAGIC\<rparr>),
    lfree := min b (lfree h), used_mem := sub32 (used_mem h) (?n - b)\<rparr>"
  have eq: "rt_free (Some ?r) h = plug_holes b h4"
  proof -
    have "sub32 ?n b = ?n - b" using nb s(3) by (intro sub32_le) simp_all
    then show ?thesis
      using ih al m b(2) s(5) [of b] by (simp add: rt_free_def Let_def hused_def h4_def upd_mem_def min_def)
  qed
  have same: "hm_next (mems h4 x) = hm_next (mems h x)" "hm_prev (mems h4 x) = hm_prev (mems h x)"
    "hused h4 x = (x \<noteq> b \<and> hused h x)" for x
    by (simp_all add: h4_def hused_def)
  have fields: "heap_end h4 = heap_end h" "heap_ptr h4 = heap_ptr h" "mem_size_aligned h4 = mem_size_aligned h"
    "mem_bytes h4 = mem_bytes h" "heap_fault h4 = heap_fault h" "lfree h4 = min b (lfree h)"
    by (simp_all add: h4_def)
  have "hchain (mems h4) 0 0 (xs @ b # ys) (heap_end h)" using s(1) same by (subst hchain_cong [of _ _ "mems h"]) simp_all
  moreover have "hm_magic (mems h4 x) = HEAP_MAGIC" if "x \<in> set (xs @ b # ys)" for x
    using s(5) [OF that] by (simp add: h4_def)
  ultimately have sh4: "heap_shape (xs @ b # ys) h4"
    using s nb unfolding heap_shape_def by (auto simp: fields same)
  have cong: "used_total xs h4 = used_total xs h" "allocated xs h4 = allocated xs h"
    "used_total ys h4 = used_total ys h" "allocated ys h4 = allocated ys h"
    by (rule blocks_cong; use same d(1,2) in auto)+
  have um4: "used_mem h4 = used_total (xs @ b # ys) h4"
  proof -
    have "0 + used_total (xs @ b # ys) h \<le> heap_end h" using used_total_le [OF s(1)] .
    then have "sub32 (used_mem h) (?n - b) = used_mem h - (?n - b)" using um b(2) s(3) by (intro sub32_le) simp_all
    then show ?thesis using um b(2) cong same by (simp add: h4_def)
  qed
  have lf4: "lfree_ok (xs @ b # ys) h4"
    using lf b(2) nb by (auto simp: lfree_ok_def fields same min_def)
  have na: "no_adj (hused h4) xs" "no_adj (hused h4) ys"
    using adj d(1,2) no_adj_cong [of xs "hused h4" "hused h"] no_adj_cong [of ys "hused h4" "hused h"] same
    by (auto simp: no_adj_append) (cases ys; auto)+
  have lo: "lowest (xs @ b # ys) h4" if "lowest bs h"
    using that b(1) by (auto simp: lowest_def fields same min_def)
  have "\<not> hused h4 b" by (simp add: same)
  from plug_holes_ok [OF sh4 this lf4 na um4]
  obtain bs' where "heap_inv bs' (plug_holes b h4)" "allocated bs' (plug_holes b h4) = allocated (xs @ b # ys) h4"
    "same_heap (plug_holes b h4) h4" "lowest (xs @ b # ys) h4 \<Longrightarrow> lowest bs' (plug_holes b h4)" by blast
  then show thesis using that [of bs'] lo unfolding eq by (simp add: fields same cong same_heap_def)
qed

end
