(* ===== verification/Realloc.thy ===== *)
theory Realloc
  imports Heap
begin

text \<open>
  A new heap satisfies the invariant, and \<open>rt_realloc\<close> and \<open>rt_calloc\<close> keep it: the contents of the block
  survive a change of its size, every other block keeps its place and contents, and the memory of
  \<open>rt_calloc\<close> is zero. The last section shows what \<open>rt_realloc\<close> does to \<^verbatim>\<open>lfree\<close>.
\<close>

section \<open>A new heap\<close>

lemma init_mod4:
  assumes "align4 b + 36 \<le> align4_down e"
  shows "(align4_down e - align4 b - 24) mod 4 = 0" "align4 b mod 4 = 0" "align4_down e \<le> e"
proof -
  show "align4 b mod 4 = 0" "align4_down e \<le> e" by (simp_all add: align4_def align4_down_def)
  moreover have "align4_down e mod 4 = 0" by (simp add: align4_down_def)
  ultimately show "(align4_down e - align4 b - 24) mod 4 = 0"
    using assms by (simp flip: dvd_eq_mod_eq_0 add: dvd_diff_nat)
qed

lemma rt_system_heap_init_fields:
  fixes h
  assumes "align4 begin_addr + 36 \<le> align4_down end_addr"
  defines "h' \<equiv> rt_system_heap_init begin_addr end_addr h"
    and "n \<equiv> align4_down end_addr - align4 begin_addr - 24"
  shows "heap_ptr h' = align4 begin_addr" "mem_size_aligned h' = n" "heap_end h' = n + 12" "lfree h' = 0"
    "mems h' 0 = \<lparr>hm_magic = HEAP_MAGIC, hm_used = 0, hm_next = n + 12, hm_prev = 0\<rparr>"
    "hm_used (mems h' (n + 12)) = 1" "used_mem h' = used_mem h" "heap_fault h' = heap_fault h"
proof -
  have "24 < align4_down end_addr" "align4 begin_addr \<le> align4_down end_addr - 24" using assms(1) by simp_all
  then show "heap_ptr h' = align4 begin_addr" "mem_size_aligned h' = n" "heap_end h' = n + 12" "lfree h' = 0"
    "mems h' 0 = \<lparr>hm_magic = HEAP_MAGIC, hm_used = 0, hm_next = n + 12, hm_prev = 0\<rparr>"
    "hm_used (mems h' (n + 12)) = 1" "used_mem h' = used_mem h" "heap_fault h' = heap_fault h"
    by (simp_all add: h'_def n_def rt_system_heap_init_def Let_def SIZEOF_STRUCT_MEM_def)
qed

lemma rt_system_heap_init_ok:
  assumes a: "end_addr < 2 ^ 32" "align4 begin_addr + 36 \<le> align4_down end_addr" and u: "used_mem h = 0"
  shows "heap_inv [0] (rt_system_heap_init begin_addr end_addr h)"
    "allocated [0] (rt_system_heap_init begin_addr end_addr h) = []"
    "lowest [0] (rt_system_heap_init begin_addr end_addr h)"
proof -
  define n where "n = align4_down end_addr - align4 begin_addr - 24"
  note f [simp] = rt_system_heap_init_fields [OF a(2), of h, folded n_def] and m = init_mod4 [OF a(2), folded n_def]
  have n: "12 \<le> n" "align4 begin_addr + n + 24 \<le> end_addr" using a(2) m(3) by (simp_all add: n_def)
  have us: "\<not> hused (rt_system_heap_init begin_addr end_addr h) 0" by (simp add: hused_def)
  have "heap_shape [0] (rt_system_heap_init begin_addr end_addr h)"
    unfolding heap_shape_def using a(1) m n by (simp add: hused_def)
  then show "heap_inv [0] (rt_system_heap_init begin_addr end_addr h)"
    using us u unfolding heap_inv_def by (simp add: lfree_ok_def used_total_def)
  show "allocated [0] (rt_system_heap_init begin_addr end_addr h) = []"
    "lowest [0] (rt_system_heap_init begin_addr end_addr h)"
    using us by (simp_all add: allocated_def lowest_def)
qed

section \<open>Resizing\<close>

lemma hused_bytes [simp]: "hused (h\<lparr>mem_bytes := f\<rparr>) = hused h"
  by (simp add: hused_def fun_eq_iff)

lemma heap_blocks_bytes [simp]:
  "used_total bs (h\<lparr>mem_bytes := f\<rparr>) = used_total bs h" "allocated bs (h\<lparr>mem_bytes := f\<rparr>) = allocated bs h"
  by (rule blocks_cong; simp)+

lemma heap_inv_bytes [simp]:
  "heap_inv bs (h\<lparr>mem_bytes := f\<rparr>) = heap_inv bs h" "lowest bs (h\<lparr>mem_bytes := f\<rparr>) = lowest bs h"
  by (simp_all add: heap_inv_def heap_shape_def lfree_ok_def lowest_def)

lemma allocatedD:
  assumes "(b, n) \<in> set (allocated bs h)"
  obtains xs ys where "bs = xs @ b # ys" "hused h b" "n = bsize h b" "allocated bs h = allocated xs h @ (b, n) # allocated ys h"
proof -
  have b: "b \<in> set bs" "hused h b" "n = bsize h b" using assms by (auto simp: allocated_def)
  from split_list [OF b(1)] obtain xs ys where "bs = xs @ b # ys" by blast
  then show thesis using that [of xs ys] b by simp
qed

lemma allocated_distinct:
  assumes "heap_shape bs h"
  shows "distinct (map fst (allocated bs h))"
proof -
  have "distinct bs" using hchain_sorted [OF heap_shapeD(1) [OF assms]] by (simp add: strict_sorted_iff)
  moreover have "map fst (allocated bs h) = filter (hused h) bs" by (simp add: allocated_def comp_def)
  ultimately show ?thesis by simp
qed

text \<open>Cutting a block in use: the rest is free and joined with a free successor.\<close>

lemma shrink_ok:
  assumes inv: "heap_inv bs h" and b: "bs = xs @ b # ys" "hused h b"
    and k: "k mod 4 = 0" "4 \<le> k" "k + 24 < bsize h b"
  defines "n \<equiv> hm_next (mems h b)" and "c \<equiv> b + 12 + k"
  defines "h3 \<equiv> (let h1 = h\<lparr>used_mem := sub32 (used_mem h) (sub32 (bsize h b) k),
                    mems := (mems h)
                      (c := \<lparr>hm_magic = HEAP_MAGIC, hm_used = 0, hm_next = n, hm_prev = b\<rparr>)\<rparr>;
                  h2 = upd_mem b (\<lambda>m. m\<lparr>hm_next := c\<rparr>) h1
              in if n \<noteq> heap_end h then upd_mem n (\<lambda>m. m\<lparr>hm_prev := c\<rparr>) h2 else h2)"
  obtains bs' where "heap_inv bs' (plug_holes c h3)"
    "allocated bs' (plug_holes c h3) = allocated xs h @ (b, k) # allocated ys h"
    "same_heap (plug_holes c h3) h"
proof -
  have sh: "heap_shape (xs @ b # ys) h" and adj: "no_adj (hused h) (xs @ b # ys)" and lf: "lfree_ok (xs @ b # ys) h"
    and um: "used_mem h = used_total (xs @ b # ys) h" using inv b(1) by (simp_all add: heap_inv_def)
  note s = heap_shapeD [OF sh] and d = hchain_mid_distinct [OF heap_shapeD(1) [OF sh]]
  have nb: "b + 16 \<le> n" "n \<le> heap_end h" "b mod 4 = 0"
    using hchain_bounds(2) [OF s(1), of b] s(4) by (simp_all add: n_def)
  have c: "b + 16 \<le> c" "c + 24 < n" using k nb by (simp_all add: c_def bsize_def n_def)
  have cn: "c \<notin> set xs" "c \<notin> set ys" "c \<noteq> b" using d(4) [of c] d(7) [of c] c nb by (auto simp: n_def)
  have m: "mems h3 = (let m2 = (mems h)
         (c := \<lparr>hm_magic = HEAP_MAGIC, hm_used = 0, hm_next = n, hm_prev = b\<rparr>, b := (mems h b)\<lparr>hm_next := c\<rparr>)
       in if n \<noteq> heap_end h then m2(n := (mems h n)\<lparr>hm_prev := c\<rparr>) else m2)"
    using c nb by (auto simp: h3_def Let_def fun_eq_iff)
  have nx: "hm_next (mems h3 x) = (if x = b then c else if x = c then n else hm_next (mems h x))"
    and us: "hused h3 x = (x \<noteq> c \<and> hused h x)" for x
    using c nb by (auto simp: m Let_def hused_def)
  have fields: "heap_end h3 = heap_end h" "heap_ptr h3 = heap_ptr h" "mem_size_aligned h3 = mem_size_aligned h"
    "mem_bytes h3 = mem_bytes h" "heap_fault h3 = heap_fault h" "lfree h3 = lfree h"
    "used_mem h3 = sub32 (used_mem h) (sub32 (bsize h b) k)"
    by (simp_all add: h3_def Let_def)
  have "hchain (mems h3) 0 0 (xs @ b # c # ys) (heap_end h)"
    by (rule hchain_split [OF s(1), of c]) (use c nb in \<open>auto simp: m Let_def n_def\<close>)
  moreover have "hm_magic (mems h3 x) = HEAP_MAGIC" if "x \<in> set (xs @ b # c # ys)" for x
    using that s(5) c nb by (auto simp: m Let_def)
  moreover have "c mod 4 = 0" using k(1) nb(3) unfolding c_def by presburger
  ultimately have "heap_shape (xs @ b # c # ys) h3"
    using s nb c unfolding heap_shape_def by (auto simp: us fields)
  then have sh3: "heap_shape ((xs @ [b]) @ c # ys) h3" by simp
  have cong: "used_total xs h3 = used_total xs h" "allocated xs h3 = allocated xs h"
    "used_total ys h3 = used_total ys h" "allocated ys h3 = allocated ys h"
    by (rule blocks_cong; use nx us d(1,2) cn in auto)+
  have um3: "used_mem h3 = used_total ((xs @ [b]) @ c # ys) h3"
  proof -
    have "0 + used_total (xs @ b # ys) h \<le> heap_end h" using used_total_le [OF s(1)] .
    moreover have "sub32 (bsize h b) k = bsize h b - k"
      using k(3) nb s(3) by (intro sub32_le) (simp_all add: bsize_def n_def)
    moreover have "bsize h b - k \<le> used_mem h" using um b(2) by (simp add: bsize_def)
    ultimately have "used_mem h3 = used_mem h - (bsize h b - k)" using um s(3) fields by (simp add: sub32_le)
    then show ?thesis using um b(2) cong nx us cn k(3) nb by (simp add: bsize_def c_def n_def)
  qed
  have lf3: "lfree_ok ((xs @ [b]) @ c # ys) h3"
    using lf b(2) by (auto simp: lfree_ok_def fields us)
  have na: "no_adj (hused h3) (xs @ [b])" "no_adj (hused h3) ys"
  proof -
    have "no_adj (hused h) (xs @ [b])" "no_adj (hused h) ys" using adj b(2) by (cases ys; simp add: no_adj_append)+
    then show "no_adj (hused h3) (xs @ [b])" "no_adj (hused h3) ys"
      using no_adj_cong [of "xs @ [b]" "hused h3" "hused h"] no_adj_cong [of ys "hused h3" "hused h"] cn us by auto
  qed
  have "\<not> hused h3 c" by (simp add: us)
  from plug_holes_ok [OF sh3 this lf3 na um3]
  obtain bs' where r: "heap_inv bs' (plug_holes c h3)"
    "allocated bs' (plug_holes c h3) = allocated ((xs @ [b]) @ c # ys) h3" "same_heap (plug_holes c h3) h3" by blast
  have "bsize h3 b = k" by (simp add: bsize_def nx c_def)
  then have "allocated ((xs @ [b]) @ c # ys) h3 = allocated xs h @ (b, k) # allocated ys h"
    using b(2) cong cn(3) by (simp add: us)
  then show thesis using that [of bs'] r by (simp add: same_heap_def fields)
qed

lemma align4_aligned:
  assumes "k mod 4 = 0" "k < 2 ^ 32"
  shows "align4 k = k"
proof -
  obtain q where "k = 4 * q" using assms(1) by auto
  moreover from this have "q < 2 ^ 30" using assms(2) by simp
  ultimately show ?thesis by (simp add: align4_def)
qed

text \<open>For the last three sizes the addition in \<^verbatim>\<open>RT_ALIGN\<close> wraps.\<close>

lemma align4_overflow:
  assumes "2 ^ 32 \<le> sz + 3" "sz < 2 ^ 32"
  shows "align4 sz = 0"
proof -
  have "(sz + 3) mod 2 ^ 32 = sz + 3 - 2 ^ 32" using assms le_mod_geq [of "2 ^ 32" "sz + 3"] by simp
  moreover have "sz + 3 - 2 ^ 32 < 4" using assms(2) by linarith
  ultimately show ?thesis by (simp add: align4_def)
qed

text \<open>What a resized block must be: the other blocks and the contents are as before.\<close>

definition resized :: "nat list \<Rightarrow> heap_state \<Rightarrow> nat \<times> nat \<Rightarrow> nat list \<Rightarrow> heap_state \<Rightarrow> nat \<times> nat \<Rightarrow> nat \<Rightarrow> bool" where
  "resized bs h old bs' h' new sz \<longleftrightarrow>
    heap_inv bs' h' \<and> sz \<le> snd new \<and> new \<in> set (allocated bs' h') \<and>
    set (allocated bs' h') - {new} = set (allocated bs h) - {old} \<and>
    heap_ptr h' = heap_ptr h \<and> mem_size_aligned h' = mem_size_aligned h \<and> heap_fault h' = heap_fault h \<and>
    (\<forall>i < min sz (snd old). mem_bytes h' (heap_ptr h + fst new + 12 + i) = mem_bytes h (heap_ptr h + fst old + 12 + i)) \<and>
    (\<forall>(c, m)\<in>set (allocated bs h) - {old}. \<forall>i < m.
       mem_bytes h' (heap_ptr h + c + 12 + i) = mem_bytes h (heap_ptr h + c + 12 + i))"

lemma allocated_same:
  assumes "heap_shape bs h" "(b, n) \<in> set (allocated bs h)" "(b, n') \<in> set (allocated bs h)"
  shows "n = n'"
  using assms by (auto simp: allocated_def)

text \<open>Moving to a new block: allocate, copy, give the old one back.\<close>

lemma moved_resized:
  assumes inv: "heap_inv bs h" and old: "(b, n) \<in> set (allocated bs h)"
    and inv': "heap_inv bs' h'" and new: "allocated bs h = us @ vs" "allocated bs' h' = us @ (b', n') # vs" "sz \<le> n'"
    and same: "heap_ptr h' = heap_ptr h" "mem_size_aligned h' = mem_size_aligned h" "mem_bytes h' = mem_bytes h"
      "heap_fault h' = heap_fault h"
  defines "h'' \<equiv> rt_free (Some (heap_ptr h + b + 12)) (copy_bytes (heap_ptr h + b' + 12) (heap_ptr h + b + 12) (min n sz) h')"
  shows "\<exists>bs''. resized bs h (b, n) bs'' h'' (b', n') sz"
proof -
  let ?c = "copy_bytes (heap_ptr h + b' + 12) (heap_ptr h + b + 12) (min n sz) h'"
  have sh': "heap_shape bs' h'" using inv' by (simp add: heap_inv_def)
  have c: "heap_inv bs' ?c" "allocated bs' ?c = allocated bs' h'" "hused ?c = hused h'" "heap_ptr ?c = heap_ptr h"
    "mem_size_aligned ?c = mem_size_aligned h" "heap_fault ?c = heap_fault h"
    using inv' same by (simp_all add: copy_bytes_def)
  have old': "(b, n) \<in> set (allocated bs' h')" using old new by auto
  then have oldc: "(b, n) \<in> set (allocated bs' ?c)" using c(2) by simp
  have dist: "distinct (map fst (allocated bs' h'))" using allocated_distinct [OF sh'] .
  then have ne: "c \<noteq> b'" if "(c, m) \<in> set (allocated bs h)" for c m using that new by force
  obtain xs ys where b: "bs' = xs @ b # ys" "hused ?c b"
    "allocated bs' ?c = allocated xs ?c @ (b, n) # allocated ys ?c" using allocatedD [OF oldc] by metis
  obtain bs'' where r: "heap_inv bs'' h''" "allocated bs'' h'' = allocated xs ?c @ allocated ys ?c" "same_heap h'' ?c"
    using rt_free_ok [OF c(1) b(1,2)] c(4) unfolding h''_def by metis
  have "distinct (allocated bs' h')" using dist distinct_map by blast
  then have al: "set (allocated bs'' h'') = set (allocated bs' h') - {(b, n)}" using r(2) b(3) c(2) by auto
  have bytes: "mem_bytes h'' = mem_bytes ?c" using r(3) by (simp add: same_heap_def)
  have outside: "mem_bytes ?c (heap_ptr h + c + 12 + i) = mem_bytes h (heap_ptr h + c + 12 + i)"
    if "(c, m) \<in> set (allocated bs h)" "i < m" for c m i
  proof -
    have m: "(c, m) \<in> set (allocated bs' h')" "(b', n') \<in> set (allocated bs' h')" using that(1) new by auto
    have "c < b' \<or> b' < c" using ne [OF that(1)] by linarith
    then have "\<not> (b' \<le> c + i \<and> c + i < b' + min n sz)"
      using allocated_disjoint [OF sh' m] allocated_disjoint [OF sh' m(2,1)] that(2) new(3) by auto
    then show ?thesis by (auto simp: copy_bytes_def same)
  qed
  have inside: "mem_bytes ?c (heap_ptr h + b' + 12 + i) = mem_bytes h (heap_ptr h + b + 12 + i)" if "i < min sz n" for i
    using that by (simp add: copy_bytes_def same)
  have "(b', n') \<in> set (allocated bs'' h'')" using al new ne [OF old] by auto
  moreover have "set (allocated bs'' h'') - {(b', n')} = set (allocated bs h) - {(b, n)}"
    using al new ne by auto
  moreover have "heap_ptr h'' = heap_ptr h" "mem_size_aligned h'' = mem_size_aligned h" "heap_fault h'' = heap_fault h"
    using r(3) c by (simp_all add: same_heap_def)
  ultimately have "resized bs h (b, n) bs'' h'' (b', n') sz"
    using r(1) new(3) outside inside unfolding resized_def bytes by auto
  then show ?thesis by blast
qed

lemma shrunk_resized:
  assumes inv: "heap_inv bs h" "heap_inv bs' h'" and al: "allocated bs h = us @ (b, n) # vs" "allocated bs' h' = us @ (b, k) # vs"
    and "same_heap h' h"
  shows "resized bs h (b, n) bs' h' (b, k) k"
proof -
  have "distinct (map fst (us @ (b, n) # vs))" using allocated_distinct [of bs h] inv(1) al(1) by (simp add: heap_inv_def)
  then have "(b, m) \<notin> set us" "(b, m) \<notin> set vs" for m by force+
  then show ?thesis using assms by (auto simp: resized_def same_heap_def)
qed

text \<open>
  \<^verbatim>\<open>rt_realloc\<close> fails only when the block has to move and no free block is found, which includes
  requests up to 24 bytes below the size of the block.
\<close>

lemma rt_realloc_ok:
  assumes inv: "heap_inv bs h" and old: "(b, n) \<in> set (allocated bs h)"
    and sz: "newsize0 \<noteq> 0" "newsize0 + 3 < 2 ^ 32" "align4 newsize0 \<le> mem_size_aligned h"
  shows "rt_realloc (Some (heap_ptr h + b + 12)) newsize0 h = Some (h, None) \<and>
      n \<noteq> align4 newsize0 \<and> n \<le> align4 newsize0 + 24 \<and> first_fit (request (align4 newsize0)) h bs = None \<or>
    (\<exists>h' bs' b' n'. rt_realloc (Some (heap_ptr h + b + 12)) newsize0 h = Some (h', Some (heap_ptr h + b' + 12)) \<and>
      resized bs h (b, n) bs' h' (b', n') (align4 newsize0))"
proof -
  let ?k = "align4 newsize0" and ?r = "heap_ptr h + b + 12"
  have sh: "heap_shape bs h" using inv by (simp add: heap_inv_def)
  note s = heap_shapeD [OF sh]
  obtain xs ys where b: "bs = xs @ b # ys" "hused h b" "n = bsize h b"
    "allocated bs h = allocated xs h @ (b, n) # allocated ys h" using allocatedD [OF old] by metis
  have k: "?k mod 4 = 0" "4 \<le> ?k" using sz by (auto simp: align4_def)
  have k3: "align4 ?k = ?k" using align4_aligned [OF k(1)] sz(3) s(3,2) by simp
  have nb: "b + 16 \<le> hm_next (mems h b)" "hm_next (mems h b) \<le> heap_end h"
    using hchain_bounds(2) [OF s(1), of b] b(1) by simp_all
  have ih: "in_heap ?r h" using nb by (simp add: in_heap_def)
  have m: "mem_of ?r h = b"
    using sub32_le [of 12 "b + 12"] nb s(3) by (simp add: mem_of_def SIZEOF_STRUCT_MEM_def)
  have n: "sub32 (sub32 (hm_next (mems h b)) b) SIZEOF_STRUCT_MEM = n"
    using nb s(3) b(3) by (simp add: sub32_le SIZEOF_STRUCT_MEM_def bsize_def)
  note eq = rt_realloc_def [of "Some ?r" newsize0 h, unfolded Let_def option.case m n]
  consider (same) "n = ?k" | (cut) "?k + 24 < n" | (move) "n \<noteq> ?k" "n \<le> ?k + 24" by linarith
  then show ?thesis
  proof cases
    case same
    then have "rt_realloc (Some ?r) newsize0 h = Some (h, Some ?r)" using sz k ih unfolding eq by simp
    moreover have "resized bs h (b, n) bs h (b, n) ?k"
      using shrunk_resized [OF inv inv b(4) b(4)] same by (simp add: same_heap_def)
    ultimately show ?thesis by blast
  next
    case cut
    have e: "mem_size_aligned h + SIZEOF_STRUCT_MEM = heap_end h" using s by (simp add: SIZEOF_STRUCT_MEM_def)
    have c: "?k + 24 < bsize h b" using cut b(3) by simp
    define h3 where "h3 = (let h1 = h\<lparr>used_mem := sub32 (used_mem h) (sub32 (bsize h b) ?k),
                    mems := (mems h) (b + 12 + ?k :=
                      \<lparr>hm_magic = HEAP_MAGIC, hm_used = 0, hm_next = hm_next (mems h b), hm_prev = b\<rparr>)\<rparr>;
                  h2 = upd_mem b (\<lambda>m. m\<lparr>hm_next := b + 12 + ?k\<rparr>) h1
              in if hm_next (mems h b) \<noteq> heap_end h then upd_mem (hm_next (mems h b)) (\<lambda>m. m\<lparr>hm_prev := b + 12 + ?k\<rparr>) h2
                 else h2)"
    from shrink_ok [OF inv b(1,2) k c, folded h3_def] obtain bs' where r: "heap_inv bs' (plug_holes (b + 12 + ?k) h3)"
      "allocated bs' (plug_holes (b + 12 + ?k) h3) = allocated xs h @ (b, ?k) # allocated ys h"
      "same_heap (plug_holes (b + 12 + ?k) h3) h" by metis
    have "rt_realloc (Some ?r) newsize0 h = Some (plug_holes (b + 12 + ?k) h3, Some ?r)"
      using cut sz k ih unfolding eq e h3_def b(3) Let_def by (simp add: SIZEOF_STRUCT_MEM_def MIN_SIZE_def)
    moreover have "resized bs h (b, n) bs' (plug_holes (b + 12 + ?k) h3) (b, ?k) ?k"
      using shrunk_resized [OF inv r(1) b(4) r(2,3)] .
    ultimately show ?thesis by blast
  next
    case move
    have eqm: "rt_realloc (Some ?r) newsize0 h = (case rt_malloc ?k h of
        None \<Rightarrow> None | Some (h', None) \<Rightarrow> Some (h', None)
      | Some (h', Some p) \<Rightarrow> Some (rt_free (Some ?r) (copy_bytes p ?r (min n ?k) h'), Some p))"
      using move sz k ih unfolding eq by (simp add: SIZEOF_STRUCT_MEM_def MIN_SIZE_def)
    note mal = rt_malloc_ok [OF inv, of ?k]
    show ?thesis
    proof (cases "first_fit (request ?k) h bs")
      case None
      then show ?thesis using mal(1) k k3 sz(3) move by (simp add: eqm)
    next
      case (Some b')
      obtain h' bs' n' us vs where r: "rt_malloc ?k h = Some (h', Some (heap_ptr h + b' + 12))" "heap_inv bs' h'"
        "request ?k \<le> n'" "allocated bs h = us @ vs" "allocated bs' h' = us @ (b', n') # vs" "heap_ptr h' = heap_ptr h"
        "mem_size_aligned h' = mem_size_aligned h" "mem_bytes h' = mem_bytes h" "heap_fault h' = heap_fault h"
        using mal(2) [OF _ _ Some] k k3 sz(3) by auto
      have "?k \<le> n'" using r(3) k3 by (simp add: request_def MIN_SIZE_ALIGNED_def split: if_splits)
      from moved_resized [OF inv old r(2,4,5) this r(6-9)] show ?thesis using r(1) by (auto simp: eqm)
    qed
  qed
qed

text \<open>\<^verbatim>\<open>rt_calloc\<close>: the block is zero and nothing else changes.\<close>

lemma rt_calloc_ok:
  assumes inv: "heap_inv bs h" and sz: "mul32 count sz \<noteq> 0" "mul32 count sz + 3 < 2 ^ 32" "align4 (mul32 count sz) \<le> mem_size_aligned h"
    and f: "first_fit (request (mul32 count sz)) h bs = Some b"
  shows "\<exists>h' bs' n us vs. rt_calloc count sz h = Some (h', Some (heap_ptr h + b + 12)) \<and> heap_inv bs' h' \<and>
      request (mul32 count sz) \<le> n \<and> allocated bs h = us @ vs \<and> allocated bs' h' = us @ (b, n) # vs \<and>
      (\<forall>i. mem_bytes h' i = (if heap_ptr h + b + 12 \<le> i \<and> i < heap_ptr h + b + 12 + mul32 count sz then 0 else mem_bytes h i))"
proof -
  obtain h' bs' n us vs where r: "rt_malloc (mul32 count sz) h = Some (h', Some (heap_ptr h + b + 12))" "heap_inv bs' h'"
    "request (mul32 count sz) \<le> n" "allocated bs h = us @ vs" "allocated bs' h' = us @ (b, n) # vs" "mem_bytes h' = mem_bytes h"
    using rt_malloc_ok(2) [OF inv sz(1,3) f] by blast
  then show ?thesis
    by (intro exI [of _ "fill_bytes (heap_ptr h + b + 12) 0 (mul32 count sz) h'"] exI [of _ bs'] exI [of _ n]
        exI [of _ us] exI [of _ vs]) (simp add: rt_calloc_def fill_bytes_def)
qed

section \<open>The heap as its clients see it\<close>

text \<open>The blocks in the order of their links, and those in use.\<close>

fun blocks_from :: "nat \<Rightarrow> nat \<Rightarrow> heap_state \<Rightarrow> nat list" where
  "blocks_from 0 p h = []"
| "blocks_from (Suc fuel) p h = (if p = heap_end h then [] else p # blocks_from fuel (hm_next (mems h p)) h)"

definition heap_blocks :: "heap_state \<Rightarrow> nat list" where
  "heap_blocks h = blocks_from (heap_fuel h) 0 h"

definition live :: "heap_state \<Rightarrow> (nat \<times> nat) list" where
  "live h = allocated (heap_blocks h) h"

definition heap_ok :: "heap_state \<Rightarrow> bool" where
  "heap_ok h \<longleftrightarrow> heap_inv (heap_blocks h) h"

lemma blocks_from_hchain:
  "hchain (mems h) q p bs (heap_end h) \<Longrightarrow> length bs < fuel \<Longrightarrow> blocks_from fuel p h = bs"
proof (induction bs arbitrary: q p fuel)
  case (Cons b bs)
  then obtain f where f: "fuel = Suc f" by (cases fuel) auto
  have "b \<noteq> heap_end h" using hchain_bounds(2) [OF Cons.prems(1), of b] by simp
  then show ?case using Cons f by auto
next
  case Nil
  then show ?case by (cases fuel) auto
qed

lemma heap_blocks_eq: "heap_inv bs h \<Longrightarrow> heap_blocks h = bs"
  using blocks_from_hchain heap_shapeD(1) heap_fuel_enough unfolding heap_blocks_def heap_inv_def by blast

lemma heap_okI: "heap_inv bs h \<Longrightarrow> heap_ok h" "heap_inv bs h \<Longrightarrow> live h = allocated bs h"
  by (simp_all add: heap_ok_def live_def heap_blocks_eq)

definition payload :: "heap_state \<Rightarrow> nat \<Rightarrow> addr" where
  "payload h b = heap_ptr h + b + 12"

text \<open>The block that \<open>rt_malloc\<close> hands out: the first free one, from \<^verbatim>\<open>lfree\<close> on, that is large enough.\<close>

definition malloc_block :: "nat \<Rightarrow> heap_state \<Rightarrow> nat option" where
  "malloc_block sz h = (if sz = 0 then None else first_fit (request sz) h (heap_blocks h))"

definition gains :: "nat \<Rightarrow> nat \<Rightarrow> heap_state \<Rightarrow> heap_state \<Rightarrow> bool" where
  "gains b n h h' \<longleftrightarrow> heap_ok h' \<and> request 1 \<le> n \<and> (\<exists>us vs. live h = us @ vs \<and> live h' = us @ (b, n) # vs) \<and>
    heap_ptr h' = heap_ptr h \<and> mem_size_aligned h' = mem_size_aligned h \<and> heap_fault h' = heap_fault h"

lemma first_fit_too_large: "mem_size_aligned h \<le> sz \<Longrightarrow> first_fit sz h bs = None"
  by (auto simp: first_fit_def find_None_iff fits_def)

lemma rt_malloc_refused:
  assumes "heap_ok h" "malloc_block sz h = None"
  shows "rt_malloc sz h = Some (h, None)"
proof (cases "sz = 0 \<or> mem_size_aligned h < align4 sz")
  case True
  then show ?thesis by (auto simp: rt_malloc_def Let_def)
next
  case False
  then show ?thesis
    using assms rt_malloc_ok(1) [of "heap_blocks h" h sz] by (simp add: heap_ok_def malloc_block_def)
qed

lemma rt_malloc_granted:
  assumes "heap_ok h" "malloc_block sz h = Some b"
  shows "\<exists>h' n. rt_malloc sz h = Some (h', Some (payload h b)) \<and> gains b n h h' \<and> request sz \<le> n \<and> mem_bytes h' = mem_bytes h"
proof -
  have ff: "first_fit (request sz) h (heap_blocks h) = Some b" and z: "sz \<noteq> 0"
    using assms(2) by (auto simp: malloc_block_def split: if_splits)
  have le: "align4 sz \<le> mem_size_aligned h"
  proof (rule ccontr)
    assume "\<not> align4 sz \<le> mem_size_aligned h"
    then have "mem_size_aligned h \<le> request sz" by (simp add: request_def)
    then show False using first_fit_too_large ff by simp
  qed
  from rt_malloc_ok(2) [OF assms(1) [unfolded heap_ok_def] z le ff]
  obtain h' bs' n us vs where r: "rt_malloc sz h = Some (h', Some (payload h b))" "heap_inv bs' h'" "request sz \<le> n"
    "live h = us @ vs" "allocated bs' h' = us @ (b, n) # vs" "heap_ptr h' = heap_ptr h"
    "mem_size_aligned h' = mem_size_aligned h" "mem_bytes h' = mem_bytes h" "heap_fault h' = heap_fault h"
    unfolding payload_def live_def by blast
  have "request 1 \<le> request sz" by (simp add: request_def align4_def MIN_SIZE_ALIGNED_def)
  then have "gains b n h h'" using r by (auto simp: gains_def heap_okI [OF r(2)])
  then show ?thesis using r by blast
qed

lemma rt_free_live:
  assumes "heap_ok h" "(b, n) \<in> set (live h)"
  defines "h' \<equiv> rt_free (Some (payload h b)) h"
  shows "heap_ok h'" "live h' = remove1 (b, n) (live h)" "same_heap h' h"
proof -
  let ?bs = "heap_blocks h"
  have inv: "heap_inv ?bs h" using assms(1) by (simp add: heap_ok_def)
  obtain xs ys where b: "?bs = xs @ b # ys" "hused h b" "live h = allocated xs h @ (b, n) # allocated ys h"
    using allocatedD [OF assms(2) [unfolded live_def]] unfolding live_def by metis
  obtain bs' where r: "heap_inv bs' h'" "allocated bs' h' = allocated xs h @ allocated ys h" "same_heap h' h"
    using rt_free_ok [OF inv b(1,2)] unfolding h'_def payload_def by metis
  have "distinct (map fst (live h))" using allocated_distinct inv by (simp add: live_def heap_inv_def)
  then have "(b, n) \<notin> set (allocated xs h)" using b(3) by force
  then show "heap_ok h'" "live h' = remove1 (b, n) (live h)" "same_heap h' h"
    using r b(3) by (simp_all add: heap_okI [OF r(1)] remove1_append)
qed

text \<open>Blocks in use are aligned, inside the heap and apart.\<close>

lemma live_apart:
  assumes "heap_shape (heap_blocks h) h"
  shows "(b, n) \<in> set (live h) \<Longrightarrow> payload h b mod 4 = 0 \<and> payload h b + n \<le> heap_ptr h + heap_end h"
    "(b, n) \<in> set (live h) \<Longrightarrow> (b', n') \<in> set (live h) \<Longrightarrow> b \<noteq> b' \<Longrightarrow>
      payload h b + n \<le> payload h b' \<or> payload h b' + n' \<le> payload h b"
proof -
  show "payload h b mod 4 = 0 \<and> payload h b + n \<le> heap_ptr h + heap_end h" if "(b, n) \<in> set (live h)"
  proof -
    have "b + 12 + n \<le> heap_end h" "b mod 4 = 0" "heap_ptr h mod 4 = 0"
      using allocated_inside [OF assms] that heap_shapeD(8) [OF assms] by (simp_all add: live_def)
    moreover from this have "(heap_ptr h + b + 12) mod 4 = 0" by presburger
    ultimately show ?thesis by (simp add: payload_def)
  qed
  show "payload h b + n \<le> payload h b' \<or> payload h b' + n' \<le> payload h b"
    if "(b, n) \<in> set (live h)" "(b', n') \<in> set (live h)" "b \<noteq> b'"
    using that allocated_disjoint [OF assms, of b n b' n'] allocated_disjoint [OF assms, of b' n' b n]
    by (auto simp: live_def payload_def neq_iff)
qed

lemma live_used_mem:
  assumes "heap_ok h"
  shows "used_mem h = sum_list (map (\<lambda>(b, n). n + 12) (live h))"
proof -
  have "used_total bs h = sum_list (map (\<lambda>(b, n). n + 12) (allocated bs h))"
    if "\<And>b. b \<in> set bs \<Longrightarrow> b + 16 \<le> hm_next (mems h b)" for bs
    using that by (induction bs) (force simp: bsize_def)+
  moreover have "b + 16 \<le> hm_next (mems h b)" if "b \<in> set (heap_blocks h)" for b
    using assms hchain_bounds(2) heap_shapeD(1) that unfolding heap_ok_def heap_inv_def by blast
  ultimately show ?thesis using assms by (simp add: heap_ok_def heap_inv_def live_def)
qed

lemma heap_ok_size: "heap_ok h \<Longrightarrow> 12 \<le> mem_size_aligned h"
  by (simp add: heap_ok_def heap_inv_def heap_shape_def)

lemma rt_free_gained:
  assumes "gains b n h h'"
  shows "heap_ok (rt_free (Some (payload h b)) h')" "live (rt_free (Some (payload h b)) h') = live h"
    "same_heap (rt_free (Some (payload h b)) h') h'"
proof -
  have g: "heap_ok h'" "heap_ptr h' = heap_ptr h" using assms by (simp_all add: gains_def)
  obtain us vs where l: "live h = us @ vs" "live h' = us @ (b, n) # vs" using assms by (auto simp: gains_def)
  have "distinct (map fst (live h'))" using allocated_distinct g(1) by (simp add: live_def heap_ok_def heap_inv_def)
  then have "(b, n) \<notin> set us" using l(2) by force
  moreover have "payload h' b = payload h b" using g(2) by (simp add: payload_def)
  ultimately show "heap_ok (rt_free (Some (payload h b)) h')" "live (rt_free (Some (payload h b)) h') = live h"
    "same_heap (rt_free (Some (payload h b)) h') h'"
    using rt_free_live [OF g(1), of b n] l by (simp_all add: remove1_append)
qed

lemma rt_realloc_live:
  assumes "heap_ok h" "(b, n) \<in> set (live h)" "newsize \<noteq> 0" "newsize + 3 < 2 ^ 32" "align4 newsize \<le> mem_size_aligned h"
  shows "rt_realloc (Some (payload h b)) newsize h = Some (h, None) \<and>
      n \<noteq> align4 newsize \<and> n \<le> align4 newsize + 24 \<and> malloc_block (align4 newsize) h = None \<or>
    (\<exists>h' b' n'. rt_realloc (Some (payload h b)) newsize h = Some (h', Some (payload h b')) \<and> heap_ok h' \<and>
      (b', n') \<in> set (live h') \<and> newsize \<le> n' \<and> set (live h') - {(b', n')} = set (live h) - {(b, n)} \<and>
      (\<forall>i < min newsize n. mem_bytes h' (payload h b' + i) = mem_bytes h (payload h b + i)) \<and>
      (\<forall>(c, m)\<in>set (live h) - {(b, n)}. \<forall>i < m. mem_bytes h' (payload h c + i) = mem_bytes h (payload h c + i)))"
    (is "?fails \<or> ?moves")
proof -
  have le: "newsize \<le> align4 newsize" using assms(4) by (simp add: align4_def)
  from rt_realloc_ok [OF assms(1) [unfolded heap_ok_def] assms(2) [unfolded live_def] assms(3-5)]
  consider ?fails
    | h' bs' b' n' where "rt_realloc (Some (payload h b)) newsize h = Some (h', Some (payload h b'))"
        "resized (heap_blocks h) h (b, n) bs' h' (b', n') (align4 newsize)"
    using assms(3) le by (auto simp: payload_def malloc_block_def)
  then show ?thesis
  proof cases
    case 2
    have r: "heap_inv bs' h'" using 2(2) by (simp add: resized_def)
    note p = 2(2) [unfolded resized_def fst_conv snd_conv heap_okI(2) [OF r, symmetric] live_def [of h, symmetric]
        payload_def [symmetric]]
    have "newsize \<le> n'" using p le by linarith
    moreover have "\<forall>i < min newsize n. mem_bytes h' (payload h b' + i) = mem_bytes h (payload h b + i)"
      using p le by (simp add: min_def split: if_splits)
    ultimately have ?moves using 2(1) p heap_okI(1) [OF r] by blast
    then show ?thesis ..
  qed simp
qed

text \<open>
  What the clients may do with the heap: initialise it, ask for memory, resize a block in use, give one
  back, and write to the bytes.
\<close>

inductive heap_reach :: "heap_state \<Rightarrow> bool" where
  heap_reach_init: "end_addr < 2 ^ 32 \<Longrightarrow> align4 begin_addr + 36 \<le> align4_down end_addr \<Longrightarrow> used_mem h = 0 \<Longrightarrow>
    \<not> heap_fault h \<Longrightarrow> heap_reach (rt_system_heap_init begin_addr end_addr h)"
| heap_reach_malloc: "heap_reach h \<Longrightarrow> rt_malloc sz h = Some (h', p) \<Longrightarrow> heap_reach h'"
| heap_reach_calloc: "heap_reach h \<Longrightarrow> rt_calloc count sz h = Some (h', p) \<Longrightarrow> heap_reach h'"
| heap_reach_realloc: "heap_reach h \<Longrightarrow> (b, n) \<in> set (live h) \<Longrightarrow> sz < 2 ^ 32 \<Longrightarrow>
    rt_realloc (Some (payload h b)) sz h = Some (h', p) \<Longrightarrow> heap_reach h'"
| heap_reach_free: "heap_reach h \<Longrightarrow> (b, n) \<in> set (live h) \<Longrightarrow> heap_reach (rt_free (Some (payload h b)) h)"
| heap_reach_write: "heap_reach h \<Longrightarrow> heap_reach (h\<lparr>mem_bytes := f\<rparr>)"

lemma heap_ok_bytes [simp]: "heap_ok (h\<lparr>mem_bytes := f\<rparr>) = heap_ok h" "live (h\<lparr>mem_bytes := f\<rparr>) = live h"
proof -
  have "blocks_from k p (h\<lparr>mem_bytes := f\<rparr>) = blocks_from k p h" for k p by (induction k arbitrary: p) auto
  then have "heap_blocks (h\<lparr>mem_bytes := f\<rparr>) = heap_blocks h" by (simp add: heap_blocks_def heap_fuel_def)
  then show "heap_ok (h\<lparr>mem_bytes := f\<rparr>) = heap_ok h" "live (h\<lparr>mem_bytes := f\<rparr>) = live h"
    by (simp_all add: heap_ok_def live_def)
qed

lemma rt_malloc_keeps:
  assumes "heap_ok h" "\<not> heap_fault h"
  shows "\<exists>h' p. rt_malloc sz h = Some (h', p) \<and> heap_ok h' \<and> \<not> heap_fault h'"
  using assms rt_malloc_refused [of h sz] rt_malloc_granted [of h sz]
  by (cases "malloc_block sz h") (auto simp: gains_def)

lemma rt_realloc_keeps:
  assumes ok: "heap_ok h" "\<not> heap_fault h" and b: "(b, n) \<in> set (live h)" and sz: "sz < 2 ^ 32"
  shows "\<exists>h' p. rt_realloc (Some (payload h b)) sz h = Some (h', p) \<and> heap_ok h' \<and> \<not> heap_fault h'"
proof -
  consider "mem_size_aligned h < align4 sz" | "align4 sz = 0" | "align4 sz \<noteq> 0" "align4 sz \<le> mem_size_aligned h" by linarith
  then show ?thesis
  proof cases
    case 1
    then show ?thesis using ok by (simp add: rt_realloc_def)
  next
    case 2
    then show ?thesis using rt_free_live [OF ok(1) b] ok(2) by (simp add: rt_realloc_def same_heap_def)
  next
    case 3
    have "sz \<noteq> 0" using 3(1) by (auto simp: align4_def)
    moreover have "sz + 3 < 2 ^ 32" using align4_overflow [OF _ sz] 3(1) by (meson not_less)
    ultimately consider "rt_realloc (Some (payload h b)) sz h = Some (h, None)"
      | h' bs' b' n' where "rt_realloc (Some (payload h b)) sz h = Some (h', Some (heap_ptr h + b' + 12))"
        "resized (heap_blocks h) h (b, n) bs' h' (b', n') (align4 sz)"
      using rt_realloc_ok [OF ok(1) [unfolded heap_ok_def] b [unfolded live_def] _ _ 3(2)] unfolding payload_def by blast
    then show ?thesis using ok by cases (auto simp: resized_def dest: heap_okI(1))
  qed
qed

lemma heap_reach_ok: "heap_reach h \<Longrightarrow> heap_ok h \<and> \<not> heap_fault h"
proof (induction rule: heap_reach.induct)
  case (heap_reach_init e b h)
  then show ?case using rt_system_heap_init_ok(1) rt_system_heap_init_fields(8) heap_okI(1) by metis
next
  case (heap_reach_malloc h sz h' p)
  then show ?case using rt_malloc_keeps [of h sz] by auto
next
  case (heap_reach_calloc h count sz h' p)
  then show ?case using rt_malloc_keeps [of h "mul32 count sz"]
    by (auto simp: rt_calloc_def fill_bytes_def split: option.splits)
next
  case (heap_reach_realloc h b n sz h' p)
  then show ?case using rt_realloc_keeps [of h b n sz] by auto
next
  case (heap_reach_free h b n)
  then show ?case using rt_free_live [of h b n] by (simp add: same_heap_def)
qed simp

section \<open>Where the code falls short\<close>

text \<open>
  \<open>rt_realloc\<close> cuts a block without lowering \<^verbatim>\<open>lfree\<close>: the rest is free, but \<open>rt_malloc\<close> does not see it.
  A heap of 200 bytes: two blocks take all of it, the first one is cut to 20 bytes.
\<close>

definition zero_heap :: heap_state where
  "zero_heap = \<lparr>heap_ptr = 0, heap_end = 0, mems = (\<lambda>_. \<lparr>hm_magic = 0, hm_used = 0, hm_next = 0, hm_prev = 0\<rparr>),
    mem_bytes = (\<lambda>_. 0), lfree = 0, mem_size_aligned = 0, used_mem = 0, max_mem = 0, heap_fault = False\<rparr>"

definition small_heap :: heap_state where
  "small_heap = rt_system_heap_init 0x20000000 0x200000e0 zero_heap"

definition after :: "(heap_state \<times> addr option) option \<Rightarrow> heap_state" where
  "after r = fst (the r)"

lemma searches_numeral:
  "malloc_search (numeral k) p sz h =
    (if p < sub32 (mem_size_aligned h) sz then
       if hm_used (mems h p) = 0 \<and> sub32 (hm_next (mems h p)) (p + SIZEOF_STRUCT_MEM) \<ge> sz then Some (Some p)
       else malloc_search (pred_numeral k) (hm_next (mems h p)) sz h
     else Some None)"
  "lfree_search (numeral k) p h =
    (if hm_used (mems h p) \<noteq> 0 \<and> p \<noteq> heap_end h then lfree_search (pred_numeral k) (hm_next (mems h p)) h else Some p)"
  "blocks_from (numeral k) p h = (if p = heap_end h then [] else p # blocks_from (pred_numeral k) (hm_next (mems h p)) h)"
  by (simp_all add: numeral_eq_Suc)

lemmas heap_eval = searches_numeral rt_malloc_def rt_free_def rt_realloc_def plug_holes_def plug_holes_next_def
  plug_holes_prev_def malloc_take_def upd_mem_def heap_assert_def heap_fuel_def in_heap_def mem_of_def Let_def
  align4_def align4_down_def sub32_def add32_def SIZEOF_STRUCT_MEM_def MIN_SIZE_def MIN_SIZE_ALIGNED_def
  HEAP_MAGIC_def after_def payload_def

lemma small_heap_eq:
  "small_heap = zero_heap\<lparr>heap_ptr := 0x20000000, heap_end := 212, mem_size_aligned := 200, lfree := 0,
     mems := (mems zero_heap)
       (0 := \<lparr>hm_magic = HEAP_MAGIC, hm_used = 0, hm_next = 212, hm_prev = 0\<rparr>,
        212 := \<lparr>hm_magic = HEAP_MAGIC, hm_used = 1, hm_next = 212, hm_prev = 212\<rparr>)\<rparr>"
  by (simp add: small_heap_def zero_heap_def rt_system_heap_init_def heap_eval)

definition small_heap_full :: heap_state where
  "small_heap_full = after (rt_malloc 84 (after (rt_malloc 100 small_heap)))"

text \<open>The two blocks, then the first one cut: the rest (block 32 of 68 bytes) is free, \<^verbatim>\<open>lfree\<close> is the end.\<close>

definition small_heap_cut :: heap_state where
  "small_heap_cut = after (rt_realloc (Some (payload small_heap_full 0)) 20 small_heap_full)"

abbreviation link :: "nat \<Rightarrow> nat \<Rightarrow> nat \<Rightarrow> heap_mem" where
  "link u n p \<equiv> \<lparr>hm_magic = HEAP_MAGIC, hm_used = u, hm_next = n, hm_prev = p\<rparr>"

lemma small_heap_malloc:
  "rt_malloc 100 small_heap = Some (zero_heap\<lparr>heap_ptr := 0x20000000, heap_end := 212, mem_size_aligned := 200, lfree := 112,
     mems := (mems zero_heap)(212 := link 1 212 212, 112 := link 0 212 0, 0 := link 1 112 0),
     used_mem := 112, max_mem := 112\<rparr>, Some 0x2000000c)"
  by (simp add: small_heap_eq zero_heap_def heap_eval)

lemma small_heap_malloc2:
  "rt_malloc 84 (zero_heap\<lparr>heap_ptr := 0x20000000, heap_end := 212, mem_size_aligned := 200, lfree := 112,
     mems := (mems zero_heap)(212 := link 1 212 212, 112 := link 0 212 0, 0 := link 1 112 0),
     used_mem := 112, max_mem := 112\<rparr>) = Some (zero_heap\<lparr>heap_ptr := 0x20000000, heap_end := 212, mem_size_aligned := 200, lfree := 212,
     mems := (mems zero_heap)(212 := link 1 212 212, 0 := link 1 112 0, 112 := link 1 212 0),
     used_mem := 212, max_mem := 212\<rparr>, Some 0x2000007c)"
  by (simp add: zero_heap_def heap_eval)

lemma small_heap_full_eq:
  "rt_malloc 84 (after (rt_malloc 100 small_heap)) = Some (small_heap_full, Some 0x2000007c)"
  "small_heap_full = zero_heap\<lparr>heap_ptr := 0x20000000, heap_end := 212, mem_size_aligned := 200, lfree := 212,
     mems := (mems zero_heap)(212 := link 1 212 212, 0 := link 1 112 0, 112 := link 1 212 0),
     used_mem := 212, max_mem := 212\<rparr>"
  unfolding small_heap_full_def small_heap_malloc after_def option.sel fst_conv small_heap_malloc2 by (rule refl)+

lemma small_heap_cut_eq:
  "rt_realloc (Some (payload small_heap_full 0)) 20 small_heap_full = Some (small_heap_cut, Some 0x2000000c)"
  "small_heap_cut = zero_heap\<lparr>heap_ptr := 0x20000000, heap_end := 212, mem_size_aligned := 200, lfree := 212,
     mems := (mems zero_heap)(212 := link 1 212 212, 32 := link 0 112 0, 0 := link 1 32 0, 112 := link 1 212 32),
     used_mem := 132, max_mem := 212\<rparr>"
  by (simp_all add: small_heap_cut_def small_heap_full_eq(2) zero_heap_def heap_eval)

lemma small_heap_blocks:
  "live small_heap_full = [(0, 100), (112, 88)]" "heap_blocks small_heap_cut = [0, 32, 112]"
  "fits (request 40) small_heap_cut 32" "rt_malloc 40 small_heap_cut = Some (small_heap_cut, None)"
  by (simp_all add: small_heap_full_eq small_heap_cut_eq zero_heap_def heap_eval live_def heap_blocks_def
      allocated_def hused_def bsize_def fits_def request_def)

lemma small_heap_full_size: "mem_size_aligned small_heap_full = 200"
  by (simp add: small_heap_full_eq)

lemma small_heap_reach: "heap_reach small_heap" "heap_reach small_heap_full" "heap_reach small_heap_cut"
proof -
  show a: "heap_reach small_heap"
    unfolding small_heap_def by (rule heap_reach_init) (simp_all add: align4_def align4_down_def zero_heap_def)
  have "heap_reach (after (rt_malloc 100 small_heap))"
    using heap_reach_malloc [OF a small_heap_malloc] by (simp add: small_heap_malloc after_def)
  from heap_reach_malloc [OF this small_heap_full_eq(1)] show b: "heap_reach small_heap_full" .
  show "heap_reach small_heap_cut"
    by (rule heap_reach_realloc [OF b _ _ small_heap_cut_eq(1), of 100]) (simp_all add: small_heap_blocks)
qed

lemma small_heap_block: "malloc_block 100 small_heap = Some 0"
  by (simp add: small_heap_eq zero_heap_def malloc_block_def first_fit_def heap_blocks_def heap_eval fits_def hused_def
      bsize_def request_def)

end
