(* ===== verification/RtList.thy ===== *)
theory RtList
  imports Scheduler
begin

text \<open>
  The doubly and singly linked lists of \<^verbatim>\<open>rt-thread/include/rtservice.h\<close> at the level of their
  pointers. A node is identified by its address; \<open>l_next\<close> and \<open>l_prev\<close> are the memory of the links. Every
  assignment is one update, in the order of the source, since the nodes may be the same. A list is
  shown to be what the other theories take it for: a sequence without repetitions, on which inserting, removing,
  testing for emptiness and counting are the operations on HOL lists, and which no operation on another list changes.
  The last section relates the queues \<open>tq\<close> of the kernel state to the links through \<^verbatim>\<open>thread->tlist\<close>.
\<close>

section \<open>Operations\<close>

record 'a rt_list =
  l_next :: "'a \<Rightarrow> 'a"
  l_prev :: "'a \<Rightarrow> 'a"

definition set_next :: "'a \<Rightarrow> 'a \<Rightarrow> 'a rt_list \<Rightarrow> 'a rt_list" where
  "set_next n v m = m\<lparr>l_next := (l_next m)(n := v)\<rparr>"

definition set_prev :: "'a \<Rightarrow> 'a \<Rightarrow> 'a rt_list \<Rightarrow> 'a rt_list" where
  "set_prev n v m = m\<lparr>l_prev := (l_prev m)(n := v)\<rparr>"

lemma set_links [simp]:
  "l_next (set_next n v m) = (l_next m)(n := v)" "l_prev (set_next n v m) = l_prev m"
  "l_prev (set_prev n v m) = (l_prev m)(n := v)" "l_next (set_prev n v m) = l_next m"
  by (simp_all add: set_next_def set_prev_def)

definition rt_list_init :: "'a \<Rightarrow> 'a rt_list \<Rightarrow> 'a rt_list" where
  "rt_list_init l m = set_next l l (set_prev l l m)"

definition rt_list_insert_after :: "'a \<Rightarrow> 'a \<Rightarrow> 'a rt_list \<Rightarrow> 'a rt_list" where
  "rt_list_insert_after l n m =
    (let m1 = set_prev (l_next m l) n m;
         m2 = set_next n (l_next m1 l) m1;
         m3 = set_next l n m2
     in set_prev n l m3)"

definition rt_list_insert_before :: "'a \<Rightarrow> 'a \<Rightarrow> 'a rt_list \<Rightarrow> 'a rt_list" where
  "rt_list_insert_before l n m =
    (let m1 = set_next (l_prev m l) n m;
         m2 = set_prev n (l_prev m1 l) m1;
         m3 = set_prev l n m2
     in set_next n l m3)"

definition rt_list_remove :: "'a \<Rightarrow> 'a rt_list \<Rightarrow> 'a rt_list" where
  "rt_list_remove n m =
    (let m1 = set_prev (l_next m n) (l_prev m n) m;
         m2 = set_next (l_prev m1 n) (l_next m1 n) m1
     in set_next n n (set_prev n n m2))"

definition rt_list_isempty :: "'a \<Rightarrow> 'a rt_list \<Rightarrow> bool" where
  "rt_list_isempty l m \<longleftrightarrow> l_next m l = l"

text \<open>The loop of \<open>rt_list_len\<close>: \<open>None\<close> when it does not come back to the head.\<close>

partial_function (option) list_len_loop :: "'a \<Rightarrow> 'a rt_list \<Rightarrow> 'a \<Rightarrow> nat \<Rightarrow> nat option" where
  "list_len_loop l m p len =
    (if l_next m p \<noteq> l then list_len_loop l m (l_next m p) (len + 1) else Some len)"

definition rt_list_len :: "'a \<Rightarrow> 'a rt_list \<Rightarrow> nat option" where
  "rt_list_len l m = list_len_loop l m l 0"

section \<open>A list as a sequence\<close>

fun linked :: "'a rt_list \<Rightarrow> 'a \<Rightarrow> 'a list \<Rightarrow> 'a \<Rightarrow> bool" where
  "linked m p [] q \<longleftrightarrow> l_next m p = q \<and> l_prev m q = p"
| "linked m p (x # xs) q \<longleftrightarrow> l_next m p = x \<and> l_prev m x = p \<and> linked m x xs q"

definition is_list :: "'a rt_list \<Rightarrow> 'a \<Rightarrow> 'a list \<Rightarrow> bool" where
  "is_list m l xs \<longleftrightarrow> linked m l xs l \<and> distinct (l # xs)"

lemma linked_append:
  "linked m p (xs @ x # ys) q \<longleftrightarrow> linked m p xs x \<and> linked m x ys q"
  by (induction xs arbitrary: p) auto

text \<open>Links outside of the path do not matter.\<close>

lemma linked_cong:
  assumes "linked m p xs q" "\<And>y. y \<in> set (p # xs) \<Longrightarrow> l_next m' y = l_next m y"
    "\<And>y. y \<in> set (xs @ [q]) \<Longrightarrow> l_prev m' y = l_prev m y"
  shows "linked m' p xs q"
  using assms by (induction xs arbitrary: p) auto

lemma is_list_frame:
  assumes "is_list m l xs" "\<And>y. y \<in> set (l # xs) \<Longrightarrow> l_next m' y = l_next m y \<and> l_prev m' y = l_prev m y"
  shows "is_list m' l xs"
  using assms linked_cong [of m l xs l m'] by (auto simp: is_list_def)

text \<open>The neighbours of a node belong to its list.\<close>

lemma linked_next: "linked m p xs q \<Longrightarrow> y \<in> set (p # xs) \<Longrightarrow> l_next m y \<in> set (xs @ [q])"
  by (induction xs arbitrary: p) auto

lemma linked_prev: "linked m p xs q \<Longrightarrow> y \<in> set (xs @ [q]) \<Longrightarrow> l_prev m y \<in> set (p # xs)"
  by (induction xs arbitrary: p) auto

lemma is_list_closed:
  assumes "is_list m l xs" "y \<in> set (l # xs)"
  shows "l_next m y \<in> set (l # xs)" "l_prev m y \<in> set (l # xs)"
  using assms linked_next [of m l xs l y] linked_prev [of m l xs l y] by (auto simp: is_list_def)

section \<open>The operations on a list\<close>

lemma rt_list_init_ok: "is_list (rt_list_init l m) l []"
  by (simp add: is_list_def rt_list_init_def)

text \<open>Splicing a node between two neighbours \<open>a\<close> and \<open>b\<close>.\<close>

definition spliced :: "'a \<Rightarrow> 'a \<Rightarrow> 'a \<Rightarrow> 'a rt_list \<Rightarrow> 'a rt_list" where
  "spliced a n b m = m\<lparr>l_next := (l_next m)(n := b, a := n), l_prev := (l_prev m)(b := n, n := a)\<rparr>"

lemma insert_spliced:
  "l \<noteq> n \<Longrightarrow> rt_list_insert_after l n m = spliced l n (l_next m l) m"
  "l \<noteq> n \<Longrightarrow> l_prev m l \<noteq> n \<Longrightarrow> rt_list_insert_before l n m = spliced (l_prev m l) n l m"
  by (auto simp: rt_list_insert_after_def rt_list_insert_before_def spliced_def set_next_def set_prev_def Let_def
      fun_eq_iff)

text \<open>In a path from \<open>p\<close> to \<open>q\<close> through \<open>as @ bs\<close>, the node before the cut and the one behind it.\<close>

lemma linked_cut:
  assumes "linked m p (as @ bs) q"
  shows "l_next m (last (p # as)) = hd (bs @ [q])" "l_prev m (hd (bs @ [q])) = last (p # as)"
proof -
  have "l_next m (last (p # as)) = hd (bs @ [q]) \<and> l_prev m (hd (bs @ [q])) = last (p # as)"
    using assms by (induction as arbitrary: p) (cases bs; auto)+
  then show "l_next m (last (p # as)) = hd (bs @ [q])" "l_prev m (hd (bs @ [q])) = last (p # as)" by simp_all
qed

lemma linked_spliced:
  assumes "linked m p (as @ bs) q" "distinct (p # as @ bs)" "q \<notin> set (as @ bs)" "n \<notin> set (p # q # as @ bs)"
  shows "linked (spliced (last (p # as)) n (hd (bs @ [q])) m) p (as @ n # bs) q"
  using assms
proof (induction as arbitrary: p)
  case Nil
  show ?case
  proof (cases bs)
    case (Cons x ys)
    have "linked (spliced p n x m) x ys q"
      by (rule linked_cong [of m]) (use Nil Cons in \<open>auto simp: spliced_def\<close>)
    then show ?thesis using Nil Cons by (auto simp: spliced_def)
  qed (use Nil in \<open>auto simp: spliced_def\<close>)
next
  case (Cons a as)
  let ?m = "spliced (last (a # as)) n (hd (bs @ [q])) m"
  have "linked ?m a (as @ n # bs) q" by (rule Cons.IH) (use Cons.prems in simp_all)
  moreover have "last (a # as) \<in> set (a # as)" by (rule last_in_set) simp
  then have "last (a # as) \<noteq> p" using Cons.prems(2) by (metis Un_iff append_Cons distinct.simps(2) set_append)
  then have "l_next ?m p = a" using Cons.prems by (auto simp: spliced_def)
  moreover have "hd (bs @ [q]) \<noteq> a" using Cons.prems(2,3) by (cases bs) auto
  then have "l_prev ?m a = p" using Cons.prems by (auto simp: spliced_def)
  ultimately show ?case by simp
qed

lemma is_list_spliced:
  assumes "is_list m l (as @ bs)" "n \<notin> set (l # as @ bs)"
  shows "is_list (spliced (last (l # as)) n (hd (bs @ [l])) m) l (as @ n # bs)"
  using assms linked_spliced [of m l as bs l n] by (auto simp: is_list_def)

text \<open>Inserting behind the node before the cut, and before the node behind it.\<close>

lemma rt_list_insert_after_ok:
  assumes l: "is_list m l (as @ bs)" and n: "n \<notin> set (l # as @ bs)"
  shows "is_list (rt_list_insert_after (last (l # as)) n m) l (as @ n # bs)"
proof -
  have "last (l # as) \<in> set (l # as @ bs)" using last_in_set [of "l # as"] by auto
  then have "last (l # as) \<noteq> n" using n by blast
  then show ?thesis
    using is_list_spliced [OF assms] linked_cut(1) [of m l as bs l] l by (simp add: insert_spliced is_list_def)
qed

lemma rt_list_insert_before_ok:
  assumes l: "is_list m l (as @ bs)" and n: "n \<notin> set (l # as @ bs)"
  shows "is_list (rt_list_insert_before (hd (bs @ [l])) n m) l (as @ n # bs)"
proof -
  have c: "l_prev m (hd (bs @ [l])) = last (l # as)" using linked_cut(2) [of m l as bs l] l by (simp add: is_list_def)
  have "hd (bs @ [l]) \<in> set (l # as @ bs)" "last (l # as) \<in> set (l # as @ bs)"
    using last_in_set [of "l # as"] by (cases bs; auto)+
  then have "hd (bs @ [l]) \<noteq> n" "l_prev m (hd (bs @ [l])) \<noteq> n" using n c by auto
  then show ?thesis using is_list_spliced [OF assms] c by (simp add: insert_spliced)
qed

text \<open>Removing a node; it becomes an empty list of its own.\<close>

definition cut_out :: "'a \<Rightarrow> 'a \<Rightarrow> 'a \<Rightarrow> 'a rt_list \<Rightarrow> 'a rt_list" where
  "cut_out a n b m = m\<lparr>l_next := (l_next m)(a := b, n := n), l_prev := (l_prev m)(b := a, n := n)\<rparr>"

lemma remove_cut_out: "l_next m n \<noteq> n \<Longrightarrow> l_prev m n \<noteq> n \<Longrightarrow> rt_list_remove n m = cut_out (l_prev m n) n (l_next m n) m"
  by (simp add: rt_list_remove_def cut_out_def set_next_def set_prev_def Let_def fun_eq_iff)

lemma linked_cut_out:
  assumes "linked m p (as @ n # bs) q" "distinct (p # as @ n # bs)" "q \<notin> set (as @ n # bs)"
  shows "linked (cut_out (last (p # as)) n (hd (bs @ [q])) m) p (as @ bs) q"
  using assms
proof (induction as arbitrary: p)
  case Nil
  show ?case
  proof (cases bs)
    case (Cons x ys)
    have "linked (cut_out p n x m) x ys q"
      by (rule linked_cong [of m]) (use Nil Cons in \<open>auto simp: cut_out_def\<close>)
    then show ?thesis using Nil Cons by (auto simp: cut_out_def)
  qed (use Nil in \<open>auto simp: cut_out_def\<close>)
next
  case (Cons a as)
  let ?m = "cut_out (last (a # as)) n (hd (bs @ [q])) m"
  have "linked ?m a (as @ bs) q" by (rule Cons.IH) (use Cons.prems in simp_all)
  moreover have "last (a # as) \<in> set (a # as)" by (rule last_in_set) simp
  then have "last (a # as) \<noteq> p" using Cons.prems(2) by (metis Un_iff append_Cons distinct.simps(2) set_append)
  then have "l_next ?m p = a" using Cons.prems by (auto simp: cut_out_def)
  moreover have "hd (bs @ [q]) \<noteq> a" using Cons.prems(2,3) by (cases bs) auto
  then have "l_prev ?m a = p" using Cons.prems by (auto simp: cut_out_def)
  ultimately show ?case by simp
qed

lemma rt_list_remove_ok:
  assumes "is_list m l (as @ n # bs)"
  shows "is_list (rt_list_remove n m) l (as @ bs)" "is_list (rt_list_remove n m) n []"
proof -
  have li: "linked m l (as @ n # bs) l" and d: "distinct (l # as @ n # bs)" using assms by (simp_all add: is_list_def)
  have p: "l_prev m n = last (l # as)" using linked_cut(2) [OF li] by simp
  have nx: "l_next m n = hd (bs @ [l])" using linked_cut(1) [of m l "as @ [n]" bs l] li by simp
  have "last (l # as) \<in> set (l # as)" "hd (bs @ [l]) \<in> set (bs @ [l])" using last_in_set [of "l # as"] by (simp, cases bs) simp_all
  then have ne: "l_next m n \<noteq> n" "l_prev m n \<noteq> n" using d p nx by auto
  then show "is_list (rt_list_remove n m) l (as @ bs)"
    using linked_cut_out [OF li] d unfolding remove_cut_out [OF ne] p nx by (auto simp: is_list_def)
  show "is_list (rt_list_remove n m) n []" by (simp add: is_list_def rt_list_remove_def Let_def)
qed

lemma rt_list_remove_alone: "is_list m n [] \<Longrightarrow> rt_list_remove n m = m"
  by (simp add: is_list_def rt_list_remove_def set_next_def set_prev_def Let_def fun_upd_idem)

text \<open>What the operations leave alone.\<close>

lemma list_ops_frame:
  assumes "y \<noteq> n"
  shows "y \<noteq> l \<Longrightarrow> l_next (rt_list_insert_after l n m) y = l_next m y"
    "y \<noteq> l_next m l \<Longrightarrow> l_prev (rt_list_insert_after l n m) y = l_prev m y"
    "y \<noteq> l_prev m l \<Longrightarrow> l_next (rt_list_insert_before l n m) y = l_next m y"
    "y \<noteq> l \<Longrightarrow> l_prev (rt_list_insert_before l n m) y = l_prev m y"
    "y \<noteq> l_prev m n \<Longrightarrow> l_next (rt_list_remove n m) y = l_next m y"
    "y \<noteq> l_next m n \<Longrightarrow> l_prev (rt_list_remove n m) y = l_prev m y"
  using assms by (auto simp: rt_list_insert_after_def rt_list_insert_before_def rt_list_remove_def Let_def)

text \<open>Emptiness and length.\<close>

lemma rt_list_isempty_ok: "is_list m l xs \<Longrightarrow> rt_list_isempty l m \<longleftrightarrow> xs = []"
  by (cases xs) (auto simp: is_list_def rt_list_isempty_def)

lemma list_len_loop_ok:
  "linked m p xs l \<Longrightarrow> l \<notin> set xs \<Longrightarrow> list_len_loop l m p k = Some (k + length xs)"
proof (induction xs arbitrary: p k)
  case Nil
  then show ?case by (subst list_len_loop.simps) simp
next
  case (Cons x xs)
  then show ?case by (subst list_len_loop.simps) auto
qed

lemma rt_list_len_ok: "is_list m l xs \<Longrightarrow> rt_list_len l m = Some (length xs)"
  using list_len_loop_ok [of m l xs l 0] by (simp add: is_list_def rt_list_len_def)

section \<open>The queues of the kernel\<close>

text \<open>
  A node is the head of a queue or the \<^verbatim>\<open>tlist\<close> member of a thread. The links represent the queues \<open>tq\<close> when every
  head has its queue, no thread is in two of them, and a thread in none is linked to itself, as
  \<^verbatim>\<open>rt_list_init\<close> and \<^verbatim>\<open>rt_list_remove\<close> leave it.
\<close>

datatype lnode = QHead qhead | TList tid

definition queues_linked :: "lnode rt_list \<Rightarrow> (qhead \<Rightarrow> tid list) \<Rightarrow> bool" where
  "queues_linked m q \<longleftrightarrow> (\<forall>h. is_list m (QHead h) (map TList (q h))) \<and>
    (\<forall>h h'. h \<noteq> h' \<longrightarrow> set (q h) \<inter> set (q h') = {}) \<and>
    (\<forall>t. (\<forall>h. t \<notin> set (q h)) \<longrightarrow> is_list m (TList t) [])"

lemma queue_nodes:
  "TList t \<in> set (QHead h # map TList ts) \<longleftrightarrow> t \<in> set ts" "QHead h' \<in> set (QHead h # map TList ts) \<longleftrightarrow> h' = h"
  by auto

text \<open>A queue is changed, the links of every other queue and thread are not.\<close>

lemma queues_linked_upd:
  assumes q: "queues_linked m q" and l: "is_list m' (QHead h) (map TList ts)"
    and same: "\<And>y. y \<notin> set (QHead h # map TList (q h)) \<Longrightarrow> y \<notin> N \<Longrightarrow> l_next m' y = l_next m y \<and> l_prev m' y = l_prev m y"
    and N: "N \<subseteq> TList ` (set ts \<union> set (q h))" "\<And>h'. h' \<noteq> h \<Longrightarrow> set ts \<inter> set (q h') = {}"
    and alone: "\<And>t. t \<in> set (q h) \<Longrightarrow> t \<notin> set ts \<Longrightarrow> is_list m' (TList t) []"
  shows "queues_linked m' (q(h := ts))"
  unfolding queues_linked_def
proof (intro conjI allI impI)
  have d: "set (q h1) \<inter> set (q h2) = {}" if "h1 \<noteq> h2" for h1 h2 using q that by (simp add: queues_linked_def)
  show "is_list m' (QHead h') (map TList ((q(h := ts)) h'))" for h'
  proof (cases "h' = h")
    case False
    have "is_list m' (QHead h') (map TList (q h'))"
    proof (rule is_list_frame [of m])
      show "is_list m (QHead h') (map TList (q h'))" using q by (simp add: queues_linked_def)
      show "l_next m' y = l_next m y \<and> l_prev m' y = l_prev m y" if "y \<in> set (QHead h' # map TList (q h'))" for y
        by (rule same) (use that False d [OF False] N(1) N(2) [OF False] in auto)
    qed
    then show ?thesis using False by simp
  qed (use l in simp)
  show "set ((q(h := ts)) h1) \<inter> set ((q(h := ts)) h2) = {}" if "h1 \<noteq> h2" for h1 h2
    using that d [OF that] N(2) [of h1] N(2) [of h2] by auto
  show "is_list m' (TList t) []" if t: "\<forall>h'. t \<notin> set ((q(h := ts)) h')" for t
  proof (cases "t \<in> set (q h)")
    case True
    then show ?thesis using alone t by (metis fun_upd_same)
  next
    case False
    then have u: "t \<notin> set (q h')" for h' using t by (metis fun_upd_other)
    have tn: "t \<notin> set ts" using t by (metis fun_upd_same)
    show ?thesis
    proof (rule is_list_frame [of m])
      show "is_list m (TList t) []" using q u by (simp add: queues_linked_def)
      show "l_next m' y = l_next m y \<and> l_prev m' y = l_prev m y" if "y \<in> set [TList t]" for y
        by (rule same) (use that u tn N(1) in auto)
    qed
  qed
qed

lemma queues_linkedD:
  assumes "queues_linked m q"
  shows "is_list m (QHead h) (map TList (q h))" "h \<noteq> h' \<Longrightarrow> set (q h) \<inter> set (q h') = {}"
    "(\<And>h. t \<notin> set (q h)) \<Longrightarrow> is_list m (TList t) []"
  using assms by (simp_all add: queues_linked_def)

lemma queues_linked_insert:
  assumes q: "queues_linked m q" and t: "\<And>h'. t \<notin> set (q h')" and xs: "q h = as @ bs"
  shows "queues_linked (rt_list_insert_before (hd (map TList bs @ [QHead h])) (TList t) m) (q(h := as @ t # bs))"
    "queues_linked (rt_list_insert_after (last (QHead h # map TList as)) (TList t) m) (q(h := as @ t # bs))"
proof -
  let ?N = "set (QHead h # map TList (q h))"
  have l: "is_list m (QHead h) (map TList as @ map TList bs)" using queues_linkedD(1) [OF q, of h] xs by simp
  have n: "TList t \<notin> set (QHead h # map TList as @ map TList bs)" using t [of h] xs by auto
  have d: "set (as @ t # bs) \<inter> set (q h') = {}" if "h' \<noteq> h" for h'
    using queues_linkedD(2) [OF q that] t [of h'] xs by auto
  have "last (QHead h # map TList as) \<in> set (QHead h # map TList as)" by (rule last_in_set) simp
  then have a: "last (QHead h # map TList as) \<in> ?N" using xs by auto
  have b: "hd (map TList bs @ [QHead h]) \<in> ?N" using xs by (cases bs) auto
  note closed = is_list_closed [OF queues_linkedD(1) [OF q]]
  show "queues_linked (rt_list_insert_before (hd (map TList bs @ [QHead h])) (TList t) m) (q(h := as @ t # bs))"
  proof (rule queues_linked_upd [OF q, where N = "{TList t}"])
    show "is_list (rt_list_insert_before (hd (map TList bs @ [QHead h])) (TList t) m) (QHead h) (map TList (as @ t # bs))"
      using rt_list_insert_before_ok [OF l n] by simp
    show "l_next (rt_list_insert_before (hd (map TList bs @ [QHead h])) (TList t) m) y = l_next m y \<and>
        l_prev (rt_list_insert_before (hd (map TList bs @ [QHead h])) (TList t) m) y = l_prev m y"
      if "y \<notin> ?N" "y \<notin> {TList t}" for y
    proof -
      have "y \<noteq> hd (map TList bs @ [QHead h])" "y \<noteq> l_prev m (hd (map TList bs @ [QHead h]))"
        using that(1) b closed(2) [OF b] by metis+
      then show ?thesis using that(2) by (simp add: list_ops_frame)
    qed
  qed (use d xs in auto)
  show "queues_linked (rt_list_insert_after (last (QHead h # map TList as)) (TList t) m) (q(h := as @ t # bs))"
  proof (rule queues_linked_upd [OF q, where N = "{TList t}"])
    show "is_list (rt_list_insert_after (last (QHead h # map TList as)) (TList t) m) (QHead h) (map TList (as @ t # bs))"
      using rt_list_insert_after_ok [OF l n] by simp
    show "l_next (rt_list_insert_after (last (QHead h # map TList as)) (TList t) m) y = l_next m y \<and>
        l_prev (rt_list_insert_after (last (QHead h # map TList as)) (TList t) m) y = l_prev m y"
      if "y \<notin> ?N" "y \<notin> {TList t}" for y
    proof -
      have "y \<noteq> last (QHead h # map TList as)" "y \<noteq> l_next m (last (QHead h # map TList as))"
        using that(1) a closed(1) [OF a] by metis+
      then show ?thesis using that(2) by (simp add: list_ops_frame)
    qed
  qed (use d xs in auto)
qed

lemma queues_linked_remove:
  assumes q: "queues_linked m q"
  shows "queues_linked (rt_list_remove (TList t) m) (\<lambda>h. remove1 t (q h))"
proof (cases "\<exists>h. t \<in> set (q h)")
  case False
  then have "rt_list_remove (TList t) m = m" using queues_linkedD(3) [OF q, of t] rt_list_remove_alone by metis
  then show ?thesis using q False by simp
next
  case True
  then obtain h where h: "t \<in> set (q h)" by blast
  then obtain as bs where s: "q h = as @ t # bs" by (auto dest: split_list)
  have l: "is_list m (QHead h) (map TList as @ TList t # map TList bs)" using queues_linkedD(1) [OF q, of h] s by simp
  note r = rt_list_remove_ok [OF l]
  have "distinct (map TList (q h))" using queues_linkedD(1) [OF q, of h] by (simp add: is_list_def)
  then have "distinct (q h)" by (simp add: distinct_map)
  then have ts: "t \<notin> set as" "t \<notin> set bs" using s by auto
  have oth: "t \<notin> set (q h')" if "h' \<noteq> h" for h' using queues_linkedD(2) [OF q that] h by auto
  have eq: "(\<lambda>h. remove1 t (q h)) = q(h := as @ bs)" using oth s ts by (auto simp: fun_eq_iff remove1_append)
  have tn: "TList t \<in> set (QHead h # map TList (q h))" using h by simp
  note closed = is_list_closed [OF queues_linkedD(1) [OF q] tn]
  show ?thesis unfolding eq
  proof (rule queues_linked_upd [OF q, where N = "{}"])
    show "is_list (rt_list_remove (TList t) m) (QHead h) (map TList (as @ bs))" using r(1) by simp
    show "l_next (rt_list_remove (TList t) m) y = l_next m y \<and> l_prev (rt_list_remove (TList t) m) y = l_prev m y"
      if "y \<notin> set (QHead h # map TList (q h))" for y
    proof -
      have "y \<noteq> TList t" "y \<noteq> l_prev m (TList t)" "y \<noteq> l_next m (TList t)" using that closed tn by metis+
      then show ?thesis by (simp add: list_ops_frame)
    qed
    show "set (as @ bs) \<inter> set (q h') = {}" if "h' \<noteq> h" for h' using queues_linkedD(2) [OF q that] s by auto
    show "is_list (rt_list_remove (TList t) m) (TList t') []" if "t' \<in> set (q h)" "t' \<notin> set (as @ bs)" for t'
      using that s r(2) by auto
  qed simp
qed

section \<open>Singly linked lists\<close>

text \<open>The memory of the links is a map: \<open>None\<close> is \<^verbatim>\<open>RT_NULL\<close>. A loop that does not reach the end gives \<open>None\<close>.\<close>

type_synonym 'a rt_slist = "'a \<Rightarrow> 'a option"

definition rt_slist_init :: "'a \<Rightarrow> 'a rt_slist \<Rightarrow> 'a rt_slist" where
  "rt_slist_init l m = m(l := None)"

partial_function (option) rt_slist_tail :: "'a rt_slist \<Rightarrow> 'a \<Rightarrow> 'a option" where
  "rt_slist_tail m node = (case m node of None \<Rightarrow> Some node | Some x \<Rightarrow> rt_slist_tail m x)"

definition rt_slist_append :: "'a \<Rightarrow> 'a \<Rightarrow> 'a rt_slist \<Rightarrow> 'a rt_slist option" where
  "rt_slist_append l n m =
    (case rt_slist_tail m l of None \<Rightarrow> None | Some node \<Rightarrow> Some ((m(node := Some n))(n := None)))"

definition rt_slist_insert :: "'a \<Rightarrow> 'a \<Rightarrow> 'a rt_slist \<Rightarrow> 'a rt_slist" where
  "rt_slist_insert l n m = (let m1 = m(n := m l) in m1(l := Some n))"

partial_function (option) slist_len_loop :: "'a rt_slist \<Rightarrow> 'a option \<Rightarrow> nat \<Rightarrow> nat option" where
  "slist_len_loop m p len = (case p of None \<Rightarrow> Some len | Some x \<Rightarrow> slist_len_loop m (m x) (len + 1))"

definition rt_slist_len :: "'a \<Rightarrow> 'a rt_slist \<Rightarrow> nat option" where
  "rt_slist_len l m = slist_len_loop m (m l) 0"

partial_function (option) slist_before :: "'a rt_slist \<Rightarrow> 'a \<Rightarrow> 'a \<Rightarrow> 'a option" where
  "slist_before m n node = (if m node \<noteq> None \<and> m node \<noteq> Some n then slist_before m n (the (m node)) else Some node)"

definition rt_slist_remove :: "'a \<Rightarrow> 'a \<Rightarrow> 'a rt_slist \<Rightarrow> 'a rt_slist option" where
  "rt_slist_remove l n m =
    (case slist_before m n l of
       None \<Rightarrow> None
     | Some node \<Rightarrow> (case m node of None \<Rightarrow> Some m | Some x \<Rightarrow> Some (m(node := m x))))"

definition rt_slist_first :: "'a \<Rightarrow> 'a rt_slist \<Rightarrow> 'a option" where
  "rt_slist_first l m = m l"

definition rt_slist_next :: "'a \<Rightarrow> 'a rt_slist \<Rightarrow> 'a option" where
  "rt_slist_next n m = m n"

definition rt_slist_isempty :: "'a \<Rightarrow> 'a rt_slist \<Rightarrow> bool" where
  "rt_slist_isempty l m \<longleftrightarrow> m l = None"

fun slinked :: "'a rt_slist \<Rightarrow> 'a \<Rightarrow> 'a list \<Rightarrow> bool" where
  "slinked m p [] \<longleftrightarrow> m p = None"
| "slinked m p (x # xs) \<longleftrightarrow> m p = Some x \<and> slinked m x xs"

definition is_slist :: "'a rt_slist \<Rightarrow> 'a \<Rightarrow> 'a list \<Rightarrow> bool" where
  "is_slist m l xs \<longleftrightarrow> slinked m l xs \<and> distinct (l # xs)"

lemma slinked_cong: "(\<And>y. y \<in> set (p # xs) \<Longrightarrow> m' y = m y) \<Longrightarrow> slinked m' p xs = slinked m p xs"
  by (induction xs arbitrary: p) auto

lemma rt_slist_tail_ok: "slinked m l xs \<Longrightarrow> rt_slist_tail m l = Some (last (l # xs))"
proof (induction xs arbitrary: l)
  case Nil
  then show ?case by (subst rt_slist_tail.simps) simp
next
  case (Cons x xs)
  then show ?case by (subst rt_slist_tail.simps) auto
qed

lemma slist_len_loop_ok: "slinked m l xs \<Longrightarrow> slist_len_loop m (m l) k = Some (k + length xs)"
proof (induction xs arbitrary: l k)
  case Nil
  then show ?case by (subst slist_len_loop.simps) simp
next
  case (Cons x xs)
  then show ?case by (subst slist_len_loop.simps) simp
qed

lemma slinked_append_end:
  "slinked m l xs \<Longrightarrow> distinct (l # xs) \<Longrightarrow> n \<notin> set (l # xs) \<Longrightarrow>
    slinked ((m(last (l # xs) := Some n))(n := None)) l (xs @ [n])"
proof (induction xs arbitrary: l)
  case (Cons x xs)
  let ?m = "(m(last (x # xs) := Some n))(n := None)"
  have "last (x # xs) \<in> set (x # xs)" by (rule last_in_set) simp
  then have "last (x # xs) \<noteq> l" using Cons.prems(2) by (metis distinct.simps(2))
  then have "?m l = Some x" using Cons.prems by auto
  moreover have "slinked ?m x (xs @ [n])" by (rule Cons.IH) (use Cons.prems in simp_all)
  moreover have "last (l # x # xs) = last (x # xs)" by simp
  ultimately show ?case by (simp del: fun_upd_apply last.simps)
qed simp

lemma slist_before_ok:
  assumes "slinked m l (as @ n # bs)" "distinct (l # as @ n # bs)"
  shows "slist_before m n l = Some (last (l # as))"
  using assms
proof (induction as arbitrary: l)
  case Nil
  then show ?case by (subst slist_before.simps) simp
next
  case (Cons a as)
  then show ?case by (subst slist_before.simps) auto
qed

lemma slinked_cut: "slinked m l (as @ n # bs) \<Longrightarrow> m (last (l # as)) = Some n \<and> slinked m n bs"
  by (induction as arbitrary: l) auto

lemma slinked_without:
  assumes "slinked m l (as @ n # bs)" "distinct (l # as @ n # bs)"
  shows "slinked (m(last (l # as) := m n)) l (as @ bs)"
  using assms
proof (induction as arbitrary: l)
  case Nil
  show ?case
  proof (cases bs)
    case (Cons x ys)
    then have "slinked (m(l := m n)) x ys"
      using Nil slinked_cong [of x ys "m(l := m n)" m] by (auto simp del: fun_upd_apply) (metis fun_upd_other)
    then show ?thesis using Nil Cons by (simp del: fun_upd_apply) simp
  qed (use Nil in simp)
next
  case (Cons a as)
  have "last (a # as) \<in> set (a # as)" by (rule last_in_set) simp
  then have "last (a # as) \<noteq> l" using Cons.prems(2) by (metis Un_iff append_Cons distinct.simps(2) set_append)
  moreover have "slinked (m(last (a # as) := m n)) a (as @ bs)" by (rule Cons.IH) (use Cons.prems in simp_all)
  moreover have "last (l # a # as) = last (a # as)" "m l = Some a" using Cons.prems(1) by simp_all
  ultimately show ?case by (simp del: last.simps fun_upd_apply) simp
qed

lemma rt_slist_ops_ok:
  assumes "is_slist m l xs"
  shows "rt_slist_isempty l m \<longleftrightarrow> xs = []" "rt_slist_len l m = Some (length xs)" "rt_slist_tail m l = Some (last (l # xs))"
    "n \<notin> set (l # xs) \<Longrightarrow> is_slist (rt_slist_insert l n m) l (n # xs)"
    "n \<notin> set (l # xs) \<Longrightarrow> \<exists>m'. rt_slist_append l n m = Some m' \<and> is_slist m' l (xs @ [n])"
    "n \<in> set xs \<Longrightarrow> \<exists>m'. rt_slist_remove l n m = Some m' \<and> is_slist m' l (remove1 n xs)"
proof -
  have s: "slinked m l xs" "distinct (l # xs)" using assms by (simp_all add: is_slist_def)
  show "rt_slist_isempty l m \<longleftrightarrow> xs = []" using s(1) by (cases xs) (auto simp: rt_slist_isempty_def)
  show "rt_slist_len l m = Some (length xs)" using slist_len_loop_ok [OF s(1), of 0] by (simp add: rt_slist_len_def)
  show tail: "rt_slist_tail m l = Some (last (l # xs))" using rt_slist_tail_ok [OF s(1)] .
  show "is_slist (rt_slist_insert l n m) l (n # xs)" if "n \<notin> set (l # xs)"
  proof -
    let ?m = "(m(n := m l))(l := Some n)"
    have "slinked ?m n xs"
    proof (cases xs)
      case (Cons x ys)
      have "slinked ?m x ys = slinked m x ys" by (rule slinked_cong) (use s(2) that Cons in auto)
      then show ?thesis using s that Cons by simp
    qed (use s that in auto)
    then show ?thesis using s(2) that by (auto simp: is_slist_def rt_slist_insert_def)
  qed
  show "\<exists>m'. rt_slist_append l n m = Some m' \<and> is_slist m' l (xs @ [n])" if "n \<notin> set (l # xs)"
    using slinked_append_end [OF s that] s(2) that tail by (auto simp: rt_slist_append_def is_slist_def)
  show "\<exists>m'. rt_slist_remove l n m = Some m' \<and> is_slist m' l (remove1 n xs)" if "n \<in> set xs"
  proof -
    from split_list [OF that] obtain as bs where xs: "xs = as @ n # bs" by blast
    have d: "distinct (l # as @ n # bs)" using s(2) xs by simp
    have "remove1 n xs = as @ bs" using xs d by (simp add: remove1_append)
    then show ?thesis
      using slist_before_ok [OF s(1) [unfolded xs] d] slinked_cut [OF s(1) [unfolded xs]]
        slinked_without [OF s(1) [unfolded xs] d] d by (simp add: rt_slist_remove_def is_slist_def)
  qed
qed

end
