(* ===== verification/RingBlk.thy ===== *)
theory RingBlk
  imports Mempool
begin

text \<open>
  The ring block buffer (\<^verbatim>\<open>rt-thread/components/drivers/src/ringblk_buf.c\<close>): blocks of variable
  size are taken from a buffer used as a ring, filled, read and given back in any order. A block
  is named by its index in \<^verbatim>\<open>blk_set\<close>; \<open>rbb_blk_list\<close> is the singly linked list of the blocks in
  use. A failed assertion is recorded in \<open>rbb_fault\<close>. The results: the blocks in the list lie
  inside the buffer and do not overlap, whatever sequence of operations leads there, as long as no
  block larger than the buffer or of size 0 is asked for; and the cases in which they do overlap
  or the size reported for a queue of blocks is wrong.
\<close>

section \<open>Structures\<close>

datatype rt_rbb_status = RT_RBB_BLK_UNUSED | RT_RBB_BLK_INITED | RT_RBB_BLK_PUT | RT_RBB_BLK_GET

record rt_rbb_blk =
  blk_status :: rt_rbb_status
  blk_size :: nat
  blk_buf :: addr

record rt_rbb_blk_queue =
  bq_blocks :: nat
  bq_blk_num :: nat

record rt_rbb =
  rbb_buf :: addr
  rbb_buf_size :: nat
  rbb_blk_set :: "nat \<Rightarrow> rt_rbb_blk"
  rbb_blk_max_num :: nat
  rbb_blk_list :: "nat list"
  rbb_fault :: bool

definition RBB_ASSERT :: "bool \<Rightarrow> rt_rbb \<Rightarrow> rt_rbb" where
  "RBB_ASSERT b r = (if b then r else r\<lparr>rbb_fault := True\<rparr>)"

definition blk_at :: "rt_rbb \<Rightarrow> nat \<Rightarrow> rt_rbb_blk" where
  "blk_at r i = rbb_blk_set r i"

definition upd_blk :: "nat \<Rightarrow> (rt_rbb_blk \<Rightarrow> rt_rbb_blk) \<Rightarrow> rt_rbb \<Rightarrow> rt_rbb" where
  "upd_blk i f r = r\<lparr>rbb_blk_set := (rbb_blk_set r)(i := f (rbb_blk_set r i))\<rparr>"

definition set_blk_status :: "rt_rbb_status \<Rightarrow> nat \<Rightarrow> rt_rbb \<Rightarrow> rt_rbb" where
  "set_blk_status st i r = upd_blk i (\<lambda>b. b\<lparr>blk_status := st\<rparr>) r"

section \<open>Operations\<close>

text \<open>The block set is an array in memory; \<open>set0\<close> is what it holds before the initialisation.\<close>

definition rt_rbb_init :: "addr \<Rightarrow> nat \<Rightarrow> (nat \<Rightarrow> rt_rbb_blk) \<Rightarrow> nat \<Rightarrow> rt_rbb" where
  "rt_rbb_init buf buf_size set0 blk_max_num =
    \<lparr>rbb_buf = buf, rbb_buf_size = buf_size,
     rbb_blk_set = (\<lambda>i. if i < blk_max_num then (set0 i)\<lparr>blk_status := RT_RBB_BLK_UNUSED\<rparr> else set0 i),
     rbb_blk_max_num = blk_max_num, rbb_blk_list = [], rbb_fault = False\<rparr>"

text \<open>Creation allocates the control block (20 bytes), the buffer and the set (12 bytes a block).\<close>

definition rt_rbb_create :: "nat \<Rightarrow> nat \<Rightarrow> (nat \<Rightarrow> rt_rbb_blk) \<Rightarrow> kstate \<Rightarrow> kstate \<times> (addr \<times> addr \<times> rt_rbb) option" where
  "rt_rbb_create buf_size blk_max_num set0 s =
    (case kernel_malloc 20 s of
       (s1, None) \<Rightarrow> (s1, None)
     | (s1, Some rbb) \<Rightarrow>
         (case kernel_malloc buf_size s1 of
            (s2, None) \<Rightarrow> (kernel_free (Some rbb) s2, None)
          | (s2, Some buf) \<Rightarrow>
              (case kernel_malloc (mul32 12 blk_max_num) s2 of
                 (s3, None) \<Rightarrow> (kernel_free (Some rbb) (kernel_free (Some buf) s3), None)
               | (s3, Some blk_set) \<Rightarrow>
                   (s3, Some (rbb, blk_set, rt_rbb_init buf buf_size set0 blk_max_num)))))"

definition rt_rbb_destroy :: "addr \<Rightarrow> addr \<Rightarrow> rt_rbb \<Rightarrow> kstate \<Rightarrow> kstate" where
  "rt_rbb_destroy rbb blk_set r s =
    kernel_free (Some rbb) (kernel_free (Some blk_set) (kernel_free (Some (rbb_buf r)) s))"

definition find_empty_blk_in_set :: "rt_rbb \<Rightarrow> nat option" where
  "find_empty_blk_in_set r =
    find (\<lambda>i. blk_status (blk_at r i) = RT_RBB_BLK_UNUSED) [0..<rbb_blk_max_num r]"

definition blk_place :: "nat \<Rightarrow> addr \<Rightarrow> nat \<Rightarrow> rt_rbb \<Rightarrow> rt_rbb" where
  "blk_place i buf sz r =
    upd_blk i (\<lambda>_. \<lparr>blk_status = RT_RBB_BLK_INITED, blk_size = sz mod 2 ^ 24, blk_buf = buf\<rparr>)
      (r\<lparr>rbb_blk_list := rbb_blk_list r @ [i]\<rparr>)"

definition blk_end :: "rt_rbb_blk \<Rightarrow> addr" where
  "blk_end b = blk_buf b + blk_size b"

definition rt_rbb_blk_alloc :: "nat \<Rightarrow> rt_rbb \<Rightarrow> rt_rbb \<times> nat option" where
  "rt_rbb_blk_alloc sz r0 =
    (let r = RBB_ASSERT (sz < 2 ^ 24) r0 in
     case find_empty_blk_in_set r of
       None \<Rightarrow> (r, None)
     | Some i \<Rightarrow>
         if length (rbb_blk_list r) < rbb_blk_max_num r then
           if rbb_blk_list r = [] then (blk_place i (rbb_buf r) sz r, Some i)
           else
             let head = blk_at r (hd (rbb_blk_list r)); tail = blk_at r (last (rbb_blk_list r)) in
             if blk_buf head \<le> blk_buf tail then
               let empty1 = sub32 (rbb_buf r + rbb_buf_size r) (blk_end tail);
                   empty2 = sub32 (blk_buf head) (rbb_buf r)
               in if empty1 \<ge> sz then (blk_place i (blk_end tail) sz r, Some i)
                  else if empty2 \<ge> sz then (blk_place i (rbb_buf r) sz r, Some i)
                  else (r, None)
             else
               let empty1 = sub32 (blk_buf head) (blk_end tail)
               in if empty1 \<ge> sz then (blk_place i (blk_end tail) sz r, Some i) else (r, None)
         else (r, None))"

definition rt_rbb_blk_put :: "nat \<Rightarrow> rt_rbb \<Rightarrow> rt_rbb" where
  "rt_rbb_blk_put i r =
    set_blk_status RT_RBB_BLK_PUT i (RBB_ASSERT (blk_status (blk_at r i) = RT_RBB_BLK_INITED) r)"

definition rt_rbb_blk_get :: "rt_rbb \<Rightarrow> rt_rbb \<times> nat option" where
  "rt_rbb_blk_get r =
    (case find (\<lambda>i. blk_status (blk_at r i) = RT_RBB_BLK_PUT) (rbb_blk_list r) of
       None \<Rightarrow> (r, None)
     | Some i \<Rightarrow> (set_blk_status RT_RBB_BLK_GET i r, Some i))"

definition rt_rbb_blk_size :: "nat \<Rightarrow> rt_rbb \<Rightarrow> nat" where
  "rt_rbb_blk_size i r = blk_size (blk_at r i)"

definition rt_rbb_blk_buf :: "nat \<Rightarrow> rt_rbb \<Rightarrow> addr" where
  "rt_rbb_blk_buf i r = blk_buf (blk_at r i)"

definition blk_unlink :: "nat \<Rightarrow> rt_rbb \<Rightarrow> rt_rbb" where
  "blk_unlink i r = r\<lparr>rbb_blk_list := remove1 i (rbb_blk_list r)\<rparr>"

definition rt_rbb_blk_free :: "nat \<Rightarrow> rt_rbb \<Rightarrow> rt_rbb" where
  "rt_rbb_blk_free i r =
    set_blk_status RT_RBB_BLK_UNUSED i
      (blk_unlink i (RBB_ASSERT (blk_status (blk_at r i) \<noteq> RT_RBB_BLK_UNUSED) r))"

text \<open>
  The loop of \<^verbatim>\<open>rt_rbb_blk_queue_get\<close> over the nodes of the list, with \<open>last_block\<close>, the size so
  far and the queue. A node that is unlinked keeps its own link, so the walk goes on behind it.
\<close>

definition queue_take :: "nat \<Rightarrow> rt_rbb \<Rightarrow> rt_rbb" where
  "queue_take n r = set_blk_status RT_RBB_BLK_GET n (blk_unlink n r)"

fun queue_get_loop :: "nat list \<Rightarrow> nat \<Rightarrow> nat option \<Rightarrow> nat \<Rightarrow> rt_rbb_blk_queue \<Rightarrow> rt_rbb \<Rightarrow>
    rt_rbb \<times> rt_rbb_blk_queue \<times> nat" where
  "queue_get_loop [] len lst tot bq r = (r, bq, tot)"
| "queue_get_loop (n # ns) len None tot bq r =
    (if blk_status (blk_at r n) = RT_RBB_BLK_PUT
     then queue_get_loop ns len (Some n) (add32 tot (blk_size (blk_at r n)))
            \<lparr>bq_blocks = n, bq_blk_num = 1\<rparr> (queue_take n r)
     else queue_get_loop ns len None tot bq r)"
| "queue_get_loop (n # ns) len (Some l) tot bq r =
    (if blk_status (blk_at r n) \<noteq> RT_RBB_BLK_PUT \<or> blk_buf (blk_at r l) > blk_buf (blk_at r n) \<or>
        add32 tot (blk_size (blk_at r n)) > len
     then (r, bq, tot)
     else queue_get_loop ns len (Some n) (add32 tot (blk_size (blk_at r n)))
            (bq\<lparr>bq_blk_num := bq_blk_num bq + 1\<rparr>) (queue_take n r))"

definition rt_rbb_blk_queue_get :: "nat \<Rightarrow> rt_rbb_blk_queue \<Rightarrow> rt_rbb \<Rightarrow> rt_rbb \<times> rt_rbb_blk_queue \<times> nat" where
  "rt_rbb_blk_queue_get queue_data_len bq r =
    (if rbb_blk_list r = [] then (r, bq, 0)
     else queue_get_loop (rbb_blk_list r) queue_data_len None 0 bq r)"

text \<open>The queue is read as an array of blocks from its first one on.\<close>

definition rt_rbb_blk_queue_len :: "rt_rbb_blk_queue \<Rightarrow> rt_rbb \<Rightarrow> nat" where
  "rt_rbb_blk_queue_len bq r =
    fold (\<lambda>i tot. add32 tot (blk_size (blk_at r (bq_blocks bq + i)))) [0..<bq_blk_num bq] 0"

definition rt_rbb_blk_queue_buf :: "rt_rbb_blk_queue \<Rightarrow> rt_rbb \<Rightarrow> addr" where
  "rt_rbb_blk_queue_buf bq r = blk_buf (blk_at r (bq_blocks bq))"

definition rt_rbb_blk_queue_free :: "rt_rbb_blk_queue \<Rightarrow> rt_rbb \<Rightarrow> rt_rbb" where
  "rt_rbb_blk_queue_free bq r =
    fold (\<lambda>i. rt_rbb_blk_free (bq_blocks bq + i)) [0..<bq_blk_num bq] r"

fun next_len_loop :: "nat list \<Rightarrow> nat option \<Rightarrow> nat \<Rightarrow> rt_rbb \<Rightarrow> nat" where
  "next_len_loop [] lst tot r = tot"
| "next_len_loop (n # ns) None tot r =
    (if blk_status (blk_at r n) \<noteq> RT_RBB_BLK_PUT then next_len_loop ns None tot r
     else next_len_loop ns (Some n) (add32 tot (blk_size (blk_at r n))) r)"
| "next_len_loop (n # ns) (Some l) tot r =
    (if blk_status (blk_at r n) \<noteq> RT_RBB_BLK_PUT \<or> blk_buf (blk_at r l) > blk_buf (blk_at r n) then tot
     else next_len_loop ns (Some n) (add32 tot (blk_size (blk_at r n))) r)"

definition rt_rbb_next_blk_queue_len :: "rt_rbb \<Rightarrow> nat" where
  "rt_rbb_next_blk_queue_len r = (if rbb_blk_list r = [] then 0 else next_len_loop (rbb_blk_list r) None 0 r)"

definition rt_rbb_get_buf_size :: "rt_rbb \<Rightarrow> nat" where
  "rt_rbb_get_buf_size r = rbb_buf_size r"

section \<open>Chains of blocks\<close>

text \<open>Blocks that follow each other without overlap between two addresses.\<close>

fun chain :: "addr \<Rightarrow> rt_rbb_blk list \<Rightarrow> addr \<Rightarrow> bool" where
  "chain lo [] hi \<longleftrightarrow> lo \<le> hi"
| "chain lo (b # bs) hi \<longleftrightarrow> lo \<le> blk_buf b \<and> chain (blk_end b) bs hi"

lemma chain_le: "chain lo bs hi \<Longrightarrow> lo \<le> hi"
  by (induction bs arbitrary: lo) (fastforce simp: blk_end_def)+

lemma chain_low: "lo' \<le> lo \<Longrightarrow> chain lo bs hi \<Longrightarrow> chain lo' bs hi"
  by (cases bs) auto

lemma chain_append: "chain lo (xs @ ys) hi \<longleftrightarrow> (\<exists>m. chain lo xs m \<and> chain m ys hi)"
  by (induction xs arbitrary: lo) (auto dest: chain_low)

lemma chain_tl: "chain lo (b # bs) hi \<Longrightarrow> chain lo bs hi"
  using chain_low [of lo "blk_end b" bs hi] by (simp add: blk_end_def)

lemma chain_delete:
  assumes "chain lo (xs @ b # ys) hi"
  shows "chain lo (xs @ ys) hi"
  using assms unfolding chain_append by (blast dest: chain_tl)

lemma chain_snoc:
  assumes "chain lo bs hi" "bs \<noteq> []" "blk_buf b = blk_end (last bs)" "blk_end b \<le> hi'"
  shows "chain lo (bs @ [b]) hi'"
  using assms by (induction bs arbitrary: lo) (auto split: if_splits)

lemma chain_within: "chain lo bs hi \<Longrightarrow> b \<in> set bs \<Longrightarrow> lo \<le> blk_buf b \<and> blk_end b \<le> hi"
proof (induction bs)
  case (Cons a bs)
  then show ?case using chain_tl [OF Cons.prems(1)] chain_le [of "blk_end a" bs hi] by auto
qed simp

lemma chain_sorted: "chain lo bs hi \<Longrightarrow> i < j \<Longrightarrow> j < length bs \<Longrightarrow> blk_end (bs ! i) \<le> blk_buf (bs ! j)"
proof (induction bs arbitrary: lo i j)
  case (Cons b bs)
  obtain k where j: "j = Suc k" using Cons.prems(2) by (cases j) auto
  then have k: "k < length bs" using Cons.prems(3) by simp
  show ?case
  proof (cases i)
    case 0
    then show ?thesis using chain_within [of "blk_end b" bs hi "bs ! k"] Cons.prems(1) j k by simp
  next
    case (Suc i')
    then show ?thesis using Cons.IH [of "blk_end b" i' k] Cons.prems j k by simp
  qed
qed simp

section \<open>The ring\<close>

text \<open>
  The blocks of the list, in order: those from the head on lie behind each other up to the end of
  the buffer, the others, which have wrapped around, between its start and the head.
\<close>

definition blks :: "rt_rbb \<Rightarrow> nat list \<Rightarrow> rt_rbb_blk list" where
  "blks r is = map (blk_at r) is"

definition ring :: "rt_rbb \<Rightarrow> nat list \<Rightarrow> nat list \<Rightarrow> bool" where
  "ring r xs ys \<longleftrightarrow> (xs = [] \<longrightarrow> ys = []) \<and>
     chain (rbb_buf r) (blks r xs) (rbb_buf r + rbb_buf_size r) \<and>
     (xs \<noteq> [] \<longrightarrow> chain (rbb_buf r) (blks r ys) (blk_buf (blk_at r (hd xs))))"

definition rbb_wf :: "rt_rbb \<Rightarrow> bool" where
  "rbb_wf r \<longleftrightarrow> distinct (rbb_blk_list r) \<and> rbb_buf r + rbb_buf_size r < 2 ^ 32 \<and>
     (\<forall>i \<in> set (rbb_blk_list r). i < rbb_blk_max_num r \<and> blk_status (blk_at r i) \<noteq> RT_RBB_BLK_UNUSED \<and>
        0 < blk_size (blk_at r i)) \<and>
     (\<exists>xs ys. rbb_blk_list r = xs @ ys \<and> ring r xs ys)"

lemma RBB_ASSERT_simps [simp]:
  "rbb_blk_list (RBB_ASSERT b r) = rbb_blk_list r" "rbb_buf (RBB_ASSERT b r) = rbb_buf r"
  "rbb_buf_size (RBB_ASSERT b r) = rbb_buf_size r" "rbb_blk_max_num (RBB_ASSERT b r) = rbb_blk_max_num r"
  "blk_at (RBB_ASSERT b r) i = blk_at r i"
  by (simp_all add: RBB_ASSERT_def blk_at_def)

lemma upd_blk_simps [simp]:
  "rbb_blk_list (upd_blk i f r) = rbb_blk_list r" "rbb_buf (upd_blk i f r) = rbb_buf r"
  "rbb_buf_size (upd_blk i f r) = rbb_buf_size r" "rbb_blk_max_num (upd_blk i f r) = rbb_blk_max_num r"
  "blk_at (upd_blk i f r) j = (if j = i then f (blk_at r i) else blk_at r j)"
  by (simp_all add: upd_blk_def blk_at_def)

lemma set_blk_status_simps [simp]:
  "rbb_blk_list (set_blk_status st i r) = rbb_blk_list r" "rbb_buf (set_blk_status st i r) = rbb_buf r"
  "rbb_buf_size (set_blk_status st i r) = rbb_buf_size r"
  "rbb_blk_max_num (set_blk_status st i r) = rbb_blk_max_num r"
  "blk_at (set_blk_status st i r) j = (if j = i then (blk_at r i)\<lparr>blk_status := st\<rparr> else blk_at r j)"
  by (simp_all add: set_blk_status_def)

lemma blk_unlink_simps [simp]:
  "rbb_blk_list (blk_unlink i r) = remove1 i (rbb_blk_list r)" "rbb_buf (blk_unlink i r) = rbb_buf r"
  "rbb_buf_size (blk_unlink i r) = rbb_buf_size r" "rbb_blk_max_num (blk_unlink i r) = rbb_blk_max_num r"
  "blk_at (blk_unlink i r) = blk_at r"
  by (simp_all add: blk_unlink_def blk_at_def fun_eq_iff)

text \<open>The ring only reads where the listed blocks lie.\<close>

lemma chain_cong:
  "(\<And>i. i \<in> set is \<Longrightarrow> blk_buf (f i) = blk_buf (g i) \<and> blk_size (f i) = blk_size (g i)) \<Longrightarrow>
    chain lo (map f is) hi = chain lo (map g is) hi"
  by (induction "is" arbitrary: lo) (simp_all add: blk_end_def)

lemma ring_cong:
  assumes "rbb_buf r' = rbb_buf r" "rbb_buf_size r' = rbb_buf_size r"
    "\<And>i. i \<in> set (xs @ ys) \<Longrightarrow> blk_buf (blk_at r' i) = blk_buf (blk_at r i) \<and> blk_size (blk_at r' i) = blk_size (blk_at r i)"
  shows "ring r' xs ys = ring r xs ys"
proof -
  have "chain lo (map (blk_at r') zs) hi = chain lo (map (blk_at r) zs) hi" if "set zs \<subseteq> set (xs @ ys)" for lo hi zs
    by (rule chain_cong) (use assms(3) that in blast)
  moreover have "xs \<noteq> [] \<Longrightarrow> blk_buf (blk_at r' (hd xs)) = blk_buf (blk_at r (hd xs))" using assms(3) by simp
  ultimately show ?thesis using assms(1,2) by (auto simp: ring_def blks_def)
qed

text \<open>Taking a block out of the list keeps the ring; when the head goes, the next block becomes the head.\<close>

lemma ring_delete_first:
  assumes "ring r (i # xs) ys"
  shows "xs = [] \<Longrightarrow> ring r ys []" "xs \<noteq> [] \<Longrightarrow> ring r xs ys"
proof -
  have c: "chain (rbb_buf r) (blks r (i # xs)) (rbb_buf r + rbb_buf_size r)"
    "chain (rbb_buf r) (blks r ys) (blk_buf (blk_at r i))" using assms by (simp_all add: ring_def)
  have hi: "blk_buf (blk_at r i) \<le> rbb_buf r + rbb_buf_size r"
    using chain_within [OF c(1), of "blk_at r i"] by (simp add: blks_def blk_end_def)
  have up: "chain lo bs hi'" if "chain lo bs hi" "hi \<le> hi'" for lo bs hi hi'
    using that by (induction bs arbitrary: lo) auto
  show "ring r ys []" if "xs = []"
    using up [OF c(2) hi] chain_le [OF up [OF c(2) hi]] chain_within [OF up [OF c(2) hi], of "blk_at r (hd ys)"]
    by (cases ys) (auto simp: ring_def blks_def)
  show "ring r xs ys" if ne: "xs \<noteq> []"
  proof -
    have "blk_end (blk_at r i) \<le> blk_buf (blk_at r (hd xs))" using c(1) ne by (cases xs) (auto simp: blks_def)
    then have "chain (rbb_buf r) (blks r ys) (blk_buf (blk_at r (hd xs)))"
      by (intro up [OF c(2)]) (simp add: blk_end_def)
    then show ?thesis using chain_tl [of "rbb_buf r" "blk_at r i"] c(1) ne by (simp add: ring_def blks_def)
  qed
qed

lemma ring_remove:
  assumes "ring r xs ys" "distinct (xs @ ys)"
  shows "\<exists>xs' ys'. remove1 i (xs @ ys) = xs' @ ys' \<and> ring r xs' ys'"
proof (cases "i \<in> set xs")
  case True
  then obtain us vs where x: "xs = us @ i # vs" "i \<notin> set us" by (meson split_list_first)
  show ?thesis
  proof (cases us)
    case Nil
    then show ?thesis
      using ring_delete_first [of r i vs ys] assms(1) x(1) by (cases "vs = []") (auto intro: exI [of _ "[]"])
  next
    case (Cons u us')
    have "ring r (us @ vs) ys"
      using assms(1) chain_delete [of "rbb_buf r" "blks r us" "blk_at r i" "blks r vs"] Cons
      by (simp add: ring_def x(1) blks_def)
    then show ?thesis using x by (intro exI [of _ "us @ vs"] exI [of _ ys]) (simp add: remove1_append)
  qed
next
  case nx: False
  show ?thesis
  proof (cases "i \<in> set ys")
    case True
    then obtain us vs where y: "ys = us @ i # vs" "i \<notin> set us" by (meson split_list_first)
    have "ring r xs (us @ vs)"
      using assms(1) chain_delete [of "rbb_buf r" "blks r us" "blk_at r i" "blks r vs"]
      by (auto simp: ring_def y(1) blks_def)
    then show ?thesis using nx y by (intro exI [of _ xs] exI [of _ "us @ vs"]) (simp add: remove1_append)
  next
    case False
    then show ?thesis using nx assms(1) by (intro exI [of _ xs] exI [of _ ys]) (simp add: remove1_append)
  qed
qed

section \<open>The invariant\<close>

lemma rbb_wfI:
  assumes "rbb_blk_list r = xs @ ys" "ring r xs ys" "distinct (rbb_blk_list r)" "rbb_buf r + rbb_buf_size r < 2 ^ 32"
    "\<And>i. i \<in> set (rbb_blk_list r) \<Longrightarrow> i < rbb_blk_max_num r \<and> blk_status (blk_at r i) \<noteq> RT_RBB_BLK_UNUSED \<and>
        0 < blk_size (blk_at r i)"
  shows "rbb_wf r"
  unfolding rbb_wf_def using assms(1,2) by (intro conjI ballI assms(3,4,5) exI)

lemma rbb_wfD:
  assumes "rbb_wf r"
  shows "distinct (rbb_blk_list r)" "rbb_buf r + rbb_buf_size r < 2 ^ 32"
    "i \<in> set (rbb_blk_list r) \<Longrightarrow> i < rbb_blk_max_num r \<and> blk_status (blk_at r i) \<noteq> RT_RBB_BLK_UNUSED \<and>
        0 < blk_size (blk_at r i)"
  using assms unfolding rbb_wf_def by blast+

lemma rbb_wf_unlink: "rbb_wf r \<Longrightarrow> rbb_wf (blk_unlink i r)"
proof -
  assume w: "rbb_wf r"
  then obtain xs ys where l: "rbb_blk_list r = xs @ ys" "ring r xs ys" "distinct (xs @ ys)"
    unfolding rbb_wf_def by metis
  obtain xs' ys' where l': "remove1 i (xs @ ys) = xs' @ ys'" "ring r xs' ys'"
    using ring_remove [OF l(2,3)] by blast
  show "rbb_wf (blk_unlink i r)"
  proof (rule rbb_wfI [of _ xs' ys'])
    show "distinct (rbb_blk_list (blk_unlink i r))" using distinct_remove1 [OF rbb_wfD(1) [OF w]] by simp
    show "ring (blk_unlink i r) xs' ys'" using l'(2) by (subst ring_cong [of _ r]) simp_all
    fix j assume "j \<in> set (rbb_blk_list (blk_unlink i r))"
    then have "j \<in> set (rbb_blk_list r)" using set_remove1_subset [of i "rbb_blk_list r"] by auto
    then show "j < rbb_blk_max_num (blk_unlink i r) \<and> blk_status (blk_at (blk_unlink i r) j) \<noteq> RT_RBB_BLK_UNUSED \<and>
        0 < blk_size (blk_at (blk_unlink i r) j)" using rbb_wfD(3) [OF w] by simp
  qed (use rbb_wfD [OF w] l(1) l'(1) in simp_all)
qed

lemma rbb_wf_status:
  assumes "rbb_wf r" "st \<noteq> RT_RBB_BLK_UNUSED \<or> i \<notin> set (rbb_blk_list r)"
  shows "rbb_wf (set_blk_status st i r)"
proof -
  obtain xs ys where l: "rbb_blk_list r = xs @ ys" "ring r xs ys" using assms(1) by (auto simp: rbb_wf_def)
  have "ring (set_blk_status st i r) xs ys" using l(2) by (subst ring_cong [of _ r]) simp_all
  then show ?thesis using assms l(1) unfolding rbb_wf_def by auto
qed

lemma rbb_wf_assert [simp]: "rbb_wf (RBB_ASSERT b r) = rbb_wf r"
  by (simp add: rbb_wf_def ring_cong [of "RBB_ASSERT b r" r])

lemma rbb_wf_put: "rbb_wf r \<Longrightarrow> rbb_wf (rt_rbb_blk_put i r)"
  by (simp add: rt_rbb_blk_put_def rbb_wf_status)

lemma rbb_wf_get: "rbb_wf r \<Longrightarrow> rbb_wf (fst (rt_rbb_blk_get r))"
  by (simp add: rt_rbb_blk_get_def rbb_wf_status split: option.split)

lemma rbb_wf_free: "rbb_wf r \<Longrightarrow> rbb_wf (rt_rbb_blk_free i r)"
  unfolding rt_rbb_blk_free_def
  by (rule rbb_wf_status) (auto simp: rbb_wf_unlink rbb_wf_def [of r])

lemma rbb_wf_queue_get_loop: "rbb_wf r \<Longrightarrow> rbb_wf (fst (queue_get_loop ns len lst tot bq r))"
  by (induction ns len lst tot bq r rule: queue_get_loop.induct)
    (simp_all add: queue_take_def rbb_wf_status rbb_wf_unlink)

lemma rbb_wf_queue_get: "rbb_wf r \<Longrightarrow> rbb_wf (fst (rt_rbb_blk_queue_get len bq r))"
  by (simp add: rt_rbb_blk_queue_get_def rbb_wf_queue_get_loop)

lemma rbb_wf_queue_free: "rbb_wf r \<Longrightarrow> rbb_wf (rt_rbb_blk_queue_free bq r)"
proof -
  have "rbb_wf r \<Longrightarrow> rbb_wf (fold (\<lambda>i. rt_rbb_blk_free (k + i)) is r)" for k "is"
    by (induction "is" arbitrary: r) (simp_all add: rbb_wf_free)
  then show "rbb_wf r \<Longrightarrow> rbb_wf (rt_rbb_blk_queue_free bq r)" by (simp add: rt_rbb_blk_queue_free_def)
qed

lemma rbb_wf_init: "buf + sz < 2 ^ 32 \<Longrightarrow> rbb_wf (rt_rbb_init buf sz set0 n)"
  by (simp add: rbb_wf_def rt_rbb_init_def ring_def blks_def)

text \<open>A new block at the end of the list, in a gap of the ring.\<close>

lemma find_emptyD:
  assumes "find_empty_blk_in_set r = Some i"
  shows "i < rbb_blk_max_num r" "blk_status (blk_at r i) = RT_RBB_BLK_UNUSED"
  using assms by (auto simp: find_empty_blk_in_set_def find_Some_iff)

lemma blk_place_simps [simp]:
  "rbb_blk_list (blk_place i b k r) = rbb_blk_list r @ [i]" "rbb_buf (blk_place i b k r) = rbb_buf r"
  "rbb_buf_size (blk_place i b k r) = rbb_buf_size r" "rbb_blk_max_num (blk_place i b k r) = rbb_blk_max_num r"
  "blk_at (blk_place i b k r) j = (if j = i then \<lparr>blk_status = RT_RBB_BLK_INITED, blk_size = k mod 2 ^ 24, blk_buf = b\<rparr>
     else blk_at r j)"
  by (simp_all add: blk_place_def upd_blk_def blk_at_def)

lemma rbb_wf_place:
  assumes w: "rbb_wf r" and i: "i < rbb_blk_max_num r" "blk_status (blk_at r i) = RT_RBB_BLK_UNUSED"
    and k: "0 < k" "k < 2 ^ 24" and rg: "\<exists>xs ys. rbb_blk_list r @ [i] = xs @ ys \<and> ring (blk_place i b k r) xs ys"
  shows "rbb_wf (blk_place i b k r)"
proof -
  have "i \<notin> set (rbb_blk_list r)" using w i(2) by (auto simp: rbb_wf_def)
  then show ?thesis using w i(1) k rg unfolding rbb_wf_def by auto
qed

lemma ring_place:
  assumes rg: "ring r xs ys" and ni: "i \<notin> set (xs @ ys)" and k: "k < 2 ^ 24"
  shows "xs = [] \<Longrightarrow> k \<le> rbb_buf_size r \<Longrightarrow> ring (blk_place i (rbb_buf r) k r) [i] []"
    "xs \<noteq> [] \<Longrightarrow> ys = [] \<Longrightarrow> blk_end (blk_at r (last xs)) + k \<le> rbb_buf r + rbb_buf_size r \<Longrightarrow>
      ring (blk_place i (blk_end (blk_at r (last xs))) k r) (xs @ [i]) []"
    "xs \<noteq> [] \<Longrightarrow> ys = [] \<Longrightarrow> rbb_buf r + k \<le> blk_buf (blk_at r (hd xs)) \<Longrightarrow> ring (blk_place i (rbb_buf r) k r) xs [i]"
    "ys \<noteq> [] \<Longrightarrow> blk_end (blk_at r (last ys)) + k \<le> blk_buf (blk_at r (hd xs)) \<Longrightarrow>
      ring (blk_place i (blk_end (blk_at r (last ys))) k r) xs (ys @ [i])"
proof -
  have at: "map (blk_at (blk_place i b k r)) zs = map (blk_at r) zs" if "set zs \<subseteq> set (xs @ ys)" for b zs
    using that ni by auto
  have hd: "blk_at (blk_place i b k r) (hd xs) = blk_at r (hd xs)" if "xs \<noteq> []" for b
    using that ni by (cases xs) auto
  note c = rg [unfolded ring_def blks_def]
  have le: "rbb_buf r \<le> blk_buf (blk_at r (hd xs))" if "xs \<noteq> []" using c that by (cases xs) auto
  show "xs = [] \<Longrightarrow> k \<le> rbb_buf_size r \<Longrightarrow> ring (blk_place i (rbb_buf r) k r) [i] []"
    using k by (simp add: ring_def blks_def blk_end_def)
  show "xs \<noteq> [] \<Longrightarrow> ys = [] \<Longrightarrow> blk_end (blk_at r (last xs)) + k \<le> rbb_buf r + rbb_buf_size r \<Longrightarrow>
      ring (blk_place i (blk_end (blk_at r (last xs))) k r) (xs @ [i]) []"
    using c k le hd by (auto simp: ring_def blks_def at last_map blk_end_def intro!: chain_snoc)
  show "xs \<noteq> [] \<Longrightarrow> ys = [] \<Longrightarrow> rbb_buf r + k \<le> blk_buf (blk_at r (hd xs)) \<Longrightarrow> ring (blk_place i (rbb_buf r) k r) xs [i]"
    using c k hd by (simp add: ring_def blks_def at blk_end_def)
  show "ring (blk_place i (blk_end (blk_at r (last ys))) k r) xs (ys @ [i])"
    if "ys \<noteq> []" "blk_end (blk_at r (last ys)) + k \<le> blk_buf (blk_at r (hd xs))"
  proof -
    have "xs \<noteq> []" using c that(1) by auto
    then show ?thesis using c k hd that by (auto simp: ring_def blks_def at last_map blk_end_def intro!: chain_snoc)
  qed
qed

text \<open>Whether the ring has wrapped around shows in the order of its first and last block.\<close>

lemma ring_wrapped_iff:
  assumes rg: "ring r xs ys" and ne: "xs \<noteq> []" and pos: "\<And>j. j \<in> set (xs @ ys) \<Longrightarrow> 0 < blk_size (blk_at r j)"
  shows "blk_buf (blk_at r (hd (xs @ ys))) \<le> blk_buf (blk_at r (last (xs @ ys))) \<longleftrightarrow> ys = []"
proof -
  note c = rg [unfolded ring_def blks_def]
  show ?thesis
  proof (cases "ys = []")
    case True
    have "blk_buf (blk_at r (hd xs)) \<le> blk_buf (blk_at r (last xs))"
      using ne c chain_within [of "blk_end (blk_at r (hd xs))" "map (blk_at r) (tl xs)" "rbb_buf r + rbb_buf_size r"
          "blk_at r (last xs)"]
      by (cases xs) (auto simp: blk_end_def)
    then show ?thesis using True ne by simp
  next
    case False
    have "blk_end (blk_at r (last ys)) \<le> blk_buf (blk_at r (hd xs))"
      using c ne False chain_within [of "rbb_buf r" "map (blk_at r) ys" _ "blk_at r (last ys)"] by auto
    moreover have "0 < blk_size (blk_at r (last ys))" using pos False by simp
    ultimately show ?thesis using False ne by (simp add: blk_end_def)
  qed
qed

lemma rbb_wf_alloc:
  assumes w: "rbb_wf r" and k: "0 < k" "k < 2 ^ 24" "k \<le> rbb_buf_size r"
  shows "rbb_wf (fst (rt_rbb_blk_alloc k r))"
proof (cases "find_empty_blk_in_set r")
  case None
  then show ?thesis using w k(2) by (simp add: rt_rbb_blk_alloc_def RBB_ASSERT_def)
next
  case (Some i)
  note e = find_emptyD [OF Some]
  obtain xs ys where l: "rbb_blk_list r = xs @ ys" and rg: "ring r xs ys" and bd: "rbb_buf r + rbb_buf_size r < 2 ^ 32"
    using w by (auto simp: rbb_wf_def)
  have ni: "i \<notin> set (xs @ ys)" using w e(2) l by (auto simp: rbb_wf_def)
  have pos: "0 < blk_size (blk_at r j)" if "j \<in> set (xs @ ys)" for j using w l that by (auto simp: rbb_wf_def)
  have place: "rbb_wf (blk_place i b k r)" if "(xs @ ys) @ [i] = us @ vs" "ring (blk_place i b k r) us vs" for b us vs
    by (rule rbb_wf_place [OF w e k(1,2)]) (use that l in auto)
  note c = rg [unfolded ring_def blks_def]
  show ?thesis
  proof (cases "xs = []")
    case True
    then have "rbb_blk_list r = []" using c l by simp
    then show ?thesis
      using place [OF _ ring_place(1) [OF rg ni k(2) True k(3)]] w Some c True k(2)
      by (simp add: rt_rbb_blk_alloc_def RBB_ASSERT_def)
  next
    case ne: False
    let ?h = "blk_at r (hd xs)" and ?t = "blk_at r (last (xs @ ys))"
    have h: "rbb_buf r \<le> blk_buf ?h" "blk_buf ?h < 2 ^ 32"
      using c ne bd chain_within [of "rbb_buf r" "map (blk_at r) xs" "rbb_buf r + rbb_buf_size r" ?h]
      by (auto simp: blk_end_def)
    have hd: "blk_at r (hd (xs @ ys)) = ?h" using ne by simp
    show ?thesis
    proof (cases "ys = []")
      case True
      have t: "blk_end ?t \<le> rbb_buf r + rbb_buf_size r"
        using c ne True chain_within [of "rbb_buf r" "map (blk_at r) xs" _ ?t] by auto
      note p = place [OF _ ring_place(2) [OF rg ni k(2) ne True]] place [OF _ ring_place(3) [OF rg ni k(2) ne True]]
      show ?thesis
        using p True ne w Some k(2) l ring_wrapped_iff [OF rg ne pos] t h bd
        by (auto simp: rt_rbb_blk_alloc_def RBB_ASSERT_def Let_def sub32_le)
    next
      case False
      have t: "blk_end ?t \<le> blk_buf ?h"
        using c ne False chain_within [of "rbb_buf r" "map (blk_at r) ys" _ ?t] by auto
      show ?thesis
        using place [OF _ ring_place(4) [OF rg ni k(2) False]] False ne w Some k(2) l
          ring_wrapped_iff [OF rg ne pos] t h bd
        by (auto simp: rt_rbb_blk_alloc_def RBB_ASSERT_def Let_def sub32_le)
    qed
  qed
qed

section \<open>No overlap\<close>

definition apart :: "rt_rbb_blk \<Rightarrow> rt_rbb_blk \<Rightarrow> bool" where
  "apart b c \<longleftrightarrow> blk_end b \<le> blk_buf c \<or> blk_end c \<le> blk_buf b"

lemma chain_apart:
  assumes "chain lo (map f is) hi" "i \<in> set is" "j \<in> set is" "i \<noteq> j"
  shows "apart (f i) (f j)"
proof -
  obtain m n where m: "m < length is" "is ! m = i" and n: "n < length is" "is ! n = j"
    using assms(2,3) by (auto simp: in_set_conv_nth)
  then have "m < n \<or> n < m" using assms(4) by (cases m n rule: linorder_cases) auto
  then show ?thesis using chain_sorted [OF assms(1)] m n by (fastforce simp: apart_def)
qed

lemma rbb_blocks_apart:
  assumes w: "rbb_wf r" and ij: "i \<in> set (rbb_blk_list r)" "j \<in> set (rbb_blk_list r)"
  shows "rbb_buf r \<le> blk_buf (blk_at r i)" "blk_end (blk_at r i) \<le> rbb_buf r + rbb_buf_size r"
    "i \<noteq> j \<Longrightarrow> apart (blk_at r i) (blk_at r j)"
proof -
  obtain xs ys where l: "rbb_blk_list r = xs @ ys" and rg: "ring r xs ys" using w unfolding rbb_wf_def by metis
  note c = rg [unfolded ring_def blks_def]
  let ?e = "rbb_buf r + rbb_buf_size r"
  have c1: "chain (rbb_buf r) (map (blk_at r) xs) ?e"
    and c2: "xs \<noteq> [] \<Longrightarrow> chain (rbb_buf r) (map (blk_at r) ys) (blk_buf (blk_at r (hd xs)))" using c by simp_all
  have x: "rbb_buf r \<le> blk_buf (blk_at r k) \<and> blk_end (blk_at r k) \<le> ?e \<and>
      blk_buf (blk_at r (hd xs)) \<le> blk_buf (blk_at r k)" if "k \<in> set xs" for k
  proof -
    have "blk_buf (blk_at r (hd xs)) \<le> blk_buf (blk_at r k)"
      using c that chain_within [of "blk_end (blk_at r (hd xs))" "map (blk_at r) (tl xs)" ?e "blk_at r k"]
      by (cases xs) (auto simp: blk_end_def)
    then show ?thesis using c that chain_within [of "rbb_buf r" "map (blk_at r) xs" ?e "blk_at r k"] by auto
  qed
  have y: "rbb_buf r \<le> blk_buf (blk_at r k) \<and> blk_end (blk_at r k) \<le> blk_buf (blk_at r (hd xs)) \<and> xs \<noteq> []"
    if "k \<in> set ys" for k
    using c that chain_within [of "rbb_buf r" "map (blk_at r) ys" _ "blk_at r k"] by (cases "xs = []") auto
  have h: "blk_buf (blk_at r (hd xs)) \<le> ?e" if "xs \<noteq> []" using x [of "hd xs"] that by (simp add: blk_end_def)
  have all: "rbb_buf r \<le> blk_buf (blk_at r i) \<and> blk_end (blk_at r i) \<le> ?e"
    using ij(1) l x [of i] y [of i] h by auto
  then show "rbb_buf r \<le> blk_buf (blk_at r i)" "blk_end (blk_at r i) \<le> ?e" by simp_all
  show "apart (blk_at r i) (blk_at r j)" if ne: "i \<noteq> j"
  proof -
    consider "i \<in> set xs" "j \<in> set xs" | "i \<in> set xs" "j \<in> set ys" | "i \<in> set ys" "j \<in> set xs" | "i \<in> set ys" "j \<in> set ys"
      using ij l by auto
    then show ?thesis
    proof cases
      case 1
      then show ?thesis using chain_apart [OF c1] ne by simp
    next
      case 2
      then show ?thesis using x [of i] y [of j] by (simp add: apart_def)
    next
      case 3
      then show ?thesis using x [of j] y [of i] by (simp add: apart_def)
    next
      case 4
      then show ?thesis using chain_apart [OF c2] ne y [of i] by simp
    qed
  qed
qed

text \<open>The states a buffer can be in.\<close>

inductive rbb_reach :: "addr \<Rightarrow> nat \<Rightarrow> rt_rbb \<Rightarrow> bool" for buf sz where
  rbb_start: "rbb_reach buf sz (rt_rbb_init buf sz set0 n)"
| rbb_alloc: "rbb_reach buf sz r \<Longrightarrow> 0 < k \<Longrightarrow> k < 2 ^ 24 \<Longrightarrow> k \<le> sz \<Longrightarrow> rbb_reach buf sz (fst (rt_rbb_blk_alloc k r))"
| rbb_put: "rbb_reach buf sz r \<Longrightarrow> rbb_reach buf sz (rt_rbb_blk_put i r)"
| rbb_get: "rbb_reach buf sz r \<Longrightarrow> rbb_reach buf sz (fst (rt_rbb_blk_get r))"
| rbb_free: "rbb_reach buf sz r \<Longrightarrow> rbb_reach buf sz (rt_rbb_blk_free i r)"
| rbb_queue_get: "rbb_reach buf sz r \<Longrightarrow> rbb_reach buf sz (fst (rt_rbb_blk_queue_get len bq r))"
| rbb_queue_free: "rbb_reach buf sz r \<Longrightarrow> rbb_reach buf sz (rt_rbb_blk_queue_free bq r)"

lemma queue_get_loop_size [simp]: "rbb_buf_size (fst (queue_get_loop ns len lst tot bq r)) = rbb_buf_size r"
  by (induction ns len lst tot bq r rule: queue_get_loop.induct) (simp_all add: queue_take_def)

lemma queue_free_size [simp]: "rbb_buf_size (rt_rbb_blk_queue_free bq r) = rbb_buf_size r"
proof -
  have "rbb_buf_size (fold (\<lambda>i. rt_rbb_blk_free (k + i)) is r) = rbb_buf_size r" for k "is"
    by (induction "is" arbitrary: r) (simp_all add: rt_rbb_blk_free_def)
  then show ?thesis by (simp add: rt_rbb_blk_queue_free_def)
qed

lemma rbb_reach_wf:
  assumes "rbb_reach buf sz r" "buf + sz < 2 ^ 32"
  shows "rbb_wf r \<and> rbb_buf_size r = sz"
  using assms(1)
proof induction
  case (rbb_start set0 n)
  then show ?case using rbb_wf_init [OF assms(2)] by (simp add: rt_rbb_init_def)
next
  case (rbb_alloc r k)
  have "rbb_buf_size (fst (rt_rbb_blk_alloc k r)) = rbb_buf_size r"
    by (simp add: rt_rbb_blk_alloc_def Let_def split: option.split)
  then show ?case using rbb_alloc rbb_wf_alloc by simp
next
  case (rbb_put r i)
  then show ?case using rbb_wf_put by (simp add: rt_rbb_blk_put_def)
next
  case (rbb_get r)
  then show ?case using rbb_wf_get [of r] by (simp add: rt_rbb_blk_get_def split: option.split)
next
  case (rbb_free r i)
  then show ?case using rbb_wf_free by (simp add: rt_rbb_blk_free_def)
next
  case (rbb_queue_get r len bq)
  then show ?case using rbb_wf_queue_get [of r len bq] by (simp add: rt_rbb_blk_queue_get_def)
next
  case (rbb_queue_free r bq)
  then show ?case by (simp add: rbb_wf_queue_free)
qed

section \<open>Queues of blocks\<close>

text \<open>\<open>rt_rbb_next_blk_queue_len\<close> predicts what \<open>rt_rbb_blk_queue_get\<close> would return with room for everything.\<close>

lemma next_len_cong:
  assumes "\<And>n. n \<in> set ns \<Longrightarrow> blk_at r' n = blk_at r n"
    "\<And>l. lst = Some l \<Longrightarrow> blk_buf (blk_at r' l) = blk_buf (blk_at r l)"
  shows "next_len_loop ns lst tot r' = next_len_loop ns lst tot r"
  using assms by (induction ns lst tot r rule: next_len_loop.induct) simp_all

lemma add32_less: "add32 a b < 2 ^ 32"
  by (simp add: add32_def)

lemma queue_get_next_len:
  assumes "distinct ns" "2 ^ 32 \<le> Suc len"
  shows "snd (snd (queue_get_loop ns len lst tot bq r)) = next_len_loop ns lst tot r"
  using assms
proof (induction ns len lst tot bq r rule: queue_get_loop.induct)
  case (2 n ns len tot bq r)
  have "next_len_loop ns (Some n) k (queue_take n r) = next_len_loop ns (Some n) k r" for k
    by (rule next_len_cong) (use 2 in \<open>auto simp: queue_take_def\<close>)
  with 2 show ?case by simp
next
  case (3 n ns len l tot bq r)
  have "next_len_loop ns (Some n) k (queue_take n r) = next_len_loop ns (Some n) k r" for k
    by (rule next_len_cong) (use 3 in \<open>auto simp: queue_take_def\<close>)
  moreover have "\<not> len < add32 tot k" for k using add32_less [of tot k] 3(3) by linarith
  ultimately show ?case using 3 by simp
qed simp

text \<open>When no block is larger than the room the caller has, the queue fits.\<close>

lemma queue_get_loop_bound:
  assumes "\<And>n. n \<in> set ns \<Longrightarrow> blk_size (blk_at r n) \<le> len" "lst = None \<Longrightarrow> tot = 0" "tot \<le> len"
  shows "snd (snd (queue_get_loop ns len lst tot bq r)) \<le> len"
  using assms
proof (induction ns len lst tot bq r rule: queue_get_loop.induct)
  case (2 n ns len tot bq r)
  have s: "blk_size (blk_at (queue_take n r) m) = blk_size (blk_at r m)" for m by (simp add: queue_take_def)
  have "add32 0 (blk_size (blk_at r n)) \<le> len" using 2(3) [of n] by (simp add: add32_def le_trans [OF mod_less_eq_dividend])
  with 2 s show ?case by simp
next
  case (3 n ns len l tot bq r)
  have s: "blk_size (blk_at (queue_take n r) m) = blk_size (blk_at r m)" for m by (simp add: queue_take_def)
  show ?case using 3 s by simp
qed simp

section \<open>Where blocks overlap\<close>

definition demo_rbb :: rt_rbb where
  "demo_rbb = rt_rbb_init 1000 100 (\<lambda>_. \<lparr>blk_status = RT_RBB_BLK_UNUSED, blk_size = 0, blk_buf = 0\<rparr>) 3"

lemmas rbb_eval = demo_rbb_def rt_rbb_init_def rt_rbb_blk_alloc_def rt_rbb_blk_put_def rt_rbb_blk_free_def
  rt_rbb_blk_queue_get_def rt_rbb_blk_queue_free_def rt_rbb_blk_queue_len_def find_empty_blk_in_set_def
  blk_place_def blk_at_def upd_blk_def set_blk_status_def blk_unlink_def queue_take_def RBB_ASSERT_def
  blk_end_def sub32_def add32_def Let_def upt_rec

text \<open>
  \<open>rt_rbb_blk_queue_get\<close> takes the blocks out of the list while the caller still reads them: the
  next block is placed on top of one that was not freed.
\<close>

lemma queue_blocks_overwritten:
  "let r1 = rt_rbb_blk_put 0 (fst (rt_rbb_blk_alloc 60 demo_rbb));
       (r2, bq, n) = rt_rbb_blk_queue_get 100 \<lparr>bq_blocks = 0, bq_blk_num = 0\<rparr> r1;
       (r3, b) = rt_rbb_blk_alloc 60 r2
   in n = 60 \<and> bq = \<lparr>bq_blocks = 0, bq_blk_num = 1\<rparr> \<and> b = Some 1 \<and>
      blk_status (blk_at r3 0) = RT_RBB_BLK_GET \<and> \<not> apart (blk_at r3 0) (blk_at r3 1)"
  by (simp add: rbb_eval apart_def)

text \<open>
  The blocks of a queue need not be neighbours in the set: here the queue is block 1 and block 0,
  but its length is read from blocks 1 and 2, and freeing it fails an assertion on block 2.
\<close>

lemma queue_blocks_not_adjacent:
  "let r1 = fst (rt_rbb_blk_alloc 20 (fst (rt_rbb_blk_alloc 10 demo_rbb)));
       r2 = rt_rbb_blk_put 0 (rt_rbb_blk_put 1 (fst (rt_rbb_blk_alloc 30 (rt_rbb_blk_free 0 r1))));
       (r3, bq, n) = rt_rbb_blk_queue_get 100 \<lparr>bq_blocks = 0, bq_blk_num = 0\<rparr> r2
   in n = 50 \<and> bq = \<lparr>bq_blocks = 1, bq_blk_num = 2\<rparr> \<and> rt_rbb_blk_queue_len bq r3 = 20 \<and>
      \<not> rbb_fault r3 \<and> rbb_fault (rt_rbb_blk_queue_free bq r3) \<and>
      blk_status (blk_at (rt_rbb_blk_queue_free bq r3) 0) = RT_RBB_BLK_GET"
  by (simp add: rbb_eval)

text \<open>Into an empty buffer a block of any size is placed.\<close>

lemma oversized_block_accepted:
  "let (r, b) = rt_rbb_blk_alloc 200 demo_rbb
   in b = Some 0 \<and> blk_end (blk_at r 0) = 1200 \<and> rbb_buf r + rbb_buf_size r = 1100"
  by (simp add: rbb_eval)

end
