(* ===== verification/Update.thy ===== *)
theory Update
  imports Mempool
begin

text \<open>
  The firmware update service (\<^verbatim>\<open>applications/update.c\<close>): a TCP server that receives an image in
  frames (a three-byte header, then a size or a packet of 1024 bytes), writes it page by page to
  the flash device and resets the processor. The network (lwIP) is a list of the events the
  socket reports, cut to what a receive asks for; the results of sending are a list as well. The
  flash device is the log of the pages written to it. The result: a sender that follows the
  protocol gets every frame acknowledged and its image, size and magic number are what the flash
  holds; and the cases in which the service does not do what it is meant to.
\<close>

section \<open>The protocol\<close>

definition SOH :: rt_uint8_t where "SOH = 0x01"
definition STX :: rt_uint8_t where "STX = 0x02"
definition EOT :: rt_uint8_t where "EOT = 0x04"
definition ACK :: rt_uint8_t where "ACK = 0x06"
definition NAK :: rt_uint8_t where "NAK = 0x15"
definition MAGIC :: rt_uint32_t where "MAGIC = 0x11223344"
definition HEADER_LEN :: nat where "HEADER_LEN = 3"
definition BUF_SZ :: nat where "BUF_SZ = 4096"
definition MAX_DATA_SIZE :: nat where "MAX_DATA_SIZE = 1024"
definition UPDATE_INFO_ADDR :: nat where "UPDATE_INFO_ADDR = 897"
definition UPDATE_DATA_ADDR :: nat where "UPDATE_DATA_ADDR = 898"

type_synonym bytes = "rt_uint8_t list"

definition RBIGU4 :: "bytes \<Rightarrow> rt_uint32_t" where
  "RBIGU4 p = (push_bit 24 (ucast (p ! 0))) OR (push_bit 16 (ucast (p ! 1))) OR
     (push_bit 8 (ucast (p ! 2))) OR ucast (p ! 3)"

definition BIGU4 :: "rt_uint32_t \<Rightarrow> bytes" where
  "BIGU4 i = [ucast (drop_bit 24 i AND 0xff), ucast (drop_bit 16 i AND 0xff),
     ucast (drop_bit 8 i AND 0xff), ucast (i AND 0xff)]"

definition WBIGU4 :: "nat \<Rightarrow> rt_uint32_t \<Rightarrow> bytes \<Rightarrow> bytes" where
  "WBIGU4 off i buf = memcpy_at buf off (BIGU4 i)"

section \<open>The socket\<close>

text \<open>
  What the socket reports: a segment of data, the end of the connection, an error, or, for a
  receive with a time limit, that the time is over.
\<close>

datatype net_event = Net_data bytes | Net_closed | Net_error int | Net_timeout

text \<open>
  The state of the service: its static variables and buffers, the log of the pages written and of
  the bytes sent, the events still to come and the results of sending still to come (success when
  there is none), and whether the service holds \<^verbatim>\<open>update_lock\<close>. \<open>up_fault\<close> marks an access outside a
  buffer or through a null \<^verbatim>\<open>data_buf\<close>.
\<close>

record upd_state =
  header_buf :: bytes
  total_size :: rt_uint32_t
  page_offset :: rt_uint16_t
  pack_count :: rt_uint16_t
  data_buf :: "bytes option"
  up_flash :: "(nat \<times> bytes) list"
  up_sent :: bytes
  up_events :: "net_event list"
  up_results :: "int list"
  up_locked :: bool
  up_fault :: bool

text \<open>\<^verbatim>\<open>lwip_recv\<close>: waits for an event, takes at most \<open>n\<close> bytes, and leaves the rest of a segment.\<close>

fun recv_events :: "nat \<Rightarrow> net_event list \<Rightarrow> ((int \<times> bytes) \<times> net_event list) option" where
  "recv_events n [] = None"
| "recv_events n (Net_timeout # es) = recv_events n es"
| "recv_events n (Net_closed # es) = Some ((0, []), es)"
| "recv_events n (Net_error e # es) = Some ((e, []), es)"
| "recv_events n (Net_data bs # es) =
    (if bs = [] then recv_events n es
     else Some ((int (min n (length bs)), take n bs),
                if length bs \<le> n then es else Net_data (drop n bs) # es))"

text \<open>
  \<^verbatim>\<open>blocking_lwip_recv\<close>: \<open>len\<close> bytes are still wanted and \<open>got\<close> are there. The result is what the
  function returns and what it wrote into the buffer, also when it returns an error.
\<close>

fun blocking_lwip_recv :: "nat \<Rightarrow> bytes \<Rightarrow> net_event list \<Rightarrow> ((int \<times> bytes) \<times> net_event list) option" where
  "blocking_lwip_recv len got [] = None"
| "blocking_lwip_recv len got (Net_timeout # es) = Some ((int (length got), got), es)"
| "blocking_lwip_recv len got (Net_closed # es) = Some ((- 1, got), es)"
| "blocking_lwip_recv len got (Net_error e # es) = Some ((e, got), es)"
| "blocking_lwip_recv len got (Net_data bs # es) =
    (if bs = [] then blocking_lwip_recv len got es
     else if length bs < len then blocking_lwip_recv (len - length bs) (got @ bs) es
     else Some ((int (length got + len), got @ take len bs),
                if length bs = len then es else Net_data (drop len bs) # es))"

definition upd_send :: "rt_uint8_t \<Rightarrow> upd_state \<Rightarrow> upd_state \<times> int" where
  "upd_send b st =
    (case up_results st of
       [] \<Rightarrow> (st\<lparr>up_sent := up_sent st @ [b]\<rparr>, 1)
     | r # rs \<Rightarrow> (st\<lparr>up_sent := up_sent st @ [b], up_results := rs\<rparr>, r))"

text \<open>The byte sent is the first of the header buffer.\<close>

definition reply :: "rt_uint8_t \<Rightarrow> upd_state \<Rightarrow> upd_state \<times> int" where
  "reply b st = upd_send b (st\<lparr>header_buf := (header_buf st)[0 := b]\<rparr>)"

section \<open>Receiving a frame\<close>

definition net_size :: "net_event list \<Rightarrow> nat" where
  "net_size es = sum_list (map (\<lambda>e. case e of Net_data bs \<Rightarrow> Suc (length bs) | _ \<Rightarrow> 1) es)"

lemma net_size_simps [simp]:
  "net_size [] = 0" "net_size (Net_data bs # es) = Suc (length bs) + net_size es" "net_size (Net_closed # es) = Suc (net_size es)"
  "net_size (Net_error e # es) = Suc (net_size es)" "net_size (Net_timeout # es) = Suc (net_size es)"
  by (simp_all add: net_size_def)

lemma recv_events_less: "recv_events n es = Some (r, es') \<Longrightarrow> 0 < n \<Longrightarrow> net_size es' < net_size es"
  by (induction n es rule: recv_events.induct) (auto split: if_splits)

text \<open>The result of a part of the loop: it may leave it by \<^verbatim>\<open>goto exit\<close> or wait for ever.\<close>

datatype 'a phase = Go 'a | Exit 'a | Blocked

function header_loop :: "nat \<Rightarrow> upd_state \<Rightarrow> upd_state phase" where
  "header_loop index st =
    (if index \<ge> HEADER_LEN then Go st
     else case recv_events (HEADER_LEN - index) (up_events st) of
         None \<Rightarrow> Blocked
       | Some ((ret, bs), es) \<Rightarrow>
           let st1 = st\<lparr>up_events := es, header_buf := memcpy_at (header_buf st) index bs\<rparr> in
           if ret \<le> 0 then header_loop index st1
           else
             let index1 = index + nat ret in
             if index1 < HEADER_LEN then header_loop index1 st1
             else if ret \<noteq> int HEADER_LEN \<or>
                 unat (header_buf st1 ! 1) + unat (header_buf st1 ! 2) \<noteq> 0xff then
               let (st2, r) = reply NAK st1 in if r < 0 then Exit st2 else Go st2
             else Go st1)"
  by pat_completeness auto

termination
  by (relation "measure (\<lambda>(index, st). net_size (up_events st))") (auto dest: recv_events_less)

declare header_loop.simps [simp del]

text \<open>
  The loops that receive the rest of a frame: \<open>data_index\<close> is signed, and a negative result is added
  to it like any other. \<open>retry\<close> is decremented each time the index is too small.
\<close>

fun size_loop :: "nat \<Rightarrow> int \<Rightarrow> bytes \<Rightarrow> upd_state \<Rightarrow> (upd_state \<times> bytes) phase" where
  "size_loop 0 data_index buf st = Go (st, buf)"
| "size_loop (Suc retry) data_index buf st =
    (if data_index \<ge> 4 then Go (st, buf)
     else case recv_events (nat (4 - data_index)) (up_events st) of
         None \<Rightarrow> Blocked
       | Some ((ret, bs), es) \<Rightarrow>
           let st1 = st\<lparr>up_events := es, up_fault := (up_fault st \<or> (data_index < 0 \<and> bs \<noteq> []))\<rparr>;
               buf1 = (if data_index < 0 then buf else memcpy_at buf (nat data_index) bs)
           in if ret = 0 then size_loop retry data_index buf1 st1
              else if retry = 0 then
                let (st2, r) = reply NAK st1
                in if r < 0 then Exit (st2, buf1) else size_loop retry (data_index + ret) buf1 st2
              else size_loop retry (data_index + ret) buf1 st1)"

definition store_data :: "int \<Rightarrow> bytes \<Rightarrow> upd_state \<Rightarrow> upd_state" where
  "store_data pos bs st =
    (case data_buf st of
       None \<Rightarrow> (if bs = [] then st else st\<lparr>up_fault := True\<rparr>)
     | Some buf \<Rightarrow>
         if bs = [] then st
         else if pos < 0 \<or> nat pos + length bs > BUF_SZ then st\<lparr>up_fault := True\<rparr>
         else st\<lparr>data_buf := Some (memcpy_at buf (nat pos) bs)\<rparr>)"

fun packet_loop :: "nat \<Rightarrow> int \<Rightarrow> upd_state \<Rightarrow> upd_state phase" where
  "packet_loop 0 data_index st = Go st"
| "packet_loop (Suc retry) data_index st =
    (if data_index \<ge> int MAX_DATA_SIZE then Go st
     else case blocking_lwip_recv (nat (int MAX_DATA_SIZE - data_index)) [] (up_events st) of
         None \<Rightarrow> Blocked
       | Some ((ret, bs), es) \<Rightarrow>
           let st1 = store_data (int (unat (pack_count st) * MAX_DATA_SIZE) + data_index) bs
                       (st\<lparr>up_events := es\<rparr>)
           in if ret = 0 then packet_loop retry data_index st1
              else if retry = 0 then
                let (st2, r) = reply NAK st1
                in if r < 0 then Exit st2 else packet_loop retry (data_index + ret) st2
              else packet_loop retry (data_index + ret) st1)"

definition write_page :: "upd_state \<Rightarrow> upd_state" where
  "write_page st =
    (case data_buf st of
       None \<Rightarrow> st\<lparr>up_fault := True, pack_count := 0, page_offset := page_offset st + 1\<rparr>
     | Some buf \<Rightarrow> st\<lparr>pack_count := 0,
           up_flash := up_flash st @ [(UPDATE_DATA_ADDR + unat (page_offset st), buf)],
           page_offset := page_offset st + 1\<rparr>)"

section \<open>The frames\<close>

datatype frame_end = Frame_next upd_state | Frame_exit upd_state | Frame_reset upd_state | Frame_blocked

definition acknowledge :: "upd_state \<Rightarrow> frame_end" where
  "acknowledge st = (case reply ACK st of (st1, r) \<Rightarrow> if r < 0 then Frame_exit st1 else Frame_next st1)"

text \<open>\<open>buf0\<close> is what the uninitialised array on the stack holds.\<close>

definition size_frame :: "bytes \<Rightarrow> upd_state \<Rightarrow> frame_end" where
  "size_frame buf0 st =
    (case size_loop 10 0 buf0 st of
       Blocked \<Rightarrow> Frame_blocked
     | Exit (st1, _) \<Rightarrow> Frame_exit st1
     | Go (st1, buf) \<Rightarrow>
         acknowledge (st1\<lparr>pack_count := 0, page_offset := 0, total_size := RBIGU4 buf\<rparr>))"

definition data_frame :: "upd_state \<Rightarrow> frame_end" where
  "data_frame st =
    (case packet_loop 20 0 st of
       Blocked \<Rightarrow> Frame_blocked
     | Exit st1 \<Rightarrow> Frame_exit st1
     | Go st1 \<Rightarrow>
         let st2 = st1\<lparr>pack_count := pack_count st1 + 1\<rparr>;
             st3 = (if pack_count st2 = 4 then write_page st2 else st2)
         in acknowledge st3)"

definition end_frame :: "upd_state \<Rightarrow> frame_end" where
  "end_frame st =
    (let st1 = (if pack_count st \<noteq> 0 then write_page st else st)
     in case data_buf st1 of
          None \<Rightarrow> Frame_reset (st1\<lparr>up_fault := True\<rparr>)
        | Some buf \<Rightarrow>
            let buf1 = WBIGU4 4 MAGIC (WBIGU4 0 (total_size st1) buf);
                st2 = st1\<lparr>data_buf := Some buf1, up_flash := up_flash st1 @ [(UPDATE_INFO_ADDR, buf1)]\<rparr>
            in Frame_reset (fst (reply ACK st2)))"

definition update_frame :: "bytes \<Rightarrow> upd_state \<Rightarrow> frame_end" where
  "update_frame buf0 st =
    (case header_loop 0 st of
       Blocked \<Rightarrow> Frame_blocked
     | Exit st1 \<Rightarrow> Frame_exit st1
     | Go st1 \<Rightarrow>
         if header_buf st1 ! 0 = SOH then size_frame buf0 st1
         else if header_buf st1 ! 0 = STX then data_frame st1
         else if header_buf st1 ! 0 = EOT then end_frame st1
         else Frame_next st1)"

text \<open>The loop over the frames of a connection; \<open>n\<close> bounds the number of frames.\<close>

fun update_session :: "nat \<Rightarrow> bytes \<Rightarrow> upd_state \<Rightarrow> frame_end" where
  "update_session 0 buf0 st = Frame_next st"
| "update_session (Suc n) buf0 st =
    (case update_frame buf0 st of
       Frame_next st1 \<Rightarrow> update_session n buf0 st1
     | e \<Rightarrow> e)"

text \<open>
  One turn of the accept loop: the lock is taken, the page buffer allocated (\<open>mem\<close> is the block
  \<^verbatim>\<open>rt_malloc\<close> returns), the frames served; at \<^verbatim>\<open>exit\<close> the lock is released and the buffer freed.
\<close>

definition update_connection :: "nat \<Rightarrow> bytes \<Rightarrow> bytes option \<Rightarrow> upd_state \<Rightarrow> frame_end" where
  "update_connection n buf0 mem st =
    (case update_session n buf0 (st\<lparr>up_locked := True, data_buf := mem\<rparr>) of
       Frame_exit st1 \<Rightarrow> Frame_exit (st1\<lparr>up_locked := False, data_buf := None\<rparr>)
     | e \<Rightarrow> e)"

section \<open>Big-endian numbers\<close>

lemma byte_bit:
  "bit (ucast (ucast (drop_bit k i AND 0xff) :: rt_uint8_t) :: rt_uint32_t) m \<longleftrightarrow> m < 8 \<and> bit (i :: rt_uint32_t) (k + m)"
proof -
  have "(0xff :: 32 word) = mask 8" by (simp add: mask_eq_exp_minus_1)
  then have "bit (0xff :: 32 word) l \<longleftrightarrow> l < 8" for l by (simp only: bit_mask_iff) auto
  then show ?thesis by (auto simp: bit_ucast_iff bit_and_iff bit_drop_bit_eq)
qed

lemma BIGU4_round_trip: "RBIGU4 (BIGU4 i) = i"
proof (rule bit_word_eqI)
  fix n assume n: "n < LENGTH(32)"
  have b0: "bit (ucast (ucast (i AND 0xff) :: rt_uint8_t) :: rt_uint32_t) m \<longleftrightarrow> m < 8 \<and> bit i m" for m
    using byte_bit [of 0 i m] by simp
  have "bit (RBIGU4 (BIGU4 i)) n \<longleftrightarrow> 24 \<le> n \<and> n - 24 < 8 \<and> bit i (24 + (n - 24)) \<or> 16 \<le> n \<and> n - 16 < 8 \<and> bit i (16 + (n - 16)) \<or>
      8 \<le> n \<and> n - 8 < 8 \<and> bit i (8 + (n - 8)) \<or> n < 8 \<and> bit i n"
    using n by (simp add: RBIGU4_def BIGU4_def bit_or_iff bit_push_bit_iff byte_bit b0)
  also have "\<dots> \<longleftrightarrow> bit i n"
  proof -
    consider "n < 8" | "8 \<le> n" "n < 16" | "16 \<le> n" "n < 24" | "24 \<le> n" "n < 32" using n by fastforce
    then show ?thesis by cases (auto simp: less_diff_conv2)
  qed
  finally show "bit (RBIGU4 (BIGU4 i)) n = bit i n" .
qed

lemma length_BIGU4 [simp]: "length (BIGU4 i) = 4"
  by (simp add: BIGU4_def)

section \<open>A sender that follows the protocol\<close>

text \<open>What the pages hold: packets fill a buffer of four, which is written when it is full.\<close>

definition spec_packet :: "bytes \<Rightarrow> bytes \<times> nat \<times> bytes list \<Rightarrow> bytes \<times> nat \<times> bytes list" where
  "spec_packet p = (\<lambda>(buf, c, pgs).
    let buf1 = memcpy_at buf (c * MAX_DATA_SIZE) p
    in if c + 1 = 4 then (buf1, 0, pgs @ [buf1]) else (buf1, c + 1, pgs))"

definition page_entries :: "bytes list \<Rightarrow> (nat \<times> bytes) list" where
  "page_entries pgs = zip [UPDATE_DATA_ADDR..<UPDATE_DATA_ADDR + length pgs] pgs"

lemma page_entries_snoc: "page_entries (pgs @ [p]) = page_entries pgs @ [(UPDATE_DATA_ADDR + length pgs, p)]"
  by (simp add: page_entries_def)

definition rep :: "(nat \<times> bytes) list \<Rightarrow> bytes \<times> nat \<times> bytes list \<Rightarrow> upd_state \<Rightarrow> bool" where
  "rep base = (\<lambda>(buf, c, pgs) st.
    data_buf st = Some buf \<and> length buf = BUF_SZ \<and> unat (pack_count st) = c \<and> c < 4 \<and>
    up_flash st = base @ page_entries pgs \<and> unat (page_offset st) = length pgs \<and>
    length (header_buf st) = HEADER_LEN \<and> up_results st = [] \<and> \<not> up_fault st)"

lemma blocking_recv_segments:
  assumes "[] \<notin> set segs" "0 < length (concat segs)"
  shows "blocking_lwip_recv (length (concat segs)) got (map Net_data segs @ es) =
    Some ((int (length got + length (concat segs)), got @ concat segs), es)"
  using assms
proof (induction segs arbitrary: got)
  case (Cons b segs)
  show ?case
  proof (cases "concat segs = []")
    case True
    then have "segs = []" using Cons.prems(1) by (cases segs) auto
    then show ?thesis using Cons.prems by auto
  next
    case False
    then show ?thesis using Cons.IH [of "got @ b"] Cons.prems by (auto simp: ac_simps)
  qed
qed simp

lemma header_received:
  assumes "length (header_buf st) = HEADER_LEN" "up_events st = Net_data [b, x, y] # es" "unat x + unat y = 0xff"
  shows "header_loop 0 st = Go (st\<lparr>up_events := es, header_buf := [b, x, y]\<rparr>)"
  using assms by (simp add: header_loop.simps [of 0 st] HEADER_LEN_def memcpy_at_def Let_def)

lemma reply_ok:
  "up_results st = [] \<Longrightarrow> reply b st = (st\<lparr>header_buf := (header_buf st)[0 := b], up_sent := up_sent st @ [b]\<rparr>, 1)"
  by (simp add: reply_def upd_send_def)

lemma acknowledge_ok:
  "up_results st = [] \<Longrightarrow> acknowledge st =
    Frame_next (st\<lparr>header_buf := (header_buf st)[0 := ACK], up_sent := up_sent st @ [ACK]\<rparr>)"
  by (simp add: acknowledge_def reply_ok)

lemma update_codes [simp]: "STX \<noteq> SOH" "EOT \<noteq> SOH" "EOT \<noteq> STX" "SOH \<noteq> STX"
  by (simp_all add: SOH_def STX_def EOT_def)

lemma size_frame_step:
  assumes r: "data_buf st = Some buf" "length buf = BUF_SZ" "\<not> up_fault st" and b0: "length buf0 = 4"
    and h: "length (header_buf st) = HEADER_LEN" "up_results st = []"
    and ev: "up_events st = Net_data [SOH, x, y] # Net_data (BIGU4 sz) # es" and xy: "unat x + unat y = 0xff"
  shows "\<exists>st'. update_frame buf0 st = Frame_next st' \<and> rep (up_flash st) (buf, 0, []) st' \<and> up_events st' = es \<and>
    up_sent st' = up_sent st @ [ACK] \<and> total_size st' = sz"
proof -
  let ?st1 = "st\<lparr>up_events := Net_data (BIGU4 sz) # es, header_buf := [SOH, x, y]\<rparr>"
  have "size_loop 10 0 buf0 ?st1 = Go (?st1\<lparr>up_events := es\<rparr>, BIGU4 sz)"
  proof -
    have "size_loop (Suc (Suc k)) 0 buf0 ?st1 = Go (?st1\<lparr>up_events := es\<rparr>, BIGU4 sz)" for k
    proof -
      have e: "BIGU4 sz \<noteq> []" by (simp add: BIGU4_def)
      have m: "memcpy_at buf0 0 (BIGU4 sz) = BIGU4 sz" using b0 by (simp add: memcpy_at_def)
      show ?thesis using e m by (simp add: Let_def)
    qed
    from this [of 8] show ?thesis by simp
  qed
  then have "update_frame buf0 st = acknowledge (?st1\<lparr>up_events := es, pack_count := 0, page_offset := 0, total_size := sz\<rparr>)"
    by (simp add: update_frame_def header_received [OF h(1) ev xy] size_frame_def BIGU4_round_trip)
  then show ?thesis using r h by (simp add: acknowledge_ok rep_def page_entries_def HEADER_LEN_def)
qed

lemma store_data_inside:
  assumes "data_buf st = Some buf" "pos + length bs \<le> BUF_SZ" "bs \<noteq> []"
  shows "store_data (int pos) bs st = st\<lparr>data_buf := Some (memcpy_at buf pos bs)\<rparr>"
  using assms by (simp add: store_data_def)

lemma data_frame_step:
  assumes r: "rep base (buf, c, pgs) st" and room: "length pgs < 65535"
    and ev: "up_events st = Net_data [STX, x, y] # map Net_data segs @ es" and xy: "unat x + unat y = 0xff"
    and segs: "[] \<notin> set segs" "length (concat segs) = MAX_DATA_SIZE"
  shows "\<exists>st'. update_frame buf0 st = Frame_next st' \<and> rep base (spec_packet (concat segs) (buf, c, pgs)) st' \<and>
    up_events st' = es \<and> up_sent st' = up_sent st @ [ACK] \<and> total_size st' = total_size st"
proof -
  have h: "length (header_buf st) = HEADER_LEN" "up_results st = []" and b: "data_buf st = Some buf" "length buf = BUF_SZ"
    and c: "unat (pack_count st) = c" "c < 4" and pg: "unat (page_offset st) = length pgs"
    using r by (simp_all add: rep_def)
  let ?st1 = "st\<lparr>up_events := map Net_data segs @ es, header_buf := [STX, x, y]\<rparr>"
  let ?p = "concat segs" and ?buf = "memcpy_at buf (c * MAX_DATA_SIZE) (concat segs)"
  have fit: "c * MAX_DATA_SIZE + length ?p \<le> BUF_SZ" using c(2) segs(2) by (simp add: MAX_DATA_SIZE_def BUF_SZ_def)
  have ne: "?p \<noteq> []" using segs(2) unfolding MAX_DATA_SIZE_def by (metis list.size(3) zero_neq_numeral)
  let ?st2 = "?st1\<lparr>up_events := es, data_buf := Some ?buf\<rparr>"
  have st: "store_data (int (unat (pack_count ?st1) * MAX_DATA_SIZE)) ?p (?st1\<lparr>up_events := es\<rparr>) = ?st2"
    using store_data_inside [OF _ fit ne, of "?st1\<lparr>up_events := es\<rparr>" buf] b c(1) by (simp del: of_nat_mult)
  have "packet_loop (Suc (Suc k)) 0 ?st1 = Go ?st2" for k
    using st blocking_recv_segments [OF segs(1), of "[]" es] segs(2)
    by (simp add: MAX_DATA_SIZE_def Let_def)
  from this [of 18] have pl: "packet_loop 20 0 ?st1 = Go ?st2" by simp
  have len: "length ?buf = BUF_SZ" using fit b(2) by simp
  have pc: "unat (pack_count st + 1) = c + 1" and four: "pack_count st + 1 = 4 \<longleftrightarrow> c + 1 = 4"
  proof -
    show "unat (pack_count st + 1) = c + 1" using c by (simp add: unat_word_ariths)
    then show "pack_count st + 1 = 4 \<longleftrightarrow> c + 1 = 4" by (auto simp: word_unat_eq_iff)
  qed
  have po: "unat (page_offset st + 1) = length pgs + 1" using pg room by (simp add: unat_word_ariths)
  have e: "update_frame buf0 st = acknowledge (if c + 1 = 4 then write_page (?st2\<lparr>pack_count := pack_count st + 1\<rparr>)
      else ?st2\<lparr>pack_count := pack_count st + 1\<rparr>)"
    using four by (simp add: update_frame_def header_received [OF h(1) ev xy] data_frame_def pl Let_def)
  show ?thesis
    using r c h len pc po pg unfolding e
    by (auto simp: acknowledge_ok write_page_def rep_def spec_packet_def page_entries_snoc HEADER_LEN_def Let_def)
qed

lemma end_frame_step:
  assumes r: "rep base (buf, c, pgs) st" and ev: "up_events st = Net_data [EOT, x, y] # es" and xy: "unat x + unat y = 0xff"
  shows "\<exists>st' info. update_frame buf0 st = Frame_reset st' \<and>
    up_flash st' = base @ page_entries (pgs @ (if c = 0 then [] else [buf])) @ [(UPDATE_INFO_ADDR, info)] \<and>
    take 8 info = BIGU4 (total_size st) @ BIGU4 MAGIC \<and> up_sent st' = up_sent st @ [ACK] \<and> \<not> up_fault st'"
proof -
  have h: "length (header_buf st) = HEADER_LEN" "up_results st = []" and b: "data_buf st = Some buf" "length buf = BUF_SZ"
    and c: "unat (pack_count st) = c" and pg: "unat (page_offset st) = length pgs" and f: "\<not> up_fault st"
    and fl: "up_flash st = base @ page_entries pgs"
    using r by (simp_all add: rep_def)
  let ?info = "WBIGU4 4 MAGIC (WBIGU4 0 (total_size st) buf)"
  have t: "take 8 ?info = BIGU4 (total_size st) @ BIGU4 MAGIC"
    using b(2) by (simp add: WBIGU4_def memcpy_at_def BUF_SZ_def)
  have z: "pack_count st = 0 \<longleftrightarrow> c = 0" using c by (metis unat_eq_zero)
  show ?thesis
    using h b z pg f fl t
    by (auto simp: update_frame_def header_received [OF h(1) ev xy] end_frame_def write_page_def reply_ok Let_def
        page_entries_snoc intro!: exI [of _ ?info])
qed

text \<open>The packets of an image, each with the header and the segments it arrives in.\<close>

type_synonym packet = "(rt_uint8_t \<times> rt_uint8_t) \<times> bytes list"

definition packet_ok :: "packet \<Rightarrow> bool" where
  "packet_ok p \<longleftrightarrow> unat (fst (fst p)) + unat (snd (fst p)) = 0xff \<and> [] \<notin> set (snd p) \<and>
     length (concat (snd p)) = MAX_DATA_SIZE"

definition packet_events :: "packet \<Rightarrow> net_event list" where
  "packet_events p = Net_data [STX, fst (fst p), snd (fst p)] # map Net_data (snd p)"

definition packet_data :: "packet \<Rightarrow> bytes" where
  "packet_data p = concat (snd p)"

lemma spec_packet_pages: "length (snd (snd (spec_packet p a))) \<le> Suc (length (snd (snd a)))"
  by (simp add: spec_packet_def Let_def split: prod.split)

lemma packets_received:
  assumes "rep base a st" "length (snd (snd a)) + length ps < 65535" "list_all packet_ok ps"
    "up_events st = concat (map packet_events ps) @ es"
  shows "\<exists>st'. update_session (length ps + n) buf0 st = update_session n buf0 st' \<and>
    rep base (fold spec_packet (map packet_data ps) a) st' \<and> up_events st' = es \<and>
    up_sent st' = up_sent st @ replicate (length ps) ACK \<and> total_size st' = total_size st"
  using assms
proof (induction ps arbitrary: a st)
  case (Cons p ps)
  obtain buf c pgs where a: "a = (buf, c, pgs)" by (cases a)
  have "up_events st = Net_data [STX, fst (fst p), snd (fst p)] # map Net_data (snd p) @ concat (map packet_events ps) @ es"
    using Cons.prems(4) by (simp add: packet_events_def [of p])
  from data_frame_step [OF Cons.prems(1) [unfolded a] _ this] obtain st1 where
    s1: "update_frame buf0 st = Frame_next st1" "rep base (spec_packet (packet_data p) a) st1"
      "up_events st1 = concat (map packet_events ps) @ es" "up_sent st1 = up_sent st @ [ACK]" "total_size st1 = total_size st"
    using Cons.prems(2,3) by (auto simp: packet_ok_def packet_data_def a)
  have l: "length (snd (snd (spec_packet (packet_data p) a))) + length ps < 65535"
    using spec_packet_pages [of "packet_data p" a] Cons.prems(2) by simp
  from Cons.IH [OF s1(2) l _ s1(3)] Cons.prems(3) s1 show ?case by auto
qed (auto intro!: exI)

text \<open>The pages hold the packets, and the buffer the ones not yet written.\<close>

lemma memcpy_prefix:
  "length p = MAX_DATA_SIZE \<Longrightarrow> length buf = BUF_SZ \<Longrightarrow> c < 4 \<Longrightarrow>
    take (c * MAX_DATA_SIZE + MAX_DATA_SIZE) (memcpy_at buf (c * MAX_DATA_SIZE) p) = take (c * MAX_DATA_SIZE) buf @ p"
  by (simp add: memcpy_at_def MAX_DATA_SIZE_def BUF_SZ_def)

lemma packets_in_pages:
  assumes "list_all (\<lambda>p. length p = MAX_DATA_SIZE) ps" "length buf = BUF_SZ" "c < 4" "\<forall>g \<in> set pgs. length g = BUF_SZ"
    "fold spec_packet ps (buf, c, pgs) = (buf', c', pgs')"
  shows "concat pgs' @ take (c' * MAX_DATA_SIZE) buf' = concat pgs @ take (c * MAX_DATA_SIZE) buf @ concat ps \<and>
    length buf' = BUF_SZ \<and> c' < 4 \<and> (\<forall>g \<in> set pgs'. length g = BUF_SZ)"
  using assms
proof (induction ps arbitrary: buf c pgs)
  case (Cons p ps)
  let ?b = "memcpy_at buf (c * MAX_DATA_SIZE) p"
  have p: "length p = MAX_DATA_SIZE" using Cons.prems(1) by simp
  have fit: "c * MAX_DATA_SIZE + length p \<le> length buf"
    using Cons.prems(2,3) p by (simp add: MAX_DATA_SIZE_def BUF_SZ_def)
  have b: "length ?b = BUF_SZ" using fit Cons.prems(2) by simp
  note pre = memcpy_prefix [OF p Cons.prems(2,3)]
  show ?case
  proof (cases "c + 1 = 4")
    case True
    have "take (c * MAX_DATA_SIZE + MAX_DATA_SIZE) ?b = ?b" using True b by (simp add: MAX_DATA_SIZE_def BUF_SZ_def)
    then show ?thesis
      using Cons.IH [of ?b 0 "pgs @ [?b]"] Cons.prems b pre True by (simp add: spec_packet_def Let_def)
  next
    case False
    then show ?thesis
      using Cons.IH [of ?b "c + 1" pgs] Cons.prems b pre by (simp add: spec_packet_def Let_def add.commute)
  qed
qed simp

section \<open>A whole update\<close>

text \<open>
  The events of a connection that sends an image: the size, the packets, the end of transmission.
\<close>

definition image_events :: "rt_uint32_t \<Rightarrow> packet list \<Rightarrow> net_event list" where
  "image_events sz ps = Net_data [SOH, 0, 0xff] # Net_data (BIGU4 sz) #
     concat (map packet_events ps) @ [Net_data [EOT, 0, 0xff]]"

lemma image_written:
  assumes "length buf = BUF_SZ" "length buf0 = 4" "length (header_buf st) = HEADER_LEN" "up_results st = []"
    "\<not> up_fault st" "up_flash st = []" "up_sent st = []" "up_events st = image_events sz ps"
    "list_all packet_ok ps" "length ps < 65535"
  shows "\<exists>st' pages info rest. update_connection (length ps + 2) buf0 (Some buf) st = Frame_reset st' \<and>
    up_flash st' = page_entries pages @ [(UPDATE_INFO_ADDR, info)] \<and>
    concat pages = concat (map packet_data ps) @ rest \<and> length rest < BUF_SZ \<and>
    (\<forall>g \<in> set pages. length g = BUF_SZ) \<and>
    RBIGU4 (take 4 info) = sz \<and> RBIGU4 (take 4 (drop 4 info)) = MAGIC \<and>
    up_sent st' = replicate (length ps + 2) ACK \<and> \<not> up_fault st'"
proof -
  let ?st0 = "st\<lparr>up_locked := True, data_buf := Some buf\<rparr>"
  obtain st1 where s1: "update_frame buf0 ?st0 = Frame_next st1" "rep [] (buf, 0, []) st1"
      "up_events st1 = concat (map packet_events ps) @ [Net_data [EOT, 0, 0xff]]" "up_sent st1 = [ACK]" "total_size st1 = sz"
    using size_frame_step [of ?st0 buf buf0 0 "0xff" sz "concat (map packet_events ps) @ [Net_data [EOT, 0, 0xff]]"] assms
    by (auto simp: image_events_def)
  obtain st2 where s2: "update_session (length ps + 1) buf0 st1 = update_session 1 buf0 st2"
      "rep [] (fold spec_packet (map packet_data ps) (buf, 0, [])) st2" "up_events st2 = [Net_data [EOT, 0, 0xff]]"
      "up_sent st2 = [ACK] @ replicate (length ps) ACK" "total_size st2 = sz"
    using packets_received [OF s1(2) _ assms(9) s1(3), of 1 buf0] assms(10) s1(4,5) by auto
  obtain b c pgs where f: "fold spec_packet (map packet_data ps) (buf, 0, []) = (b, c, pgs)" by (metis prod_cases3)
  obtain st3 info where s3: "update_frame buf0 st2 = Frame_reset st3"
      "up_flash st3 = page_entries (pgs @ (if c = 0 then [] else [b])) @ [(UPDATE_INFO_ADDR, info)]"
      "take 8 info = BIGU4 sz @ BIGU4 MAGIC" "up_sent st3 = up_sent st2 @ [ACK]" "\<not> up_fault st3"
    using end_frame_step [OF s2(2) [unfolded f] s2(3), of buf0] s2(5) by auto
  have l: "list_all (\<lambda>p. length p = MAX_DATA_SIZE) (map packet_data ps)"
    using assms(9) by (simp add: list_all_iff packet_ok_def packet_data_def)
  have in_pages: "concat pgs @ take (c * MAX_DATA_SIZE) b = concat (map packet_data ps)" "length b = BUF_SZ" "c < 4"
      "\<forall>g \<in> set pgs. length g = BUF_SZ"
    using packets_in_pages [OF l assms(1) _ _ f] by auto
  let ?pages = "pgs @ (if c = 0 then [] else [b])" and ?rest = "if c = 0 then [] else drop (c * MAX_DATA_SIZE) b"
  have pages: "concat ?pages = concat (map packet_data ps) @ ?rest" using in_pages(1) [symmetric] by simp
  have rest: "length ?rest < BUF_SZ" using in_pages(2) by (simp add: BUF_SZ_def MAX_DATA_SIZE_def)
  have gl: "\<forall>g \<in> set ?pages. length g = BUF_SZ" using in_pages(2,4) by simp
  have i4: "take 4 info = BIGU4 sz" using arg_cong [OF s3(3), of "take 4"] by simp
  have i8: "take 4 (drop 4 info) = BIGU4 MAGIC" using arg_cong [OF s3(3), of "drop 4"] by (simp add: drop_take)
  have run: "update_connection (length ps + 2) buf0 (Some buf) st = Frame_reset st3"
    using s1(1) s2(1) s3(1) by (simp add: update_connection_def)
  have acks: "up_sent st3 = replicate (length ps + 2) ACK"
    using s3(4) s2(4) by (simp add: replicate_append_same)
  show ?thesis
    by (rule exI [of _ st3], rule exI [of _ ?pages], rule exI [of _ info], rule exI [of _ ?rest])
      (intro conjI run s3(2) pages rest gl acks s3(5); simp only: i4 i8 BIGU4_round_trip)
qed

section \<open>What the service does not do\<close>

text \<open>
  A client that goes away while a header is awaited is never noticed: the loop ignores every result
  that is not positive, so the thread spins and keeps the lock and the page buffer.
\<close>

lemma lost_client_unnoticed:
  assumes "list_all (\<lambda>e. e = Net_closed \<or> e = Net_timeout \<or> (\<exists>r<0. e = Net_error r)) es" "up_events st = es" "index < HEADER_LEN"
  shows "header_loop index st = Blocked"
  using assms
proof (induction "length es" arbitrary: es st rule: less_induct)
  case less
  show ?case
  proof (cases "recv_events (HEADER_LEN - index) es")
    case None
    then show ?thesis using less.prems by (simp add: header_loop.simps [of index st])
  next
    case (Some x)
    obtain ret bs es' where x: "x = ((ret, bs), es')" by (metis prod.exhaust)
    have "ret \<le> 0 \<and> bs = [] \<and> length es' < length es \<and> list_all (\<lambda>e. e = Net_closed \<or> e = Net_timeout \<or> (\<exists>r<0. e = Net_error r)) es'"
      using Some less.prems(1) unfolding x by (induction "HEADER_LEN - index" es rule: recv_events.induct) auto
    then show ?thesis
      using less.hyps [of es' "st\<lparr>up_events := es', header_buf := memcpy_at (header_buf st) index bs\<rparr>"] Some less.prems
      unfolding x by (simp add: header_loop.simps [of index st] Let_def)
  qed
qed

text \<open>
  A header that arrives in two segments is answered by NAK although all of it is right: the test is
  on the result of the last receive and not on the number of bytes. The frame type is overwritten
  as well, so the frame is not served.
\<close>

lemma split_header_refused:
  assumes "length (header_buf st) = HEADER_LEN" "up_events st = Net_data [b] # Net_data [x, y] # es" "up_results st = []"
  shows "update_frame buf0 st =
    Frame_next (st\<lparr>up_events := es, header_buf := [NAK, x, y], up_sent := up_sent st @ [NAK]\<rparr>)"
proof -
  have "header_loop 0 st = header_loop 1 (st\<lparr>up_events := Net_data [x, y] # es, header_buf := b # tl (header_buf st)\<rparr>)"
    using assms by (simp add: header_loop.simps [of 0 st] HEADER_LEN_def memcpy_at_def Let_def drop_Suc)
  also have "\<dots> = Go (st\<lparr>up_events := es, header_buf := [NAK, x, y], up_sent := up_sent st @ [NAK]\<rparr>)"
    using assms by (simp add: header_loop.simps [of "Suc 0"] HEADER_LEN_def memcpy_at_def Let_def reply_def upd_send_def)
  finally show ?thesis by (simp add: update_frame_def SOH_def STX_def EOT_def NAK_def)
qed

text \<open>
  A packet of which nothing arrives before the connection is reset is answered by NAK and then by
  ACK, and counts as received.
\<close>

lemma empty_packet_acknowledged:
  assumes "data_buf st = Some buf" "up_events st = replicate 20 (Net_error (- 1)) @ es" "up_results st = []"
    "pack_count st = 0"
  shows "data_frame st = Frame_next (st\<lparr>up_events := es, pack_count := 1,
    header_buf := (header_buf st)[0 := ACK], up_sent := up_sent st @ [NAK, ACK]\<rparr>)"
proof -
  have step: "up_results s = [] \<Longrightarrow> up_events s = Net_error (- 1) # es' \<Longrightarrow> data_index \<le> 0 \<Longrightarrow> data_buf s = Some buf \<Longrightarrow>
      packet_loop (Suc (Suc k)) data_index s = packet_loop (Suc k) (data_index - 1) (s\<lparr>up_events := es'\<rparr>)" for s es' data_index k
    by (simp add: MAX_DATA_SIZE_def Let_def store_data_def)
  have many: "up_results s = [] \<Longrightarrow> up_events s = replicate (Suc k) (Net_error (- 1)) @ es \<Longrightarrow> data_index \<le> 0 \<Longrightarrow> data_buf s = Some buf \<Longrightarrow>
      packet_loop (Suc k) data_index s = Go (s\<lparr>up_events := es, header_buf := (header_buf s)[0 := NAK], up_sent := up_sent s @ [NAK]\<rparr>)"
    for s data_index k
  proof (induction k arbitrary: s data_index)
    case 0
    then show ?case by (simp add: MAX_DATA_SIZE_def Let_def store_data_def reply_ok)
  next
    case (Suc k)
    have "packet_loop (Suc (Suc k)) data_index s =
        packet_loop (Suc k) (data_index - 1) (s\<lparr>up_events := replicate (Suc k) (Net_error (- 1)) @ es\<rparr>)"
      using Suc.prems by (intro step) simp_all
    also have "\<dots> = Go (s\<lparr>up_events := es, header_buf := (header_buf s)[0 := NAK], up_sent := up_sent s @ [NAK]\<rparr>)"
      using Suc.prems by (subst Suc.IH) simp_all
    finally show ?case .
  qed
  from many [of st 19 0] assms have "packet_loop 20 0 st =
      Go (st\<lparr>up_events := es, header_buf := (header_buf st)[0 := NAK], up_sent := up_sent st @ [NAK]\<rparr>)"
    by simp
  then show ?thesis using assms by (simp add: data_frame_def Let_def acknowledge_ok)
qed

text \<open>The service at the start of a connection whose socket will report \<open>es\<close>.\<close>

definition upd_start :: "net_event list \<Rightarrow> upd_state" where
  "upd_start es = \<lparr>header_buf = replicate HEADER_LEN 0, total_size = 0, page_offset = 0, pack_count = 0, data_buf = None,
     up_flash = [], up_sent = [], up_events = es, up_results = [], up_locked = False, up_fault = False\<rparr>"

end
