(* ===== verification/KString.thy ===== *)
theory KString
  imports KService Realloc
begin

text \<open>
  The memory and string routines of \<^verbatim>\<open>rt-thread/src/kservice.c\<close> (without
  \<^verbatim>\<open>RT_USING_TINY_SIZE\<close>, 32-bit little-endian target). The word-wise \<open>rt_memset\<close> and
  \<open>rt_memcpy\<close> are equal to filling and copying byte by byte, \<open>rt_memmove\<close> copies between any two
  areas; the string routines return on every terminated string, order strings as their bytes, and
  \<open>rt_strstr\<close> finds the first occurrence; \<open>rt_strdup\<close> and \<open>rt_malloc_align\<close> return memory of the
  heap that holds the copy or is aligned.
\<close>

section \<open>Memory\<close>

type_synonym bmem = "addr \<Rightarrow> rt_uint8_t"

definition store_word :: "addr \<Rightarrow> rt_uint32_t \<Rightarrow> bmem \<Rightarrow> bmem" where
  "store_word a w m = m(a := ucast w, a + 1 := ucast (drop_bit 8 w), a + 2 := ucast (drop_bit 16 w),
     a + 3 := ucast (drop_bit 24 w))"

definition load_word :: "bmem \<Rightarrow> addr \<Rightarrow> rt_uint32_t" where
  "load_word m a = ucast (m a) OR push_bit 8 (ucast (m (a + 1))) OR push_bit 16 (ucast (m (a + 2))) OR
     push_bit 24 (ucast (m (a + 3)))"

text \<open>\<^verbatim>\<open>sizeof(long)\<close>.\<close>

definition LBLOCKSIZE :: nat where "LBLOCKSIZE = 4"

fun memset_big :: "nat \<Rightarrow> rt_uint32_t \<Rightarrow> addr \<Rightarrow> bmem \<Rightarrow> nat \<times> addr \<times> bmem" where
  "memset_big count buffer a m =
    (if count \<ge> 16
     then memset_big (count - 16) buffer (a + 16)
            (store_word (a + 12) buffer (store_word (a + 8) buffer (store_word (a + 4) buffer (store_word a buffer m))))
     else (count, a, m))"

fun memset_words :: "nat \<Rightarrow> rt_uint32_t \<Rightarrow> addr \<Rightarrow> bmem \<Rightarrow> nat \<times> addr \<times> bmem" where
  "memset_words count buffer a m =
    (if count \<ge> 4 then memset_words (count - 4) buffer (a + 4) (store_word a buffer m) else (count, a, m))"

fun memset_bytes :: "nat \<Rightarrow> rt_uint8_t \<Rightarrow> addr \<Rightarrow> bmem \<Rightarrow> bmem" where
  "memset_bytes 0 d a m = m"
| "memset_bytes (Suc count) d a m = memset_bytes count d (a + 1) (m(a := d))"

declare memset_big.simps [simp del] memset_words.simps [simp del]

definition rt_memset :: "addr \<Rightarrow> rt_uint32_t \<Rightarrow> nat \<Rightarrow> bmem \<Rightarrow> bmem" where
  "rt_memset s c count m =
    (let d = c AND 0xff in
     if \<not> count < LBLOCKSIZE \<and> s mod LBLOCKSIZE = 0 then
       let buffer0 = push_bit 8 d OR d; buffer = buffer0 OR push_bit 16 buffer0;
           (count1, a1, m1) = memset_big count buffer s m;
           (count2, a2, m2) = memset_words count1 buffer a1 m1
       in memset_bytes count2 (ucast d) a2 m2
     else memset_bytes count (ucast d) s m)"

definition copy_word :: "addr \<Rightarrow> addr \<Rightarrow> bmem \<Rightarrow> bmem" where
  "copy_word d s m = store_word d (load_word m s) m"

fun memcpy_big :: "nat \<Rightarrow> addr \<Rightarrow> addr \<Rightarrow> bmem \<Rightarrow> nat \<times> addr \<times> addr \<times> bmem" where
  "memcpy_big len d s m =
    (if len \<ge> 16
     then memcpy_big (len - 16) (d + 16) (s + 16)
            (copy_word (d + 12) (s + 12) (copy_word (d + 8) (s + 8) (copy_word (d + 4) (s + 4) (copy_word d s m))))
     else (len, d, s, m))"

fun memcpy_words :: "nat \<Rightarrow> addr \<Rightarrow> addr \<Rightarrow> bmem \<Rightarrow> nat \<times> addr \<times> addr \<times> bmem" where
  "memcpy_words len d s m =
    (if len \<ge> 4 then memcpy_words (len - 4) (d + 4) (s + 4) (copy_word d s m) else (len, d, s, m))"

fun memcpy_bytes :: "nat \<Rightarrow> addr \<Rightarrow> addr \<Rightarrow> bmem \<Rightarrow> bmem" where
  "memcpy_bytes 0 d s m = m"
| "memcpy_bytes (Suc len) d s m = memcpy_bytes len (d + 1) (s + 1) (m(d := m s))"

declare memcpy_big.simps [simp del] memcpy_words.simps [simp del]

definition rt_memcpy :: "addr \<Rightarrow> addr \<Rightarrow> nat \<Rightarrow> bmem \<Rightarrow> bmem" where
  "rt_memcpy dst src count m =
    (if \<not> count < 16 \<and> src mod 4 = 0 \<and> dst mod 4 = 0 then
       let (len1, d1, s1, m1) = memcpy_big count dst src m;
           (len2, d2, s2, m2) = memcpy_words len1 d1 s1 m1
       in memcpy_bytes len2 d2 s2 m2
     else memcpy_bytes count dst src m)"

text \<open>The loop that copies from the end: \<open>d\<close> and \<open>s\<close> are the starts of the areas.\<close>

fun memmove_back :: "nat \<Rightarrow> addr \<Rightarrow> addr \<Rightarrow> bmem \<Rightarrow> bmem" where
  "memmove_back 0 d s m = m"
| "memmove_back (Suc n) d s m = memmove_back n d s (m(d + n := m (s + n)))"

definition rt_memmove :: "addr \<Rightarrow> addr \<Rightarrow> nat \<Rightarrow> bmem \<Rightarrow> bmem" where
  "rt_memmove dest src n m =
    (if src < dest \<and> dest < src + n then memmove_back n dest src m else memcpy_bytes n dest src m)"

fun rt_memcmp :: "cstr \<Rightarrow> cstr \<Rightarrow> nat \<Rightarrow> int" where
  "rt_memcmp cs ct 0 = 0"
| "rt_memcmp cs ct (Suc count) =
    (let res = int (unat (cs 0)) - int (unat (ct 0))
     in if res \<noteq> 0 then res else rt_memcmp (\<lambda>i. cs (Suc i)) (\<lambda>i. ct (Suc i)) count)"

section \<open>Strings\<close>

text \<open>The loops that look for the terminator do not end on a string that has none.\<close>

partial_function (option) strlen_from :: "cstr \<Rightarrow> nat \<Rightarrow> nat option" where
  "strlen_from s i = (if s i \<noteq> 0 then strlen_from s (Suc i) else Some i)"

definition rt_strlen :: "cstr \<Rightarrow> nat option" where
  "rt_strlen s = strlen_from s 0"

fun strnlen_from :: "cstr \<Rightarrow> nat \<Rightarrow> nat \<Rightarrow> nat" where
  "strnlen_from s i 0 = i"
| "strnlen_from s i (Suc left) = (if s i \<noteq> 0 then strnlen_from s (Suc i) left else i)"

definition rt_strnlen :: "cstr \<Rightarrow> nat \<Rightarrow> nat" where
  "rt_strnlen s maxlen = strnlen_from s 0 maxlen"

partial_function (option) rt_strcmp :: "cstr \<Rightarrow> cstr \<Rightarrow> int option" where
  "rt_strcmp cs ct =
    (if cs 0 \<noteq> 0 \<and> cs 0 = ct 0 then rt_strcmp (\<lambda>i. cs (Suc i)) (\<lambda>i. ct (Suc i))
     else Some (int (unat (cs 0)) - int (unat (ct 0))))"

definition lower_case :: "rt_uint8_t \<Rightarrow> rt_uint8_t" where
  "lower_case c = (if 0x41 \<le> c \<and> c \<le> 0x5a then c + 0x20 else c)"

partial_function (option) rt_strcasecmp :: "cstr \<Rightarrow> cstr \<Rightarrow> rt_uint32_t option" where
  "rt_strcasecmp a b =
    (let ca = lower_case (a 0); cb = lower_case (b 0)
     in if ca = cb \<and> ca \<noteq> 0 then rt_strcasecmp (\<lambda>i. a (Suc i)) (\<lambda>i. b (Suc i))
        else Some (word_of_int (int (unat ca) - int (unat cb))))"

text \<open>The result is the offset of the occurrence in \<open>s1\<close>; \<open>l2\<close> is not 0 in the loop.\<close>

fun strstr_from :: "cstr \<Rightarrow> cstr \<Rightarrow> nat \<Rightarrow> nat \<Rightarrow> nat \<Rightarrow> nat option" where
  "strstr_from s1 s2 0 l2 i = None"
| "strstr_from s1 s2 (Suc l1) l2 i =
    (if Suc l1 \<ge> l2 then
       if rt_memcmp (\<lambda>k. s1 (i + k)) s2 l2 = 0 then Some i else strstr_from s1 s2 l1 l2 (Suc i)
     else None)"

definition rt_strstr :: "cstr \<Rightarrow> cstr \<Rightarrow> nat option option" where
  "rt_strstr s1 s2 =
    (case rt_strlen s2 of
       None \<Rightarrow> None
     | Some l2 \<Rightarrow>
         if l2 = 0 then Some (Some 0)
         else (case rt_strlen s1 of None \<Rightarrow> None | Some l1 \<Rightarrow> Some (strstr_from s1 s2 l1 l2 0)))"

section \<open>Memory from the heap\<close>

definition rt_strdup :: "addr \<Rightarrow> heap_state \<Rightarrow> (heap_state \<times> addr option) option" where
  "rt_strdup s h =
    (case rt_strlen (\<lambda>i. mem_bytes h (s + i)) of
       None \<Rightarrow> None
     | Some l \<Rightarrow>
         (case rt_malloc (l + 1) h of
            None \<Rightarrow> None
          | Some (h1, None) \<Rightarrow> Some (h1, None)
          | Some (h1, Some tmp) \<Rightarrow> Some (h1\<lparr>mem_bytes := rt_memcpy tmp s (l + 1) (mem_bytes h1)\<rparr>, Some tmp)))"

text \<open>\<^verbatim>\<open>align_ptr\<close>: the first aligned address behind the word in front of it.\<close>

definition align_up :: "rt_uint32_t \<Rightarrow> rt_uint32_t \<Rightarrow> rt_uint32_t" where
  "align_up p align = (if p AND (align - 1) = 0 then p + align else (p + (align - 1)) AND NOT (align - 1))"

definition rt_malloc_align :: "nat \<Rightarrow> nat \<Rightarrow> heap_state \<Rightarrow> (heap_state \<times> addr option) option" where
  "rt_malloc_align sz align0 h =
    (let align = align4 align0; align_size = add32 (align4 sz) align in
     case rt_malloc align_size h of
       None \<Rightarrow> None
     | Some (h1, None) \<Rightarrow> Some (h1, None)
     | Some (h1, Some p) \<Rightarrow>
         let align_ptr = align_up (of_nat p) (of_nat align)
         in Some (h1\<lparr>mem_bytes := store_word (unat (align_ptr - 4)) (of_nat p) (mem_bytes h1)\<rparr>, Some (unat align_ptr)))"

definition rt_free_align :: "addr \<Rightarrow> heap_state \<Rightarrow> heap_state" where
  "rt_free_align ptr h = rt_free (Some (unat (load_word (mem_bytes h) (unat (of_nat ptr - 4 :: rt_uint32_t))))) h"

section \<open>Filling and copying\<close>

text \<open>The areas the routines are meant to produce.\<close>

definition filled :: "addr \<Rightarrow> nat \<Rightarrow> rt_uint8_t \<Rightarrow> bmem \<Rightarrow> bmem" where
  "filled a n b m = (\<lambda>x. if a \<le> x \<and> x < a + n then b else m x)"

definition copied :: "addr \<Rightarrow> addr \<Rightarrow> nat \<Rightarrow> bmem \<Rightarrow> bmem" where
  "copied d s n m = (\<lambda>x. if d \<le> x \<and> x < d + n then m (s + (x - d)) else m x)"

lemma area_0 [simp]: "filled a 0 b m = m" "copied d s 0 m = m"
  by (auto simp: filled_def copied_def fun_eq_iff)

lemma filled_filled: "filled (a + k) n b (filled a k b m) = filled a (k + n) b m"
  by (auto simp: filled_def fun_eq_iff)

lemma copied_copied:
  assumes "d \<le> s \<or> s + (k + n) \<le> d"
  shows "copied (d + k) (s + k) n (copied d s k m) = copied d s (k + n) m"
  using assms by (auto simp: copied_def fun_eq_iff)

lemma byte_cases4: "a \<le> x \<and> x < a + 4 \<longleftrightarrow> x = a \<or> x = a + 1 \<or> x = a + 2 \<or> x = a + (3 :: nat)"
  by auto

lemma bit_byte: "bit (b :: rt_uint8_t) n \<Longrightarrow> n < 8"
  using bit_imp_le_length by fastforce

lemma load_word_bytes:
  "ucast (load_word m a) = m a" "ucast (drop_bit 8 (load_word m a)) = m (a + 1)"
  "ucast (drop_bit 16 (load_word m a)) = m (a + 2)" "ucast (drop_bit 24 (load_word m a)) = m (a + 3)"
  by (rule bit_word_eqI; auto simp: load_word_def bit_ucast_iff bit_or_iff bit_push_bit_iff bit_drop_bit_eq dest: bit_byte)+

lemma copy_word_copied: "copy_word d s m = copied d s 4 m"
proof
  fix x
  show "copy_word d s m x = copied d s 4 m x"
    unfolding copied_def byte_cases4 by (auto simp: copy_word_def store_word_def load_word_bytes)
qed

lemma dup_bytes:
  fixes c :: rt_uint32_t
  assumes "d = c AND 0xff" "b0 = push_bit 8 d OR d" "w = b0 OR push_bit 16 b0"
  shows "ucast w = (ucast c :: rt_uint8_t)" "ucast (drop_bit 8 w) = (ucast c :: rt_uint8_t)"
    "ucast (drop_bit 16 w) = (ucast c :: rt_uint8_t)" "ucast (drop_bit 24 w) = (ucast c :: rt_uint8_t)"
    "ucast d = (ucast c :: rt_uint8_t)"
proof -
  have m: "(0xff :: 32 word) = mask 8" by (simp add: mask_eq_exp_minus_1)
  have d: "bit d k \<longleftrightarrow> k < 8 \<and> bit c k" for k unfolding assms(1) m by (auto simp: bit_and_iff bit_mask_iff)
  have w: "bit w k \<longleftrightarrow> k < 32 \<and> bit c (k mod 8)" for k
  proof -
    consider "k < 8" | "8 \<le> k" "k < 16" | "16 \<le> k" "k < 24" | "24 \<le> k" "k < 32" | "32 \<le> k" by linarith
    then show ?thesis
      by cases (auto simp: assms(2,3) d bit_or_iff bit_push_bit_iff mod_if)
  qed
  show "ucast w = (ucast c :: rt_uint8_t)" "ucast (drop_bit 8 w) = (ucast c :: rt_uint8_t)"
    "ucast (drop_bit 16 w) = (ucast c :: rt_uint8_t)" "ucast (drop_bit 24 w) = (ucast c :: rt_uint8_t)"
    "ucast d = (ucast c :: rt_uint8_t)"
    by (rule bit_word_eqI; simp add: bit_ucast_iff bit_drop_bit_eq w d mod_if)+
qed

lemma memset_bytes_filled: "memset_bytes n b a m = filled a n b m"
proof (induction n arbitrary: a m)
  case (Suc n)
  have "m(a := b) = filled a 1 b m" by (auto simp: filled_def)
  then show ?case using Suc filled_filled [of a 1 n b m] by simp
qed simp

lemma memset_words_filled:
  assumes "\<And>a m. store_word a w m = filled a 4 b m" "memset_words n w a m = (n', a', m')"
  shows "filled a' n' b m' = filled a n b m"
  using assms
proof (induction n w a m rule: memset_words.induct)
  case (1 n w a m)
  then show ?case
    using filled_filled [of a 4 "n - 4" b m] by (auto simp: memset_words.simps [of n] split: if_splits)
qed

lemma memset_big_filled:
  assumes "\<And>a m. store_word a w m = filled a 4 b m" "memset_big n w a m = (n', a', m')"
  shows "filled a' n' b m' = filled a n b m"
  using assms
proof (induction n w a m rule: memset_big.induct)
  case (1 n w a m)
  have four: "store_word (a + 12) w (store_word (a + 8) w (store_word (a + 4) w (store_word a w m))) = filled a 16 b m"
    using filled_filled [of a 4 4 b m] filled_filled [of a 8 4 b m] filled_filled [of a 12 4 b m] by (simp add: 1(2))
  show ?case
    using 1 filled_filled [of a 16 "n - 16" b m] four by (auto simp: memset_big.simps [of n] split: if_splits)
qed

theorem rt_memset_filled: "rt_memset s c n m = filled s n (ucast c) m"
proof -
  define d b0 w where "d = c AND 0xff" and "b0 = push_bit 8 d OR d" and "w = b0 OR push_bit 16 b0"
  note b = dup_bytes [OF d_def b0_def w_def]
  have st: "store_word a w m' = filled a 4 (ucast c) m'" for a m'
    unfolding filled_def byte_cases4 by (auto simp: store_word_def b fun_eq_iff)
  obtain n1 a1 m1 where r1: "memset_big n w s m = (n1, a1, m1)" by (metis prod_cases3)
  obtain n2 a2 m2 where r2: "memset_words n1 w a1 m1 = (n2, a2, m2)" by (metis prod_cases3)
  show ?thesis
    using memset_big_filled [OF st r1] memset_words_filled [OF st r2] r1 r2 b(5)
    unfolding rt_memset_def d_def [symmetric] b0_def [symmetric] w_def [symmetric] Let_def
    by (simp add: memset_bytes_filled)
qed

text \<open>The areas of a forward copy do not overlap harmfully.\<close>

definition forward_ok :: "addr \<Rightarrow> addr \<Rightarrow> nat \<Rightarrow> bool" where
  "forward_ok d s n \<longleftrightarrow> d \<le> s \<or> s + n \<le> d"

lemma forward_ok_shift: "forward_ok d s n \<Longrightarrow> k \<le> n \<Longrightarrow> forward_ok (d + k) (s + k) (n - k)"
  by (auto simp: forward_ok_def)

lemma copied_split:
  "forward_ok d s n \<Longrightarrow> k \<le> n \<Longrightarrow> copied (d + k) (s + k) (n - k) (copied d s k m) = copied d s n m"
  using copied_copied [of d s k "n - k" m] by (simp add: forward_ok_def)

lemma memcpy_bytes_copied: "forward_ok d s n \<Longrightarrow> memcpy_bytes n d s m = copied d s n m"
proof (induction n arbitrary: d s m)
  case (Suc n)
  have "m(d := m s) = copied d s 1 m" by (auto simp: copied_def)
  then show ?case
    using Suc.IH [of "d + 1" "s + 1" "m(d := m s)"] forward_ok_shift [OF Suc.prems, of 1] copied_split [OF Suc.prems, of 1 m]
    by simp
qed simp

lemma memcpy_words_copied:
  assumes "forward_ok d s n" "memcpy_words n d s m = (n', d', s', m')"
  shows "forward_ok d' s' n' \<and> copied d' s' n' m' = copied d s n m"
  using assms
proof (induction n d s m rule: memcpy_words.induct)
  case (1 n d s m)
  then show ?case
    using copied_split [OF 1(2), of 4 m] forward_ok_shift [OF 1(2), of 4]
    by (auto simp: memcpy_words.simps [of n] copy_word_copied split: if_splits)
qed

lemma memcpy_big_copied:
  assumes "forward_ok d s n" "memcpy_big n d s m = (n', d', s', m')"
  shows "forward_ok d' s' n' \<and> copied d' s' n' m' = copied d s n m"
  using assms
proof (induction n d s m rule: memcpy_big.induct)
  case (1 n d s m)
  show ?case
  proof (cases "16 \<le> n")
    case True
    then have f: "forward_ok d s 16" "forward_ok d s 12" "forward_ok d s 8" using 1(2) by (auto simp: forward_ok_def)
    have "copy_word (d + 12) (s + 12) (copy_word (d + 8) (s + 8) (copy_word (d + 4) (s + 4) (copy_word d s m))) = copied d s 16 m"
      using copied_split [OF f(3), of 4 m] copied_split [OF f(2), of 8 m] copied_split [OF f(1), of 12 m]
      by (simp add: copy_word_copied)
    then show ?thesis
      using 1 copied_split [OF 1(2), of 16 m] forward_ok_shift [OF 1(2), of 16] True by (auto simp: memcpy_big.simps [of n])
  qed (use 1 in \<open>auto simp: memcpy_big.simps [of n]\<close>)
qed

theorem rt_memcpy_copied:
  assumes "d \<le> s \<or> s + n \<le> d"
  shows "rt_memcpy d s n m = copied d s n m"
proof -
  have f: "forward_ok d s n" using assms by (simp add: forward_ok_def)
  obtain n1 d1 s1 m1 where r1: "memcpy_big n d s m = (n1, d1, s1, m1)" by (metis prod_cases4)
  obtain n2 d2 s2 m2 where r2: "memcpy_words n1 d1 s1 m1 = (n2, d2, s2, m2)" by (metis prod_cases4)
  note b = memcpy_big_copied [OF f r1]
  note w = memcpy_words_copied [OF conjunct1 [OF b] r2]
  show ?thesis using b w memcpy_bytes_copied f r1 r2 by (simp add: rt_memcpy_def)
qed

lemma memmove_back_copied: "s < d \<Longrightarrow> memmove_back n d s m = copied d s n m"
proof (induction n arbitrary: m)
  case (Suc n)
  have "copied d s n (m(d + n := m (s + n))) = copied d s (Suc n) m"
    using Suc.prems by (auto simp: copied_def fun_eq_iff less_Suc_eq)
  with Suc show ?case by simp
qed simp

theorem rt_memmove_copied: "rt_memmove d s n m = copied d s n m"
  using memcpy_bytes_copied [of d s n m] memmove_back_copied [of s d n m] by (auto simp: rt_memmove_def forward_ok_def)

lemma rt_memcmp_0_iff: "rt_memcmp cs ct n = 0 \<longleftrightarrow> (\<forall>i<n. cs i = ct i)"
proof (induction n arbitrary: cs ct)
  case (Suc n)
  have "int (unat (cs 0)) = int (unat (ct 0)) \<longleftrightarrow> cs 0 = ct 0" by (simp add: word_uint_eq_iff)
  then show ?case using Suc [of "\<lambda>i. cs (Suc i)" "\<lambda>i. ct (Suc i)"] by (auto simp: Let_def less_Suc_eq_0_disj)
qed simp

section \<open>Terminated strings\<close>

definition is_str :: "cstr \<Rightarrow> rt_uint8_t list \<Rightarrow> bool" where
  "is_str s xs \<longleftrightarrow> (\<forall>i<length xs. s i = xs ! i) \<and> 0 \<notin> set xs \<and> s (length xs) = 0"

lemma is_str_Nil: "is_str s [] \<longleftrightarrow> s 0 = 0"
  by (simp add: is_str_def)

lemma is_str_Cons: "is_str s (x # xs) \<longleftrightarrow> s 0 = x \<and> x \<noteq> 0 \<and> is_str (\<lambda>i. s (Suc i)) xs"
  by (auto simp: is_str_def less_Suc_eq_0_disj)

lemma strlen_from_str: "is_str (\<lambda>k. s (i + k)) xs \<Longrightarrow> strlen_from s i = Some (i + length xs)"
proof (induction xs arbitrary: i)
  case Nil
  then show ?case by (simp add: is_str_Nil strlen_from.simps [of s i])
next
  case (Cons x xs)
  then show ?case using Cons.IH [of "Suc i"] by (simp add: is_str_Cons strlen_from.simps [of s i])
qed

theorem rt_strlen_str: "is_str s xs \<Longrightarrow> rt_strlen s = Some (length xs)"
  using strlen_from_str [of s 0 xs] by (simp add: rt_strlen_def)

lemma strnlen_from_str: "is_str (\<lambda>k. s (i + k)) xs \<Longrightarrow> strnlen_from s i n = i + min n (length xs)"
proof (induction xs arbitrary: i n)
  case Nil
  then show ?case by (cases n) (simp_all add: is_str_Nil)
next
  case (Cons x xs)
  then show ?case using Cons.IH [of "Suc i"] by (cases n) (simp_all add: is_str_Cons)
qed

lemma rt_strnlen_str: "is_str s xs \<Longrightarrow> rt_strnlen s n = min n (length xs)"
  using strnlen_from_str [of s 0 xs n] by (simp add: rt_strnlen_def)

text \<open>\<open>rt_strcmp\<close> orders strings as their bytes.\<close>

lemma byte_difference:
  fixes x y :: rt_uint8_t
  shows "(word_of_int (int (unat x) - int (unat y)) :: rt_uint32_t) = 0 \<longleftrightarrow> x = y"
proof -
  have id: "ucast (ucast z :: rt_uint32_t) = z" for z :: rt_uint8_t
    by (rule bit_word_eqI) (simp add: bit_ucast_iff)
  have "(word_of_int (int (unat x) - int (unat y)) :: rt_uint32_t) = 0 \<longleftrightarrow> (ucast x :: rt_uint32_t) = ucast y" by simp
  then show ?thesis by (metis id)
qed

lemma uint_byte_pos: "x \<noteq> 0 \<Longrightarrow> 0 < uint (x :: rt_uint8_t)"
  by (metis less_le uint_0_iff uint_ge_0)

abbreviation byte_order :: "(rt_uint8_t list \<times> rt_uint8_t list) set" where
  "byte_order \<equiv> lexord {(a, b). a < b}"

theorem rt_strcmp_order:
  assumes "is_str cs xs" "is_str ct ys"
  shows "\<exists>r. rt_strcmp cs ct = Some r \<and> (r = 0 \<longleftrightarrow> xs = ys) \<and> (r < 0 \<longleftrightarrow> (xs, ys) \<in> byte_order)"
  using assms
proof (induction xs arbitrary: ys cs ct)
  case Nil
  then show ?case
    by (cases ys) (auto simp: is_str_Nil is_str_Cons rt_strcmp.simps [of cs ct] dest: uint_byte_pos)
next
  case (Cons x xs)
  show ?case
  proof (cases ys)
    case Nil
    then show ?thesis using Cons.prems by (auto simp: is_str_Nil is_str_Cons rt_strcmp.simps [of cs ct] dest: uint_byte_pos)
  next
    case (Cons y ys')
    then show ?thesis
      using Cons.prems Cons.IH [of "\<lambda>i. cs (Suc i)" "\<lambda>i. ct (Suc i)" ys']
      by (auto simp: is_str_Cons rt_strcmp.simps [of cs ct] word_less_def word_uint_eq_iff)
  qed
qed

text \<open>\<open>rt_strcasecmp\<close> compares the lower-case strings.\<close>

lemma lower_case_0 [simp]: "lower_case c = 0 \<longleftrightarrow> c = 0"
proof -
  have "c + 0x20 \<noteq> 0" if "c \<le> 0x5a"
  proof
    assume "c + 0x20 = 0"
    then have "c = 0xe0" by (simp add: add_eq_0_iff2)
    with that show False by simp
  qed
  then show ?thesis by (auto simp: lower_case_def)
qed

theorem rt_strcasecmp_equal:
  assumes "is_str a xs" "is_str b ys"
  shows "\<exists>r. rt_strcasecmp a b = Some r \<and> (r = 0 \<longleftrightarrow> map lower_case xs = map lower_case ys)"
  using assms
proof (induction xs arbitrary: ys a b)
  case Nil
  have l0: "lower_case 0 = 0" by simp
  show ?case
  proof (cases ys)
    case (Cons y ys')
    then have "lower_case (b 0) \<noteq> 0" "a 0 = 0" using Nil by (simp_all add: is_str_Nil is_str_Cons)
    then show ?thesis using byte_difference [of 0 "lower_case (b 0)"] by (simp add: rt_strcasecmp.simps [of a b] Cons l0)
  qed (use Nil l0 in \<open>simp add: is_str_Nil rt_strcasecmp.simps [of a b]\<close>)
next
  case (Cons x xs)
  show ?case
  proof (cases "lower_case (a 0) = lower_case (b 0)")
    case True
    then have "b 0 \<noteq> 0" using Cons.prems by (metis is_str_Cons lower_case_0)
    then obtain y ys' where ys: "ys = y # ys'" using Cons.prems(2) by (cases ys) (simp_all add: is_str_Nil)
    show ?thesis
      using Cons.prems Cons.IH [of "\<lambda>i. a (Suc i)" "\<lambda>i. b (Suc i)" ys'] True
      by (auto simp: ys is_str_Cons rt_strcasecmp.simps [of a b])
  next
    case False
    have "map lower_case (x # xs) \<noteq> map lower_case ys" using Cons.prems False by (cases ys) (auto simp: is_str_Cons)
    then show ?thesis using False byte_difference [of "lower_case (a 0)" "lower_case (b 0)"] by (simp add: rt_strcasecmp.simps [of a b])
  qed
qed

text \<open>\<open>rt_strstr\<close> finds the first occurrence, and none only when there is none.\<close>

definition occurs_at :: "nat \<Rightarrow> rt_uint8_t list \<Rightarrow> rt_uint8_t list \<Rightarrow> bool" where
  "occurs_at i ys xs \<longleftrightarrow> i + length ys \<le> length xs \<and> take (length ys) (drop i xs) = ys"

lemma memcmp_occurs:
  assumes "is_str s1 xs" "is_str s2 ys" "i + length ys \<le> length xs"
  shows "rt_memcmp (\<lambda>k. s1 (i + k)) s2 (length ys) = 0 \<longleftrightarrow> occurs_at i ys xs"
  using assms by (auto simp: rt_memcmp_0_iff occurs_at_def is_str_def list_eq_iff_nth_eq)

lemma strstr_from_first:
  assumes "is_str s1 xs" "is_str s2 ys" "ys \<noteq> []" "i + l1 = length xs"
  shows "case strstr_from s1 s2 l1 (length ys) i of
      None \<Rightarrow> \<forall>j\<ge>i. \<not> occurs_at j ys xs
    | Some k \<Rightarrow> i \<le> k \<and> occurs_at k ys xs \<and> (\<forall>j. i \<le> j \<and> j < k \<longrightarrow> \<not> occurs_at j ys xs)"
  using assms(4)
proof (induction l1 arbitrary: i)
  case 0
  then show ?case using assms(3) by (auto simp: occurs_at_def)
next
  case (Suc l1)
  show ?case
  proof (cases "length ys \<le> Suc l1")
    case True
    then have m: "rt_memcmp (\<lambda>k. s1 (i + k)) s2 (length ys) = 0 \<longleftrightarrow> occurs_at i ys xs"
      using memcmp_occurs [OF assms(1,2), of i] Suc.prems by simp
    show ?thesis
    proof (cases "occurs_at i ys xs")
      case False
      have later: "j = i \<or> Suc i \<le> j" if "i \<le> j" for j using that by auto
      show ?thesis using Suc.IH [of "Suc i"] Suc.prems False m True later by (auto split: option.splits)
    qed (use m True in auto)
  next
    case False
    then show ?thesis using Suc.prems by (auto simp: occurs_at_def)
  qed
qed

theorem rt_strstr_first:
  assumes "is_str s1 xs" "is_str s2 ys"
  shows "case rt_strstr s1 s2 of
      None \<Rightarrow> False
    | Some None \<Rightarrow> \<forall>j. \<not> occurs_at j ys xs
    | Some (Some k) \<Rightarrow> occurs_at k ys xs \<and> (\<forall>j<k. \<not> occurs_at j ys xs)"
proof (cases "ys = []")
  case True
  then show ?thesis using rt_strlen_str [OF assms(2)] by (simp add: rt_strstr_def occurs_at_def)
next
  case False
  then show ?thesis
    using rt_strlen_str [OF assms(1)] rt_strlen_str [OF assms(2)] strstr_from_first [OF assms False, of 0 "length xs"]
    by (simp add: rt_strstr_def split: option.splits)
qed

section \<open>Results on the heap\<close>

theorem rt_strdup_copies:
  assumes "heap_ok h" "is_str (\<lambda>i. mem_bytes h (s + i)) xs" "malloc_block (length xs + 1) h = Some b"
    "payload h b \<le> s \<or> s + length xs + 1 \<le> payload h b"
  shows "\<exists>h' n. rt_strdup s h = Some (h', Some (payload h b)) \<and> gains b n h h' \<and> request (length xs + 1) \<le> n \<and>
    is_str (\<lambda>i. mem_bytes h' (payload h b + i)) xs \<and>
    (\<forall>a. a < payload h b \<or> payload h b + length xs + 1 \<le> a \<longrightarrow> mem_bytes h' a = mem_bytes h a)"
proof -
  obtain h1 n where m: "rt_malloc (length xs + 1) h = Some (h1, Some (payload h b))" "gains b n h h1"
      "request (length xs + 1) \<le> n" "mem_bytes h1 = mem_bytes h"
    using rt_malloc_granted [OF assms(1,3)] by blast
  let ?h' = "h1\<lparr>mem_bytes := copied (payload h b) s (length xs + 1) (mem_bytes h)\<rparr>"
  have "rt_strdup s h = Some (?h', Some (payload h b))"
    using rt_strlen_str [OF assms(2)] m(1,4) rt_memcpy_copied [of "payload h b" s "length xs + 1"] assms(4)
    by (simp add: rt_strdup_def ac_simps)
  moreover have "gains b n h ?h'" using m(2) by (simp add: gains_def)
  moreover have "is_str (\<lambda>i. mem_bytes ?h' (payload h b + i)) xs"
    using assms(2) by (simp add: is_str_def copied_def)
  ultimately show ?thesis using m(3) by (intro exI conjI) (auto simp: copied_def)
qed

lemma and_not_mask_unat:
  fixes x :: rt_uint32_t
  shows "unat (x AND NOT (mask k)) = unat x div 2 ^ k * 2 ^ k"
proof -
  have "x AND NOT (mask k) = push_bit k (drop_bit k x)"
    by (rule bit_word_eqI) (auto simp: bit_simps)
  moreover have "unat x div 2 ^ k * 2 ^ k < 2 ^ 32"
    using unsigned_less [of x] by (auto intro: le_less_trans [OF div_times_less_eq_dividend])
  moreover have "unat (push_bit k (drop_bit k x)) = unat x div 2 ^ k * 2 ^ k mod 2 ^ 32"
    by (subst unsigned_push_bit_eq, subst unat_drop_bit_eq)
      (simp add: push_bit_eq_mult drop_bit_eq_div take_bit_eq_mod)
  ultimately show ?thesis by simp
qed

lemma align_up_power:
  assumes k: "2 \<le> k" and al: "al = 2 ^ k" and p: "p mod 4 = 0" "p + al < 2 ^ 32"
  shows "\<exists>q. align_up (of_nat p) (of_nat al) = of_nat q \<and> q mod al = 0 \<and> p + 4 \<le> q \<and> q \<le> p + al"
proof -
  have al4: "4 dvd al" using k by (auto simp: al le_imp_power_dvd [of 2 k 2, simplified])
  then have ge4: "4 \<le> al" using al by (simp add: dvd_imp_le)
  have k32: "k < 32"
  proof (rule ccontr)
    assume "\<not> k < 32"
    then have "(2 :: nat) ^ 32 \<le> 2 ^ k" by (intro power_increasing) auto
    with p(2) al show False by simp
  qed
  have mask: "(of_nat al :: rt_uint32_t) - 1 = mask k" by (simp add: al mask_eq_exp_minus_1)
  have un: "unat (of_nat p :: rt_uint32_t) = p" using p(2) by (simp add: unsigned_of_nat take_bit_nat_eq_self)
  have low: "(of_nat p :: rt_uint32_t) AND mask k = 0 \<longleftrightarrow> p mod al = 0"
  proof -
    have "unat ((of_nat p :: rt_uint32_t) AND mask k) = p mod al"
      by (subst take_bit_eq_mask [symmetric], subst unsigned_take_bit_eq) (use k32 in \<open>simp add: take_bit_eq_mod un al\<close>)
    then show ?thesis by (metis unat_eq_zero)
  qed
  show ?thesis
  proof (cases "p mod al = 0")
    case True
    then show ?thesis using low mask ge4 by (intro exI [of _ "p + al"]) (simp add: align_up_def)
  next
    case False
    define q where "q = (p + (al - 1)) div al * al"
    have u: "unat (of_nat p + mask k :: rt_uint32_t) = p + (al - 1)"
    proof -
      have "of_nat p + mask k = (of_nat (p + (al - 1)) :: rt_uint32_t)"
        using ge4 mask by (simp add: of_nat_diff)
      moreover have "unat (of_nat (p + (al - 1)) :: rt_uint32_t) = p + (al - 1)"
        using p(2) ge4 by (simp only: unsigned_of_nat) (simp add: take_bit_nat_eq_self)
      ultimately show ?thesis by (simp only:)
    qed
    have "align_up (of_nat p) (of_nat al) = (of_nat p + mask k) AND NOT (mask k :: rt_uint32_t)"
      using False low mask by (simp add: align_up_def)
    moreover have "unat ((of_nat p + mask k) AND NOT (mask k :: rt_uint32_t)) = q"
      using u by (simp add: and_not_mask_unat q_def al)
    moreover have up: "q \<le> p + (al - 1)" by (simp add: q_def)
    ultimately have e: "align_up (of_nat p) (of_nat al) = of_nat q"
      using p(2) by (simp add: word_unat_eq_iff unsigned_of_nat take_bit_nat_eq_self)
    have qmod: "q mod al = 0" by (simp add: q_def)
    have ceil: "p \<le> q"
    proof -
      have "p + (al - 1) - q < al" unfolding q_def minus_mult_div_eq_mod [symmetric] using ge4
        by (metis minus_div_mult_eq_mod mod_less_divisor less_le_trans zero_less_numeral)
      then show ?thesis by simp
    qed
    have "q \<noteq> p" using qmod False by auto
    moreover have "q mod 4 = 0" using qmod al4 by (metis mod_0_imp_dvd dvd_trans dvd_imp_mod_0)
    ultimately have "p + 4 \<le> q" using ceil p(1) by presburger
    then show ?thesis using e qmod up by (intro exI [of _ q]) simp
  qed
qed

lemma load_store_word: "load_word (store_word a w m) a = w"
proof (rule bit_word_eqI)
  fix n assume "n < LENGTH(32)"
  then consider "n < 8" | "8 \<le> n" "n < 16" | "16 \<le> n" "n < 24" | "24 \<le> n" "n < 32" by fastforce
  then show "bit (load_word (store_word a w m) a) n = bit w n"
    by cases (auto simp: load_word_def store_word_def bit_simps dest: bit_byte)
qed

lemma malloc_block_place:
  assumes "heap_ok h" "malloc_block sz h = Some b"
  shows "payload h b mod 4 = 0" "payload h b + request sz < 2 ^ 32"
proof -
  have s: "heap_shape (heap_blocks h) h" using assms(1) by (simp add: heap_ok_def heap_inv_def)
  have b: "b \<in> set (heap_blocks h)" "fits (request sz) h b"
    using assms(2) by (auto simp: malloc_block_def first_fit_def find_Some_iff split: if_splits)
  show "payload h b mod 4 = 0" using heap_shapeD(4) [OF s b(1)] heap_shapeD(8) [OF s] unfolding payload_def by presburger
  show "payload h b + request sz < 2 ^ 32"
    using heap_shapeD(2,3) [OF s] b(2) by (auto simp: payload_def fits_def)
qed

lemma align4_dvd:
  assumes "4 dvd x" "x < 2 ^ 32"
  shows "align4 x = x"
proof -
  obtain y where y: "x = 4 * y" using assms(1) by (elim dvdE)
  then have "(x + 3) mod 2 ^ 32 = x + 3" using assms(2) by simp
  then show ?thesis unfolding align4_def using y by simp
qed

text \<open>
  For an alignment that is a power of two from 4 on: the address is aligned, the block and the word
  in front of it are inside the memory from the heap, and \<open>rt_free_align\<close> releases that memory.
\<close>

theorem rt_malloc_align_ok:
  assumes h: "heap_ok h" and k: "2 \<le> k" and blk: "malloc_block (align4 sz + 2 ^ k) h = Some b"
    and small: "align4 sz + 2 ^ k < 2 ^ 32"
  shows "\<exists>h' n q. rt_malloc_align sz (2 ^ k) h = Some (h', Some q) \<and> gains b n h h' \<and>
    q mod 2 ^ k = 0 \<and> payload h b + 4 \<le> q \<and> q + align4 sz \<le> payload h b + request (align4 sz + 2 ^ k) \<and>
    request (align4 sz + 2 ^ k) \<le> n \<and> rt_free_align q h' = rt_free (Some (payload h b)) h'"
proof -
  let ?p = "payload h b" and ?al = "2 ^ k :: nat"
  have d: "4 dvd ?al" "4 dvd align4 sz + ?al"
    using le_imp_power_dvd [OF k, of "2 :: nat"] by (simp_all add: align4_def dvd_add)
  have al4: "align4 ?al = ?al" using align4_dvd [OF d(1)] small by simp
  have req: "align4 sz + ?al \<le> request (align4 sz + ?al)"
    using align4_dvd [OF d(2)] small by (simp add: request_def MIN_SIZE_ALIGNED_def)
  have al: "?p mod 4 = 0" and fit: "?p + align4 sz + ?al < 2 ^ 32"
    using malloc_block_place [OF h blk] req by simp_all
  obtain h1 n where m: "rt_malloc (align4 sz + ?al) h = Some (h1, Some ?p)" "gains b n h h1"
      "request (align4 sz + ?al) \<le> n" "mem_bytes h1 = mem_bytes h"
    using rt_malloc_granted [OF h blk] by blast
  have lt: "?p + ?al < 2 ^ 32" using fit by simp
  obtain q where
    q: "align_up (of_nat ?p) (of_nat ?al) = of_nat q" "q mod ?al = 0" "?p + 4 \<le> q" "q \<le> ?p + ?al"
    using align_up_power [OF k refl al lt] by (elim exE conjE) (rule that)
  have q32: "q < 2 ^ 32" using q(4) fit by simp
  have uq: "unat (of_nat q :: rt_uint32_t) = q" "unat (of_nat ?p :: rt_uint32_t) = ?p"
    using q32 q(3) by (simp_all add: unsigned_of_nat take_bit_nat_eq_self)
  let ?w = "unat (of_nat q - 4 :: rt_uint32_t)"
  let ?h' = "h1\<lparr>mem_bytes := store_word ?w (of_nat ?p) (mem_bytes h1)\<rparr>"
  have "add32 (align4 sz) ?al = align4 sz + ?al" using fit by (simp add: add32_def)
  then have "rt_malloc_align sz ?al h = Some (?h', Some q)"
    using m(1) q(1) uq(1) by (simp add: rt_malloc_align_def Let_def al4)
  moreover have "gains b n h ?h'" using m(2) by (simp add: gains_def)
  moreover have "rt_free_align q ?h' = rt_free (Some ?p) ?h'" using uq(2) by (simp add: rt_free_align_def load_store_word)
  moreover have "q + align4 sz \<le> ?p + request (align4 sz + ?al)" using q(4) req by simp
  ultimately show ?thesis
    using q(2,3) m(3) by (intro exI [of _ ?h'] exI [of _ n] exI [of _ q] conjI)
qed

end
