(* ===== verification/KPrintf.thy ===== *)
theory KPrintf
  imports KService
begin

text \<open>
  Formatted printing (\<^verbatim>\<open>rt-thread/src/kservice.c\<close>, with \<^verbatim>\<open>RT_PRINTF_PRECISION\<close> and without
  \<^verbatim>\<open>RT_PRINTF_LONGLONG\<close> and \<^verbatim>\<open>RT_PRINTF_SPECIAL\<close>). A format and its arguments determine a text that
  does not depend on the buffer; \<open>rt_vsnprintf\<close> returns the length of that text, stores as much of it
  as fits, terminates it and touches nothing outside the buffer. \<open>print_number\<close> lays a number out as
  padding, sign, zeros and digits, and the digits denote the number - in base 10 and 16, base 8 being
  printed in base 16.
\<close>

section \<open>Output\<close>

type_synonym outbuf = "addr \<times> (addr \<Rightarrow> rt_uint8_t)"

text \<open>\<^verbatim>\<open>if (buf < end) *buf = c; ++ buf;\<close>\<close>

fun put_char :: "addr \<Rightarrow> rt_uint8_t \<Rightarrow> outbuf \<Rightarrow> outbuf" where
  "put_char e c (p, m) = (Suc p, if p < e then m(p := c) else m)"

text \<open>\<^verbatim>\<open>while (size-- > 0)\<close>: the padding loop, with the value \<open>size\<close> has after it.\<close>

function pad_loop :: "addr \<Rightarrow> rt_uint8_t \<Rightarrow> int \<Rightarrow> outbuf \<Rightarrow> outbuf \<times> int" where
  "pad_loop e c sz st = (if sz > 0 then pad_loop e c (sz - 1) (put_char e c st) else (st, sz - 1))"
  by pat_completeness auto

termination
  by (relation "measure (\<lambda>(e, c, sz, st). nat sz)") auto

declare pad_loop.simps [simp del]

definition put_chars :: "addr \<Rightarrow> rt_uint8_t list \<Rightarrow> outbuf \<Rightarrow> outbuf" where
  "put_chars e xs st = fold (put_char e) xs st"

section \<open>Numbers\<close>

definition ZEROPAD :: rt_uint8_t where "ZEROPAD = 1"
definition SIGN :: rt_uint8_t where "SIGN = 2"
definition PLUS :: rt_uint8_t where "PLUS = 4"
definition SPACE :: rt_uint8_t where "SPACE = 8"
definition LEFT :: rt_uint8_t where "LEFT = 16"
definition SPECIAL :: rt_uint8_t where "SPECIAL = 32"
definition LARGE :: rt_uint8_t where "LARGE = 64"

lemmas print_flags = ZEROPAD_def SIGN_def PLUS_def SPACE_def LEFT_def SPECIAL_def LARGE_def

definition small_digits :: "rt_uint8_t list" where
  "small_digits = [0x30, 0x31, 0x32, 0x33, 0x34, 0x35, 0x36, 0x37, 0x38, 0x39, 0x61, 0x62, 0x63, 0x64, 0x65, 0x66]"

definition large_digits :: "rt_uint8_t list" where
  "large_digits = [0x30, 0x31, 0x32, 0x33, 0x34, 0x35, 0x36, 0x37, 0x38, 0x39, 0x41, 0x42, 0x43, 0x44, 0x45, 0x46]"

text \<open>\<open>divide\<close>: the remainder and the quotient; every base but 10 is taken as 16.\<close>

definition divide :: "rt_uint32_t \<Rightarrow> nat \<Rightarrow> nat \<times> rt_uint32_t" where
  "divide n base = (if base = 10 then (unat (n mod 10), n div 10) else (unat (n mod 16), n div 16))"

lemma divide_less: "n \<noteq> 0 \<Longrightarrow> unat (snd (divide n base)) < unat n"
  by (auto simp: divide_def unat_div unat_gt_0 intro!: div_less_dividend)

text \<open>The digits in the order of the temporary buffer, the lowest first.\<close>

function number_digits :: "rt_uint8_t list \<Rightarrow> nat \<Rightarrow> rt_uint32_t \<Rightarrow> rt_uint8_t list" where
  "number_digits digits base num =
    (if num = 0 then [] else digits ! fst (divide num base) # number_digits digits base (snd (divide num base)))"
  by pat_completeness auto

termination
  by (relation "measure (\<lambda>(digits, base, num). unat num)") (auto intro: divide_less)

declare number_digits.simps [simp del]

lemma number_digits_0 [simp]: "number_digits digits base 0 = []"
  by (simp add: number_digits.simps)

text \<open>The sign character, if there is one, and the absolute value.\<close>

definition number_sign :: "rt_uint32_t \<Rightarrow> rt_uint8_t \<Rightarrow> rt_uint8_t option \<times> rt_uint32_t" where
  "number_sign num type =
    (if type AND SIGN \<noteq> 0 then
       if sint num < 0 then (Some 0x2d, - num)
       else if type AND PLUS \<noteq> 0 then (Some 0x2b, num)
       else if type AND SPACE \<noteq> 0 then (Some 0x20, num)
       else (None, num)
     else (None, num))"

definition print_number :: "addr \<Rightarrow> rt_uint32_t \<Rightarrow> nat \<Rightarrow> int \<Rightarrow> int \<Rightarrow> rt_uint8_t \<Rightarrow> outbuf \<Rightarrow> outbuf" where
  "print_number e num0 base s precision0 type0 st =
    (let digits = (if type0 AND LARGE \<noteq> 0 then large_digits else small_digits);
         type = (if type0 AND LEFT \<noteq> 0 then type0 AND NOT ZEROPAD else type0);
         c = (if type AND ZEROPAD \<noteq> 0 then 0x30 else 0x20);
         (sign, num) = number_sign num0 type;
         tmp = (if num = 0 then [0x30] else number_digits digits base num);
         i = int (length tmp);
         precision = (if i > precision0 then i else precision0);
         size0 = s - precision;
         (st1, size1) =
           (if type AND (ZEROPAD OR LEFT) = 0
            then pad_loop e 0x20 (if sign \<noteq> None \<and> size0 > 0 then size0 - 1 else size0) st
            else (st, size0));
         (st2, size2) = (case sign of None \<Rightarrow> (st1, size1) | Some g \<Rightarrow> (put_char e g st1, size1 - 1));
         (st3, size3) = (if type AND LEFT = 0 then pad_loop e c size2 st2 else (st2, size2));
         st4 = fst (pad_loop e 0x30 (precision - i) st3);
         st5 = (if precision0 \<noteq> 0 then put_chars e (rev tmp) st4 else st4)
     in fst (pad_loop e 0x20 size3 st5))"

section \<open>Formats\<close>

text \<open>
  The arguments as \<^verbatim>\<open>va_arg\<close> reads them: a word, or a string (None for a null pointer). Reading an
  argument that is not there or of the other kind is undefined, here None.
\<close>

datatype varg = VWord rt_uint32_t | VStr "rt_uint8_t list option"

fun take_word :: "varg list \<Rightarrow> (rt_uint32_t \<times> varg list) option" where
  "take_word (VWord w # as) = Some (w, as)"
| "take_word _ = None"

definition isdigit :: "rt_uint8_t \<Rightarrow> bool" where
  "isdigit c \<longleftrightarrow> c - 0x30 < 10"

fun skip_atoi :: "int \<Rightarrow> rt_uint8_t list \<Rightarrow> int \<times> rt_uint8_t list" where
  "skip_atoi i [] = (i, [])"
| "skip_atoi i (c # fs) = (if isdigit c then skip_atoi (i * 10 + int (unat c) - 0x30) fs else (i, c # fs))"

fun parse_flags :: "rt_uint8_t \<Rightarrow> rt_uint8_t list \<Rightarrow> rt_uint8_t \<times> rt_uint8_t list" where
  "parse_flags flags [] = (flags, [])"
| "parse_flags flags (c # fs) =
    (if c = 0x2d then parse_flags (flags OR LEFT) fs
     else if c = 0x2b then parse_flags (flags OR PLUS) fs
     else if c = 0x20 then parse_flags (flags OR SPACE) fs
     else if c = 0x23 then parse_flags (flags OR SPECIAL) fs
     else if c = 0x30 then parse_flags (flags OR ZEROPAD) fs
     else (flags, c # fs))"

record conv_spec =
  cs_flags :: rt_uint8_t
  cs_width :: int
  cs_precision :: int
  cs_qualifier :: rt_uint8_t

definition parse_width :: "rt_uint8_t \<Rightarrow> rt_uint8_t list \<Rightarrow> varg list \<Rightarrow> (rt_uint8_t \<times> int \<times> rt_uint8_t list \<times> varg list) option" where
  "parse_width flags fmt args =
    (case fmt of
       [] \<Rightarrow> Some (flags, - 1, [], args)
     | c # fs \<Rightarrow>
         if isdigit c then (case skip_atoi 0 fmt of (i, fs1) \<Rightarrow> Some (flags, i, fs1, args))
         else if c = 0x2a then
           (case take_word args of
              None \<Rightarrow> None
            | Some (w, as) \<Rightarrow> if sint w < 0 then Some (flags OR LEFT, - sint w, fs, as) else Some (flags, sint w, fs, as))
         else Some (flags, - 1, fmt, args))"

definition parse_precision :: "rt_uint8_t list \<Rightarrow> varg list \<Rightarrow> (int \<times> rt_uint8_t list \<times> varg list) option" where
  "parse_precision fmt args =
    (case fmt of
       [] \<Rightarrow> Some (- 1, [], args)
     | d # fs \<Rightarrow>
         if d \<noteq> 0x2e then Some (- 1, fmt, args)
         else (case fs of
                 [] \<Rightarrow> Some (0, [], args)
               | c # gs \<Rightarrow>
                   if isdigit c then (case skip_atoi 0 fs of (i, fs1) \<Rightarrow> Some (max 0 i, fs1, args))
                   else if c = 0x2a then
                     (case take_word args of None \<Rightarrow> None | Some (w, as) \<Rightarrow> Some (max 0 (sint w), gs, as))
                   else Some (0, fs, args)))"

definition parse_qualifier :: "rt_uint8_t list \<Rightarrow> rt_uint8_t \<times> rt_uint8_t list" where
  "parse_qualifier fmt =
    (case fmt of [] \<Rightarrow> (0, []) | c # fs \<Rightarrow> if c = 0x68 \<or> c = 0x6c then (c, fs) else (0, fmt))"

definition parse_spec :: "rt_uint8_t list \<Rightarrow> varg list \<Rightarrow> (conv_spec \<times> rt_uint8_t list \<times> varg list) option" where
  "parse_spec fmt args =
    (case parse_flags 0 fmt of
       (flags0, fs0) \<Rightarrow>
         (case parse_width flags0 fs0 args of
            None \<Rightarrow> None
          | Some (flags, width, fs1, as1) \<Rightarrow>
              (case parse_precision fs1 as1 of
                 None \<Rightarrow> None
               | Some (precision, fs2, as2) \<Rightarrow>
                   (case parse_qualifier fs2 of
                      (q, fs3) \<Rightarrow> Some (\<lparr>cs_flags = flags, cs_width = width, cs_precision = precision, cs_qualifier = q\<rparr>,
                                     fs3, as2)))))"

section \<open>Conversions\<close>

definition conv_char :: "addr \<Rightarrow> conv_spec \<Rightarrow> rt_uint8_t \<Rightarrow> outbuf \<Rightarrow> outbuf" where
  "conv_char e sp c st =
    (let (st1, w1) = (if cs_flags sp AND LEFT = 0
                      then (case pad_loop e 0x20 (cs_width sp - 1) st of (st1, w) \<Rightarrow> (st1, w + 1))
                      else (st, cs_width sp))
     in fst (pad_loop e 0x20 (w1 - 1) (put_char e c st1)))"

text \<open>The bytes of \<^verbatim>\<open>(NULL)\<close>.\<close>

definition null_text :: "rt_uint8_t list" where
  "null_text = [0x28, 0x4e, 0x55, 0x4c, 0x4c, 0x29]"

definition conv_string :: "addr \<Rightarrow> conv_spec \<Rightarrow> rt_uint8_t list option \<Rightarrow> outbuf \<Rightarrow> outbuf" where
  "conv_string e sp s0 st =
    (let s = (case s0 of None \<Rightarrow> null_text | Some s \<Rightarrow> s);
         len = (if cs_precision sp > 0 \<and> int (length s) > cs_precision sp then cs_precision sp else int (length s));
         (st1, w1) = (if cs_flags sp AND LEFT = 0
                      then (case pad_loop e 0x20 (cs_width sp - len) st of (st1, w) \<Rightarrow> (st1, w + len))
                      else (st, cs_width sp));
         st2 = put_chars e (take (nat len) s) st1
     in fst (pad_loop e 0x20 (w1 - len) st2))"

definition conv_pointer :: "addr \<Rightarrow> conv_spec \<Rightarrow> rt_uint32_t \<Rightarrow> outbuf \<Rightarrow> outbuf" where
  "conv_pointer e sp w st =
    (if cs_width sp = - 1 then print_number e w 16 8 (cs_precision sp) (cs_flags sp OR ZEROPAD) st
     else print_number e w 16 (cs_width sp) (cs_precision sp) (cs_flags sp) st)"

text \<open>The argument of an integer conversion: \<^verbatim>\<open>h\<close> narrows it to 16 bits, with its sign for \<^verbatim>\<open>%d\<close>.\<close>

definition conv_argument :: "rt_uint8_t \<Rightarrow> rt_uint8_t \<Rightarrow> rt_uint32_t \<Rightarrow> rt_uint32_t" where
  "conv_argument qualifier flags w =
    (if qualifier = 0x68 then
       if flags AND SIGN \<noteq> 0 then scast (ucast w :: rt_uint16_t) else ucast (ucast w :: rt_uint16_t)
     else w)"

definition conv_integer :: "addr \<Rightarrow> conv_spec \<Rightarrow> nat \<Rightarrow> rt_uint8_t \<Rightarrow> varg list \<Rightarrow> outbuf \<Rightarrow> (outbuf \<times> varg list) option" where
  "conv_integer e sp base flag args st =
    (case take_word args of
       None \<Rightarrow> None
     | Some (w, as) \<Rightarrow>
         let flags = cs_flags sp OR flag
         in Some (print_number e (conv_argument (cs_qualifier sp) flags w) base (cs_width sp) (cs_precision sp) flags st, as))"

text \<open>The \<^verbatim>\<open>switch\<close> on the conversion character.\<close>

definition convert :: "addr \<Rightarrow> conv_spec \<Rightarrow> rt_uint8_t \<Rightarrow> varg list \<Rightarrow> outbuf \<Rightarrow> (outbuf \<times> varg list) option" where
  "convert e sp c args st =
    (if c = 0x63 then
       (case take_word args of None \<Rightarrow> None | Some (w, as) \<Rightarrow> Some (conv_char e sp (ucast w) st, as))
     else if c = 0x73 then
       (case args of VStr s # as \<Rightarrow> Some (conv_string e sp s st, as) | _ \<Rightarrow> None)
     else if c = 0x70 then
       (case take_word args of None \<Rightarrow> None | Some (w, as) \<Rightarrow> Some (conv_pointer e sp w st, as))
     else if c = 0x25 then Some (put_char e 0x25 st, args)
     else if c = 0x6f then conv_integer e sp 8 0 args st
     else if c = 0x58 then conv_integer e sp 16 LARGE args st
     else if c = 0x78 then conv_integer e sp 16 0 args st
     else if c = 0x64 \<or> c = 0x69 then conv_integer e sp 10 SIGN args st
     else if c = 0x75 then conv_integer e sp 10 0 args st
     else Some (put_char e c (put_char e 0x25 st), args))"

lemma skip_atoi_length: "length (snd (skip_atoi i fs)) \<le> length fs"
  by (induction i fs rule: skip_atoi.induct) auto

lemma parse_flags_length: "length (snd (parse_flags fl fs)) \<le> length fs"
  by (induction fl fs rule: parse_flags.induct) auto

lemma parse_width_length: "parse_width fl fs as = Some (fl', w, fs', as') \<Longrightarrow> length fs' \<le> length fs"
  using skip_atoi_length [of 0 fs] by (auto simp: parse_width_def split: list.splits if_splits option.splits prod.splits)

lemma parse_precision_length: "parse_precision fs as = Some (p, fs', as') \<Longrightarrow> length fs' \<le> length fs"
  using skip_atoi_length [of 0 "tl fs"] by (auto simp: parse_precision_def split: list.splits if_splits option.splits prod.splits)

lemma parse_spec_length: "parse_spec fs as = Some (sp, fs', as') \<Longrightarrow> length fs' \<le> length fs"
  using parse_flags_length [of 0 fs]
  by (auto simp: parse_spec_def parse_qualifier_def split: prod.splits option.splits list.splits if_splits
      dest!: parse_width_length parse_precision_length)

section \<open>The format loop\<close>

text \<open>A format that ends within a conversion prints the percent sign.\<close>

function format_loop :: "addr \<Rightarrow> rt_uint8_t list \<Rightarrow> varg list \<Rightarrow> outbuf \<Rightarrow> outbuf option" where
  "format_loop e [] args st = Some st"
| "format_loop e (c # fs) args st =
    (if c \<noteq> 0x25 then format_loop e fs args (put_char e c st)
     else (case parse_spec fs args of
             None \<Rightarrow> None
           | Some (sp, [], as) \<Rightarrow> Some (put_char e 0x25 st)
           | Some (sp, d # gs, as) \<Rightarrow>
               (case convert e sp d as st of
                  None \<Rightarrow> None
                | Some (st1, as1) \<Rightarrow> format_loop e gs as1 st1)))"
  by pat_completeness auto

termination
  by (relation "measure (\<lambda>(e, fs, args, st). length fs)") (auto dest!: parse_spec_length)

definition rt_vsnprintf :: "addr \<Rightarrow> nat \<Rightarrow> rt_uint8_t list \<Rightarrow> varg list \<Rightarrow> (addr \<Rightarrow> rt_uint8_t) \<Rightarrow>
    ((addr \<Rightarrow> rt_uint8_t) \<times> nat) option" where
  "rt_vsnprintf buf sz0 fmt args m =
    (let e0 = (buf + sz0) mod 2 ^ 32;
         (e, sz) = (if e0 < buf then (2 ^ 32 - 1, 2 ^ 32 - 1 - buf) else (e0, sz0))
     in case format_loop e fmt args (buf, m) of
          None \<Rightarrow> None
        | Some (p, m1) \<Rightarrow>
            Some (if sz > 0 then (if p < e then m1(p := 0) else m1(e - 1 := 0)) else m1, p - buf))"

definition rt_snprintf :: "addr \<Rightarrow> nat \<Rightarrow> rt_uint8_t list \<Rightarrow> varg list \<Rightarrow> (addr \<Rightarrow> rt_uint8_t) \<Rightarrow>
    ((addr \<Rightarrow> rt_uint8_t) \<times> nat) option" where
  "rt_snprintf buf sz fmt args m = rt_vsnprintf buf sz fmt args m"

definition rt_vsprintf :: "addr \<Rightarrow> rt_uint8_t list \<Rightarrow> varg list \<Rightarrow> (addr \<Rightarrow> rt_uint8_t) \<Rightarrow>
    ((addr \<Rightarrow> rt_uint8_t) \<times> nat) option" where
  "rt_vsprintf buf fmt args m = rt_vsnprintf buf (2 ^ 32 - 1) fmt args m"

definition rt_sprintf :: "addr \<Rightarrow> rt_uint8_t list \<Rightarrow> varg list \<Rightarrow> (addr \<Rightarrow> rt_uint8_t) \<Rightarrow>
    ((addr \<Rightarrow> rt_uint8_t) \<times> nat) option" where
  "rt_sprintf buf fmt args m = rt_vsprintf buf fmt args m"

definition RT_CONSOLEBUF_SIZE :: nat where "RT_CONSOLEBUF_SIZE = 256"

text \<open>What \<open>rt_kprintf\<close> hands to the console device: the first \<^verbatim>\<open>length\<close> bytes of \<^verbatim>\<open>rt_log_buf\<close>.\<close>

definition rt_kprintf :: "addr \<Rightarrow> rt_uint8_t list \<Rightarrow> varg list \<Rightarrow> (addr \<Rightarrow> rt_uint8_t) \<Rightarrow>
    ((addr \<Rightarrow> rt_uint8_t) \<times> rt_uint8_t list) option" where
  "rt_kprintf log_buf fmt args m =
    (case rt_vsnprintf log_buf (RT_CONSOLEBUF_SIZE - 1) fmt args m of
       None \<Rightarrow> None
     | Some (m1, n) \<Rightarrow>
         let len = (if n > RT_CONSOLEBUF_SIZE - 1 then RT_CONSOLEBUF_SIZE - 1 else n)
         in Some (m1, map m1 [log_buf..<log_buf + len]))"

section \<open>The text of a format\<close>

lemma put_chars_simps [simp]:
  "put_chars e [] st = st" "put_chars e ys (put_chars e xs st) = put_chars e (xs @ ys) st"
  by (simp_all add: put_chars_def)

lemma put_chars_Cons: "put_chars e (x # xs) st = put_chars e xs (put_char e x st)"
  by (simp add: put_chars_def)

lemma put_char_chars: "put_char e c st = put_chars e [c] st"
  by (simp add: put_chars_def)

lemma pad_loop_eq: "pad_loop e c sz st = (put_chars e (replicate (nat sz) c) st, min sz 0 - 1)"
proof (induction e c sz st rule: pad_loop.induct)
  case (1 e c sz st)
  show ?case
  proof (cases "sz > 0")
    case True
    then have "nat sz = Suc (nat (sz - 1))" by simp
    then show ?thesis using 1 True by (simp add: pad_loop.simps [of e c sz] put_chars_Cons)
  qed (simp add: pad_loop.simps [of e c sz])
qed

lemma put_chars_eq:
  "put_chars e xs (p, m) = (p + length xs, \<lambda>a. if p \<le> a \<and> a < p + length xs \<and> a < e then xs ! (a - p) else m a)"
proof (induction xs arbitrary: p m)
  case (Cons x xs)
  then show ?case by (auto simp: put_chars_Cons fun_eq_iff nth_Cons' Suc_le_eq)
qed (auto simp: fun_eq_iff)

text \<open>The layout of a number: \<open>s\<close> is the field width.\<close>

definition number_text :: "rt_uint32_t \<Rightarrow> nat \<Rightarrow> int \<Rightarrow> int \<Rightarrow> rt_uint8_t \<Rightarrow> rt_uint8_t list" where
  "number_text num0 base s precision type =
    (let (sign, num) = number_sign num0 type;
         ds = (if num = 0 then [0x30]
               else rev (number_digits (if type AND LARGE \<noteq> 0 then large_digits else small_digits) base num));
         sg = (case sign of None \<Rightarrow> [] | Some g \<Rightarrow> [g]);
         zeros = replicate (nat (precision - int (length ds))) 0x30;
         body = zeros @ (if precision \<noteq> 0 then ds else []);
         pad = nat (s - max (int (length ds)) precision - int (length sg))
     in if type AND LEFT \<noteq> 0 then sg @ body @ replicate pad 0x20
        else if type AND ZEROPAD \<noteq> 0 then sg @ replicate pad 0x30 @ body
        else replicate pad 0x20 @ sg @ body)"

lemma print_flag_bits:
  "(t AND (ZEROPAD OR LEFT) = 0) \<longleftrightarrow> t AND ZEROPAD = 0 \<and> t AND LEFT = 0"
  "(t AND NOT ZEROPAD) AND ZEROPAD = 0" "(t AND NOT ZEROPAD) AND LEFT = t AND LEFT"
  "(t AND NOT ZEROPAD) AND SIGN = t AND SIGN" "(t AND NOT ZEROPAD) AND PLUS = t AND PLUS"
  "(t AND NOT ZEROPAD) AND SPACE = t AND SPACE"
proof -
  have z: "(t AND NOT ZEROPAD) AND f = t AND f" if "ZEROPAD AND f = 0" for f
  proof (rule bit_word_eqI)
    fix n
    have "\<not> (bit ZEROPAD n \<and> bit f n)" using arg_cong [OF that, of "\<lambda>w. bit w n"] by (simp add: bit_and_iff)
    then show "bit ((t AND NOT ZEROPAD) AND f) n = bit (t AND f) n" by (auto simp: bit_and_iff bit_not_iff dest: bit_imp_le_length)
  qed
  show "(t AND (ZEROPAD OR LEFT) = 0) \<longleftrightarrow> t AND ZEROPAD = 0 \<and> t AND LEFT = 0"
    by (simp add: bit.conj_disj_distrib or_eq_0_iff)
  show "(t AND NOT ZEROPAD) AND ZEROPAD = 0" by (simp add: and.assoc)
  show "(t AND NOT ZEROPAD) AND LEFT = t AND LEFT" "(t AND NOT ZEROPAD) AND SIGN = t AND SIGN"
    "(t AND NOT ZEROPAD) AND PLUS = t AND PLUS" "(t AND NOT ZEROPAD) AND SPACE = t AND SPACE"
    by (rule z; simp add: print_flags)+
qed

theorem print_number_layout:
  "print_number e num base s precision type st = put_chars e (number_text num base s precision type) st"
proof -
  let ?t = "if type AND LEFT \<noteq> 0 then type AND NOT ZEROPAD else type"
  have sg: "number_sign num ?t = number_sign num type" by (simp add: number_sign_def print_flag_bits)
  obtain sign n where n: "number_sign num type = (sign, n)" by (cases "number_sign num type")
  show ?thesis
    unfolding print_number_def number_text_def Let_def sg n prod.case
    by (cases sign) (simp_all add: print_flag_bits pad_loop_eq put_char_chars max_def)
qed

text \<open>Every conversion prints a text that does not depend on the buffer.\<close>

definition prints :: "(addr \<Rightarrow> outbuf \<Rightarrow> outbuf) \<Rightarrow> bool" where
  "prints f \<longleftrightarrow> (\<exists>xs. \<forall>e st. f e st = put_chars e xs st)"

lemma prints_conversions:
  "prints (\<lambda>e. put_char e c)" "prints (\<lambda>e st. put_char e d (put_char e c st))" "prints (\<lambda>e. conv_char e sp c)"
  "prints (\<lambda>e. conv_string e sp s)" "prints (\<lambda>e. conv_pointer e sp w)" "prints (\<lambda>e. print_number e w b i p t)"
proof -
  show "prints (\<lambda>e. put_char e c)" "prints (\<lambda>e st. put_char e d (put_char e c st))"
    unfolding prints_def by (auto simp: put_char_chars)
  show "prints (\<lambda>e. conv_char e sp c)" "prints (\<lambda>e. conv_string e sp s)"
    unfolding prints_def by (auto simp: conv_char_def conv_string_def pad_loop_eq put_char_chars Let_def)
  show "prints (\<lambda>e. conv_pointer e sp w)" "prints (\<lambda>e. print_number e w b i p t)"
    unfolding prints_def by (auto simp: conv_pointer_def print_number_layout)
qed

definition prints_some :: "(addr \<Rightarrow> outbuf \<Rightarrow> (outbuf \<times> varg list) option) \<Rightarrow> bool" where
  "prints_some f \<longleftrightarrow> (\<forall>e st. f e st = None) \<or> (\<exists>g as. prints g \<and> (\<forall>e st. f e st = Some (g e st, as)))"

lemma prints_someI: "prints (\<lambda>e st. g e st) \<Longrightarrow> prints_some (\<lambda>e st. Some (g e st, as))" "prints_some (\<lambda>e st. None)"
  by (auto simp: prints_some_def)

lemma prints_if: "prints_some f \<Longrightarrow> prints_some g \<Longrightarrow> prints_some (\<lambda>e st. if P then f e st else g e st)"
  by (cases P) simp_all

lemma prints_integer: "prints_some (\<lambda>e. conv_integer e sp base flag args)"
  unfolding conv_integer_def Let_def
  by (cases args rule: take_word.cases) (auto intro!: prints_someI prints_conversions)

lemma prints_convert: "prints_some (\<lambda>e. convert e sp c args)"
proof -
  consider (word) w as where "args = VWord w # as" | (none) "args = []" | (str) s as where "args = VStr s # as"
    by (cases args rule: take_word.cases)
  then show ?thesis
  proof cases
    case word
    show ?thesis unfolding convert_def word take_word.simps list.case varg.case option.case prod.case
      by (intro prints_if prints_someI prints_conversions prints_integer)
  next
    case none
    show ?thesis unfolding convert_def none take_word.simps list.case option.case
      by (intro prints_if prints_someI prints_conversions prints_integer)
  next
    case str
    show ?thesis unfolding convert_def str take_word.simps list.case varg.case option.case
      by (intro prints_if prints_someI prints_conversions prints_integer)
  qed
qed

text \<open>What a format prints: nothing defined, or a text.\<close>

definition has_text :: "(addr \<Rightarrow> outbuf \<Rightarrow> outbuf option) \<Rightarrow> bool" where
  "has_text f \<longleftrightarrow> (\<forall>e st. f e st = None) \<or> (\<exists>xs. \<forall>e st. f e st = Some (put_chars e xs st))"

lemma has_text_eq: "has_text f \<Longrightarrow> (\<And>e st. g e st = f e st) \<Longrightarrow> has_text g"
  by (simp add: has_text_def)

lemma has_text_None: "has_text (\<lambda>e st. None)"
  by (simp add: has_text_def)

lemma has_text_Some: "prints g \<Longrightarrow> has_text (\<lambda>e st. Some (g e st))"
  by (simp add: prints_def has_text_def)

lemma has_text_after:
  assumes "prints g" "has_text f"
  shows "has_text (\<lambda>e st. f e (g e st))"
proof -
  obtain ys where g: "\<And>e st. g e st = put_chars e ys st" using assms(1) by (auto simp: prints_def)
  consider "\<And>e st. f e st = None" | xs where "\<And>e st. f e st = Some (put_chars e xs st)"
    using assms(2) unfolding has_text_def by blast
  then show ?thesis
  proof cases
    case 2
    then have "f e (g e st) = Some (put_chars e (ys @ xs) st)" for e st by (simp add: g)
    then show ?thesis unfolding has_text_def by blast
  qed (simp add: has_text_None)
qed

lemma format_loop_text: "has_text (\<lambda>e. format_loop e fmt args)"
proof (induction "length fmt" arbitrary: fmt args rule: less_induct)
  case less
  show ?case
  proof (cases fmt)
    case Nil
    have "prints (\<lambda>e st. st)" unfolding prints_def by (intro exI [of _ "[]"]) simp
    moreover have "(\<lambda>e. format_loop e [] args) = (\<lambda>e st. Some st)" by (simp add: fun_eq_iff)
    ultimately show ?thesis using has_text_Some [of "\<lambda>e st. st"] by (simp only: Nil)
  next
    case fmt: (Cons c fs)
    show ?thesis
    proof (cases "c = 0x25")
      case False
      have "has_text (\<lambda>e. format_loop e fs args)" using less fmt by simp
      from has_text_after [OF prints_conversions(1) [of c] this] show ?thesis
        by (rule has_text_eq) (use False in \<open>simp add: fmt\<close>)
    next
      case pct: True
      show ?thesis
      proof (cases "parse_spec fs args")
        case None
        then show ?thesis by (intro has_text_eq [OF has_text_None]) (use pct in \<open>simp add: fmt\<close>)
      next
        case (Some x)
        then obtain sp fs1 as where x: "parse_spec fs args = Some (sp, fs1, as)" by (metis prod_cases3)
        show ?thesis
        proof (cases fs1)
          case Nil
          then show ?thesis
            by (intro has_text_eq [OF has_text_Some [OF prints_conversions(1) [of "0x25"]]]) (use pct x in \<open>simp add: fmt\<close>)
        next
          case (Cons d gs)
          have small: "length gs < length fmt" using parse_spec_length [OF x] fmt Cons by simp
          consider "\<And>e st. convert e sp d as st = None"
            | g as1 where "prints g" "\<And>e st. convert e sp d as st = Some (g e st, as1)"
            using prints_convert [of sp d as] unfolding prints_some_def by blast
          then show ?thesis
          proof cases
            case 1
            then show ?thesis by (intro has_text_eq [OF has_text_None]) (use pct x in \<open>simp add: fmt Cons\<close>)
          next
            case 2
            from has_text_after [OF 2(1) less [OF small, of as1]] show ?thesis
              by (rule has_text_eq) (use pct x 2(2) in \<open>simp add: fmt Cons\<close>)
          qed
        qed
      qed
    qed
  qed
qed

text \<open>
  The contract of \<open>rt_vsnprintf\<close>: unless the arguments do not fit the format, there is a text such that
  in every buffer the result is its length, as much of it as fits is stored and terminated, and no
  byte outside the buffer changes.
\<close>

definition stored :: "rt_uint8_t list \<Rightarrow> addr \<Rightarrow> nat \<Rightarrow> (addr \<Rightarrow> rt_uint8_t) \<Rightarrow> (addr \<Rightarrow> rt_uint8_t) \<Rightarrow> bool" where
  "stored xs b sz m m' \<longleftrightarrow> (\<forall>a. a < b \<or> b + sz \<le> a \<longrightarrow> m' a = m a) \<and>
    (0 < sz \<longrightarrow> m' (b + min (length xs) (sz - 1)) = 0 \<and> (\<forall>i < min (length xs) (sz - 1). m' (b + i) = xs ! i))"

theorem rt_vsnprintf_contract:
  assumes "rt_vsnprintf b0 sz0 fmt args m0 \<noteq> None"
  shows "\<exists>xs. \<forall>b sz m. b + sz < 2 ^ 32 \<longrightarrow>
    (\<exists>m'. rt_vsnprintf b sz fmt args m = Some (m', length xs) \<and> stored xs b sz m m')"
proof -
  obtain xs where xs: "\<And>e st. format_loop e fmt args st = Some (put_chars e xs st)"
    using format_loop_text [of fmt args] assms unfolding has_text_def
    by (auto simp: rt_vsnprintf_def Let_def split: if_splits)
  have "\<exists>m'. rt_vsnprintf b sz fmt args m = Some (m', length xs) \<and> stored xs b sz m m'"
    if "b + sz < 2 ^ 32" for b sz m
    using that by (auto simp: rt_vsnprintf_def stored_def Let_def xs put_chars_eq min_def)
  then show ?thesis by blast
qed

section \<open>The digits of a number\<close>

definition digit_value :: "rt_uint8_t \<Rightarrow> nat" where
  "digit_value c = (if c < 0x3a then unat c - 0x30 else if c < 0x47 then unat c - 55 else unat c - 87)"

definition text_value :: "nat \<Rightarrow> rt_uint8_t list \<Rightarrow> nat" where
  "text_value b xs = foldl (\<lambda>v c. v * b + digit_value c) 0 xs"

lemma digit_value_digits:
  "d < 16 \<Longrightarrow> digit_value (small_digits ! d) = d" "d < 16 \<Longrightarrow> digit_value (large_digits ! d) = d"
proof -
  have "\<forall>d \<in> {..<16}. digit_value (small_digits ! d) = d \<and> digit_value (large_digits ! d) = d"
    by (simp add: lessThan_nat_numeral lessThan_Suc digit_value_def small_digits_def large_digits_def)
  then show "d < 16 \<Longrightarrow> digit_value (small_digits ! d) = d" "d < 16 \<Longrightarrow> digit_value (large_digits ! d) = d" by auto
qed

definition radix :: "nat \<Rightarrow> nat" where
  "radix base = (if base = 10 then 10 else 16)"

lemma divide_radix: "fst (divide n base) = unat n mod radix base" "unat (snd (divide n base)) = unat n div radix base"
  by (simp_all add: divide_def radix_def unat_mod unat_div)

lemma text_value_snoc: "text_value b (xs @ [c]) = text_value b xs * b + digit_value c"
  by (simp add: text_value_def)

lemma digit_value_remainder:
  "digits = small_digits \<or> digits = large_digits \<Longrightarrow> digit_value (digits ! (n mod radix base)) = n mod radix base"
  using digit_value_digits [of "n mod radix base"] by (auto simp: radix_def less_trans [OF mod_less_divisor])

theorem number_digits_value:
  assumes "digits = small_digits \<or> digits = large_digits"
  shows "text_value (radix base) (rev (number_digits digits base num)) = unat num"
proof (induction "unat num" arbitrary: num rule: less_induct)
  case less
  show ?case
  proof (cases "num = 0")
    case True
    then show ?thesis by (simp add: text_value_def)
  next
    case False
    have "text_value (radix base) (rev (number_digits digits base (snd (divide num base)))) = unat (snd (divide num base))"
      by (rule less) (rule divide_less [OF False])
    then show ?thesis
      using False by (simp add: number_digits.simps [of _ _ num] text_value_snoc divide_radix digit_value_remainder [OF assms])
  qed
qed

text \<open>The digits of a 32-bit number fit the temporary buffer of 16 characters.\<close>

lemma number_digits_length: "unat num < radix base ^ k \<Longrightarrow> length (number_digits digits base num) \<le> k"
proof (induction k arbitrary: num)
  case 0
  then have "num = 0" by (simp add: unat_eq_zero)
  then show ?case by simp
next
  case (Suc k)
  have "unat (snd (divide num base)) < radix base ^ k"
    using Suc.prems by (simp add: divide_radix less_mult_imp_div_less mult.commute)
  then show ?case using Suc.IH by (simp add: number_digits.simps [of _ _ num])
qed

lemma number_digits_fit: "length (number_digits digits base num) \<le> 10"
proof (rule number_digits_length)
  have "unat num < 2 ^ 32" using unsigned_less [of num] by simp
  also have "(2 :: nat) ^ 32 \<le> radix base ^ 10" by (simp add: radix_def)
  finally show "unat num < radix base ^ 10" .
qed

text \<open>The parts of a number's text and what they denote.\<close>

lemma number_sign_value:
  assumes "number_sign num type = (sign, n)"
  shows "unat n = nat \<bar>if type AND SIGN \<noteq> 0 then sint num else uint num\<bar>"
    "sign = Some 0x2d \<longleftrightarrow> type AND SIGN \<noteq> 0 \<and> sint num < 0"
proof -
  have b: "- (2 ^ 31) \<le> sint num" "sint num < 2 ^ 31" using sint_greater_eq [of num] sint_less [of num] by simp_all
  have u: "uint (word_of_int i :: rt_uint32_t) = i mod 2 ^ 32" for i
    by (simp only: uint_word_of_int) (simp add: take_bit_eq_mod)
  have neg: "unat (- num) = nat (- sint num)" if "sint num < 0"
  proof -
    have "uint (- num) = (- sint num) mod 2 ^ 32" using u [of "- sint num"] by simp
    then have "uint (- num) = - sint num" using that b by simp
    then show ?thesis by (metis nat_uint_eq)
  qed
  have pos: "unat num = nat (sint num)" if "\<not> sint num < 0"
  proof -
    have "uint num = sint num mod 2 ^ 32" using u [of "sint num"] by simp
    then have "uint num = sint num" using that b by simp
    then show ?thesis by (metis nat_uint_eq)
  qed
  show "unat n = nat \<bar>if type AND SIGN \<noteq> 0 then sint num else uint num\<bar>"
    using assms neg pos by (auto simp: number_sign_def split: if_splits)
  show "sign = Some 0x2d \<longleftrightarrow> type AND SIGN \<noteq> 0 \<and> sint num < 0"
    using assms by (auto simp: number_sign_def split: if_splits)
qed

lemma print_number_parts:
  assumes "precision \<noteq> 0"
  shows "\<exists>pad sg zs ds. print_number e num base s precision type st = put_chars e
      (if type AND LEFT \<noteq> 0 then sg @ zs @ ds @ replicate pad 0x20
       else if type AND ZEROPAD \<noteq> 0 then sg @ replicate pad 0x30 @ zs @ ds
       else replicate pad 0x20 @ sg @ zs @ ds) st \<and>
    zs = replicate (nat precision - length ds) 0x30 \<and> length ds \<le> 10 \<and>
    int (pad + length (sg @ zs @ ds)) = max s (int (length (sg @ zs @ ds))) \<and>
    text_value (radix base) ds = nat \<bar>if type AND SIGN \<noteq> 0 then sint num else uint num\<bar> \<and>
    (hd (sg @ [0]) = 0x2d \<longleftrightarrow> type AND SIGN \<noteq> 0 \<and> sint num < 0)"
proof -
  obtain sign n where n: "number_sign num type = (sign, n)" by (cases "number_sign num type")
  define digits where "digits = (if type AND LARGE \<noteq> 0 then large_digits else small_digits)"
  define ds where "ds = (if n = 0 then [0x30] else rev (number_digits digits base n))"
  define sg where "sg = (case sign of None \<Rightarrow> [] | Some g \<Rightarrow> [g])"
  define zs :: "rt_uint8_t list" where "zs = replicate (nat precision - length ds) 0x30"
  define pad where "pad = nat (s - max (int (length ds)) precision - int (length sg))"
  have zeros: "nat (precision - int (length ds)) = nat precision - length ds" by (simp add: nat_diff_distrib')
  have "number_text num base s precision type =
      (if type AND LEFT \<noteq> 0 then sg @ zs @ ds @ replicate pad 0x20
       else if type AND ZEROPAD \<noteq> 0 then sg @ replicate pad 0x30 @ zs @ ds
       else replicate pad 0x20 @ sg @ zs @ ds)"
    unfolding number_text_def n prod.case Let_def digits_def [symmetric] ds_def [symmetric] sg_def [symmetric]
      pad_def [symmetric] zeros zs_def [symmetric] using assms by simp
  moreover have "length ds \<le> 10" using number_digits_fit [of digits base n] by (simp add: ds_def)
  moreover have "int (pad + length (sg @ zs @ ds)) = max s (int (length (sg @ zs @ ds)))"
    by (simp add: pad_def zs_def max_def)
  moreover have "text_value (radix base) ds = unat n"
    using number_digits_value [of digits base n] by (auto simp: ds_def digits_def text_value_def digit_value_def)
  moreover have "hd (sg @ [0]) = 0x2d \<longleftrightarrow> sign = Some 0x2d" by (simp add: sg_def split: option.split)
  ultimately show ?thesis
    using number_sign_value [OF n] zs_def by (simp only: print_number_layout) blast
qed

section \<open>What is not printed\<close>

text \<open>\<^verbatim>\<open>%o\<close> prints the hexadecimal digits.\<close>

lemma octal_is_hexadecimal: "number_text num 8 s p t = number_text num 16 s p t"
proof -
  have d: "divide n 8 = divide n 16" for n by (simp add: divide_def)
  have "number_digits digits 8 n = number_digits digits 16 n" for digits n
  proof (induction "unat n" arbitrary: n rule: less_induct)
    case less
    then show ?case
      using divide_less [of n 16] by (simp add: number_digits.simps [of _ 8 n] number_digits.simps [of _ 16 n] d)
  qed
  then have "number_digits digits 8 = number_digits digits 16" for digits by blast
  then show ?thesis by (simp only: number_text_def)
qed

text \<open>With precision 0 no number is printed at all, not only 0.\<close>

lemma precision_zero_drops_digits:
  "number_text num base (- 1) 0 0 = []" "number_text 5 10 (- 1) (- 1) SIGN = [0x35]"
  by (simp_all add: number_text_def number_sign_def print_flags number_digits.simps divide_def small_digits_def)

text \<open>A text of 255 characters or more is cut to 254, and the terminator is sent to the console as well.\<close>

lemma kprintf_sends_terminator:
  assumes "rt_vsnprintf b0 sz0 fmt args m0 = Some (m1, n)" "b0 + sz0 < 2 ^ 32" "255 \<le> n" "log_buf + 256 < 2 ^ 32"
  shows "\<exists>m' bs. rt_kprintf log_buf fmt args m = Some (m', bs) \<and> length bs = 255 \<and> bs ! 254 = 0"
proof -
  have "rt_vsnprintf b0 sz0 fmt args m0 \<noteq> None" using assms(1) by simp
  then obtain xs where c: "\<forall>b sz m. b + sz < 2 ^ 32 \<longrightarrow>
      (\<exists>m'. rt_vsnprintf b sz fmt args m = Some (m', length xs) \<and> stored xs b sz m m')"
    using rt_vsnprintf_contract [of b0 sz0 fmt args m0] by blast
  have "n = length xs" using c [rule_format, OF assms(2), of m0] assms(1) by auto
  moreover obtain m' where "rt_vsnprintf log_buf 255 fmt args m = Some (m', length xs)" "stored xs log_buf 255 m m'"
    using c [rule_format, of log_buf 255 m] assms(4) by auto
  ultimately show ?thesis using assms(3) by (auto simp: rt_kprintf_def RT_CONSOLEBUF_SIZE_def stored_def Let_def)
qed

end
