(* ===== verification/I2c.thy ===== *)
theory I2c
  imports Prelude
begin

text \<open>
  The I2C master that drives its two lines bit by bit
  (\<^verbatim>\<open>rt-thread/components/drivers/i2c/i2c-bit-ops.c\<close>), the calls of \<^verbatim>\<open>i2c_core.c\<close> on top of it and
  the recovery of a blocked bus in \<^verbatim>\<open>drivers/drv_soft_i2c.c\<close>. The state is what the master drives on
  the lines, the symbols a receiver sees there (start, stop, bits), and what the lines will read.
  A transfer that succeeds puts exactly the frames of its messages on the wire, stores the bits that
  were read, and every transfer leaves the bus released.
\<close>

section \<open>The lines\<close>

datatype i2c_symbol = Start_cond | Stop_cond | Wire_bit bool

text \<open>
  \<open>sda_moved\<close>: the data line changed since the clock rose. A bit is valid when the clock falls without such
  a change; a change while the clock is high is a start or a stop condition. \<open>sda_in\<close> and \<open>scl_in\<close> are the levels
  that the next readings of the lines give; a line that nobody holds is high.
\<close>

record i2c_lines =
  scl_pin :: bool
  sda_pin :: bool
  sda_moved :: bool
  wire :: "i2c_symbol list"
  sda_in :: "bool list"
  scl_in :: "bool list"
  i2c_tick :: rt_tick_t

definition SET_SDA :: "bool \<Rightarrow> i2c_lines \<Rightarrow> i2c_lines" where
  "SET_SDA b l =
    (if b = sda_pin l then l
     else if scl_pin l then l\<lparr>sda_pin := b, sda_moved := True, wire := wire l @ [if b then Stop_cond else Start_cond]\<rparr>
     else l\<lparr>sda_pin := b\<rparr>)"

definition SET_SCL :: "bool \<Rightarrow> i2c_lines \<Rightarrow> i2c_lines" where
  "SET_SCL b l =
    (if b = scl_pin l then l
     else if b then l\<lparr>scl_pin := True, sda_moved := False\<rparr>
     else if sda_moved l then l\<lparr>scl_pin := False\<rparr>
     else l\<lparr>scl_pin := False, wire := wire l @ [Wire_bit (sda_pin l)]\<rparr>)"

definition GET_SDA :: "i2c_lines \<Rightarrow> bool \<times> i2c_lines" where
  "GET_SDA l = (case sda_in l of [] \<Rightarrow> (True, l) | b # bs \<Rightarrow> (b, l\<lparr>sda_in := bs\<rparr>))"

record rt_i2c_bit_ops =
  ops_get_scl :: bool
  ops_timeout :: rt_uint32_t

text \<open>
  \<open>SCL_H\<close>: the loop waits until the clock line is high. Each turn reads the line and sleeps for half of the
  time limit.
\<close>

fun scl_wait :: "rt_uint32_t \<Rightarrow> rt_tick_t \<Rightarrow> rt_tick_t \<Rightarrow> bool list \<Rightarrow> bool \<times> rt_tick_t \<times> bool list" where
  "scl_wait timeout start tick [] = (True, tick, [])"
| "scl_wait timeout start tick (p # ps) =
    (if p then (True, tick, ps)
     else if tick - start > timeout then (False, tick, ps)
     else scl_wait timeout start (tick + drop_bit 1 (timeout + 1)) ps)"

definition SCL_H :: "rt_i2c_bit_ops \<Rightarrow> i2c_lines \<Rightarrow> i2c_lines \<times> rt_err_t" where
  "SCL_H ops l =
    (let l1 = SET_SCL True l in
     if \<not> ops_get_scl ops then (l1, RT_EOK)
     else case scl_wait (ops_timeout ops) (i2c_tick l1) (i2c_tick l1) (scl_in l1) of
            (ok, t, ps) \<Rightarrow> (l1\<lparr>i2c_tick := t, scl_in := ps\<rparr>, if ok then RT_EOK else - RT_ETIMEOUT))"

section \<open>Conditions and bytes\<close>

definition i2c_start :: "i2c_lines \<Rightarrow> i2c_lines" where
  "i2c_start l = SET_SCL False (SET_SDA False l)"

definition i2c_restart :: "rt_i2c_bit_ops \<Rightarrow> i2c_lines \<Rightarrow> i2c_lines" where
  "i2c_restart ops l = SET_SCL False (SET_SDA False (fst (SCL_H ops (SET_SDA True l))))"

definition i2c_stop :: "rt_i2c_bit_ops \<Rightarrow> i2c_lines \<Rightarrow> i2c_lines" where
  "i2c_stop ops l = SET_SDA True (fst (SCL_H ops (SET_SDA False l)))"

definition i2c_waitack :: "rt_i2c_bit_ops \<Rightarrow> i2c_lines \<Rightarrow> i2c_lines \<times> int" where
  "i2c_waitack ops l =
    (case SCL_H ops (SET_SDA True l) of
       (l1, r) \<Rightarrow>
         if r < 0 then (l1, - RT_ETIMEOUT)
         else (case GET_SDA l1 of (b, l2) \<Rightarrow> (SET_SCL False l2, if b then 0 else 1)))"

fun writeb_loop :: "rt_i2c_bit_ops \<Rightarrow> rt_uint8_t \<Rightarrow> nat \<Rightarrow> i2c_lines \<Rightarrow> i2c_lines \<times> bool" where
  "writeb_loop ops data 0 l = (l, True)"
| "writeb_loop ops data (Suc i) l =
    (case SCL_H ops (SET_SDA (bit data i) (SET_SCL False l)) of
       (l1, r) \<Rightarrow> if r < 0 then (l1, False) else writeb_loop ops data i l1)"

definition i2c_writeb :: "rt_i2c_bit_ops \<Rightarrow> rt_uint8_t \<Rightarrow> i2c_lines \<Rightarrow> i2c_lines \<times> int" where
  "i2c_writeb ops data l =
    (case writeb_loop ops data 8 l of
       (l1, ok) \<Rightarrow> if ok then i2c_waitack ops (SET_SCL False l1) else (l1, - RT_ETIMEOUT))"

fun readb_loop :: "rt_i2c_bit_ops \<Rightarrow> nat \<Rightarrow> rt_uint8_t \<Rightarrow> i2c_lines \<Rightarrow> i2c_lines \<times> int" where
  "readb_loop ops 0 data l = (l, int (unat data))"
| "readb_loop ops (Suc n) data l =
    (case SCL_H ops l of
       (l1, r) \<Rightarrow>
         if r < 0 then (l1, - RT_ETIMEOUT)
         else (case GET_SDA l1 of
                 (b, l2) \<Rightarrow> readb_loop ops n (push_bit 1 data OR (if b then 1 else 0)) (SET_SCL False l2)))"

definition i2c_readb :: "rt_i2c_bit_ops \<Rightarrow> i2c_lines \<Rightarrow> i2c_lines \<times> int" where
  "i2c_readb ops l = readb_loop ops 8 0 (SET_SDA True l)"

definition i2c_send_ack_or_nack :: "rt_i2c_bit_ops \<Rightarrow> bool \<Rightarrow> i2c_lines \<Rightarrow> i2c_lines \<times> rt_err_t" where
  "i2c_send_ack_or_nack ops ack l =
    (case SCL_H ops (if ack then SET_SDA False l else l) of
       (l1, r) \<Rightarrow> if r < 0 then (l1, - RT_ETIMEOUT) else (SET_SCL False l1, RT_EOK))"

section \<open>Messages\<close>

definition RT_I2C_RD :: rt_uint16_t where "RT_I2C_RD = 1"
definition RT_I2C_ADDR_10BIT :: rt_uint16_t where "RT_I2C_ADDR_10BIT = 4"
definition RT_I2C_NO_START :: rt_uint16_t where "RT_I2C_NO_START = 16"
definition RT_I2C_IGNORE_NACK :: rt_uint16_t where "RT_I2C_IGNORE_NACK = 32"
definition RT_I2C_NO_READ_ACK :: rt_uint16_t where "RT_I2C_NO_READ_ACK = 64"

lemmas i2c_flags = RT_I2C_RD_def RT_I2C_ADDR_10BIT_def RT_I2C_NO_START_def RT_I2C_IGNORE_NACK_def RT_I2C_NO_READ_ACK_def

record rt_i2c_msg =
  msg_addr :: rt_uint16_t
  msg_flags :: rt_uint16_t
  msg_len :: rt_uint16_t
  msg_buf :: "rt_uint8_t list"

fun send_bytes_loop :: "rt_i2c_bit_ops \<Rightarrow> bool \<Rightarrow> rt_uint8_t list \<Rightarrow> int \<Rightarrow> i2c_lines \<Rightarrow> i2c_lines \<times> int" where
  "send_bytes_loop ops ignore_nack [] bytes l = (l, bytes)"
| "send_bytes_loop ops ignore_nack (x # xs) bytes l =
    (case i2c_writeb ops x l of
       (l1, ret) \<Rightarrow>
         if ret > 0 \<or> ignore_nack \<and> ret = 0 then send_bytes_loop ops ignore_nack xs (bytes + 1) l1
         else if ret = 0 then (l1, 0)
         else (l1, ret))"

definition i2c_send_bytes :: "rt_i2c_bit_ops \<Rightarrow> rt_i2c_msg \<Rightarrow> i2c_lines \<Rightarrow> i2c_lines \<times> int" where
  "i2c_send_bytes ops msg l =
    send_bytes_loop ops (msg_flags msg AND RT_I2C_IGNORE_NACK \<noteq> 0) (take (unat (msg_len msg)) (msg_buf msg)) 0 l"

text \<open>The bytes received so far are returned beside the result.\<close>

fun recv_bytes_loop :: "rt_i2c_bit_ops \<Rightarrow> bool \<Rightarrow> nat \<Rightarrow> rt_uint8_t list \<Rightarrow> i2c_lines \<Rightarrow> i2c_lines \<times> rt_uint8_t list \<times> int" where
  "recv_bytes_loop ops no_ack 0 got l = (l, got, int (length got))"
| "recv_bytes_loop ops no_ack (Suc count) got l =
    (case i2c_readb ops l of
       (l1, val) \<Rightarrow>
         if val \<ge> 0 then
           let got1 = got @ [word_of_int val] in
           if no_ack then recv_bytes_loop ops no_ack count got1 l1
           else (case i2c_send_ack_or_nack ops (count \<noteq> 0) l1 of
                   (l2, r) \<Rightarrow> if r < 0 then (l2, got1, r) else recv_bytes_loop ops no_ack count got1 l2)
         else (l1, got, int (length got)))"

definition i2c_recv_bytes :: "rt_i2c_bit_ops \<Rightarrow> rt_i2c_msg \<Rightarrow> i2c_lines \<Rightarrow> i2c_lines \<times> rt_uint8_t list \<times> int" where
  "i2c_recv_bytes ops msg l =
    recv_bytes_loop ops (msg_flags msg AND RT_I2C_NO_READ_ACK \<noteq> 0) (unat (msg_len msg)) [] l"

text \<open>
  \<^verbatim>\<open>retries\<close> is a signed number; below zero the loop does not run and the result is the 0 of its initialisation.
\<close>

fun send_address_loop :: "rt_i2c_bit_ops \<Rightarrow> rt_uint8_t \<Rightarrow> nat \<Rightarrow> i2c_lines \<Rightarrow> i2c_lines \<times> int" where
  "send_address_loop ops a 0 l = i2c_writeb ops a l"
| "send_address_loop ops a (Suc retries) l =
    (case i2c_writeb ops a l of
       (l1, ret) \<Rightarrow>
         if ret = 1 then (l1, ret) else send_address_loop ops a retries (i2c_start (i2c_stop ops l1)))"

definition i2c_send_address :: "rt_i2c_bit_ops \<Rightarrow> rt_uint8_t \<Rightarrow> int \<Rightarrow> i2c_lines \<Rightarrow> i2c_lines \<times> int" where
  "i2c_send_address ops a retries l = (if 0 \<le> retries then send_address_loop ops a (nat retries) l else (l, 0))"

definition i2c_bit_send_address :: "rt_i2c_bit_ops \<Rightarrow> rt_uint32_t \<Rightarrow> rt_i2c_msg \<Rightarrow> i2c_lines \<Rightarrow> i2c_lines \<times> rt_err_t" where
  "i2c_bit_send_address ops bus_retries msg l =
    (let ignore_nack = (msg_flags msg AND RT_I2C_IGNORE_NACK \<noteq> 0);
         retries = (if ignore_nack then 0 else sint bus_retries);
         rd = (msg_flags msg AND RT_I2C_RD \<noteq> 0)
     in if msg_flags msg AND RT_I2C_ADDR_10BIT \<noteq> 0 then
          let addr1 = 0xf0 OR ucast (drop_bit 7 (msg_addr msg) AND 0x06); addr2 = ucast (msg_addr msg AND 0xff)
          in case i2c_send_address ops addr1 retries l of
               (l1, ret1) \<Rightarrow>
                 if ret1 \<noteq> 1 \<and> \<not> ignore_nack then (l1, - RT_EIO)
                 else (case i2c_writeb ops addr2 l1 of
                         (l2, ret2) \<Rightarrow>
                           if ret2 \<noteq> 1 \<and> \<not> ignore_nack then (l2, - RT_EIO)
                           else if rd then
                             (case i2c_send_address ops (addr1 OR 1) retries (i2c_restart ops l2) of
                                (l3, ret3) \<Rightarrow> (l3, if ret3 \<noteq> 1 \<and> \<not> ignore_nack then - RT_EIO else RT_EOK))
                           else (l2, RT_EOK))
        else
          (case i2c_send_address ops (ucast (push_bit 1 (msg_addr msg)) OR (if rd then 1 else 0)) retries l of
             (l1, ret) \<Rightarrow> (l1, if ret \<noteq> 1 \<and> \<not> ignore_nack then - RT_EIO else RT_EOK)))"

text \<open>The loop over the messages from number \<open>i\<close> on.\<close>

fun xfer_loop :: "rt_i2c_bit_ops \<Rightarrow> rt_uint32_t \<Rightarrow> nat \<Rightarrow> rt_i2c_msg list \<Rightarrow> i2c_lines \<Rightarrow> i2c_lines \<times> rt_i2c_msg list \<times> int" where
  "xfer_loop ops retries i [] l = (l, [], int i)"
| "xfer_loop ops retries i (msg # ms) l =
    (let (l1, r1) = (if msg_flags msg AND RT_I2C_NO_START = 0
                     then i2c_bit_send_address ops retries msg (if i \<noteq> 0 then i2c_restart ops l else l)
                     else (l, RT_EOK))
     in if r1 \<noteq> RT_EOK \<and> msg_flags msg AND RT_I2C_IGNORE_NACK = 0 then (l1, msg # ms, r1)
        else if msg_flags msg AND RT_I2C_RD \<noteq> 0 then
          let (l2, got, ret) = i2c_recv_bytes ops msg l1;
              msg1 = msg\<lparr>msg_buf := memcpy_at (msg_buf msg) 0 got\<rparr>
          in if ret < int (unat (msg_len msg)) then (l2, msg1 # ms, if ret \<ge> 0 then - RT_EIO else ret)
             else (case xfer_loop ops retries (Suc i) ms l2 of (l3, ms1, r) \<Rightarrow> (l3, msg1 # ms1, r))
        else
          let (l2, ret) = i2c_send_bytes ops msg l1
          in if ret < int (unat (msg_len msg)) then (l2, msg # ms, if ret \<ge> 0 then - RT_ERROR else ret)
             else (case xfer_loop ops retries (Suc i) ms l2 of (l3, ms1, r) \<Rightarrow> (l3, msg # ms1, r)))"

definition i2c_bit_xfer :: "rt_i2c_bit_ops \<Rightarrow> rt_uint32_t \<Rightarrow> rt_i2c_msg list \<Rightarrow> i2c_lines \<Rightarrow> i2c_lines \<times> rt_i2c_msg list \<times> int" where
  "i2c_bit_xfer ops retries msgs l =
    (case xfer_loop ops retries 0 msgs (i2c_start l) of (l1, ms, ret) \<Rightarrow> (i2c_stop ops l1, ms, ret))"

section \<open>The calls of applications\<close>

text \<open>
  \<open>rt_i2c_transfer\<close> makes the transfer under the lock of the bus, which is not part of this state. The length of
  a message has 16 bits, the count of the calls has 32.
\<close>

definition rt_i2c_master_send ::
    "rt_i2c_bit_ops \<Rightarrow> rt_uint32_t \<Rightarrow> rt_uint16_t \<Rightarrow> rt_uint16_t \<Rightarrow> rt_uint8_t list \<Rightarrow> rt_uint32_t \<Rightarrow> i2c_lines \<Rightarrow> i2c_lines \<times> int" where
  "rt_i2c_master_send ops retries a flags buf count l =
    (case i2c_bit_xfer ops retries [\<lparr>msg_addr = a, msg_flags = flags, msg_len = ucast count, msg_buf = buf\<rparr>] l of
       (l1, _, ret) \<Rightarrow> (l1, if ret > 0 then int (unat count) else ret))"

definition rt_i2c_master_recv ::
    "rt_i2c_bit_ops \<Rightarrow> rt_uint32_t \<Rightarrow> rt_uint16_t \<Rightarrow> rt_uint16_t \<Rightarrow> rt_uint8_t list \<Rightarrow> rt_uint32_t \<Rightarrow> i2c_lines \<Rightarrow>
      i2c_lines \<times> rt_uint8_t list \<times> int" where
  "rt_i2c_master_recv ops retries a flags buf count l =
    (case i2c_bit_xfer ops retries [\<lparr>msg_addr = a, msg_flags = flags OR RT_I2C_RD, msg_len = ucast count, msg_buf = buf\<rparr>] l of
       (l1, ms, ret) \<Rightarrow> (l1, msg_buf (hd ms), if ret > 0 then int (unat count) else ret))"

text \<open>\<^verbatim>\<open>stm32_i2c_bus_unlock\<close>: nine clock pulses when the data line is held low.\<close>

fun unlock_pulses :: "nat \<Rightarrow> i2c_lines \<Rightarrow> i2c_lines" where
  "unlock_pulses 0 l = l"
| "unlock_pulses (Suc n) l = unlock_pulses n (SET_SCL False (SET_SCL True l))"

definition stm32_i2c_bus_unlock :: "i2c_lines \<Rightarrow> i2c_lines \<times> rt_err_t" where
  "stm32_i2c_bus_unlock l =
    (let (b, l1) = GET_SDA l; l2 = (if b then l1 else unlock_pulses 9 l1); (b2, l3) = GET_SDA l2
     in (l3, if b2 then RT_EOK else - RT_ERROR))"

section \<open>Driving the lines\<close>

lemma set_low [simp]:
  "\<not> scl_pin l \<Longrightarrow> SET_SDA b l = l\<lparr>sda_pin := b\<rparr>" "\<not> scl_pin l \<Longrightarrow> SET_SCL False l = l"
  by (simp_all add: SET_SDA_def SET_SCL_def)

lemma SCL_H_low:
  assumes "\<not> scl_pin l"
  obtains t ps r where "SCL_H ops l = (l\<lparr>scl_pin := True, sda_moved := False, i2c_tick := t, scl_in := ps\<rparr>, r)" "r = RT_EOK \<or> r < 0"
proof (cases "ops_get_scl ops")
  case True
  obtain ok t ps where w: "scl_wait (ops_timeout ops) (i2c_tick l) (i2c_tick l) (scl_in l) = (ok, t, ps)" by (metis prod_cases3)
  show ?thesis
    using assms True w by (intro that [where t = t and ps = ps and r = "if ok then RT_EOK else - RT_ETIMEOUT"])
      (auto simp: SCL_H_def SET_SCL_def Let_def rt_err_defs)
next
  case False
  then show ?thesis
    using assms by (intro that [where t = "i2c_tick l" and ps = "scl_in l" and r = RT_EOK]) (simp_all add: SCL_H_def SET_SCL_def Let_def)
qed

text \<open>The clock wait reads the line at most four times before it gives up.\<close>

lemma scl_wait_bounded:
  assumes T: "1 \<le> unat T" "unat T < 2 ^ 30" and w: "scl_wait T s s ps = (ok, t, ps')"
  shows "length ps \<le> length ps' + 4"
proof -
  define d where "d = drop_bit 1 (T + 1)"
  have un: "unat (T + 1) = unat T + 1" using T(2) by (simp add: unat_word_ariths)
  have d: "unat d = (unat T + 1) div 2" unfolding d_def unat_drop_bit_eq un by (simp add: drop_bit_eq_div)
  have d2: "unat (d + d) = 2 * unat d" and d3: "unat (d + d + d) = 3 * unat d"
    using d T(2) by (simp_all add: unat_word_ariths)
  have c: "s + d - s = d" "s + d + d - s = d + d" "s + d + d + d - s = d + d + d" by simp_all
  have stop: "d + d + d > T" using d3 d T(1) by (simp add: word_less_nat_alt)
  show ?thesis
  proof (cases ps)
    case (Cons p1 ps1)
    show ?thesis
    proof (cases ps1)
      case (Cons p2 ps2)
      show ?thesis
      proof (cases ps2)
        case (Cons p3 ps3)
        show ?thesis
        proof (cases ps3)
          case (Cons p4 ps4)
          show ?thesis
            using w stop unfolding \<open>ps = p1 # ps1\<close> \<open>ps1 = p2 # ps2\<close> \<open>ps2 = p3 # ps3\<close> Cons
            by (simp only: scl_wait.simps d_def [symmetric] c) (auto split: if_splits)
        qed (use \<open>ps = p1 # ps1\<close> \<open>ps1 = p2 # ps2\<close> \<open>ps2 = p3 # ps3\<close> in simp)
      qed (use \<open>ps = p1 # ps1\<close> \<open>ps1 = p2 # ps2\<close> in simp)
    qed (use \<open>ps = p1 # ps1\<close> in simp)
  qed simp
qed

section \<open>Bytes on the wire\<close>

definition byte_frame :: "rt_uint8_t \<Rightarrow> i2c_symbol list" where
  "byte_frame d = map (\<lambda>i. Wire_bit (bit d i)) (rev [0..<8]) @ [Wire_bit True]"

definition line_bit :: "i2c_lines \<Rightarrow> bool" where
  "line_bit l = (case sda_in l of [] \<Rightarrow> True | b # _ \<Rightarrow> b)"

lemma GET_SDA_eq: "GET_SDA l = (line_bit l, l\<lparr>sda_in := tl (sda_in l)\<rparr>)"
  by (cases "sda_in l") (simp_all add: GET_SDA_def line_bit_def)

text \<open>The wire when the clock has fallen.\<close>

definition wire_low :: "i2c_lines \<Rightarrow> i2c_symbol list" where
  "wire_low l = (if scl_pin l then wire l @ [Wire_bit (sda_pin l)] else wire l)"

lemma clock_low: "\<not> (scl_pin l \<and> sda_moved l) \<Longrightarrow> SET_SCL False l = l\<lparr>scl_pin := False, wire := wire_low l\<rparr>"
  by (simp add: SET_SCL_def wire_low_def)

lemma writeb_loop_wire:
  assumes "\<not> (scl_pin l \<and> sda_moved l)" "writeb_loop ops d n l = (l', True)"
  shows "\<not> (scl_pin l' \<and> sda_moved l') \<and> sda_in l' = sda_in l \<and>
    wire_low l' = wire_low l @ map (\<lambda>i. Wire_bit (bit d i)) (rev [0..<n])"
  using assms
proof (induction n arbitrary: l)
  case (Suc n)
  let ?l = "l\<lparr>scl_pin := False, wire := wire_low l, sda_pin := bit d n\<rparr>"
  obtain t ps r where s: "SCL_H ops ?l = (?l\<lparr>scl_pin := True, sda_moved := False, i2c_tick := t, scl_in := ps\<rparr>, r)"
    by (rule SCL_H_low [of ?l ops]) simp_all
  let ?l1 = "?l\<lparr>scl_pin := True, sda_moved := False, i2c_tick := t, scl_in := ps\<rparr>"
  have "writeb_loop ops d n ?l1 = (l', True)"
    using Suc.prems s by (simp add: clock_low split: if_splits)
  from Suc.IH [OF _ this] show ?case by (simp add: wire_low_def)
qed simp

theorem i2c_writeb_wire:
  assumes "\<not> scl_pin l" "i2c_writeb ops d l = (l', r)" "0 \<le> r"
  shows "\<not> scl_pin l'" "wire l' = wire l @ byte_frame d" "sda_in l' = tl (sda_in l)" "r = (if line_bit l then 0 else 1)"
proof -
  obtain l1 where b: "writeb_loop ops d 8 l = (l1, True)" and a: "i2c_waitack ops (SET_SCL False l1) = (l', r)"
    using assms(2,3) by (auto simp: i2c_writeb_def rt_err_defs split: prod.splits if_splits)
  have w: "\<not> (scl_pin l1 \<and> sda_moved l1)" "sda_in l1 = sda_in l"
      "wire_low l1 = wire l @ map (\<lambda>i. Wire_bit (bit d i)) (rev [0..<8])"
    using writeb_loop_wire [OF _ b] assms(1) by (simp_all add: wire_low_def)
  let ?l = "l1\<lparr>scl_pin := False, wire := wire_low l1, sda_pin := True\<rparr>"
  obtain t ps e where s: "SCL_H ops ?l = (?l\<lparr>scl_pin := True, sda_moved := False, i2c_tick := t, scl_in := ps\<rparr>, e)"
    "e = RT_EOK \<or> e < 0"
    by (rule SCL_H_low [of ?l ops]) simp_all
  have i: "SET_SDA True (SET_SCL False l1) = ?l" using clock_low [OF w(1)] by simp
  have e: "\<not> e < 0"
    using a assms(3) unfolding i2c_waitack_def i s(1) by (auto simp: rt_err_defs)
  from a have "l' = SET_SCL False (?l\<lparr>scl_pin := True, sda_moved := False, i2c_tick := t, scl_in := ps, sda_in := tl (sda_in l)\<rparr>)"
      "r = (if line_bit l then 0 else 1)"
    unfolding i2c_waitack_def i s(1) using e w(2) by (simp_all add: GET_SDA_eq line_bit_def)
  then show "\<not> scl_pin l'" "wire l' = wire l @ byte_frame d" "sda_in l' = tl (sda_in l)" "r = (if line_bit l then 0 else 1)"
    using w by (simp_all add: byte_frame_def SET_SCL_def)
qed


section \<open>Bytes that are read\<close>

text \<open>The next readings of the data line.\<close>

fun line_bits :: "nat \<Rightarrow> bool list \<Rightarrow> bool list" where
  "line_bits 0 bs = []"
| "line_bits (Suc n) bs = (case bs of [] \<Rightarrow> True | b # _ \<Rightarrow> b) # line_bits n (tl bs)"

lemma length_line_bits [simp]: "length (line_bits n bs) = n"
  by (induction n arbitrary: bs) simp_all

definition shift_in :: "rt_uint8_t \<Rightarrow> bool \<Rightarrow> rt_uint8_t" where
  "shift_in d b = push_bit 1 d OR (if b then 1 else 0)"

definition bits_byte :: "bool list \<Rightarrow> rt_uint8_t" where
  "bits_byte bs = foldl shift_in 0 bs"

lemma bit_shift_in: "i < 8 \<Longrightarrow> bit (shift_in d b) i \<longleftrightarrow> (if i = 0 then b else bit d (i - 1))"
  by (simp only: shift_in_def bit_or_iff bit_push_bit_iff) (auto simp: bit_1_iff)

lemma bit_foldl_shift_in:
  "length bs \<le> 8 \<Longrightarrow> i < 8 \<Longrightarrow>
    bit (foldl shift_in d bs) i \<longleftrightarrow> (if i < length bs then bs ! (length bs - 1 - i) else bit d (i - length bs))"
  by (induction bs arbitrary: i rule: rev_induct) (auto simp: bit_shift_in nth_append Suc_diff_Suc)

text \<open>The first bit that is read is the most significant one.\<close>

lemma bit_bits_byte: "length bs = 8 \<Longrightarrow> i < 8 \<Longrightarrow> bit (bits_byte bs) i \<longleftrightarrow> bs ! (7 - i)"
  unfolding bits_byte_def by (subst bit_foldl_shift_in) simp_all

lemma readb_loop_wire:
  assumes "\<not> scl_pin l" "sda_pin l" "readb_loop ops n d l = (l', r)" "0 \<le> r"
  shows "\<not> scl_pin l' \<and> sda_pin l' \<and> wire l' = wire l @ replicate n (Wire_bit True) \<and>
    sda_in l' = drop n (sda_in l) \<and> r = int (unat (foldl shift_in d (line_bits n (sda_in l))))"
  using assms
proof (induction n arbitrary: d l)
  case (Suc n)
  obtain t ps e where s: "SCL_H ops l = (l\<lparr>scl_pin := True, sda_moved := False, i2c_tick := t, scl_in := ps\<rparr>, e)"
    by (rule SCL_H_low [OF Suc.prems(1), of ops]) simp_all
  have e: "\<not> e < 0" using Suc.prems(3,4) by (auto simp: s rt_err_defs)
  let ?l = "SET_SCL False (l\<lparr>scl_pin := True, sda_moved := False, i2c_tick := t, scl_in := ps, sda_in := tl (sda_in l)\<rparr>)"
  have "readb_loop ops n (shift_in d (line_bit l)) ?l = (l', r)"
    using Suc.prems(3) e by (simp add: s GET_SDA_eq shift_in_def line_bit_def)
  from Suc.IH [OF _ _ this Suc.prems(4)] show ?case
    using Suc.prems(2) by (simp add: SET_SCL_def line_bit_def drop_Suc)
qed simp

lemma i2c_readb_wire:
  assumes "\<not> scl_pin l" "i2c_readb ops l = (l', r)" "0 \<le> r"
  shows "\<not> scl_pin l'" "sda_pin l'" "wire l' = wire l @ replicate 8 (Wire_bit True)" "sda_in l' = drop 8 (sda_in l)"
    "word_of_int r = bits_byte (line_bits 8 (sda_in l))"
  using readb_loop_wire [of "l\<lparr>sda_pin := True\<rparr>" ops 8 0 l' r] assms by (simp_all add: i2c_readb_def bits_byte_def)

lemma i2c_send_ack_wire:
  assumes "\<not> scl_pin l" "sda_pin l" "i2c_send_ack_or_nack ops ack l = (l', r)" "\<not> r < 0"
  shows "\<not> scl_pin l' \<and> wire l' = wire l @ [Wire_bit (\<not> ack)] \<and> sda_in l' = sda_in l"
proof -
  let ?l = "if ack then SET_SDA False l else l"
  have low: "\<not> scl_pin ?l" using assms(1) by simp
  obtain t ps e where s: "SCL_H ops ?l = (?l\<lparr>scl_pin := True, sda_moved := False, i2c_tick := t, scl_in := ps\<rparr>, e)"
    by (rule SCL_H_low [OF low, of ops]) simp_all
  have "\<not> e < 0" using assms(3,4) by (auto simp: i2c_send_ack_or_nack_def s rt_err_defs)
  then have "l' = SET_SCL False (?l\<lparr>scl_pin := True, sda_moved := False, i2c_tick := t, scl_in := ps\<rparr>)"
    using assms(3) by (simp add: i2c_send_ack_or_nack_def s)
  then show ?thesis using assms(1,2) by (simp add: SET_SCL_def)
qed


section \<open>Transfers\<close>

lemma send_bytes_wire:
  assumes "\<not> scl_pin l" "0 \<le> k" "send_bytes_loop ops False xs k l = (l', r)" "k + int (length xs) \<le> r"
  shows "\<not> scl_pin l' \<and> wire l' = wire l @ concat (map byte_frame xs) \<and> sda_in l' = drop (length xs) (sda_in l) \<and>
    True \<notin> set (line_bits (length xs) (sda_in l))"
  using assms
proof (induction xs arbitrary: k l)
  case (Cons x xs)
  obtain l1 ret where w: "i2c_writeb ops x l = (l1, ret)" by fastforce
  have "0 < ret"
    using Cons.prems(2,3,4) by (cases "0 < ret") (auto simp: w split: if_splits)
  with i2c_writeb_wire [OF Cons.prems(1) w] have l1: "\<not> scl_pin l1" "wire l1 = wire l @ byte_frame x"
      "sda_in l1 = tl (sda_in l)" "\<not> line_bit l"
    by (auto split: if_splits)
  have "send_bytes_loop ops False xs (k + 1) l1 = (l', r)" using Cons.prems(3) \<open>0 < ret\<close> by (simp add: w)
  from Cons.IH [OF l1(1) _ this] Cons.prems(2,4) show ?case
    using l1 by (simp add: drop_Suc line_bit_def)
qed simp

lemma send_bytes_bound:
  "send_bytes_loop ops b xs k l = (l', r) \<Longrightarrow> 0 \<le> k \<Longrightarrow> r \<le> k + int (length xs)"
proof (induction xs arbitrary: k l)
  case (Cons x xs)
  obtain l1 ret where w: "i2c_writeb ops x l = (l1, ret)" by fastforce
  from Cons show ?case by (fastforce simp: w split: if_splits)
qed simp

fun read_frames :: "nat \<Rightarrow> i2c_symbol list" where
  "read_frames 0 = []"
| "read_frames (Suc n) = replicate 8 (Wire_bit True) @ [Wire_bit (n = 0)] @ read_frames n"

fun read_bytes :: "nat \<Rightarrow> bool list \<Rightarrow> rt_uint8_t list" where
  "read_bytes 0 bs = []"
| "read_bytes (Suc n) bs = bits_byte (line_bits 8 bs) # read_bytes n (drop 8 bs)"

lemma recv_bytes_wire:
  assumes "\<not> scl_pin l" "recv_bytes_loop ops False n got l = (l', got', r)" "int (length got + n) \<le> r"
  shows "\<not> scl_pin l' \<and> wire l' = wire l @ read_frames n \<and> sda_in l' = drop (8 * n) (sda_in l) \<and>
    got' = got @ read_bytes n (sda_in l)"
  using assms
proof (induction n arbitrary: got l)
  case (Suc n)
  obtain l1 val where v: "i2c_readb ops l = (l1, val)" by fastforce
  have val: "0 \<le> val" using Suc.prems(2,3) by (auto simp: v split: if_splits)
  note b = i2c_readb_wire [OF Suc.prems(1) v val]
  obtain l2 e where a: "i2c_send_ack_or_nack ops (0 < n) l1 = (l2, e)" by fastforce
  have e: "\<not> e < 0" using Suc.prems(2,3) val by (auto simp: v a Let_def split: if_splits)
  note c = i2c_send_ack_wire [OF b(1,2) a e]
  have "recv_bytes_loop ops False n (got @ [bits_byte (line_bits 8 (sda_in l))]) l2 = (l', got', r)"
    using Suc.prems(2) val e b(5) by (simp add: v a Let_def)
  from Suc.IH [OF _ this] c b Suc.prems(3) show ?case by (simp add: add.commute)
qed simp

text \<open>
  What a transfer puts on the wire, and the readings it consumes: one for the acknowledgement of each byte that is
  written, eight for each byte that is read.
\<close>

definition reads :: "rt_i2c_msg \<Rightarrow> bool" where
  "reads m \<longleftrightarrow> msg_flags m AND RT_I2C_RD \<noteq> 0"

definition msg_data :: "rt_i2c_msg \<Rightarrow> rt_uint8_t list" where
  "msg_data m = take (unat (msg_len m)) (msg_buf m)"

definition address_byte :: "rt_i2c_msg \<Rightarrow> rt_uint8_t" where
  "address_byte m = ucast (push_bit 1 (msg_addr m)) OR (if reads m then 1 else 0)"

definition msg_frames :: "rt_i2c_msg \<Rightarrow> i2c_symbol list" where
  "msg_frames m = byte_frame (address_byte m) @
    (if reads m then read_frames (unat (msg_len m)) else concat (map byte_frame (msg_data m)))"

fun xfer_frames :: "nat \<Rightarrow> rt_i2c_msg list \<Rightarrow> i2c_symbol list" where
  "xfer_frames i [] = []"
| "xfer_frames i (m # ms) = (if i \<noteq> 0 then [Start_cond] else []) @ msg_frames m @ xfer_frames (Suc i) ms"

fun xfer_received :: "rt_i2c_msg list \<Rightarrow> bool list \<Rightarrow> rt_i2c_msg list" where
  "xfer_received [] bs = []"
| "xfer_received (m # ms) bs =
    (if reads m then m\<lparr>msg_buf := memcpy_at (msg_buf m) 0 (read_bytes (unat (msg_len m)) (tl bs))\<rparr> #
                      xfer_received ms (drop (8 * unat (msg_len m)) (tl bs))
     else m # xfer_received ms (drop (unat (msg_len m)) (tl bs)))"

text \<open>Every byte that was written was acknowledged by the other side.\<close>

fun xfer_acked :: "rt_i2c_msg list \<Rightarrow> bool list \<Rightarrow> bool" where
  "xfer_acked [] bs \<longleftrightarrow> True"
| "xfer_acked (m # ms) bs \<longleftrightarrow> line_bits 1 bs = [False] \<and>
    (if reads m then xfer_acked ms (drop (8 * unat (msg_len m)) (tl bs))
     else True \<notin> set (line_bits (unat (msg_len m)) (tl bs)) \<and> xfer_acked ms (drop (unat (msg_len m)) (tl bs)))"

definition plain_msg :: "rt_i2c_msg \<Rightarrow> bool" where
  "plain_msg m \<longleftrightarrow> msg_flags m = 0 \<or> msg_flags m = RT_I2C_RD"

lemma plain_flags:
  assumes "plain_msg m"
  shows "msg_flags m AND RT_I2C_NO_START = 0" "msg_flags m AND RT_I2C_IGNORE_NACK = 0"
    "msg_flags m AND RT_I2C_ADDR_10BIT = 0" "msg_flags m AND RT_I2C_NO_READ_ACK = 0"
  using assms by (auto simp: plain_msg_def i2c_flags)

lemma send_address_wire:
  assumes "\<not> scl_pin l" "plain_msg m" "i2c_bit_send_address ops 0 m l = (l', r)" "r = RT_EOK"
  shows "\<not> scl_pin l' \<and> wire l' = wire l @ byte_frame (address_byte m) \<and> sda_in l' = tl (sda_in l) \<and>
    line_bits 1 (sda_in l) = [False]"
proof -
  obtain ret where w: "i2c_writeb ops (address_byte m) l = (l', ret)" "ret = 1"
    using assms(3,4) unfolding i2c_bit_send_address_def
    by (auto simp: plain_flags [OF assms(2)] i2c_send_address_def address_byte_def reads_def rt_err_defs
        split: prod.splits if_splits)
  from i2c_writeb_wire [OF assms(1) w(1)] w(2) show ?thesis
    by (auto simp: line_bit_def split: if_splits)
qed

lemma i2c_restart_wire:
  assumes "\<not> scl_pin l"
  shows "\<not> scl_pin (i2c_restart ops l)" "wire (i2c_restart ops l) = wire l @ [Start_cond]" "sda_in (i2c_restart ops l) = sda_in l"
proof -
  let ?l = "l\<lparr>sda_pin := True\<rparr>"
  have low: "\<not> scl_pin ?l" using assms by simp
  obtain t ps e where s: "SCL_H ops ?l = (?l\<lparr>scl_pin := True, sda_moved := False, i2c_tick := t, scl_in := ps\<rparr>, e)"
    by (rule SCL_H_low [OF low, of ops]) simp_all
  have "i2c_restart ops l = SET_SCL False (SET_SDA False (?l\<lparr>scl_pin := True, sda_moved := False, i2c_tick := t, scl_in := ps\<rparr>))"
    using assms by (simp add: i2c_restart_def s)
  then show "\<not> scl_pin (i2c_restart ops l)" "wire (i2c_restart ops l) = wire l @ [Start_cond]" "sda_in (i2c_restart ops l) = sda_in l"
    by (simp_all add: SET_SDA_def SET_SCL_def)
qed


lemma i2c_start_wire:
  assumes "scl_pin l" "sda_pin l"
  shows "\<not> scl_pin (i2c_start l)" "wire (i2c_start l) = wire l @ [Start_cond]" "sda_in (i2c_start l) = sda_in l"
  using assms by (simp_all add: i2c_start_def SET_SDA_def SET_SCL_def)

lemma i2c_stop_released: "scl_pin (i2c_stop ops l) \<and> sda_pin (i2c_stop ops l)"
  by (auto simp: i2c_stop_def SCL_H_def SET_SDA_def SET_SCL_def Let_def split: prod.splits)

lemma i2c_stop_wire:
  assumes "\<not> scl_pin l"
  shows "wire (i2c_stop ops l) = wire l @ [Stop_cond]"
proof -
  let ?l = "l\<lparr>sda_pin := False\<rparr>"
  have low: "\<not> scl_pin ?l" using assms by simp
  obtain t ps e where s: "SCL_H ops ?l = (?l\<lparr>scl_pin := True, sda_moved := False, i2c_tick := t, scl_in := ps\<rparr>, e)"
    by (rule SCL_H_low [OF low, of ops]) simp_all
  show ?thesis using assms by (simp add: i2c_stop_def s) (simp add: SET_SDA_def)
qed

lemma send_address_result: "i2c_bit_send_address ops k m l = (l', r) \<Longrightarrow> r = RT_EOK \<or> r < 0"
  by (auto simp: i2c_bit_send_address_def Let_def rt_err_defs split: prod.splits if_splits)

lemma xfer_loop_wire:
  assumes "\<not> scl_pin l" "\<forall>m\<in>set ms. plain_msg m" "xfer_loop ops 0 i ms l = (l', ms', r)" "0 \<le> r"
  shows "\<not> scl_pin l' \<and> r = int (i + length ms) \<and> wire l' = wire l @ xfer_frames i ms \<and>
    ms' = xfer_received ms (sda_in l) \<and> xfer_acked ms (sda_in l)"
  using assms
proof (induction ms arbitrary: i l ms')
  case (Cons m ms)
  have m: "plain_msg m" and ms: "\<forall>m\<in>set ms. plain_msg m" using Cons.prems(2) by simp_all
  let ?l0 = "if i \<noteq> 0 then i2c_restart ops l else l"
  let ?n = "unat (msg_len m)"
  have l0: "\<not> scl_pin ?l0" "wire ?l0 = wire l @ (if i \<noteq> 0 then [Start_cond] else [])" "sda_in ?l0 = sda_in l"
    using Cons.prems(1) by (simp_all add: i2c_restart_wire)
  obtain l1 r1 where a: "i2c_bit_send_address ops 0 m ?l0 = (l1, r1)" by fastforce
  have st: "(if r1 \<noteq> RT_EOK then (l1, m # ms, r1)
    else if reads m then
      (case i2c_recv_bytes ops m l1 of (l2, got, ret) \<Rightarrow>
         if ret < int ?n then (l2, m\<lparr>msg_buf := memcpy_at (msg_buf m) 0 got\<rparr> # ms, if ret \<ge> 0 then - RT_EIO else ret)
         else (case xfer_loop ops 0 (Suc i) ms l2 of (l3, ms1, r) \<Rightarrow> (l3, m\<lparr>msg_buf := memcpy_at (msg_buf m) 0 got\<rparr> # ms1, r)))
    else
      (case i2c_send_bytes ops m l1 of (l2, ret) \<Rightarrow>
         if ret < int ?n then (l2, m # ms, if ret \<ge> 0 then - RT_ERROR else ret)
         else (case xfer_loop ops 0 (Suc i) ms l2 of (l3, ms1, r) \<Rightarrow> (l3, m # ms1, r)))) = (l', ms', r)"
    using Cons.prems(3) by (simp only: xfer_loop.simps plain_flags [OF m] a reads_def Let_def prod.case refl if_True simp_thms)
  have r1: "r1 = RT_EOK"
    using st Cons.prems(4) send_address_result [OF a] by (auto split: if_splits)
  note l1 = send_address_wire [OF l0(1) m a r1, unfolded l0(2,3)]
  show ?case
  proof (cases "reads m")
    case True
    obtain l2 got ret where g: "i2c_recv_bytes ops m l1 = (l2, got, ret)" by (metis prod_cases3)
    obtain ms1 where x: "xfer_loop ops 0 (Suc i) ms l2 = (l', ms1, r)" and ret: "\<not> ret < int ?n"
        and ms': "ms' = m\<lparr>msg_buf := memcpy_at (msg_buf m) 0 got\<rparr> # ms1"
      using st Cons.prems(4) True by (auto simp: r1 g rt_err_defs split: prod.splits if_splits)
    have "recv_bytes_loop ops False ?n [] l1 = (l2, got, ret)" using g by (simp add: i2c_recv_bytes_def plain_flags [OF m])
    from recv_bytes_wire [OF _ this] l1 ret have l2: "\<not> scl_pin l2" "wire l2 = wire l1 @ read_frames ?n"
        "sda_in l2 = drop (8 * ?n) (tl (sda_in l))" "got = read_bytes ?n (tl (sda_in l))"
      by simp_all
    from Cons.IH [OF l2(1) ms x Cons.prems(4)] l1 l2 ms' True show ?thesis by (simp add: msg_frames_def)
  next
    case False
    obtain l2 ret where g: "i2c_send_bytes ops m l1 = (l2, ret)" by fastforce
    obtain ms1 where x: "xfer_loop ops 0 (Suc i) ms l2 = (l', ms1, r)" and ret: "\<not> ret < int ?n" and ms': "ms' = m # ms1"
      using st Cons.prems(4) False by (auto simp: r1 g rt_err_defs split: prod.splits if_splits)
    have s: "send_bytes_loop ops False (msg_data m) 0 l1 = (l2, ret)"
      using g by (simp add: i2c_send_bytes_def msg_data_def plain_flags [OF m])
    have "int ?n \<le> int (length (msg_data m))" using send_bytes_bound [OF s] ret by linarith
    then have n: "length (msg_data m) = ?n" unfolding of_nat_le_iff by (simp add: msg_data_def)
    from send_bytes_wire [OF _ _ s] l1 ret n have l2: "\<not> scl_pin l2" "wire l2 = wire l1 @ concat (map byte_frame (msg_data m))"
        "sda_in l2 = drop ?n (tl (sda_in l))" "True \<notin> set (line_bits ?n (tl (sda_in l)))"
      by simp_all
    from Cons.IH [OF l2(1) ms x Cons.prems(4)] l1 l2 ms' False show ?thesis by (simp add: msg_frames_def)
  qed
qed simp


text \<open>
  A transfer of plain messages on an idle bus that succeeds has put a start condition, the frames of the messages and
  a stop condition on the wire; every byte written was acknowledged, and the bytes read are stored.
\<close>

theorem i2c_bit_xfer_wire:
  assumes "scl_pin l" "sda_pin l" "\<forall>m\<in>set msgs. plain_msg m" "i2c_bit_xfer ops 0 msgs l = (l', msgs', r)" "0 \<le> r"
  shows "r = int (length msgs) \<and> wire l' = wire l @ Start_cond # xfer_frames 0 msgs @ [Stop_cond] \<and>
    msgs' = xfer_received msgs (sda_in l) \<and> xfer_acked msgs (sda_in l)"
proof -
  obtain l1 where x: "xfer_loop ops 0 0 msgs (i2c_start l) = (l1, msgs', r)" and l': "l' = i2c_stop ops l1"
    using assms(4) by (auto simp: i2c_bit_xfer_def split: prod.splits)
  from xfer_loop_wire [OF i2c_start_wire(1) [OF assms(1,2)] assms(3) x assms(5)] show ?thesis
    by (simp add: l' i2c_stop_wire i2c_start_wire [OF assms(1,2)])
qed

text \<open>Whatever happens, the lines are released at the end.\<close>

lemma i2c_bit_xfer_released:
  "i2c_bit_xfer ops k msgs l = (l', msgs', r) \<Longrightarrow> scl_pin l' \<and> sda_pin l'"
  by (auto simp: i2c_bit_xfer_def i2c_stop_released split: prod.splits)

text \<open>A message that is answered by no device is an error.\<close>

lemma i2c_unanswered:
  assumes "scl_pin l" "sda_pin l" "\<forall>m\<in>set msgs. plain_msg m" "msgs \<noteq> []" "sda_in l = []"
    and x: "i2c_bit_xfer ops 0 msgs l = (l', msgs', r)"
  shows "r < 0"
proof (rule ccontr)
  assume "\<not> r < 0"
  then have "xfer_acked msgs (sda_in l)" using i2c_bit_xfer_wire [OF assms(1-3) x] by simp
  then show False using assms(4,5) by (cases msgs) simp_all
qed

section \<open>The bus after a recovery, and long messages\<close>

definition idle_lines :: "bool list \<Rightarrow> i2c_lines" where
  "idle_lines bs = \<lparr>scl_pin = True, sda_pin = True, sda_moved = False, wire = [], sda_in = bs, scl_in = [], i2c_tick = 0\<rparr>"

definition no_stretch :: rt_i2c_bit_ops where
  "no_stretch = \<lparr>ops_get_scl = False, ops_timeout = 0\<rparr>"

text \<open>The recovery ends with the clock held low, and a transfer after it begins without a start condition.\<close>

lemma unlock_pulses_low: "\<not> scl_pin l \<or> 0 < n \<Longrightarrow> \<not> scl_pin (unlock_pulses n l)"
  by (induction n arbitrary: l) (auto simp: SET_SCL_def)

lemma unlock_leaves_clock_low:
  assumes "\<not> line_bit l"
  shows "\<not> scl_pin (fst (stm32_i2c_bus_unlock l))" "wire (i2c_start (fst (stm32_i2c_bus_unlock l))) = wire (fst (stm32_i2c_bus_unlock l))"
proof -
  show low: "\<not> scl_pin (fst (stm32_i2c_bus_unlock l))"
    using assms unlock_pulses_low [of _ 9] by (simp add: stm32_i2c_bus_unlock_def GET_SDA_eq Let_def)
  then show "wire (i2c_start (fst (stm32_i2c_bus_unlock l))) = wire (fst (stm32_i2c_bus_unlock l))"
    by (simp add: i2c_start_def)
qed

text \<open>A count that is a multiple of 65536 sends the address only, and reports that all bytes were sent.\<close>

lemma master_send_long:
  assumes "scl_pin l" "sda_pin l" "(ucast count :: rt_uint16_t) = 0"
    and s: "rt_i2c_master_send ops 0 a 0 buf count l = (l', r)" "0 < r"
  shows "r = int (unat count)" "wire l' = wire l @ Start_cond # byte_frame (ucast (push_bit 1 a)) @ [Stop_cond]"
proof -
  let ?m = "\<lparr>msg_addr = a, msg_flags = 0, msg_len = 0, msg_buf = buf\<rparr>"
  obtain ms ret where x: "i2c_bit_xfer ops 0 [?m] l = (l', ms, ret)" and r: "r = (if ret > 0 then int (unat count) else ret)"
    using s(1) assms(3) by (auto simp: rt_i2c_master_send_def split: prod.splits)
  have "0 \<le> ret" using r s(2) by (auto split: if_splits)
  from i2c_bit_xfer_wire [OF assms(1,2) _ x this] r
  show "r = int (unat count)" "wire l' = wire l @ Start_cond # byte_frame (ucast (push_bit 1 a)) @ [Stop_cond]"
    by (simp_all add: plain_msg_def msg_frames_def msg_data_def address_byte_def reads_def)
qed


text \<open>A device at address 0x50: a register number is written to it and one byte is read.\<close>

definition demo_msgs :: "rt_i2c_msg list" where
  "demo_msgs = [\<lparr>msg_addr = 0x50, msg_flags = 0, msg_len = 1, msg_buf = [7]\<rparr>,
    \<lparr>msg_addr = 0x50, msg_flags = 1, msg_len = 1, msg_buf = [0]\<rparr>]"

lemma demo_xfer: "snd (snd (i2c_bit_xfer no_stretch 0 demo_msgs (idle_lines [False, False, False]))) = 2"
  by code_simp

end
