(* ===== verification/SerialFifo.thy ===== *)
theory SerialFifo
  imports Fifo
begin

text \<open>
  The software receive buffer of the serial devices
  (\<^verbatim>\<open>rt-thread/components/drivers/serial/serial.c\<close>): the interrupt handler stores a byte and
  \<^verbatim>\<open>_serial_int_rx\<close> takes bytes out, or the DMA controller stores bytes and
  \<^verbatim>\<open>rt_dma_recv_update_put_index\<close> and \<^verbatim>\<open>_serial_dma_rx\<close> follow it. In both modes the buffer refines a
  queue that keeps the newest bytes: a byte that no longer fits drives out the oldest one.
\<close>

section \<open>The buffer\<close>

record serial_configure =
  baud_rate :: rt_uint32_t
  data_bits :: "4 word"
  stop_bits :: "2 word"
  parity :: "2 word"
  bit_order :: "1 word"
  invert :: "1 word"
  bufsz :: rt_uint16_t

text \<open>\<open>rx_fault\<close> records an access outside of the buffer or a failed assertion.\<close>

record rt_serial_rx_fifo =
  rx_buffer :: "rt_uint8_t list"
  put_index :: rt_uint16_t
  get_index :: rt_uint16_t
  is_full :: bool
  rx_fault :: bool

definition rx_load :: "nat \<Rightarrow> rt_serial_rx_fifo \<Rightarrow> rt_uint8_t" where
  "rx_load i f = (if i < length (rx_buffer f) then rx_buffer f ! i else 0)"

definition rx_touch :: "nat \<Rightarrow> rt_serial_rx_fifo \<Rightarrow> rt_serial_rx_fifo" where
  "rx_touch n f = f\<lparr>rx_fault := (rx_fault f \<or> length (rx_buffer f) < n)\<rparr>"

definition next_slot :: "rt_uint16_t \<Rightarrow> rt_uint16_t \<Rightarrow> rt_uint16_t" where
  "next_slot sz i = (if i + 1 \<ge> sz then 0 else i + 1)"

section \<open>Interrupt mode\<close>

text \<open>One turn of the loops of \<^verbatim>\<open>_serial_int_rx\<close> and of the receive interrupt.\<close>

definition int_rx_byte :: "rt_uint16_t \<Rightarrow> rt_serial_rx_fifo \<Rightarrow> rt_serial_rx_fifo \<times> rt_uint8_t" where
  "int_rx_byte sz f =
    (let ch = rx_load (unat (get_index f)) f;
         f1 = rx_touch (unat (get_index f) + 1) f
     in (f1\<lparr>get_index := next_slot sz (get_index f1), is_full := False\<rparr>, ch))"

fun serial_int_rx :: "rt_uint16_t \<Rightarrow> nat \<Rightarrow> rt_serial_rx_fifo \<Rightarrow> rt_serial_rx_fifo \<times> rt_uint8_t list" where
  "serial_int_rx sz 0 f = (f, [])"
| "serial_int_rx sz (Suc n) f =
    (if get_index f = put_index f \<and> \<not> is_full f then (f, [])
     else case int_rx_byte sz f of
            (f1, ch) \<Rightarrow> (case serial_int_rx sz n f1 of (f2, cs) \<Rightarrow> (f2, ch # cs)))"

definition isr_rx_byte :: "rt_uint16_t \<Rightarrow> rt_uint8_t \<Rightarrow> rt_serial_rx_fifo \<Rightarrow> rt_serial_rx_fifo" where
  "isr_rx_byte sz ch f =
    (let f1 = rx_touch (unat (put_index f) + 1) f;
         f2 = f1\<lparr>rx_buffer := (rx_buffer f1)[unat (put_index f1) := ch], put_index := next_slot sz (put_index f1)\<rparr>
     in if put_index f2 = get_index f2
        then f2\<lparr>get_index := next_slot sz (get_index f2), is_full := True\<rparr>
        else f2)"

text \<open>The number of bytes that the interrupt reports to \<^verbatim>\<open>rx_indicate\<close>.\<close>

definition isr_rx_length :: "rt_uint16_t \<Rightarrow> rt_serial_rx_fifo \<Rightarrow> rt_size_t" where
  "isr_rx_length sz f =
    (if put_index f \<ge> get_index f then ucast (put_index f) - ucast (get_index f)
     else ucast sz - (ucast (get_index f) - ucast (put_index f)))"

section \<open>DMA mode\<close>

definition serial_fifo_calc_recved_len :: "rt_uint16_t \<Rightarrow> rt_serial_rx_fifo \<Rightarrow> rt_size_t" where
  "serial_fifo_calc_recved_len sz f =
    (if put_index f = get_index f then (if \<not> is_full f then 0 else ucast sz)
     else if put_index f > get_index f then ucast (put_index f) - ucast (get_index f)
     else ucast sz - (ucast (get_index f) - ucast (put_index f)))"

definition rt_dma_calc_recved_len :: "rt_uint16_t \<Rightarrow> rt_serial_rx_fifo \<Rightarrow> rt_size_t" where
  "rt_dma_calc_recved_len sz f = serial_fifo_calc_recved_len sz f"

text \<open>The indices are 16 bits wide, so that the sums wrap around at 65536.\<close>

definition rt_dma_recv_update_get_index ::
    "rt_uint16_t \<Rightarrow> rt_size_t \<Rightarrow> rt_serial_rx_fifo \<Rightarrow> rt_serial_rx_fifo" where
  "rt_dma_recv_update_get_index sz len f =
    (let f1 = f\<lparr>rx_fault := (rx_fault f \<or> len > rt_dma_calc_recved_len sz f)\<rparr>;
         f2 = (if is_full f1 \<and> len \<noteq> 0 then f1\<lparr>is_full := False\<rparr> else f1);
         g = get_index f2 + ucast len
     in f2\<lparr>get_index := (if g \<ge> sz then g mod sz else g)\<rparr>)"

definition rt_dma_recv_update_put_index ::
    "rt_uint16_t \<Rightarrow> rt_size_t \<Rightarrow> rt_serial_rx_fifo \<Rightarrow> rt_serial_rx_fifo" where
  "rt_dma_recv_update_put_index sz len f =
    (let p = put_index f + ucast len;
         f1 = (if get_index f \<le> put_index f then
                 if p \<ge> sz then
                   f\<lparr>put_index := p mod sz, is_full := (is_full f \<or> p mod sz \<ge> get_index f)\<rparr>
                 else f\<lparr>put_index := p\<rparr>
               else if p \<ge> get_index f then
                 f\<lparr>put_index := (if p \<ge> sz then p mod sz else p), is_full := True\<rparr>
               else f\<lparr>put_index := p\<rparr>)
     in if is_full f1 then f1\<lparr>get_index := put_index f1\<rparr> else f1)"

text \<open>\<^verbatim>\<open>rt_memcpy\<close> out of the buffer.\<close>

definition rx_copy :: "rt_size_t \<Rightarrow> rt_size_t \<Rightarrow> rt_serial_rx_fifo \<Rightarrow> rt_serial_rx_fifo \<times> rt_uint8_t list" where
  "rx_copy off n f =
    (rx_touch (unat off + unat n) f, map (\<lambda>i. rx_load i f) [unat off..<unat off + unat n])"

definition serial_dma_rx_fifo ::
    "rt_uint16_t \<Rightarrow> rt_int32_t \<Rightarrow> rt_serial_rx_fifo \<Rightarrow> rt_serial_rx_fifo \<times> rt_uint8_t list" where
  "serial_dma_rx_fifo sz len f =
    (let recved = rt_dma_calc_recved_len sz f;
         recv_len = (if sint len < sint recved then len else recved);
         g = ucast (get_index f);
         (f1, cs) =
           (if g + recv_len < ucast sz then rx_copy g recv_len f
            else let (fa, xs) = rx_copy g (ucast sz - g) f;
                     (fb, ys) = rx_copy 0 (recv_len + g - ucast sz) fa
                 in (fb, xs @ ys))
     in (rt_dma_recv_update_get_index sz recv_len f1, cs))"

section \<open>The contents of the buffer\<close>

definition fifo_len :: "rt_uint16_t \<Rightarrow> rt_serial_rx_fifo \<Rightarrow> nat" where
  "fifo_len sz f = unat (serial_fifo_calc_recved_len sz f)"

definition fifo_contents :: "rt_uint16_t \<Rightarrow> rt_serial_rx_fifo \<Rightarrow> rt_uint8_t list" where
  "fifo_contents sz f = circ (nth (rx_buffer f)) (unat sz) (unat (get_index f)) (fifo_len sz f)"

definition fifo_wf :: "rt_uint16_t \<Rightarrow> rt_serial_rx_fifo \<Rightarrow> bool" where
  "fifo_wf sz f \<longleftrightarrow> length (rx_buffer f) = unat sz \<and> put_index f < sz \<and> get_index f < sz \<and> \<not> rx_fault f"

text \<open>What \<open>is_full\<close> means in the two modes.\<close>

definition int_fifo_wf :: "rt_uint16_t \<Rightarrow> rt_serial_rx_fifo \<Rightarrow> bool" where
  "int_fifo_wf sz f \<longleftrightarrow> fifo_wf sz f \<and> (is_full f \<longrightarrow> get_index f = next_slot sz (put_index f))"

definition dma_fifo_wf :: "rt_uint16_t \<Rightarrow> rt_serial_rx_fifo \<Rightarrow> bool" where
  "dma_fifo_wf sz f \<longleftrightarrow> fifo_wf sz f \<and> (is_full f \<longrightarrow> get_index f = put_index f)"

text \<open>The last \<open>n\<close> elements of a list.\<close>

definition newest :: "nat \<Rightarrow> 'a list \<Rightarrow> 'a list" where
  "newest n xs = drop (length xs - n) xs"

lemma newest_all: "length xs \<le> n \<Longrightarrow> newest n xs = xs"
  by (simp add: newest_def)

lemma newest_append: "newest n (newest n xs @ ys) = newest n (xs @ ys)"
  by (cases "n \<le> length xs") (auto simp: newest_def add.commute)

lemma unat_next_slot: "i < sz \<Longrightarrow> unat (next_slot sz i) = (unat i + 1) mod unat sz"
proof -
  assume a: "i < sz"
  then have "unat (i + 1) = unat i + 1" by (metis Suc_eq_plus1 unat_inc)
  then show ?thesis using a next_index [of "unat i" "unat sz"]
    by (auto simp: next_slot_def word_less_nat_alt word_le_nat_alt)
qed

lemma next_slot_less: "i < sz \<Longrightarrow> next_slot sz i < sz"
  using unat_next_slot [of i sz] by (simp add: word_less_nat_alt)

lemma fifo_len_eq:
  assumes "fifo_wf sz f"
  shows "fifo_len sz f =
    (let p = unat (put_index f); g = unat (get_index f) in
     if p = g then (if is_full f then unat sz else 0) else if g < p then p - g else unat sz - (g - p))"
  using assms by (auto simp: fifo_len_def serial_fifo_calc_recved_len_def fifo_wf_def Let_def unat_ucast_16_32
      word_less_nat_alt unat_sub_if_size word_unat_eq_iff word_size)

lemma fifo_len_put:
  assumes "fifo_wf sz f"
  shows "fifo_len sz f \<le> unat sz" "(unat (get_index f) + fifo_len sz f) mod unat sz = unat (put_index f)"
  using assms by (auto simp: fifo_len_eq Let_def fifo_wf_def word_less_nat_alt le_mod_geq)

text \<open>
  New bytes at the put position: the cells of a buffer that wraps around, read from where the newest \<open>m\<close>
  bytes start.
\<close>

lemma circ_newest:
  assumes new: "\<And>j. j < length bs \<Longrightarrow> b ! ((g + n + j) mod sz) = bs ! j"
    and old: "\<And>j. j < n \<Longrightarrow> n + length bs - sz \<le> j \<Longrightarrow> b ! ((g + j) mod sz) = a ! ((g + j) mod sz)"
    and m: "m \<le> sz" "m \<le> n + length bs" and g': "g' = (g + (n + length bs - m)) mod sz"
  shows "circ (nth b) sz g' m = newest m (circ (nth a) sz g n @ bs)"
proof (rule nth_equalityI)
  show "length (circ (nth b) sz g' m) = length (newest m (circ (nth a) sz g n @ bs))"
    using m by (simp add: newest_def)
next
  fix i assume i: "i < length (circ (nth b) sz g' m)"
  let ?j = "n + length bs - m + i"
  have b: "circ (nth b) sz g' m ! i = b ! ((g + ?j) mod sz)"
    using i by (simp add: nth_circ g' mod_add_left_eq add.assoc)
  have "newest m (circ (nth a) sz g n @ bs) ! i = (circ (nth a) sz g n @ bs) ! ?j"
    using i m by (simp add: newest_def del: drop_append)
  also have "\<dots> = b ! ((g + ?j) mod sz)"
  proof (cases "?j < n")
    case True
    then show ?thesis using old [OF True] m by (simp add: nth_append nth_circ)
  next
    case False
    then show ?thesis using new [of "?j - n"] i m by (simp add: nth_append add.assoc)
  qed
  finally show "circ (nth b) sz g' m ! i = newest m (circ (nth a) sz g n @ bs) ! i" using b by simp
qed

section \<open>Interrupt mode keeps the newest bytes\<close>

definition int_cap :: "rt_uint16_t \<Rightarrow> nat" where
  "int_cap sz = max 1 (unat sz - 1)"

lemma next_slot_if: "i < sz \<Longrightarrow> unat (next_slot sz i) = (if unat i + 1 = unat sz then 0 else unat i + 1)"
  by (auto simp: unat_next_slot word_less_nat_alt mod_Suc)

lemma int_fifo_len:
  assumes "int_fifo_wf sz f"
  shows "fifo_len sz f \<le> int_cap sz"
  using assms by (auto simp: int_fifo_wf_def fifo_wf_def fifo_len_eq Let_def int_cap_def word_less_nat_alt next_slot_if
      split: if_splits)

lemma isr_rx_byte_wf:
  assumes "int_fifo_wf sz f"
  shows "int_fifo_wf sz (isr_rx_byte sz ch f)"
  using assms next_slot_less [of "put_index f" sz] next_slot_less [of "get_index f" sz]
  by (auto simp: int_fifo_wf_def fifo_wf_def isr_rx_byte_def rx_touch_def Let_def word_less_nat_alt)

text \<open>The indices as numbers: the slot after \<open>i\<close>, and the number of bytes between two of them.\<close>

definition slot_after :: "nat \<Rightarrow> nat \<Rightarrow> nat" where
  "slot_after n i = (if i + 1 = n then 0 else i + 1)"

definition ring_len :: "nat \<Rightarrow> nat \<Rightarrow> nat \<Rightarrow> bool \<Rightarrow> nat" where
  "ring_len n p g full = (if p = g then (if full then n else 0) else if g < p then p - g else n - (g - p))"

lemma ring_len_put:
  assumes "p < n" "g < n" "full \<Longrightarrow> g = slot_after n p" "slot_after n p \<noteq> g"
  shows "ring_len n (slot_after n p) g full = ring_len n p g full + 1" "ring_len n p g full + 1 \<le> max 1 (n - 1)"
  using assms by (auto simp: ring_len_def slot_after_def split: if_splits)

lemma ring_len_overrun:
  assumes "p < n" "g < n" "slot_after n p = g"
  shows "ring_len n g (slot_after n g) True = max 1 (n - 1)"
    "ring_len n p g full = (if n = 1 then (if full then 1 else 0) else n - 1)"
  using assms by (auto simp: ring_len_def slot_after_def split: if_splits)

lemma ring_len_get:
  assumes "p < n" "g < n" "full \<Longrightarrow> g = slot_after n p" "\<not> (p = g \<and> \<not> full)"
  shows "0 < ring_len n p g full \<and> ring_len n p (slot_after n g) False = ring_len n p g full - 1"
proof (cases full)
  case True
  show ?thesis using assms(1,2) unfolding assms(3) [OF True] by (auto simp: True ring_len_def slot_after_def)
next
  case False
  then show ?thesis using assms(1,2,4) by (auto simp: ring_len_def slot_after_def)
qed

lemma fifo_ring:
  assumes "int_fifo_wf sz f"
  shows "unat (put_index f) < unat sz" "unat (get_index f) < unat sz"
    "is_full f \<Longrightarrow> unat (get_index f) = slot_after (unat sz) (unat (put_index f))"
    "fifo_len sz f = ring_len (unat sz) (unat (put_index f)) (unat (get_index f)) (is_full f)"
    "unat (next_slot sz (put_index f)) = slot_after (unat sz) (unat (put_index f))"
    "unat (next_slot sz (get_index f)) = slot_after (unat sz) (unat (get_index f))"
proof -
  have w: "fifo_wf sz f" "put_index f < sz" "get_index f < sz" using assms by (simp_all add: int_fifo_wf_def fifo_wf_def)
  show "unat (put_index f) < unat sz" "unat (get_index f) < unat sz" using w by (simp_all add: word_less_nat_alt)
  show "fifo_len sz f = ring_len (unat sz) (unat (put_index f)) (unat (get_index f)) (is_full f)"
    by (simp add: fifo_len_eq [OF w(1)] ring_len_def Let_def)
  show n: "unat (next_slot sz (put_index f)) = slot_after (unat sz) (unat (put_index f))"
    "unat (next_slot sz (get_index f)) = slot_after (unat sz) (unat (get_index f))"
    using w by (simp_all add: next_slot_if slot_after_def)
  show "unat (get_index f) = slot_after (unat sz) (unat (put_index f))" if "is_full f"
    using assms that n(1) by (metis int_fifo_wf_def)
qed

lemma isr_rx_byte_len:
  assumes wf: "int_fifo_wf sz f"
  shows "fifo_len sz (isr_rx_byte sz ch f) = min (int_cap sz) (fifo_len sz f + 1)"
    "unat (get_index (isr_rx_byte sz ch f)) =
      (unat (get_index f) + (fifo_len sz f + 1 - fifo_len sz (isr_rx_byte sz ch f))) mod unat sz"
proof -
  let ?f = "isr_rx_byte sz ch f" and ?n = "unat sz" and ?p = "unat (put_index f)" and ?g = "unat (get_index f)"
  note r = fifo_ring [OF wf] and r' = fifo_ring [OF isr_rx_byte_wf [OF wf, of ch]]
  have p: "put_index ?f = next_slot sz (put_index f)" by (simp add: isr_rx_byte_def rx_touch_def Let_def)
  have "fifo_len sz ?f = min (int_cap sz) (fifo_len sz f + 1) \<and>
      unat (get_index ?f) = (?g + (fifo_len sz f + 1 - fifo_len sz ?f)) mod ?n"
  proof (cases "slot_after ?n ?p = ?g")
    case True
    then have e: "put_index ?f = get_index f" using r(5) p by (simp add: word_unat_eq_iff)
    then have g: "get_index ?f = next_slot sz (get_index f)" "is_full ?f"
      by (auto simp: isr_rx_byte_def rx_touch_def Let_def split: if_splits)
    have l: "fifo_len sz ?f = max 1 (?n - 1)"
      using r'(4) ring_len_overrun(1) [OF r(1,2) True] e g r(6) by simp
    have m: "unat (get_index ?f) = (?g + 1) mod ?n"
      using g(1) unat_next_slot [of "get_index f" sz] r(2) by (simp add: word_less_nat_alt)
    show ?thesis
      using ring_len_overrun(2) [OF r(1,2) True, of "is_full f"] r(1,2,4) l m
      by (auto simp: int_cap_def)
  next
    case False
    then have "put_index ?f \<noteq> get_index f" using r(5) p by (auto simp: word_unat_eq_iff)
    then have g: "get_index ?f = get_index f" "is_full ?f = is_full f"
      by (auto simp: isr_rx_byte_def rx_touch_def Let_def split: if_splits)
    show ?thesis
      using ring_len_put [OF r(1-3) False] r'(4) r(2,4,5) g p by (simp add: int_cap_def)
  qed
  then show "fifo_len sz ?f = min (int_cap sz) (fifo_len sz f + 1)"
    "unat (get_index ?f) = (?g + (fifo_len sz f + 1 - fifo_len sz ?f)) mod ?n" by simp_all
qed

lemma isr_rx_byte_contents:
  assumes wf: "int_fifo_wf sz f"
  shows "fifo_contents sz (isr_rx_byte sz ch f) = newest (int_cap sz) (fifo_contents sz f @ [ch])"
proof -
  let ?f = "isr_rx_byte sz ch f" and ?g = "unat (get_index f)"
  have w: "fifo_wf sz f" using wf by (simp add: int_fifo_wf_def)
  have z: "0 < unat sz" "unat (put_index f) < unat sz" "length (rx_buffer f) = unat sz"
    using w by (auto simp: fifo_wf_def word_less_nat_alt)
  have b: "rx_buffer ?f = (rx_buffer f)[unat (put_index f) := ch]"
    by (simp add: isr_rx_byte_def rx_touch_def Let_def)
  have l: "fifo_len sz ?f = min (int_cap sz) (fifo_len sz f + 1)" by (rule isr_rx_byte_len [OF wf])
  have "circ (nth (rx_buffer ?f)) (unat sz) (unat (get_index ?f)) (fifo_len sz ?f) =
      newest (fifo_len sz ?f) (circ (nth (rx_buffer f)) (unat sz) ?g (fifo_len sz f) @ [ch])"
  proof (rule circ_newest)
    show "rx_buffer ?f ! ((?g + fifo_len sz f + j) mod unat sz) = [ch] ! j" if "j < length [ch]" for j
      using that z b fifo_len_put(2) [OF w] by simp
    show "rx_buffer ?f ! ((?g + j) mod unat sz) = rx_buffer f ! ((?g + j) mod unat sz)"
      if "j < fifo_len sz f" "fifo_len sz f + length [ch] - unat sz \<le> j" for j
    proof (cases "fifo_len sz f = unat sz")
      case True
      then have "?g + j \<noteq> ?g + unat sz \<and> ?g < ?g + j \<and> ?g + j < ?g + unat sz" using that by simp
      then have "(?g + j) mod unat sz \<noteq> (?g + fifo_len sz f) mod unat sz"
        using circ_index_neq [of 0 j "unat sz" ?g] True by simp
      then show ?thesis using b fifo_len_put(2) [OF w] by simp
    next
      case False
      then have "(?g + j) mod unat sz \<noteq> (?g + fifo_len sz f) mod unat sz"
        using circ_index_neq [OF that(1), of "unat sz" ?g] fifo_len_put(1) [OF w] by simp
      then show ?thesis using b fifo_len_put(2) [OF w] by simp
    qed
    show "fifo_len sz ?f \<le> unat sz" using l z by (simp add: int_cap_def)
    show "fifo_len sz ?f \<le> fifo_len sz f + length [ch]" using l by simp
    show "unat (get_index ?f) = (?g + (fifo_len sz f + length [ch] - fifo_len sz ?f)) mod unat sz"
      using isr_rx_byte_len(2) [OF wf, of ch] by simp
  qed
  then show ?thesis by (simp add: fifo_contents_def l newest_def min_def)
qed

text \<open>All bytes of an interrupt, and the bytes that a read takes out.\<close>

lemma isr_rx_bytes:
  assumes "int_fifo_wf sz f"
  shows "int_fifo_wf sz (fold (isr_rx_byte sz) bs f) \<and>
    fifo_contents sz (fold (isr_rx_byte sz) bs f) = newest (int_cap sz) (fifo_contents sz f @ bs)"
  using assms
proof (induction bs arbitrary: f)
  case Nil
  then show ?case using int_fifo_len [of sz f] by (simp add: newest_all fifo_contents_def)
next
  case (Cons b bs)
  then show ?case
    using newest_append [of "int_cap sz" "fifo_contents sz f @ [b]" bs]
    by (simp add: isr_rx_byte_wf isr_rx_byte_contents)
qed

lemma int_rx_byte_step:
  assumes wf: "int_fifo_wf sz f" and ne: "\<not> (get_index f = put_index f \<and> \<not> is_full f)"
  shows "int_fifo_wf sz (fst (int_rx_byte sz f))"
    "fifo_contents sz f = snd (int_rx_byte sz f) # fifo_contents sz (fst (int_rx_byte sz f))"
proof -
  let ?f = "fst (int_rx_byte sz f)"
  have w: "fifo_wf sz f" using wf by (simp add: int_fifo_wf_def)
  have lt: "unat (put_index f) < unat sz" "unat (get_index f) < unat sz"
    using w by (simp_all add: fifo_wf_def word_less_nat_alt)
  have ef: "get_index ?f = next_slot sz (get_index f)" "put_index ?f = put_index f" "\<not> is_full ?f"
    "rx_buffer ?f = rx_buffer f" "rx_fault ?f = rx_fault f" "snd (int_rx_byte sz f) = rx_buffer f ! unat (get_index f)"
    using w lt by (auto simp: int_rx_byte_def rx_touch_def rx_load_def Let_def fifo_wf_def)
  show wf': "int_fifo_wf sz ?f"
    using w ef next_slot_less [of "get_index f" sz] by (simp add: int_fifo_wf_def fifo_wf_def)
  have pos: "0 < fifo_len sz f" and l: "fifo_len sz ?f = fifo_len sz f - 1"
    using ring_len_get [OF fifo_ring(1-3) [OF wf]] ne fifo_ring(4,6) [OF wf] fifo_ring(4) [OF wf'] ef
    by (auto simp: word_unat_eq_iff)
  show "fifo_contents sz f = snd (int_rx_byte sz f) # fifo_contents sz ?f"
    using circ_get [OF pos lt(2)] lt l ef unat_next_slot [of "get_index f" sz]
    by (simp add: fifo_contents_def word_less_nat_alt)
qed

lemma serial_int_rx_take:
  assumes "int_fifo_wf sz f"
  shows "snd (serial_int_rx sz n f) = take n (fifo_contents sz f) \<and>
    int_fifo_wf sz (fst (serial_int_rx sz n f)) \<and>
    fifo_contents sz (fst (serial_int_rx sz n f)) = drop n (fifo_contents sz f)"
  using assms
proof (induction n arbitrary: f)
  case (Suc n)
  show ?case
  proof (cases "get_index f = put_index f \<and> \<not> is_full f")
    case True
    then have "fifo_contents sz f = []" by (simp add: fifo_contents_def fifo_len_def serial_fifo_calc_recved_len_def)
    then show ?thesis using True Suc.prems by simp
  next
    case False
    note b = int_rx_byte_step [OF Suc.prems False]
    show ?thesis using Suc.IH [OF b(1)] False unfolding b(2) by (simp add: split_beta)
  qed
qed simp

text \<open>With two cells or more the number reported to \<^verbatim>\<open>rx_indicate\<close> is the number of bytes in the buffer.\<close>

lemma isr_rx_length_exact:
  assumes wf: "int_fifo_wf sz f" and "1 < sz"
  shows "isr_rx_length sz f = serial_fifo_calc_recved_len sz f"
proof -
  have "\<not> (put_index f = get_index f \<and> is_full f)"
  proof
    assume a: "put_index f = get_index f \<and> is_full f"
    then have "unat (get_index f) = slot_after (unat sz) (unat (get_index f))"
      using fifo_ring(3) [OF wf] by simp
    then show False using assms(2) by (simp add: slot_after_def word_less_nat_alt split: if_splits)
  qed
  then show ?thesis by (auto simp: isr_rx_length_def serial_fifo_calc_recved_len_def)
qed

section \<open>DMA mode keeps the newest bytes\<close>

text \<open>The controller stores bytes one after the other and starts again at the first cell after the last.\<close>

primrec dma_store :: "nat \<Rightarrow> nat \<Rightarrow> rt_uint8_t list \<Rightarrow> rt_uint8_t list \<Rightarrow> rt_uint8_t list" where
  "dma_store n p [] buf = buf"
| "dma_store n p (x # xs) buf = dma_store n ((p + 1) mod n) xs (buf[p := x])"

lemma length_dma_store [simp]: "length (dma_store n p bs buf) = length buf"
  by (induction bs arbitrary: p buf) simp_all

lemma dma_store_nth:
  assumes "length bs \<le> n" "p < n" "length buf = n" "j < n"
  shows "dma_store n p bs buf ! ((p + j) mod n) = (if j < length bs then bs ! j else buf ! ((p + j) mod n))"
  using assms
proof (induction bs arbitrary: p buf j)
  case (Cons x xs)
  let ?q = "(p + 1) mod n" and ?b = "buf[p := x]"
  have q: "?q < n" using Cons.prems(2) by simp
  show ?case
  proof (cases j)
    case 0
    have "dma_store n ?q xs ?b ! ((?q + (n - 1)) mod n) = ?b ! ((?q + (n - 1)) mod n)"
    proof -
      have "\<not> n - 1 < length xs" "length xs \<le> n" "n - 1 < n" using Cons.prems(1,2) by simp_all
      then show ?thesis using Cons.IH [of ?q ?b "n - 1"] Cons.prems(3) q by (simp only: length_list_update if_False)
    qed
    moreover have "(?q + (n - 1)) mod n = p"
    proof -
      have "(?q + (n - 1)) mod n = (p + 1 + (n - 1)) mod n" by (rule mod_add_left_eq)
      then show ?thesis using Cons.prems(2) by simp
    qed
    ultimately show ?thesis using 0 Cons.prems by simp
  next
    case (Suc i)
    have m: "(?q + i) mod n = (p + j) mod n" using Suc by (simp add: mod_add_left_eq)
    have "p mod n \<noteq> (p + j) mod n" using circ_index_neq [of 0 j n p] Suc Cons.prems(4) by simp
    then have "?b ! ((p + j) mod n) = buf ! ((p + j) mod n)" using Cons.prems(2) by simp
    then show ?thesis using Cons.IH [of ?q ?b i] Cons.prems q m Suc by simp
  qed
qed simp

text \<open>The put index as a number, and when the buffer counts as full.\<close>

lemma ring_len_dma:
  assumes "p < n" "g < n" "len \<le> n" "full \<Longrightarrow> p = g" and l: "l = ring_len n p g full"
    and f': "full' \<longleftrightarrow> n \<le> l + len" and g': "g' = (if full' then (p + len) mod n else g)"
  shows "ring_len n ((p + len) mod n) g' full' = min n (l + len)" "g' = (g + (l + len - min n (l + len))) mod n"
proof -
  have m: "(p + len) mod n = (if p + len < n then p + len else p + len - n)"
    using assms(1,3) by (simp add: le_mod_geq)
  show "ring_len n ((p + len) mod n) g' full' = min n (l + len)"
  proof (cases "p = g")
    case True
    then show ?thesis unfolding g' m using assms(2,3) by (cases full) (auto simp: f' l ring_len_def)
  next
    case False
    then have "\<not> full" using assms(4) by blast
    then show ?thesis unfolding g' m using assms(1-3) False by (auto simp: f' l ring_len_def min_def)
  qed
  have "(g + (l + len - n)) mod n = (p + len) mod n" if "n \<le> l + len"
  proof -
    have "(g + l) mod n = p"
      using assms(1,2) by (cases "p = g"; cases "g < p"; cases full) (simp_all add: l ring_len_def le_mod_geq)
    then have "(g + l + len) mod n = (p + len) mod n" by (metis mod_add_left_eq)
    moreover have "g + l + len = g + (l + len - n) + n" using that by simp
    ultimately show ?thesis by (metis mod_add_self2)
  qed
  then show "g' = (g + (l + len - min n (l + len))) mod n" using assms(2) by (simp add: g' f' min_def)
qed

lemma full_after_dma:
  assumes "p < n" "g < n" "len \<le> n" "full \<Longrightarrow> p = g"
  shows "(if g \<le> p then full \<or> n \<le> p + len \<and> g \<le> (p + len) mod n else full \<or> g \<le> p + len) \<longleftrightarrow>
    n \<le> ring_len n p g full + len"
proof (cases full)
  case True
  then show ?thesis using assms(4) by (simp add: ring_len_def)
next
  case False
  have "n \<le> p + len \<Longrightarrow> (p + len) mod n = p + len - n" using assms(1,3) by (simp add: le_mod_geq)
  then show ?thesis using False assms(1-3) by (auto simp: ring_len_def)
qed

lemma update_put_fields:
  assumes wf: "dma_fifo_wf sz f" and sz: "sz \<le> 0x8000" and len: "len \<le> unat sz"
  defines "f' \<equiv> rt_dma_recv_update_put_index sz (of_nat len) f"
  shows "unat (put_index f') = (unat (put_index f) + len) mod unat sz"
    "is_full f' \<longleftrightarrow> unat sz \<le> fifo_len sz f + len"
    "get_index f' = (if is_full f' then put_index f' else get_index f)"
    "rx_buffer f' = rx_buffer f" "rx_fault f' = rx_fault f"
proof -
  have w: "fifo_wf sz f" using wf by (simp add: dma_fifo_wf_def)
  have lt: "unat (put_index f) < unat sz" "unat (get_index f) < unat sz" "unat sz \<le> 0x8000"
    using w sz by (simp_all add: fifo_wf_def word_less_nat_alt word_le_nat_alt)
  have l: "unat (ucast (of_nat len :: rt_size_t) :: rt_uint16_t) = len"
    using len lt by (simp add: unsigned_ucast_eq unsigned_of_nat take_bit_nat_eq_self)
  have p: "unat (put_index f + ucast (of_nat len :: rt_size_t)) = unat (put_index f) + len"
    using l lt len by (simp add: unat_word_ariths)
  show "unat (put_index f') = (unat (put_index f) + len) mod unat sz"
    using p lt by (auto simp: f'_def rt_dma_recv_update_put_index_def Let_def word_le_nat_alt unat_mod)
  have g: "is_full f \<Longrightarrow> unat (put_index f) = unat (get_index f)" using wf by (simp add: dma_fifo_wf_def)
  have "is_full f' \<longleftrightarrow>
    (if unat (get_index f) \<le> unat (put_index f)
     then is_full f \<or> unat sz \<le> unat (put_index f) + len \<and> unat (get_index f) \<le> (unat (put_index f) + len) mod unat sz
     else is_full f \<or> unat (get_index f) \<le> unat (put_index f) + len)"
    using p by (simp add: f'_def rt_dma_recv_update_put_index_def Let_def word_le_nat_alt unat_mod)
  also have "\<dots> \<longleftrightarrow> unat sz \<le> fifo_len sz f + len"
    using full_after_dma [OF lt(1,2) len g] by (simp add: fifo_len_eq [OF w] ring_len_def Let_def)
  finally show "is_full f' \<longleftrightarrow> unat sz \<le> fifo_len sz f + len" .
  show "get_index f' = (if is_full f' then put_index f' else get_index f)"
    "rx_buffer f' = rx_buffer f" "rx_fault f' = rx_fault f"
    by (simp_all add: f'_def rt_dma_recv_update_put_index_def Let_def)
qed

text \<open>Bytes that the controller stored at the put index, and the update of that index.\<close>

definition dma_received :: "rt_uint16_t \<Rightarrow> rt_uint8_t list \<Rightarrow> rt_serial_rx_fifo \<Rightarrow> rt_serial_rx_fifo" where
  "dma_received sz bs f =
    rt_dma_recv_update_put_index sz (of_nat (length bs))
      (f\<lparr>rx_buffer := dma_store (unat sz) (unat (put_index f)) bs (rx_buffer f)\<rparr>)"

lemma dma_received_newest:
  assumes wf: "dma_fifo_wf sz f" and sz: "sz \<le> 0x8000" and len: "length bs \<le> unat sz"
  shows "dma_fifo_wf sz (dma_received sz bs f) \<and>
    fifo_contents sz (dma_received sz bs f) = newest (unat sz) (fifo_contents sz f @ bs)"
proof -
  let ?f = "f\<lparr>rx_buffer := dma_store (unat sz) (unat (put_index f)) bs (rx_buffer f)\<rparr>"
  let ?f' = "dma_received sz bs f" and ?n = "unat sz" and ?g = "unat (get_index f)" and ?p = "unat (put_index f)"
  have w: "fifo_wf sz f" using wf by (simp add: dma_fifo_wf_def)
  have lt: "?p < ?n" "?g < ?n" "length (rx_buffer f) = ?n"
    using w by (simp_all add: fifo_wf_def word_less_nat_alt)
  have wf1: "dma_fifo_wf sz ?f" using wf by (simp add: dma_fifo_wf_def fifo_wf_def)
  have fl: "fifo_len sz ?f = fifo_len sz f" by (simp add: fifo_len_def serial_fifo_calc_recved_len_def)
  note u = update_put_fields [OF wf1 sz len, folded dma_received_def, unfolded fl, simplified]
  let ?l = "fifo_len sz f"
  have rl: "?l = ring_len ?n ?p ?g (is_full f)" by (simp add: fifo_len_eq [OF w] ring_len_def Let_def)
  have eq: "is_full f \<Longrightarrow> ?p = ?g" using wf by (simp add: dma_fifo_wf_def)
  have g': "unat (get_index ?f') = (if is_full ?f' then (?p + length bs) mod ?n else ?g)" using u(1,3) by simp
  note r = ring_len_dma [OF lt(1,2) len eq rl u(2) g']
  have lt': "unat (put_index ?f') < ?n" using u(1) lt(1) by simp
  have wf': "dma_fifo_wf sz ?f'"
    using u lt' w by (simp add: dma_fifo_wf_def fifo_wf_def word_less_nat_alt)
  then have w': "fifo_wf sz ?f'" by (simp add: dma_fifo_wf_def)
  have l': "fifo_len sz ?f' = min ?n (?l + length bs)"
    using r(1) u(1) by (simp add: fifo_len_eq [OF w'] ring_len_def Let_def)
  note pos = fifo_len_put(2) [OF w]
  have "circ (nth (rx_buffer ?f')) ?n (unat (get_index ?f')) (fifo_len sz ?f') =
      newest (fifo_len sz ?f') (circ (nth (rx_buffer f)) ?n ?g ?l @ bs)"
  proof (rule circ_newest)
    show "rx_buffer ?f' ! ((?g + ?l + j) mod ?n) = bs ! j" if "j < length bs" for j
    proof -
      have "(?g + ?l + j) mod ?n = (?p + j) mod ?n" using pos by (metis mod_add_left_eq)
      then show ?thesis using dma_store_nth [OF len lt(1,3), of j] that len u(4) by simp
    qed
    show "rx_buffer ?f' ! ((?g + j) mod ?n) = rx_buffer f ! ((?g + j) mod ?n)"
      if "j < ?l" "?l + length bs - ?n \<le> j" for j
    proof -
      let ?k = "?n - ?l + j"
      have k: "?k < ?n" "\<not> ?k < length bs" using that fifo_len_put(1) [OF w] by auto
      have "(?p + ?k) mod ?n = (?g + ?l + ?k) mod ?n" using pos by (metis mod_add_left_eq)
      also have "?g + ?l + ?k = ?g + j + ?n" using fifo_len_put(1) [OF w] by simp
      finally have "(?p + ?k) mod ?n = (?g + j) mod ?n" by simp
      then show ?thesis using dma_store_nth [OF len lt(1,3) k(1)] k(2) u(4) by simp
    qed
    show "fifo_len sz ?f' \<le> ?n" "fifo_len sz ?f' \<le> ?l + length bs" using l' by simp_all
    show "unat (get_index ?f') = (?g + (?l + length bs - fifo_len sz ?f')) mod ?n" using r(2) l' by simp
  qed
  then show ?thesis using wf' l' by (simp add: fifo_contents_def newest_def min_def)
qed

lemma circ_slices:
  assumes "g < n" "r \<le> n"
  shows "circ (nth b) n g r =
    (if g + r < n then map (nth b) [g..<g + r] else map (nth b) [g..<n] @ map (nth b) [0..<r + g - n])"
  using assms by (auto simp: list_eq_iff_nth_eq nth_circ nth_append le_mod_geq add.commute)

lemma take_circ: "r \<le> l \<Longrightarrow> take r (circ f n g l) = circ f n g r"
  by (simp add: circ_def take_map)

lemma ring_len_drop:
  assumes "p < n" "g < n" "full \<Longrightarrow> p = g" "r \<le> ring_len n p g full"
  shows "ring_len n p ((g + r) mod n) (full \<and> r = 0) = ring_len n p g full - r"
proof (cases "p = g")
  case True
  then show ?thesis using assms by (cases full; cases "r = 0"; cases "g + r < n") (auto simp: ring_len_def le_mod_geq)
next
  case False
  then have "\<not> full" using assms(3) by blast
  then show ?thesis using False assms(1,2,4)
    by (cases "g + r < n"; cases "g < p") (auto simp: ring_len_def le_mod_geq)
qed

lemma rx_copy_in_range:
  assumes "unat off + unat n \<le> length (rx_buffer f)"
  shows "rx_copy off n f = (f, map (nth (rx_buffer f)) [unat off..<unat off + unat n])"
  using assms by (auto simp: rx_copy_def rx_touch_def rx_load_def)

lemma update_get_fields:
  assumes wf: "dma_fifo_wf sz f" and sz: "sz \<le> 0x8000" and len: "unat len \<le> fifo_len sz f"
  defines "f' \<equiv> rt_dma_recv_update_get_index sz len f"
  shows "dma_fifo_wf sz f'" "unat (get_index f') = (unat (get_index f) + unat len) mod unat sz"
    "fifo_len sz f' = fifo_len sz f - unat len" "rx_buffer f' = rx_buffer f"
proof -
  let ?n = "unat sz" and ?g = "unat (get_index f)" and ?p = "unat (put_index f)" and ?r = "unat len"
  have w: "fifo_wf sz f" using wf by (simp add: dma_fifo_wf_def)
  have lt: "?p < ?n" "?g < ?n" "?n \<le> 0x8000"
    using w sz by (simp_all add: fifo_wf_def word_less_nat_alt word_le_nat_alt)
  have rl: "fifo_len sz f = ring_len ?n ?p ?g (is_full f)" by (simp add: fifo_len_eq [OF w] ring_len_def Let_def)
  have eq: "is_full f \<Longrightarrow> ?p = ?g" using wf by (simp add: dma_fifo_wf_def)
  have r: "?r \<le> ?n" using len fifo_len_put(1) [OF w] by simp
  then have "unat (ucast len :: rt_uint16_t) = ?r" using lt(3) by (simp add: unsigned_ucast_eq take_bit_nat_eq_self)
  then have g: "unat (get_index f + ucast len) = ?g + ?r" using lt r by (simp add: unat_word_ariths)
  show gi: "unat (get_index f') = (?g + ?r) mod ?n"
    using g by (simp add: f'_def rt_dma_recv_update_get_index_def Let_def word_le_nat_alt unat_mod)
  have fl: "is_full f' \<longleftrightarrow> is_full f \<and> ?r = 0" "put_index f' = put_index f" "rx_fault f' = rx_fault f"
    "rx_buffer f' = rx_buffer f"
    using len by (auto simp: f'_def rt_dma_recv_update_get_index_def Let_def rt_dma_calc_recved_len_def fifo_len_def
      word_less_nat_alt unat_eq_0)
  have z: "get_index f' = get_index f" if "?r = 0" using gi that lt(2) by (simp add: word_unat_eq_iff)
  have gl: "unat (get_index f') < ?n" using gi lt(1) by simp
  show wf': "dma_fifo_wf sz f'" using wf fl gl z by (simp add: dma_fifo_wf_def fifo_wf_def word_less_nat_alt)
  then have w': "fifo_wf sz f'" by (simp add: dma_fifo_wf_def)
  have "fifo_len sz f' = ring_len ?n ?p ((?g + ?r) mod ?n) (is_full f \<and> ?r = 0)"
    by (simp add: fifo_len_eq [OF w'] ring_len_def Let_def gi fl)
  then show "fifo_len sz f' = fifo_len sz f - ?r" using ring_len_drop [OF lt(1,2) eq] len by (simp add: rl)
  show "rx_buffer f' = rx_buffer f" by (rule fl)
qed

lemma sint_small: "unat (w :: 32 word) < 2 ^ 31 \<Longrightarrow> sint w = int (unat w)"
proof -
  assume "unat w < 2 ^ 31"
  then have u: "uint w < 2 ^ 31" by (simp add: uint_nat del: of_nat_unat)
  have "sint w = signed_take_bit 31 (uint w)" by (simp add: sint_uint)
  also have "\<dots> = uint w" using u by (intro signed_take_bit_int_eq_self) (simp_all add: order_trans [OF _ uint_ge_0])
  finally show ?thesis by simp
qed

lemma sint_nonneg: "0 \<le> sint (w :: 32 word) \<Longrightarrow> sint w = int (unat w)"
proof -
  assume "0 \<le> sint w"
  moreover have "uint w = take_bit 32 (sint w)" by (simp add: uint_sint)
  moreover have "sint w < 2 ^ 31" using sint_less [of w] by simp
  ultimately show ?thesis by (simp add: take_bit_int_eq_self)
qed

lemma serial_dma_rx_take:
  assumes wf: "dma_fifo_wf sz f" and sz: "sz \<le> 0x8000" and len: "0 \<le> sint len"
  shows "snd (serial_dma_rx_fifo sz len f) = take (unat len) (fifo_contents sz f) \<and>
    dma_fifo_wf sz (fst (serial_dma_rx_fifo sz len f)) \<and>
    fifo_contents sz (fst (serial_dma_rx_fifo sz len f)) = drop (unat len) (fifo_contents sz f)"
proof -
  let ?n = "unat sz" and ?g = "unat (get_index f)" and ?l = "fifo_len sz f"
  define recved where "recved = rt_dma_calc_recved_len sz f"
  define rl where "rl = (if sint len < sint recved then len else recved)"
  have w: "fifo_wf sz f" using wf by (simp add: dma_fifo_wf_def)
  have lt: "?g < ?n" "?n \<le> 0x8000" "length (rx_buffer f) = ?n" "?l \<le> ?n"
    using w sz fifo_len_put(1) [OF w] by (simp_all add: fifo_wf_def word_less_nat_alt word_le_nat_alt)
  have rv: "unat recved = ?l" by (simp add: recved_def rt_dma_calc_recved_len_def fifo_len_def)
  then have "sint recved = int ?l" using lt by (simp add: sint_small)
  moreover have "sint len = int (unat len)" using len by (rule sint_nonneg)
  ultimately have "sint len < sint recved \<longleftrightarrow> unat len < ?l" by (simp only: of_nat_less_iff)
  then have r: "unat rl = min (unat len) ?l" using rv by (simp add: rl_def min_def)
  let ?G = "ucast (get_index f) :: rt_size_t" and ?S = "ucast sz :: rt_size_t"
  have b: "unat ?G = ?g" "unat ?S = ?n" by (simp_all add: unat_ucast_16_32)
  have gr: "unat (?G + rl) = ?g + unat rl" "unat (rl + ?G) = unat rl + ?g" "unat (?S - ?G) = ?n - ?g"
    using b lt r by (simp_all add: unat_word_ariths unat_sub_if_size word_size)
  have e: "unat (rl + ?G - ?S) = unat rl + ?g - ?n" if "?n \<le> ?g + unat rl"
    using b gr(2) that by (simp add: unat_sub_if_size add.commute)
  have "serial_dma_rx_fifo sz len f =
      (rt_dma_recv_update_get_index sz rl f, circ (nth (rx_buffer f)) ?n ?g (unat rl))"
  proof (cases "?g + unat rl < ?n")
    case True
    then have "rx_copy ?G rl f = (f, circ (nth (rx_buffer f)) ?n ?g (unat rl))"
      using rx_copy_in_range [of ?G rl f] circ_slices [OF lt(1), of "unat rl" "rx_buffer f"] b lt by simp
    then show ?thesis using True gr(1) b(2)
      by (simp add: serial_dma_rx_fifo_def Let_def word_less_nat_alt flip: recved_def rl_def)
  next
    case False
    then have "rx_copy ?G (?S - ?G) f = (f, map (nth (rx_buffer f)) [?g..<?n])"
      "rx_copy 0 (rl + ?G - ?S) f = (f, map (nth (rx_buffer f)) [0..<unat rl + ?g - ?n])"
      using rx_copy_in_range [of ?G "?S - ?G" f] rx_copy_in_range [of 0 "rl + ?G - ?S" f] b gr(3) e lt r by auto
    then show ?thesis using False gr(1) b(2) circ_slices [OF lt(1), of "unat rl" "rx_buffer f"] lt r
      by (simp add: serial_dma_rx_fifo_def Let_def word_less_nat_alt flip: recved_def rl_def)
  qed
  moreover have "take (unat rl) xs = take (unat len) xs" "drop (unat rl) xs = drop (unat len) xs"
    if "length xs = ?l" for xs :: "rt_uint8_t list"
    using that r by (simp_all add: min_def)
  ultimately show ?thesis
    using update_get_fields [OF wf sz, of rl] r take_circ [of "unat rl" ?l "nth (rx_buffer f)" ?n ?g]
      circ_drop [of "unat rl" "nth (rx_buffer f)" ?n ?g ?l]
    by (simp add: fifo_contents_def del: drop_eq_Nil)
qed

section \<open>The contract of a receive buffer\<close>

text \<open>
  A receive buffer keeps the newest bytes that were not read yet, at most \<open>cap\<close> of them; a read takes the
  oldest of these. \<open>rx_spec\<close> is that queue; \<open>rx_run\<close> runs the operations of a buffer.
\<close>

datatype 'a rx_op = Recv "'a list" | Read nat

fun rx_spec :: "nat \<Rightarrow> 'a rx_op list \<Rightarrow> 'a list \<Rightarrow> 'a list list \<times> 'a list" where
  "rx_spec cap [] q = ([], q)"
| "rx_spec cap (Recv bs # ops) q = rx_spec cap ops (newest cap (q @ bs))"
| "rx_spec cap (Read n # ops) q = (case rx_spec cap ops (drop n q) of (rs, q') \<Rightarrow> (take n q # rs, q'))"

fun rx_run :: "('a list \<Rightarrow> 's \<Rightarrow> 's) \<Rightarrow> (nat \<Rightarrow> 's \<Rightarrow> 's \<times> 'a list) \<Rightarrow> 'a rx_op list \<Rightarrow> 's \<Rightarrow> 'a list list \<times> 's" where
  "rx_run recv rd [] s = ([], s)"
| "rx_run recv rd (Recv bs # ops) s = rx_run recv rd ops (recv bs s)"
| "rx_run recv rd (Read n # ops) s =
    (case rd n s of (s1, xs) \<Rightarrow> (case rx_run recv rd ops s1 of (rs, s2) \<Rightarrow> (xs # rs, s2)))"

text \<open>The bytes that arrive, and whether they fit when they do.\<close>

fun rx_input :: "'a rx_op list \<Rightarrow> 'a list" where
  "rx_input [] = []"
| "rx_input (Recv bs # ops) = bs @ rx_input ops"
| "rx_input (Read n # ops) = rx_input ops"

fun rx_fits :: "nat \<Rightarrow> nat \<Rightarrow> 'a rx_op list \<Rightarrow> bool" where
  "rx_fits cap n [] = True"
| "rx_fits cap n (Recv bs # ops) = (n + length bs \<le> cap \<and> rx_fits cap (n + length bs) ops)"
| "rx_fits cap n (Read k # ops) = rx_fits cap (n - k) ops"

lemma rx_spec_lossless:
  "rx_fits cap (length q) ops \<Longrightarrow> concat (fst (rx_spec cap ops q)) @ snd (rx_spec cap ops q) = q @ rx_input ops"
proof (induction cap ops q rule: rx_spec.induct)
  case (3 cap n ops q)
  then have "take n q @ concat (fst (rx_spec cap ops (drop n q))) @ snd (rx_spec cap ops (drop n q)) =
      take n q @ drop n q @ rx_input ops" by simp
  then show ?case by (simp add: split_beta)
qed (simp_all add: newest_all)

locale receive_buffer =
  fixes wf :: "'s \<Rightarrow> bool" and contents :: "'s \<Rightarrow> 'a list" and cap :: nat and valid :: "'a rx_op \<Rightarrow> bool"
    and recv :: "'a list \<Rightarrow> 's \<Rightarrow> 's" and rd :: "nat \<Rightarrow> 's \<Rightarrow> 's \<times> 'a list"
  assumes recv_wf: "wf s \<Longrightarrow> valid (Recv bs) \<Longrightarrow> wf (recv bs s)"
    and recv_contents: "wf s \<Longrightarrow> valid (Recv bs) \<Longrightarrow> contents (recv bs s) = newest cap (contents s @ bs)"
    and rd_wf: "wf s \<Longrightarrow> valid (Read n) \<Longrightarrow> wf (fst (rd n s))"
    and rd_result: "wf s \<Longrightarrow> valid (Read n) \<Longrightarrow> snd (rd n s) = take n (contents s)"
    and rd_contents: "wf s \<Longrightarrow> valid (Read n) \<Longrightarrow> contents (fst (rd n s)) = drop n (contents s)"
begin

lemma run_refines:
  assumes "wf s" "\<forall>x\<in>set ops. valid x"
  shows "fst (rx_run recv rd ops s) = fst (rx_spec cap ops (contents s)) \<and> wf (snd (rx_run recv rd ops s)) \<and>
    contents (snd (rx_run recv rd ops s)) = snd (rx_spec cap ops (contents s))"
  using assms
proof (induction ops arbitrary: s)
  case (Cons x ops)
  show ?case
  proof (cases x)
    case (Recv bs)
    then show ?thesis using Cons.IH [of "recv bs s"] Cons.prems by (simp add: recv_wf recv_contents)
  next
    case (Read n)
    then show ?thesis using Cons.IH [of "fst (rd n s)"] Cons.prems
      by (simp add: split_beta rd_wf rd_result rd_contents)
  qed
qed simp

text \<open>As long as the reader keeps up no byte is lost, repeated or reordered.\<close>

lemma lossless:
  assumes "wf s" "\<forall>x\<in>set ops. valid x" "rx_fits cap (length (contents s)) ops"
  shows "concat (fst (rx_run recv rd ops s)) @ contents (snd (rx_run recv rd ops s)) = contents s @ rx_input ops"
  using run_refines [OF assms(1,2)] rx_spec_lossless [OF assms(3)] by simp

end

interpretation int_rx: receive_buffer "int_fifo_wf sz" "fifo_contents sz" "int_cap sz" "\<lambda>_. True"
  "fold (isr_rx_byte sz)" "serial_int_rx sz" for sz
  by unfold_locales (simp_all add: isr_rx_bytes serial_int_rx_take)

text \<open>
  In DMA mode a report covers at most the whole buffer and a read asks for less than 2 GB. The sum of an index and
  a length must not wrap around, hence the limit of 32 KB.
\<close>

definition dma_op_ok :: "rt_uint16_t \<Rightarrow> rt_uint8_t rx_op \<Rightarrow> bool" where
  "dma_op_ok sz x = (case x of Recv bs \<Rightarrow> length bs \<le> unat sz | Read n \<Rightarrow> n < 2 ^ 31)"

definition dma_read :: "rt_uint16_t \<Rightarrow> nat \<Rightarrow> rt_serial_rx_fifo \<Rightarrow> rt_serial_rx_fifo \<times> rt_uint8_t list" where
  "dma_read sz n f = serial_dma_rx_fifo sz (of_nat n) f"

interpretation dma_rx: receive_buffer "\<lambda>f. dma_fifo_wf sz f \<and> sz \<le> 0x8000" "fifo_contents sz" "unat sz"
  "dma_op_ok sz" "dma_received sz" "dma_read sz" for sz
proof
  fix f :: rt_serial_rx_fifo and n
  assume w: "dma_fifo_wf sz f \<and> sz \<le> 0x8000" and "dma_op_ok sz (Read n)"
  then have u: "unat (of_nat n :: rt_int32_t) = n" by (simp add: dma_op_ok_def unsigned_of_nat take_bit_nat_eq_self)
  then have "0 \<le> sint (of_nat n :: rt_int32_t)"
    using sint_small [of "of_nat n"] \<open>dma_op_ok sz (Read n)\<close> by (simp add: dma_op_ok_def)
  then have "snd (dma_read sz n f) = take n (fifo_contents sz f) \<and> dma_fifo_wf sz (fst (dma_read sz n f)) \<and>
    fifo_contents sz (fst (dma_read sz n f)) = drop n (fifo_contents sz f)"
    using serial_dma_rx_take [of sz f "of_nat n"] w u by (simp add: dma_read_def)
  then show "dma_fifo_wf sz (fst (dma_read sz n f)) \<and> sz \<le> 0x8000" "snd (dma_read sz n f) = take n (fifo_contents sz f)"
    "fifo_contents sz (fst (dma_read sz n f)) = drop n (fifo_contents sz f)" using w by simp_all
qed (simp_all add: dma_op_ok_def dma_received_newest)

end
