(* ===== verification/Serial.thy ===== *)
theory Serial
  imports SerialFifo DataQueue Device
begin

text \<open>
  The serial device (\<^verbatim>\<open>rt-thread/components/drivers/serial/serial.c\<close>) and its STM32 driver
  (\<^verbatim>\<open>drivers/drv_usart.c\<close>): open and close, polled, interrupt driven and DMA transfers, and the interrupt
  handlers. The functions of \<^verbatim>\<open>serial->ops\<close> are a parameter of the device layer; the driver is the instance
  of the board. The transfer modes are single calls here, with the points named where a thread can be preempted.
\<close>

section \<open>The device\<close>

definition RT_DEVICE_FLAG_SUSPENDED :: rt_uint16_t where "RT_DEVICE_FLAG_SUSPENDED = 0x020"
definition RT_DEVICE_FLAG_STREAM :: rt_uint16_t where "RT_DEVICE_FLAG_STREAM = 0x040"
definition RT_DEVICE_FLAG_INT_RX :: rt_uint16_t where "RT_DEVICE_FLAG_INT_RX = 0x100"
definition RT_DEVICE_FLAG_DMA_RX :: rt_uint16_t where "RT_DEVICE_FLAG_DMA_RX = 0x200"
definition RT_DEVICE_FLAG_INT_TX :: rt_uint16_t where "RT_DEVICE_FLAG_INT_TX = 0x400"
definition RT_DEVICE_FLAG_DMA_TX :: rt_uint16_t where "RT_DEVICE_FLAG_DMA_TX = 0x800"

lemmas [rt_flag_defs] = RT_DEVICE_FLAG_SUSPENDED_def RT_DEVICE_FLAG_STREAM_def RT_DEVICE_FLAG_INT_RX_def
  RT_DEVICE_FLAG_DMA_RX_def RT_DEVICE_FLAG_INT_TX_def RT_DEVICE_FLAG_DMA_TX_def

datatype uart_cmd = Ctrl_config | Ctrl_set_int | Ctrl_clr_int

text \<open>
  \<^verbatim>\<open>serial_rx\<close> and \<^verbatim>\<open>serial_tx\<close> point to one of two structures each, allocated at the given address. A transmit
  structure holds a completion or a data queue, which has the address of the structure here.
\<close>

datatype serial_rx = Rx_fifo addr rt_serial_rx_fifo | Rx_dma addr bool

datatype serial_tx = Tx_fifo addr | Tx_dma addr bool

datatype serial_note = Rx_indicate rt_size_t | Tx_complete "rt_data_item option"

record 'h rt_uart_ops =
  op_configure :: "serial_configure \<Rightarrow> 'h \<Rightarrow> 'h \<times> rt_err_t"
  op_control :: "uart_cmd \<Rightarrow> rt_uint16_t \<Rightarrow> rt_uint16_t \<Rightarrow> serial_rx option \<Rightarrow> 'h \<Rightarrow> 'h \<times> bool"
  op_putc :: "rt_uint8_t \<Rightarrow> 'h \<Rightarrow> 'h \<times> int"
  op_getc :: "'h \<Rightarrow> 'h \<times> int"
  op_dma_transmit :: "rt_data_item \<Rightarrow> bool \<Rightarrow> 'h \<Rightarrow> 'h"

text \<open>
  The state of one device: the fields of the parent that the device layer itself uses, the configuration, the
  two structures, the kernel, the hardware and the calls of \<^verbatim>\<open>rx_indicate\<close> and \<^verbatim>\<open>tx_complete\<close>.
\<close>

record 'h serial_dev =
  s_flag :: rt_uint16_t
  s_open_flag :: rt_uint16_t
  s_ref_count :: rt_uint8_t
  s_rx_indicate :: bool
  s_tx_complete :: bool
  s_config :: serial_configure
  s_rx :: "serial_rx option"
  s_tx :: "serial_tx option"
  s_k :: kstate
  s_hw :: 'h
  s_notes :: "serial_note list"

definition s_fault :: "'h serial_dev \<Rightarrow> 'h serial_dev" where
  "s_fault d = d\<lparr>s_k := null_deref (s_k d)\<rparr>"

definition s_note :: "serial_note \<Rightarrow> 'h serial_dev \<Rightarrow> 'h serial_dev" where
  "s_note x d = d\<lparr>s_notes := s_notes d @ [x]\<rparr>"

definition oflag_set :: "rt_uint16_t \<Rightarrow> rt_uint16_t \<Rightarrow> bool" where
  "oflag_set fl m \<longleftrightarrow> fl AND m \<noteq> 0"

text \<open>The driver's control function; the truth value tells that none of its assertions failed.\<close>

definition s_control :: "'h rt_uart_ops \<Rightarrow> uart_cmd \<Rightarrow> rt_uint16_t \<Rightarrow> 'h serial_dev \<Rightarrow> 'h serial_dev" where
  "s_control ops cmd arg d =
    (case op_control ops cmd arg (bufsz (s_config d)) (s_rx d) (s_hw d) of
       (h, ok) \<Rightarrow> (if ok then d\<lparr>s_hw := h\<rparr> else s_fault (d\<lparr>s_hw := h\<rparr>)))"

section \<open>Polled transfers\<close>

fun serial_poll_rx :: "'h rt_uart_ops \<Rightarrow> nat \<Rightarrow> 'h \<Rightarrow> 'h \<times> rt_uint8_t list" where
  "serial_poll_rx ops 0 h = (h, [])"
| "serial_poll_rx ops (Suc n) h =
    (case op_getc ops h of
       (h1, ch) \<Rightarrow>
         if ch = -1 then (h1, [])
         else if ch = 10 then (h1, [word_of_int ch])
         else (case serial_poll_rx ops n h1 of (h2, cs) \<Rightarrow> (h2, word_of_int ch # cs)))"

fun serial_poll_tx :: "'h rt_uart_ops \<Rightarrow> bool \<Rightarrow> rt_uint8_t list \<Rightarrow> 'h \<Rightarrow> 'h" where
  "serial_poll_tx ops stream [] h = h"
| "serial_poll_tx ops stream (c # cs) h =
    (let h1 = (if c = 10 \<and> stream then fst (op_putc ops 13 h) else h)
     in serial_poll_tx ops stream cs (fst (op_putc ops c h1)))"

section \<open>Interrupt driven transmission\<close>

text \<open>
  \<^verbatim>\<open>_serial_int_tx\<close>: a byte that the hardware does not take yet waits for the completion. \<open>Tx_waits\<close> keeps the bytes
  that are left when the thread sleeps; the loop goes on with them when it is woken.
\<close>

datatype tx_progress = Tx_done | Tx_waits "rt_uint8_t list"

lemma completion_wait_forever:
  assumes "rt_completion_wait a RT_WAITING_FOREVER s = (s', Returns e)"
  shows "cmp_flag (get_cmp a s) = RT_COMPLETED" "cmp_flag (get_cmp a s') \<noteq> RT_COMPLETED"
  using assms by (auto simp: rt_completion_wait_def Let_def RT_WAITING_FOREVER_def split: if_splits option.splits)

function serial_int_tx ::
    "'h rt_uart_ops \<Rightarrow> addr \<Rightarrow> rt_uint8_t list \<Rightarrow> kstate \<times> 'h \<Rightarrow> (kstate \<times> 'h) \<times> tx_progress" where
  "serial_int_tx ops a [] sh = (sh, Tx_done)"
| "serial_int_tx ops a (c # cs) sh =
    (case op_putc ops c (snd sh) of
       (h1, r) \<Rightarrow>
         if r = -1 then
           (case rt_completion_wait a RT_WAITING_FOREVER (fst sh) of
              (s1, Returns _) \<Rightarrow> serial_int_tx ops a (c # cs) (s1, h1)
            | (s1, Waits) \<Rightarrow> ((s1, h1), Tx_waits (c # cs)))
         else serial_int_tx ops a cs (fst sh, h1))"
  by pat_completeness auto
termination
  by (relation "measure (\<lambda>(ops, a, cs, sh). 2 * length cs +
      (if cmp_flag (get_cmp a (fst sh)) = RT_COMPLETED then 1 else 0))")
    (auto dest: completion_wait_forever [OF sym])

definition serial_int_tx_resumed ::
    "'h rt_uart_ops \<Rightarrow> addr \<Rightarrow> tid \<Rightarrow> rt_uint8_t list \<Rightarrow> kstate \<times> 'h \<Rightarrow> (kstate \<times> 'h) \<times> tx_progress" where
  "serial_int_tx_resumed ops a t cs sh =
    serial_int_tx ops a cs (fst (completion_wait_resumed a t (fst sh)), snd sh)"

section \<open>DMA transmission\<close>

text \<open>The queue is initialised without an event callback.\<close>

definition no_notify :: dq_callback where
  "no_notify f a ev s = s"

definition rx_dma_dir :: bool where "rx_dma_dir = False"
definition tx_dma_dir :: bool where "tx_dma_dir = True"

text \<open>
  \<^verbatim>\<open>_serial_dma_tx\<close> in two parts: the data is queued, and the transfer is started when none runs. A thread can be
  preempted between the two.
\<close>

definition serial_dma_tx_push :: "addr \<Rightarrow> rt_data_item \<Rightarrow> 'h serial_dev \<Rightarrow> 'h serial_dev \<times> rt_err_t outcome" where
  "serial_dma_tx_push q x d =
    (case rt_data_queue_push no_notify q x RT_WAITING_FOREVER (s_k d) of (k, r) \<Rightarrow> (d\<lparr>s_k := k\<rparr>, r))"

definition serial_dma_tx_start :: "'h rt_uart_ops \<Rightarrow> rt_data_item \<Rightarrow> 'h serial_dev \<Rightarrow> 'h serial_dev" where
  "serial_dma_tx_start ops x d =
    (case s_tx d of
       Some (Tx_dma q activated) \<Rightarrow>
         if \<not> activated
         then d\<lparr>s_tx := Some (Tx_dma q True), s_hw := op_dma_transmit ops x tx_dma_dir (s_hw d)\<rparr>
         else d
     | _ \<Rightarrow> s_fault d)"

definition serial_dma_tx ::
    "'h rt_uart_ops \<Rightarrow> rt_data_item \<Rightarrow> 'h serial_dev \<Rightarrow> 'h serial_dev \<times> rt_size_t outcome" where
  "serial_dma_tx ops x d =
    (case s_tx d of
       Some (Tx_dma q _) \<Rightarrow>
         (case serial_dma_tx_push q x d of
            (d1, Returns r) \<Rightarrow>
              if r = RT_EOK then (serial_dma_tx_start ops x d1, Returns (di_data_size x))
              else (d1\<lparr>s_k := rt_set_errno r (s_k d1)\<rparr>, Returns 0)
          | (d1, Waits) \<Rightarrow> (d1, Waits))
     | _ \<Rightarrow> (s_fault d, Returns 0))"

text \<open>The end of a transfer.\<close>

definition isr_tx_dmadone :: "'h rt_uart_ops \<Rightarrow> 'h serial_dev \<Rightarrow> 'h serial_dev" where
  "isr_tx_dmadone ops d =
    (case s_tx d of
       Some (Tx_dma q _) \<Rightarrow>
         (case rt_data_queue_pop no_notify q 0 (s_k d) of
            (k, r) \<Rightarrow>
              let last = (case r of Returns (_, v) \<Rightarrow> v | Waits \<Rightarrow> None);
                  d1 = d\<lparr>s_k := k\<rparr>;
                  d2 = (case rt_data_queue_peak q k of
                          (e, Some x) \<Rightarrow> d1\<lparr>s_tx := Some (Tx_dma q True),
                                            s_hw := op_dma_transmit ops x tx_dma_dir (s_hw d1)\<rparr>
                        | (e, None) \<Rightarrow> d1\<lparr>s_tx := Some (Tx_dma q False)\<rparr>)
              in if s_tx_complete d2 then s_note (Tx_complete last) d2 else d2)
     | _ \<Rightarrow> s_fault d)"

section \<open>DMA reception\<close>

text \<open>Without a buffer (\<^verbatim>\<open>bufsz\<close> 0) a read starts a transfer into the caller's memory; one can run at a time.\<close>

definition serial_dma_rx ::
    "'h rt_uart_ops \<Rightarrow> addr \<Rightarrow> rt_int32_t \<Rightarrow> 'h serial_dev \<Rightarrow> 'h serial_dev \<times> rt_uint8_t list \<times> rt_size_t" where
  "serial_dma_rx ops buf len d =
    (if bufsz (s_config d) = 0 then
       (case s_rx d of
          Some (Rx_dma a activated) \<Rightarrow>
            if \<not> activated then
              (d\<lparr>s_rx := Some (Rx_dma a True),
                 s_hw := op_dma_transmit ops \<lparr>di_data_ptr = buf, di_data_size = len\<rparr> rx_dma_dir (s_hw d)\<rparr>, [], len)
            else (d\<lparr>s_k := rt_set_errno (- RT_EBUSY) (s_k d)\<rparr>, [], 0)
        | _ \<Rightarrow> (s_fault d, [], 0))
     else
       (case s_rx d of
          Some (Rx_fifo a f) \<Rightarrow>
            (case serial_dma_rx_fifo (bufsz (s_config d)) len f of
               (f1, cs) \<Rightarrow> (d\<lparr>s_rx := Some (Rx_fifo a f1)\<rparr>, cs, of_nat (length cs)))
        | _ \<Rightarrow> (s_fault d, [], 0)))"

definition isr_rx_dmadone :: "rt_size_t \<Rightarrow> 'h serial_dev \<Rightarrow> 'h serial_dev" where
  "isr_rx_dmadone len d =
    (if bufsz (s_config d) = 0 then
       (case s_rx d of
          Some (Rx_dma a _) \<Rightarrow>
            (if s_rx_indicate d then s_note (Rx_indicate len) d else s_fault d)\<lparr>s_rx := Some (Rx_dma a False)\<rparr>
        | _ \<Rightarrow> s_fault d)
     else
       (case s_rx d of
          Some (Rx_fifo a f) \<Rightarrow>
            let f1 = rt_dma_recv_update_put_index (bufsz (s_config d)) len f;
                d1 = d\<lparr>s_rx := Some (Rx_fifo a f1)\<rparr>
            in if s_rx_indicate d1 then s_note (Rx_indicate (rt_dma_calc_recved_len (bufsz (s_config d)) f1)) d1 else d1
        | _ \<Rightarrow> s_fault d))"

section \<open>The interrupt handler\<close>

text \<open>The receive interrupt reads until the hardware has no byte left; a driver may never say so.\<close>

partial_function (option) isr_rx_loop ::
    "'h rt_uart_ops \<Rightarrow> rt_uint16_t \<Rightarrow> 'h \<Rightarrow> rt_serial_rx_fifo \<Rightarrow> ('h \<times> rt_serial_rx_fifo) option" where
  "isr_rx_loop ops sz h f =
    (case op_getc ops h of
       (h1, ch) \<Rightarrow>
         if ch = -1 then Some (h1, f)
         else isr_rx_loop ops sz h1 (isr_rx_byte sz (word_of_int ch) f))"

definition isr_rx_ind :: "'h rt_uart_ops \<Rightarrow> 'h serial_dev \<Rightarrow> 'h serial_dev option" where
  "isr_rx_ind ops d =
    (case s_rx d of
       Some (Rx_fifo a f) \<Rightarrow>
         (case isr_rx_loop ops (bufsz (s_config d)) (s_hw d) f of
            None \<Rightarrow> None
          | Some (h, f1) \<Rightarrow>
              let d1 = d\<lparr>s_hw := h, s_rx := Some (Rx_fifo a f1)\<rparr>;
                  n = isr_rx_length (bufsz (s_config d)) f1
              in Some (if s_rx_indicate d1 \<and> n \<noteq> 0 then s_note (Rx_indicate n) d1 else d1))
     | _ \<Rightarrow> Some (s_fault d))"

definition isr_tx_done :: "'h serial_dev \<Rightarrow> 'h serial_dev" where
  "isr_tx_done d =
    (case s_tx d of Some (Tx_fifo a) \<Rightarrow> d\<lparr>s_k := rt_completion_done a (s_k d)\<rparr> | _ \<Rightarrow> s_fault d)"

text \<open>
  \<^verbatim>\<open>event\<close>: the low byte is the kind, the rest the length of a DMA report; the shift right of an \<^verbatim>\<open>int\<close> keeps its sign.
\<close>

definition rt_hw_serial_isr :: "'h rt_uart_ops \<Rightarrow> rt_uint32_t \<Rightarrow> 'h serial_dev \<Rightarrow> 'h serial_dev option" where
  "rt_hw_serial_isr ops event d =
    (let kind = event AND 0xff in
     if kind = 1 then isr_rx_ind ops d
     else if kind = 2 then Some (isr_tx_done d)
     else if kind = 4 then Some (isr_tx_dmadone ops d)
     else if kind = 3 then Some (isr_rx_dmadone (signed_drop_bit 8 (event AND NOT 0xff)) d)
     else Some d)"

section \<open>Operations of the device\<close>

definition rt_serial_init :: "'h rt_uart_ops \<Rightarrow> 'h serial_dev \<Rightarrow> 'h serial_dev \<times> rt_err_t" where
  "rt_serial_init ops d =
    (case op_configure ops (s_config d) (s_hw d) of
       (h, result) \<Rightarrow> (d\<lparr>s_rx := None, s_tx := None, s_hw := h\<rparr>, result))"

definition fresh_fifo :: "rt_uint16_t \<Rightarrow> rt_serial_rx_fifo" where
  "fresh_fifo sz = \<lparr>rx_buffer = replicate (unat sz) 0, put_index = 0, get_index = 0, is_full = False, rx_fault = False\<rparr>"

text \<open>\<^verbatim>\<open>rt_malloc\<close> followed by an assertion that memory was found; the sizes of the four structures.\<close>

definition s_alloc :: "nat \<Rightarrow> (addr \<Rightarrow> 'h serial_dev \<Rightarrow> 'h serial_dev) \<Rightarrow> 'h serial_dev \<Rightarrow> 'h serial_dev" where
  "s_alloc n g d =
    (case kernel_malloc n (s_k d) of
       (k, None) \<Rightarrow> s_fault (d\<lparr>s_k := k\<rparr>)
     | (k, Some a) \<Rightarrow> g a (d\<lparr>s_k := k\<rparr>))"

definition sizeof_rx_fifo :: nat where "sizeof_rx_fifo = 12"
definition sizeof_rx_dma :: nat where "sizeof_rx_dma = 4"
definition sizeof_tx_fifo :: nat where "sizeof_tx_fifo = 12"
definition sizeof_tx_dma :: nat where "sizeof_tx_dma = 36"

definition add_oflag :: "rt_uint16_t \<Rightarrow> 'h serial_dev \<Rightarrow> 'h serial_dev" where
  "add_oflag m d = d\<lparr>s_open_flag := s_open_flag d OR m\<rparr>"

definition del_oflag :: "rt_uint16_t \<Rightarrow> 'h serial_dev \<Rightarrow> 'h serial_dev" where
  "del_oflag m d = d\<lparr>s_open_flag := s_open_flag d AND NOT m\<rparr>"

definition serial_open_rx :: "'h rt_uart_ops \<Rightarrow> rt_uint16_t \<Rightarrow> 'h serial_dev \<Rightarrow> 'h serial_dev" where
  "serial_open_rx ops oflag d =
    (let sz = bufsz (s_config d) in
     if s_rx d = None then
       if oflag_set oflag RT_DEVICE_FLAG_INT_RX then
         s_alloc (sizeof_rx_fifo + unat sz)
           (\<lambda>a d1. s_control ops Ctrl_set_int RT_DEVICE_FLAG_INT_RX
              (add_oflag RT_DEVICE_FLAG_INT_RX (d1\<lparr>s_rx := Some (Rx_fifo a (fresh_fifo sz))\<rparr>))) d
       else if oflag_set oflag RT_DEVICE_FLAG_DMA_RX then
         if sz = 0 then
           s_alloc sizeof_rx_dma (\<lambda>a d1. add_oflag RT_DEVICE_FLAG_DMA_RX (d1\<lparr>s_rx := Some (Rx_dma a False)\<rparr>)) d
         else
           s_alloc (sizeof_rx_fifo + unat sz)
             (\<lambda>a d1. add_oflag RT_DEVICE_FLAG_DMA_RX (s_control ops Ctrl_config RT_DEVICE_FLAG_DMA_RX
                (d1\<lparr>s_rx := Some (Rx_fifo a (fresh_fifo sz))\<rparr>))) d
       else d
     else if oflag_set oflag RT_DEVICE_FLAG_INT_RX then add_oflag RT_DEVICE_FLAG_INT_RX d
     else if oflag_set oflag RT_DEVICE_FLAG_DMA_RX then add_oflag RT_DEVICE_FLAG_DMA_RX d
     else d)"

definition serial_open_tx :: "'h rt_uart_ops \<Rightarrow> rt_uint16_t \<Rightarrow> 'h serial_dev \<Rightarrow> 'h serial_dev" where
  "serial_open_tx ops oflag d =
    (if s_tx d = None then
       if oflag_set oflag RT_DEVICE_FLAG_INT_TX then
         s_alloc sizeof_tx_fifo
           (\<lambda>a d1. s_control ops Ctrl_set_int RT_DEVICE_FLAG_INT_TX
              (add_oflag RT_DEVICE_FLAG_INT_TX (d1\<lparr>s_k := rt_completion_init a (s_k d1), s_tx := Some (Tx_fifo a)\<rparr>))) d
       else if oflag_set oflag RT_DEVICE_FLAG_DMA_TX then
         s_alloc sizeof_tx_dma
           (\<lambda>a d1. s_control ops Ctrl_config RT_DEVICE_FLAG_DMA_TX
              (add_oflag RT_DEVICE_FLAG_DMA_TX
                (d1\<lparr>s_k := fst (rt_data_queue_init a 8 4 None (s_k d1)), s_tx := Some (Tx_dma a False)\<rparr>))) d
       else d
     else if oflag_set oflag RT_DEVICE_FLAG_INT_TX then add_oflag RT_DEVICE_FLAG_INT_TX d
     else if oflag_set oflag RT_DEVICE_FLAG_DMA_TX then add_oflag RT_DEVICE_FLAG_DMA_TX d
     else d)"

definition rt_serial_open :: "'h rt_uart_ops \<Rightarrow> rt_uint16_t \<Rightarrow> 'h serial_dev \<Rightarrow> 'h serial_dev \<times> rt_err_t" where
  "rt_serial_open ops oflag d =
    (if \<exists>m\<in>{RT_DEVICE_FLAG_DMA_RX, RT_DEVICE_FLAG_DMA_TX, RT_DEVICE_FLAG_INT_RX, RT_DEVICE_FLAG_INT_TX}.
          oflag_set oflag m \<and> \<not> oflag_set (s_flag d) m
     then (d, - RT_EIO)
     else
       let stream_flag = (if oflag_set oflag RT_DEVICE_FLAG_STREAM \<or> oflag_set (s_open_flag d) RT_DEVICE_FLAG_STREAM
                          then RT_DEVICE_FLAG_STREAM else 0);
           d1 = d\<lparr>s_open_flag := oflag AND 0xff\<rparr>;
           d2 = serial_open_tx ops oflag (serial_open_rx ops oflag d1)
       in (add_oflag stream_flag d2, RT_EOK))"

fun rx_addr :: "serial_rx \<Rightarrow> addr" where
  "rx_addr (Rx_fifo a _) = a"
| "rx_addr (Rx_dma a _) = a"

fun tx_addr :: "serial_tx \<Rightarrow> addr" where
  "tx_addr (Tx_fifo a) = a"
| "tx_addr (Tx_dma a _) = a"

definition serial_close_rx :: "'h rt_uart_ops \<Rightarrow> 'h serial_dev \<Rightarrow> 'h serial_dev" where
  "serial_close_rx ops d =
    (if oflag_set (s_open_flag d) RT_DEVICE_FLAG_INT_RX then
       (case s_rx d of
          None \<Rightarrow> s_fault d
        | Some r \<Rightarrow> s_control ops Ctrl_clr_int RT_DEVICE_FLAG_INT_RX
            (del_oflag RT_DEVICE_FLAG_INT_RX (d\<lparr>s_k := kernel_free (Some (rx_addr r)) (s_k d), s_rx := None\<rparr>)))
     else if oflag_set (s_open_flag d) RT_DEVICE_FLAG_DMA_RX then
       (case s_rx d of
          None \<Rightarrow> s_fault d
        | Some r \<Rightarrow> del_oflag RT_DEVICE_FLAG_DMA_RX
            ((s_control ops Ctrl_clr_int RT_DEVICE_FLAG_DMA_RX (d\<lparr>s_k := kernel_free (Some (rx_addr r)) (s_k d)\<rparr>))
               \<lparr>s_rx := None\<rparr>))
     else d)"

definition serial_close_tx :: "'h rt_uart_ops \<Rightarrow> 'h serial_dev \<Rightarrow> 'h serial_dev" where
  "serial_close_tx ops d =
    (if oflag_set (s_open_flag d) RT_DEVICE_FLAG_INT_TX then
       (case s_tx d of
          None \<Rightarrow> s_fault d
        | Some x \<Rightarrow> s_control ops Ctrl_clr_int RT_DEVICE_FLAG_INT_TX
            (del_oflag RT_DEVICE_FLAG_INT_TX (d\<lparr>s_k := kernel_free (Some (tx_addr x)) (s_k d), s_tx := None\<rparr>)))
     else if oflag_set (s_open_flag d) RT_DEVICE_FLAG_DMA_TX then
       (case s_tx d of
          None \<Rightarrow> s_fault d
        | Some x \<Rightarrow>
            del_oflag RT_DEVICE_FLAG_DMA_TX (d\<lparr>s_k := kernel_free (Some (tx_addr x)) (s_k d), s_tx := None\<rparr>))
     else d)"

definition rt_serial_close :: "'h rt_uart_ops \<Rightarrow> 'h serial_dev \<Rightarrow> 'h serial_dev \<times> rt_err_t" where
  "rt_serial_close ops d =
    (if s_ref_count d > 1 then (d, RT_EOK) else (serial_close_tx ops (serial_close_rx ops d), RT_EOK))"

text \<open>A read gives the bytes it stored and the count it returns.\<close>

definition rt_serial_read ::
    "'h rt_uart_ops \<Rightarrow> addr \<Rightarrow> rt_size_t \<Rightarrow> 'h serial_dev \<Rightarrow> 'h serial_dev \<times> rt_uint8_t list \<times> rt_size_t" where
  "rt_serial_read ops buffer sz d =
    (if sz = 0 then (d, [], 0)
     else if oflag_set (s_open_flag d) RT_DEVICE_FLAG_INT_RX then
       (case s_rx d of
          Some (Rx_fifo a f) \<Rightarrow>
            (case serial_int_rx (bufsz (s_config d)) (unat sz) f of
               (f1, cs) \<Rightarrow> (d\<lparr>s_rx := Some (Rx_fifo a f1)\<rparr>, cs, of_nat (length cs)))
        | _ \<Rightarrow> (s_fault d, [], 0))
     else if oflag_set (s_open_flag d) RT_DEVICE_FLAG_DMA_RX then serial_dma_rx ops buffer sz d
     else
       (case serial_poll_rx ops (unat sz) (s_hw d) of
          (h, cs) \<Rightarrow> (d\<lparr>s_hw := h\<rparr>, cs, of_nat (length cs))))"

definition rt_serial_write ::
    "'h rt_uart_ops \<Rightarrow> addr \<Rightarrow> rt_uint8_t list \<Rightarrow> 'h serial_dev \<Rightarrow> 'h serial_dev \<times> rt_size_t outcome" where
  "rt_serial_write ops buffer data d =
    (if data = [] then (d, Returns 0)
     else if oflag_set (s_open_flag d) RT_DEVICE_FLAG_INT_TX then
       (case s_tx d of
          Some (Tx_fifo a) \<Rightarrow>
            (case serial_int_tx ops a data (s_k d, s_hw d) of
               ((k, h), Tx_done) \<Rightarrow> (d\<lparr>s_k := k, s_hw := h\<rparr>, Returns (of_nat (length data)))
             | ((k, h), Tx_waits _) \<Rightarrow> (d\<lparr>s_k := k, s_hw := h\<rparr>, Waits))
        | _ \<Rightarrow> (s_fault d, Returns 0))
     else if oflag_set (s_open_flag d) RT_DEVICE_FLAG_DMA_TX then
       serial_dma_tx ops \<lparr>di_data_ptr = buffer, di_data_size = of_nat (length data)\<rparr> d
     else
       (d\<lparr>s_hw := serial_poll_tx ops (oflag_set (s_open_flag d) RT_DEVICE_FLAG_STREAM) data (s_hw d)\<rparr>,
        Returns (of_nat (length data))))"

datatype serial_ctrl = Sc_suspend | Sc_resume | Sc_config "serial_configure option" | Sc_driver uart_cmd rt_uint16_t

definition rt_serial_control :: "'h rt_uart_ops \<Rightarrow> serial_ctrl \<Rightarrow> 'h serial_dev \<Rightarrow> 'h serial_dev \<times> rt_err_t" where
  "rt_serial_control ops cmd d =
    (case cmd of
       Sc_suspend \<Rightarrow> (d\<lparr>s_flag := s_flag d OR RT_DEVICE_FLAG_SUSPENDED\<rparr>, RT_EOK)
     | Sc_resume \<Rightarrow> (d\<lparr>s_flag := s_flag d AND NOT RT_DEVICE_FLAG_SUSPENDED\<rparr>, RT_EOK)
     | Sc_config None \<Rightarrow> (d, RT_EOK)
     | Sc_config (Some c) \<Rightarrow>
         if bufsz c \<noteq> bufsz (s_config d) \<and> s_ref_count d \<noteq> 0 then (d, RT_EBUSY)
         else
           let d1 = d\<lparr>s_config := c\<rparr>
           in (if s_ref_count d1 \<noteq> 0 then d1\<lparr>s_hw := fst (op_configure ops c (s_hw d1))\<rparr> else d1, RT_EOK)
     | Sc_driver c arg \<Rightarrow> (s_control ops c arg d, RT_EOK))"

section \<open>The STM32 driver\<close>

text \<open>
  The registers and the handle of a USART: \<open>hw_rx_in\<close> is what the tests of RXNE will find, \<open>hw_sent\<close> the bytes
  written to the data register and \<open>hw_tx_dma\<close> the transfers started so far. \<open>hw_tx_busy\<close> and \<open>hw_rx_busy\<close> are the
  states \<^verbatim>\<open>gState\<close> and \<^verbatim>\<open>RxState\<close> of the HAL handle. The receive stream stores at \<open>hw_rx_target\<close>, has
  \<open>hw_dma_left\<close> bytes to go until it starts over, and was last reported at \<open>hw_last_index\<close>.
\<close>

record uart_init =
  init_baud :: rt_uint32_t
  init_wordlength9 :: bool
  init_stopbits2 :: bool
  init_parity :: "2 word"

record uart_hw =
  hw_init :: uart_init
  hw_irq :: bool
  hw_rxne_it :: bool
  hw_idle_it :: bool
  hw_idle :: bool
  hw_tc :: bool
  hw_tc_it :: bool
  hw_dma_flag :: rt_uint16_t
  hw_rx_in :: "rt_uint8_t option list"
  hw_sent :: "rt_uint8_t list"
  hw_tx_busy :: bool
  hw_tx_dma :: "rt_data_item list"
  hw_rx_busy :: bool
  hw_rx_target :: "addr option"
  hw_dma_left :: rt_uint16_t
  hw_last_index :: rt_size_t

definition stm32_configure :: "serial_configure \<Rightarrow> uart_hw \<Rightarrow> uart_hw \<times> rt_err_t" where
  "stm32_configure cfg h =
    (h\<lparr>hw_init := \<lparr>init_baud = baud_rate cfg, init_wordlength9 = (data_bits cfg = 9), init_stopbits2 = (stop_bits cfg = 1),
         init_parity = (if parity cfg = 1 \<or> parity cfg = 2 then parity cfg else 0)\<rparr>\<rparr>, RT_EOK)"

text \<open>\<^verbatim>\<open>HAL_UART_Receive_DMA\<close> and \<^verbatim>\<open>HAL_UART_Transmit_DMA\<close> of the HAL refuse a second transfer; the size is 16 bits.\<close>

definition hal_receive_dma :: "addr \<Rightarrow> rt_uint16_t \<Rightarrow> uart_hw \<Rightarrow> uart_hw \<times> bool" where
  "hal_receive_dma buf sz h =
    (if hw_rx_busy h \<or> sz = 0 then (h, False)
     else (h\<lparr>hw_rx_busy := True, hw_rx_target := Some buf, hw_dma_left := sz\<rparr>, True))"

definition hal_transmit_dma :: "addr \<Rightarrow> rt_uint16_t \<Rightarrow> uart_hw \<Rightarrow> uart_hw \<times> bool" where
  "hal_transmit_dma buf sz h =
    (if hw_tx_busy h \<or> buf = 0 \<or> sz = 0 then (h, False)
     else (h\<lparr>hw_tx_busy := True, hw_tx_dma := hw_tx_dma h @ [\<lparr>di_data_ptr = buf, di_data_size = ucast sz\<rparr>]\<rparr>, True))"

definition stm32_dma_config :: "rt_uint16_t \<Rightarrow> rt_uint16_t \<Rightarrow> serial_rx option \<Rightarrow> uart_hw \<Rightarrow> uart_hw \<times> bool" where
  "stm32_dma_config flg sz rx h =
    (if flg = RT_DEVICE_FLAG_DMA_RX then
       (case rx of
          None \<Rightarrow> (h, False)
        | Some r \<Rightarrow> (case hal_receive_dma (rx_addr r) sz h of
                       (h1, ok) \<Rightarrow> (if ok then (h1\<lparr>hw_idle_it := True, hw_irq := True\<rparr>, True) else (h1, False))))
     else (h\<lparr>hw_irq := True\<rparr>, True))"

definition stm32_control ::
    "uart_cmd \<Rightarrow> rt_uint16_t \<Rightarrow> rt_uint16_t \<Rightarrow> serial_rx option \<Rightarrow> uart_hw \<Rightarrow> uart_hw \<times> bool" where
  "stm32_control cmd arg sz rx h =
    (case cmd of
       Ctrl_clr_int \<Rightarrow> (h\<lparr>hw_irq := False, hw_rxne_it := False\<rparr>, True)
     | Ctrl_set_int \<Rightarrow> (h\<lparr>hw_irq := True, hw_rxne_it := True\<rparr>, True)
     | Ctrl_config \<Rightarrow> stm32_dma_config arg sz rx h)"

definition stm32_putc :: "rt_uint8_t \<Rightarrow> uart_hw \<Rightarrow> uart_hw \<times> int" where
  "stm32_putc c h = (h\<lparr>hw_sent := hw_sent h @ [c], hw_tc := True\<rparr>, 1)"

definition stm32_getc :: "uart_hw \<Rightarrow> uart_hw \<times> int" where
  "stm32_getc h =
    (case hw_rx_in h of
       [] \<Rightarrow> (h, -1)
     | None # rest \<Rightarrow> (h\<lparr>hw_rx_in := rest\<rparr>, -1)
     | Some b # rest \<Rightarrow> (h\<lparr>hw_rx_in := rest\<rparr>, uint b))"

definition stm32_dma_transmit :: "rt_data_item \<Rightarrow> bool \<Rightarrow> uart_hw \<Rightarrow> uart_hw" where
  "stm32_dma_transmit x dir h =
    (if di_data_size x = 0 then h
     else if dir = tx_dma_dir then fst (hal_transmit_dma (di_data_ptr x) (ucast (di_data_size x)) h)
     else h)"

definition stm32_uart_ops :: "uart_hw rt_uart_ops" where
  "stm32_uart_ops = \<lparr>op_configure = stm32_configure, op_control = stm32_control, op_putc = stm32_putc,
     op_getc = stm32_getc, op_dma_transmit = stm32_dma_transmit\<rparr>"

type_synonym stm32_uart = "uart_hw serial_dev"

text \<open>The report of the bytes that the receive stream stored since the last one.\<close>

definition dma_report :: "rt_size_t \<Rightarrow> rt_size_t \<Rightarrow> stm32_uart \<Rightarrow> stm32_uart option" where
  "dma_report idx len d =
    (let d1 = d\<lparr>s_hw := (s_hw d)\<lparr>hw_last_index := idx\<rparr>\<rparr>
     in if len \<noteq> 0 then rt_hw_serial_isr stm32_uart_ops (3 OR push_bit 8 len) d1 else Some d1)"

definition recv_total_index :: "stm32_uart \<Rightarrow> rt_size_t" where
  "recv_total_index d = ucast (bufsz (s_config d)) - ucast (hw_dma_left (s_hw d))"

text \<open>The end of a transmission: the HAL handler sets the handle ready and calls \<^verbatim>\<open>HAL_UART_TxCpltCallback\<close>.\<close>

definition hal_tx_complete :: "stm32_uart \<Rightarrow> stm32_uart option" where
  "hal_tx_complete d = rt_hw_serial_isr stm32_uart_ops 4 (d\<lparr>s_hw := (s_hw d)\<lparr>hw_tc_it := False, hw_tx_busy := False\<rparr>\<rparr>)"

definition rxne_set :: "uart_hw \<Rightarrow> bool" where
  "rxne_set h = (case hw_rx_in h of Some _ # _ \<Rightarrow> True | _ \<Rightarrow> False)"

definition uart_isr :: "stm32_uart \<Rightarrow> stm32_uart option" where
  "uart_isr d =
    (let h = s_hw d in
     if rxne_set h \<and> hw_rxne_it h then rt_hw_serial_isr stm32_uart_ops 1 d
     else if hw_dma_flag h \<noteq> 0 \<and> hw_idle h \<and> hw_idle_it h then
       (case dma_report (recv_total_index d) (recv_total_index d - hw_last_index h) d of
          None \<Rightarrow> None
        | Some d1 \<Rightarrow> Some (d1\<lparr>s_hw := (s_hw d1)\<lparr>hw_idle := False\<rparr>\<rparr>))
     else if hw_tc h then
       if oflag_set (s_open_flag d) RT_DEVICE_FLAG_DMA_TX then (if hw_tc_it h then hal_tx_complete d else Some d)
       else Some (d\<lparr>s_hw := h\<lparr>hw_tc := False\<rparr>\<rparr>)
     else Some (if rxne_set h then d\<lparr>s_hw := h\<lparr>hw_rx_in := tl (hw_rx_in h)\<rparr>\<rparr> else d))"

definition dma_isr :: "stm32_uart \<Rightarrow> stm32_uart option" where
  "dma_isr d =
    (let idx = recv_total_index d; last_idx = hw_last_index (s_hw d)
     in dma_report idx (if idx = 0 then ucast (bufsz (s_config d)) - last_idx else idx - last_idx) d)"

text \<open>What the receive stream does with a byte: it is stored and the counter goes down, starting over at 0.\<close>

definition dma_rx_byte :: "rt_uint8_t \<Rightarrow> stm32_uart \<Rightarrow> stm32_uart" where
  "dma_rx_byte b d =
    (case s_rx d of
       Some (Rx_fifo a f) \<Rightarrow>
         let sz = bufsz (s_config d); left = hw_dma_left (s_hw d)
         in d\<lparr>s_rx := Some (Rx_fifo a (f\<lparr>rx_buffer := (rx_buffer f)[unat (sz - left) := b]\<rparr>)),
              s_hw := (s_hw d)\<lparr>hw_dma_left := (if left = 1 then sz else left - 1)\<rparr>\<rparr>
     | _ \<Rightarrow> d)"

text \<open>The transmit stream is through: its handler enables the interrupt for the last byte.\<close>

definition dma_tx_through :: "stm32_uart \<Rightarrow> stm32_uart" where
  "dma_tx_through d = d\<lparr>s_hw := (s_hw d)\<lparr>hw_tc := True, hw_tc_it := True\<rparr>\<rparr>"

section \<open>Polled and interrupt driven transfers of the driver\<close>

lemma stm32_ops_simps [simp]:
  "op_putc stm32_uart_ops = stm32_putc" "op_getc stm32_uart_ops = stm32_getc"
  "op_control stm32_uart_ops = stm32_control" "op_configure stm32_uart_ops = stm32_configure"
  "op_dma_transmit stm32_uart_ops = stm32_dma_transmit"
  by (simp_all add: stm32_uart_ops_def)

text \<open>In stream mode a carriage return goes before every line feed.\<close>

definition crlf :: "rt_uint8_t \<Rightarrow> rt_uint8_t list" where
  "crlf c = (if c = 10 then [13, 10] else [c])"

lemma serial_poll_tx_sent:
  "hw_sent (serial_poll_tx stm32_uart_ops stream cs h) = hw_sent h @ (if stream then concat (map crlf cs) else cs)"
  by (induction cs arbitrary: h) (auto simp: stm32_putc_def crlf_def Let_def)

lemma serial_int_tx_sent:
  "\<exists>h'. serial_int_tx stm32_uart_ops a cs (k, h) = ((k, h'), Tx_done) \<and> hw_sent h' = hw_sent h @ cs"
proof (induction cs arbitrary: h)
  case (Cons c cs)
  then show ?case using Cons.IH [of "fst (stm32_putc c h)"] by (auto simp: stm32_putc_def)
qed simp

text \<open>The bytes that are there, up to the first test that finds none.\<close>

fun ready_bytes :: "rt_uint8_t option list \<Rightarrow> rt_uint8_t list" where
  "ready_bytes (Some b # xs) = b # ready_bytes xs"
| "ready_bytes _ = []"

fun after_ready :: "rt_uint8_t option list \<Rightarrow> rt_uint8_t option list" where
  "after_ready (Some b # xs) = after_ready xs"
| "after_ready (None # xs) = xs"
| "after_ready [] = []"

text \<open>The receive interrupt ends and stores them all.\<close>

lemma isr_rx_loop_stm32:
  "isr_rx_loop stm32_uart_ops sz h f =
    Some (h\<lparr>hw_rx_in := after_ready (hw_rx_in h)\<rparr>, fold (isr_rx_byte sz) (ready_bytes (hw_rx_in h)) f)"
proof (induction "hw_rx_in h" arbitrary: h f)
  case Nil
  then show ?case by (subst isr_rx_loop.simps) (simp add: stm32_getc_def)
next
  case (Cons x xs)
  note xs = Cons.hyps(2) [symmetric]
  show ?case
  proof (cases x)
    case None
    then show ?thesis using xs by (subst isr_rx_loop.simps) (simp add: stm32_getc_def)
  next
    case (Some b)
    have n: "uint b \<noteq> - 1" using uint_ge_0 [of b] by linarith
    show ?thesis
      using Cons.hyps(1) [of "h\<lparr>hw_rx_in := xs\<rparr>"] xs Some n by (subst isr_rx_loop.simps) (simp add: stm32_getc_def)
  qed
qed

text \<open>
  The receive interrupt as a whole: the new contents of the buffer, and the number of bytes that
  \<^verbatim>\<open>rx_indicate\<close> is told.
\<close>

lemma isr_rx_ind_stm32:
  assumes "s_rx d = Some (Rx_fifo a f)" "int_fifo_wf sz f" "sz = bufsz (s_config d)" "1 < sz"
  shows "\<exists>f' d'. rt_hw_serial_isr stm32_uart_ops 1 d = Some d' \<and> s_rx d' = Some (Rx_fifo a f') \<and> int_fifo_wf sz f' \<and>
    fifo_contents sz f' = newest (int_cap sz) (fifo_contents sz f @ ready_bytes (hw_rx_in (s_hw d))) \<and>
    s_notes d' = s_notes d @ (if s_rx_indicate d \<and> fifo_contents sz f' \<noteq> []
      then [Rx_indicate (of_nat (length (fifo_contents sz f')))] else [])"
proof -
  define f' where "f' = fold (isr_rx_byte sz) (ready_bytes (hw_rx_in (s_hw d))) f"
  have f': "int_fifo_wf sz f'" "fifo_contents sz f' = newest (int_cap sz) (fifo_contents sz f @ ready_bytes (hw_rx_in (s_hw d)))"
    using isr_rx_bytes [OF assms(2)] by (simp_all add: f'_def)
  have n: "isr_rx_length sz f' = of_nat (length (fifo_contents sz f'))"
    using isr_rx_length_exact [OF f'(1) assms(4)] by (simp add: fifo_contents_def fifo_len_def)
  then have z: "isr_rx_length sz f' = 0 \<longleftrightarrow> fifo_contents sz f' = []"
    using isr_rx_length_exact [OF f'(1) assms(4)] by (simp add: fifo_contents_def fifo_len_def unat_eq_0)
  note sz = assms(3) [symmetric]
  have loop: "isr_rx_loop stm32_uart_ops sz (s_hw d) f =
      Some ((s_hw d)\<lparr>hw_rx_in := after_ready (hw_rx_in (s_hw d))\<rparr>, f')"
    by (simp add: isr_rx_loop_stm32 f'_def)
  show ?thesis
    using f' n z
    by (intro exI [of _ f'] exI [of _ "the (rt_hw_serial_isr stm32_uart_ops 1 d)"])
      (simp add: rt_hw_serial_isr_def isr_rx_ind_def assms(1) loop s_note_def Let_def sz)
qed

section \<open>DMA reception of the driver\<close>

lemma event_length:
  assumes "unat len < 2 ^ 23"
  shows "(3 OR push_bit 8 len :: 32 word) AND 0xff = 3"
    "signed_drop_bit 8 ((3 OR push_bit 8 len :: 32 word) AND NOT 0xff) = len"
proof -
  have m: "(0xff :: 32 word) = mask 8" "(3 :: 32 word) = mask 2" by (simp_all add: mask_eq_exp_minus_1)
  have b: "\<not> bit len n" if "23 \<le> n" for n
  proof -
    have "take_bit 23 len = len" using assms by (simp add: word_unat_eq_iff unsigned_take_bit_eq take_bit_nat_eq_self)
    then show ?thesis using that by (metis bit_take_bit_iff not_less)
  qed
  show "(3 OR push_bit 8 len) AND 0xff = 3"
    unfolding m by (rule bit_word_eqI) (auto simp: bit_simps)
  show "signed_drop_bit 8 ((3 OR push_bit 8 len) AND NOT 0xff) = len"
    unfolding m by (rule bit_word_eqI) (auto simp: bit_simps b)
qed

text \<open>The receive stream stands where the buffer's put index is, and that is the index of the last report.\<close>

definition dma_rx_wf :: "stm32_uart \<Rightarrow> bool" where
  "dma_rx_wf d \<longleftrightarrow>
    (case s_rx d of
       Some (Rx_fifo a f) \<Rightarrow>
         let sz = bufsz (s_config d); left = hw_dma_left (s_hw d)
         in dma_fifo_wf sz f \<and> sz \<le> 0x8000 \<and> 0 < left \<and> left \<le> sz \<and> unat (put_index f) + unat left = unat sz \<and>
            hw_last_index (s_hw d) = ucast (put_index f)
     | _ \<Rightarrow> False)"

definition dev_fifo :: "'h serial_dev \<Rightarrow> rt_serial_rx_fifo" where
  "dev_fifo d = (case s_rx d of Some (Rx_fifo a f) \<Rightarrow> f | _ \<Rightarrow> fresh_fifo 0)"

lemma dma_rx_wfD:
  assumes "dma_rx_wf d"
  shows "dma_fifo_wf (bufsz (s_config d)) (dev_fifo d)" "bufsz (s_config d) \<le> 0x8000"
  using assms by (auto simp: dma_rx_wf_def dev_fifo_def Let_def split: option.splits serial_rx.splits)

lemma dma_rx_bytes_store:
  assumes "s_rx d = Some (Rx_fifo a f)" "sz = bufsz (s_config d)" "0 < hw_dma_left (s_hw d)" "hw_dma_left (s_hw d) \<le> sz"
    "p + unat (hw_dma_left (s_hw d)) = unat sz"
  shows "\<exists>left. fold dma_rx_byte bs d =
      d\<lparr>s_rx := Some (Rx_fifo a (f\<lparr>rx_buffer := dma_store (unat sz) p bs (rx_buffer f)\<rparr>)),
        s_hw := (s_hw d)\<lparr>hw_dma_left := left\<rparr>\<rparr> \<and>
    0 < left \<and> left \<le> sz \<and> (p + length bs) mod unat sz + unat left = unat sz"
  using assms
proof (induction bs arbitrary: d f p)
  case Nil
  have "0 < unat (hw_dma_left (s_hw d))" using Nil.prems(3) by (simp add: word_less_nat_alt)
  then have "p < unat sz" using Nil.prems(5) by simp
  then show ?case using Nil.prems by (intro exI [of _ "hw_dma_left (s_hw d)"]) simp
next
  case (Cons b bs)
  let ?l = "hw_dma_left (s_hw d)" and ?n = "unat sz"
  let ?l1 = "if ?l = 1 then sz else ?l - 1"
  let ?d = "dma_rx_byte b d" and ?f = "f\<lparr>rx_buffer := (rx_buffer f)[p := b]\<rparr>"
  have l0: "0 < unat ?l" using Cons.prems(3) by (simp add: word_less_nat_alt)
  have pos: "unat (sz - ?l) = p"
    using Cons.prems(4,5) unat_sub [of ?l sz] by simp
  have d: "?d = d\<lparr>s_rx := Some (Rx_fifo a ?f), s_hw := (s_hw d)\<lparr>hw_dma_left := ?l1\<rparr>\<rparr>"
    using Cons.prems(1,2) pos by (simp add: dma_rx_byte_def Let_def)
  have one: "?l = 1 \<longleftrightarrow> unat ?l = 1" by (simp add: word_unat_eq_iff)
  have u1: "unat (?l - 1) = unat ?l - 1" using l0 by (simp add: unat_minus_one unat_gt_0 flip: unat_gt_0)
  have q: "(p + 1) mod ?n + unat ?l1 = ?n"
    using Cons.prems(5) l0 u1 one by (auto simp: mod_Suc)
  have l1: "0 < ?l1" "?l1 \<le> sz"
    using u1 one l0 Cons.prems(3-5) by (auto simp: word_less_nat_alt word_le_nat_alt)
  obtain left where "fold dma_rx_byte bs ?d =
      ?d\<lparr>s_rx := Some (Rx_fifo a (?f\<lparr>rx_buffer := dma_store ?n ((p + 1) mod ?n) bs (rx_buffer ?f)\<rparr>)),
        s_hw := (s_hw ?d)\<lparr>hw_dma_left := left\<rparr>\<rparr>"
    "0 < left" "left \<le> sz" "((p + 1) mod ?n + length bs) mod ?n + unat left = ?n"
    using Cons.IH [of ?d ?f "(p + 1) mod ?n"] Cons.prems(2) l1 q d by auto
  then show ?case
    by (intro exI [of _ left]) (simp add: d mod_add_left_eq add.assoc)
qed

lemma dma_report_fifo:
  assumes "s_rx d = Some (Rx_fifo a f)" "bufsz (s_config d) \<noteq> 0" "unat len < 2 ^ 23" "len \<noteq> 0"
  shows "\<exists>d'. dma_report idx len d = Some d' \<and>
    s_rx d' = Some (Rx_fifo a (rt_dma_recv_update_put_index (bufsz (s_config d)) len f)) \<and>
    s_hw d' = (s_hw d)\<lparr>hw_last_index := idx\<rparr> \<and> s_config d' = s_config d \<and>
    s_notes d' = s_notes d @ (if s_rx_indicate d
      then [Rx_indicate (rt_dma_calc_recved_len (bufsz (s_config d)) (dev_fifo d'))] else [])"
  using assms event_length [OF assms(3)]
  by (simp add: dma_report_def rt_hw_serial_isr_def isr_rx_dmadone_def s_note_def dev_fifo_def Let_def)

text \<open>
  The bytes that arrived since the last report, and the report of them. \<open>total\<close> and \<open>last_index\<close> differ by
  their number as long as the stream did not pass the end of the buffer in between.
\<close>

lemma dma_report_bytes:
  assumes wf: "dma_rx_wf d" and ne: "bs \<noteq> []"
    and fit: "unat (put_index (dev_fifo d)) + length bs \<le> unat (bufsz (s_config d))"
    and idx: "idx = recv_total_index (fold dma_rx_byte bs d)"
  shows "\<exists>d'. dma_report idx (of_nat (length bs)) (fold dma_rx_byte bs d) = Some d' \<and> dma_rx_wf d' \<and>
    bufsz (s_config d') = bufsz (s_config d) \<and>
    dev_fifo d' = dma_received (bufsz (s_config d)) bs (dev_fifo d) \<and>
    s_notes d' = s_notes d @ (if s_rx_indicate d
      then [Rx_indicate (rt_dma_calc_recved_len (bufsz (s_config d)) (dev_fifo d'))] else [])"
proof -
  define sz where "sz = bufsz (s_config d)"
  obtain a f where rx: "s_rx d = Some (Rx_fifo a f)"
    using wf by (auto simp: dma_rx_wf_def split: option.splits serial_rx.splits)
  then have w: "dma_fifo_wf sz f" "sz \<le> 0x8000" "0 < hw_dma_left (s_hw d)" "hw_dma_left (s_hw d) \<le> sz"
    "unat (put_index f) + unat (hw_dma_left (s_hw d)) = unat sz"
    using wf by (simp_all add: dma_rx_wf_def Let_def sz_def)
  have f: "dev_fifo d = f" using rx by (simp add: dev_fifo_def)
  let ?n = "unat sz" and ?p = "unat (put_index f)"
  let ?g = "f\<lparr>rx_buffer := dma_store ?n ?p bs (rx_buffer f)\<rparr>" and ?len = "of_nat (length bs) :: rt_size_t"
  obtain left where st: "fold dma_rx_byte bs d =
      d\<lparr>s_rx := Some (Rx_fifo a ?g), s_hw := (s_hw d)\<lparr>hw_dma_left := left\<rparr>\<rparr>"
    "0 < left" "left \<le> sz" "(?p + length bs) mod ?n + unat left = ?n"
    using dma_rx_bytes_store [OF rx sz_def w(3-5), of bs] by auto
  have len: "length bs \<le> ?n" "?n \<le> 0x8000" using fit f w(2) by (simp_all add: sz_def word_le_nat_alt)
  then have ul: "unat ?len = length bs" by (simp add: unsigned_of_nat take_bit_nat_eq_self)
  then have l0: "?len \<noteq> 0" "unat ?len < 2 ^ 23" using ne len by (auto simp: word_unat_eq_iff)
  have ix: "unat idx = (?p + length bs) mod ?n"
    using idx st(1,4) unat_sub_if_size [of "ucast sz :: rt_size_t" "ucast left"]
    by (simp add: recv_total_index_def flip: sz_def) (simp add: unat_ucast_16_32)
  have e: "s_rx (fold dma_rx_byte bs d) = Some (Rx_fifo a ?g)" "bufsz (s_config (fold dma_rx_byte bs d)) = sz"
    "s_hw (fold dma_rx_byte bs d) = (s_hw d)\<lparr>hw_dma_left := left\<rparr>" "s_config (fold dma_rx_byte bs d) = s_config d"
    "s_notes (fold dma_rx_byte bs d) = s_notes d" "s_rx_indicate (fold dma_rx_byte bs d) = s_rx_indicate d"
    using st(1) by (simp_all add: sz_def)
  have z: "sz \<noteq> 0" using w(1) by (auto simp: dma_fifo_wf_def fifo_wf_def)
  obtain d' where d': "dma_report idx ?len (fold dma_rx_byte bs d) = Some d'"
    "s_rx d' = Some (Rx_fifo a (dma_received sz bs f))" "s_hw d' = (s_hw d)\<lparr>hw_dma_left := left, hw_last_index := idx\<rparr>"
    "s_config d' = s_config d" "s_notes d' = s_notes d @ (if s_rx_indicate d
      then [Rx_indicate (rt_dma_calc_recved_len sz (dev_fifo d'))] else [])"
    using dma_report_fifo [of "fold dma_rx_byte bs d" a ?g ?len idx] e l0 z unfolding e dma_received_def by auto
  have r: "dma_fifo_wf sz (dma_received sz bs f)" using dma_received_newest [OF w(1,2) len(1)] by simp
  have wf1: "dma_fifo_wf sz ?g" using w(1) by (simp add: dma_fifo_wf_def fifo_wf_def)
  have pi: "unat (put_index (dma_received sz bs f)) = (?p + length bs) mod ?n"
    using update_put_fields(1) [OF wf1 w(2) len(1)] by (simp add: dma_received_def)
  have "idx = ucast (put_index (dma_received sz bs f))" using ix pi by (simp add: word_unat_eq_iff unat_ucast_16_32)
  then have "dma_rx_wf d'" using d'(2-4) r w(2) st(2-4) pi by (simp add: dma_rx_wf_def flip: sz_def)
  then show ?thesis using d' f by (auto simp: dev_fifo_def simp flip: sz_def)
qed

lemma report_length:
  assumes wf: "dma_rx_wf d" and ne: "bs \<noteq> []"
    and fit: "unat (put_index (dev_fifo d)) + length bs \<le> unat (bufsz (s_config d))"
  defines "e \<equiv> fold dma_rx_byte bs d"
  shows "hw_last_index (s_hw e) = hw_last_index (s_hw d)" "s_config e = s_config d"
    "(if recv_total_index e = 0 then ucast (bufsz (s_config d)) else recv_total_index e) - hw_last_index (s_hw d) =
      of_nat (length bs)"
    "s_hw e = (s_hw d)\<lparr>hw_dma_left := hw_dma_left (s_hw e)\<rparr>"
    "unat (recv_total_index e) = (unat (put_index (dev_fifo d)) + length bs) mod unat (bufsz (s_config d))"
proof -
  define sz where "sz = bufsz (s_config d)"
  obtain a f where rx: "s_rx d = Some (Rx_fifo a f)"
    using wf by (auto simp: dma_rx_wf_def split: option.splits serial_rx.splits)
  then have w: "0 < hw_dma_left (s_hw d)" "hw_dma_left (s_hw d) \<le> sz" "hw_last_index (s_hw d) = ucast (put_index f)"
    "unat (put_index f) + unat (hw_dma_left (s_hw d)) = unat sz"
    using wf by (simp_all add: dma_rx_wf_def Let_def sz_def)
  let ?n = "unat sz" and ?p = "unat (put_index f)"
  obtain left where st: "e = d\<lparr>s_rx := Some (Rx_fifo a (f\<lparr>rx_buffer := dma_store ?n ?p bs (rx_buffer f)\<rparr>)),
        s_hw := (s_hw d)\<lparr>hw_dma_left := left\<rparr>\<rparr>" "(?p + length bs) mod ?n + unat left = ?n" "left \<le> sz"
    using dma_rx_bytes_store [OF rx sz_def w(1,2,4), of bs] by (auto simp: e_def)
  show "hw_last_index (s_hw e) = hw_last_index (s_hw d)" "s_config e = s_config d"
    "s_hw e = (s_hw d)\<lparr>hw_dma_left := hw_dma_left (s_hw e)\<rparr>" using st(1) by simp_all
  have fit': "?p + length bs \<le> ?n" using fit rx by (simp add: dev_fifo_def sz_def)
  have ul: "unat (of_nat (length bs) :: rt_size_t) = length bs"
  proof -
    have "length bs < 2 ^ 32" using fit' unsigned_less [of sz, where 'a = nat] by simp
    then show ?thesis by (simp add: unsigned_of_nat take_bit_nat_eq_self)
  qed
  have ix: "unat (recv_total_index e) = (?p + length bs) mod ?n"
    using st unat_sub_if_size [of "ucast sz :: rt_size_t" "ucast left"]
    by (simp add: recv_total_index_def flip: sz_def) (simp add: unat_ucast_16_32)
  then show "unat (recv_total_index e) = (unat (put_index (dev_fifo d)) + length bs) mod unat (bufsz (s_config d))"
    using rx by (simp add: dev_fifo_def sz_def)
  show "(if recv_total_index e = 0 then ucast (bufsz (s_config d)) else recv_total_index e) - hw_last_index (s_hw d) =
      of_nat (length bs)"
  proof (cases "?p + length bs = ?n")
    case True
    then have "recv_total_index e = 0" using ix by (simp add: word_unat_eq_iff)
    then show ?thesis using True ul unat_sub_if_size [of "ucast sz :: rt_size_t" "ucast (put_index f)"]
      unfolding w(3) by (simp add: word_unat_eq_iff unat_ucast_16_32 flip: sz_def)
  next
    case False
    then have u: "unat (recv_total_index e) = ?p + length bs" using ix fit' by simp
    then have "recv_total_index e \<noteq> 0" using ne by (auto simp: word_unat_eq_iff)
    then show ?thesis using u ul ne unat_sub_if_size [of "recv_total_index e" "ucast (put_index f)"]
      unfolding w(3) by (simp add: word_unat_eq_iff unat_ucast_16_32)
  qed
qed

text \<open>The two interrupts that report: half or all of the buffer is filled, or the line went idle.\<close>

lemma dma_isr_newest:
  assumes wf: "dma_rx_wf d" and ne: "bs \<noteq> []"
    and fit: "unat (put_index (dev_fifo d)) + length bs \<le> unat (bufsz (s_config d))"
  shows "\<exists>d'. dma_isr (fold dma_rx_byte bs d) = Some d' \<and> dma_rx_wf d' \<and>
    bufsz (s_config d') = bufsz (s_config d) \<and>
    fifo_contents (bufsz (s_config d)) (dev_fifo d') =
      newest (unat (bufsz (s_config d))) (fifo_contents (bufsz (s_config d)) (dev_fifo d) @ bs) \<and>
    s_notes d' = s_notes d @ (if s_rx_indicate d
      then [Rx_indicate (of_nat (length (fifo_contents (bufsz (s_config d)) (dev_fifo d'))))] else [])"
proof -
  let ?e = "fold dma_rx_byte bs d"
  note r = report_length [OF wf ne fit]
  have "dma_isr ?e = dma_report (recv_total_index ?e) (of_nat (length bs)) ?e"
    using r by (simp add: dma_isr_def Let_def if_distrib [of "\<lambda>x. x - _"] split: if_splits)
  moreover note dma_rx_wfD [OF wf]
  moreover obtain d' where "dma_report (recv_total_index ?e) (of_nat (length bs)) ?e = Some d'" "dma_rx_wf d'"
    "bufsz (s_config d') = bufsz (s_config d)" "dev_fifo d' = dma_received (bufsz (s_config d)) bs (dev_fifo d)"
    "s_notes d' = s_notes d @ (if s_rx_indicate d
      then [Rx_indicate (rt_dma_calc_recved_len (bufsz (s_config d)) (dev_fifo d'))] else [])"
    using dma_report_bytes [OF wf ne fit refl] by blast
  moreover have "rt_dma_calc_recved_len sz f = of_nat (length (fifo_contents sz f))" for sz f
    by (simp add: fifo_contents_def fifo_len_def rt_dma_calc_recved_len_def)
  ultimately show ?thesis
    using dma_received_newest [of "bufsz (s_config d)" "dev_fifo d" bs] fit by (intro exI [of _ d']) simp
qed

lemma uart_isr_idle_newest:
  assumes wf: "dma_rx_wf d" and ne: "bs \<noteq> []"
    and fit: "unat (put_index (dev_fifo d)) + length bs < unat (bufsz (s_config d))"
    and it: "\<not> hw_rxne_it (s_hw d)" "hw_dma_flag (s_hw d) \<noteq> 0" "hw_idle (s_hw d)" "hw_idle_it (s_hw d)"
  shows "\<exists>d'. uart_isr (fold dma_rx_byte bs d) = Some d' \<and> dma_rx_wf d' \<and>
    fifo_contents (bufsz (s_config d)) (dev_fifo d') =
      newest (unat (bufsz (s_config d))) (fifo_contents (bufsz (s_config d)) (dev_fifo d) @ bs)"
proof -
  let ?e = "fold dma_rx_byte bs d" and ?sz = "bufsz (s_config d)"
  have fit': "unat (put_index (dev_fifo d)) + length bs \<le> unat ?sz" using fit by simp
  note r = report_length [OF wf ne fit']
  note w = dma_rx_wfD [OF wf]
  obtain d' where d': "dma_report (recv_total_index ?e) (of_nat (length bs)) ?e = Some d'" "dma_rx_wf d'"
    "dev_fifo d' = dma_received ?sz bs (dev_fifo d)"
    using dma_report_bytes [OF wf ne fit' refl] by blast
  have nz: "recv_total_index ?e \<noteq> 0" using r(5) fit ne by (auto simp: word_unat_eq_iff)
  let ?d = "d'\<lparr>s_hw := (s_hw d')\<lparr>hw_idle := False\<rparr>\<rparr>"
  have e: "hw_rxne_it (s_hw ?e) = hw_rxne_it (s_hw d)" "hw_dma_flag (s_hw ?e) = hw_dma_flag (s_hw d)"
    "hw_idle (s_hw ?e) = hw_idle (s_hw d)" "hw_idle_it (s_hw ?e) = hw_idle_it (s_hw d)"
    by (subst r(4), simp)+
  have "uart_isr ?e = Some ?d" using it e r(1,3) nz d'(1) by (simp add: uart_isr_def Let_def)
  moreover have "dma_rx_wf ?d" using d'(2) by (simp add: dma_rx_wf_def cong: option.case_cong serial_rx.case_cong)
  moreover have "dev_fifo ?d = dev_fifo d'" by (simp add: dev_fifo_def)
  ultimately show ?thesis
    using dma_received_newest [OF w, of bs] fit d'(3) by (intro exI [of _ ?d]) simp
qed

section \<open>DMA transmission of the driver\<close>

definition tx_queue :: "'h serial_dev \<Rightarrow> rt_data_queue" where
  "tx_queue d = (case s_tx d of Some x \<Rightarrow> get_dq (tx_addr x) (s_k d) | None \<Rightarrow> get_dq 0 (s_k d))"

definition tx_items :: "'h serial_dev \<Rightarrow> rt_data_item list" where
  "tx_items d = dq_contents (tx_queue d)"

text \<open>What the HAL can send in one transfer: its size parameter has 16 bits.\<close>

definition sendable :: "rt_data_item \<Rightarrow> bool" where
  "sendable x \<longleftrightarrow> di_data_ptr x \<noteq> 0 \<and> di_data_size x \<noteq> 0 \<and> di_data_size x < 0x10000"

text \<open>A transfer runs exactly while the queue has items, and it sends the first of them.\<close>

definition dma_tx_wf :: "stm32_uart \<Rightarrow> bool" where
  "dma_tx_wf d \<longleftrightarrow> s_tx d = Some (Tx_dma (tx_addr (the (s_tx d))) (hw_tx_busy (s_hw d))) \<and> dq_wf (tx_queue d) \<and>
     (hw_tx_busy (s_hw d) \<longleftrightarrow> tx_items d \<noteq> []) \<and> list_all sendable (tx_items d)"

lemma no_notify_quiet [simp]: "dq_quiet no_notify q"
  by (simp add: dq_quiet_def no_notify_def)

lemma stm32_transmit_sendable:
  assumes "sendable x"
  shows "stm32_dma_transmit x tx_dma_dir h =
    (if hw_tx_busy h then h else h\<lparr>hw_tx_busy := True, hw_tx_dma := hw_tx_dma h @ [x]\<rparr>)"
proof -
  have u: "unat (di_data_size x) < 0x10000" using assms by (simp add: sendable_def word_less_nat_alt)
  then have c: "unat (ucast (di_data_size x) :: 16 word) = unat (di_data_size x)"
    by (simp add: unsigned_ucast_eq take_bit_nat_eq_self)
  then have "(ucast (ucast (di_data_size x) :: 16 word) :: 32 word) = di_data_size x"
    by (simp add: word_unat_eq_iff unat_ucast_16_32)
  moreover have "(ucast (di_data_size x) :: 16 word) \<noteq> 0"
    using c assms by (auto simp: word_unat_eq_iff sendable_def)
  ultimately show ?thesis using assms by (simp add: stm32_dma_transmit_def hal_transmit_dma_def sendable_def)
qed

lemma dma_tx_pushed:
  assumes "s_tx d = Some (Tx_dma q b)" "dq_wf (get_dq q (s_k d))" "dq_put_index (get_dq q (s_k d)) \<noteq> - 1"
    "length (dq_contents (get_dq q (s_k d))) \<noteq> unat (dq_size (get_dq q (s_k d)))"
  obtains k where "serial_dma_tx_push q x d = (d\<lparr>s_k := k\<rparr>, Returns RT_EOK)" "dq_wf (get_dq q k)"
    "dq_contents (get_dq q k) = dq_contents (get_dq q (s_k d)) @ [x]" "get_dq q k = dq_store x (get_dq q (s_k d))"
proof -
  let ?r = "rt_data_queue_push no_notify q x RT_WAITING_FOREVER (s_k d)"
  have "snd ?r = Returns RT_EOK \<and> dq_wf (get_dq q (fst ?r)) \<and>
      dq_contents (get_dq q (fst ?r)) = dq_contents (get_dq q (s_k d)) @ [x]"
    using dq_push_cases [OF assms(2) no_notify_quiet assms(3), of x] assms(4) by simp
  moreover have "get_dq q (fst ?r) = dq_store x (get_dq q (s_k d))"
    using dq_push_step(1) [OF no_notify_quiet, of q "s_k d"] dq_full_iff [OF assms(2)] assms(4) by simp
  ultimately show ?thesis by (intro that [of "fst ?r"]) (simp_all add: serial_dma_tx_push_def split_beta)
qed

text \<open>A write queues its data behind what is queued, and a transfer that ends starts the next one.\<close>

lemma serial_dma_tx_order:
  assumes wf: "dma_tx_wf d" and x: "sendable x" and mx: "dq_put_index (tx_queue d) \<noteq> - 1"
    and room: "length (tx_items d) < unat (dq_size (tx_queue d))"
  shows "\<exists>d'. serial_dma_tx stm32_uart_ops x d = (d', Returns (di_data_size x)) \<and> dma_tx_wf d' \<and>
    tx_items d' = tx_items d @ [x] \<and> tx_queue d' = dq_store x (tx_queue d) \<and>
    hw_tx_dma (s_hw d') @ tl (tx_items d') = hw_tx_dma (s_hw d) @ tl (tx_items d) @ [x]"
proof -
  obtain q where q: "s_tx d = Some (Tx_dma q (hw_tx_busy (s_hw d)))" using wf by (auto simp: dma_tx_wf_def)
  then have t: "tx_queue d = get_dq q (s_k d)" by (simp add: tx_queue_def)
  obtain k where k: "serial_dma_tx_push q x d = (d\<lparr>s_k := k\<rparr>, Returns RT_EOK)" "dq_wf (get_dq q k)"
    "dq_contents (get_dq q k) = tx_items d @ [x]" "get_dq q k = dq_store x (tx_queue d)"
    using dma_tx_pushed [OF q, of x] wf mx room t by (auto simp: dma_tx_wf_def tx_items_def)
  show ?thesis
    using q k wf x
    by (intro exI [of _ "serial_dma_tx_start stm32_uart_ops x (d\<lparr>s_k := k\<rparr>)"])
      (auto simp: serial_dma_tx_def serial_dma_tx_start_def stm32_transmit_sendable dma_tx_wf_def tx_items_def tx_queue_def)
qed

lemma hal_tx_complete_order:
  assumes wf: "dma_tx_wf d" and ne: "tx_items d \<noteq> []"
  shows "\<exists>d'. hal_tx_complete d = Some d' \<and> dma_tx_wf d' \<and> tx_items d' = tl (tx_items d) \<and>
    tx_queue d' = dq_drop (tx_queue d) \<and> hw_tx_dma (s_hw d') @ tl (tx_items d') = hw_tx_dma (s_hw d) @ tl (tx_items d) \<and>
    s_notes d' = s_notes d @ (if s_tx_complete d then [Tx_complete (Some (hd (tx_items d)))] else [])"
proof -
  obtain q where q: "s_tx d = Some (Tx_dma q (hw_tx_busy (s_hw d)))" using wf by (auto simp: dma_tx_wf_def)
  then have t: "tx_queue d = get_dq q (s_k d)" by (simp add: tx_queue_def)
  let ?r = "rt_data_queue_pop no_notify q 0 (s_k d)"
  define k where "k = fst ?r"
  have r: "?r = (k, Returns (RT_EOK, Some (hd (tx_items d))))" "dq_wf (get_dq q k)"
    "dq_contents (get_dq q k) = tl (tx_items d)"
    using dq_pop_cases [of q "s_k d" no_notify] wf ne t by (simp_all add: dma_tx_wf_def tx_items_def k_def prod_eq_iff)
  have g: "get_dq q k = dq_drop (get_dq q (s_k d))"
    using dq_pop_step(1) [OF no_notify_quiet, of q "s_k d" 0] dq_empty_iff [of "get_dq q (s_k d)"] wf ne t
    by (simp add: k_def dma_tx_wf_def tx_items_def)
  have p: "rt_data_queue_peak q k = (case tl (tx_items d) of [] \<Rightarrow> (- RT_EEMPTY, None) | x # _ \<Rightarrow> (RT_EOK, Some x))"
    using dq_pop_cases [OF r(2) no_notify_quiet] r(3) by (simp split: list.split)
  show ?thesis
  proof (cases "tl (tx_items d)")
    case Nil
    then show ?thesis using q r p g wf
      by (simp add: hal_tx_complete_def rt_hw_serial_isr_def isr_tx_dmadone_def Let_def s_note_def dma_tx_wf_def
          tx_items_def tx_queue_def)
  next
    case (Cons y ys)
    then have y: "sendable y" "list_all sendable ys" using wf by (cases "tx_items d"; simp add: dma_tx_wf_def)+
    then show ?thesis using Cons q r p g
      by (simp add: hal_tx_complete_def rt_hw_serial_isr_def isr_tx_dmadone_def Let_def s_note_def dma_tx_wf_def
          tx_items_def tx_queue_def stm32_transmit_sendable)
  qed
qed

text \<open>Any sequence of writes and ends of transfers.\<close>

datatype tx_op = Tx_write rt_data_item | Tx_end

fun tx_run :: "tx_op list \<Rightarrow> stm32_uart \<Rightarrow> stm32_uart option" where
  "tx_run [] d = Some d"
| "tx_run (Tx_write x # ops) d = tx_run ops (fst (serial_dma_tx stm32_uart_ops x d))"
| "tx_run (Tx_end # ops) d = (case hal_tx_complete d of None \<Rightarrow> None | Some d1 \<Rightarrow> tx_run ops d1)"

fun tx_written :: "tx_op list \<Rightarrow> rt_data_item list" where
  "tx_written [] = []"
| "tx_written (Tx_write x # ops) = x # tx_written ops"
| "tx_written (Tx_end # ops) = tx_written ops"

text \<open>There is room in a queue of \<open>n\<close> items for every write, and a transfer runs whenever one ends.\<close>

fun tx_fits :: "nat \<Rightarrow> nat \<Rightarrow> tx_op list \<Rightarrow> bool" where
  "tx_fits n i [] = True"
| "tx_fits n i (Tx_write x # ops) = (i < n \<and> sendable x \<and> tx_fits n (i + 1) ops)"
| "tx_fits n i (Tx_end # ops) = (0 < i \<and> tx_fits n (i - 1) ops)"

lemma dq_store_put: "dq_put_index (dq_store x q) = dq_put_index q + 1" "dq_size (dq_store x q) = dq_size q"
  "dq_put_index (dq_drop q) = dq_put_index q" "dq_size (dq_drop q) = dq_size q"
  by (simp_all add: dq_store_def dq_drop_def)

lemma tx_run_order:
  assumes "dma_tx_wf d" "tx_fits (unat (dq_size (tx_queue d))) (length (tx_items d)) ops"
    "unat (dq_put_index (tx_queue d)) + length (tx_written ops) < 0x10000"
  shows "\<exists>d'. tx_run ops d = Some d' \<and> dma_tx_wf d' \<and>
    hw_tx_dma (s_hw d') @ tl (tx_items d') = hw_tx_dma (s_hw d) @ tl (tx_items d) @ tx_written ops"
  using assms
proof (induction ops arbitrary: d)
  case (Cons op ops)
  show ?case
  proof (cases op)
    case (Tx_write x)
    then have x: "sendable x" "length (tx_items d) < unat (dq_size (tx_queue d))" using Cons.prems(2) by simp_all
    have p: "unat (dq_put_index (tx_queue d)) + 1 < 0x10000" using Cons.prems(3) Tx_write by simp
    then have mx: "dq_put_index (tx_queue d) \<noteq> - 1"
      by (auto simp: unsigned_minus_1_eq_mask mask_eq_exp_minus_1)
    obtain d1 where d1: "serial_dma_tx stm32_uart_ops x d = (d1, Returns (di_data_size x))" "dma_tx_wf d1"
      "tx_items d1 = tx_items d @ [x]" "tx_queue d1 = dq_store x (tx_queue d)"
      "hw_tx_dma (s_hw d1) @ tl (tx_items d1) = hw_tx_dma (s_hw d) @ tl (tx_items d) @ [x]"
      using serial_dma_tx_order [OF Cons.prems(1) x(1) mx x(2)] by blast
    have "unat (dq_put_index (tx_queue d) + 1) = unat (dq_put_index (tx_queue d)) + 1"
      using p by (simp add: unat_word_ariths)
    then show ?thesis using Cons.IH [of d1] d1 Cons.prems(2,3) Tx_write by (auto simp: dq_store_put)
  next
    case Tx_end
    then have "tx_items d \<noteq> []" using Cons.prems(2) by auto
    then obtain d1 where "hal_tx_complete d = Some d1" "dma_tx_wf d1" "tx_items d1 = tl (tx_items d)"
      "tx_queue d1 = dq_drop (tx_queue d)"
      "hw_tx_dma (s_hw d1) @ tl (tx_items d1) = hw_tx_dma (s_hw d) @ tl (tx_items d)"
      using hal_tx_complete_order [OF Cons.prems(1)] by blast
    then show ?thesis using Cons.IH [of d1] Cons.prems(2,3) Tx_end by (auto simp: dq_store_put)
  qed
qed simp

lemma index_not_last:
  assumes "unat (p :: 16 word) < 0xfffe"
  shows "p \<noteq> - 1" "p + 1 \<noteq> - 1"
proof -
  have m: "unat (- 1 :: 16 word) = 0xffff" by (simp add: unsigned_minus_1_eq_mask mask_eq_exp_minus_1)
  then show "p \<noteq> - 1" using assms by auto
  have "unat (p + 1) = unat p + 1" using assms by (simp add: unat_word_ariths)
  then have "unat (p + 1) \<noteq> unat (- 1 :: 16 word)" using assms m by simp
  then show "p + 1 \<noteq> - 1" by metis
qed

text \<open>
  Two threads on an idle device: the first has queued \<open>x\<close> and is preempted before it starts the transfer, the second
  writes \<open>y\<close>. The transfer sends \<open>y\<close>, and its end takes \<open>x\<close> off the queue: \<open>y\<close> is sent again and \<open>x\<close> never.
\<close>

lemma dma_tx_race:
  assumes wf: "dma_tx_wf d" and idle: "tx_items d = []" and xy: "sendable x" "sendable y"
    and q: "s_tx d = Some (Tx_dma q False)" "1 < unat (dq_size (tx_queue d))"
    "unat (dq_put_index (tx_queue d)) < 0xfffe"
  shows "\<exists>d1 d2 d3 d4. serial_dma_tx_push q x d = (d1, Returns RT_EOK) \<and>
    serial_dma_tx stm32_uart_ops y d1 = (d2, Returns (di_data_size y)) \<and>
    hal_tx_complete (serial_dma_tx_start stm32_uart_ops x d2) = Some d3 \<and> hal_tx_complete d3 = Some d4 \<and>
    hw_tx_dma (s_hw d4) = hw_tx_dma (s_hw d) @ [y, y] \<and> tx_items d4 = [] \<and> dma_tx_wf d4"
proof -
  have t: "tx_queue d = get_dq q (s_k d)" using q(1) by (simp add: tx_queue_def)
  have w: "dq_wf (get_dq q (s_k d))" "dq_contents (get_dq q (s_k d)) = []" "\<not> hw_tx_busy (s_hw d)"
    using wf idle t by (simp_all add: dma_tx_wf_def tx_items_def)
  have mx: "dq_put_index (get_dq q (s_k d)) \<noteq> - 1" "dq_put_index (get_dq q (s_k d)) + 1 \<noteq> - 1"
    using q(3) unfolding t by (rule index_not_last)+
  obtain k where k: "serial_dma_tx_push q x d = (d\<lparr>s_k := k\<rparr>, Returns RT_EOK)" "dq_wf (get_dq q k)"
    "dq_contents (get_dq q k) = [x]" "get_dq q k = dq_store x (get_dq q (s_k d))"
    using dma_tx_pushed [OF q(1) w(1) mx(1), of x] w(2) q(2) t by auto
  let ?d1 = "d\<lparr>s_k := k\<rparr>"
  have ps: "dq_put_index (get_dq q k) = dq_put_index (get_dq q (s_k d)) + 1" "dq_size (get_dq q k) = dq_size (tx_queue d)"
    using k(4) t by (simp_all add: dq_store_put)
  have "s_tx ?d1 = Some (Tx_dma q False)" "dq_wf (get_dq q (s_k ?d1))" "dq_put_index (get_dq q (s_k ?d1)) \<noteq> - 1"
    "length (dq_contents (get_dq q (s_k ?d1))) \<noteq> unat (dq_size (get_dq q (s_k ?d1)))"
    using q(1) k(2) mx(2) ps k(3) q(2) by auto
  then obtain k' where k0: "serial_dma_tx_push q y ?d1 = (?d1\<lparr>s_k := k'\<rparr>, Returns RT_EOK)" "dq_wf (get_dq q k')"
    "dq_contents (get_dq q k') = dq_contents (get_dq q (s_k ?d1)) @ [y]" by (rule dma_tx_pushed)
  then have k': "serial_dma_tx_push q y ?d1 = (d\<lparr>s_k := k'\<rparr>, Returns RT_EOK)" "dq_wf (get_dq q k')"
    "dq_contents (get_dq q k') = [x, y]" using k(3) by simp_all
  define d2 where "d2 = d\<lparr>s_k := k', s_tx := Some (Tx_dma q True),
    s_hw := (s_hw d)\<lparr>hw_tx_busy := True, hw_tx_dma := hw_tx_dma (s_hw d) @ [y]\<rparr>\<rparr>"
  have s2: "serial_dma_tx stm32_uart_ops y (d\<lparr>s_k := k\<rparr>) = (d2, Returns (di_data_size y))"
    using k'(1) q(1) w(3) xy(2)
    by (simp add: serial_dma_tx_def serial_dma_tx_start_def stm32_transmit_sendable d2_def)
  have s3: "serial_dma_tx_start stm32_uart_ops x d2 = d2" by (simp add: serial_dma_tx_start_def d2_def)
  have i2: "tx_items d2 = [x, y]" using k'(3) by (simp add: d2_def tx_items_def tx_queue_def)
  have w2: "dma_tx_wf d2"
    using k'(2) i2 xy by (simp add: dma_tx_wf_def) (simp add: d2_def tx_queue_def)
  obtain d3 where d3: "hal_tx_complete d2 = Some d3" "dma_tx_wf d3" "tx_items d3 = [y]" "hw_tx_dma (s_hw d3) = hw_tx_dma (s_hw d) @ [y, y]"
    using hal_tx_complete_order [OF w2] i2 by (auto simp: d2_def)
  obtain d4 where d4: "hal_tx_complete d3 = Some d4" "dma_tx_wf d4" "tx_items d4 = []" "hw_tx_dma (s_hw d4) = hw_tx_dma (s_hw d3)"
    using hal_tx_complete_order [OF d3(2)] d3(3) by auto
  show ?thesis using k(1) s2 s3 d3 d4 by (intro exI) (auto intro!: exI)
qed

text \<open>
  A write of 65536 bytes: the size that reaches the HAL is 0, no transfer starts, and none ever will, because the
  device counts as active.
\<close>

lemma dma_tx_64k_stuck:
  assumes wf: "dma_tx_wf d" and idle: "tx_items d = []" and x: "di_data_size x = 0x10000"
    and q: "dq_put_index (tx_queue d) \<noteq> - 1" "0 < unat (dq_size (tx_queue d))"
  shows "\<exists>d'. serial_dma_tx stm32_uart_ops x d = (d', Returns (di_data_size x)) \<and> s_hw d' = s_hw d \<and>
    (\<forall>y. s_hw (fst (serial_dma_tx stm32_uart_ops y d')) = s_hw d)"
proof -
  obtain q0 where q0: "s_tx d = Some (Tx_dma q0 False)" using wf idle by (auto simp: dma_tx_wf_def)
  then have t: "tx_queue d = get_dq q0 (s_k d)" by (simp add: tx_queue_def)
  obtain k where k: "serial_dma_tx_push q0 x d = (d\<lparr>s_k := k\<rparr>, Returns RT_EOK)"
    using dma_tx_pushed [OF q0, of x] wf q idle t by (auto simp: dma_tx_wf_def tx_items_def)
  have "(ucast (0x10000 :: 32 word) :: 16 word) = 0" by simp
  then have n: "stm32_dma_transmit x tx_dma_dir h = h" for h
    by (simp add: stm32_dma_transmit_def hal_transmit_dma_def x)
  let ?d = "d\<lparr>s_k := k, s_tx := Some (Tx_dma q0 True)\<rparr>"
  have "serial_dma_tx stm32_uart_ops x d = (?d, Returns (di_data_size x))"
    using q0 k by (simp add: serial_dma_tx_def serial_dma_tx_start_def n)
  moreover have "s_hw (fst (serial_dma_tx stm32_uart_ops y ?d)) = s_hw d" for y
    by (simp add: serial_dma_tx_def serial_dma_tx_start_def serial_dma_tx_push_def split_beta split: outcome.split)
  ultimately show ?thesis by (intro exI [of _ ?d]) simp
qed

section \<open>Opening and closing\<close>

lemma fresh_fifo_wf:
  assumes "0 < sz"
  shows "int_fifo_wf sz (fresh_fifo sz)" "dma_fifo_wf sz (fresh_fifo sz)" "fifo_contents sz (fresh_fifo sz) = []"
  using assms by (simp_all add: int_fifo_wf_def dma_fifo_wf_def fifo_wf_def fresh_fifo_def fifo_contents_def fifo_len_def
      serial_fifo_calc_recved_len_def)

lemma low_byte_no_mode:
  "\<not> oflag_set (w AND 0xff) RT_DEVICE_FLAG_INT_RX" "\<not> oflag_set (w AND 0xff) RT_DEVICE_FLAG_DMA_RX"
  "\<not> oflag_set (w AND 0xff) RT_DEVICE_FLAG_INT_TX" "\<not> oflag_set (w AND 0xff) RT_DEVICE_FLAG_DMA_TX"
  by (simp_all add: oflag_set_def rt_flag_defs and.assoc)

text \<open>An open in DMA mode starts the stream at the first cell; everything above on DMA reception applies.\<close>

lemma serial_open_dma_rx:
  assumes "s_rx d = None" "0 < bufsz (s_config d)" "bufsz (s_config d) \<le> 0x8000" "\<not> hw_rx_busy (s_hw d)"
    "hw_last_index (s_hw d) = 0" "oflag_set oflag RT_DEVICE_FLAG_DMA_RX" "\<not> oflag_set oflag RT_DEVICE_FLAG_INT_RX"
    "snd (kernel_malloc (sizeof_rx_fifo + unat (bufsz (s_config d))) (s_k d)) = Some a"
  shows "dma_rx_wf (serial_open_rx stm32_uart_ops oflag d)"
    "fifo_contents (bufsz (s_config d)) (dev_fifo (serial_open_rx stm32_uart_ops oflag d)) = []"
proof -
  obtain k where k: "kernel_malloc (sizeof_rx_fifo + unat (bufsz (s_config d))) (s_k d) = (k, Some a)"
    using assms(8) by (metis prod.collapse)
  have z: "bufsz (s_config d) \<noteq> 0" using assms(2) by auto
  note o = serial_open_rx_def s_alloc_def s_control_def stm32_control_def stm32_dma_config_def hal_receive_dma_def
    add_oflag_def Let_def
  show "dma_rx_wf (serial_open_rx stm32_uart_ops oflag d)"
    using assms k z fresh_fifo_wf(2) [OF assms(2)] by (simp add: o dma_rx_wf_def) (simp add: fresh_fifo_def)
  show "fifo_contents (bufsz (s_config d)) (dev_fifo (serial_open_rx stm32_uart_ops oflag d)) = []"
    using assms k z fresh_fifo_wf(3) [OF assms(2)] by (simp add: o dev_fifo_def)
qed

text \<open>
  The last close frees the buffer and forgets it, but the stream keeps running into it, and the next open in DMA mode
  fails an assertion because the handle is still receiving.
\<close>

lemma close_leaves_dma_running:
  assumes "s_rx d = Some r" "oflag_set (s_open_flag d) RT_DEVICE_FLAG_DMA_RX"
    "\<not> oflag_set (s_open_flag d) RT_DEVICE_FLAG_INT_RX" "s_ref_count d \<le> 1" "hw_rx_busy (s_hw d)"
    "hw_rx_target (s_hw d) = Some (rx_addr r)"
  shows "let d' = serial_close_rx stm32_uart_ops d
    in s_rx d' = None \<and> s_k d' = kernel_free (Some (rx_addr r)) (s_k d) \<and>
       hw_rx_busy (s_hw d') \<and> hw_rx_target (s_hw d') = Some (rx_addr r)"
  using assms by (simp add: serial_close_rx_def s_control_def stm32_control_def del_oflag_def Let_def)

lemma reopen_dma_asserts:
  assumes "s_rx d = None" "hw_rx_busy (s_hw d)" "0 < bufsz (s_config d)" "oflag_set oflag RT_DEVICE_FLAG_DMA_RX"
    "\<not> oflag_set oflag RT_DEVICE_FLAG_INT_RX"
  shows "kfault (s_k (serial_open_rx stm32_uart_ops oflag d))"
  using assms by (auto simp: serial_open_rx_def s_alloc_def s_control_def stm32_control_def stm32_dma_config_def
      hal_receive_dma_def add_oflag_def s_fault_def null_deref_def Let_def split: prod.split option.split)

text \<open>
  An open replaces the mode flags of the opens before it. After an open without a receive mode the buffer of an earlier
  one is neither read nor freed by the last close.
\<close>

lemma plain_open_orphans_buffer:
  assumes "s_rx d = Some r" "s_tx d = None" "oflag AND 0xff00 = 0"
    and d1: "d1 = fst (rt_serial_open ops oflag d)" and "s_ref_count d1 \<le> 1"
  shows "s_rx (fst (rt_serial_close ops d1)) = Some r" "s_k (fst (rt_serial_close ops d1)) = s_k d"
    "0 < sz \<Longrightarrow> s_rx (fst (rt_serial_read ops buf sz d1)) = Some r"
proof -
  have high: "oflag AND f = 0" if "0xff00 AND f = f" for f
    using assms(3) that by (metis and.assoc and.left_neutral and_zero_eq zero_and_eq)
  have fm: "0xff00 AND f = f" if "f \<in> {RT_DEVICE_FLAG_INT_RX, RT_DEVICE_FLAG_DMA_RX, RT_DEVICE_FLAG_INT_TX, RT_DEVICE_FLAG_DMA_TX}" for f
    using that by (auto simp: rt_flag_defs)
  have m: "\<not> oflag_set oflag RT_DEVICE_FLAG_INT_RX" "\<not> oflag_set oflag RT_DEVICE_FLAG_DMA_RX"
    "\<not> oflag_set oflag RT_DEVICE_FLAG_INT_TX" "\<not> oflag_set oflag RT_DEVICE_FLAG_DMA_TX"
    by (simp_all add: oflag_set_def high fm)
  have n: "\<not> oflag_set (s_open_flag d1) RT_DEVICE_FLAG_INT_RX" "\<not> oflag_set (s_open_flag d1) RT_DEVICE_FLAG_DMA_RX"
    "\<not> oflag_set (s_open_flag d1) RT_DEVICE_FLAG_INT_TX" "\<not> oflag_set (s_open_flag d1) RT_DEVICE_FLAG_DMA_TX"
    "s_rx d1 = Some r" "s_k d1 = s_k d" "s_tx d1 = None"
    using assms(1,2) m low_byte_no_mode [of oflag] unfolding d1
    by (auto simp: rt_serial_open_def serial_open_rx_def serial_open_tx_def add_oflag_def Let_def oflag_set_def
        bit.conj_disj_distrib2 rt_flag_defs)
  show "s_rx (fst (rt_serial_close ops d1)) = Some r" "s_k (fst (rt_serial_close ops d1)) = s_k d"
    using n assms(5) by (simp_all add: rt_serial_close_def serial_close_rx_def serial_close_tx_def)
  show "s_rx (fst (rt_serial_read ops buf sz d1)) = Some r" if "0 < sz"
    using n that by (simp add: rt_serial_read_def split_beta)
qed

text \<open>In interrupt mode a buffer of size 0, which the configuration allows, is written outside of its memory.\<close>

lemma int_rx_without_buffer: "rx_fault (isr_rx_byte 0 ch (fresh_fifo 0))"
  by (simp add: isr_rx_byte_def rx_touch_def fresh_fifo_def Let_def)

text \<open>The parity bit takes the place of a data bit: a frame of 8 bits with parity carries 7.\<close>

definition frame_data_bits :: "uart_init \<Rightarrow> nat" where
  "frame_data_bits i = (if init_wordlength9 i then 9 else 8) - (if init_parity i \<noteq> 0 then 1 else 0)"

lemma parity_takes_data_bit:
  assumes "data_bits cfg = 8" "parity cfg = 1 \<or> parity cfg = 2"
  shows "frame_data_bits (hw_init (fst (stm32_configure cfg h))) = 7"
  using assms by (auto simp: stm32_configure_def frame_data_bits_def)

end
