(* ===== verification/DfsPath.thy ===== *)
theory DfsPath
  imports Prelude
begin

text \<open>
  Path names in the virtual file system (\<^verbatim>\<open>rt-thread/components/dfs/src/dfs.c\<close>): \<^verbatim>\<open>dfs_normalize_path\<close> joins a
  directory and a file name and resolves empty, \<open>.\<close> and \<open>..\<close> components in place, with one pointer that reads and one
  that writes in the same buffer; and the lookup of the mounted file system of a path
  (\<^verbatim>\<open>dfs_fs.c\<close>). The routine is shown to compute a reference definition on lists of components.
\<close>

section \<open>Normalising a path\<close>

text \<open>The characters \<open>/\<close> and \<open>.\<close>; a text of the model has no terminator, a buffer has.\<close>

definition slash :: rt_uint8_t where "slash = 47"
definition dot :: rt_uint8_t where "dot = 46"

lemma chars_neq [simp]: "slash \<noteq> 0" "0 \<noteq> slash" "dot \<noteq> 0" "0 \<noteq> dot" "slash \<noteq> dot" "dot \<noteq> slash"
  by (simp_all add: slash_def dot_def)

definition byte_at :: "rt_uint8_t list \<Rightarrow> nat \<Rightarrow> rt_uint8_t" where
  "byte_at buf i = (if i < length buf then buf ! i else 0)"

function skip_slashes :: "rt_uint8_t list \<Rightarrow> nat \<Rightarrow> nat" where
  "skip_slashes buf i = (if i < length buf \<and> buf ! i = slash then skip_slashes buf (i + 1) else i)"
  by auto
termination
  by (relation "measure (\<lambda>(buf, i). length buf - i)") auto

declare skip_slashes.simps [simp del]

text \<open>The loop that copies up to the next slash or the end; the character that stopped it comes last.\<close>

function copy_component :: "rt_uint8_t list \<Rightarrow> nat \<Rightarrow> nat \<Rightarrow> rt_uint8_t list \<times> nat \<times> nat \<times> rt_uint8_t" where
  "copy_component buf src dst =
    (if src < length buf then
       let c = buf ! src
       in if c = 0 \<or> c = slash then (buf, src + 1, dst, c) else copy_component (buf[dst := c]) (src + 1) (dst + 1)
     else (buf, src, dst, 0))"
  by auto
termination
  by (relation "measure (\<lambda>(buf, src, dst). length buf - src)") auto

declare copy_component.simps [simp del]

fun back_up :: "rt_uint8_t list \<Rightarrow> nat \<Rightarrow> nat" where
  "back_up buf 0 = 0"
| "back_up buf (Suc d) = (if buf ! d \<noteq> slash then back_up buf d else Suc d)"

text \<open>\<^verbatim>\<open>up_one\<close>: back to the start of the component before; above the start of the buffer there is none.\<close>

definition up_one :: "rt_uint8_t list \<Rightarrow> nat \<Rightarrow> nat option" where
  "up_one buf dst = (if dst = 0 then None else Some (back_up buf (dst - 1)))"

datatype norm_result = Norm_done "rt_uint8_t list" nat | Norm_above | Norm_overrun

lemma skip_slashes_ge: "i \<le> skip_slashes buf i"
  by (induction buf i rule: skip_slashes.induct) (subst skip_slashes.simps, auto)

lemma copy_component_progress:
  "copy_component buf src dst = (buf', src', dst', c) \<Longrightarrow>
    length buf' = length buf \<and> src \<le> src' \<and> (src < length buf \<longrightarrow> src < src')"
proof (induction buf src dst rule: copy_component.induct)
  case (1 buf src dst)
  show ?case using 1(1) 1(2) by (subst (asm) (2) copy_component.simps) (auto simp: Let_def split: if_splits)
qed

function normalize_loop :: "rt_uint8_t list \<Rightarrow> nat \<Rightarrow> nat \<Rightarrow> norm_result" where
  "normalize_loop buf src dst =
    (let c = byte_at buf src; c1 = byte_at buf (src + 1); c2 = byte_at buf (src + 2) in
     if length buf \<le> src then Norm_overrun
     else if c = dot \<and> c1 = slash then normalize_loop buf (skip_slashes buf (src + 2)) dst
     else if c = dot \<and> c1 = dot \<and> c2 = 0 then
       (case up_one buf dst of None \<Rightarrow> Norm_above | Some d \<Rightarrow> normalize_loop buf (src + 2) d)
     else if c = dot \<and> c1 = dot \<and> c2 = slash then
       (case up_one buf dst of None \<Rightarrow> Norm_above | Some d \<Rightarrow> normalize_loop buf (skip_slashes buf (src + 3)) d)
     else
       (case copy_component buf (if c = dot \<and> c1 = 0 then src + 1 else src) dst of
          (buf2, src2, dst2, ch) \<Rightarrow>
            if ch = slash then normalize_loop (buf2[dst2 := slash]) (skip_slashes (buf2[dst2 := slash]) src2) (dst2 + 1)
            else Norm_done buf2 dst2))"
  by auto
termination
proof (relation "measure (\<lambda>(buf, src, dst). length buf - src)", goal_cases)
  case (2 buf src dst)
  then show ?case using skip_slashes_ge [of "src + 2" buf] by simp
next
  case (4 buf src dst)
  then show ?case using skip_slashes_ge [of "src + 3" buf] by simp
next
  case (5 buf src dst c c1 c2 buf2 y src2 ya dst2 ch)
  then have "copy_component buf (if c = dot \<and> c1 = 0 then src + 1 else src) dst = (buf2, src2, dst2, ch)" by simp
  then have "length buf2 = length buf" "src < src2"
    using copy_component_progress 5(4) by (force split: if_splits)+
  then show ?case using skip_slashes_ge [of src2 "buf2[dst2 := slash]"] 5(4) by simp
qed auto

declare normalize_loop.simps [simp del]

text \<open>
  The last steps. When nothing is left, \<^verbatim>\<open>dst\<close> points in front of the buffer and the byte there is read; the truth value
  says so. (It belongs to the header of the heap and is assumed not to be a slash.)
\<close>

definition normalize_finish :: "rt_uint8_t list \<Rightarrow> nat \<Rightarrow> rt_uint8_t list \<times> bool" where
  "normalize_finish buf dst =
    (let b1 = buf[dst := 0];
         b2 = (if dst \<noteq> 0 \<and> dst - 1 \<noteq> 0 \<and> b1 ! (dst - 1) = slash then b1[dst - 1 := 0] else b1);
         b3 = (if b2 ! 0 = 0 then (b2[0 := slash])[1 := 0] else b2)
     in (takeWhile (\<lambda>c. c \<noteq> 0) b3, dst = 0))"

text \<open>\<open>mem\<close>: the allocation of the buffer succeeds. A directory of \<open>None\<close> is the working directory \<open>wd\<close>.\<close>

definition dfs_normalize_path ::
    "bool \<Rightarrow> rt_uint8_t list \<Rightarrow> rt_uint8_t list option \<Rightarrow> rt_uint8_t list \<Rightarrow> (rt_uint8_t list \<times> bool) option" where
  "dfs_normalize_path mem wd directory filename =
    (let dir = (case directory of None \<Rightarrow> wd | Some x \<Rightarrow> x);
         full = (if byte_at filename 0 \<noteq> slash then dir @ slash # filename else filename)
     in if \<not> mem then None
        else case normalize_loop (full @ [0]) 0 0 of
               Norm_done buf dst \<Rightarrow> Some (normalize_finish buf dst)
             | _ \<Rightarrow> None)"

definition dfs_subdir :: "rt_uint8_t list \<Rightarrow> rt_uint8_t list \<Rightarrow> nat option" where
  "dfs_subdir directory filename =
    (if length directory = length filename then None
     else
       let i = length directory
       in Some (if byte_at filename i \<noteq> slash \<and> i \<noteq> 0 then i - 1 else i))"

section \<open>The same on texts\<close>

text \<open>What is left to read, and what has been written.\<close>

definition strip_slashes :: "rt_uint8_t list \<Rightarrow> rt_uint8_t list" where
  "strip_slashes = dropWhile (\<lambda>c. c = slash)"

definition up_text :: "rt_uint8_t list \<Rightarrow> rt_uint8_t list" where
  "up_text out = rev (dropWhile (\<lambda>c. c \<noteq> slash) (tl (rev out)))"

lemma length_strip: "length (strip_slashes xs) \<le> length xs"
  by (simp add: strip_slashes_def length_dropWhile_le)

lemma dropWhile_slash:
  assumes "dropWhile (\<lambda>c. c \<noteq> slash) r \<noteq> []"
  obtains b where "dropWhile (\<lambda>c. c \<noteq> slash) r = slash # b"
  using hd_dropWhile [OF assms] assms by (cases "dropWhile (\<lambda>c. c \<noteq> slash) r") auto

function norm_text :: "rt_uint8_t list \<Rightarrow> rt_uint8_t list \<Rightarrow> rt_uint8_t list option" where
  "norm_text rest out =
    (if take 2 rest = [dot, slash] then norm_text (strip_slashes (drop 2 rest)) out
     else if rest = [dot, dot] then (if out = [] then None else Some (up_text out))
     else if take 3 rest = [dot, dot, slash] then
       (if out = [] then None else norm_text (strip_slashes (drop 3 rest)) (up_text out))
     else
       (let r = (if rest = [dot] then [] else rest);
            a = takeWhile (\<lambda>c. c \<noteq> slash) r; b = dropWhile (\<lambda>c. c \<noteq> slash) r
        in if b = [] then Some (out @ a) else norm_text (strip_slashes b) (out @ a @ [slash])))"
  by auto
termination
proof (relation "measure (\<lambda>(rest, out). length rest)", goal_cases)
  case (2 rest out)
  then show ?case using length_strip [of "drop 2 rest"] by (cases rest) auto
next
  case (3 rest out)
  then show ?case using length_strip [of "drop 3 rest"] by (cases rest) auto
next
  case (4 rest out r a b)
  then obtain b' where b: "b = slash # b'" using dropWhile_slash [of r] by metis
  have "length (strip_slashes b) \<le> length b'" using length_strip [of b'] b by (simp add: strip_slashes_def)
  moreover have "length b \<le> length rest" using 4 by (simp add: length_dropWhile_le)
  ultimately show ?case using b by simp
qed simp

declare norm_text.simps [simp del]

text \<open>The state of the loop: the rest of the input and its terminator stand at \<open>src\<close>, behind what was written.\<close>

definition norm_view :: "rt_uint8_t list \<Rightarrow> nat \<Rightarrow> nat \<Rightarrow> rt_uint8_t list \<Rightarrow> rt_uint8_t list \<Rightarrow> bool" where
  "norm_view buf src dst rest out \<longleftrightarrow>
    drop src buf = rest @ [0] \<and> 0 \<notin> set rest \<and> dst \<le> src \<and> take dst buf = out \<and> length out = dst"

lemma norm_view_bytes:
  assumes "norm_view buf src dst rest out"
  shows "src + length rest + 1 = length buf" "byte_at buf (src + k) = (if k < length rest then rest ! k else 0)"
proof -
  have d: "drop src buf = rest @ [0]" using assms by (simp add: norm_view_def)
  then have "length (drop src buf) = length rest + 1" by simp
  then show l: "src + length rest + 1 = length buf" by simp
  show "byte_at buf (src + k) = (if k < length rest then rest ! k else 0)"
  proof (cases "src + k < length buf")
    case True
    then have "buf ! (src + k) = (rest @ [0]) ! k" using d nth_drop [of src buf k] by simp
    then show ?thesis using True l by (auto simp: byte_at_def nth_append)
  next
    case False
    then show ?thesis using l by (simp add: byte_at_def)
  qed
qed

lemma drop_ConsD:
  assumes "drop i buf = x # ys"
  shows "i < length buf" "buf ! i = x" "drop (Suc i) buf = ys"
proof -
  show "i < length buf" using assms by (rule_tac ccontr) simp
  then show "buf ! i = x" "drop (Suc i) buf = ys" using assms Cons_nth_drop_Suc [of i buf] by simp_all
qed

lemma skip_slashes_strip:
  assumes "drop i buf = xs @ [0]"
  shows "drop (skip_slashes buf i) buf = strip_slashes xs @ [0] \<and> skip_slashes buf i + length (strip_slashes xs) = i + length xs"
  using assms
proof (induction xs arbitrary: i)
  case Nil
  then show ?case using drop_ConsD [of i buf 0 "[]"] by (subst (1 2) skip_slashes.simps) (simp add: strip_slashes_def)
next
  case (Cons x xs)
  note d = drop_ConsD [of i buf x "xs @ [0]"]
  show ?case
  proof (cases "x = slash")
    case True
    have "skip_slashes buf i = skip_slashes buf (Suc i)" using d Cons.prems True by (subst skip_slashes.simps) simp
    then show ?thesis using Cons.IH [of "Suc i"] d Cons.prems True by (simp add: strip_slashes_def)
  next
    case False
    then have "skip_slashes buf i = i" using d Cons.prems by (subst skip_slashes.simps) simp
    then show ?thesis using Cons.prems False by (simp add: strip_slashes_def)
  qed
qed

lemma copy_component_text:
  assumes "drop src buf = a @ z # ys" "0 \<notin> set a" "slash \<notin> set a" "z = 0 \<or> z = slash" "dst \<le> src"
  shows "\<exists>buf'. copy_component buf src dst = (buf', src + length a + 1, dst + length a, z) \<and>
    take (dst + length a) buf' = take dst buf @ a \<and> drop (src + length a) buf' = z # ys \<and> length buf' = length buf"
  using assms
proof (induction a arbitrary: buf src dst)
  case Nil
  then show ?case using drop_ConsD [of src buf z ys] by (subst copy_component.simps) (simp add: Let_def)
next
  case (Cons x a)
  note d = drop_ConsD [of src buf x "a @ z # ys"]
  have s: "copy_component buf src dst = copy_component (buf[dst := x]) (Suc src) (Suc dst)"
    using d Cons.prems by (subst copy_component.simps) (auto simp: Let_def)
  have "drop (Suc src) (buf[dst := x]) = a @ z # ys" using d Cons.prems by (simp add: drop_update_swap)
  then obtain buf' where b: "copy_component (buf[dst := x]) (Suc src) (Suc dst) = (buf', Suc src + length a + 1, Suc dst + length a, z)"
    "take (Suc dst + length a) buf' = take (Suc dst) (buf[dst := x]) @ a" "drop (Suc src + length a) buf' = z # ys"
    "length buf' = length buf"
    using Cons.IH [of "Suc src" "buf[dst := x]" "Suc dst"] Cons.prems by auto
  have "take (Suc dst) (buf[dst := x]) = take dst buf @ [x]"
    using d(1) Cons.prems by (simp add: take_Suc_conv_app_nth)
  then show ?case using s b by (intro exI [of _ buf']) simp
qed

lemma back_up_text:
  assumes "d \<le> length buf"
  shows "take (back_up buf d) buf = rev (dropWhile (\<lambda>c. c \<noteq> slash) (rev (take d buf)))" "back_up buf d \<le> d"
  using assms by (induction d) (auto simp: take_Suc_conv_app_nth)

lemma up_one_text:
  assumes "take dst buf = out" "length out = dst" "dst \<le> length buf"
  shows "up_one buf dst = (if out = [] then None else Some (length (up_text out)))"
    "out \<noteq> [] \<Longrightarrow> take (length (up_text out)) buf = up_text out \<and> length (up_text out) \<le> dst"
proof -
  have u: "up_text out = take (back_up buf (dst - 1)) buf" if "out \<noteq> []"
  proof -
    have "tl (rev out) = rev (take (dst - 1) buf)"
      using assms that by (metis butlast_rev butlast_take rev_rev_ident)
    then show ?thesis using back_up_text(1) [of "dst - 1" buf] assms(3) by (simp add: up_text_def)
  qed
  have l: "back_up buf (dst - 1) \<le> dst - 1" using back_up_text(2) [of "dst - 1" buf] assms(3) by simp
  then have n: "length (up_text out) = back_up buf (dst - 1)" if "out \<noteq> []" using u [OF that] assms(3) by simp
  show "up_one buf dst = (if out = [] then None else Some (length (up_text out)))"
    using n assms(2) by (auto simp: up_one_def)
  show "take (length (up_text out)) buf = up_text out \<and> length (up_text out) \<le> dst" if "out \<noteq> []"
    using n [OF that] u [OF that] l by simp
qed

text \<open>The in-place loop computes \<open>norm_text\<close>: writing never overtakes reading, and no access leaves the buffer.\<close>

definition norm_post :: "rt_uint8_t list \<Rightarrow> rt_uint8_t list option \<Rightarrow> norm_result \<Rightarrow> bool" where
  "norm_post buf r res \<longleftrightarrow>
    (case r of
       None \<Rightarrow> res = Norm_above
     | Some out \<Rightarrow> (\<exists>buf'. res = Norm_done buf' (length out) \<and> take (length out) buf' = out \<and> length buf' = length buf \<and>
         length out < length buf))"

lemma norm_view_skip:
  assumes "norm_view buf src dst rest out" "k \<le> length rest"
  shows "norm_view buf (skip_slashes buf (src + k)) dst (strip_slashes (drop k rest)) out"
proof -
  have d: "drop src buf = rest @ [0]" using assms(1) by (simp add: norm_view_def)
  moreover have "drop (src + k) buf = drop k (drop src buf)" by (simp add: add.commute)
  ultimately have "drop (src + k) buf = drop k rest @ [0]" using assms(2) by simp
  moreover have "set (strip_slashes (drop k rest)) \<subseteq> set rest"
    by (auto simp: strip_slashes_def dest!: set_dropWhileD in_set_dropD)
  ultimately show ?thesis
    using assms skip_slashes_strip [of "src + k" buf "drop k rest"] skip_slashes_ge [of "src + k" buf]
    by (auto simp: norm_view_def)
qed

lemma norm_view_up:
  assumes v: "norm_view buf src dst rest out" and "out \<noteq> []"
  shows "up_one buf dst = Some (length (up_text out))" "norm_view buf src (length (up_text out)) rest (up_text out)"
proof -
  have "dst \<le> length buf" using norm_view_bytes(1) [OF v] v by (simp add: norm_view_def)
  then show "up_one buf dst = Some (length (up_text out))" "norm_view buf src (length (up_text out)) rest (up_text out)"
    using up_one_text [of dst buf out] assms by (auto simp: norm_view_def)
qed

lemma normalize_loop_end:
  assumes "norm_view buf src dst [] out"
  shows "normalize_loop buf src dst = Norm_done buf dst"
  using assms norm_view_bytes(2) [OF assms, of 0] norm_view_bytes(1) [OF assms]
  by (subst normalize_loop.simps, subst copy_component.simps) (simp add: byte_at_def)

lemma norm_post_end:
  assumes "norm_view buf src dst [] out"
  shows "norm_post buf (Some out) (normalize_loop buf src dst)"
  using normalize_loop_end [OF assms] assms norm_view_bytes(1) [OF assms] by (simp add: norm_post_def norm_view_def)

lemma norm_view_copy:
  assumes v: "norm_view buf src dst r out" and b: "dropWhile (\<lambda>c. c \<noteq> slash) r = slash # b"
    and a: "a = takeWhile (\<lambda>c. c \<noteq> slash) r"
  shows "\<exists>buf2 src2 dst2. copy_component buf src dst = (buf2, src2, dst2, slash) \<and> length buf2 = length buf \<and>
    norm_view (buf2[dst2 := slash]) (skip_slashes (buf2[dst2 := slash]) src2) (dst2 + 1) (strip_slashes (slash # b))
      (out @ a @ [slash])"
proof -
  have r: "r = a @ slash # b" using a b takeWhile_dropWhile_id [of "\<lambda>c. c \<noteq> slash" r] by simp
  have z: "0 \<notin> set r" "dst \<le> src" "take dst buf = out" "length out = dst" "drop src buf = a @ slash # b @ [0]"
    using v r by (simp_all add: norm_view_def)
  have sl: "slash \<notin> set a" using a by (auto dest: set_takeWhileD)
  obtain buf2 where c: "copy_component buf src dst = (buf2, src + length a + 1, dst + length a, slash)"
    "take (dst + length a) buf2 = out @ a" "drop (src + length a) buf2 = slash # b @ [0]" "length buf2 = length buf"
    using copy_component_text [OF z(5) _ sl _ z(2)] z(1,3) r by auto
  let ?b = "buf2[dst + length a := slash]" and ?s = "src + length a + 1"
  have lt: "dst + length a < length buf2" using drop_ConsD(1) [OF c(3)] z(2) by simp
  have d: "drop ?s ?b = b @ [0]" using drop_ConsD(3) [OF c(3)] z(2) by (simp add: drop_update_swap)
  have "take (dst + length a + 1) ?b = out @ a @ [slash]"
    using lt c(2) by (simp add: take_Suc_conv_app_nth)
  then have "norm_view ?b ?s (dst + length a + 1) b (out @ a @ [slash])"
    using d z r by (simp add: norm_view_def)
  then have "norm_view ?b (skip_slashes ?b ?s) (dst + length a + 1) (strip_slashes b) (out @ a @ [slash])"
    using norm_view_skip [of ?b ?s _ b _ 0] by simp
  then show ?thesis using c by (intro exI) (auto simp: strip_slashes_def)
qed

lemma norm_view_copy_end:
  assumes v: "norm_view buf src dst r out" and b: "dropWhile (\<lambda>c. c \<noteq> slash) r = []"
  shows "\<exists>buf2 src2. copy_component buf src dst = (buf2, src2, dst + length r, 0) \<and>
    take (dst + length r) buf2 = out @ r \<and> length buf2 = length buf \<and> dst + length r < length buf"
proof -
  have sl: "slash \<notin> set r" using b by (simp add: dropWhile_eq_Nil_conv) blast
  have "drop src buf = r @ 0 # []" "0 \<notin> set r" "dst \<le> src" "take dst buf = out" using v by (simp_all add: norm_view_def)
  then show ?thesis
    using copy_component_text [of src buf r 0 "[]" dst] sl norm_view_bytes(1) [OF v] by auto
qed

lemma normalize_loop_text:
  assumes "norm_view buf src dst rest out"
  shows "norm_post buf (norm_text rest out) (normalize_loop buf src dst)"
  using assms
proof (induction rest out arbitrary: buf src dst rule: norm_text.induct)
  case (1 rest out)
  note v = 1(4)
  have z: "0 \<notin> set rest" using v by (simp add: norm_view_def)
  have len: "\<not> length buf \<le> src" using norm_view_bytes(1) [OF v] by simp
  have c: "byte_at buf src = (if 0 < length rest then rest ! 0 else 0)"
    "byte_at buf (src + 1) = (if 1 < length rest then rest ! 1 else 0)"
    "byte_at buf (src + 2) = (if 2 < length rest then rest ! 2 else 0)"
    using norm_view_bytes(2) [OF v, of 0] norm_view_bytes(2) [OF v, of 1] norm_view_bytes(2) [OF v, of 2] by simp_all
  consider (A) r where "rest = dot # slash # r" | (B) "rest = [dot, dot]" | (C) r where "rest = dot # dot # slash # r"
    | (D) "take 2 rest \<noteq> [dot, slash]" "rest \<noteq> [dot, dot]" "take 3 rest \<noteq> [dot, dot, slash]"
    by (cases rest; cases "tl rest"; cases "tl (tl rest)") (auto simp: numeral_2_eq_2 numeral_3_eq_3)
  then show ?case
  proof cases
    case A
    then have "normalize_loop buf src dst = normalize_loop buf (skip_slashes buf (src + 2)) dst"
      using len c by (subst normalize_loop.simps) (simp add: Let_def)
    moreover have "norm_text rest out = norm_text (strip_slashes (drop 2 rest)) out"
      using A by (subst norm_text.simps) simp
    ultimately show ?thesis using 1(1) [OF _ norm_view_skip [OF v, of 2]] A by simp
  next
    case B
    have t: "norm_text rest out = (if out = [] then None else Some (up_text out))" using B by (subst norm_text.simps) simp
    have l: "normalize_loop buf src dst =
        (case up_one buf dst of None \<Rightarrow> Norm_above | Some d \<Rightarrow> normalize_loop buf (src + 2) d)"
      using len c B by (subst normalize_loop.simps) (simp add: Let_def)
    show ?thesis
    proof (cases "out = []")
      case True
      then show ?thesis using l t v by (simp add: up_one_def norm_view_def norm_post_def)
    next
      case False
      note u = norm_view_up [OF v False]
      have "norm_view buf (src + 2) (length (up_text out)) [] (up_text out)"
        using u(2) B norm_view_bytes(1) [OF u(2)] by (auto simp: norm_view_def numeral_2_eq_2 dest!: drop_ConsD(3))
      then show ?thesis using norm_post_end l t False u(1) by simp
    qed
  next
    case C
    have t: "norm_text rest out = (if out = [] then None else norm_text (strip_slashes (drop 3 rest)) (up_text out))"
      using C by (subst norm_text.simps) (simp add: numeral_2_eq_2 numeral_3_eq_3)
    have l: "normalize_loop buf src dst =
        (case up_one buf dst of None \<Rightarrow> Norm_above | Some d \<Rightarrow> normalize_loop buf (skip_slashes buf (src + 3)) d)"
      using len c C by (subst normalize_loop.simps) (simp add: Let_def)
    show ?thesis
    proof (cases "out = []")
      case True
      then show ?thesis using l t v by (simp add: up_one_def norm_view_def norm_post_def)
    next
      case False
      note u = norm_view_up [OF v False]
      then show ?thesis
        using 1(2) [OF _ _ _ False norm_view_skip [OF u(2), of 3]] l t False C
        by (simp add: numeral_2_eq_2 numeral_3_eq_3)
    qed
  next
    case D
    let ?c = "byte_at buf src" and ?c1 = "byte_at buf (src + 1)" and ?c2 = "byte_at buf (src + 2)"
    let ?r = "if rest = [dot] then [] else rest" and ?s = "if rest = [dot] then src + 1 else src"
    have n: "\<not> (?c = dot \<and> ?c1 = slash)" "\<not> (?c = dot \<and> ?c1 = dot \<and> ?c2 = 0)"
      "\<not> (?c = dot \<and> ?c1 = dot \<and> ?c2 = slash)" "?c = dot \<and> ?c1 = 0 \<longleftrightarrow> rest = [dot]"
      using D z unfolding c
      by (cases rest; cases "tl rest"; cases "tl (tl rest)"; auto simp: numeral_2_eq_2 numeral_3_eq_3)+
    have l: "normalize_loop buf src dst =
        (case copy_component buf ?s dst of (buf2, src2, dst2, ch) \<Rightarrow>
           if ch = slash then normalize_loop (buf2[dst2 := slash]) (skip_slashes (buf2[dst2 := slash]) src2) (dst2 + 1)
           else Norm_done buf2 dst2)"
      using len by (subst normalize_loop.simps) (simp only: Let_def n if_False)
    have v': "norm_view buf ?s dst ?r out"
      using v by (auto simp: norm_view_def dest: drop_ConsD(3))
    show ?thesis
    proof (cases "dropWhile (\<lambda>c. c \<noteq> slash) ?r = []")
      case True
      have "takeWhile (\<lambda>c. c \<noteq> slash) ?r = ?r" using True takeWhile_dropWhile_id [of "\<lambda>c. c \<noteq> slash" ?r] by simp
      then have "norm_text rest out = Some (out @ ?r)" using D True by (subst norm_text.simps) (simp only: Let_def if_False if_True simp_thms)
      then show ?thesis
        using norm_view_copy_end [OF v' True] l v' by (auto simp: norm_post_def norm_view_def)
    next
      case False
      let ?b = "dropWhile (\<lambda>c. c \<noteq> slash) ?r" and ?a = "takeWhile (\<lambda>c. c \<noteq> slash) ?r"
      obtain b where b: "?b = slash # b" using dropWhile_slash [OF False] by metis
      obtain buf2 src2 dst2 where k: "copy_component buf ?s dst = (buf2, src2, dst2, slash)" "length buf2 = length buf"
        "norm_view (buf2[dst2 := slash]) (skip_slashes (buf2[dst2 := slash]) src2) (dst2 + 1) (strip_slashes ?b)
          (out @ ?a @ [slash])"
        using norm_view_copy [OF v' b refl] b by auto
      have "norm_text rest out = norm_text (strip_slashes ?b) (out @ ?a @ [slash])"
        using D False by (subst norm_text.simps) (simp only: Let_def if_False simp_thms)
      then show ?thesis
        using 1(3) [OF D refl refl refl False k(3)] l k(1,2) by (simp add: norm_post_def cong: option.case_cong)
    qed
  qed
qed

section \<open>The reference: components\<close>

text \<open>
  The components of a text that does not start with a slash; repeated slashes count as one, and a slash at the end
  gives an empty last component. \<open>resolve\<close> drops empty and \<open>.\<close> components, and lets \<open>..\<close> take back the one before; there is
  no result when there is none to take back.
\<close>

function path_comps :: "rt_uint8_t list \<Rightarrow> rt_uint8_t list list" where
  "path_comps p =
    (let a = takeWhile (\<lambda>c. c \<noteq> slash) p; b = dropWhile (\<lambda>c. c \<noteq> slash) p
     in if b = [] then [a] else a # path_comps (strip_slashes b))"
  by auto
termination
proof (relation "measure length", goal_cases)
  case (2 p a b)
  then obtain b' where b: "b = slash # b'" using dropWhile_slash [of p] by metis
  have "length (strip_slashes b) \<le> length b'" using length_strip [of b'] b by (simp add: strip_slashes_def)
  moreover have "length b \<le> length p" using 2 by (simp add: length_dropWhile_le)
  ultimately show ?case using b by simp
qed simp

declare path_comps.simps [simp del]

fun resolve :: "rt_uint8_t list list \<Rightarrow> rt_uint8_t list list \<Rightarrow> rt_uint8_t list list option" where
  "resolve segs [] = Some segs"
| "resolve segs (c # cs) =
    (if c = [dot, dot] then (if segs = [] then None else resolve (butlast segs) cs)
     else if c = [] \<or> c = [dot] then resolve segs cs
     else resolve (segs @ [c]) cs)"

fun join_segs :: "rt_uint8_t list list \<Rightarrow> rt_uint8_t list" where
  "join_segs [] = []"
| "join_segs [s] = s"
| "join_segs (s # ss) = s @ slash # join_segs ss"

definition render :: "rt_uint8_t list list \<Rightarrow> rt_uint8_t list" where
  "render segs = (if segs = [] \<or> segs = [[]] then [slash] else join_segs segs)"

definition flat :: "rt_uint8_t list list \<Rightarrow> rt_uint8_t list" where
  "flat segs = concat (map (\<lambda>s. s @ [slash]) segs)"

definition finish_text :: "rt_uint8_t list \<Rightarrow> rt_uint8_t list" where
  "finish_text t = (if t = [] then [slash] else if 2 \<le> length t \<and> last t = slash then butlast t else t)"

lemma flat_join: "segs \<noteq> [] \<Longrightarrow> flat segs = join_segs segs @ [slash]"
  by (induction segs rule: join_segs.induct) (auto simp: flat_def)

lemma flat_snoc: "flat (segs @ [c]) = flat segs @ c @ [slash]"
  by (simp add: flat_def)

lemma flat_empty [simp]: "flat segs = [] \<longleftrightarrow> segs = []"
  by (cases segs) (auto simp: flat_def)

lemma join_snoc: "flat segs @ c = join_segs (segs @ [c])"
  using flat_join [of "segs @ [c]"] by (simp add: flat_snoc)

lemma finish_flat: "finish_text (flat segs) = render segs"
proof (cases "segs = []")
  case False
  then have f: "flat segs = join_segs segs @ [slash]" by (rule flat_join)
  show ?thesis
  proof (cases "join_segs segs = []")
    case True
    then have "segs = [[]]" using False by (cases segs rule: join_segs.cases) auto
    then show ?thesis by (simp add: finish_text_def render_def flat_def)
  next
    case n: False
    then have "segs \<noteq> [[]]" by auto
    then show ?thesis using f n False by (cases "join_segs segs") (auto simp: finish_text_def render_def)
  qed
qed (simp add: finish_text_def render_def flat_def)

lemma finish_last:
  assumes "c \<noteq> []" "slash \<notin> set c"
  shows "finish_text (flat segs @ c) = render (segs @ [c])"
proof -
  have "last (flat segs @ c) \<noteq> slash" using assms by (metis last_appendR last_in_set)
  then show ?thesis using assms join_snoc [of segs c] by (auto simp: finish_text_def render_def)
qed

lemma up_text_flat:
  assumes "segs \<noteq> []" "\<forall>s\<in>set segs. slash \<notin> set s"
  shows "up_text (flat segs) = flat (butlast segs)"
proof -
  obtain ss c where s: "segs = ss @ [c]" using assms(1) by (metis rev_exhaust)
  then have c: "slash \<notin> set c" using assms(2) by simp
  have "dropWhile (\<lambda>x. x \<noteq> slash) (rev c @ rev (flat ss)) = dropWhile (\<lambda>x. x \<noteq> slash) (rev (flat ss))"
    using c by (intro dropWhile_append2) auto
  also have "\<dots> = rev (flat ss)" using flat_join [of ss] by (cases "ss = []") (simp_all add: flat_def)
  finally show ?thesis by (simp add: s flat_snoc up_text_def)
qed

lemma strip_no_slash: "strip_slashes xs = [] \<or> hd (strip_slashes xs) \<noteq> slash"
  using hd_dropWhile [of "\<lambda>c. c = slash" xs] by (auto simp: strip_slashes_def)

lemma path_comps_Cons:
  assumes "slash \<notin> set a"
  shows "path_comps a = [a]" "path_comps (a @ slash # r) = a # path_comps (strip_slashes r)"
proof -
  have t: "takeWhile (\<lambda>c. c \<noteq> slash) a = a" "dropWhile (\<lambda>c. c \<noteq> slash) a = []"
    using assms by (auto simp: takeWhile_eq_all_conv dropWhile_eq_Nil_conv)
  have u: "takeWhile (\<lambda>c. c \<noteq> slash) (a @ slash # r) = a" "dropWhile (\<lambda>c. c \<noteq> slash) (a @ slash # r) = slash # r"
    using assms by (auto simp: takeWhile_tail dropWhile_append3 intro!: takeWhile_append2 [THEN trans] dropWhile_append2 [THEN trans])
  show "path_comps a = [a]" by (subst path_comps.simps) (simp add: t)
  show "path_comps (a @ slash # r) = a # path_comps (strip_slashes r)"
    by (subst path_comps.simps) (simp add: u strip_slashes_def)
qed

lemma norm_text_resolve:
  assumes "rest = [] \<or> hd rest \<noteq> slash" "\<forall>s\<in>set segs. slash \<notin> set s"
  shows "map_option (\<lambda>t. (finish_text t, t = [])) (norm_text rest (flat segs)) =
    map_option (\<lambda>s. (render s, s = [])) (resolve segs (path_comps rest))"
  using assms
proof (induction "length rest" arbitrary: rest segs rule: less_induct)
  case less
  have up: "up_text (flat segs) = flat (butlast segs)" "\<forall>s\<in>set (butlast segs). slash \<notin> set s" if "segs \<noteq> []"
    using up_text_flat [OF that less.prems(2)] less.prems(2) by (auto dest: in_set_butlastD)
  define a where "a = takeWhile (\<lambda>c. c \<noteq> slash) rest"
  have sa: "slash \<notin> set a" by (auto simp: a_def dest: set_takeWhileD)
  show ?case
  proof (cases "dropWhile (\<lambda>c. c \<noteq> slash) rest = []")
    case True
    then have ra: "rest = a" using takeWhile_dropWhile_id [of "\<lambda>c. c \<noteq> slash" rest] unfolding a_def by (metis append_Nil2)
    have n: "take 2 a \<noteq> [dot, slash]" "take 3 a \<noteq> [dot, dot, slash]"
      using sa in_set_takeD [of slash 2 a] in_set_takeD [of slash 3 a] by auto
    have t: "takeWhile (\<lambda>c. c \<noteq> slash) a = a" "dropWhile (\<lambda>c. c \<noteq> slash) a = []"
      using sa by (auto simp: takeWhile_eq_all_conv dropWhile_eq_Nil_conv)
    have "norm_text a (flat segs) = (if a = [dot, dot] then (if segs = [] then None else Some (up_text (flat segs)))
        else Some (flat segs @ (if a = [dot] then [] else a)))"
      by (subst norm_text.simps) (simp add: n t sa)
    then show ?thesis
      using sa finish_flat finish_last [of a segs] up(1) path_comps_Cons(1) [OF sa] unfolding ra
      by (cases "a = []"; cases "a = [dot]"; cases "a = [dot, dot]") simp_all
  next
    case False
    then obtain b where b: "dropWhile (\<lambda>c. c \<noteq> slash) rest = slash # b" using dropWhile_slash by metis
    then have r: "rest = a @ slash # b" using takeWhile_dropWhile_id [of "\<lambda>c. c \<noteq> slash" rest] by (simp add: a_def)
    then have ne: "a \<noteq> []" using less.prems(1) by auto
    have lt: "length (strip_slashes b) < length rest" using length_strip [of b] r by simp
    have sb: "strip_slashes (slash # b) = strip_slashes b" by (simp add: strip_slashes_def)
    note pc = path_comps_Cons(2) [OF sa, of b, folded r]
    note ih = less.hyps [OF lt strip_no_slash]
    consider (A) "a = [dot]" | (C) "a = [dot, dot]" | (D) "a \<noteq> [dot]" "a \<noteq> [dot, dot]" by blast
    then show ?thesis
    proof cases
      case A
      then have "norm_text rest (flat segs) = norm_text (strip_slashes b) (flat segs)"
        using r by (subst norm_text.simps) simp
      then show ?thesis using ih [OF less.prems(2)] pc A by simp
    next
      case C
      then have "norm_text rest (flat segs) =
          (if segs = [] then None else norm_text (strip_slashes b) (up_text (flat segs)))"
        using r by (subst norm_text.simps) (simp add: numeral_2_eq_2 numeral_3_eq_3)
      then show ?thesis using ih [of "butlast segs"] up pc C by simp
    next
      case D
      have "take 2 rest \<noteq> [dot, slash]" "rest \<noteq> [dot, dot]" "take 3 rest \<noteq> [dot, dot, slash]" "rest \<noteq> [dot]"
        using D ne sa r by (cases a; cases "tl a"; cases "tl (tl a)"; auto simp: numeral_2_eq_2 numeral_3_eq_3)+
      then have "norm_text rest (flat segs) = norm_text (strip_slashes b) (flat (segs @ [a]))"
        using b sb a_def by (subst norm_text.simps) (simp only: Let_def if_False list.distinct flat_snoc append_assoc)
      then show ?thesis using ih [of "segs @ [a]"] less.prems(2) sa pc D ne by simp
    qed
  qed
qed

section \<open>The result of dfs_normalize_path\<close>

lemma norm_text_bytes:
  "norm_text rest out = Some t \<Longrightarrow> set t \<subseteq> insert slash (set rest \<union> set out)"
proof (induction rest out arbitrary: t rule: norm_text.induct)
  case (1 rest out)
  have tl: "set (tl xs) \<subseteq> set xs" for xs :: "rt_uint8_t list" by (cases xs) auto
  have up: "set (up_text out) \<subseteq> set out" using tl [of "rev out"] by (auto simp: up_text_def dest!: set_dropWhileD)
  have st: "set (strip_slashes xs) \<subseteq> set xs" for xs by (auto simp: strip_slashes_def dest: set_dropWhileD)
  show ?case
  proof (cases "take 2 rest = [dot, slash]")
    case True
    then have "norm_text (strip_slashes (drop 2 rest)) out = Some t" using 1(4) by (subst (asm) norm_text.simps) simp
    then show ?thesis using 1(1) [OF True] st [of "drop 2 rest"] set_drop_subset [of 2 rest] by blast
  next
    case A: False
    show ?thesis
    proof (cases "rest = [dot, dot]")
      case True
      then have "t = up_text out" using 1(4) by (subst (asm) norm_text.simps) (simp split: if_splits)
      then show ?thesis using up by auto
    next
      case B: False
      show ?thesis
      proof (cases "take 3 rest = [dot, dot, slash]")
        case True
        then have "out \<noteq> []" "norm_text (strip_slashes (drop 3 rest)) (up_text out) = Some t"
          using 1(4) A B by (subst (asm) norm_text.simps, simp split: if_splits)+
        then show ?thesis using 1(2) [OF A B True] up st [of "drop 3 rest"] set_drop_subset [of 3 rest] by blast
      next
        case C: False
        let ?r = "if rest = [dot] then [] else rest"
        let ?a = "takeWhile (\<lambda>c. c \<noteq> slash) ?r" and ?b = "dropWhile (\<lambda>c. c \<noteq> slash) ?r"
        have e: "(if ?b = [] then Some (out @ ?a) else norm_text (strip_slashes ?b) (out @ ?a @ [slash])) = Some t"
          using 1(4) A B C by (subst (asm) norm_text.simps) (simp only: Let_def if_False)
        have ab: "set ?a \<subseteq> set rest" "set ?b \<subseteq> set rest"
          by (auto dest!: set_takeWhileD set_dropWhileD split: if_splits)
        show ?thesis
        proof (cases "?b = []")
          case True
          then have "t = out @ ?a" using e by (simp only: if_True option.inject simp_thms)
          then show ?thesis using ab(1) by auto
        next
          case False
          then have "norm_text (strip_slashes ?b) (out @ ?a @ [slash]) = Some t" using e by (simp only: if_False)
          then have "set t \<subseteq> insert slash (set (strip_slashes ?b) \<union> set (out @ ?a @ [slash]))"
            using 1(3) [OF A B C refl refl refl False] by blast
          then show ?thesis using st [of ?b] ab by auto
        qed
      qed
    qed
  qed
qed

lemma takeWhile_terminated:
  assumes "take n b = t" "length t = n" "0 \<notin> set t" "n < length b" "b ! n = 0"
  shows "takeWhile (\<lambda>c. c \<noteq> 0) b = t"
proof -
  have "b = t @ 0 # drop (Suc n) b" using assms id_take_nth_drop [of n b] by simp
  moreover have "takeWhile (\<lambda>c. c \<noteq> 0) (t @ 0 # ys) = t" for ys using assms(3) by (subst takeWhile_append2) auto
  ultimately show ?thesis by metis
qed

lemma normalize_finish_text:
  assumes "take (length t) buf = t" "0 \<notin> set t" "length t < length buf" "2 \<le> length buf"
  shows "normalize_finish buf (length t) = (finish_text t, t = [])"
proof -
  define n b1 where "n = length t" and "b1 = buf[n := 0]"
  have b1: "take n b1 = t" "n < length b1" "b1 ! n = 0" "length b1 = length buf" using assms by (simp_all add: b1_def n_def)
  have t1: "takeWhile (\<lambda>c. c \<noteq> 0) b1 = t" using takeWhile_terminated [OF b1(1) n_def [symmetric] assms(2) b1(2,3)] .
  have nth: "b1 ! k = t ! k" if "k < n" for k using b1(1) that by (metis nth_take)
  have z: "t ! 0 \<noteq> 0" if "t \<noteq> []" using assms(2) that by (metis length_greater_0_conv nth_mem)
  consider (E) "t = []" | (S) "2 \<le> length t" "last t = slash" | (O) "t \<noteq> []" "\<not> (2 \<le> length t \<and> last t = slash)" by auto
  then show ?thesis
  proof cases
    case E
    then have "b1 ! 0 = 0" using b1(3) by (simp add: n_def)
    moreover have "takeWhile (\<lambda>c. c \<noteq> 0) (b1[0 := slash, 1 := 0]) = [slash]"
      using b1(4) assms(4) by (cases b1; cases "tl b1") auto
    ultimately show ?thesis using E by (simp add: normalize_finish_def finish_text_def b1_def n_def)
  next
    case S
    then have ne: "t \<noteq> []" by auto
    then have l: "b1 ! (n - 1) = slash" "b1 ! 0 \<noteq> 0" "n \<noteq> 0" "n - 1 \<noteq> 0"
      using S nth [of "n - 1"] nth [of 0] z last_conv_nth [OF ne] by (auto simp: n_def)
    have "takeWhile (\<lambda>c. c \<noteq> 0) (b1[n - 1 := 0]) = butlast t"
    proof (rule takeWhile_terminated)
      show "take (n - 1) (b1[n - 1 := 0]) = butlast t"
        using b1(1) butlast_take [of n b1] b1(2) by simp
      show "0 \<notin> set (butlast t)" using assms(2) by (auto dest: in_set_butlastD)
    qed (use b1(2) l(3) in \<open>simp_all add: n_def\<close>)
    then show ?thesis using S l b1 ne by (simp add: normalize_finish_def finish_text_def flip: b1_def n_def)
  next
    case O
    then have "b1 ! 0 \<noteq> 0" "n \<noteq> 0" using nth [of 0] z by (auto simp: n_def)
    moreover have "\<not> (n - 1 \<noteq> 0 \<and> b1 ! (n - 1) = slash)"
      using O nth [of "n - 1"] by (auto simp: n_def last_conv_nth)
    ultimately show ?thesis using O t1 by (auto simp: normalize_finish_def finish_text_def simp flip: b1_def n_def)
  qed
qed

text \<open>The path that is normalised, and the components of an absolute path.\<close>

definition full_path :: "rt_uint8_t list \<Rightarrow> rt_uint8_t list option \<Rightarrow> rt_uint8_t list \<Rightarrow> rt_uint8_t list" where
  "full_path wd directory filename =
    (if byte_at filename 0 \<noteq> slash then (case directory of None \<Rightarrow> wd | Some x \<Rightarrow> x) @ slash # filename else filename)"

definition abs_comps :: "rt_uint8_t list \<Rightarrow> rt_uint8_t list list" where
  "abs_comps p = path_comps (strip_slashes p)"

lemma normalize_absolute:
  assumes p: "full_path wd directory filename = slash # q" and z: "0 \<notin> set q"
  shows "dfs_normalize_path True wd directory filename =
    map_option (\<lambda>s. (render s, s = [])) (resolve [[]] (abs_comps (slash # q)))"
proof -
  let ?p = "slash # q"
  have v: "norm_view (?p @ [0]) 0 0 ?p []" using z by (simp add: norm_view_def)
  note post = normalize_loop_text [OF v]
  have sq: "strip_slashes ?p = strip_slashes q" by (simp add: strip_slashes_def)
  have f: "flat [[]] = [slash]" by (simp add: flat_def)
  have nt: "norm_text ?p [] = norm_text (strip_slashes q) (flat [[]])"
    unfolding f by (subst norm_text.simps) (simp add: sq)
  have r: "map_option (\<lambda>t. (finish_text t, t = [])) (norm_text ?p []) =
      map_option (\<lambda>s. (render s, s = [])) (resolve [[]] (abs_comps ?p))"
    using norm_text_resolve [OF strip_no_slash, of "[[]]" q] by (simp add: nt abs_comps_def sq)
  have d: "dfs_normalize_path True wd directory filename = map_option (\<lambda>t. (finish_text t, t = [])) (norm_text ?p [])"
  proof (cases "norm_text ?p []")
    case None
    then show ?thesis using post p by (simp add: dfs_normalize_path_def full_path_def norm_post_def Let_def)
  next
    case (Some t)
    then obtain buf where b: "normalize_loop (?p @ [0]) 0 0 = Norm_done buf (length t)" "take (length t) buf = t"
      "length buf = length (?p @ [0])" "length t < length (?p @ [0])"
      using post by (auto simp: norm_post_def)
    have "0 \<notin> set t" using norm_text_bytes [OF Some] z by auto
    then have "normalize_finish buf (length t) = (finish_text t, t = [])" using normalize_finish_text [of t buf] b by simp
    then show ?thesis using b(1) Some p by (simp add: dfs_normalize_path_def full_path_def Let_def)
  qed
  show ?thesis using d r by simp
qed

text \<open>
  A path that does not climb above the root: the result is absolute, consists of the remaining components, and is its
  own normal form.
\<close>

lemma resolve_rooted: "resolve ds cs = Some es \<Longrightarrow> resolve ([] # ds) cs = Some ([] # es)"
  by (induction ds cs rule: resolve.induct) (auto split: if_splits)

lemma render_rooted: "render ([] # es) = slash # join_segs es"
  by (cases es) (auto simp: render_def)

definition plain_comp :: "rt_uint8_t list \<Rightarrow> bool" where
  "plain_comp c \<longleftrightarrow> c \<noteq> [] \<and> c \<noteq> [dot] \<and> c \<noteq> [dot, dot] \<and> slash \<notin> set c"

lemma path_comps_no_slash: "c \<in> set (path_comps p) \<Longrightarrow> slash \<notin> set c"
proof (induction p rule: path_comps.induct)
  case (1 p)
  show ?case
    using 1(2) 1(1) [OF refl refl] unfolding path_comps.simps [of p] Let_def
    by (cases "dropWhile (\<lambda>c. c \<noteq> slash) p = []") (auto dest: set_takeWhileD split: if_splits)
qed

lemma resolve_plain:
  "resolve ds cs = Some es \<Longrightarrow> \<forall>c\<in>set cs. slash \<notin> set c \<Longrightarrow> list_all plain_comp ds \<Longrightarrow> list_all plain_comp es"
proof (induction ds cs rule: resolve.induct)
  case (2 segs c cs)
  have b: "list_all plain_comp (butlast segs)" using 2(6) by (auto simp: list_all_iff dest: in_set_butlastD)
  consider "c = [dot, dot]" "segs \<noteq> []" | "c = [] \<or> c = [dot]" | "c \<noteq> [dot, dot]" "c \<noteq> []" "c \<noteq> [dot]"
    using 2(4) by (auto split: if_splits)
  then show ?case
  proof cases
    case 1
    then show ?thesis using 2(1) 2(4,5) b by simp
  next
    case 2
    then show ?thesis using 2 "2.IH"(2) "2.prems" by auto
  next
    case 3
    then have "plain_comp c" using 2(5) by (simp add: plain_comp_def)
    then show ?thesis using 3 2(3) 2(4-6) by simp
  qed
qed simp

lemma normalize_inside_root:
  assumes "full_path wd directory filename = slash # q" "0 \<notin> set q" "resolve [] (abs_comps (slash # q)) = Some es"
  shows "dfs_normalize_path True wd directory filename = Some (slash # join_segs es, False)" "list_all plain_comp es"
  using normalize_absolute [OF assms(1,2)] resolve_rooted [OF assms(3)] render_rooted [of es]
    resolve_plain [OF assms(3)] path_comps_no_slash by (auto simp: abs_comps_def)

lemma path_comps_join:
  "es \<noteq> [] \<Longrightarrow> list_all plain_comp es \<Longrightarrow> path_comps (join_segs es) = es \<and> strip_slashes (join_segs es) = join_segs es"
proof (induction es rule: join_segs.induct)
  case (2 s)
  then show ?case by (cases s) (auto simp: path_comps_Cons(1) plain_comp_def strip_slashes_def)
next
  case (3 s t ss)
  then have "path_comps (join_segs (s # t # ss)) = s # path_comps (strip_slashes (join_segs (t # ss)))"
    using path_comps_Cons(2) [of s "join_segs (t # ss)"] by (simp add: plain_comp_def)
  then show ?case using 3 by (cases s) (auto simp: plain_comp_def strip_slashes_def)
qed simp

lemma resolve_all_plain: "list_all plain_comp es \<Longrightarrow> resolve ds es = Some (ds @ es)"
  by (induction es arbitrary: ds) (auto simp: plain_comp_def)

lemma join_no_zero: "\<forall>e\<in>set es. 0 \<notin> set e \<Longrightarrow> 0 \<notin> set (join_segs es)"
  by (induction es rule: join_segs.induct) auto

lemma path_comps_bytes: "c \<in> set (path_comps p) \<Longrightarrow> set c \<subseteq> set p"
proof (induction p rule: path_comps.induct)
  case (1 p)
  have st: "set (strip_slashes xs) \<subseteq> set xs" for xs by (auto simp: strip_slashes_def dest: set_dropWhileD)
  show ?case
    using 1(2) 1(1) [OF refl refl] st [of "dropWhile (\<lambda>c. c \<noteq> slash) p"] unfolding path_comps.simps [of p] Let_def
    by (cases "dropWhile (\<lambda>c. c \<noteq> slash) p = []") (auto dest!: set_takeWhileD split: if_splits dest: set_dropWhileD)
qed

lemma resolve_subset: "resolve ds cs = Some es \<Longrightarrow> set es \<subseteq> set ds \<union> set cs"
proof (induction ds cs rule: resolve.induct)
  case (2 segs c cs)
  then show ?case by (auto split: if_splits dest!: in_set_butlastD)
qed simp

lemma resolved_no_zero:
  assumes "0 \<notin> set q" "resolve [] (abs_comps (slash # q)) = Some es"
  shows "\<forall>e\<in>set es. 0 \<notin> set e"
proof
  fix e assume "e \<in> set es"
  then have "e \<in> set (path_comps (strip_slashes (slash # q)))" using resolve_subset [OF assms(2)] by (auto simp: abs_comps_def)
  then have "set e \<subseteq> set (strip_slashes (slash # q))" by (rule path_comps_bytes)
  then show "0 \<notin> set e" using assms(1) by (auto simp: strip_slashes_def dest!: set_dropWhileD)
qed

lemma normalize_idempotent:
  assumes "list_all plain_comp es" "\<forall>e\<in>set es. 0 \<notin> set e"
  shows "dfs_normalize_path True wd directory (slash # join_segs es) = Some (slash # join_segs es, False)"
proof -
  have f: "full_path wd directory (slash # join_segs es) = slash # join_segs es" by (simp add: full_path_def byte_at_def)
  have "resolve [] (abs_comps (slash # join_segs es)) = Some es"
  proof (cases "es = []")
    case True
    then show ?thesis using path_comps_Cons(1) [of "[]"] by (simp add: abs_comps_def strip_slashes_def)
  next
    case False
    have "strip_slashes (slash # xs) = strip_slashes xs" for xs by (simp add: strip_slashes_def)
    then show ?thesis using path_comps_join [OF False assms(1)] resolve_all_plain [OF assms(1), of "[]"]
      by (simp add: abs_comps_def)
  qed
  then show ?thesis using normalize_inside_root [OF f join_no_zero [OF assms(2)]] by simp
qed

text \<open>
  One step above the root is not refused, but takes back the root itself: the result is then no absolute path, and
  when nothing follows the byte in front of the buffer is read. Two steps give no path.
\<close>

lemma above_root:
  "dfs_normalize_path True wd None [slash, dot, dot, slash, 120] = Some ([120], False)"
  "dfs_normalize_path True wd None [slash, dot, dot] = Some ([slash], True)"
  "dfs_normalize_path True wd None [slash, dot, dot, slash, dot, dot] = None"
proof -
  have f: "full_path wd None (slash # q) = slash # q" for q by (simp add: full_path_def byte_at_def)
  have n: "slash \<noteq> 120" "dot \<noteq> 120" by (simp_all add: slash_def dot_def)
  have c: "abs_comps [slash, dot, dot, slash, 120] = [[dot, dot], [120]]" "abs_comps [slash, dot, dot] = [[dot, dot]]"
    "abs_comps [slash, dot, dot, slash, dot, dot] = [[dot, dot], [dot, dot]]"
    using path_comps_Cons(2) [of "[dot, dot]" "[120]"] path_comps_Cons(1) [of "[120]"] path_comps_Cons(1) [of "[dot, dot]"]
      path_comps_Cons(2) [of "[dot, dot]" "[dot, dot]"] n
    by (simp_all add: abs_comps_def strip_slashes_def)
  show "dfs_normalize_path True wd None [slash, dot, dot, slash, 120] = Some ([120], False)"
    "dfs_normalize_path True wd None [slash, dot, dot] = Some ([slash], True)"
    "dfs_normalize_path True wd None [slash, dot, dot, slash, dot, dot] = None"
    using normalize_absolute [OF f] c n by (simp_all add: render_def)
qed

section \<open>The file system of a path\<close>

record dfs_filesystem =
  fs_path :: "rt_uint8_t list option"
  fs_ops :: "addr option"

text \<open>\<^verbatim>\<open>dfs_filesystem_lookup\<close>: the body of the loop decides whether an entry replaces the best one so far.\<close>

definition fs_matches :: "rt_uint8_t list \<Rightarrow> dfs_filesystem \<Rightarrow> nat option" where
  "fs_matches path fs =
    (case (fs_path fs, fs_ops fs) of
       (Some m, Some _) \<Rightarrow>
         if take (length m) path \<noteq> m then None
         else if length m > 1 \<and> length path > length m \<and> path ! length m \<noteq> slash then None
         else Some (length m)
     | _ \<Rightarrow> None)"

fun lookup_loop :: "rt_uint8_t list \<Rightarrow> dfs_filesystem list \<Rightarrow> nat \<Rightarrow> nat \<Rightarrow> nat option \<Rightarrow> nat option" where
  "lookup_loop path [] i prefixlen found = found"
| "lookup_loop path (fs # tab) i prefixlen found =
    (case fs_matches path fs of
       Some n \<Rightarrow> if n < prefixlen then lookup_loop path tab (i + 1) prefixlen found
                 else lookup_loop path tab (i + 1) n (Some i)
     | None \<Rightarrow> lookup_loop path tab (i + 1) prefixlen found)"

definition dfs_filesystem_lookup :: "dfs_filesystem list \<Rightarrow> rt_uint8_t list \<Rightarrow> nat option" where
  "dfs_filesystem_lookup tab path = lookup_loop path tab 0 0 None"

text \<open>A mount point covers the paths at and below it.\<close>

lemma fs_matches_iff:
  "fs_matches path fs = Some n \<longleftrightarrow>
    (\<exists>m f. fs_path fs = Some m \<and> fs_ops fs = Some f \<and> n = length m \<and>
      (\<exists>r. path = m @ r \<and> (length m \<le> 1 \<or> r = [] \<or> r ! 0 = slash)))"
proof -
  have "take (length m) path = m \<longleftrightarrow> (\<exists>r. path = m @ r)" for m
    by (metis append_eq_conv_conj append_take_drop_id)
  then show ?thesis
    by (auto simp: fs_matches_def nth_append split: option.splits if_splits)
qed

lemma lookup_loop_best:
  "(lookup_loop path tab i p found = found \<and> (\<forall>fs\<in>set tab. \<forall>l. fs_matches path fs = Some l \<longrightarrow> l < p)) \<or>
    (\<exists>j n. j < length tab \<and> lookup_loop path tab i p found = Some (i + j) \<and> fs_matches path (tab ! j) = Some n \<and> p \<le> n \<and>
      (\<forall>fs\<in>set tab. \<forall>l. fs_matches path fs = Some l \<longrightarrow> l \<le> n))"
proof (induction tab arbitrary: i p found)
  case (Cons fs tab)
  show ?case
  proof (cases "\<exists>n. fs_matches path fs = Some n \<and> p \<le> n")
    case True
    then obtain n where n: "fs_matches path fs = Some n" "p \<le> n" by blast
    then have l: "lookup_loop path (fs # tab) i p found = lookup_loop path tab (i + 1) n (Some i)" by simp
    from Cons.IH [of "i + 1" n "Some i"] show ?thesis
    proof (elim disjE conjE exE)
      assume "lookup_loop path tab (i + 1) n (Some i) = Some i" "\<forall>fs\<in>set tab. \<forall>l. fs_matches path fs = Some l \<longrightarrow> l < n"
      then show ?thesis using n l by (intro disjI2 exI [of _ 0] exI [of _ n]) auto
    next
      fix j k
      assume "j < length tab" "lookup_loop path tab (i + 1) n (Some i) = Some (i + 1 + j)" "fs_matches path (tab ! j) = Some k"
        "n \<le> k" "\<forall>fs\<in>set tab. \<forall>l. fs_matches path fs = Some l \<longrightarrow> l \<le> k"
      then show ?thesis using n l by (intro disjI2 exI [of _ "Suc j"] exI [of _ k]) auto
    qed
  next
    case False
    then have l: "lookup_loop path (fs # tab) i p found = lookup_loop path tab (i + 1) p found"
      by (auto split: option.split)
    from Cons.IH [of "i + 1" p found] show ?thesis
    proof (elim disjE conjE exE)
      assume "lookup_loop path tab (i + 1) p found = found" "\<forall>fs\<in>set tab. \<forall>l. fs_matches path fs = Some l \<longrightarrow> l < p"
      then show ?thesis using False l by (intro disjI1) auto
    next
      fix j k
      assume "j < length tab" "lookup_loop path tab (i + 1) p found = Some (i + 1 + j)" "fs_matches path (tab ! j) = Some k"
        "p \<le> k" "\<forall>fs\<in>set tab. \<forall>l. fs_matches path fs = Some l \<longrightarrow> l \<le> k"
      then show ?thesis using False l by (intro disjI2 exI [of _ "Suc j"] exI [of _ k]) (auto simp: not_le)
    qed
  qed
qed simp

lemma lookup_longest:
  "case dfs_filesystem_lookup tab path of
     None \<Rightarrow> \<forall>fs\<in>set tab. fs_matches path fs = None
   | Some i \<Rightarrow> i < length tab \<and> (\<exists>n. fs_matches path (tab ! i) = Some n \<and>
       (\<forall>fs\<in>set tab. \<forall>l. fs_matches path fs = Some l \<longrightarrow> l \<le> n))"
proof -
  have none: "fs_matches path fs = None" if "\<forall>l. fs_matches path fs = Some l \<longrightarrow> l < 0" for fs
    using that by (cases "fs_matches path fs") auto
  show ?thesis
    using lookup_loop_best [of path tab 0 0 None] none by (auto simp: dfs_filesystem_lookup_def split: option.split)
qed

end
