(* ===== verification/DfsFd.thy ===== *)
theory DfsFd
  imports DfsPath
begin

text \<open>
  The table of file descriptors (\<^verbatim>\<open>rt-thread/components/dfs/src/dfs.c\<close>). The table holds pointers and grows in steps of
  four; a descriptor is freed when its last user puts it back. The functions run under the lock of the file system. The
  answers of the heap are parameters: whether the table could be enlarged, and the address of a new descriptor. The
  table refines a count of users for each descriptor.
\<close>

section \<open>The table\<close>

definition DFS_FD_MAX :: nat where "DFS_FD_MAX = 16"
definition DFS_FD_OFFSET :: int where "DFS_FD_OFFSET = 3"
definition DFS_FD_MAGIC :: rt_uint16_t where "DFS_FD_MAGIC = 0xfdfd"

record dfs_fd =
  fd_magic :: rt_uint16_t
  fd_type :: rt_uint16_t
  fd_path :: "rt_uint8_t list option"
  fd_ref_count :: int
  fd_fs :: "nat option"
  fd_fops :: "addr option"
  fd_flags :: rt_uint32_t
  fd_size :: rt_size_t
  fd_pos :: rt_int32_t
  fd_data :: addr

definition zero_fd :: dfs_fd where
  "zero_fd = \<lparr>fd_magic = 0, fd_type = 0, fd_path = None, fd_ref_count = 0, fd_fs = None, fd_fops = None, fd_flags = 0,
     fd_size = 0, fd_pos = 0, fd_data = 0\<rparr>"

text \<open>\<^verbatim>\<open>maxfd\<close> is the length of the table.\<close>

record dfs_fdtable =
  fds :: "addr option list"
  fd_mem :: "addr \<Rightarrow> dfs_fd"

definition upd_fd :: "addr \<Rightarrow> (dfs_fd \<Rightarrow> dfs_fd) \<Rightarrow> dfs_fdtable \<Rightarrow> dfs_fdtable" where
  "upd_fd a g t = t\<lparr>fd_mem := (fd_mem t)(a := g (fd_mem t a))\<rparr>"

definition slot_free :: "dfs_fdtable \<Rightarrow> nat \<Rightarrow> bool" where
  "slot_free t i = (case fds t ! i of None \<Rightarrow> True | Some a \<Rightarrow> fd_ref_count (fd_mem t a) = 0)"

function find_slot :: "dfs_fdtable \<Rightarrow> nat \<Rightarrow> nat" where
  "find_slot t i = (if i < length (fds t) \<and> \<not> slot_free t i then find_slot t (i + 1) else i)"
  by auto
termination
  by (relation "measure (\<lambda>(t, i). length (fds t) - i)") auto

declare find_slot.simps [simp del]

definition fd_alloc :: "bool \<Rightarrow> addr option \<Rightarrow> dfs_fdtable \<Rightarrow> nat \<Rightarrow> dfs_fdtable \<times> nat" where
  "fd_alloc grow cell t startfd =
    (let idx = find_slot t startfd; maxfd = length (fds t) in
     if idx = maxfd \<and> maxfd < DFS_FD_MAX \<and> \<not> grow then (t, idx)
     else
       let cnt = (if maxfd + 4 > DFS_FD_MAX then DFS_FD_MAX else maxfd + 4);
           t1 = (if idx = maxfd \<and> maxfd < DFS_FD_MAX then t\<lparr>fds := fds t @ replicate (cnt - maxfd) None\<rparr> else t)
       in if idx < length (fds t1) \<and> fds t1 ! idx = None then
            (case cell of
               None \<Rightarrow> (t1, length (fds t1))
             | Some a \<Rightarrow> (t1\<lparr>fds := (fds t1)[idx := Some a], fd_mem := (fd_mem t1)(a := zero_fd)\<rparr>, idx))
          else (t1, idx))"

definition fd_new :: "bool \<Rightarrow> addr option \<Rightarrow> dfs_fdtable \<Rightarrow> dfs_fdtable \<times> int" where
  "fd_new grow cell t =
    (case fd_alloc grow cell t 0 of
       (t1, idx) \<Rightarrow>
         if idx = length (fds t1) then (t1, - (1 + DFS_FD_OFFSET) + DFS_FD_OFFSET)
         else
           (case fds t1 ! idx of
              Some a \<Rightarrow> (upd_fd a (\<lambda>d. d\<lparr>fd_ref_count := 1, fd_magic := DFS_FD_MAGIC\<rparr>) t1, int idx + DFS_FD_OFFSET)
            | None \<Rightarrow> (t1, int idx + DFS_FD_OFFSET)))"

definition fd_get :: "int \<Rightarrow> dfs_fdtable \<Rightarrow> dfs_fdtable \<times> addr option" where
  "fd_get fd t =
    (let i = fd - DFS_FD_OFFSET in
     if i < 0 \<or> i \<ge> int (length (fds t)) then (t, None)
     else
       (case fds t ! nat i of
          None \<Rightarrow> (t, None)
        | Some a \<Rightarrow>
            if fd_magic (fd_mem t a) \<noteq> DFS_FD_MAGIC then (t, None)
            else (upd_fd a (\<lambda>d. d\<lparr>fd_ref_count := fd_ref_count d + 1\<rparr>) t, Some a)))"

text \<open>The loop of \<^verbatim>\<open>fd_put\<close> clears the first entry that points to the descriptor.\<close>

fun clear_entry :: "addr \<Rightarrow> addr option list \<Rightarrow> addr option list" where
  "clear_entry a [] = []"
| "clear_entry a (x # xs) = (if x = Some a then None # xs else x # clear_entry a xs)"

definition fd_put :: "addr \<Rightarrow> dfs_fdtable \<Rightarrow> dfs_fdtable" where
  "fd_put a t =
    (let t1 = upd_fd a (\<lambda>d. d\<lparr>fd_ref_count := fd_ref_count d - 1\<rparr>) t
     in if fd_ref_count (fd_mem t1 a) = 0 then t1\<lparr>fds := clear_entry a (fds t1)\<rparr> else t1)"

text \<open>\<^verbatim>\<open>fd_is_open\<close>: some descriptor of the file system of the path has the path below the mount point.\<close>

definition fd_is_open :: "bool \<Rightarrow> rt_uint8_t list \<Rightarrow> dfs_filesystem list \<Rightarrow> rt_uint8_t list \<Rightarrow> dfs_fdtable \<Rightarrow> int" where
  "fd_is_open mem wd tab pathname t =
    (case dfs_normalize_path mem wd None pathname of
       None \<Rightarrow> - 1
     | Some (fullpath, _) \<Rightarrow>
         (case dfs_filesystem_lookup tab fullpath of
            None \<Rightarrow> - 1
          | Some fs \<Rightarrow>
              let m = (case fs_path (tab ! fs) of Some p \<Rightarrow> p | None \<Rightarrow> []);
                  mountpath = (if m = [slash] then fullpath else drop (length m) fullpath)
              in if \<exists>x\<in>set (fds t). case x of None \<Rightarrow> False
                     | Some a \<Rightarrow> fd_fops (fd_mem t a) \<noteq> None \<and> fd_fs (fd_mem t a) = Some fs \<and> fd_path (fd_mem t a) = Some mountpath
                 then 0 else - 1))"

section \<open>The users of a descriptor\<close>

definition fd_users :: "dfs_fdtable \<Rightarrow> nat \<Rightarrow> int" where
  "fd_users t i =
    (if i < length (fds t) then case fds t ! i of None \<Rightarrow> 0 | Some a \<Rightarrow> fd_ref_count (fd_mem t a) else 0)"

text \<open>Every entry is a descriptor of its own, in use and marked as one.\<close>

definition fd_wf :: "dfs_fdtable \<Rightarrow> bool" where
  "fd_wf t \<longleftrightarrow> length (fds t) \<le> DFS_FD_MAX \<and>
    (\<forall>i<length (fds t). \<forall>a. fds t ! i = Some a \<longrightarrow>
       0 < fd_ref_count (fd_mem t a) \<and> fd_magic (fd_mem t a) = DFS_FD_MAGIC \<and>
       (\<forall>j<length (fds t). fds t ! j = Some a \<longrightarrow> j = i))"

lemma fd_wfD:
  assumes "fd_wf t" "i < length (fds t)" "fds t ! i = Some a"
  shows "0 < fd_ref_count (fd_mem t a)" "fd_magic (fd_mem t a) = DFS_FD_MAGIC"
    "j < length (fds t) \<Longrightarrow> fds t ! j = Some a \<Longrightarrow> j = i"
  using assms unfolding fd_wf_def by blast+

lemma fd_wfI:
  assumes "length (fds t) \<le> DFS_FD_MAX"
    "\<And>i a. i < length (fds t) \<Longrightarrow> fds t ! i = Some a \<Longrightarrow>
      0 < fd_ref_count (fd_mem t a) \<and> fd_magic (fd_mem t a) = DFS_FD_MAGIC"
    "\<And>i j a. i < length (fds t) \<Longrightarrow> j < length (fds t) \<Longrightarrow> fds t ! i = Some a \<Longrightarrow> fds t ! j = Some a \<Longrightarrow> j = i"
  shows "fd_wf t"
  using assms unfolding fd_wf_def by blast

lemma fd_users_pos: "fd_wf t \<Longrightarrow> 0 \<le> fd_users t i \<and> (fd_users t i = 0 \<longleftrightarrow> i \<ge> length (fds t) \<or> fds t ! i = None)"
proof -
  assume w: "fd_wf t"
  show ?thesis
  proof (cases "i < length (fds t)")
    case True
    then show ?thesis using fd_wfD(1) [OF w True] by (cases "fds t ! i") (auto simp: fd_users_def)
  qed (simp add: fd_users_def)
qed

lemma slot_free_users: "fd_wf t \<Longrightarrow> i < length (fds t) \<Longrightarrow> slot_free t i \<longleftrightarrow> fd_users t i = 0"
  by (simp add: slot_free_def fd_users_def split: option.split)

lemma find_slot_first:
  assumes "i \<le> length (fds t)"
  shows "i \<le> find_slot t i \<and> find_slot t i \<le> length (fds t) \<and> (\<forall>j. i \<le> j \<and> j < find_slot t i \<longrightarrow> \<not> slot_free t j) \<and>
    (find_slot t i < length (fds t) \<longrightarrow> slot_free t (find_slot t i))"
  using assms
proof (induction t i rule: find_slot.induct)
  case (1 t i)
  show ?case
  proof (cases "i < length (fds t) \<and> \<not> slot_free t i")
    case True
    then have "find_slot t i = find_slot t (i + 1)" by (subst find_slot.simps) simp
    moreover have "\<not> slot_free t j" if "i \<le> j" "j < find_slot t (i + 1)" for j
      using 1(1) [OF True] True that by (cases "j = i") auto
    ultimately show ?thesis using 1(1) [OF True] True by auto
  next
    case False
    then have "find_slot t i = i" by (subst find_slot.simps) auto
    then show ?thesis using False 1(2) by auto
  qed
qed

text \<open>A larger table has the same users.\<close>

lemma fd_users_grow: "fd_users (t\<lparr>fds := fds t @ replicate k None\<rparr>) = fd_users t"
  by (rule ext) (auto simp: fd_users_def nth_append split: option.split)

lemma fd_wf_grow: "fd_wf t \<Longrightarrow> length (fds t) + k \<le> DFS_FD_MAX \<Longrightarrow> fd_wf (t\<lparr>fds := fds t @ replicate k None\<rparr>)"
  by (rule fd_wfI) (auto simp: nth_append fd_wfD(1,2) intro: fd_wfD(3) split: if_splits)

text \<open>A new descriptor in a slot that is empty.\<close>

definition fd_fresh :: "nat \<Rightarrow> addr \<Rightarrow> dfs_fdtable \<Rightarrow> dfs_fdtable" where
  "fd_fresh i a t = t\<lparr>fds := (fds t)[i := Some a],
     fd_mem := (fd_mem t)(a := zero_fd\<lparr>fd_ref_count := 1, fd_magic := DFS_FD_MAGIC\<rparr>)\<rparr>"

lemma fd_fresh_wf:
  assumes w: "fd_wf t" and i: "i < length (fds t)" "fds t ! i = None" and a: "Some a \<notin> set (fds t)"
  shows "fd_wf (fd_fresh i a t)" "fd_users (fd_fresh i a t) = (fd_users t)(i := 1)"
proof -
  have na: "fds t ! j \<noteq> Some a" if "j < length (fds t)" for j using a that by (metis nth_mem)
  have n: "fds (fd_fresh i a t) ! j = (if j = i then Some a else fds t ! j)" if "j < length (fds t)" for j
    using that by (simp add: fd_fresh_def nth_list_update)
  have m: "fd_mem (fd_fresh i a t) b = (if b = a then zero_fd\<lparr>fd_ref_count := 1, fd_magic := DFS_FD_MAGIC\<rparr> else fd_mem t b)" for b
    by (simp add: fd_fresh_def)
  have l: "length (fds (fd_fresh i a t)) = length (fds t)" by (simp add: fd_fresh_def)
  show "fd_users (fd_fresh i a t) = (fd_users t)(i := 1)"
  proof
    fix j
    show "fd_users (fd_fresh i a t) j = ((fd_users t)(i := 1)) j"
      using na [of j] i(1) n [of j] by (auto simp: fd_users_def l m split: option.split)
  qed
  show "fd_wf (fd_fresh i a t)"
  proof (rule fd_wfI, unfold l)
    show "length (fds t) \<le> DFS_FD_MAX" using w by (simp add: fd_wf_def)
  next
    fix j b assume j: "j < length (fds t)" and b: "fds (fd_fresh i a t) ! j = Some b"
    then show "0 < fd_ref_count (fd_mem (fd_fresh i a t) b) \<and> fd_magic (fd_mem (fd_fresh i a t) b) = DFS_FD_MAGIC"
      using n [OF j] m na [OF j] fd_wfD(1,2) [OF w j] by (auto split: if_splits)
    fix k assume "k < length (fds t)" "fds (fd_fresh i a t) ! k = Some b"
    then show "k = j" using b n [OF j] n [of k] na [OF j] na [of k] fd_wfD(3) [OF w j, of b k] by (auto split: if_splits)
  qed
qed

lemma fd_new_slot:
  assumes w: "fd_wf t" and a: "Some a \<notin> set (fds t)"
  shows "case fd_new True (Some a) t of (t', fd) \<Rightarrow> fd_wf t' \<and>
    (if \<forall>i<DFS_FD_MAX. fd_users t i \<noteq> 0 then fd = - 1 \<and> fd_users t' = fd_users t
     else \<exists>i<DFS_FD_MAX. fd_users t i = 0 \<and> (\<forall>j<i. fd_users t j \<noteq> 0) \<and> fd = int i + DFS_FD_OFFSET \<and>
       fds t' ! i = Some a \<and> i < length (fds t') \<and> fd_users t' = (fd_users t)(i := 1))"
proof -
  define i where "i = find_slot t 0"
  have i: "i \<le> length (fds t)" "\<forall>j<i. \<not> slot_free t j" "i < length (fds t) \<Longrightarrow> slot_free t i"
    using find_slot_first [of 0 t] by (auto simp: i_def)
  have used: "\<forall>j<i. fd_users t j \<noteq> 0" using i(1,2) slot_free_users [OF w] by auto
  have len: "length (fds t) \<le> DFS_FD_MAX" using w by (simp add: fd_wf_def)
  have none: "fd_users t j = 0" if "length (fds t) \<le> j" for j using that by (simp add: fd_users_def)
  consider (S) "i < length (fds t)" | (G) "i = length (fds t)" "i < DFS_FD_MAX" | (F) "i = length (fds t)" "i = DFS_FD_MAX"
    using i(1) len by linarith
  then show ?thesis
  proof cases
    case S
    then have z: "fd_users t i = 0" "fds t ! i = None"
      using i(3) slot_free_users [OF w S] fd_users_pos [OF w, of i] by auto
    have n: "fd_new True (Some a) t = (fd_fresh i a t, int i + DFS_FD_OFFSET)"
      using S z(2) by (simp add: fd_new_def fd_alloc_def Let_def fd_fresh_def upd_fd_def flip: i_def)
    have "fds (fd_fresh i a t) ! i = Some a" "i < length (fds (fd_fresh i a t))" using S by (simp_all add: fd_fresh_def)
    then show ?thesis using fd_fresh_wf [OF w S z(2) a] n z(1) used S len by auto
  next
    case G
    let ?k = "(if i + 4 > DFS_FD_MAX then DFS_FD_MAX else i + 4) - i"
    let ?t = "t\<lparr>fds := fds t @ replicate ?k None\<rparr>"
    have k: "0 < ?k" "i + ?k \<le> DFS_FD_MAX" using G by auto
    have w1: "fd_wf ?t" using fd_wf_grow [OF w, of ?k] k(2) G(1) by simp
    have s: "i < length (fds ?t)" "fds ?t ! i = None" "Some a \<notin> set (fds ?t)" using G a k(1) by (auto simp: nth_append)
    have n: "fd_new True (Some a) t = (fd_fresh i a ?t, int i + DFS_FD_OFFSET)"
      using G by (cases "i + 4 > DFS_FD_MAX")
        (simp_all add: fd_new_def fd_alloc_def Let_def fd_fresh_def upd_fd_def nth_append flip: i_def)
    have "fds (fd_fresh i a ?t) ! i = Some a" "i < length (fds (fd_fresh i a ?t))"
      using s(1) by (simp_all add: fd_fresh_def)
    then show ?thesis
      using fd_fresh_wf [OF w1 s] n none [of i] used G fd_users_grow [of t ?k] by auto
  next
    case F
    then have "fd_new True (Some a) t = (t, - 1)"
      by (simp add: fd_new_def fd_alloc_def Let_def DFS_FD_OFFSET_def flip: i_def)
    then show ?thesis using w used F by simp
  qed
qed

text \<open>Getting a descriptor adds a user, putting it takes one away; the last one frees the slot.\<close>

lemma fd_count_users:
  assumes w: "fd_wf t" and a: "i < length (fds t)" "fds t ! i = Some a" and g: "0 < g (fd_ref_count (fd_mem t a))"
  defines "t' \<equiv> upd_fd a (\<lambda>d. d\<lparr>fd_ref_count := g (fd_ref_count d)\<rparr>) t"
  shows "fd_wf t' \<and> fds t' = fds t \<and> fd_users t' = (fd_users t)(i := g (fd_users t i))"
proof -
  have s: "fds t' = fds t" by (simp add: t'_def upd_fd_def)
  have m: "fd_mem t' b = (if b = a then (fd_mem t a)\<lparr>fd_ref_count := g (fd_ref_count (fd_mem t a))\<rparr> else fd_mem t b)" for b
    by (simp add: t'_def upd_fd_def)
  have "fd_wf t'"
  proof (rule fd_wfI, unfold s)
    show "length (fds t) \<le> DFS_FD_MAX" using w by (simp add: fd_wf_def)
  next
    fix j b assume j: "j < length (fds t)" "fds t ! j = Some b"
    then show "0 < fd_ref_count (fd_mem t' b) \<and> fd_magic (fd_mem t' b) = DFS_FD_MAGIC"
      using fd_wfD(1,2) [OF w j] g by (auto simp: m)
    fix k assume "k < length (fds t)" "fds t ! k = Some b"
    then show "k = j" using fd_wfD(3) [OF w j] by blast
  qed
  moreover have "fd_users t' j = ((fd_users t)(i := g (fd_users t i))) j" for j
  proof (cases "j < length (fds t) \<and> fds t ! j = Some a")
    case True
    then have "j = i" using fd_wfD(3) [OF w a] by blast
    then show ?thesis using a by (simp add: fd_users_def s m)
  next
    case False
    then have "j \<noteq> i" using a by auto
    then show ?thesis using False by (auto simp: fd_users_def s m split: option.split)
  qed
  ultimately show ?thesis using s by blast
qed

lemma fd_get_users:
  assumes w: "fd_wf t" and i: "fd = int i + DFS_FD_OFFSET"
  shows "case fd_get fd t of (t', r) \<Rightarrow> fd_wf t' \<and>
    (if fd_users t i = 0 then r = None \<and> t' = t
     else r = fds t ! i \<and> fds t' = fds t \<and> fd_users t' = (fd_users t)(i := fd_users t i + 1))"
proof -
  have e: "fd - DFS_FD_OFFSET = int i" using i by simp
  show ?thesis
  proof (cases "fd_users t i = 0")
    case True
    then have "fd_get fd t = (t, None)" using fd_users_pos [OF w, of i] by (auto simp: fd_get_def e split: option.split)
    then show ?thesis using True w by simp
  next
    case False
    then obtain a where a: "i < length (fds t)" "fds t ! i = Some a" using fd_users_pos [OF w, of i] by auto
    have "fd_get fd t = (upd_fd a (\<lambda>d. d\<lparr>fd_ref_count := fd_ref_count d + 1\<rparr>) t, Some a)"
      using a fd_wfD(2) [OF w a] by (simp add: fd_get_def e)
    then show ?thesis using fd_count_users [OF w a, of "\<lambda>n. n + 1"] fd_wfD(1) [OF w a] a False by simp
  qed
qed

lemma clear_entry_at:
  assumes "i < length xs" "xs ! i = Some a" "\<And>j. j < length xs \<Longrightarrow> xs ! j = Some a \<Longrightarrow> j = i"
  shows "clear_entry a xs = xs[i := None]"
  using assms
proof (induction xs arbitrary: i)
  case (Cons x xs)
  show ?case
  proof (cases i)
    case 0
    then show ?thesis using Cons.prems by simp
  next
    case (Suc k)
    have "x \<noteq> Some a" using Cons.prems(3) [of 0] Suc by auto
    moreover have "clear_entry a xs = xs[k := None]"
      using Cons.IH [of k] Cons.prems Suc by (metis Suc_less_eq length_Cons nat.inject nth_Cons_Suc)
    ultimately show ?thesis using Suc by simp
  qed
qed simp

lemma fd_put_users:
  assumes w: "fd_wf t" and a: "i < length (fds t)" "fds t ! i = Some a"
  shows "fd_wf (fd_put a t)" "fd_users (fd_put a t) = (fd_users t)(i := fd_users t i - 1)"
proof -
  let ?t = "upd_fd a (\<lambda>d. d\<lparr>fd_ref_count := fd_ref_count d - 1\<rparr>) t"
  have u: "fd_users t i = fd_ref_count (fd_mem t a)" using a by (simp add: fd_users_def)
  have "fd_wf (fd_put a t) \<and> fd_users (fd_put a t) = (fd_users t)(i := fd_users t i - 1)"
  proof (cases "fd_ref_count (fd_mem t a) = 1")
    case True
    have c: "clear_entry a (fds t) = (fds t)[i := None]" using clear_entry_at [OF a] fd_wfD(3) [OF w a] by blast
    have p: "fd_put a t = ?t\<lparr>fds := (fds t)[i := None]\<rparr>" using True c by (simp add: fd_put_def upd_fd_def Let_def)
    have o: "fds t ! j \<noteq> Some a" if "j < length (fds t)" "j \<noteq> i" for j using fd_wfD(3) [OF w a that(1)] that(2) by blast
    have "fd_wf (fd_put a t)"
      unfolding p
    proof (rule fd_wfI)
      show "length (fds (?t\<lparr>fds := (fds t)[i := None]\<rparr>)) \<le> DFS_FD_MAX" using w by (simp add: fd_wf_def)
    next
      fix j b
      assume j: "j < length (fds (?t\<lparr>fds := (fds t)[i := None]\<rparr>))" "fds (?t\<lparr>fds := (fds t)[i := None]\<rparr>) ! j = Some b"
      have ji: "j < length (fds t)" "j \<noteq> i" using j a(1) by auto
      then have j': "j < length (fds t)" "j \<noteq> i" "fds t ! j = Some b" using j(2) by simp_all
      then have "b \<noteq> a" using o by blast
      then show "0 < fd_ref_count (fd_mem (?t\<lparr>fds := (fds t)[i := None]\<rparr>) b) \<and>
          fd_magic (fd_mem (?t\<lparr>fds := (fds t)[i := None]\<rparr>) b) = DFS_FD_MAGIC"
        using fd_wfD(1,2) [OF w j'(1,3)] by (simp add: upd_fd_def)
      fix k
      assume "k < length (fds (?t\<lparr>fds := (fds t)[i := None]\<rparr>))" "fds (?t\<lparr>fds := (fds t)[i := None]\<rparr>) ! k = Some b"
      then show "k = j" using fd_wfD(3) [OF w j'(1,3), of k] a(1) by (cases "k = i") simp_all
    qed
    moreover have "fd_users (fd_put a t) j = ((fd_users t)(i := fd_users t i - 1)) j" for j
      using a(1) u True o [of j] unfolding p
      by (auto simp: fd_users_def upd_fd_def nth_list_update split: option.split)
    ultimately show ?thesis by blast
  next
    case False
    then have "fd_put a t = ?t" by (simp add: fd_put_def upd_fd_def Let_def)
    then show ?thesis using fd_count_users [OF w a, of "\<lambda>n. n - 1"] fd_wfD(1) [OF w a] False u by simp
  qed
  then show "fd_wf (fd_put a t)" "fd_users (fd_put a t) = (fd_users t)(i := fd_users t i - 1)" by simp_all
qed

end
