(* ===== verification/Msh.thy ===== *)
theory Msh
  imports KString "HOL-Library.Sublist"
begin

text \<open>
  The command interpreter of the shell (\<^verbatim>\<open>rt-thread/components/finsh/msh.c\<close>): splitting a command
  line in place, looking the command up in the table of exported functions, running it, and completing
  commands and paths. Splitting delivers the words and quoted strings of a reference definition, a
  command line is run with the function of its first word, and a completion is the longest common
  prefix of its candidates.
\<close>

section \<open>Splitting a command line\<close>

definition FINSH_ARG_MAX :: nat where "FINSH_ARG_MAX = 10"

definition is_blank :: "rt_uint8_t \<Rightarrow> bool" where
  "is_blank c \<longleftrightarrow> c = 0x20 \<or> c = 0x09"

text \<open>The loops of \<open>msh_split\<close>: \<open>p\<close> is both \<^verbatim>\<open>position\<close> and the distance of \<^verbatim>\<open>ptr\<close> from \<^verbatim>\<open>cmd\<close>.\<close>

function strip_blanks :: "nat \<Rightarrow> nat \<Rightarrow> cstr \<Rightarrow> nat \<times> cstr" where
  "strip_blanks len p cmd = (if is_blank (cmd p) \<and> p < len then strip_blanks len (Suc p) (cmd(p := 0)) else (p, cmd))"
  by pat_completeness auto

termination
  by (relation "measure (\<lambda>(len, p, cmd). len - p)") auto

function skip_string :: "nat \<Rightarrow> nat \<Rightarrow> cstr \<Rightarrow> nat" where
  "skip_string len p cmd =
    (if cmd p \<noteq> 0x22 \<and> p < len
     then skip_string len (if cmd p = 0x5c \<and> cmd (Suc p) = 0x22 then p + 2 else Suc p) cmd else p)"
  by pat_completeness auto

termination
  by (relation "measure (\<lambda>(len, p, cmd). len - p)") auto

function skip_word :: "nat \<Rightarrow> nat \<Rightarrow> cstr \<Rightarrow> nat" where
  "skip_word len p cmd = (if \<not> is_blank (cmd p) \<and> p < len then skip_word len (Suc p) cmd else p)"
  by pat_completeness auto

termination
  by (relation "measure (\<lambda>(len, p, cmd). len - p)") auto

declare strip_blanks.simps [simp del] skip_string.simps [simp del] skip_word.simps [simp del]

lemma strip_blanks_next:
  "strip_blanks len p cmd = (p1, cmd1) \<Longrightarrow>
    p \<le> p1 \<and> (p1 < len \<longrightarrow> \<not> is_blank (cmd1 p1)) \<and> (p \<le> len \<longrightarrow> p1 \<le> len) \<and>
    cmd1 = (\<lambda>i. if p \<le> i \<and> i < p1 then 0 else cmd i) \<and> (\<forall>i. p \<le> i \<and> i < p1 \<longrightarrow> is_blank (cmd i))"
proof (induction len p cmd arbitrary: p1 cmd1 rule: strip_blanks.induct)
  case (1 len p cmd)
  show ?case
  proof (cases "is_blank (cmd p) \<and> p < len")
    case True
    then have s: "strip_blanks len (Suc p) (cmd(p := 0)) = (p1, cmd1)" using 1(2) by (simp add: strip_blanks.simps [of len p])
    note IH = 1(1) [OF True s]
    have "cmd1 = (\<lambda>i. if p \<le> i \<and> i < p1 then 0 else cmd i)"
    proof
      fix i show "cmd1 i = (if p \<le> i \<and> i < p1 then 0 else cmd i)" using IH by (cases "i = p") auto
    qed
    moreover have "is_blank (cmd i)" if "p \<le> i" "i < p1" for i
      using IH True that by (cases "i = p") auto
    moreover have "Suc p \<le> p1" "p1 < len \<longrightarrow> \<not> is_blank (cmd1 p1)" "Suc p \<le> len \<longrightarrow> p1 \<le> len" using IH by blast+
    ultimately show ?thesis using True by auto
  next
    case False
    then have "p1 = p" "cmd1 = cmd" using 1(2) by (auto simp: strip_blanks.simps [of len p])
    then show ?thesis using False by (auto simp: fun_eq_iff)
  qed
qed

lemma skip_string_next: "p \<le> skip_string len p cmd"
  by (induction len p cmd rule: skip_string.induct) (subst skip_string.simps, force)

lemma skip_word_next:
  "p \<le> skip_word len p cmd \<and> (p \<le> len \<longrightarrow> skip_word len p cmd \<le> len) \<and>
   (skip_word len p cmd < len \<longrightarrow> is_blank (cmd (skip_word len p cmd))) \<and>
   (\<forall>i. p \<le> i \<and> i < skip_word len p cmd \<longrightarrow> \<not> is_blank (cmd i))"
proof (induction len p cmd rule: skip_word.induct)
  case (1 len p cmd)
  show ?case
  proof (cases "\<not> is_blank (cmd p) \<and> p < len")
    case True
    have eq: "skip_word len p cmd = skip_word len (Suc p) cmd" using True by (simp add: skip_word.simps [of len p])
    have "\<not> is_blank (cmd i)" if "p \<le> i" "i < skip_word len (Suc p) cmd" for i
      using 1 [OF True] True that by (cases "i = p") auto
    then show ?thesis unfolding eq using 1 [OF True] True by auto
  next
    case False
    then have "skip_word len p cmd = p" by (auto simp: skip_word.simps [of len p])
    then show ?thesis using False by auto
  qed
qed

lemma skip_word_more: "\<not> is_blank (cmd p) \<Longrightarrow> p < len \<Longrightarrow> p < skip_word len p cmd"
  using skip_word_next [of "Suc p" len cmd] by (subst skip_word.simps) simp

text \<open>\<open>argv\<close> holds the positions of the arguments found so far.\<close>

function split_loop :: "nat \<Rightarrow> nat \<Rightarrow> cstr \<Rightarrow> nat list \<Rightarrow> cstr \<times> nat list" where
  "split_loop len p cmd argv =
    (if p < len then
       case strip_blanks len p cmd of
         (p1, cmd1) \<Rightarrow>
           if length argv \<ge> FINSH_ARG_MAX then (cmd1, argv)
           else if p1 \<ge> len then (cmd1, argv)
           else if cmd1 p1 = 0x22 then
             let p2 = skip_string len (Suc p1) cmd1; argv1 = argv @ [Suc p1]
             in if p2 \<ge> len then (cmd1, argv1) else split_loop len (Suc p2) (cmd1(p2 := 0)) argv1
           else
             let p2 = skip_word len p1 cmd1; argv1 = argv @ [p1]
             in if p2 \<ge> len then (cmd1, argv1) else split_loop len p2 cmd1 argv1
     else (cmd, argv))"
  by pat_completeness auto

termination
proof (relation "measure (\<lambda>(len, p, cmd, argv). len - p)", goal_cases)
  case (2 len p cmd argv p1 cmd1 p2 argv1)
  then have "p \<le> p1" using strip_blanks_next [of len p cmd p1 cmd1] by simp
  with 2 show ?case using skip_string_next [of "Suc p1" len cmd1] by auto
next
  case (3 len p cmd argv p1 cmd1 p2 argv1)
  then have "p \<le> p1" "\<not> is_blank (cmd1 p1)" using strip_blanks_next [of len p cmd p1 cmd1] by auto
  with 3 show ?case using skip_word_more [of cmd1 p1 len] by auto
qed simp

declare split_loop.simps [simp del]

definition msh_split :: "cstr \<Rightarrow> nat \<Rightarrow> cstr \<times> nat list" where
  "msh_split cmd len = split_loop len 0 cmd []"

section \<open>Running a command line\<close>

record finsh_syscall =
  sc_name :: cstr
  sc_func :: nat

definition cmd_prefix :: "rt_uint8_t list" where
  "cmd_prefix = [0x5f, 0x5f, 0x63, 0x6d, 0x64, 0x5f]"

definition str_at :: "rt_uint8_t list \<Rightarrow> cstr" where
  "str_at xs i = (if i < length xs then xs ! i else 0)"

fun msh_get_cmd :: "finsh_syscall list \<Rightarrow> cstr \<Rightarrow> nat \<Rightarrow> nat option" where
  "msh_get_cmd [] cmd sz = None"
| "msh_get_cmd (c # cs) cmd sz =
    (if rt_strncmp (sc_name c) (str_at cmd_prefix) 6 \<noteq> 0 then msh_get_cmd cs cmd sz
     else if rt_strncmp (\<lambda>i. sc_name c (6 + i)) cmd sz = 0 \<and> sc_name c (6 + sz) = 0 then Some (sc_func c)
     else msh_get_cmd cs cmd sz)"

text \<open>What a command line leads to; a command is called with the memory of the line and the positions in it.\<close>

datatype msh_result = Nothing_to_do | Called nat cstr "nat list" | Script | Not_found cstr

definition msh_exec_cmd :: "finsh_syscall list \<Rightarrow> cstr \<Rightarrow> nat \<Rightarrow> msh_result option" where
  "msh_exec_cmd tbl cmd len =
    (let cmd0_size = skip_word len 0 cmd in
     if cmd0_size = 0 then None
     else case msh_get_cmd tbl cmd cmd0_size of
            None \<Rightarrow> None
          | Some f \<Rightarrow> (case msh_split cmd len of (cmd1, argv) \<Rightarrow> if argv = [] then None else Some (Called f cmd1 argv)))"

text \<open>The two loops that look for a character without a bound.\<close>

partial_function (option) trim_from :: "cstr \<Rightarrow> nat \<Rightarrow> nat option" where
  "trim_from cmd k = (if is_blank (cmd k) then trim_from cmd (Suc k) else Some k)"

partial_function (option) first_space :: "cstr \<Rightarrow> nat \<Rightarrow> nat option" where
  "first_space cmd k = (if cmd k \<noteq> 0x20 \<and> cmd k \<noteq> 0 then first_space cmd (Suc k) else Some k)"

text \<open>
  \<open>run_script\<close> tells whether \<^verbatim>\<open>msh_exec_script\<close> found and ran a script of that name; \<^verbatim>\<open>length\<close> is an unsigned
  32-bit number.
\<close>

definition msh_exec :: "finsh_syscall list \<Rightarrow> (cstr \<Rightarrow> nat \<Rightarrow> bool) \<Rightarrow> cstr \<Rightarrow> nat \<Rightarrow> msh_result option" where
  "msh_exec tbl run_script cmd0 length0 =
    (case trim_from cmd0 0 of
       None \<Rightarrow> None
     | Some k \<Rightarrow>
         let cmd = (\<lambda>i. cmd0 (k + i)); len = unat (of_nat length0 - of_nat k :: rt_uint32_t) in
         if len = 0 then Some Nothing_to_do
         else case msh_exec_cmd tbl cmd len of
                Some r \<Rightarrow> Some r
              | None \<Rightarrow>
                  if run_script cmd len then Some Script
                  else (case first_space cmd 0 of None \<Rightarrow> None | Some e \<Rightarrow> Some (Not_found (cmd(e := 0)))))"

section \<open>Completion\<close>

text \<open>The strings here are the text in front of their terminator.\<close>

fun str_common :: "rt_uint8_t list \<Rightarrow> rt_uint8_t list \<Rightarrow> nat" where
  "str_common (x # xs) (y # ys) = (if x = y then Suc (str_common xs ys) else 0)"
| "str_common _ _ = 0"

text \<open>A turn of the loops over the candidates: the first one that matched, and the length all have in common.\<close>

fun complete_step :: "rt_uint8_t list \<Rightarrow> rt_uint8_t list \<Rightarrow> rt_uint8_t list option \<times> nat \<Rightarrow> rt_uint8_t list option \<times> nat" where
  "complete_step pre name (best, min_length) =
    (if take (length pre) name = pre then
       let (best1, min1) = (if min_length = 0 then (name, length name) else (case best of Some b \<Rightarrow> (b, min_length) | None \<Rightarrow> (name, min_length)));
           len = str_common best1 name
       in (Some best1, if len < min1 then len else min1)
     else (best, min_length))"

definition complete_scan :: "rt_uint8_t list \<Rightarrow> rt_uint8_t list list \<Rightarrow> rt_uint8_t list option \<times> nat" where
  "complete_scan pre names = fold (complete_step pre) names (None, 0)"

text \<open>The file system: what \<^verbatim>\<open>getcwd\<close> returns and the entries of a directory that can be opened.\<close>

record msh_fs =
  fs_cwd :: "rt_uint8_t list"
  fs_dir :: "rt_uint8_t list \<Rightarrow> rt_uint8_t list list option"

text \<open>The position behind the last slash of the path.\<close>

fun last_slash :: "nat \<Rightarrow> nat option \<Rightarrow> rt_uint8_t list \<Rightarrow> nat option" where
  "last_slash i idx [] = idx"
| "last_slash i idx (c # cs) = last_slash (Suc i) (if c = 0x2f then Some (Suc i) else idx) cs"

text \<open>
  The memory from the path on: the last component of the path is replaced by what all candidates have in common, and
  terminated; nothing compares this with the room there is.
\<close>

definition parent_path :: "msh_fs \<Rightarrow> rt_uint8_t list \<Rightarrow> rt_uint8_t list" where
  "parent_path fs path =
    (if path \<noteq> [] \<and> hd path = 0x2f then []
     else if fs_cwd fs \<noteq> [] \<and> last (fs_cwd fs) = 0x2f then fs_cwd fs else fs_cwd fs @ [0x2f])"

definition path_index :: "rt_uint8_t list \<Rightarrow> nat" where
  "path_index path = (case last_slash 0 None path of None \<Rightarrow> 0 | Some i \<Rightarrow> i)"

definition msh_auto_complete_path :: "msh_fs \<Rightarrow> rt_uint8_t list \<Rightarrow> rt_uint8_t list" where
  "msh_auto_complete_path fs mem =
    (let path = takeWhile (\<lambda>c. c \<noteq> 0) mem; index = path_index path
     in case fs_dir fs (parent_path fs path @ take index path) of
          None \<Rightarrow> mem
        | Some entries \<Rightarrow>
            if drop index path = [] then mem
            else (case complete_scan (drop index path) entries of
                    (Some name, m) \<Rightarrow> if m \<noteq> 0 then memcpy_at mem index (take m name @ [0]) else mem
                  | (None, m) \<Rightarrow> mem))"

text \<open>The search for a space from the end; the first character is not looked at.\<close>

fun space_before :: "nat \<Rightarrow> rt_uint8_t list \<Rightarrow> nat option" where
  "space_before 0 xs = None"
| "space_before (Suc k) xs = (if Suc k < length xs \<and> xs ! Suc k = 0x20 then Some (Suc k) else space_before k xs)"

definition msh_auto_complete :: "msh_fs \<Rightarrow> rt_uint8_t list list \<Rightarrow> rt_uint8_t list \<Rightarrow> rt_uint8_t list" where
  "msh_auto_complete fs cmds mem =
    (let pre = takeWhile (\<lambda>c. c \<noteq> 0) mem in
     if pre = [] then mem
     else
       let mem1 = (case space_before (length pre) pre of
                     None \<Rightarrow> mem
                   | Some k \<Rightarrow> take (Suc k) mem @ msh_auto_complete_path fs (drop (Suc k) mem))
       in case complete_scan (takeWhile (\<lambda>c. c \<noteq> 0) mem1) cmds of
            (Some name, m) \<Rightarrow> memcpy_at mem1 0 (take m name)
          | (None, m) \<Rightarrow> mem1)"

section \<open>The words of a command line\<close>

text \<open>The text of a quoted string and what follows it, when it ends.\<close>

fun quoted :: "rt_uint8_t list \<Rightarrow> rt_uint8_t list \<times> rt_uint8_t list option" where
  "quoted [] = ([], None)"
| "quoted [c] = (if c = 0x22 then ([], Some []) else ([c], None))"
| "quoted (c # d # cs) =
    (if c = 0x22 then ([], Some (d # cs))
     else if c = 0x5c \<and> d = 0x22 then (case quoted cs of (q, r) \<Rightarrow> (c # d # q, r))
     else (case quoted (d # cs) of (q, r) \<Rightarrow> (c # q, r)))"

primrec tokens :: "nat \<Rightarrow> rt_uint8_t list \<Rightarrow> rt_uint8_t list list" where
  "tokens 0 xs = []"
| "tokens (Suc n) xs =
    (case dropWhile is_blank xs of
       [] \<Rightarrow> []
     | y # ys \<Rightarrow>
         if y = 0x22 then (case quoted ys of (q, None) \<Rightarrow> [q] | (q, Some r) \<Rightarrow> q # tokens n r)
         else takeWhile (\<lambda>c. \<not> is_blank c) (y # ys) # tokens n (dropWhile (\<lambda>c. \<not> is_blank c) (y # ys)))"

lemma tokens_Nil [simp]: "tokens n [] = []"
  by (cases n) simp_all

lemma tokens_not_Nil: "\<not> is_blank x \<Longrightarrow> tokens (Suc n) (x # xs) \<noteq> []"
  by (simp split: prod.split option.split)

lemma segment_split:
  assumes "p \<le> q" "q \<le> len" "\<forall>i. p \<le> i \<and> i < q \<longrightarrow> P (c i)" "q < len \<longrightarrow> \<not> P (c q)"
  shows "takeWhile P (map c [p..<len]) = map c [p..<q]" "dropWhile P (map c [p..<len]) = map c [q..<len]"
proof -
  have s: "map c [p..<len] = map c [p..<q] @ map c [q..<len]"
    using assms(1,2) by (metis le_Suc_ex map_append upt_add_eq_append)
  have all: "\<And>x. x \<in> set (map c [p..<q]) \<Longrightarrow> P x" using assms(3) by auto
  have "takeWhile P (map c [q..<len]) = []" "dropWhile P (map c [q..<len]) = map c [q..<len]"
    using assms(2,4) by (cases "q < len"; simp add: upt_conv_Cons)+
  then show "takeWhile P (map c [p..<len]) = map c [p..<q]" "dropWhile P (map c [p..<len]) = map c [q..<len]"
    unfolding s by (simp_all only: takeWhile_append2 [OF all] dropWhile_append2 [OF all] append_Nil2)
qed

lemma is_str_segment:
  assumes "a \<le> b" "\<forall>i. a \<le> i \<and> i < b \<longrightarrow> c i = d i \<and> d i \<noteq> 0" "c b = 0"
  shows "is_str (\<lambda>i. c (a + i)) (map d [a..<b])"
  using assms by (auto simp: is_str_def)

lemma skip_string_quoted:
  assumes "p \<le> len" "c len = 0"
  shows "skip_string len p c \<le> len \<and>
    quoted (map c [p..<len]) = (map c [p..<skip_string len p c],
      if skip_string len p c < len then Some (map c [Suc (skip_string len p c)..<len]) else None)"
  using assms
proof (induction len p c rule: skip_string.induct)
  case (1 len p c)
  consider (stop) "p = len \<or> c p = 0x22" | (esc) "p < len" "c p = 0x5c" "c (Suc p) = 0x22" |
      (char) "p < len" "c p \<noteq> 0x22" "\<not> (c p = 0x5c \<and> c (Suc p) = 0x22)"
    using 1(2) by force
  then show ?case
  proof cases
    case stop
    then have "skip_string len p c = p" by (auto simp: skip_string.simps [of len p])
    then show ?thesis using stop 1(2)
      by (cases "p < len"; cases "Suc p < len"; auto simp: upt_conv_Cons)
  next
    case esc
    then have "Suc p < len" using 1(3) by (cases "Suc p = len") auto
    moreover have "skip_string len p c = skip_string len (p + 2) c" using esc by (simp add: skip_string.simps [of len p])
    moreover have "p + 2 \<le> skip_string len (p + 2) c" by (rule skip_string_next)
    ultimately show ?thesis using 1 esc by (simp add: upt_conv_Cons)
  next
    case char
    have s: "skip_string len p c = skip_string len (Suc p) c" using char by (auto simp: skip_string.simps [of len p])
    have n: "Suc p \<le> skip_string len (Suc p) c" by (rule skip_string_next)
    show ?thesis using 1 char s n
      by (cases "Suc p < len") (auto simp: upt_conv_Cons skip_string.simps [of len len])
  qed
qed


text \<open>What the loop has achieved when it started at \<open>p\<close> with the memory \<open>c\<close>.\<close>

definition split_done :: "nat \<Rightarrow> nat \<Rightarrow> cstr \<Rightarrow> nat \<Rightarrow> cstr \<Rightarrow> nat list \<Rightarrow> bool" where
  "split_done len p c n c' new \<longleftrightarrow> (\<forall>i<p. c' i = c i) \<and> (\<forall>i\<ge>len. c' i = c i) \<and> (p < len \<and> is_blank (c p) \<longrightarrow> c' p = 0) \<and>
    list_all2 (\<lambda>a t. is_str (\<lambda>i. c' (a + i)) t) new (tokens n (map c [p..<len]))"

lemma split_done_stop:
  "p1 = len \<or> n = 0 \<Longrightarrow> p \<le> p1 \<Longrightarrow> p1 \<le> len \<Longrightarrow> \<forall>i. p \<le> i \<and> i < p1 \<longrightarrow> is_blank (c i) \<Longrightarrow>
    (p < len \<longrightarrow> p1 < len \<longrightarrow> \<not> is_blank (c p1)) \<Longrightarrow>
    split_done len p c n (\<lambda>i. if p \<le> i \<and> i < p1 then 0 else c i) []"
proof -
  assume *: "p1 = len \<or> n = 0" "p \<le> p1" "p1 \<le> len" "\<forall>i. p \<le> i \<and> i < p1 \<longrightarrow> is_blank (c i)"
    "p < len \<longrightarrow> p1 < len \<longrightarrow> \<not> is_blank (c p1)"
  have "tokens n (map c [p..<len]) = []"
  proof (cases n)
    case (Suc k)
    have "dropWhile is_blank (map c [p..<len]) = map c [p1..<len]" using * by (intro segment_split) auto
    then have e: "dropWhile is_blank (map c [p..<len]) = []" using *(1) Suc by simp
    show ?thesis unfolding Suc tokens.simps e by simp
  qed simp
  moreover have "p < len \<and> is_blank (c p) \<longrightarrow> p < p1" using *(2,5) by (cases "p = p1") auto
  ultimately show ?thesis using * by (auto simp: split_done_def)
qed

text \<open>An argument that starts at \<open>a\<close> and ends in front of \<open>b\<close>, with the rest still to come from \<open>r\<close> on.\<close>

lemma split_done_arg:
  assumes "p \<le> p1" "p1 < len" "p1 \<le> a" "a \<le> b" "b \<le> len" "\<forall>i. p \<le> i \<and> i < len \<longrightarrow> c i \<noteq> 0"
    and blanks: "\<forall>i. p \<le> i \<and> i < p1 \<longrightarrow> is_blank (c i)" "\<not> is_blank (c p1)"
    and tok: "tokens (Suc n) (map c [p1..<len]) = map c [a..<b] # tokens n (map c [r..<len])"
    and c': "\<forall>i<p1. c' i = (if p \<le> i then 0 else c i)" "\<forall>i\<ge>len. c' i = c i" "\<forall>i. a \<le> i \<and> i < b \<longrightarrow> c' i = c i" "c' b = 0"
    and rest: "list_all2 (\<lambda>a t. is_str (\<lambda>i. c' (a + i)) t) new (tokens n (map c [r..<len]))"
  shows "split_done len p c (Suc n) c' (a # new)"
proof -
  have "dropWhile is_blank (map c [p..<len]) = map c [p1..<len]" "dropWhile is_blank (map c [p1..<len]) = map c [p1..<len]"
    using assms(1,2) blanks by (intro segment_split; auto)+
  then have "tokens (Suc n) (map c [p..<len]) = tokens (Suc n) (map c [p1..<len])" by (simp only: tokens.simps)
  moreover have "is_str (\<lambda>i. c' (a + i)) (map c [a..<b])"
    using assms(1,3-6) c'(3,4) by (intro is_str_segment) auto
  moreover have "p < len \<and> is_blank (c p) \<longrightarrow> p < p1" using assms(1) blanks(2) by (cases "p = p1") auto
  ultimately show ?thesis using tok rest c'(1,2) assms(1) by (simp add: split_done_def)
qed

lemma tokens_word:
  assumes "p < len" "\<not> is_blank (c p)" "c p \<noteq> 0x22"
  shows "tokens (Suc n) (map c [p..<len]) =
    map c [p..<skip_word len p c] # tokens n (map c [skip_word len p c..<len])"
proof -
  have d: "dropWhile is_blank (map c [p..<len]) = c p # map c [Suc p..<len]" using assms by (simp add: upt_conv_Cons)
  have e: "c p # map c [Suc p..<len] = map c [p..<len]" using assms by (simp add: upt_conv_Cons)
  have "takeWhile (\<lambda>c. \<not> is_blank c) (map c [p..<len]) = map c [p..<skip_word len p c]"
      "dropWhile (\<lambda>c. \<not> is_blank c) (map c [p..<len]) = map c [skip_word len p c..<len]"
    using skip_word_next [of p len c] assms(1) by (intro segment_split; simp)+
  then show ?thesis unfolding tokens.simps d list.case unfolding e using assms(3) by simp
qed

lemma tokens_string:
  assumes "p < len" "c p = 0x22" "c len = 0"
  shows "tokens (Suc n) (map c [p..<len]) =
    map c [Suc p..<skip_string len (Suc p) c] # tokens n (map c [Suc (skip_string len (Suc p) c)..<len])"
proof -
  have d: "dropWhile is_blank (map c [p..<len]) = c p # map c [Suc p..<len]"
    using assms(1,2) by (simp add: upt_conv_Cons is_blank_def)
  show ?thesis unfolding tokens.simps d list.case using assms(2) skip_string_quoted [of "Suc p" len c] assms(1,3) by simp
qed


text \<open>The line from \<open>p\<close> on when the blanks up to \<open>p1\<close> have been cleared and an argument follows.\<close>

definition stripped :: "nat \<Rightarrow> nat \<Rightarrow> cstr \<Rightarrow> nat \<Rightarrow> cstr \<Rightarrow> bool" where
  "stripped len p c p1 c1 \<longleftrightarrow> strip_blanks len p c = (p1, c1) \<and> p < len \<and> p1 < len \<and> (\<forall>i. p \<le> i \<and> i < len \<longrightarrow> c i \<noteq> 0) \<and> c len = 0"

lemma strippedD:
  assumes "stripped len p c p1 c1"
  shows "p \<le> p1" "c1 = (\<lambda>i. if p \<le> i \<and> i < p1 then 0 else c i)" "\<not> is_blank (c1 p1)" "c1 len = 0"
    "p1 \<le> a \<Longrightarrow> map c1 [a..<len] = map c [a..<len]" "\<forall>i. p1 \<le> i \<and> i < len \<longrightarrow> c1 i \<noteq> 0"
proof -
  have s: "strip_blanks len p c = (p1, c1)" using assms by (simp add: stripped_def)
  show p: "p \<le> p1" and c1: "c1 = (\<lambda>i. if p \<le> i \<and> i < p1 then 0 else c i)" and "\<not> is_blank (c1 p1)"
    using strip_blanks_next [OF s] assms by (auto simp: stripped_def)
  show "c1 len = 0" "p1 \<le> a \<Longrightarrow> map c1 [a..<len] = map c [a..<len]" "\<forall>i. p1 \<le> i \<and> i < len \<longrightarrow> c1 i \<noteq> 0"
    using assms p by (auto simp: c1 stripped_def)
qed

lemma stripped_arg:
  assumes st: "stripped len p c p1 c1" and "p1 \<le> a" "a \<le> b" "b \<le> len"
    and tok: "tokens (Suc n) (map c1 [p1..<len]) = map c1 [a..<b] # tokens n (map c1 [r..<len])" "p1 \<le> r"
    and c': "\<forall>i<b. c' i = c1 i" "\<forall>i\<ge>len. c' i = c1 i" "c' b = 0"
    and rest: "list_all2 (\<lambda>a t. is_str (\<lambda>i. c' (a + i)) t) new (tokens n (map c1 [r..<len]))"
  shows "split_done len p c (Suc n) c' (a # new)"
proof (rule split_done_arg [where ?p1.0 = p1])
  note s = strippedD [OF st]
  have sb: "strip_blanks len p c = (p1, c1)" using st by (simp add: stripped_def)
  show "p \<le> p1" "p1 < len" "\<forall>i. p \<le> i \<and> i < len \<longrightarrow> c i \<noteq> 0" "\<not> is_blank (c p1)"
    using s st by (auto simp: stripped_def)
  show "\<forall>i. p \<le> i \<and> i < p1 \<longrightarrow> is_blank (c i)" using strip_blanks_next [OF sb] by blast
  have "map c1 [a..<b] = map c [a..<b]" using s(2) assms(2) by simp
  then show "tokens (Suc n) (map c [p1..<len]) = map c [a..<b] # tokens n (map c [r..<len])"
    using tok(1) unfolding s(5) [OF order.refl] s(5) [OF tok(2)] by simp
  show "list_all2 (\<lambda>a t. is_str (\<lambda>i. c' (a + i)) t) new (tokens n (map c [r..<len]))"
    using rest unfolding s(5) [OF tok(2)] .
  show "\<forall>i<p1. c' i = (if p \<le> i then 0 else c i)" "\<forall>i\<ge>len. c' i = c i" "\<forall>i. a \<le> i \<and> i < b \<longrightarrow> c' i = c i"
    using c' assms(2-4) s(1) st by (auto simp: s(2) stripped_def)
qed (use assms in auto)

lemma split_done_string:
  assumes st: "stripped len p c p1 c1" and q: "c1 p1 = 0x22" and p2: "p2 = skip_string len (Suc p1) c1"
    and rest: "if p2 < len then split_done len (Suc p2) (c1(p2 := 0)) n c' new else c' = c1 \<and> new = []"
  shows "split_done len p c (Suc n) c' (Suc p1 # new)"
proof -
  note s = strippedD [OF st]
  have p1: "p1 < len" using st by (simp add: stripped_def)
  have le: "Suc p1 \<le> p2" "p2 \<le> len"
    using skip_string_next [of "Suc p1" len c1] skip_string_quoted [of "Suc p1" len c1] p1 s(4) by (auto simp: p2)
  have m: "map (c1(p2 := 0)) [Suc p2..<len] = map c1 [Suc p2..<len]" by simp
  have tok: "tokens (Suc n) (map c1 [p1..<len]) = map c1 [Suc p1..<p2] # tokens n (map c1 [Suc p2..<len])"
    unfolding p2 by (rule tokens_string [of p1 len c1, OF p1 q s(4)])
  show ?thesis
    using rest [unfolded split_done_def m] le s(4) by (intro stripped_arg [OF st _ _ _ tok]) (auto split: if_splits)
qed

lemma split_done_word:
  assumes st: "stripped len p c p1 c1" and q: "c1 p1 \<noteq> 0x22" and p2: "p2 = skip_word len p1 c1"
    and rest: "if p2 < len then split_done len p2 c1 n c' new else c' = c1 \<and> new = []"
  shows "split_done len p c (Suc n) c' (p1 # new)"
proof -
  note s = strippedD [OF st]
  have p1: "p1 < len" using st by (simp add: stripped_def)
  have le: "p1 \<le> p2" "p2 \<le> len" "p2 < len \<longrightarrow> is_blank (c1 p2)" using skip_word_next [of p1 len c1] p1 by (auto simp: p2)
  have tok: "tokens (Suc n) (map c1 [p1..<len]) = map c1 [p1..<p2] # tokens n (map c1 [p2..<len])"
    unfolding p2 by (rule tokens_word [of p1 len c1, OF p1 s(3) q])
  show ?thesis
    using rest le s(4) by (intro stripped_arg [OF st _ _ _ tok]) (auto simp: split_done_def split: if_splits)
qed

lemma split_loop_step:
  assumes "p < len" "strip_blanks len p c = (p1, c1)"
  shows "split_loop len p c argv =
    (if FINSH_ARG_MAX \<le> length argv \<or> len \<le> p1 then (c1, argv)
     else if c1 p1 = 0x22 then
       let p2 = skip_string len (Suc p1) c1
       in if p2 < len then split_loop len (Suc p2) (c1(p2 := 0)) (argv @ [Suc p1]) else (c1, argv @ [Suc p1])
     else
       let p2 = skip_word len p1 c1 in if p2 < len then split_loop len p2 c1 (argv @ [p1]) else (c1, argv @ [p1]))"
  using assms by (subst split_loop.simps) (auto simp: Let_def)

lemma split_loop_done:
  assumes "p \<le> len" "\<forall>i. p \<le> i \<and> i < len \<longrightarrow> c i \<noteq> 0" "c len = 0" "split_loop len p c argv = (c', argv')"
  shows "\<exists>new. argv' = argv @ new \<and> split_done len p c (FINSH_ARG_MAX - length argv) c' new"
  using assms
proof (induction "len - p" arbitrary: p c argv rule: less_induct)
  case less
  obtain p1 c1 where s: "strip_blanks len p c = (p1, c1)" by fastforce
  note b = strip_blanks_next [OF s]
  consider (out) "p = len" | (stop) "p < len" "FINSH_ARG_MAX \<le> length argv \<or> len \<le> p1" |
      (arg) n where "stripped len p c p1 c1" "FINSH_ARG_MAX - length argv = Suc n"
    using less.prems(1-3) s
    by (cases "p = len"; cases "len \<le> p1"; cases "FINSH_ARG_MAX - length argv") (auto simp: stripped_def)
  then show ?case
  proof cases
    case out
    then have "c' = c" "argv' = argv" using less.prems(4) by (simp_all add: split_loop.simps [of len len])
    then show ?thesis using out by (simp add: split_done_def)
  next
    case stop
    then have "c' = c1" "argv' = argv" using less.prems(4) by (simp_all add: split_loop_step [OF _ s])
    moreover have "split_done len p c (FINSH_ARG_MAX - length argv) c1 []"
    proof -
      have c1: "c1 = (\<lambda>i. if p \<le> i \<and> i < p1 then 0 else c i)" using b by blast
      show ?thesis unfolding c1 using stop b by (intro split_done_stop) auto
    qed
    ultimately show ?thesis by auto
  next
    case (arg n)
    note st = strippedD [OF arg(1)]
    have p: "p < len" "p1 < len" "\<not> (FINSH_ARG_MAX \<le> length argv \<or> len \<le> p1)" using arg by (auto simp: stripped_def)
    have n: "FINSH_ARG_MAX - length (argv @ [x]) = n" for x using arg(2) by simp
    show ?thesis
    proof (cases "c1 p1 = 0x22")
      case True
      define p2 where "p2 = skip_string len (Suc p1) c1"
      have "Suc p1 \<le> p2" unfolding p2_def by (rule skip_string_next)
      have nx: "(if p2 < len then split_loop len (Suc p2) (c1(p2 := 0)) (argv @ [Suc p1]) else (c1, argv @ [Suc p1])) = (c', argv')"
        using less.prems(4) p True unfolding split_loop_step [OF p(1) s] Let_def p2_def by simp
      have "\<exists>new. argv' = (argv @ [Suc p1]) @ new \<and> (if p2 < len then split_done len (Suc p2) (c1(p2 := 0)) n c' new else c' = c1 \<and> new = [])"
        using less.hyps [of "Suc p2" "c1(p2 := 0)" "argv @ [Suc p1]"] nx p st \<open>Suc p1 \<le> p2\<close> unfolding n by (auto split: if_splits)
      then show ?thesis using split_done_string [OF arg(1) True p2_def] unfolding arg(2) by force
    next
      case False
      define p2 where "p2 = skip_word len p1 c1"
      have "p1 < p2" unfolding p2_def using st(3) p(2) by (intro skip_word_more) auto
      have nx: "(if p2 < len then split_loop len p2 c1 (argv @ [p1]) else (c1, argv @ [p1])) = (c', argv')"
        using less.prems(4) p False unfolding split_loop_step [OF p(1) s] Let_def p2_def by simp
      have "\<exists>new. argv' = (argv @ [p1]) @ new \<and> (if p2 < len then split_done len p2 c1 n c' new else c' = c1 \<and> new = [])"
        using less.hyps [of p2 c1 "argv @ [p1]"] nx p st \<open>p1 < p2\<close> unfolding n by (auto split: if_splits)
      then show ?thesis using split_done_word [OF arg(1) False p2_def] unfolding arg(2) by force
    qed
  qed
qed

theorem msh_split_tokens:
  assumes "is_str cmd xs" "msh_split cmd (length xs) = (cmd', argv)"
  shows "list_all2 (\<lambda>a t. is_str (\<lambda>i. cmd' (a + i)) t) argv (tokens FINSH_ARG_MAX xs) \<and> (\<forall>i\<ge>length xs. cmd' i = cmd i)"
proof -
  have "\<forall>i. 0 \<le> i \<and> i < length xs \<longrightarrow> cmd i \<noteq> 0" "cmd (length xs) = 0" "map cmd [0..<length xs] = xs"
    using assms(1) by (auto simp: is_str_def intro: nth_equalityI) (metis nth_mem)
  with split_loop_done [of 0 "length xs" cmd "[]" cmd' argv] assms(2) show ?thesis
    by (auto simp: msh_split_def split_done_def)
qed

text \<open>Words without blanks and quotes that are put together with blanks are found again.\<close>

fun unwords :: "rt_uint8_t list list \<Rightarrow> rt_uint8_t list" where
  "unwords [] = []"
| "unwords (w # ws) = w @ 0x20 # unwords ws"

definition plain_word :: "rt_uint8_t list \<Rightarrow> bool" where
  "plain_word w \<longleftrightarrow> w \<noteq> [] \<and> (\<forall>c\<in>set w. \<not> is_blank c \<and> c \<noteq> 0x22 \<and> c \<noteq> 0)"

lemma tokens_blank: "is_blank b \<Longrightarrow> tokens n (b # xs) = tokens n xs"
  by (cases n) simp_all

lemma tokens_unwords: "\<forall>w\<in>set ws. plain_word w \<Longrightarrow> tokens n (unwords ws) = take n ws"
proof (induction ws arbitrary: n)
  case (Cons w ws)
  obtain c cs where w: "w = c # cs" using Cons.prems by (cases w) (auto simp: plain_word_def)
  have pw: "\<forall>c\<in>set w. \<not> is_blank c" "\<not> is_blank c" "c \<noteq> 0x22" using Cons.prems w by (auto simp: plain_word_def)
  have bl: "is_blank 0x20" by (simp add: is_blank_def)
  have s: "takeWhile (\<lambda>c. \<not> is_blank c) (w @ 0x20 # unwords ws) = w" "dropWhile (\<lambda>c. \<not> is_blank c) (w @ 0x20 # unwords ws) = 0x20 # unwords ws"
    using pw(1) bl by (simp_all add: takeWhile_append dropWhile_append)
  have d: "dropWhile is_blank (w @ 0x20 # unwords ws) = c # cs @ 0x20 # unwords ws" using w pw(2) by simp
  have e: "c # cs @ 0x20 # unwords ws = w @ 0x20 # unwords ws" by (simp add: w)
  show ?case
  proof (cases n)
    case (Suc k)
    show ?thesis unfolding Suc unwords.simps tokens.simps d list.case unfolding e s
      using Cons.IH Cons.prems pw(3) by (simp add: tokens_blank [OF bl])
  qed simp
qed simp

section \<open>The command that is called\<close>

lemma names_agree_nonzero: "\<forall>i<n. ct i \<noteq> 0 \<Longrightarrow> names_agree cs ct n \<longleftrightarrow> (\<forall>i<n. cs i = ct i)"
proof
  assume nz: "\<forall>i<n. ct i \<noteq> 0" and ag: "names_agree cs ct n"
  have "i < n \<Longrightarrow> cs i = ct i" for i
  proof (induction i rule: less_induct)
    case (less i)
    then have "\<forall>k<i. cs k \<noteq> 0" using nz by (metis less_trans)
    then show ?case using ag less.prems by (simp add: names_agree_def)
  qed
  then show "\<forall>i<n. cs i = ct i" by blast
qed (simp add: names_agree_def)

lemma is_str_at: "0 \<notin> set xs \<Longrightarrow> is_str (str_at xs) xs"
  by (auto simp: is_str_def str_at_def)

lemma syscall_match:
  assumes "is_str cmd xs" "sz \<le> length xs"
  shows "rt_strncmp name (str_at cmd_prefix) 6 = 0 \<and> rt_strncmp (\<lambda>i. name (6 + i)) cmd sz = 0 \<and> name (6 + sz) = 0 \<longleftrightarrow>
    is_str name (cmd_prefix @ take sz xs)"
proof -
  have len: "length cmd_prefix = 6" and p0: "0 \<notin> set cmd_prefix" by (simp_all add: cmd_prefix_def)
  then have p: "\<forall>i<6. str_at cmd_prefix i \<noteq> 0" unfolding str_at_def by (metis nth_mem)
  have c: "\<forall>i< sz. cmd i \<noteq> 0" "\<forall>i< sz. cmd i = xs ! i" "0 \<notin> set (take sz xs)"
    using assms by (auto simp: is_str_def dest: in_set_takeD) (metis less_le_trans nth_mem)
  have "is_str name (cmd_prefix @ take sz xs) \<longleftrightarrow>
      (\<forall>i<6. name i = str_at cmd_prefix i) \<and> (\<forall>i< sz. name (6 + i) = cmd i) \<and> name (6 + sz) = 0"
    using len p0 c(2,3) assms(2)
    by (auto simp: is_str_def nth_append str_at_def) (metis add_diff_inverse_nat add_less_cancel_left)
  then show ?thesis by (simp add: rt_strncmp_0_iff names_agree_nonzero [OF p] names_agree_nonzero [OF c(1)])
qed

lemma msh_get_cmd_find:
  assumes "is_str cmd xs" "sz \<le> length xs"
  shows "msh_get_cmd tbl cmd sz = map_option sc_func (List.find (\<lambda>c. is_str (sc_name c) (cmd_prefix @ take sz xs)) tbl)"
proof (induction tbl)
  case (Cons c cs)
  then show ?case using syscall_match [OF assms, of "sc_name c"] by auto
qed simp

lemma trim_from_blanks:
  "\<forall>i<n. is_blank (cmd (k + i)) \<Longrightarrow> \<not> is_blank (cmd (k + n)) \<Longrightarrow> trim_from cmd k = Some (k + n)"
proof (induction n arbitrary: k)
  case (Suc n)
  have "trim_from cmd (Suc k) = Some (Suc k + n)" using Suc.prems by (intro Suc.IH) (auto dest: spec [of _ "Suc _"])
  then show ?case using Suc.prems by (subst trim_from.simps) (auto dest: spec [of _ 0])
qed (subst trim_from.simps, simp)

lemma first_space_str: "is_str (\<lambda>i. cmd (k + i)) xs \<Longrightarrow> first_space cmd k \<noteq> None"
proof (induction xs arbitrary: k)
  case Nil
  then show ?case by (subst first_space.simps) (simp add: is_str_Nil)
next
  case (Cons x xs)
  then have "first_space cmd (Suc k) \<noteq> None" by (intro Cons.IH) (simp add: is_str_Cons)
  then show ?case by (subst first_space.simps) simp
qed

lemma skip_word_takeWhile:
  assumes "is_str cmd xs"
  shows "take (skip_word (length xs) 0 cmd) xs = takeWhile (\<lambda>c. \<not> is_blank c) xs" "skip_word (length xs) 0 cmd \<le> length xs"
proof -
  have m: "map cmd [0..<length xs] = xs" using assms by (auto simp: is_str_def intro: nth_equalityI)
  show le: "skip_word (length xs) 0 cmd \<le> length xs" using skip_word_next [of 0 "length xs" cmd] by simp
  have "takeWhile (\<lambda>c. \<not> is_blank c) (map cmd [0..<length xs]) = map cmd [0..<skip_word (length xs) 0 cmd]"
    using skip_word_next [of 0 "length xs" cmd] by (intro segment_split) auto
  also have "\<dots> = take (skip_word (length xs) 0 cmd) (map cmd [0..<length xs])" using le by (simp add: take_map)
  finally show "take (skip_word (length xs) 0 cmd) xs = takeWhile (\<lambda>c. \<not> is_blank c) xs" unfolding m by simp
qed

text \<open>
  A command line that is not blank calls the command whose name is its first word, with its words as arguments, or is
  reported as not found.
\<close>

theorem msh_exec_calls:
  assumes str: "is_str cmd (bs @ x # xs)" and bs: "\<forall>b\<in>set bs. is_blank b" and x: "\<not> is_blank x"
    and small: "length (bs @ x # xs) < 2 ^ 32"
  shows "case List.find (\<lambda>c. is_str (sc_name c) (cmd_prefix @ takeWhile (\<lambda>c. \<not> is_blank c) (x # xs))) tbl of
    Some c \<Rightarrow> (\<exists>cmd' argv. msh_exec tbl run_script cmd (length (bs @ x # xs)) = Some (Called (sc_func c) cmd' argv) \<and>
      list_all2 (\<lambda>a t. is_str (\<lambda>i. cmd' (a + i)) t) argv (tokens FINSH_ARG_MAX (x # xs)))
  | None \<Rightarrow> (\<exists>r. msh_exec tbl run_script cmd (length (bs @ x # xs)) = Some r \<and> (r = Script \<or> (\<exists>cmd'. r = Not_found cmd')))"
proof -
  let ?c = "\<lambda>i. cmd (length bs + i)" and ?len = "length (x # xs)" and ?w = "takeWhile (\<lambda>c. \<not> is_blank c) (x # xs)"
  have c: "is_str ?c (x # xs)" using str by (auto simp: is_str_def nth_append)
  have "\<forall>i<length bs. is_blank (cmd i)" "cmd (length bs) = x"
    using str bs by (auto simp: is_str_def nth_append)
  then have trim: "trim_from cmd 0 = Some (length bs)" using trim_from_blanks [of "length bs" cmd 0] x by simp
  have len: "unat (of_nat (length (bs @ x # xs)) - of_nat (length bs) :: rt_uint32_t) = ?len"
  proof -
    have "of_nat (length (bs @ x # xs)) - of_nat (length bs) = (of_nat ?len :: rt_uint32_t)" by simp
    then show ?thesis using small by (simp only: unat_of_nat) (simp add: take_bit_nat_eq_self)
  qed
  define sz where "sz = skip_word ?len 0 ?c"
  have sz: "take sz (x # xs) = ?w" "sz \<le> ?len" unfolding sz_def by (rule skip_word_takeWhile [OF c])+
  have "sz \<noteq> 0" using sz(1) x by (cases sz) auto
  obtain c' argv where sp: "msh_split ?c ?len = (c', argv)" by fastforce
  note tk = msh_split_tokens [OF c sp]
  have "FINSH_ARG_MAX = Suc 9" by (simp add: FINSH_ARG_MAX_def)
  then have "tokens FINSH_ARG_MAX (x # xs) \<noteq> []" using tokens_not_Nil [OF x] by metis
  then have ne: "argv \<noteq> []" using tk by auto
  have ex: "msh_exec_cmd tbl ?c ?len = map_option (\<lambda>c. Called (sc_func c) c' argv)
      (List.find (\<lambda>c. is_str (sc_name c) (cmd_prefix @ ?w)) tbl)"
  proof -
    have "msh_get_cmd tbl ?c sz = map_option sc_func (List.find (\<lambda>c. is_str (sc_name c) (cmd_prefix @ ?w)) tbl)"
      using msh_get_cmd_find [OF c sz(2)] unfolding sz(1) .
    then show ?thesis unfolding msh_exec_cmd_def sp sz_def [symmetric] Let_def
      using \<open>sz \<noteq> 0\<close> ne by (simp del: takeWhile.simps split: option.split)
  qed
  obtain e where e: "first_space ?c 0 = Some e" using first_space_str [of ?c 0 "x # xs"] c by auto
  have "msh_exec tbl run_script cmd (length (bs @ x # xs)) = (case msh_exec_cmd tbl ?c ?len of Some r \<Rightarrow> Some r
      | None \<Rightarrow> if run_script ?c ?len then Some Script else Some (Not_found (?c(e := 0))))"
    unfolding msh_exec_def trim option.case Let_def len e by simp
  then show ?thesis unfolding ex using tk by (auto split: option.splits)
qed


section \<open>Completions are longest common prefixes\<close>

lemma str_common_iff: "k \<le> str_common xs ys \<longleftrightarrow> k \<le> length xs \<and> k \<le> length ys \<and> take k xs = take k ys"
proof (induction xs ys arbitrary: k rule: str_common.induct)
  case (1 x xs y ys)
  then show ?case by (cases k) auto
qed auto

text \<open>The state of the scan after the candidates \<open>cs\<close>.\<close>

definition scanned :: "rt_uint8_t list list \<Rightarrow> rt_uint8_t list option \<times> nat \<Rightarrow> bool" where
  "scanned cs st \<longleftrightarrow> (if cs = [] then st = (None, 0)
    else \<exists>m. st = (Some (hd cs), m) \<and> (\<forall>k. k \<le> m \<longleftrightarrow> k \<le> length (hd cs) \<and> (\<forall>c\<in>set cs. k \<le> length c \<and> take k c = take k (hd cs))))"

lemma scanned_step:
  assumes "scanned cs st" "pre \<noteq> []" "\<forall>c\<in>set cs. take (length pre) c = pre" "take (length pre) n = pre"
  shows "scanned (cs @ [n]) (complete_step pre n st)"
proof (cases "cs = []")
  case True
  then have "st = (None, 0)" using assms(1) by (simp add: scanned_def)
  moreover have "\<not> str_common n n < length n" using str_common_iff [of "length n" n n] by simp
  ultimately show ?thesis using assms(4) True by (simp add: scanned_def Let_def)
next
  case False
  let ?b = "hd cs"
  obtain m where st: "st = (Some ?b, m)"
      and m: "\<And>k. k \<le> m \<longleftrightarrow> k \<le> length ?b \<and> (\<forall>c\<in>set cs. k \<le> length c \<and> take k c = take k ?b)"
    using assms(1) False by (auto simp: scanned_def)
  have l: "length pre \<le> length c" if "take (length pre) c = pre" for c :: "rt_uint8_t list" using that by (metis length_take min.absorb_iff2 min.commute)
  have "length pre \<le> m" unfolding m using assms(3) l False by auto
  then have "m \<noteq> 0" using assms(2) by (cases pre) auto
  then have step: "complete_step pre n st = (Some ?b, min m (str_common ?b n))"
    using assms(4) by (simp add: st Let_def min_def)
  have "k \<le> min m (str_common ?b n) \<longleftrightarrow>
      k \<le> length ?b \<and> (\<forall>c\<in>set (cs @ [n]). k \<le> length c \<and> take k c = take k ?b)" for k
    by (auto simp: m str_common_iff)
  then show ?thesis unfolding step using False by (simp add: scanned_def)
qed

lemma complete_scan_scanned:
  assumes "pre \<noteq> []"
  shows "scanned (filter (\<lambda>n. take (length pre) n = pre) names) (complete_scan pre names)"
proof (induction names rule: rev_induct)
  case Nil
  then show ?case by (simp add: complete_scan_def scanned_def)
next
  case (snoc n names)
  show ?case
  proof (cases "take (length pre) n = pre")
    case True
    then show ?thesis using scanned_step [OF snoc assms _ True] by (simp add: complete_scan_def)
  next
    case False
    have "complete_step pre n st = st" for st using False by (cases st) simp
    then show ?thesis using snoc False by (simp add: complete_scan_def)
  qed
qed

theorem complete_scan_prefix:
  assumes "pre \<noteq> []" and cs: "cs = filter (\<lambda>n. take (length pre) n = pre) names" "cs \<noteq> []"
  shows "\<exists>b m. complete_scan pre names = (Some b, m) \<and> take m b = Longest_common_prefix (set cs) \<and> length pre \<le> m \<and> m \<le> length b"
proof -
  let ?b = "hd cs"
  obtain m where s: "complete_scan pre names = (Some ?b, m)"
      and m: "\<And>k. k \<le> m \<longleftrightarrow> k \<le> length ?b \<and> (\<forall>c\<in>set cs. k \<le> length c \<and> take k c = take k ?b)"
    using complete_scan_scanned [OF assms(1), of names] cs by (auto simp: scanned_def)
  have b: "?b \<in> set cs" "set cs \<noteq> {}" using cs(2) by auto
  have "Longest_common_prefix (set cs) = take m ?b"
  proof (rule Longest_common_prefix_eq [OF b(2)])
    show "\<forall>c\<in>set cs. prefix (take m ?b) c" using m [of m] by (metis order.refl take_is_prefix)
    have "length q \<le> length (take m ?b)" if "\<forall>c\<in>set cs. prefix q c" for q
    proof -
      have "take (length q) c = q \<and> length q \<le> length c" if "c \<in> set cs" for c
        using that \<open>\<forall>c\<in>set cs. prefix q c\<close> by (auto simp: prefix_def)
      then have "length q \<le> m" unfolding m using b(1) by auto
      then show ?thesis using m [of m] by simp
    qed
    then show "\<forall>qs. (\<forall>c\<in>set cs. prefix qs c) \<longrightarrow> length qs \<le> length (take m ?b)" by blast
  qed
  moreover have "length pre \<le> m"
    unfolding m using b(1) by (auto simp: cs(1)) (metis length_take min.absorb_iff2 min.commute)+
  ultimately show ?thesis using s m [of m] by auto
qed


lemma complete_scan_none:
  assumes "pre \<noteq> []" "filter (\<lambda>n. take (length pre) n = pre) names = []"
  shows "complete_scan pre names = (None, 0)"
  using complete_scan_scanned [OF assms(1), of names] assms(2) by (simp add: scanned_def)

text \<open>The text that completion makes of a terminated text: the reference for the routines that work in memory.\<close>

definition path_completion :: "msh_fs \<Rightarrow> rt_uint8_t list \<Rightarrow> rt_uint8_t list" where
  "path_completion fs path =
    (case fs_dir fs (parent_path fs path @ take (path_index path) path) of
       None \<Rightarrow> path
     | Some entries \<Rightarrow>
         let leaf = drop (path_index path) path; cs = filter (\<lambda>n. take (length leaf) n = leaf) entries
         in if leaf = [] \<or> cs = [] then path else take (path_index path) path @ Longest_common_prefix (set cs))"

definition text_completion :: "msh_fs \<Rightarrow> rt_uint8_t list list \<Rightarrow> rt_uint8_t list \<Rightarrow> rt_uint8_t list" where
  "text_completion fs cmds pre =
    (if pre = [] then pre
     else
       let pre1 = (case space_before (length pre) pre of None \<Rightarrow> pre | Some k \<Rightarrow> take (Suc k) pre @ path_completion fs (drop (Suc k) pre));
           cs = filter (\<lambda>n. take (length pre1) n = pre1) cmds
       in if cs = [] then pre1 else Longest_common_prefix (set cs))"

lemma memcpy_zeros:
  assumes "i \<le> length xs" "length xs \<le> i + length w" "i + length w \<le> length xs + k"
  shows "memcpy_at (xs @ replicate k 0 @ ys) i w = (take i xs @ w) @ replicate (length xs + k - (i + length w)) 0 @ ys"
  using assms by (simp add: memcpy_at_def)

lemma takeWhile_text: "0 \<notin> set xs \<Longrightarrow> 0 < k \<Longrightarrow> takeWhile (\<lambda>c. c \<noteq> 0) (xs @ replicate k (0 :: rt_uint8_t) @ ys) = xs"
  by (cases k) (auto simp: takeWhile_append takeWhile_eq_all_conv)

lemma last_slash_le: "idx = None \<or> (\<exists>j. idx = Some j \<and> j \<le> i) \<Longrightarrow> last_slash i idx xs = Some j \<Longrightarrow> j \<le> i + length xs"
  by (induction i idx xs rule: last_slash.induct) (fastforce split: if_splits)+

lemma path_index_le: "path_index path \<le> length path"
  using last_slash_le [of None 0 path] by (auto simp: path_index_def split: option.split)

text \<open>Room for the completion and its terminator.\<close>

lemma msh_auto_complete_path_text:
  assumes z: "0 \<notin> set path" "0 < k" and room: "length (path_completion fs path) < length path + k"
  shows "msh_auto_complete_path fs (path @ replicate k 0 @ ys) =
    path_completion fs path @ replicate (length path + k - length (path_completion fs path)) 0 @ ys"
proof (cases "fs_dir fs (parent_path fs path @ take (path_index path) path)")
  case None
  then show ?thesis using z by (simp add: msh_auto_complete_path_def takeWhile_text path_completion_def Let_def)
next
  case (Some es)
  let ?i = "path_index path"
  define leaf where "leaf = drop ?i path"
  define cs where "cs = filter (\<lambda>n. take (length leaf) n = leaf) es"
  have pc: "path_completion fs path = (if leaf = [] \<or> cs = [] then path else take ?i path @ Longest_common_prefix (set cs))"
    by (simp add: path_completion_def Some leaf_def cs_def Let_def)
  have ac: "msh_auto_complete_path fs (path @ replicate k 0 @ ys) = (if leaf = [] then path @ replicate k 0 @ ys
      else (case complete_scan leaf es of (Some name, m) \<Rightarrow> if m \<noteq> 0 then memcpy_at (path @ replicate k 0 @ ys) ?i (take m name @ [0])
        else path @ replicate k 0 @ ys | (None, m) \<Rightarrow> path @ replicate k 0 @ ys))"
    using z by (simp add: msh_auto_complete_path_def takeWhile_text Some leaf_def Let_def)
  consider (leaf) "leaf = []" | (none) "leaf \<noteq> []" "cs = []" | (some) "leaf \<noteq> []" "cs \<noteq> []" by blast
  then show ?thesis
  proof cases
    case leaf
    then show ?thesis unfolding ac pc by simp
  next
    case none
    then show ?thesis unfolding ac pc using complete_scan_none [OF none(1)] cs_def by simp
  next
    case some
    obtain b m where sc: "complete_scan leaf es = (Some b, m)" "take m b = Longest_common_prefix (set cs)" "length leaf \<le> m" "m \<le> length b"
      using complete_scan_prefix [OF some(1) cs_def some(2)] by blast
    have "m \<noteq> 0" using sc(3) some(1) by (cases leaf) auto
    have i: "?i \<le> length path" "length leaf = length path - ?i" by (simp_all add: path_index_le leaf_def)
    have r: "?i + m < length path + k" using room some sc(2,4) i by (auto simp: pc dest!: sym [of "take m b"])
    have "memcpy_at (path @ replicate k 0 @ ys) ?i (take m b @ [0]) = (take ?i path @ take m b @ [0]) @ replicate (length path + k - (?i + Suc m)) 0 @ ys"
      using i sc(3,4) r by (subst memcpy_zeros) auto
    also have "\<dots> = (take ?i path @ take m b) @ replicate (length path + k - (?i + m)) 0 @ ys"
      using r by (simp add: Suc_diff_Suc flip: replicate_Suc)
    finally have mc: "memcpy_at (path @ replicate k 0 @ ys) ?i (take m b @ [0]) = (take ?i path @ take m b) @ replicate (length path + k - (?i + m)) 0 @ ys" .
    have pl: "path_completion fs path = take ?i path @ take m b" using some by (simp only: pc sc(2)) simp
    have "length (path_completion fs path) = ?i + m" using i sc(4) unfolding pl by simp
    then show ?thesis using some(1) \<open>m \<noteq> 0\<close> unfolding ac sc(1) pl by (simp add: mc)
  qed
qed


text \<open>Completion puts no terminator into the text.\<close>

definition names_ok :: "msh_fs \<Rightarrow> rt_uint8_t list list \<Rightarrow> bool" where
  "names_ok fs cmds \<longleftrightarrow> (\<forall>n\<in>set cmds. 0 \<notin> set n) \<and> (\<forall>d es. fs_dir fs d = Some es \<longrightarrow> (\<forall>n\<in>set es. 0 \<notin> set n))"

lemma common_prefix_nul_free:
  assumes "cs = filter P names" "cs \<noteq> []" "\<forall>n\<in>set names. 0 \<notin> set n"
  shows "0 \<notin> set (Longest_common_prefix (set cs))"
proof -
  have "hd cs \<in> set cs" using assms(2) by simp
  then have "prefix (Longest_common_prefix (set cs)) (hd cs)" by (rule Longest_common_prefix_prefix)
  moreover have "0 \<notin> set (hd cs)" using \<open>hd cs \<in> set cs\<close> assms(1,3) by auto
  ultimately show ?thesis by (meson set_mono_prefix subsetD)
qed

lemma path_completion_nul_free:
  assumes "names_ok fs cmds" "0 \<notin> set path"
  shows "0 \<notin> set (path_completion fs path)"
proof (cases "fs_dir fs (parent_path fs path @ take (path_index path) path)")
  case (Some es)
  then have "\<forall>n\<in>set es. 0 \<notin> set n" using assms(1) by (auto simp: names_ok_def)
  then show ?thesis
    using assms(2) common_prefix_nul_free [OF refl, of _ es] by (auto simp: path_completion_def Some Let_def dest: in_set_takeD)
qed (simp add: path_completion_def assms(2))

text \<open>The line after the path in it was completed.\<close>

definition with_path :: "msh_fs \<Rightarrow> rt_uint8_t list \<Rightarrow> rt_uint8_t list" where
  "with_path fs pre = (case space_before (length pre) pre of None \<Rightarrow> pre | Some k \<Rightarrow> take (Suc k) pre @ path_completion fs (drop (Suc k) pre))"

lemma with_path_nul_free: "names_ok fs cmds \<Longrightarrow> 0 \<notin> set pre \<Longrightarrow> 0 \<notin> set (with_path fs pre)"
  using path_completion_nul_free [of fs cmds "drop _ pre"]
  by (auto simp: with_path_def split: option.split dest: in_set_takeD in_set_dropD)

lemma text_completion_eq:
  "pre \<noteq> [] \<Longrightarrow> text_completion fs cmds pre =
    (if filter (\<lambda>n. take (length (with_path fs pre)) n = with_path fs pre) cmds = [] then with_path fs pre
     else Longest_common_prefix (set (filter (\<lambda>n. take (length (with_path fs pre)) n = with_path fs pre) cmds)))"
  unfolding text_completion_def with_path_def [symmetric] Let_def by simp

lemma space_before_less: "space_before n xs = Some k \<Longrightarrow> 0 < k \<and> k < length xs"
  by (induction n) (auto split: if_splits)

lemma with_path_Nil: "with_path fs pre = [] \<longleftrightarrow> pre = []"
  by (auto simp: with_path_def dest!: space_before_less split: option.splits)

lemma with_path_memory:
  assumes "0 \<notin> set pre" "0 < k" "length (with_path fs pre) < length pre + k"
  shows "(case space_before (length pre) pre of None \<Rightarrow> pre @ replicate k 0 @ ys
      | Some j \<Rightarrow> take (Suc j) (pre @ replicate k 0 @ ys) @ msh_auto_complete_path fs (drop (Suc j) (pre @ replicate k 0 @ ys))) =
    with_path fs pre @ replicate (length pre + k - length (with_path fs pre)) 0 @ ys"
proof (cases "space_before (length pre) pre")
  case (Some j)
  have j: "Suc j \<le> length pre" using space_before_less [OF Some] by simp
  let ?p = "drop (Suc j) pre"
  have len: "length (with_path fs pre) = Suc j + length (path_completion fs ?p)" using j by (simp add: with_path_def Some)
  have "0 \<notin> set ?p" "0 < k" "length (path_completion fs ?p) < length ?p + k" using assms j len by (auto dest: in_set_dropD)
  from msh_auto_complete_path_text [OF this] show ?thesis using j len by (simp add: with_path_def Some)
qed (simp add: with_path_def)

theorem msh_auto_complete_text:
  assumes z: "0 \<notin> set pre" "names_ok fs cmds" and k: "0 < k" and room: "length (text_completion fs cmds pre) < length pre + k"
  shows "msh_auto_complete fs cmds (pre @ replicate k 0 @ ys) =
    text_completion fs cmds pre @ replicate (length pre + k - length (text_completion fs cmds pre)) 0 @ ys"
proof (cases "pre = []")
  case True
  then show ?thesis using k by (cases k) (simp_all add: msh_auto_complete_def text_completion_def)
next
  case False
  let ?p = "with_path fs pre"
  define cs where "cs = filter (\<lambda>n. take (length ?p) n = ?p) cmds"
  have tc: "text_completion fs cmds pre = (if cs = [] then ?p else Longest_common_prefix (set cs))"
    unfolding cs_def by (rule text_completion_eq [OF False])
  have p: "?p \<noteq> []" using False by (simp add: with_path_Nil)
  have scan: "cs \<noteq> [] \<Longrightarrow> \<exists>b m. complete_scan ?p cmds = (Some b, m) \<and> take m b = Longest_common_prefix (set cs) \<and> length ?p \<le> m \<and> m \<le> length b"
    using complete_scan_prefix [OF p cs_def] by blast
  then have "length ?p \<le> length (text_completion fs cmds pre)" unfolding tc by (auto dest!: sym [of "take _ _"])
  then have pr: "length ?p < length pre + k" using room by simp
  let ?k = "length pre + k - length ?p"
  have pk: "0 < ?k" using pr by simp
  have ac: "msh_auto_complete fs cmds (pre @ replicate k 0 @ ys) =
      (case complete_scan ?p cmds of (Some name, m) \<Rightarrow> memcpy_at (?p @ replicate ?k 0 @ ys) 0 (take m name) | (None, m) \<Rightarrow> ?p @ replicate ?k 0 @ ys)"
    unfolding msh_auto_complete_def takeWhile_text [OF z(1) k] Let_def with_path_memory [OF z(1) k pr]
      takeWhile_text [OF with_path_nul_free [OF z(2,1)] pk] using False by simp
  show ?thesis
  proof (cases "cs = []")
    case True
    then show ?thesis unfolding ac tc using complete_scan_none [OF p] cs_def by simp
  next
    case nonempty: False
    obtain b m where sc: "complete_scan ?p cmds = (Some b, m)" "take m b = Longest_common_prefix (set cs)" "length ?p \<le> m" "m \<le> length b"
      using scan [OF nonempty] by blast
    have tcb: "text_completion fs cmds pre = take m b" using nonempty by (simp only: tc sc(2) if_False)
    have "m < length pre + k" using room sc(4) unfolding tcb by simp
    then have "memcpy_at (?p @ replicate ?k 0 @ ys) 0 (take m b) = (take 0 ?p @ take m b) @ replicate (length ?p + ?k - (0 + length (take m b))) 0 @ ys"
      using sc(3,4) pr by (intro memcpy_zeros) auto
    then show ?thesis unfolding ac sc(1) tcb using pr sc(4) by simp
  qed
qed

lemma text_completion_nul_free:
  assumes "names_ok fs cmds" "0 \<notin> set pre"
  shows "0 \<notin> set (text_completion fs cmds pre)"
proof (cases "pre = []")
  case False
  then show ?thesis
    using with_path_nul_free [OF assms] common_prefix_nul_free [OF refl, of _ cmds] assms(1)
    by (auto simp: text_completion_eq names_ok_def)
qed (simp add: text_completion_def)

end
