(* ===== verification/Shell.thy ===== *)
theory Shell
  imports Msh
begin

text \<open>
  The line editor of the shell (\<^verbatim>\<open>rt-thread/components/finsh/shell.c\<close>): the keys of
  \<^verbatim>\<open>finsh_thread_entry\<close>, the cursor, the history and the hand-over of a line to \<open>msh_exec\<close>. Lines of
  less than \<open>FINSH_CMD_SIZE\<close> characters are edited like a text with a cursor, the history is a queue
  of the last five lines; a line of 80 characters leaves a buffer without a terminator, from which a few
  keys lead to accesses outside the buffer. What is printed on the console is not modelled.
\<close>

section \<open>State\<close>

definition FINSH_CMD_SIZE :: nat where "FINSH_CMD_SIZE = 80"
definition FINSH_HISTORY_LINES :: nat where "FINSH_HISTORY_LINES = 5"

datatype input_stat = WAIT_NORMAL | WAIT_SPEC_KEY | WAIT_FUNC_KEY

text \<open>
  \<open>sh_run\<close> collects what the lines handed to \<open>msh_exec\<close> led to; \<open>sh_fault\<close> is set by an access outside
  the line or the history.
\<close>

record finsh_shell =
  sh_stat :: input_stat
  sh_current_history :: rt_uint16_t
  sh_history_count :: rt_uint16_t
  sh_cmd_history :: "rt_uint8_t list list"
  sh_line :: "rt_uint8_t list"
  sh_line_position :: rt_uint16_t
  sh_line_curpos :: rt_uint16_t
  sh_run :: "msh_result option list"
  sh_fault :: bool

text \<open>The exported functions, by name, and the file system.\<close>

record shell_env =
  env_table :: "(rt_uint8_t list \<times> nat) list"
  env_fs :: msh_fs
  env_script :: "cstr \<Rightarrow> nat \<Rightarrow> bool"

definition env_syscalls :: "shell_env \<Rightarrow> finsh_syscall list" where
  "env_syscalls env = map (\<lambda>(n, f). \<lparr>sc_name = str_at n, sc_func = f\<rparr>) (env_table env)"

definition env_cmds :: "shell_env \<Rightarrow> rt_uint8_t list list" where
  "env_cmds env = map (drop 6) (filter (\<lambda>n. take 6 n = cmd_prefix) (map fst (env_table env)))"

section \<open>The line\<close>

text \<open>
  \<^verbatim>\<open>strlen(shell->line)\<close> reads on behind a line without terminator: in the structure the line is followed by the
  two bytes of \<^verbatim>\<open>line_position\<close> and the two bytes of \<^verbatim>\<open>line_curpos\<close>.
\<close>

definition shell_bytes :: "finsh_shell \<Rightarrow> rt_uint8_t list" where
  "shell_bytes s = sh_line s @ [ucast (sh_line_position s), ucast (drop_bit 8 (sh_line_position s)),
    ucast (sh_line_curpos s), ucast (drop_bit 8 (sh_line_curpos s))]"

fun c_strlen :: "rt_uint8_t list \<Rightarrow> nat option" where
  "c_strlen [] = None"
| "c_strlen (c # cs) = (if c = 0 then Some 0 else map_option Suc (c_strlen cs))"

definition shell_fault :: "finsh_shell \<Rightarrow> finsh_shell" where
  "shell_fault s = s\<lparr>sh_fault := True\<rparr>"

definition to_end_of_line :: "finsh_shell \<Rightarrow> finsh_shell" where
  "to_end_of_line s =
    (case c_strlen (shell_bytes s) of
       None \<Rightarrow> shell_fault s
     | Some n \<Rightarrow> s\<lparr>sh_line_position := of_nat n, sh_line_curpos := of_nat n\<rparr>)"

definition set_line_char :: "nat \<Rightarrow> rt_uint8_t \<Rightarrow> finsh_shell \<Rightarrow> finsh_shell" where
  "set_line_char i c s = (if i < FINSH_CMD_SIZE then s\<lparr>sh_line := (sh_line s)[i := c]\<rparr> else shell_fault s)"

text \<open>\<^verbatim>\<open>rt_memmove\<close> of \<open>n\<close> bytes inside the line.\<close>

definition move_line :: "nat \<Rightarrow> nat \<Rightarrow> nat \<Rightarrow> finsh_shell \<Rightarrow> finsh_shell" where
  "move_line d s n sh =
    (if d + n \<le> FINSH_CMD_SIZE \<and> s + n \<le> FINSH_CMD_SIZE
     then sh\<lparr>sh_line := memcpy_at (sh_line sh) d (take n (drop s (sh_line sh)))\<rparr> else shell_fault sh)"

section \<open>The history\<close>

definition history_row :: "nat \<Rightarrow> finsh_shell \<Rightarrow> rt_uint8_t list" where
  "history_row i s = (if i < length (sh_cmd_history s) then sh_cmd_history s ! i else [])"

text \<open>A row that is cleared and filled with the first \<^verbatim>\<open>line_position\<close> bytes of the line.\<close>

definition new_row :: "finsh_shell \<Rightarrow> rt_uint8_t list" where
  "new_row s = memcpy_at (replicate FINSH_CMD_SIZE 0) 0 (take (unat (sh_line_position s)) (sh_line s))"

definition set_row :: "nat \<Rightarrow> finsh_shell \<Rightarrow> finsh_shell" where
  "set_row i s =
    (if unat (sh_line_position s) \<le> FINSH_CMD_SIZE \<and> i < FINSH_HISTORY_LINES
     then s\<lparr>sh_cmd_history := (sh_cmd_history s)[i := new_row s]\<rparr> else shell_fault s)"

fun shift_rows :: "nat \<Rightarrow> nat \<Rightarrow> rt_uint8_t list list \<Rightarrow> rt_uint8_t list list" where
  "shift_rows 0 index rows = rows"
| "shift_rows (Suc n) index rows = shift_rows n (Suc index) (rows[index := rows ! Suc index])"

definition shell_push_history :: "finsh_shell \<Rightarrow> finsh_shell" where
  "shell_push_history s =
    (let s1 =
       (if sh_line_position s \<noteq> 0 then
          if unat (sh_history_count s) \<ge> FINSH_HISTORY_LINES then
            if history_row (FINSH_HISTORY_LINES - 1) s \<noteq> sh_line s then
              (set_row (FINSH_HISTORY_LINES - 1)
                 (s\<lparr>sh_cmd_history := shift_rows (FINSH_HISTORY_LINES - 1) 0 (sh_cmd_history s)\<rparr>))
                \<lparr>sh_history_count := of_nat FINSH_HISTORY_LINES\<rparr>
            else s
          else if sh_history_count s = 0 \<or> history_row (unat (sh_history_count s) - 1) s \<noteq> sh_line s then
            (set_row (unat (sh_history_count s)) (s\<lparr>sh_current_history := sh_history_count s\<rparr>))
              \<lparr>sh_history_count := sh_history_count s + 1\<rparr>
          else s
        else s)
     in s1\<lparr>sh_current_history := sh_history_count s1\<rparr>)"

definition load_history :: "finsh_shell \<Rightarrow> finsh_shell" where
  "load_history s =
    (if unat (sh_current_history s) < FINSH_HISTORY_LINES
     then to_end_of_line (s\<lparr>sh_line := history_row (unat (sh_current_history s)) s\<rparr>) else shell_fault s)"

section \<open>Keys\<close>

definition key_up :: "finsh_shell \<Rightarrow> finsh_shell" where
  "key_up s =
    (if sh_current_history s > 0 then load_history (s\<lparr>sh_current_history := sh_current_history s - 1\<rparr>)
     else s\<lparr>sh_current_history := 0\<rparr>)"

definition key_down :: "finsh_shell \<Rightarrow> finsh_shell" where
  "key_down s =
    (if int (unat (sh_current_history s)) < int (unat (sh_history_count s)) - 1
     then load_history (s\<lparr>sh_current_history := sh_current_history s + 1\<rparr>)
     else if sh_history_count s \<noteq> 0 then load_history (s\<lparr>sh_current_history := sh_history_count s - 1\<rparr>)
     else s)"

definition key_left :: "finsh_shell \<Rightarrow> finsh_shell" where
  "key_left s = (if sh_line_curpos s \<noteq> 0 then s\<lparr>sh_line_curpos := sh_line_curpos s - 1\<rparr> else s)"

definition key_right :: "finsh_shell \<Rightarrow> finsh_shell" where
  "key_right s = (if sh_line_curpos s < sh_line_position s then s\<lparr>sh_line_curpos := sh_line_curpos s + 1\<rparr> else s)"

text \<open>Completion works on the bytes from the line on; what it writes behind the line is a fault.\<close>

definition shell_auto_complete :: "shell_env \<Rightarrow> finsh_shell \<Rightarrow> finsh_shell" where
  "shell_auto_complete env s =
    (let mem = msh_auto_complete (env_fs env) (env_cmds env) (shell_bytes s) in
     if c_strlen (shell_bytes s) = None \<or> drop (length (sh_line s)) mem \<noteq> drop (length (sh_line s)) (shell_bytes s)
     then shell_fault s else s\<lparr>sh_line := take (length (sh_line s)) mem\<rparr>)"

definition key_tab :: "shell_env \<Rightarrow> finsh_shell \<Rightarrow> finsh_shell" where
  "key_tab env s = to_end_of_line (shell_auto_complete env s)"

definition key_backspace :: "finsh_shell \<Rightarrow> finsh_shell" where
  "key_backspace s =
    (if sh_line_curpos s = 0 then s
     else
       let s1 = s\<lparr>sh_line_position := sh_line_position s - 1, sh_line_curpos := sh_line_curpos s - 1\<rparr>;
           p = unat (sh_line_position s1); c = unat (sh_line_curpos s1)
       in if p > c then set_line_char p 0 (move_line c (Suc c) (p - c) s1) else set_line_char p 0 s1)"

definition key_enter :: "shell_env \<Rightarrow> finsh_shell \<Rightarrow> finsh_shell" where
  "key_enter env s =
    (let s1 = shell_push_history s;
         r = msh_exec (env_syscalls env) (env_script env) (str_at (shell_bytes s1)) (unat (sh_line_position s1))
     in s1\<lparr>sh_run := sh_run s1 @ [r], sh_line := replicate FINSH_CMD_SIZE 0, sh_line_position := 0, sh_line_curpos := 0\<rparr>)"

definition key_char :: "rt_uint8_t \<Rightarrow> finsh_shell \<Rightarrow> finsh_shell" where
  "key_char ch s =
    (let s1 = (if unat (sh_line_position s) \<ge> FINSH_CMD_SIZE then s\<lparr>sh_line_position := 0\<rparr> else s);
         p = unat (sh_line_position s1); c = unat (sh_line_curpos s1);
         s2 = (if c < p then set_line_char c ch (move_line (Suc c) c (p - c) s1) else set_line_char p ch s1);
         s3 = s2\<lparr>sh_line_position := sh_line_position s2 + 1, sh_line_curpos := sh_line_curpos s2 + 1\<rparr>
     in if unat (sh_line_position s3) \<ge> FINSH_CMD_SIZE then s3\<lparr>sh_line_position := 0, sh_line_curpos := 0\<rparr> else s3)"

definition plain_key :: "shell_env \<Rightarrow> rt_uint8_t \<Rightarrow> finsh_shell \<Rightarrow> finsh_shell" where
  "plain_key env ch s =
    (if ch = 0 \<or> ch = 0xff then s
     else if ch = 0x09 then key_tab env s
     else if ch = 0x7f \<or> ch = 0x08 then key_backspace s
     else if ch = 0x0d \<or> ch = 0x0a then key_enter env s
     else key_char ch s)"

text \<open>One turn of the loop of \<^verbatim>\<open>finsh_thread_entry\<close> for the character \<open>ch\<close>.\<close>

definition shell_key :: "shell_env \<Rightarrow> rt_uint8_t \<Rightarrow> finsh_shell \<Rightarrow> finsh_shell" where
  "shell_key env ch s =
    (if ch = 0x1b then s\<lparr>sh_stat := WAIT_SPEC_KEY\<rparr>
     else case sh_stat s of
            WAIT_SPEC_KEY \<Rightarrow>
              if ch = 0x5b then s\<lparr>sh_stat := WAIT_FUNC_KEY\<rparr> else plain_key env ch (s\<lparr>sh_stat := WAIT_NORMAL\<rparr>)
          | WAIT_FUNC_KEY \<Rightarrow>
              let s1 = s\<lparr>sh_stat := WAIT_NORMAL\<rparr> in
              if ch = 0x41 then key_up s1
              else if ch = 0x42 then key_down s1
              else if ch = 0x44 then key_left s1
              else if ch = 0x43 then key_right s1
              else plain_key env ch s1
          | WAIT_NORMAL \<Rightarrow> plain_key env ch s)"

definition shell_keys :: "shell_env \<Rightarrow> rt_uint8_t list \<Rightarrow> finsh_shell \<Rightarrow> finsh_shell" where
  "shell_keys env chs s = fold (shell_key env) chs s"

definition shell_init :: finsh_shell where
  "shell_init = \<lparr>sh_stat = WAIT_NORMAL, sh_current_history = 0, sh_history_count = 0,
    sh_cmd_history = replicate FINSH_HISTORY_LINES (replicate FINSH_CMD_SIZE 0), sh_line = replicate FINSH_CMD_SIZE 0,
    sh_line_position = 0, sh_line_curpos = 0, sh_run = [], sh_fault = False\<rparr>"


section \<open>The editor as a text with a cursor\<close>

text \<open>
  The reference: a text and a cursor in it, the lines of the history with the one that was shown last, and the lines
  that were entered. A key that would fill the line has no meaning here.
\<close>

record edit_state =
  ed_stat :: input_stat
  ed_text :: "rt_uint8_t list"
  ed_cursor :: nat
  ed_hist :: "rt_uint8_t list list"
  ed_shown :: nat
  ed_lines :: "rt_uint8_t list list"

definition ed_show :: "nat \<Rightarrow> edit_state \<Rightarrow> edit_state" where
  "ed_show i e = e\<lparr>ed_shown := i, ed_text := ed_hist e ! i, ed_cursor := length (ed_hist e ! i)\<rparr>"

definition ed_up :: "edit_state \<Rightarrow> edit_state" where
  "ed_up e = (if 0 < ed_shown e then ed_show (ed_shown e - 1) e else e)"

definition ed_down :: "edit_state \<Rightarrow> edit_state" where
  "ed_down e = (if ed_hist e = [] then e else ed_show (min (Suc (ed_shown e)) (length (ed_hist e) - 1)) e)"

definition ed_left :: "edit_state \<Rightarrow> edit_state" where
  "ed_left e = e\<lparr>ed_cursor := ed_cursor e - 1\<rparr>"

definition ed_right :: "edit_state \<Rightarrow> edit_state" where
  "ed_right e = e\<lparr>ed_cursor := min (Suc (ed_cursor e)) (length (ed_text e))\<rparr>"

definition ed_backspace :: "edit_state \<Rightarrow> edit_state" where
  "ed_backspace e = e\<lparr>ed_text := take (ed_cursor e - 1) (ed_text e) @ drop (ed_cursor e) (ed_text e), ed_cursor := ed_cursor e - 1\<rparr>"

definition ed_char :: "rt_uint8_t \<Rightarrow> edit_state \<Rightarrow> edit_state option" where
  "ed_char ch e = (if Suc (length (ed_text e)) < FINSH_CMD_SIZE
    then Some (e\<lparr>ed_text := take (ed_cursor e) (ed_text e) @ ch # drop (ed_cursor e) (ed_text e), ed_cursor := Suc (ed_cursor e)\<rparr>)
    else None)"

definition ed_tab :: "shell_env \<Rightarrow> edit_state \<Rightarrow> edit_state option" where
  "ed_tab env e = (let xs = text_completion (env_fs env) (env_cmds env) (ed_text e)
    in if length xs < FINSH_CMD_SIZE then Some (e\<lparr>ed_text := xs, ed_cursor := length xs\<rparr>) else None)"

definition push_line :: "rt_uint8_t list \<Rightarrow> rt_uint8_t list list \<Rightarrow> rt_uint8_t list list" where
  "push_line xs hs = (if xs = [] \<or> hs \<noteq> [] \<and> last hs = xs then hs
    else if length hs < FINSH_HISTORY_LINES then hs @ [xs] else tl hs @ [xs])"

definition ed_enter :: "edit_state \<Rightarrow> edit_state" where
  "ed_enter e = (let hs = push_line (ed_text e) (ed_hist e)
    in e\<lparr>ed_hist := hs, ed_shown := length hs, ed_lines := ed_lines e @ [ed_text e], ed_text := [], ed_cursor := 0\<rparr>)"

definition ed_plain :: "shell_env \<Rightarrow> rt_uint8_t \<Rightarrow> edit_state \<Rightarrow> edit_state option" where
  "ed_plain env ch e =
    (if ch = 0 \<or> ch = 0xff then Some e
     else if ch = 0x09 then ed_tab env e
     else if ch = 0x7f \<or> ch = 0x08 then Some (ed_backspace e)
     else if ch = 0x0d \<or> ch = 0x0a then Some (ed_enter e)
     else ed_char ch e)"

definition ed_key :: "shell_env \<Rightarrow> rt_uint8_t \<Rightarrow> edit_state \<Rightarrow> edit_state option" where
  "ed_key env ch e =
    (let n = e\<lparr>ed_stat := WAIT_NORMAL\<rparr> in
     if ch = 0x1b then Some (e\<lparr>ed_stat := WAIT_SPEC_KEY\<rparr>)
     else if ed_stat e = WAIT_SPEC_KEY \<and> ch = 0x5b then Some (e\<lparr>ed_stat := WAIT_FUNC_KEY\<rparr>)
     else if ed_stat e = WAIT_FUNC_KEY \<and> ch = 0x41 then Some (ed_up n)
     else if ed_stat e = WAIT_FUNC_KEY \<and> ch = 0x42 then Some (ed_down n)
     else if ed_stat e = WAIT_FUNC_KEY \<and> ch = 0x44 then Some (ed_left n)
     else if ed_stat e = WAIT_FUNC_KEY \<and> ch = 0x43 then Some (ed_right n)
     else ed_plain env ch n)"

fun ed_keys :: "shell_env \<Rightarrow> rt_uint8_t list \<Rightarrow> edit_state \<Rightarrow> edit_state option" where
  "ed_keys env [] e = Some e"
| "ed_keys env (ch # chs) e = (case ed_key env ch e of None \<Rightarrow> None | Some e1 \<Rightarrow> ed_keys env chs e1)"

definition ed_init :: edit_state where
  "ed_init = \<lparr>ed_stat = WAIT_NORMAL, ed_text = [], ed_cursor = 0, ed_hist = [], ed_shown = 0, ed_lines = []\<rparr>"

section \<open>The shell implements the editor\<close>

text \<open>A text in a row of the buffers.\<close>

definition row_of :: "rt_uint8_t list \<Rightarrow> rt_uint8_t list" where
  "row_of xs = xs @ replicate (FINSH_CMD_SIZE - length xs) 0"

definition line_text :: "rt_uint8_t list \<Rightarrow> bool" where
  "line_text xs \<longleftrightarrow> length xs < FINSH_CMD_SIZE \<and> 0 \<notin> set xs"

definition shows_line :: "finsh_shell \<Rightarrow> rt_uint8_t list \<Rightarrow> nat \<Rightarrow> bool" where
  "shows_line s xs k \<longleftrightarrow> line_text xs \<and> k \<le> length xs \<and> sh_line s = row_of xs \<and>
    sh_line_position s = of_nat (length xs) \<and> sh_line_curpos s = of_nat k"

definition shows_hist :: "finsh_shell \<Rightarrow> rt_uint8_t list list \<Rightarrow> nat \<Rightarrow> bool" where
  "shows_hist s hs i \<longleftrightarrow> length hs \<le> FINSH_HISTORY_LINES \<and> i \<le> length hs \<and> (\<forall>x\<in>set hs. line_text x) \<and>
    length (sh_cmd_history s) = FINSH_HISTORY_LINES \<and> take (length hs) (sh_cmd_history s) = map row_of hs \<and>
    sh_history_count s = of_nat (length hs) \<and> sh_current_history s = of_nat i"

definition ran_line :: "shell_env \<Rightarrow> msh_result option \<Rightarrow> rt_uint8_t list \<Rightarrow> bool" where
  "ran_line env r xs \<longleftrightarrow> (\<exists>m. is_str m xs \<and> r = msh_exec (env_syscalls env) (env_script env) m (length xs))"

definition edits :: "shell_env \<Rightarrow> finsh_shell \<Rightarrow> edit_state \<Rightarrow> bool" where
  "edits env s e \<longleftrightarrow> \<not> sh_fault s \<and> sh_stat s = ed_stat e \<and> shows_line s (ed_text e) (ed_cursor e) \<and>
    shows_hist s (ed_hist e) (ed_shown e) \<and> list_all2 (ran_line env) (sh_run s) (ed_lines e)"

lemmas shell_sizes = FINSH_CMD_SIZE_def FINSH_HISTORY_LINES_def

lemma unat_small [simp]: "n \<le> 80 \<Longrightarrow> unat (of_nat n :: rt_uint16_t) = n"
  by (simp add: unat_of_nat take_bit_nat_eq_self)

lemma of_nat_small: "n \<le> 80 \<Longrightarrow> m \<le> 80 \<Longrightarrow> (of_nat n :: rt_uint16_t) = of_nat m \<longleftrightarrow> n = m"
  by (metis unat_small)

lemma of_nat_small_less: "n \<le> 80 \<Longrightarrow> m \<le> 80 \<Longrightarrow> (of_nat n :: rt_uint16_t) < of_nat m \<longleftrightarrow> n < m"
  by (simp add: word_less_nat_alt)

lemma of_nat_small_zero: "n \<le> 80 \<Longrightarrow> (of_nat n :: rt_uint16_t) = 0 \<longleftrightarrow> n = 0"
  using of_nat_small [of n 0] by simp

lemma of_nat_pred: "0 < n \<Longrightarrow> (of_nat n :: rt_uint16_t) - 1 = of_nat (n - 1)"
  by (cases n) simp_all

lemmas small_words = of_nat_small of_nat_small_less of_nat_small_zero of_nat_pred

lemma length_row [simp]: "length xs \<le> FINSH_CMD_SIZE \<Longrightarrow> length (row_of xs) = FINSH_CMD_SIZE"
  by (simp add: row_of_def)

lemma row_inj: "line_text xs \<Longrightarrow> line_text ys \<Longrightarrow> row_of xs = row_of ys \<longleftrightarrow> xs = ys"
proof
  assume "line_text xs" "line_text ys" "row_of xs = row_of ys"
  moreover have "takeWhile (\<lambda>c. c \<noteq> 0) (row_of zs) = zs" if "line_text zs" for zs
    using that takeWhile_text [of zs "FINSH_CMD_SIZE - length zs" "[]"] by (simp add: row_of_def line_text_def)
  ultimately show "xs = ys" by metis
qed simp

lemma strlen_row: "line_text xs \<Longrightarrow> c_strlen (row_of xs @ ys) = Some (length xs)"
proof -
  have "0 \<notin> set xs \<Longrightarrow> 0 < n \<Longrightarrow> c_strlen (xs @ replicate n 0 @ ys) = Some (length xs)" for n
    by (induction xs) (cases n, auto)
  then show "line_text xs \<Longrightarrow> c_strlen (row_of xs @ ys) = Some (length xs)" by (simp add: row_of_def line_text_def)
qed

lemma to_end_of_line_row:
  "sh_line s = row_of xs \<Longrightarrow> line_text xs \<Longrightarrow>
    to_end_of_line s = s\<lparr>sh_line_position := of_nat (length xs), sh_line_curpos := of_nat (length xs)\<rparr>"
  by (simp add: to_end_of_line_def shell_bytes_def strlen_row)


lemma editsD:
  assumes "edits env s e"
  shows "length (ed_text e) < 80" "0 \<notin> set (ed_text e)" "ed_cursor e \<le> length (ed_text e)" "sh_line s = row_of (ed_text e)"
    "sh_line_position s = of_nat (length (ed_text e))" "sh_line_curpos s = of_nat (ed_cursor e)"
    "length (ed_hist e) \<le> 5" "ed_shown e \<le> length (ed_hist e)" "sh_history_count s = of_nat (length (ed_hist e))"
    "sh_current_history s = of_nat (ed_shown e)"
  using assms by (auto simp: edits_def shows_line_def shows_hist_def line_text_def shell_sizes)

text \<open>Keys that change the line only.\<close>

lemma edits_line:
  assumes "edits env s e" "line_text xs" "k \<le> length xs"
  shows "edits env (s\<lparr>sh_line := row_of xs, sh_line_position := of_nat (length xs), sh_line_curpos := of_nat k\<rparr>) (e\<lparr>ed_text := xs, ed_cursor := k\<rparr>)"
  using assms by (simp add: edits_def shows_line_def shows_hist_def)

lemma edits_cursor:
  assumes "edits env s e" "k \<le> length (ed_text e)"
  shows "edits env (s\<lparr>sh_line_curpos := of_nat k\<rparr>) (e\<lparr>ed_cursor := k\<rparr>)"
  using assms by (simp add: edits_def shows_line_def shows_hist_def)

lemma key_left_edits:
  assumes "edits env s e"
  shows "edits env (key_left s) (ed_left e)"
proof (cases "ed_cursor e = 0")
  case True
  have "key_left s = s" using editsD(6) [OF assms] True by (simp add: key_left_def)
  moreover have "ed_left e = e" using True by (simp add: ed_left_def)
  ultimately show ?thesis using assms by simp
next
  case False
  then have "key_left s = s\<lparr>sh_line_curpos := of_nat (ed_cursor e - 1)\<rparr>"
    using editsD(1,3,6) [OF assms] by (simp only: key_left_def small_words if_False) simp
  then show ?thesis using edits_cursor [OF assms, of "ed_cursor e - 1"] editsD(3) [OF assms] by (simp add: ed_left_def)
qed

lemma key_right_edits:
  assumes "edits env s e"
  shows "edits env (key_right s) (ed_right e)"
proof (cases "ed_cursor e < length (ed_text e)")
  case False
  then have "ed_cursor e = length (ed_text e)" using editsD(3) [OF assms] by simp
  then have "key_right s = s" "ed_right e = e" using editsD(5,6) [OF assms] by (simp_all add: key_right_def ed_right_def)
  then show ?thesis using assms by simp
next
  case True
  have "key_right s = s\<lparr>sh_line_curpos := of_nat (Suc (ed_cursor e))\<rparr>"
    using editsD(1,3,5,6) [OF assms] True by (simp add: key_right_def of_nat_small_less add.commute)
  then show ?thesis using edits_cursor [OF assms, of "Suc (ed_cursor e)"] True by (simp add: ed_right_def del: of_nat_Suc)
qed

text \<open>Inserting a character moves what is behind the cursor.\<close>

lemma insert_row:
  assumes "k \<le> length xs" "Suc (length xs) < FINSH_CMD_SIZE"
  shows "(memcpy_at (row_of xs) (Suc k) (take (length xs - k) (drop k (row_of xs))))[k := ch] = row_of (take k xs @ ch # drop k xs)"
proof (cases "k = length xs")
  case True
  have "row_of xs = xs @ 0 # replicate (FINSH_CMD_SIZE - Suc (length xs)) 0"
    using assms(2) by (simp add: row_of_def Suc_diff_Suc flip: replicate_Suc)
  then show ?thesis using assms True by (simp add: memcpy_at_def row_of_def list_update_append)
next
  case False
  then have k: "k < length xs" using assms(1) by simp
  have "memcpy_at (row_of xs) (Suc k) (take (length xs - k) (drop k (row_of xs))) =
      take k xs @ xs ! k # drop k xs @ replicate (FINSH_CMD_SIZE - Suc (length xs)) 0"
    using k assms(2) by (simp add: memcpy_at_def row_of_def take_Suc_conv_app_nth Suc_diff_Suc)
  then show ?thesis using k by (simp add: row_of_def list_update_append)
qed

lemma append_row:
  assumes "Suc (length xs) < FINSH_CMD_SIZE"
  shows "(row_of xs)[length xs := ch] = row_of (xs @ [ch])"
  using assms by (cases "FINSH_CMD_SIZE - length xs") (simp_all add: row_of_def list_update_append)

lemma key_char_edits:
  assumes ed: "edits env s e" and e': "ed_char ch e = Some e'" and ch: "ch \<noteq> 0"
  shows "edits env (key_char ch s) e'"
proof -
  let ?xs = "ed_text e" and ?k = "ed_cursor e"
  let ?ys = "take ?k ?xs @ ch # drop ?k ?xs"
  note d = editsD [OF ed]
  have room: "Suc (length ?xs) < FINSH_CMD_SIZE" and e'': "e' = e\<lparr>ed_text := ?ys, ed_cursor := Suc ?k\<rparr>"
    using e' by (auto simp: ed_char_def split: if_splits)
  have line: "line_text ?ys" using d(2) room ch by (auto simp: line_text_def dest: in_set_takeD in_set_dropD)
  have len: "length ?ys = Suc (length ?xs)" by simp
  have pos: "unat (sh_line_position s) = length ?xs" "unat (sh_line_curpos s) = ?k" "\<not> FINSH_CMD_SIZE \<le> length ?xs"
    using d room by (simp_all add: shell_sizes)
  have key: "key_char ch s = s\<lparr>sh_line := row_of ?ys, sh_line_position := of_nat (length ?ys), sh_line_curpos := of_nat (Suc ?k)\<rparr>"
    if "(if unat (sh_line_curpos s) < unat (sh_line_position s)
      then set_line_char (unat (sh_line_curpos s)) ch (move_line (Suc (unat (sh_line_curpos s))) (unat (sh_line_curpos s))
        (unat (sh_line_position s) - unat (sh_line_curpos s)) s)
      else set_line_char (unat (sh_line_position s)) ch s) = s\<lparr>sh_line := row_of ?ys\<rparr>"
  proof -
    have nxt: "sh_line_position s + 1 = of_nat (Suc (length ?xs))" "sh_line_curpos s + 1 = of_nat (Suc ?k)" using d(5,6) by simp_all
    have fits: "\<not> FINSH_CMD_SIZE \<le> unat (of_nat (Suc (length ?xs)) :: rt_uint16_t)"
      using room by (subst unat_small) (simp_all add: shell_sizes)
    have small: "\<not> FINSH_CMD_SIZE \<le> unat (sh_line_position s)" using pos by simp
    show ?thesis unfolding len key_char_def Let_def if_not_P [OF small] that using fits by (simp add: nxt del: of_nat_Suc)
  qed
  have "key_char ch s = s\<lparr>sh_line := row_of ?ys, sh_line_position := of_nat (length ?ys), sh_line_curpos := of_nat (Suc ?k)\<rparr>"
  proof (cases "?k < length ?xs")
    case True
    then have mv: "move_line (Suc ?k) ?k (length ?xs - ?k) s = s\<lparr>sh_line := memcpy_at (row_of ?xs) (Suc ?k) (take (length ?xs - ?k) (drop ?k (row_of ?xs)))\<rparr>"
      using d(4) room by (simp add: move_line_def)
    have "set_line_char ?k ch (move_line (Suc ?k) ?k (length ?xs - ?k) s) = s\<lparr>sh_line := row_of ?ys\<rparr>"
      using insert_row [OF d(3) room, of ch] True room by (simp add: mv set_line_char_def)
    then show ?thesis using True by (intro key) (simp add: pos)
  next
    case False
    then have "?k = length ?xs" using d(3) by simp
    then have "set_line_char (length ?xs) ch s = s\<lparr>sh_line := row_of ?ys\<rparr>"
      using append_row [OF room, of ch] room d(4) by (simp add: set_line_char_def)
    then show ?thesis using False by (intro key) (simp add: pos)
  qed
  then show ?thesis unfolding e'' using edits_line [OF ed line, of "Suc ?k"] d(3) by simp
qed


lemma delete_row:
  assumes "0 < k" "k \<le> length xs" "length xs < FINSH_CMD_SIZE"
  shows "k < length xs \<Longrightarrow> (memcpy_at (row_of xs) (k - 1) (take (length xs - k) (drop k (row_of xs))))[length xs - 1 := 0] =
      row_of (take (k - 1) xs @ drop k xs)"
    "k = length xs \<Longrightarrow> (row_of xs)[length xs - 1 := 0] = row_of (take (k - 1) xs @ drop k xs)"
proof -
  have last: "drop (length xs - 1) (row_of xs) = last xs # replicate (FINSH_CMD_SIZE - length xs) 0"
    using assms by (cases xs rule: rev_cases) (auto simp: row_of_def)
  have zeros: "replicate (FINSH_CMD_SIZE - (length xs - 1)) 0 = (0 :: rt_uint8_t) # replicate (FINSH_CMD_SIZE - length xs) 0"
    using assms by (simp add: Suc_diff_le flip: replicate_Suc)
  show "k < length xs \<Longrightarrow> (memcpy_at (row_of xs) (k - 1) (take (length xs - k) (drop k (row_of xs))))[length xs - 1 := 0] =
      row_of (take (k - 1) xs @ drop k xs)"
  proof -
    assume k: "k < length xs"
    let ?ys = "take (k - 1) xs @ drop k xs"
    have m: "memcpy_at (row_of xs) (k - 1) (take (length xs - k) (drop k (row_of xs))) =
        ?ys @ last xs # replicate (FINSH_CMD_SIZE - length xs) 0"
      using assms k by (simp add: memcpy_at_def last [symmetric]) (simp add: row_of_def)
    have l: "length ?ys = length xs - 1" using assms k by simp
    show ?thesis unfolding m unfolding row_of_def l zeros unfolding l [symmetric] list_update_length by simp
  qed
  show "k = length xs \<Longrightarrow> (row_of xs)[length xs - 1 := 0] = row_of (take (k - 1) xs @ drop k xs)"
  proof -
    assume k: "k = length xs"
    let ?ys = "take (k - 1) xs @ drop k xs"
    have m: "row_of xs = ?ys @ last xs # replicate (FINSH_CMD_SIZE - length xs) 0"
      using assms k by (cases xs rule: rev_cases) (auto simp: row_of_def)
    have l: "length ?ys = length xs - 1" using assms k by simp
    show ?thesis unfolding m unfolding row_of_def l zeros unfolding l [symmetric] list_update_length by simp
  qed
qed


lemma key_backspace_edits:
  assumes ed: "edits env s e"
  shows "edits env (key_backspace s) (ed_backspace e)"
proof (cases "ed_cursor e = 0")
  case True
  then have "key_backspace s = s" "ed_backspace e = e" using editsD(6) [OF ed] by (simp_all add: key_backspace_def ed_backspace_def)
  then show ?thesis using ed by simp
next
  case False
  let ?xs = "ed_text e" and ?k = "ed_cursor e"
  let ?ys = "take (?k - 1) ?xs @ drop ?k ?xs"
  note d = editsD [OF ed]
  have k: "0 < ?k" "?k \<le> length ?xs" "length ?xs < FINSH_CMD_SIZE" using False d by (simp_all add: shell_sizes)
  have line: "line_text ?ys" "length ?ys = length ?xs - 1" using d(2) k by (auto simp: line_text_def dest: in_set_takeD in_set_dropD)
  let ?s1 = "s\<lparr>sh_line_position := of_nat (length ?xs - 1), sh_line_curpos := of_nat (?k - 1)\<rparr>"
  have s1: "s\<lparr>sh_line_position := sh_line_position s - 1, sh_line_curpos := sh_line_curpos s - 1\<rparr> = ?s1"
  proof -
    have "sh_line_position s - 1 = of_nat (length ?xs - 1)" unfolding d(5) by (rule of_nat_pred) (use k in linarith)
    moreover have "sh_line_curpos s - 1 = of_nat (?k - 1)" unfolding d(6) by (rule of_nat_pred [OF k(1)])
    ultimately show ?thesis by simp
  qed
  have pos: "unat (sh_line_position ?s1) = length ?xs - 1" "unat (sh_line_curpos ?s1) = ?k - 1"
    using d(1,3) by simp_all
  have c0: "sh_line_curpos s \<noteq> 0" using d(1,3,6) k by (simp add: of_nat_small_zero)
  have kb: "key_backspace s = (if length ?xs - 1 > ?k - 1
      then set_line_char (length ?xs - 1) 0 (move_line (?k - 1) (Suc (?k - 1)) (length ?xs - 1 - (?k - 1)) ?s1)
      else set_line_char (length ?xs - 1) 0 ?s1)"
    unfolding key_backspace_def s1 Let_def if_not_P [OF c0] pos by (rule refl)
  have kb': "key_backspace s = ?s1\<lparr>sh_line := row_of ?ys\<rparr>"
  proof (cases "?k < length ?xs")
    case True
    have n: "length ?xs - 1 - (?k - 1) = length ?xs - ?k" "Suc (?k - 1) = ?k" using k by simp_all
    show ?thesis unfolding kb n using True k delete_row(1) [OF k True] d(4)
      by (simp add: move_line_def set_line_char_def)
  next
    case False
    then show ?thesis unfolding kb using k delete_row(2) [OF k] d(4) by (simp add: set_line_char_def)
  qed
  have upd: "?s1\<lparr>sh_line := row_of ?ys\<rparr> = s\<lparr>sh_line := row_of ?ys, sh_line_position := of_nat (length ?ys), sh_line_curpos := of_nat (?k - 1)\<rparr>"
    unfolding line(2) by (cases s) simp
  have "?k - 1 \<le> length ?ys" unfolding line(2) using k by simp
  then show ?thesis unfolding kb' upd ed_backspace_def by (rule edits_line [OF ed line(1)])
qed

lemma key_tab_edits:
  assumes ed: "edits env s e" and e': "ed_tab env e = Some e'" and ok: "names_ok (env_fs env) (env_cmds env)"
  shows "edits env (key_tab env s) e'"
proof -
  let ?xs = "ed_text e" and ?ys = "text_completion (env_fs env) (env_cmds env) (ed_text e)"
  note d = editsD [OF ed]
  define tail where "tail = drop (length (sh_line s)) (shell_bytes s)"
  have room: "length ?ys < FINSH_CMD_SIZE" and e'': "e' = e\<lparr>ed_text := ?ys, ed_cursor := length ?ys\<rparr>"
    using e' by (auto simp: ed_tab_def Let_def split: if_splits)
  have line: "line_text ?xs" "line_text ?ys" using d(1,2) room text_completion_nul_free [OF ok d(2)] by (auto simp: line_text_def shell_sizes)
  have sb: "shell_bytes s = row_of ?xs @ tail" "length (row_of ?xs) = FINSH_CMD_SIZE" "length (row_of ?ys) = FINSH_CMD_SIZE"
    using d(1,4) room by (auto simp: shell_bytes_def tail_def shell_sizes)
  have "msh_auto_complete (env_fs env) (env_cmds env) (row_of ?xs @ tail) = row_of ?ys @ tail"
    using msh_auto_complete_text [OF d(2) ok, of "FINSH_CMD_SIZE - length ?xs" tail] d(1) room
    by (simp add: row_of_def shell_sizes)
  then have "shell_auto_complete env s = s\<lparr>sh_line := row_of ?ys\<rparr>"
    using sb strlen_row [OF line(1)] d(4) by (simp add: shell_auto_complete_def Let_def)
  then have "key_tab env s = s\<lparr>sh_line := row_of ?ys, sh_line_position := of_nat (length ?ys), sh_line_curpos := of_nat (length ?ys)\<rparr>"
    unfolding key_tab_def by (subst to_end_of_line_row [OF _ line(2)]) simp_all
  then show ?thesis unfolding e'' using edits_line [OF ed line(2)] by simp
qed


section \<open>The history implements the queue of lines\<close>

text \<open>Showing a line of the history.\<close>

lemma load_history_edits:
  assumes ed: "edits env s e" and i: "i < length (ed_hist e)"
  shows "edits env (load_history (s\<lparr>sh_current_history := of_nat i\<rparr>)) (ed_show i e)"
proof -
  let ?x = "ed_hist e ! i" and ?s = "s\<lparr>sh_current_history := of_nat i\<rparr>"
  have h: "shows_hist s (ed_hist e) (ed_shown e)" using ed by (simp add: edits_def)
  have x: "line_text ?x" using h i by (simp add: shows_hist_def)
  have i5: "i < FINSH_HISTORY_LINES" "i < length (sh_cmd_history s)" using h i by (auto simp: shows_hist_def)
  have "sh_cmd_history s ! i = row_of ?x" using h i by (metis length_map nth_map nth_take shows_hist_def)
  then have row: "history_row (unat (sh_current_history ?s)) ?s = row_of ?x" "unat (sh_current_history ?s) < FINSH_HISTORY_LINES"
    using i5 by (simp_all add: history_row_def shell_sizes)
  have "edits env ?s (e\<lparr>ed_shown := i\<rparr>)" using ed i by (simp add: edits_def shows_line_def shows_hist_def)
  from edits_line [OF this x order.refl] show ?thesis
    unfolding load_history_def row(1) using row(2)
    by (simp add: to_end_of_line_row [OF _ x] ed_show_def)
qed

lemma key_up_edits:
  assumes ed: "edits env s e"
  shows "edits env (key_up s) (ed_up e)"
proof (cases "ed_shown e = 0")
  case True
  then have "sh_current_history s = 0" using editsD(10) [OF ed] by simp
  then have "key_up s = s" "ed_up e = e" using True by (simp_all add: key_up_def ed_up_def)
  then show ?thesis using ed by simp
next
  case False
  have c: "sh_current_history s = of_nat (ed_shown e)" "ed_shown e \<le> 80" using editsD(7,8,10) [OF ed] by simp_all
  have "sh_current_history s > 0" using c False by (simp add: word_greater_zero_iff of_nat_small_zero)
  moreover have "sh_current_history s - 1 = of_nat (ed_shown e - 1)" unfolding c(1) using False by (intro of_nat_pred) simp
  ultimately have "key_up s = load_history (s\<lparr>sh_current_history := of_nat (ed_shown e - 1)\<rparr>)" by (simp only: key_up_def if_True)
  then show ?thesis using load_history_edits [OF ed, of "ed_shown e - 1"] False editsD(8) [OF ed] by (simp add: ed_up_def)
qed

lemma key_down_edits:
  assumes ed: "edits env s e"
  shows "edits env (key_down s) (ed_down e)"
proof -
  note d = editsD(7-10) [OF ed]
  have u: "unat (sh_current_history s) = ed_shown e" "unat (sh_history_count s) = length (ed_hist e)" using d by simp_all
  consider (none) "ed_hist e = []" | (more) "Suc (ed_shown e) < length (ed_hist e)" | (last) "ed_hist e \<noteq> []" "\<not> Suc (ed_shown e) < length (ed_hist e)"
    by fastforce
  then show ?thesis
  proof cases
    case none
    then have "key_down s = s" "ed_down e = e" using d by (simp_all add: key_down_def ed_down_def)
    then show ?thesis using ed by simp
  next
    case more
    have "sh_current_history s + 1 = of_nat (Suc (ed_shown e))" using d by simp
    then have "key_down s = load_history (s\<lparr>sh_current_history := of_nat (Suc (ed_shown e))\<rparr>)"
      using more by (simp only: key_down_def u) simp
    moreover have "ed_down e = ed_show (Suc (ed_shown e)) e" using more by (auto simp: ed_down_def min_def)
    ultimately show ?thesis using load_history_edits [OF ed more] by simp
  next
    case last
    have "sh_history_count s - 1 = of_nat (length (ed_hist e) - 1)" unfolding d(3) using last by (intro of_nat_pred) simp
    moreover have "sh_history_count s \<noteq> 0" using d last by (simp add: of_nat_small_zero)
    ultimately have "key_down s = load_history (s\<lparr>sh_current_history := of_nat (length (ed_hist e) - 1)\<rparr>)"
      using last by (simp only: key_down_def u) simp
    moreover have "ed_down e = ed_show (length (ed_hist e) - 1) e" using last by (simp add: ed_down_def min_def)
    ultimately show ?thesis using load_history_edits [OF ed, of "length (ed_hist e) - 1"] last by simp
  qed
qed


text \<open>Pushing a line.\<close>

lemma shift_rows_all: "length rows = FINSH_HISTORY_LINES \<Longrightarrow> shift_rows (FINSH_HISTORY_LINES - 1) 0 rows = tl rows @ [last rows]"
  by (auto simp: shell_sizes numeral_eq_Suc length_Suc_conv)

lemma set_row_line:
  assumes "line_text xs" "sh_line s = row_of xs" "sh_line_position s = of_nat (length xs)" "i < FINSH_HISTORY_LINES"
  shows "set_row i s = s\<lparr>sh_cmd_history := (sh_cmd_history s)[i := row_of xs]\<rparr>"
proof -
  have l: "length xs < 80" using assms(1) by (simp add: line_text_def shell_sizes)
  then have "new_row s = row_of xs" using assms(2,3) by (simp add: new_row_def memcpy_at_def row_of_def shell_sizes)
  then show ?thesis using assms(3,4) l by (simp add: set_row_def shell_sizes)
qed

definition with_history :: "finsh_shell \<Rightarrow> rt_uint8_t list list \<Rightarrow> nat \<Rightarrow> finsh_shell" where
  "with_history s rows n = s\<lparr>sh_cmd_history := rows, sh_history_count := of_nat n, sh_current_history := of_nat n\<rparr>"

lemma history_last_row:
  assumes ed: "edits env s e" and ne: "ed_hist e \<noteq> []"
  shows "history_row (length (ed_hist e) - 1) s \<noteq> sh_line s \<longleftrightarrow> last (ed_hist e) \<noteq> ed_text e"
proof -
  let ?h = "ed_hist e" and ?rows = "sh_cmd_history s"
  have h: "length ?rows = FINSH_HISTORY_LINES" "take (length ?h) ?rows = map row_of ?h" "\<forall>x\<in>set ?h. line_text x" "line_text (ed_text e)"
    using ed by (auto simp: edits_def shows_hist_def shows_line_def)
  have i: "length ?h - 1 < length ?h" "length ?h - 1 < length ?rows"
    using ne h(1) editsD(7) [OF ed] by (cases ?h; simp add: shell_sizes)+
  then have "?rows ! (length ?h - 1) = row_of (last ?h)" using h(2) ne by (metis last_conv_nth nth_map nth_take)
  then have "history_row (length ?h - 1) s = row_of (last ?h)" using i by (simp add: history_row_def)
  then show ?thesis using row_inj [of "last ?h" "ed_text e"] h(3,4) ne editsD(4) [OF ed] by simp
qed

lemma push_history_rows:
  assumes ed: "edits env s e" and hs: "hs = push_line (ed_text e) (ed_hist e)"
  shows "\<exists>rows. shell_push_history s = with_history s rows (length hs) \<and> length rows = FINSH_HISTORY_LINES \<and>
    take (length hs) rows = map row_of hs"
proof -
  let ?xs = "ed_text e" and ?h = "ed_hist e" and ?rows = "sh_cmd_history s"
  note d = editsD [OF ed]
  have h: "length ?rows = FINSH_HISTORY_LINES" "take (length ?h) ?rows = map row_of ?h" "\<forall>x\<in>set ?h. line_text x"
    using ed by (auto simp: edits_def shows_hist_def)
  have xs: "line_text ?xs" using ed by (simp add: edits_def shows_line_def)
  have n: "unat (sh_history_count s) = length ?h" "sh_history_count s = 0 \<longleftrightarrow> ?h = []" "sh_line_position s = 0 \<longleftrightarrow> ?xs = []"
    using d by (simp_all add: of_nat_small_zero)
  have same: "with_history s ?rows (length ?h) = s\<lparr>sh_current_history := sh_history_count s\<rparr>"
    using d by (cases s) (simp add: with_history_def)
  note neq = history_last_row [OF ed]
  consider (keep) "hs = ?h" "?xs = [] \<or> ?h \<noteq> [] \<and> last ?h = ?xs" |
      (add) "?xs \<noteq> []" "?h = [] \<or> last ?h \<noteq> ?xs" "length ?h < FINSH_HISTORY_LINES" "hs = ?h @ [?xs]" |
      (full) "?xs \<noteq> []" "last ?h \<noteq> ?xs" "length ?h = FINSH_HISTORY_LINES" "hs = tl ?h @ [?xs]"
    using hs d(7) by (fastforce simp: push_line_def shell_sizes split: if_splits)
  then show ?thesis
  proof cases
    case keep
    then have "shell_push_history s = s\<lparr>sh_current_history := sh_history_count s\<rparr>"
      using neq n d(7) by (auto simp: shell_push_history_def Let_def shell_sizes)
    then show ?thesis using same keep(1) h(1,2) by metis
  next
    case add
    let ?s = "s\<lparr>sh_current_history := sh_history_count s\<rparr>"
    have "set_row (length ?h) ?s = ?s\<lparr>sh_cmd_history := ?rows[length ?h := row_of ?xs]\<rparr>"
      using set_row_line [OF xs, of ?s "length ?h"] d add(3) by simp
    then have "shell_push_history s = with_history s (?rows[length ?h := row_of ?xs]) (length hs)"
      using add neq n d by (cases s) (auto simp: shell_push_history_def Let_def with_history_def add.commute)
    moreover have "take (length hs) (?rows[length ?h := row_of ?xs]) = map row_of hs"
      using add h(1,2) by (simp add: take_Suc_conv_app_nth)
    ultimately show ?thesis using h(1) by (metis length_list_update)
  next
    case full
    let ?r = "(tl ?rows @ [last ?rows])[FINSH_HISTORY_LINES - 1 := row_of ?xs]"
    have rows: "?rows = map row_of ?h" using h(1,2) full(3) by simp
    let ?s = "s\<lparr>sh_cmd_history := tl ?rows @ [last ?rows]\<rparr>"
    have "set_row (FINSH_HISTORY_LINES - 1) ?s = ?s\<lparr>sh_cmd_history := ?r\<rparr>"
      using set_row_line [OF xs, of ?s "FINSH_HISTORY_LINES - 1"] d by (simp add: shell_sizes)
    then have "shell_push_history s = with_history s ?r FINSH_HISTORY_LINES"
      using full(1-3) neq n d h(1) shift_rows_all [OF h(1)]
      by (cases s) (auto simp: shell_push_history_def Let_def with_history_def)
    moreover have "?r = map row_of hs"
    proof -
      have "length (tl ?rows) = FINSH_HISTORY_LINES - 1" using h(1) by simp
      then have "?r = tl ?rows @ [row_of ?xs]" by (metis list_update_length)
      then show ?thesis by (simp add: rows full(4) map_tl)
    qed
    moreover have "length hs = FINSH_HISTORY_LINES" using full(3,4) by (simp add: shell_sizes)
    ultimately show ?thesis by (metis length_map order.refl take_all_iff)
  qed
qed


lemma is_str_row: "line_text xs \<Longrightarrow> is_str (str_at (row_of xs @ ys)) xs"
  by (auto simp: is_str_def str_at_def row_of_def line_text_def nth_append)

lemma push_line_bounds:
  "length hs \<le> FINSH_HISTORY_LINES \<Longrightarrow> length (push_line xs hs) \<le> FINSH_HISTORY_LINES"
  "set (push_line xs hs) \<subseteq> insert xs (set hs)"
  by (auto simp: push_line_def shell_sizes dest: list.set_sel(2) [rotated])

lemma key_enter_edits:
  assumes ed: "edits env s e"
  shows "edits env (key_enter env s) (ed_enter e)"
proof -
  let ?xs = "ed_text e"
  define hs where "hs = push_line ?xs (ed_hist e)"
  obtain rows where p: "shell_push_history s = with_history s rows (length hs)" "length rows = FINSH_HISTORY_LINES"
      "take (length hs) rows = map row_of hs"
    using push_history_rows [OF ed hs_def] by blast
  have h: "length hs \<le> FINSH_HISTORY_LINES" "\<forall>x\<in>set hs. line_text x"
    using ed push_line_bounds [where hs = "ed_hist e" and xs = ?xs] by (auto simp: hs_def edits_def shows_hist_def shows_line_def)
  define r where "r = msh_exec (env_syscalls env) (env_script env) (str_at (shell_bytes (with_history s rows (length hs)))) (length ?xs)"
  have xs: "line_text ?xs" "sh_line s = row_of ?xs" "unat (sh_line_position s) = length ?xs"
    using ed editsD [OF ed] by (simp_all add: edits_def shows_line_def)
  have "shell_bytes (with_history s rows (length hs)) = row_of ?xs @ drop FINSH_CMD_SIZE (shell_bytes s)"
    using xs(1,2) by (simp add: shell_bytes_def with_history_def line_text_def)
  then have "ran_line env r ?xs" unfolding ran_line_def r_def using is_str_row [OF xs(1)] by metis
  moreover have "key_enter env s = (with_history s rows (length hs))\<lparr>sh_run := sh_run s @ [r], sh_line := row_of [], sh_line_position := 0, sh_line_curpos := 0\<rparr>"
    using xs(3) by (simp add: key_enter_def p(1) r_def Let_def row_of_def with_history_def)
  moreover have "line_text []" by (simp add: line_text_def shell_sizes)
  ultimately show ?thesis
    using ed h p(2,3)
    by (simp add: edits_def ed_enter_def hs_def [symmetric] Let_def shows_line_def shows_hist_def with_history_def list_all2_appendI)
qed

lemma plain_key_edits:
  assumes ed: "edits env s e" and e': "ed_plain env ch e = Some e'" and ok: "names_ok (env_fs env) (env_cmds env)"
  shows "edits env (plain_key env ch s) e'"
  using e' ed key_tab_edits [OF ed _ ok] key_backspace_edits [OF ed] key_enter_edits [OF ed] key_char_edits [OF ed]
  unfolding ed_plain_def plain_key_def by (auto split: if_splits)

lemma edits_stat: "edits env s e \<Longrightarrow> edits env (s\<lparr>sh_stat := x\<rparr>) (e\<lparr>ed_stat := x\<rparr>)"
  by (simp add: edits_def shows_line_def shows_hist_def)

theorem shell_key_edits:
  assumes ed: "edits env s e" and e': "ed_key env ch e = Some e'" and ok: "names_ok (env_fs env) (env_cmds env)"
  shows "edits env (shell_key env ch s) e'"
proof -
  have st: "sh_stat s = ed_stat e" using ed by (simp add: edits_def)
  note n = edits_stat [OF ed, of WAIT_NORMAL]
  show ?thesis
  proof (cases "ed_stat e = WAIT_NORMAL")
    case True
    then have same: "e\<lparr>ed_stat := WAIT_NORMAL\<rparr> = e" by simp
    show ?thesis
      using e' edits_stat [OF ed, of WAIT_SPEC_KEY] plain_key_edits [OF ed _ ok] True
      unfolding ed_key_def shell_key_def st Let_def same by (auto split: if_splits)
  next
    case False
    show ?thesis
      using e' edits_stat [OF ed] key_up_edits [OF n] key_down_edits [OF n] key_left_edits [OF n] key_right_edits [OF n]
        plain_key_edits [OF n _ ok] False
      unfolding ed_key_def shell_key_def st Let_def by (cases "ed_stat e") (auto split: if_splits)
  qed
qed

theorem shell_keys_edits:
  assumes ok: "names_ok (env_fs env) (env_cmds env)"
  shows "edits env s e \<Longrightarrow> ed_keys env chs e = Some e' \<Longrightarrow> edits env (shell_keys env chs s) e'"
proof (induction chs arbitrary: s e)
  case (Cons ch chs)
  then obtain e1 where "ed_key env ch e = Some e1" "ed_keys env chs e1 = Some e'" by (auto split: option.splits)
  then show ?case using Cons.IH [OF shell_key_edits [OF Cons.prems(1) _ ok]] by (simp add: shell_keys_def)
qed (simp add: shell_keys_def)

lemma shell_init_edits: "edits env shell_init ed_init"
  by (simp add: edits_def shell_init_def ed_init_def shows_line_def shows_hist_def line_text_def row_of_def shell_sizes)

section \<open>A line that is too long\<close>

definition bare_env :: shell_env where
  "bare_env = \<lparr>env_table = [], env_fs = \<lparr>fs_cwd = [0x2f], fs_dir = (\<lambda>_. None)\<rparr>, env_script = (\<lambda>_ _. False)\<rparr>"

text \<open>
  Eighty characters, the tabulator, one more character and two backspaces: the second one moves 65456 bytes
  from behind the end of the line.
\<close>

lemma typed_letters:
  "m + n < FINSH_CMD_SIZE \<Longrightarrow> ed_keys env (replicate n 0x61) (ed_init\<lparr>ed_text := replicate m 0x61, ed_cursor := m\<rparr>) =
    Some (ed_init\<lparr>ed_text := replicate (m + n) 0x61, ed_cursor := m + n\<rparr>)"
proof (induction n arbitrary: m)
  case (Suc n)
  have "ed_key env 0x61 (ed_init\<lparr>ed_text := replicate m 0x61, ed_cursor := m\<rparr>) = Some (ed_init\<lparr>ed_text := replicate (Suc m) 0x61, ed_cursor := Suc m\<rparr>)"
    using Suc.prems by (simp add: ed_key_def ed_plain_def ed_char_def ed_init_def replicate_append_same)
  then show ?case using Suc.IH [of "Suc m"] Suc.prems by simp
qed simp

lemma space_before_none: "0x20 \<notin> set xs \<Longrightarrow> space_before n xs = None"
  by (induction n) (auto dest: nth_mem)

lemma complete_none:
  "msh_auto_complete (env_fs bare_env) (env_cmds bare_env) (replicate n 0x61 @ 0 # ys) = replicate n 0x61 @ 0 # ys"
proof -
  have "takeWhile (\<lambda>c. c \<noteq> 0) (replicate n 0x61 @ (0 :: rt_uint8_t) # ys) = replicate n 0x61"
    using takeWhile_text [of "replicate n 0x61" 1 ys] by simp
  then show ?thesis
    by (simp add: msh_auto_complete_def space_before_none bare_env_def env_cmds_def complete_scan_def Let_def)
qed

lemma strlen_letters: "c_strlen (replicate n 0x61 @ 0 # ys) = Some n"
  by (induction n) simp_all

text \<open>The state after 79 letters, and what the next keys make of it.\<close>

lemma long_line_fault: "sh_fault (shell_keys bare_env (replicate 80 0x61 @ [0x09, 0x61, 0x08, 0x08]) shell_init)"
proof -
  define s where "s = shell_keys bare_env (replicate 79 0x61) shell_init"
  let ?e = "ed_init\<lparr>ed_text := replicate 79 0x61, ed_cursor := 79\<rparr>"
  have "ed_keys bare_env (replicate 79 0x61) ed_init = Some ?e"
    using typed_letters [of 0 79 bare_env] by (simp add: ed_init_def shell_sizes)
  moreover have "names_ok (env_fs bare_env) (env_cmds bare_env)" by (simp add: names_ok_def bare_env_def env_cmds_def)
  ultimately have "edits bare_env s ?e" unfolding s_def using shell_keys_edits shell_init_edits by blast
  then have s: "sh_stat s = WAIT_NORMAL" "sh_line s = replicate 79 0x61 @ [0]" "sh_line_position s = 79" "sh_line_curpos s = 79"
    by (auto simp: edits_def shows_line_def row_of_def shell_sizes ed_init_def)
  define s1 where "s1 = s\<lparr>sh_line := replicate 80 0x61, sh_line_position := 0, sh_line_curpos := 0\<rparr>"
  define s2 where "s2 = s1\<lparr>sh_line_position := 80, sh_line_curpos := 80\<rparr>"
  define s3 where "s3 = s1\<lparr>sh_line_position := 1, sh_line_curpos := 81\<rparr>"
  define s4 where "s4 = s1\<lparr>sh_line := 0 # replicate 79 0x61, sh_line_position := 0, sh_line_curpos := 80\<rparr>"
  have m1: "unat (- 1 :: rt_uint16_t) = 65535" by (simp add: unsigned_minus_1_eq_mask mask_eq_exp_minus_1)
  have r80: "replicate 79 0x61 @ [0x61] = replicate 80 (0x61 :: rt_uint8_t)" by (simp add: replicate_append_same flip: replicate_Suc)
  have r80': "0x61 # replicate 79 0x61 = replicate 80 (0x61 :: rt_uint8_t)" by (simp flip: replicate_Suc)
  have u80: "(replicate 80 0x61)[0 := x] = x # replicate 79 (0x61 :: rt_uint8_t)" for x unfolding r80' [symmetric] by simp
  have "shell_key bare_env 0x61 s = s1"
    using s r80 by (simp add: shell_key_def plain_key_def key_char_def set_line_char_def Let_def shell_sizes s1_def list_update_append)
  moreover have "shell_key bare_env 0x09 s1 = s2"
  proof -
    have b: "shell_bytes s1 = replicate 80 0x61 @ 0 # [0, 0, 0]" by (simp add: shell_bytes_def s1_def)
    have a: "shell_auto_complete bare_env s1 = s1"
      unfolding shell_auto_complete_def b complete_none strlen_letters Let_def by (simp add: s1_def)
    have "key_tab bare_env s1 = s2" unfolding key_tab_def a to_end_of_line_def b strlen_letters option.case by (simp add: s2_def)
    then show ?thesis using s(1) by (simp add: shell_key_def plain_key_def s1_def)
  qed
  moreover have "shell_key bare_env 0x61 s2 = s3"
    using s(1) by (simp add: shell_key_def plain_key_def key_char_def set_line_char_def Let_def shell_sizes s1_def s2_def s3_def u80 r80')
  moreover have "shell_key bare_env 0x08 s3 = s4"
    using s(1) by (simp add: shell_key_def plain_key_def key_backspace_def set_line_char_def Let_def shell_sizes s1_def s3_def s4_def u80)
  moreover have "sh_fault (shell_key bare_env 0x08 s4)"
    using s(1) m1 by (simp add: shell_key_def plain_key_def key_backspace_def move_line_def set_line_char_def shell_fault_def Let_def shell_sizes s1_def s4_def)
  moreover have "replicate 80 0x61 @ [0x09, 0x61, 0x08, 0x08] = replicate 79 0x61 @ [0x61, 0x09, 0x61, 0x08, 0x08 :: rt_uint8_t]"
    unfolding r80 [symmetric] by simp
  ultimately show ?thesis by (simp add: shell_keys_def s_def)
qed

end
