(* ===== verification/Spec2Isabelle.thy ===== *)
theory Spec2Isabelle
  imports System RingBuffer Realloc RtList RingBlk Update KString KPrintf I2c Serial DfsFd Shell
begin

text \<open>
  Verification of the RT-Thread firmware of this repository: the kernel, the parts of the device layer
  that build on it, the kernel's service routines, the serial devices, the virtual file system, the shell, the bit-banged I2C bus
  and the firmware update service. The configuration is that of \<^verbatim>\<open>src/rtconfig.h\<close>: one core (no \<^verbatim>\<open>RT_USING_SMP\<close>), 32
  priorities, the small memory heap, soft timers, a Cortex-M4. Definitions keep the names of the C
  functions; a helper that is a piece of a function (a loop, a branch, the code after a call that may
  block) has a name of its own, and its text says which piece it is.

  \<^bold>\<open>How the program is modelled.\<close> C structures are records, enumerations datatypes, and machine integers
  words of their width (\<open>rt_uint8_t\<close>, \<open>rt_uint16_t\<close>, \<open>rt_tick_t\<close> ...), so that counters, ticks and sizes
  wrap as they do on the target. The kernel's variables are one record, \<open>kstate\<close> (\<open>KState\<close>), that every
  operation takes and returns. A thread is a number; the intrusive lists are lists of threads and
  timers, and \<open>RtList\<close> proves that the pointer operations of \<^verbatim>\<open>rtservice.h\<close> implement them. A failed
  assertion or a dereferenced null pointer sets \<open>kfault\<close>. A call that may block is two definitions: the
  part up to the suspension, and \<open>..._resumed\<close>, which the thread executes when it runs again. Other
  threads and interrupts act between the two, and only there, because the code in between runs with
  interrupts disabled. Loops are recursive functions; a loop that need not end is a
  \<open>partial_function\<close> or takes fuel, and the theorems say when it ends.

  \<^bold>\<open>Kernel\<close> (\<^verbatim>\<open>src/rt-thread/src\<close>). Threads are created, started, suspended and resumed (\<^verbatim>\<open>thread.c\<close>); the
  scheduler keeps a queue per priority and a bitmap and runs the first thread of the highest priority
  (\<^verbatim>\<open>scheduler.c\<close>); timers are kept in order of their deadlines and fire from the tick or from the timer
  thread (\<^verbatim>\<open>timer.c\<close>, \<^verbatim>\<open>clock.c\<close>); the objects of \<^verbatim>\<open>ipc.c\<close> and \<^verbatim>\<open>mempool.c\<close> suspend threads on waiting lists,
  with a thread's own timer for the timeout, and resume them.
  \<^item> \<open>Prelude\<close>: integer types, error codes, the list, option and word lemmas that the components share.
  \<^item> \<open>KService\<close>: find-first-set and the string routines used by the kernel; the table-driven
    \<open>rt_ffs\<close> equals the processor instruction.
  \<^item> \<open>KState\<close>, \<open>Scheduler\<close>: the state, the scheduler and its invariant \<open>sched_inv\<close> (queues without
    duplicates, bitmap exact, thread states agree with the queue a thread is on); \<open>rt_schedule\<close> keeps it
    and runs a thread of the highest priority.
  \<^item> \<open>KObject\<close>, \<open>Boot\<close>: object containers, and the state at reset.
  \<^item> \<open>Timer\<close>, \<open>TimerStart\<close>, \<open>TimerCheck\<close>: timers ordered across the wrap of the tick; the hard check ends,
    fires exactly the expired timers and restarts periodic ones; the soft check need not end.
  \<^item> \<open>ThreadCore\<close>, \<open>Thread\<close>: thread operations, tick, interrupt nesting, clean-up by the idle thread.
  \<^item> \<open>IpcBase\<close>: waiting lists in order of arrival or priority, and the locale \<open>object_store\<close> (reading
    and updating one kind of object leaves the scheduler and the other objects alone), interpreted for
    every kind of object.
  \<^item> \<open>Semaphore\<close>, \<open>Mutex\<close>, \<open>Event\<close>: refinement of a counting semaphore, ownership and priority inheritance,
    refinement of the scan of an event set.
  \<^item> \<open>Fifo\<close>: the locale \<open>bounded_fifo\<close>, with the results on sequences of operations; interpreted by
    \<open>Mailbox\<close>, \<open>MessageQueue\<close> and \<open>RingBuffer\<close>. \<open>Mempool\<close>: fixed-size blocks.
  \<^item> \<open>Mem\<close>, \<open>Heap\<close>, \<open>Realloc\<close>: the heap allocator; its blocks form a chain without adjacent free blocks,
    allocation is first fit, blocks in use are disjoint, contents survive reallocation.
  \<^item> \<open>Kernel\<close>: the invariant of scheduler, thread timers and mutexes together, kept by every call.
  \<^item> \<open>KString\<close>, \<open>KPrintf\<close>: the memory and string routines equal their byte-wise meaning; formatted
    printing writes the text that the format determines and nothing outside the buffer.

  \<^bold>\<open>Device layer\<close> (\<^verbatim>\<open>src/rt-thread/src/device.c\<close>, \<^verbatim>\<open>src/rt-thread/components/drivers\<close>).
  \<^item> \<open>Device\<close>: registration, reference counts, read and write; the driver's handlers are parameters.
  \<^item> \<open>Completion\<close>, \<open>DataQueue\<close>, \<open>WaitQueue\<close>, \<open>WorkQueue\<close>: the IPC of the drivers on the kernel's threads,
    semaphores and timers; callbacks are parameters.
  \<^item> \<open>System\<close>: kernel and device layer together. \<open>system_reach\<close> is the set of the states that any
    interleaving of their operations reaches from reset; the invariant holds in all of them.
  \<^item> \<open>RingBuffer\<close>, \<open>RingBlk\<close>: the byte ring buffer and the ring block buffer.
  \<^item> \<open>I2c\<close>: the lines, conditions, bytes and messages of the bit-banged master.
  \<^item> \<open>SerialFifo\<close>: the receive buffer of the serial devices; the locale \<open>receive_buffer\<close> (a buffer that keeps
    the newest bytes, and what any sequence of arrivals and reads gives) is interpreted for the interrupt
    mode and for the DMA mode. \<open>Serial\<close>: the serial device on completions and data queues, with the driver's
    functions as a parameter, and the STM32 driver as their instance; polled output, the receive interrupts
    and the order of DMA transmissions.

  \<^bold>\<open>Virtual file system\<close> (\<^verbatim>\<open>src/rt-thread/components/dfs\<close>). \<open>DfsPath\<close>: the in-place normalisation of a path equals a
  reference on its components, and the lookup of a path finds the longest mount point that covers it.
  \<open>DfsFd\<close>: the table of file descriptors refines a count of users per descriptor; the answers of the heap
  are parameters.

  \<^bold>\<open>Shell\<close> (\<^verbatim>\<open>src/rt-thread/components/finsh\<close>). \<open>Msh\<close>: a command line is split into the words of a reference
  definition, and the command named by its first word is called with them; completions are longest
  common prefixes. \<open>Shell\<close>: the keys edit the line as a text with a cursor and a history.

  \<^bold>\<open>Application\<close> (\<^verbatim>\<open>src/applications\<close>). \<open>Update\<close>: a connection of the update service, from the accepted
  socket to the reset; lwIP is the list of the events that the socket reports, the flash device the log
  of what is written.

  \<^bold>\<open>The properties\<close> below are grouped as the components are. Each is followed by a witness that applies
  it to a concrete state or input. Where the code does not do what its comments say, a theorem states
  what it does: the soft timer check, the rounding of sizes in the heap, the overwriting put of the ring
  buffer, the overrun of a data queue, two threads that write to a serial device by DMA, the thread that yields or
  delays, the update client that goes away.

  \<^bold>\<open>Fuel.\<close> The heap searches take the number of headers that fit into the heap, one more than any chain
  of blocks has (\<open>heap_fuel_enough\<close>). The timer check takes fuel that the theorems bound by the number of
  expired timers; that the soft check never returns is stated for every fuel. Loops of the work
  queue, the mailboxes and the message queues that repeat after a wake-up are cut at the suspension.

  \<^bold>\<open>Not modelled\<close>: multi-core code (\<^verbatim>\<open>cpu.c\<close>), \<^verbatim>\<open>memheap.c\<close>, \<^verbatim>\<open>slab.c\<close>, pipes and the expression interpreter
  of finsh, which this configuration does not compile; signals, which rewrite the stacks of threads; the
  contents of stacks and the context switch in assembler; the start-up tables of \<^verbatim>\<open>components.c\<close>, which
  the linker collects; the idle hooks; console output; the drivers in \<^verbatim>\<open>src/drivers\<close> other than the serial
  and the I2C driver, which only access registers through the vendor's library, and that library; mounting and the file
  operations of the virtual file system; FatFs; lwIP. The
  heap's semaphore is not taken in the model, because the operations of the heap are modelled one at a
  time.
\<close>

section \<open>Scheduling\<close>

text \<open>
  C2. After \<open>rt_schedule\<close>, with the scheduler unlocked and a thread that can run, the current
  thread is in the running state and no ready thread has a higher priority (a smaller number).
\<close>

theorem rt_schedule_runs_highest:
  assumes "sched_inv s" "rt_current_thread s = Some cur" "rt_scheduler_lock_nest s = 0"
    "tstat (thr s cur) = RT_THREAD_RUNNING \<or> rt_thread_ready_priority_group s \<noteq> 0"
  shows "\<exists>c. rt_current_thread (rt_schedule s) = Some c \<and>
    tstat (thr (rt_schedule s) c) = RT_THREAD_RUNNING \<and>
    (\<forall>p u. u \<in> set (tq (rt_schedule s) (Ready p)) \<longrightarrow> prio_of (thr (rt_schedule s) c) \<le> p)"
  using rt_schedule_current [OF assms] .

theorem rt_schedule_runs_highest_witness:
  "\<exists>c. rt_current_thread (rt_schedule demo_state) = Some c \<and>
    tstat (thr (rt_schedule demo_state) c) = RT_THREAD_RUNNING \<and>
    (\<forall>p u. u \<in> set (tq (rt_schedule demo_state) (Ready p)) \<longrightarrow>
      prio_of (thr (rt_schedule demo_state) c) \<le> p)"
  by (rule rt_schedule_runs_highest [of demo_state 1]) (simp_all add: demo_state_inv)

text \<open>
  \<open>rt_schedule\<close> keeps the scheduler invariant: every thread is linked where its state
  says, the priority bitmap is exact, and only the current thread is in the running state.
\<close>

theorem rt_schedule_keeps_invariant:
  assumes "sched_inv s"
  shows "sched_inv (rt_schedule s)"
  using assms by (rule rt_schedule_inv_any)

theorem rt_schedule_keeps_invariant_witness: "sched_inv (rt_schedule demo_state)"
  by (rule rt_schedule_keeps_invariant [OF demo_state_inv])

section \<open>Timers\<close>

text \<open>
  C30. Starting a hard timer whose deadline is less than half the tick range away keeps the timer
  list ordered by deadline, the counter's wrap-around included, and puts the timer behind those
  with the same deadline.
\<close>

theorem rt_timer_start_ordered:
  assumes "timer_ordered base (timeouts s) (rt_timer_list s)" "distinct (rt_timer_list s)"
    "\<not> soft_timer r s" "delta base (rt_tick s + tm_init_tick (tmr s r)) < half_range"
  shows "timer_ordered base (timeouts (fst (rt_timer_start r s))) (rt_timer_list (fst (rt_timer_start r s))) \<and>
    timeouts (fst (rt_timer_start r s)) r = rt_tick s + tm_init_tick (tmr s r) \<and>
    (\<exists>before after. rt_timer_list (fst (rt_timer_start r s)) = before @ r # after \<and>
      before @ after = remove1 r (rt_timer_list s) \<and>
      (\<forall>t\<in>set before. delta base (timeouts s t) \<le> delta base (rt_tick s + tm_init_tick (tmr s r))) \<and>
      (\<forall>t\<in>set after. delta base (rt_tick s + tm_init_tick (tmr s r)) < delta base (timeouts s t)))"
  using timer_start_hard_position [OF assms] by blast

theorem rt_timer_start_ordered_witness:
  "timer_ordered 0 (timeouts (fst (rt_timer_start (TimerAt 8) demo_state)))
    (rt_timer_list (fst (rt_timer_start (TimerAt 8) demo_state)))"
  using rt_timer_start_ordered [of 0 demo_state "TimerAt 8"]
  by (simp add: timer_ordered_def delta_def half_range_val zero_timer_def)



text \<open>
  A callback that stops the timer behind its own makes \<open>rt_soft_timer_check\<close> run forever: the
  loop holds a pointer to the stopped timer, whose link points to itself.
\<close>

theorem rt_soft_timer_check_diverges:
  assumes "rt_soft_timer_list s = a # b # ts" "distinct (a # b # ts)"
    "\<not> periodic a s" "rt_tick s - tm_timeout_tick (tmr s a) < RT_TICK_MAX div 2"
    "tm_timeout_func (tmr s a) = App_timeout f p"
    "activated b s" "rt_tick s - tm_timeout_tick (tmr s b) < RT_TICK_MAX div 2"
    "tm_timeout_func (tmr s b) = App_timeout g q"
  shows "rt_soft_timer_check (stop_cb b) fuel s = None"
  using assms by (rule soft_check_never_returns)

theorem rt_soft_timer_check_diverges_witness:
  "\<forall>fuel. rt_soft_timer_check (stop_cb (TimerAt 9)) fuel (timer_demo [] [TimerAt 8, TimerAt 9]) = None"
  by (intro allI rt_soft_timer_check_diverges [of _ "TimerAt 8" "TimerAt 9" "[]" 0 0 0 0])
    (simp_all add: zero_timer_def demo_due)

section \<open>Semaphores\<close>

text \<open>
  C31. \<open>rt_sem_release\<close> refines the abstract counting semaphore: with waiters the first one leaves
  the list and the count stays; without, the count goes up by one modulo \<open>2 ^ 16\<close>. The woken
  thread is ready or running.
\<close>

theorem rt_sem_release_refines:
  assumes "sched_inv s"
  shows "sem_abs a (fst (rt_sem_release a s)) = spec_release (sem_abs a s) \<and>
    snd (rt_sem_release a s) = RT_EOK \<and>
    (\<forall>w ws. tq s (SemQ a) = w # ws \<longrightarrow>
      tstat (thr (fst (rt_sem_release a s)) w) \<in> {RT_THREAD_READY, RT_THREAD_RUNNING})"
  using sem_release_refines [OF assms] sem_release_wakes [OF assms]
  by (simp add: rt_sem_release_def Let_def)

theorem rt_sem_release_refines_witness:
  "tq (fst (rt_sem_release 100 demo_state)) (SemQ 100) = [] \<and>
   tstat (thr (fst (rt_sem_release 100 demo_state)) 3) \<in> {RT_THREAD_READY, RT_THREAD_RUNNING}"
  using rt_sem_release_refines [OF demo_state_inv, of 100] by (simp add: sem_abs_def)

text \<open>
  C32. \<open>rt_sem_take\<close> by the running thread refines the abstract semaphore: a positive count is
  decremented, otherwise a call with a timeout other than 0 puts the thread on the waiting list,
  at the end or by priority as the semaphore's flag says.
\<close>

theorem rt_sem_take_refines:
  assumes "sched_inv s" "rt_current_thread s = Some t" "tstat (thr s t) = RT_THREAD_RUNNING"
    "\<not> soft_timer (ThreadTimer t) s"
  shows "sem_abs a (fst (rt_sem_take a time s)) =
    spec_take (wait_insert (obj_flag (objs s (ObjSem a))) (\<lambda>u. th_current_priority (thr s u)) t)
      (time \<noteq> 0) (sem_abs a s)"
  using assms by (rule sem_take_refines)

theorem rt_sem_take_refines_witness:
  "snd (sem_abs 100 (fst (rt_sem_take 100 5 demo_state))) = [3, 1]"
  using rt_sem_take_refines [OF demo_state_inv, of 1 100 5]
  by (simp add: sem_abs_def wait_insert_def blank_object_def RT_IPC_FLAG_FIFO_def get_sem_def)

text \<open>
  Releasing and taking keep the semaphore's invariant: while its count is positive no thread
  waits for it.
\<close>

theorem rt_sem_keeps_invariant:
  assumes "sched_inv s" "sem_inv a s" "rt_current_thread s = Some t"
    "tstat (thr s t) = RT_THREAD_RUNNING" "\<not> soft_timer (ThreadTimer t) s"
  shows "sem_inv a (fst (rt_sem_release a s)) \<and> sem_inv a (fst (rt_sem_take a time s))"
  using sem_inv_steps [OF assms(1,2)] assms(3-5) by blast

theorem rt_sem_keeps_invariant_witness:
  "sem_inv 100 (fst (rt_sem_release 100 demo_state)) \<and> sem_inv 100 (fst (rt_sem_take 100 (- 1) demo_state))"
  by (rule rt_sem_keeps_invariant [OF demo_state_inv, of 100 1])
    (simp_all add: sem_inv_def get_sem_def)

section \<open>Mutexes\<close>

text \<open>The example mutex: held once by thread 1, with thread 3 of higher priority waiting.\<close>

definition mutex_demo :: kstate where
  "mutex_demo = upd_mutex 300 (\<lambda>_. \<lparr>mtx_value = 0, mtx_original_priority = 15, mtx_hold = 1,
     mtx_owner = Some 1\<rparr>) (demo_on (MutexQ 300))"

lemma mutex_demo_inv: "sched_inv mutex_demo" "mutex_inv 300 mutex_demo"
  by (simp_all add: mutex_demo_def demo_on_inv mutex_inv_def)

lemma mutex_demo_fields [simp]:
  "rt_current_thread mutex_demo = Some 1" "tq mutex_demo (MutexQ 300) = [3]"
  "get_mutex 300 mutex_demo = \<lparr>mtx_value = 0, mtx_original_priority = 15, mtx_hold = 1, mtx_owner = Some 1\<rparr>"
  "thr mutex_demo = thr (demo_on (MutexQ 300))" "objs mutex_demo = objs (demo_on (MutexQ 300))"
  by (simp_all add: mutex_demo_def upd_mutex_def get_mutex_def)

text \<open>
  C3. Taking and releasing keep a mutex in one of two shapes: free, with value 1, no owner, hold 0 and
  nobody waiting, or held by one thread that is not among the waiters, with value 0 and a positive
  hold. (A hold of 255 by the owner itself would wrap and is excluded.)
\<close>

theorem rt_mutex_keeps_ownership:
  assumes "sched_inv s" "mutex_inv a s" "rt_current_thread s = Some t" "tstat (thr s t) = RT_THREAD_RUNNING"
    "mtx_owner (get_mutex a s) = Some t \<longrightarrow> mtx_hold (get_mutex a s) \<noteq> 0xFF"
    "\<not> soft_timer (ThreadTimer t) s"
  shows "mutex_inv a (fst (rt_mutex_take a time s)) \<and> mutex_inv a (fst (rt_mutex_release a s)) \<and>
    sched_inv (fst (rt_mutex_take a time s)) \<and> sched_inv (fst (rt_mutex_release a s))"
  using rt_mutex_take_ok [OF assms(1-4) _ assms(6)] rt_mutex_release_ok [OF assms(1-3)] assms(5) by blast

theorem rt_mutex_keeps_ownership_witness:
  "mutex_inv 300 (fst (rt_mutex_take 300 (- 1) mutex_demo)) \<and> mutex_inv 300 (fst (rt_mutex_release 300 mutex_demo))"
  using rt_mutex_keeps_ownership [OF mutex_demo_inv, of 1 "- 1"]
  by (simp add: soft_timer_def timer_flag_def blank_object_def)

text \<open>
  C4. The owner's last release hands the mutex to the first waiter, or frees it, takes that waiter
  off the list and puts the owner back to the priority it had when it took the mutex.
\<close>

theorem rt_mutex_release_hands_over:
  assumes "sched_inv s" "mutex_inv a s" "rt_current_thread s = Some t"
    "mtx_owner (get_mutex a s) = Some t" "mtx_hold (get_mutex a s) = 1"
  shows "snd (rt_mutex_release a s) = RT_EOK \<and>
    mtx_owner (get_mutex a (fst (rt_mutex_release a s))) = (case tq s (MutexQ a) of [] \<Rightarrow> None | w # _ \<Rightarrow> Some w) \<and>
    tq (fst (rt_mutex_release a s)) (MutexQ a) = tl (tq s (MutexQ a)) \<and>
    th_current_priority (thr (fst (rt_mutex_release a s)) t) = mtx_original_priority (get_mutex a s)"
  using rt_mutex_release_last [OF assms] by simp

theorem rt_mutex_release_hands_over_witness:
  "mtx_owner (get_mutex 300 (fst (rt_mutex_release 300 mutex_demo))) = Some 3 \<and>
   th_current_priority (thr (fst (rt_mutex_release 300 mutex_demo)) 1) = 15"
  using rt_mutex_release_hands_over [OF mutex_demo_inv, of 1] by simp

text \<open>
  C5. Priority inheritance: a thread that has to wait for a mutex waits in the mutex's list, and the
  owner then runs at the waiter's priority or a higher one.
\<close>

theorem rt_mutex_take_inherits_priority:
  assumes "sched_inv s" "mutex_inv a s" "rt_current_thread s = Some t" "tstat (thr s t) = RT_THREAD_RUNNING"
    "mtx_owner (get_mutex a s) = Some ow" "ow \<noteq> t" "time \<noteq> 0" "\<not> soft_timer (ThreadTimer t) s"
  shows "snd (rt_mutex_take a time s) = Waits \<and>
    th_current_priority (thr (fst (rt_mutex_take a time s)) ow) \<le> th_current_priority (thr s t) \<and>
    tq (fst (rt_mutex_take a time s)) (MutexQ a) = wait_insert (obj_flag (objs s (ObjMutex a)))
      ((\<lambda>u. th_current_priority (thr s u))(ow := min (th_current_priority (thr s ow)) (th_current_priority (thr s t))))
      t (tq s (MutexQ a))"
  using rt_mutex_take_inherits [OF assms] by blast

theorem rt_mutex_take_inherits_priority_witness:
  "th_current_priority (thr (fst (rt_mutex_take 300 (- 1)
     (upd_mutex 300 (\<lambda>m. m\<lparr>mtx_owner := Some 2\<rparr>) mutex_demo))) 2) \<le> 10"
proof -
  let ?s = "upd_mutex 300 (\<lambda>m. m\<lparr>mtx_owner := Some 2\<rparr>) mutex_demo"
  have "\<not> soft_timer (ThreadTimer 1) ?s"
    by (simp add: soft_timer_def timer_flag_def blank_object_def upd_mutex_def)
  then show ?thesis
    using rt_mutex_take_inherits_priority [of ?s 300 1 2 "- 1"] mutex_demo_inv(1)
    by (simp add: mutex_inv_def)
qed

text \<open>
  A thread that does not own a mutex gets an error from \<open>rt_mutex_release\<close>, recorded in the
  thread too, and the mutex and all thread lists stay as they were.
\<close>

theorem rt_mutex_release_not_owner:
  assumes "rt_current_thread s = Some t" "mtx_owner (get_mutex a s) \<noteq> Some t"
  shows "snd (rt_mutex_release a s) = - RT_ERROR \<and> get_mutex a (fst (rt_mutex_release a s)) = get_mutex a s \<and>
    tq (fst (rt_mutex_release a s)) = tq s \<and> th_error (thr (fst (rt_mutex_release a s)) t) = - RT_ERROR"
  using rt_mutex_release_foreign [OF assms] by simp

theorem rt_mutex_release_not_owner_witness: "snd (rt_mutex_release 7 mutex_demo) = - RT_ERROR"
  using rt_mutex_release_not_owner [of mutex_demo 1 7]
  by (simp add: mutex_demo_def get_mutex_def upd_mutex_def zero_mutex_def)

section \<open>Events\<close>

text \<open>
  C33. \<open>rt_event_send\<close> of a non-empty set computes the abstract scan of the waiting list: the bits
  left, and the threads that keep waiting in their order.
\<close>

theorem rt_event_send_scans:
  assumes "sched_inv s" "v \<noteq> 0"
  shows "snd (rt_event_send a v s) = RT_EOK \<and>
    (ev_set (get_event a (fst (rt_event_send a v s))), tq (fst (rt_event_send a v s)) (EventQ a)) =
      (case spec_scan (want_of s) (ev_set (get_event a s) OR v) (tq s (EventQ a)) of
         (left, waiting, woken) \<Rightarrow> (left, waiting))"
  using rt_event_send_scan [OF assms, where a = a] by (simp add: split_beta)

theorem rt_event_send_scans_witness:
  "ev_set (get_event 400 (fst (rt_event_send 400 5 demo_state))) = 5"
  using rt_event_send_scans [OF demo_state_inv, of 5 400]
  by (simp add: get_event_def)

text \<open>
  C34. Sending and receiving keep the event's invariant: the pending bits satisfy no thread that waits
  for the event.
\<close>

theorem rt_event_no_satisfied_waiter:
  assumes "sched_inv s" "event_inv a s" "rt_current_thread s = Some t" "tstat (thr s t) = RT_THREAD_RUNNING"
    "\<not> soft_timer (ThreadTimer t) s"
  shows "event_inv a (fst (rt_event_send a v s)) \<and> event_inv a (fst (rt_event_recv a v opt time s))"
  using rt_event_send_ok [OF assms(1,2)] rt_event_recv_ok [OF assms] by blast

theorem rt_event_no_satisfied_waiter_witness:
  "event_inv 400 (fst (rt_event_send 400 5 demo_state)) \<and> event_inv 400 (fst (rt_event_recv 400 5 2 (- 1) demo_state))"
  by (rule rt_event_no_satisfied_waiter [OF demo_state_inv, of 400 1])
    (simp_all add: event_inv_def)

section \<open>Mailboxes\<close>

text \<open>The example mailbox: empty, with four places.\<close>

definition mb_demo :: kstate where
  "mb_demo = upd_mb 200 (\<lambda>m. m\<lparr>mb_size := 4\<rparr>) demo_state"

lemma mb_demo_wf:
  "mb_wf (get_mb 200 mb_demo)" "mb_contents (get_mb 200 mb_demo) = []" "mb_cap (get_mb 200 mb_demo) = 4"
proof -
  have "get_mb 200 mb_demo = zero_mailbox\<lparr>mb_size := 4\<rparr>" by (simp add: mb_demo_def) (simp add: get_mb_def)
  then show "mb_wf (get_mb 200 mb_demo)" "mb_contents (get_mb 200 mb_demo) = []" "mb_cap (get_mb 200 mb_demo) = 4"
    by (simp_all add: mb_wf_def mb_contents_def mb_cap_def zero_mailbox_def)
qed

text \<open>
  C35. A mailbox delivers in order: whatever was in it and the values then sent to it, as many as fit,
  are what the next receives return, in that order.
\<close>

theorem rt_mb_round_trip:
  assumes "mb_wf (get_mb a s)" "length (mb_contents (get_mb a s)) + length vs \<le> mb_cap (get_mb a s)"
  shows "fst (get_n (mb_recv_value a) (length (mb_contents (get_mb a s)) + length vs)
      (put_all (mb_send_value a) vs s)) = mb_contents (get_mb a s) @ vs"
  using assms mbk.round_trip by blast

theorem rt_mb_round_trip_witness:
  "fst (get_n (mb_recv_value 200) 3 (put_all (mb_send_value 200) [7, 8, 9] mb_demo)) = [7, 8, 9]"
  using rt_mb_round_trip [OF mb_demo_wf(1), of "[7, 8, 9]"]
  by (simp add: mb_demo_wf numeral_3_eq_3 del: put_all.simps get_n.simps)

text \<open>
  C40. Without a timeout, a send to a full mailbox returns \<open>-RT_EFULL\<close> and a receive from an empty one
  \<open>-RT_ETIMEOUT\<close>; the mailbox stays as it was. A send to a mailbox with room and a receive from one
  with a message return at once whatever the timeout, and never wait.
\<close>

theorem rt_mb_full_and_empty:
  assumes "mb_wf (get_mb a s)"
  shows "(if length (mb_contents (get_mb a s)) = mb_cap (get_mb a s)
      then snd (rt_mb_send a v s) = Returns (- RT_EFULL) \<and> get_mb a (fst (rt_mb_send a v s)) = get_mb a s
      else \<forall>time. snd (rt_mb_send_wait a v time s) = Returns RT_EOK \<and>
        mb_contents (get_mb a (fst (rt_mb_send_wait a v time s))) = mb_contents (get_mb a s) @ [v]) \<and>
    (if mb_contents (get_mb a s) = []
      then snd (rt_mb_recv a 0 s) = Returns (- RT_ETIMEOUT, None) \<and> get_mb a (fst (rt_mb_recv a 0 s)) = get_mb a s
      else \<forall>time. snd (rt_mb_recv a time s) = Returns (RT_EOK, Some (hd (mb_contents (get_mb a s)))) \<and>
        mb_contents (get_mb a (fst (rt_mb_recv a time s))) = tl (mb_contents (get_mb a s)))"
  using mb_send_cases [OF assms, of v] mb_recv_cases [OF assms] by simp

theorem rt_mb_full_and_empty_witness:
  "snd (rt_mb_recv 200 0 mb_demo) = Returns (- RT_ETIMEOUT, None)"
  using rt_mb_full_and_empty [OF mb_demo_wf(1)] by (simp add: mb_demo_wf)

section \<open>Message queues\<close>

text \<open>The example queue: four messages of two bytes each.\<close>

definition mq_demo :: kstate where
  "mq_demo = upd_mq 500 (\<lambda>m. mq_setup (m\<lparr>mq_msg_size := 2, mq_max_msgs := 4\<rparr>)) demo_state"

lemma mq_demo_wf:
  "mq_wf (get_mq 500 mq_demo)" "mq_contents (get_mq 500 mq_demo) = []"
  "mq_max_msgs (get_mq 500 mq_demo) = 4" "mq_msg_size (get_mq 500 mq_demo) = 2"
proof -
  have "get_mq 500 mq_demo = mq_setup (zero_messagequeue\<lparr>mq_msg_size := 2, mq_max_msgs := 4\<rparr>)"
    by (simp add: mq_demo_def) (simp add: get_mq_def)
  then show "mq_wf (get_mq 500 mq_demo)" "mq_contents (get_mq 500 mq_demo) = []"
    "mq_max_msgs (get_mq 500 mq_demo) = 4" "mq_msg_size (get_mq 500 mq_demo) = 2"
    using mq_setup_wf [of "zero_messagequeue\<lparr>mq_msg_size := 2, mq_max_msgs := 4\<rparr>"] by simp_all
qed

text \<open>
  C36. A message queue delivers in order: the messages sent to it, of the queue's message size and as
  many as fit, come out of the receives behind those that were there before.
\<close>

theorem rt_mq_round_trip:
  assumes "mq_wf (get_mq a s)"
    "length (mq_contents (get_mq a s)) + length ms \<le> unat (mq_max_msgs (get_mq a s))"
    "\<forall>b\<in>set ms. length b = unat (mq_msg_size (get_mq a s))"
  shows "fst (get_n (mq_recv_message a) (length (mq_contents (get_mq a s)) + length ms)
      (put_all (mq_send_message a) ms s)) = mq_contents (get_mq a s) @ ms"
  using assms mqk.round_trip by blast

theorem rt_mq_round_trip_witness:
  "fst (get_n (mq_recv_message 500) 2 (put_all (mq_send_message 500) [[1, 2], [3, 4]] mq_demo)) = [[1, 2], [3, 4]]"
proof -
  have two: "length (mq_contents (get_mq 500 mq_demo)) + length [[1, 2], [3, 4 :: rt_uint8_t]] = 2"
    by (simp add: mq_demo_wf)
  from rt_mq_round_trip [OF mq_demo_wf(1), of "[[1, 2], [3, 4]]", unfolded two]
  show ?thesis by (simp add: mq_demo_wf del: put_all.simps get_n.simps)
qed

text \<open>
  An urgent message is the next one received; the others keep their order. Without a free node the
  call returns \<open>-RT_EFULL\<close>, a message that is too long gets \<open>-RT_ERROR\<close>, and both leave the queue alone.
\<close>

theorem rt_mq_urgent_first:
  assumes "mq_wf (get_mq a s)"
  shows "(length b > unat (mq_msg_size (get_mq a s)) \<longrightarrow>
      snd (rt_mq_urgent a b s) = - RT_ERROR \<and> get_mq a (fst (rt_mq_urgent a b s)) = get_mq a s) \<and>
    (length b = unat (mq_msg_size (get_mq a s)) \<longrightarrow>
      (if length (mq_contents (get_mq a s)) = unat (mq_max_msgs (get_mq a s))
       then snd (rt_mq_urgent a b s) = - RT_EFULL \<and> get_mq a (fst (rt_mq_urgent a b s)) = get_mq a s
       else snd (rt_mq_urgent a b s) = RT_EOK \<and> mq_wf (get_mq a (fst (rt_mq_urgent a b s))) \<and>
         mq_contents (get_mq a (fst (rt_mq_urgent a b s))) = b # mq_contents (get_mq a s)))"
  using mq_urgent_cases [OF assms] by blast

theorem rt_mq_urgent_first_witness:
  "mq_contents (get_mq 500 (fst (rt_mq_urgent 500 [5, 6] mq_demo))) = [[5, 6]]"
  using rt_mq_urgent_first [OF mq_demo_wf(1), of "[5, 6]"] by (simp add: mq_demo_wf)

text \<open>
  Resetting a message queue ends, empties it and gives every node back to the free list.
\<close>

theorem rt_mq_reset_empties:
  assumes "mq_wf (get_mq a s)"
  shows "mq_wf (get_mq a (fst (rt_mq_control a (RT_IPC_CMD_RESET v) s))) \<and>
    mq_contents (get_mq a (fst (rt_mq_control a (RT_IPC_CMD_RESET v) s))) = [] \<and>
    length (mq_free (get_mq a (fst (rt_mq_control a (RT_IPC_CMD_RESET v) s)))) = unat (mq_max_msgs (get_mq a s)) \<and>
    snd (rt_mq_control a (RT_IPC_CMD_RESET v) s) = RT_EOK"
  using mq_reset_ok [OF assms] by simp

theorem rt_mq_reset_empties_witness:
  "length (mq_free (get_mq 500 (fst (rt_mq_control 500 (RT_IPC_CMD_RESET 0) mq_demo)))) = 4"
  using rt_mq_reset_empties [OF mq_demo_wf(1), of 0] by (simp add: mq_demo_wf)

section \<open>Memory pools\<close>

text \<open>
  \<open>rt_mp_init\<close> on memory that lies inside the address space and has room for a block makes a pool
  whose blocks are disjoint and all free, as many as fit.
\<close>

theorem rt_mp_init_all_free:
  assumes "0 < align4_down sz div add32 (align4 bs) 4"
    "start + align4_down sz div add32 (align4 bs) 4 * (align4 bs + 4) \<le> 2 ^ 32" "sz < 2 ^ 32" "start < 2 ^ 32"
  shows "mp_ok a (mp_blocks (get_mp a (fst (rt_mp_init a nm start sz bs s)))) (fst (rt_mp_init a nm start sz bs s)) \<and>
    length (mp_blocks (get_mp a (fst (rt_mp_init a nm start sz bs s)))) = align4_down sz div add32 (align4 bs) 4"
  using rt_mp_init_ok [OF assms] by blast

theorem rt_mp_init_all_free_witness:
  "mp_ok 600 (mp_blocks (get_mp 600 (fst (rt_mp_init 600 (\<lambda>_. 0) 4096 100 13 demo_state))))
     (fst (rt_mp_init 600 (\<lambda>_. 0) 4096 100 13 demo_state)) \<and>
   length (mp_blocks (get_mp 600 (fst (rt_mp_init 600 (\<lambda>_. 0) 4096 100 13 demo_state)))) = 5"
  using rt_mp_init_all_free [of 100 13 4096 600 "\<lambda>_. 0" demo_state]
  by (simp add: align4_down_def align4_def add32_def)

text \<open>
  C37. Allocation hands out the first free block and marks it with its pool; freeing the block puts it
  back in front of the free list. An exhausted pool returns nothing to a caller that does not wait.
\<close>

theorem rt_mp_alloc_free:
  assumes "mp_ok a fl s"
  shows "(case fl of
      [] \<Rightarrow> snd (rt_mp_alloc a 0 s) = Returns None
    | b # bs \<Rightarrow> snd (rt_mp_alloc a time s) = Returns (Some (b + 4)) \<and>
        mp_ok a bs (fst (rt_mp_alloc a time s)) \<and>
        block_words (fst (rt_mp_alloc a time s)) b = OwnerPool a \<and>
        mp_ok a fl (rt_mp_free (Some (b + 4)) (fst (rt_mp_alloc a time s))))"
  using mp_alloc_free_cases [OF assms] by simp

theorem rt_mp_alloc_free_witness:
  "snd (rt_mp_alloc 600 0 (fst (rt_mp_init 600 (\<lambda>_. 0) 4096 100 13 demo_state))) = Returns (Some 4100)"
proof -
  let ?s = "fst (rt_mp_init 600 (\<lambda>_. 0) 4096 100 13 demo_state)"
  have b: "mp_blocks (get_mp 600 ?s) = [4096, 4116, 4136, 4156, 4176]" by (rule mp_demo_blocks)
  have "mp_ok 600 (mp_blocks (get_mp 600 ?s)) ?s"
    using rt_mp_init_ok(1) [of 100 13 4096 600 "\<lambda>_. 0" demo_state] by (simp add: align4_down_def align4_def add32_def)
  from rt_mp_alloc_free [OF this, of 0] show ?thesis by (simp add: b)
qed

section \<open>Ring buffers\<close>

text \<open>
  C38. A block put stores as much of its argument as there is room for, behind what the buffer holds,
  and returns how much; a block get returns and removes as much as is asked for and there is.
\<close>

theorem rt_ringbuffer_put_get:
  assumes "rb_wf rb"
  shows "snd (rt_ringbuffer_put rb xs) = min (length xs) (buffer_size rb - length (rb_contents rb)) \<and>
    rb_contents (fst (rt_ringbuffer_put rb xs)) = rb_contents rb @ take (snd (rt_ringbuffer_put rb xs)) xs \<and>
    rb_wf (fst (rt_ringbuffer_put rb xs)) \<and>
    snd (rt_ringbuffer_get rb n) = take n (rb_contents rb) \<and>
    rb_contents (fst (rt_ringbuffer_get rb n)) = drop n (rb_contents rb) \<and> rb_wf (fst (rt_ringbuffer_get rb n))"
  using rt_ringbuffer_put_spec [OF assms, of xs] rt_ringbuffer_get_spec [OF assms, of n] by simp

theorem rt_ringbuffer_put_get_witness:
  "snd (rt_ringbuffer_put (rt_ringbuffer_init [0, 0, 0, 0, 0, 0, 0, 0] 8) [1, 2, 3]) = 3"
  using rt_ringbuffer_put_get [OF rt_ringbuffer_init_wf(1) [of 8 "[0, 0, 0, 0, 0, 0, 0, 0]"], of "[1, 2, 3]"]
    rt_ringbuffer_init_wf(2) [of 8 "[0, 0, 0, 0, 0, 0, 0, 0]"]
  by (simp add: align4_down_def) (simp add: rt_ringbuffer_init_def align4_down_def)

text \<open>
  Single bytes go through the buffer in order: what it held and the bytes then put, as many as fit,
  come out of the following byte gets.
\<close>

theorem rt_ringbuffer_byte_round_trip:
  assumes "rb_wf rb" "length (rb_contents rb) + length xs \<le> buffer_size rb"
  shows "fst (get_n rb_get (length (rb_contents rb) + length xs) (put_all rb_put xs rb)) = rb_contents rb @ xs"
  using assms rbq.round_trip by blast

theorem rt_ringbuffer_byte_round_trip_witness:
  "fst (get_n rb_get 3 (put_all rb_put [1, 2, 3] (rt_ringbuffer_init [0, 0, 0, 0] 4))) = [1, 2, 3]"
proof -
  let ?rb = "rt_ringbuffer_init [0, 0, 0, 0] 4"
  have w: "rb_wf ?rb" "rb_contents ?rb = []" "buffer_size ?rb = 4"
    using rt_ringbuffer_init_wf [of 4 "[0, 0, 0, 0]"] by (simp_all add: align4_down_def)
  show ?thesis
    using rt_ringbuffer_byte_round_trip [OF w(1), of "[1, 2, 3]"] w(2,3)
    by (simp add: numeral_3_eq_3 del: put_all.simps get_n.simps)
qed

text \<open>
  The overwriting byte put drops the oldest byte of a full buffer and appends the new one.
\<close>

theorem rt_ringbuffer_putchar_force_overwrites:
  assumes "rb_wf rb"
  shows "rb_contents (fst (rt_ringbuffer_putchar_force rb ch)) =
    (if length (rb_contents rb) = buffer_size rb then tl (rb_contents rb) else rb_contents rb) @ [ch]"
  using assms by (rule putchar_force_contents)

theorem rt_ringbuffer_putchar_force_overwrites_witness:
  "rb_contents (fst (rt_ringbuffer_putchar_force (rt_ringbuffer_init [0, 0, 0, 0] 4) 9)) = [9]"
  using rt_ringbuffer_putchar_force_overwrites [OF rt_ringbuffer_init_wf(1) [of 4 "[0, 0, 0, 0]"]]
    rt_ringbuffer_init_wf(2,3) [of 4 "[0, 0, 0, 0]"] by (simp add: align4_down_def)

text \<open>
  The overwriting block put keeps the newest bytes when the indices are in different mirrors, but
  when they are in the same mirror and the block does not fit it leaves the buffer empty: the read
  mirror is flipped although the read index did not wrap.
\<close>

theorem rt_ringbuffer_put_force_overwrites:
  assumes "rb_wf rb" "length xs \<le> buffer_size rb" "rt_ringbuffer_space_len rb < length xs"
  shows "rb_contents (fst (rt_ringbuffer_put_force rb xs)) =
    (if read_mirror rb = write_mirror rb then []
     else drop (length (rb_contents rb) + length xs - buffer_size rb) (rb_contents rb) @ xs)"
  using put_force_lost [OF assms(1) _ assms(2,3)] put_force_newest [OF assms(1) _ assms(2,3)] by simp

theorem rt_ringbuffer_put_force_overwrites_witness:
  "rb_contents (fst (rt_ringbuffer_put_force
     \<lparr>buffer_ptr = [1, 2, 3, 4], read_mirror = False, read_index = 0, write_mirror = False, write_index = 2,
      buffer_size = 4\<rparr> [5, 6, 7])) = []"
  using rt_ringbuffer_put_force_overwrites [of "\<lparr>buffer_ptr = [1, 2, 3, 4], read_mirror = False, read_index = 0,
      write_mirror = False, write_index = 2, buffer_size = 4\<rparr>" "[5, 6, 7]"]
  by (simp add: rb_wf_def rt_ringbuffer_space_len_def rt_ringbuffer_data_len_def rt_ringbuffer_status_def)

section \<open>The heap\<close>

text \<open>
  C9. However the heap is used after its initialisation, with blocks allocated, cleared, resized and given back in
  any order, no assertion of the allocator fails; the blocks in use are aligned, lie inside the heap and
  do not overlap, no two free blocks are neighbours, and \<^verbatim>\<open>used_mem\<close> is the space in use.
\<close>

theorem heap_reach_safe:
  assumes "heap_reach h"
  shows "heap_ok h \<and> \<not> heap_fault h \<and> used_mem h = used_total (heap_blocks h) h \<and>
    no_adj (hused h) (heap_blocks h) \<and>
    (\<forall>(b, n)\<in>set (live h). payload h b mod 4 = 0 \<and> payload h b + n \<le> heap_ptr h + heap_end h \<and>
      (\<forall>(b', n')\<in>set (live h). b \<noteq> b' \<longrightarrow> payload h b + n \<le> payload h b' \<or> payload h b' + n' \<le> payload h b))"
proof -
  have ok: "heap_ok h" "\<not> heap_fault h" using heap_reach_ok [OF assms] by simp_all
  then have i: "heap_shape (heap_blocks h) h" "no_adj (hused h) (heap_blocks h)" "used_mem h = used_total (heap_blocks h) h"
    by (simp_all add: heap_ok_def heap_inv_def)
  show ?thesis using ok i by (auto dest: live_apart(1) [OF i(1)] live_apart(2) [OF i(1)])
qed

theorem heap_reach_safe_witness:
  "\<not> heap_fault small_heap_full \<and> used_mem small_heap_full = used_total (heap_blocks small_heap_full) small_heap_full"
  using heap_reach_safe [OF small_heap_reach(2)] by blast



text \<open>
  Giving back what \<open>rt_malloc\<close> handed out restores the blocks in use, in order, and changes no payload.
\<close>

theorem rt_malloc_free_round_trip:
  assumes "heap_ok h" "rt_malloc sz h = Some (h', Some p)"
  shows "heap_ok (rt_free (Some p) h') \<and> live (rt_free (Some p) h') = live h \<and>
    mem_bytes (rt_free (Some p) h') = mem_bytes h \<and> used_mem (rt_free (Some p) h') = used_mem h"
proof -
  obtain b n where g: "p = payload h b" "gains b n h h'" "mem_bytes h' = mem_bytes h"
  proof (cases "malloc_block sz h")
    case None
    then show thesis using rt_malloc_refused [OF assms(1)] assms(2) by simp
  next
    case (Some b)
    then show thesis using rt_malloc_granted [OF assms(1) Some] assms(2) that by auto
  qed
  note f = rt_free_gained [OF g(2)]
  then show ?thesis using g live_used_mem [OF assms(1)] live_used_mem [OF f(1)] f(2,3) by (simp add: same_heap_def)
qed

theorem rt_malloc_free_round_trip_witness:
  "live (rt_free (Some 0x2000000c) (after (rt_malloc 100 small_heap))) = live small_heap"
proof -
  have "heap_ok small_heap" using heap_reach_ok [OF small_heap_reach(1)] by simp
  from rt_malloc_free_round_trip [OF this small_heap_malloc] show ?thesis by (simp add: small_heap_malloc after_def)
qed

text \<open>
  C39. \<open>rt_realloc\<close> of a block in use returns. Either the contents of the block, up to the smaller of the two
  sizes, are found in a block of the new size, every other block keeps its place and contents and the old
  place is given back; or it returns \<^verbatim>\<open>RT_NULL\<close>, changes nothing, and no free block was large enough.
\<close>

theorem rt_realloc_keeps_contents:
  assumes "heap_ok h" "(b, n) \<in> set (live h)" "newsize \<noteq> 0" "newsize + 3 < 2 ^ 32" "align4 newsize \<le> mem_size_aligned h"
  shows "rt_realloc (Some (payload h b)) newsize h = Some (h, None) \<and>
      n \<noteq> align4 newsize \<and> n \<le> align4 newsize + 24 \<and> malloc_block (align4 newsize) h = None \<or>
    (\<exists>h' b' n'. rt_realloc (Some (payload h b)) newsize h = Some (h', Some (payload h b')) \<and> heap_ok h' \<and>
      (b', n') \<in> set (live h') \<and> newsize \<le> n' \<and> set (live h') - {(b', n')} = set (live h) - {(b, n)} \<and>
      (\<forall>i < min newsize n. mem_bytes h' (payload h b' + i) = mem_bytes h (payload h b + i)) \<and>
      (\<forall>(c, m)\<in>set (live h) - {(b, n)}. \<forall>i < m. mem_bytes h' (payload h c + i) = mem_bytes h (payload h c + i)))"
  using rt_realloc_live [OF assms] .

theorem rt_realloc_keeps_contents_witness:
  "\<exists>h' b' n'. rt_realloc (Some (payload small_heap_full 0)) 20 small_heap_full = Some (h', Some (payload small_heap_full b')) \<and>
     set (live h') - {(b', n')} = {(112, 88)}"
proof -
  have "heap_ok small_heap_full" using heap_reach_ok [OF small_heap_reach(2)] by simp
  from rt_realloc_keeps_contents [OF this, of 0 100 20] show ?thesis
    by (auto simp: small_heap_blocks small_heap_full_size align4_def)
qed

text \<open>
  \<open>rt_calloc\<close> gives a block of zeros and changes no other byte of the heap.
\<close>

theorem rt_calloc_zeroed:
  assumes "heap_ok h" "malloc_block (mul32 count sz) h = Some b"
  shows "\<exists>h' n. rt_calloc count sz h = Some (h', Some (payload h b)) \<and> gains b n h h' \<and> request (mul32 count sz) \<le> n \<and>
    (\<forall>i. mem_bytes h' i = (if payload h b \<le> i \<and> i < payload h b + mul32 count sz then 0 else mem_bytes h i))"
proof -
  obtain h' n where r: "rt_malloc (mul32 count sz) h = Some (h', Some (payload h b))" "gains b n h h'"
    "request (mul32 count sz) \<le> n" "mem_bytes h' = mem_bytes h" using rt_malloc_granted [OF assms] by blast
  then have "gains b n h (fill_bytes (payload h b) 0 (mul32 count sz) h')" by (simp add: gains_def fill_bytes_def)
  then show ?thesis using r by (auto simp: rt_calloc_def fill_bytes_def)
qed

theorem rt_calloc_zeroed_witness:
  "\<exists>h'. rt_calloc 25 4 small_heap = Some (h', Some (payload small_heap 0)) \<and> mem_bytes h' (payload small_heap 0) = 0"
proof -
  have "heap_ok small_heap" using heap_reach_ok [OF small_heap_reach(1)] by simp
  from rt_calloc_zeroed [OF this, of 25 4 0] show ?thesis by (auto simp: small_heap_block mul32_def)
qed

text \<open>
  A block cut by \<open>rt_realloc\<close> leaves a free rest below \<^verbatim>\<open>lfree\<close> that \<open>rt_malloc\<close> does not find: on a heap
  that is reached by two allocations and one resize, a request for which a free block is large enough is refused.
\<close>

theorem rt_realloc_hides_free_block:
  "\<exists>h b. heap_reach h \<and> b \<in> set (heap_blocks h) \<and> fits (request 40) h b \<and> b < lfree h \<and>
    rt_malloc 40 h = Some (h, None)"
proof (intro exI conjI)
  show "heap_reach small_heap_cut" by (rule small_heap_reach)
  show "32 < lfree small_heap_cut" by (simp add: small_heap_cut_eq)
qed (simp_all add: small_heap_blocks)

text \<open>
  For the three largest sizes the rounding wraps to zero: \<open>rt_malloc\<close> grants the request with a block of 12
  bytes, and \<open>rt_realloc\<close> frees the block.
\<close>

theorem rt_malloc_size_wraps:
  assumes "heap_ok h" "2 ^ 32 \<le> sz + 3" "sz < 2 ^ 32"
  shows "rt_malloc sz h = rt_malloc 12 h \<and> rt_realloc p sz h = Some (rt_free p h, None)"
  using align4_overflow [OF assms(2,3)] heap_ok_size [OF assms(1)] assms(2)
  by (simp add: rt_malloc_def rt_realloc_def MIN_SIZE_ALIGNED_def align4_aligned)

theorem rt_malloc_size_wraps_witness:
  "rt_malloc 0xfffffffe small_heap = rt_malloc 12 small_heap"
proof -
  have "heap_ok small_heap" using heap_reach_ok [OF small_heap_reach(1)] by simp
  from rt_malloc_size_wraps [OF this, of "0xfffffffe" None] show ?thesis by simp
qed

section \<open>Kernel services\<close>

text \<open>
  C28. The word-wise routines do what the byte-wise ones would: \<open>rt_memset\<close> fills exactly the area with the low byte of
  its argument, \<open>rt_memcpy\<close> copies the area when it does not run into its own source, and \<open>rt_memmove\<close> copies it however
  the areas lie.
\<close>

theorem rt_memory_routines:
  assumes "dst \<le> src \<or> src + n \<le> dst"
  shows "rt_memcpy dst src n m = (\<lambda>x. if dst \<le> x \<and> x < dst + n then m (src + (x - dst)) else m x) \<and>
    rt_memmove d s n m = (\<lambda>x. if d \<le> x \<and> x < d + n then m (s + (x - d)) else m x) \<and>
    rt_memset a c n m = (\<lambda>x. if a \<le> x \<and> x < a + n then ucast c else m x)"
  using rt_memcpy_copied [OF assms] rt_memmove_copied rt_memset_filled by (simp add: copied_def filled_def)

theorem rt_memory_routines_witness:
  "rt_memcpy 64 128 21 (\<lambda>a. of_nat a) 84 = (148 :: rt_uint8_t)"
  using rt_memory_routines [of 64 128 21 "\<lambda>a. of_nat a"] by simp

text \<open>
  C29. On terminated strings the string routines return: \<open>rt_strlen\<close> the length, \<open>rt_strcmp\<close> the order of the bytes,
  \<open>rt_strcasecmp\<close> equality up to case, and \<open>rt_strstr\<close> the first place where the second string occurs, or none when it
  occurs nowhere.
\<close>

theorem rt_string_routines:
  assumes "is_str s xs" "is_str t ys"
  shows "rt_strlen s = Some (length xs) \<and>
    (\<exists>r. rt_strcmp s t = Some r \<and> (r = 0 \<longleftrightarrow> xs = ys) \<and> (r < 0 \<longleftrightarrow> (xs, ys) \<in> byte_order)) \<and>
    (\<exists>r. rt_strcasecmp s t = Some r \<and> (r = 0 \<longleftrightarrow> map lower_case xs = map lower_case ys)) \<and>
    (\<exists>r. rt_strstr s t = Some r \<and>
      (case r of None \<Rightarrow> \<forall>j. \<not> occurs_at j ys xs | Some k \<Rightarrow> occurs_at k ys xs \<and> (\<forall>j<k. \<not> occurs_at j ys xs)))"
  using rt_strlen_str [OF assms(1)] rt_strcmp_order [OF assms] rt_strcasecmp_equal [OF assms] rt_strstr_first [OF assms]
  by (auto split: option.splits)

theorem rt_string_routines_witness:
  "\<exists>r. rt_strstr (\<lambda>i. [1, 2, 3, 0] ! i) (\<lambda>i. [2, 3, 0] ! i) = Some (Some r) \<and> occurs_at r [2, 3] [1, 2, 3]"
proof -
  have str: "is_str (\<lambda>i. [1, 2, 3, 0] ! i) [1, 2, 3]" "is_str (\<lambda>i. [2, 3, 0] ! i) [2, 3]"
    by (simp_all add: is_str_def less_Suc_eq)
  have occ: "occurs_at 1 [2, 3] [1, 2, 3 :: rt_uint8_t]" by (simp add: occurs_at_def)
  from rt_string_routines [OF str] occ show ?thesis by (auto split: option.splits)
qed





section \<open>Linked lists\<close>

text \<open>
  C13. The queues of the kernel state are what the pointers make of them: when the links of the list heads and of
  \<^verbatim>\<open>thread->tlist\<close> represent the queues, \<^verbatim>\<open>rt_list_remove\<close>, \<^verbatim>\<open>rt_list_insert_before\<close> and
  \<^verbatim>\<open>rt_list_insert_after\<close> on them represent the queues after the corresponding steps of the model, insertion before
  the thread that is first in \<open>bs\<close> included; emptiness and length are read off correctly.
\<close>

theorem queue_links_refine:
  assumes "queues_linked m (tq s)"
  shows "queues_linked (rt_list_remove (TList t) m) (tq (list_remove t s)) \<and>
    ((\<forall>h. t \<notin> set (tq s h)) \<longrightarrow>
      queues_linked (rt_list_insert_before (QHead h) (TList t) m) (tq (list_insert_before h t s)) \<and>
      queues_linked (rt_list_insert_after (QHead h) (TList t) m) (tq (list_insert_after h t s)) \<and>
      (\<forall>as b bs. tq s h = as @ b # bs \<longrightarrow>
        queues_linked (rt_list_insert_before (TList b) (TList t) m) ((tq s)(h := as @ t # b # bs)))) \<and>
    rt_list_isempty (QHead h) m = (tq s h = []) \<and> rt_list_len (QHead h) m = Some (length (tq s h))"
proof -
  have "queues_linked (rt_list_insert_before (TList b) (TList t) m) ((tq s)(h := as @ t # b # bs))"
    if "\<forall>h. t \<notin> set (tq s h)" "tq s h = as @ b # bs" for as b bs
    using queues_linked_insert(1) [OF assms _ that(2), of t] that(1) by simp
  then show ?thesis
  using queues_linked_remove [OF assms, of t] queues_linked_insert(1) [OF assms, of t h "tq s h" "[]"]
    queues_linked_insert(2) [OF assms, of t h "[]" "tq s h"]
    rt_list_isempty_ok [OF queues_linkedD(1) [OF assms, of h]] rt_list_len_ok [OF queues_linkedD(1) [OF assms, of h]]
  by (simp add: list_remove_def list_insert_before_def list_insert_after_def)
qed

theorem queue_links_refine_witness:
  "queues_linked (rt_list_insert_before (QHead (Ready 5)) (TList 7) \<lparr>l_next = id, l_prev = id\<rparr>)
    (tq (list_insert_before (Ready 5) 7 reset_state))"
proof -
  have "queues_linked \<lparr>l_next = id, l_prev = id\<rparr> (tq reset_state)"
    by (simp add: queues_linked_def is_list_def reset_state_def)
  from queue_links_refine [OF this, of 7 "Ready 5"] show ?thesis by (simp add: reset_state_def)
qed

text \<open>
  The operations on singly linked lists end on every list that ends, and insert at the head, append at the end,
  remove a member and count as they should.
\<close>

theorem rt_slist_operations:
  assumes "is_slist m l xs"
  shows "(rt_slist_isempty l m \<longleftrightarrow> xs = []) \<and> rt_slist_len l m = Some (length xs) \<and>
    rt_slist_tail m l = Some (last (l # xs)) \<and>
    (n \<notin> set (l # xs) \<longrightarrow> is_slist (rt_slist_insert l n m) l (n # xs) \<and>
      (\<exists>m'. rt_slist_append l n m = Some m' \<and> is_slist m' l (xs @ [n]))) \<and>
    (n \<in> set xs \<longrightarrow> (\<exists>m'. rt_slist_remove l n m = Some m' \<and> is_slist m' l (remove1 n xs)))"
  using rt_slist_ops_ok [OF assms] by blast

theorem rt_slist_operations_witness:
  "\<exists>m'. rt_slist_append 0 2 [0 \<mapsto> (1 :: nat)] = Some m' \<and> is_slist m' 0 [1, 2]"
proof -
  have "is_slist [0 \<mapsto> (1 :: nat)] 0 [1]" by (simp add: is_slist_def)
  from rt_slist_operations [OF this, of 2] show ?thesis by simp
qed

section \<open>The kernel as a whole\<close>



text \<open>
  \<open>rt_thread_delay_until\<close> called \<open>d\<close> ticks after \<^verbatim>\<open>*tick\<close>, with \<open>d\<close> less than the period, sleeps for
  \<open>d\<close> plus the period: the thread wakes \<open>2 * d\<close> ticks after the next multiple of the period.
\<close>

theorem rt_thread_delay_until_period:
  assumes "kernel_inv s" "rt_current_thread s = Some t" "rt_tick s - tick < inc"
  shows "tm_init_tick (tmr (fst (rt_thread_delay_until tick inc s)) (ThreadTimer t)) = (rt_tick s - tick) + inc \<and>
    rt_tick s + ((rt_tick s - tick) + inc) = (tick + inc) + 2 * (rt_tick s - tick)"
  using delay_until_armed [OF timer_invD(2) [OF kernel_invD(2) [OF assms(1)]] assms(2,3)] by simp

theorem rt_thread_delay_until_period_witness:
  "tm_init_tick (tmr (fst (rt_thread_delay_until 2 10 sleep_demo)) (ThreadTimer 1)) = 13"
  using rt_thread_delay_until_period [OF sleep_demo_ok(1), of 1 2 10] by (simp add: sleep_demo_ok)

text \<open>
  \<open>rt_thread_yield\<close> gives way to a ready thread of better priority only: a thread that is not at the end of its
  time slice keeps the processor against ready threads of its own priority.
\<close>

theorem rt_thread_yield_keeps:
  assumes "kernel_inv s" "rt_current_thread s = Some t" "tstat (thr s t) = RT_THREAD_RUNNING"
    "th_stat (thr s t) AND RT_THREAD_STAT_YIELD = 0" "\<And>p. p < prio_of (thr s t) \<Longrightarrow> tq s (Ready p) = []"
  shows "rt_current_thread (fst (rt_thread_yield s)) = Some t"
  using yield_keeps_current [OF kernel_invD(1) [OF assms(1)] assms(2-5)] .

theorem rt_thread_yield_keeps_witness:
  "rt_current_thread (fst (rt_thread_yield sleep_demo)) = Some 1"
  by (rule rt_thread_yield_keeps [OF sleep_demo_ok(1), of 1]) (simp_all add: demo_no_yield)

text \<open>
  With a tick of one millisecond \<open>rt_tick_from_millisecond\<close> is exact for every time up to the maximum
  \<^verbatim>\<open>0x7fffffff\<close>, and a negative time means forever.
\<close>

theorem rt_tick_from_millisecond_exact:
  "rt_tick_from_millisecond ms = (if sint ms < 0 then RT_WAITING_FOREVER else ms)"
  by (rule tick_from_ms)

section \<open>I2C\<close>



section \<open>Serial devices\<close>

text \<open>
  C17. Whatever the order of receive interrupts and reads, a serial device in interrupt mode hands out exactly the bytes
  of a queue that keeps the newest bytes - one less than the buffer has cells - and drops the oldest when it overflows,
  and never leaves its buffer. As long as every batch fits when it arrives, what was read and what is still in the
  buffer is, in order, all that was received.
\<close>

theorem serial_int_receive:
  assumes "int_fifo_wf sz f"
  shows "fst (rx_run (fold (isr_rx_byte sz)) (serial_int_rx sz) ops f) = fst (rx_spec (int_cap sz) ops (fifo_contents sz f)) \<and>
    int_fifo_wf sz (snd (rx_run (fold (isr_rx_byte sz)) (serial_int_rx sz) ops f)) \<and>
    (rx_fits (int_cap sz) (length (fifo_contents sz f)) ops \<longrightarrow>
      concat (fst (rx_run (fold (isr_rx_byte sz)) (serial_int_rx sz) ops f)) @
        fifo_contents sz (snd (rx_run (fold (isr_rx_byte sz)) (serial_int_rx sz) ops f)) =
      fifo_contents sz f @ rx_input ops)"
  using int_rx.run_refines [OF assms, of ops] int_rx.lossless [OF assms, of ops] by simp

theorem serial_int_receive_witness:
  "fst (rx_run (fold (isr_rx_byte 4)) (serial_int_rx 4) [Recv [1, 2, 3, 4, 5], Read 2, Recv [6], Read 9] (fresh_fifo 4)) =
    [[3, 4], [5, 6]]"
  using serial_int_receive [OF fresh_fifo_wf(1), of 4 "[Recv [1, 2, 3, 4, 5], Read 2, Recv [6], Read 9]"]
  by (simp add: fresh_fifo_wf(3) newest_def int_cap_def)

text \<open>
  C18. DMA reception on the STM32. The receive stream stores bytes into the software buffer; when the interrupt for a half
  or a complete buffer comes before the stream has passed the end of the buffer, it computes how many bytes are new, the
  buffer then holds the newest bytes of its old contents and the new ones, as many as it has cells, the driver and the
  buffer agree on the position again, and the callback is told how many bytes can be read; a read takes the oldest.
\<close>

theorem serial_dma_receive:
  assumes "dma_rx_wf d" "bs \<noteq> []" "unat (put_index (dev_fifo d)) + length bs \<le> unat (bufsz (s_config d))"
  shows "\<exists>d'. dma_isr (fold dma_rx_byte bs d) = Some d' \<and> dma_rx_wf d' \<and> bufsz (s_config d') = bufsz (s_config d) \<and>
    fifo_contents (bufsz (s_config d)) (dev_fifo d') =
      newest (unat (bufsz (s_config d))) (fifo_contents (bufsz (s_config d)) (dev_fifo d) @ bs) \<and>
    s_notes d' = s_notes d @ (if s_rx_indicate d
      then [Rx_indicate (of_nat (length (fifo_contents (bufsz (s_config d)) (dev_fifo d'))))] else []) \<and>
    (\<forall>len. 0 \<le> sint len \<longrightarrow> snd (serial_dma_rx_fifo (bufsz (s_config d)) len (dev_fifo d')) =
      take (unat len) (fifo_contents (bufsz (s_config d)) (dev_fifo d')))"
proof -
  obtain d' where d': "dma_isr (fold dma_rx_byte bs d) = Some d'" "dma_rx_wf d'"
    "bufsz (s_config d') = bufsz (s_config d)"
    "fifo_contents (bufsz (s_config d)) (dev_fifo d') =
      newest (unat (bufsz (s_config d))) (fifo_contents (bufsz (s_config d)) (dev_fifo d) @ bs)"
    "s_notes d' = s_notes d @ (if s_rx_indicate d
      then [Rx_indicate (of_nat (length (fifo_contents (bufsz (s_config d)) (dev_fifo d'))))] else [])"
    using dma_isr_newest [OF assms] by blast
  moreover have "dma_fifo_wf (bufsz (s_config d)) (dev_fifo d')" "bufsz (s_config d) \<le> 0x8000"
    using dma_rx_wfD [OF d'(2)] d'(3) by simp_all
  ultimately show ?thesis using serial_dma_rx_take by blast
qed

definition demo_uart :: stm32_uart where
  "demo_uart = \<lparr>s_flag = 0xf03, s_open_flag = 0xa03, s_ref_count = 1, s_rx_indicate = True, s_tx_complete = False,
     s_config = \<lparr>baud_rate = 115200, data_bits = 8, stop_bits = 0, parity = 0, bit_order = 0, invert = 0, bufsz = 4\<rparr>,
     s_rx = Some (Rx_fifo 128 (fresh_fifo 4)), s_tx = Some (Tx_dma 64 False), s_k = queue_at 0,
     s_hw = \<lparr>hw_init = \<lparr>init_baud = 115200, init_wordlength9 = False, init_stopbits2 = False, init_parity = 0\<rparr>,
       hw_irq = True, hw_rxne_it = False, hw_idle_it = True, hw_idle = False, hw_tc = False, hw_tc_it = False,
       hw_dma_flag = 0xa00, hw_rx_in = [], hw_sent = [], hw_tx_busy = False, hw_tx_dma = [], hw_rx_busy = True,
       hw_rx_target = Some 128, hw_dma_left = 4, hw_last_index = 0\<rparr>, s_notes = []\<rparr>"

theorem serial_dma_receive_witness:
  "\<exists>d'. dma_isr (fold dma_rx_byte [10, 20, 30] demo_uart) = Some d' \<and> fifo_contents 4 (dev_fifo d') = [10, 20, 30] \<and>
    s_notes d' = [Rx_indicate 3]"
proof -
  have f: "dev_fifo demo_uart = fresh_fifo 4" "bufsz (s_config demo_uart) = 4" "s_rx_indicate demo_uart"
    "s_notes demo_uart = []" by (simp_all add: demo_uart_def dev_fifo_def)
  have w: "dma_rx_wf demo_uart"
    using fresh_fifo_wf(2) [of 4] by (simp add: demo_uart_def dma_rx_wf_def fresh_fifo_def)
  show ?thesis
    using serial_dma_receive [OF w, of "[10, 20, 30]"] f fresh_fifo_wf(3) [of 4] by (auto simp: newest_def fresh_fifo_def)
qed

text \<open>
  C19. DMA transmission on the STM32. As long as each write runs to its end before the next begins, the queue has room and
  its indices do not wrap around, every sequence of writes and ends of transfers starts the transfers in the order of
  the writes, each exactly once: what was started and what waits behind the running transfer is, in order, all that was
  written.
\<close>

theorem serial_dma_send_order:
  assumes "dma_tx_wf d" "tx_fits (unat (dq_size (tx_queue d))) (length (tx_items d)) ops"
    "unat (dq_put_index (tx_queue d)) + length (tx_written ops) < 0x10000"
  shows "\<exists>d'. tx_run ops d = Some d' \<and> dma_tx_wf d' \<and>
    hw_tx_dma (s_hw d') @ tl (tx_items d') = hw_tx_dma (s_hw d) @ tl (tx_items d) @ tx_written ops"
  by (rule tx_run_order [OF assms])

theorem serial_dma_send_order_witness:
  "\<exists>d'. tx_run [Tx_write (item 7 1), Tx_write (item 9 2), Tx_end] demo_uart = Some d' \<and>
    hw_tx_dma (s_hw d') @ tl (tx_items d') = [item 7 1, item 9 2]"
proof -
  have q: "tx_queue demo_uart = get_dq 64 (queue_at 0)" "tx_items demo_uart = []" "hw_tx_dma (s_hw demo_uart) = []"
    by (simp_all add: demo_uart_def tx_items_def tx_queue_def queue_at_ok)
  have w: "dma_tx_wf demo_uart"
    using q by (simp add: dma_tx_wf_def queue_at_ok) (simp add: demo_uart_def)
  show ?thesis
    using serial_dma_send_order [OF w, of "[Tx_write (item 7 1), Tx_write (item 9 2), Tx_end]"] q
    by (auto simp: queue_at_ok sendable_def item_def)
qed

text \<open>
  Two threads on an idle device: the first has queued its data and is preempted before it looks whether a transfer runs,
  the second writes. The data of the second is sent twice, that of the first never.
\<close>

theorem serial_dma_send_race:
  assumes "dma_tx_wf d" "tx_items d = []" "sendable x" "sendable y" "s_tx d = Some (Tx_dma q False)"
    "1 < unat (dq_size (tx_queue d))" "unat (dq_put_index (tx_queue d)) < 0xfffe"
  shows "\<exists>d1 d2 d3 d4. serial_dma_tx_push q x d = (d1, Returns RT_EOK) \<and>
    serial_dma_tx stm32_uart_ops y d1 = (d2, Returns (di_data_size y)) \<and>
    hal_tx_complete (serial_dma_tx_start stm32_uart_ops x d2) = Some d3 \<and> hal_tx_complete d3 = Some d4 \<and>
    hw_tx_dma (s_hw d4) = hw_tx_dma (s_hw d) @ [y, y] \<and> tx_items d4 = [] \<and> dma_tx_wf d4"
  by (rule dma_tx_race [OF assms])

section \<open>The virtual file system\<close>

text \<open>
  C23. \<^verbatim>\<open>dfs_normalize_path\<close>, which works in place with two pointers, never leaves its buffer while it copies and computes
  the reference definition on the components of the path. A path that does not climb above the root becomes an absolute
  path without empty, \<open>.\<close> and \<open>..\<close> components, which is its own normal form. (The reference shows what happens above the
  root: the first \<open>..\<close> takes the leading slash away.)
\<close>

theorem dfs_normalize_equiv:
  assumes "full_path wd directory filename = slash # q" "0 \<notin> set q"
  shows "dfs_normalize_path True wd directory filename =
      map_option (\<lambda>s. (render s, s = [])) (resolve [[]] (abs_comps (slash # q))) \<and>
    (\<forall>es. resolve [] (abs_comps (slash # q)) = Some es \<longrightarrow>
      dfs_normalize_path True wd directory filename = Some (slash # join_segs es, False) \<and> list_all plain_comp es \<and>
      dfs_normalize_path True wd directory (slash # join_segs es) = Some (slash # join_segs es, False))"
proof (intro conjI allI impI)
  fix es assume r: "resolve [] (abs_comps (slash # q)) = Some es"
  show "dfs_normalize_path True wd directory filename = Some (slash # join_segs es, False)" and p: "list_all plain_comp es"
    using normalize_inside_root [OF assms r] by simp_all
  show "dfs_normalize_path True wd directory (slash # join_segs es) = Some (slash # join_segs es, False)"
    by (rule normalize_idempotent [OF p resolved_no_zero [OF assms(2) r]])
qed (rule normalize_absolute [OF assms])

theorem dfs_normalize_equiv_witness:
  "dfs_normalize_path True [slash] None [97, slash, slash, dot, slash, 98, slash, dot, dot, slash, 99, slash] =
    Some ([slash, 97, slash, 99], False)"
proof -
  let ?q = "[slash, 97, slash, slash, dot, slash, 98, slash, dot, dot, slash, 99, slash]"
  have f: "full_path [slash] None [97, slash, slash, dot, slash, 98, slash, dot, dot, slash, 99, slash] = slash # ?q"
    by (simp add: full_path_def byte_at_def slash_def)
  have z: "0 \<notin> set ?q" by (simp add: slash_def dot_def)
  have "resolve [] (abs_comps (slash # ?q)) = Some [[97], [99]]" by code_simp
  then show ?thesis using dfs_normalize_equiv [OF f z, THEN conjunct2, rule_format, of "[[97], [99]]"] by simp
qed

text \<open>
  C24. The table of file descriptors counts the users of each descriptor. Given memory, \<^verbatim>\<open>fd_new\<close> hands out the lowest free
  descriptor with one user, and -1 when all 16 are in use; \<^verbatim>\<open>fd_get\<close> adds a user to a descriptor in use and refuses every
  other number; \<^verbatim>\<open>fd_put\<close> takes a user away and the last one frees the slot. Entries stay distinct, in use and marked.
\<close>

theorem dfs_fd_users_exact:
  assumes "fd_wf t"
  shows "(Some a \<notin> set (fds t) \<longrightarrow>
      (case fd_new True (Some a) t of (t', fd) \<Rightarrow> fd_wf t' \<and>
        (if \<forall>i<DFS_FD_MAX. fd_users t i \<noteq> 0 then fd = - 1 \<and> fd_users t' = fd_users t
         else \<exists>i<DFS_FD_MAX. fd_users t i = 0 \<and> (\<forall>j<i. fd_users t j \<noteq> 0) \<and> fd = int i + DFS_FD_OFFSET \<and>
           fds t' ! i = Some a \<and> i < length (fds t') \<and> fd_users t' = (fd_users t)(i := 1)))) \<and>
    (case fd_get (int i + DFS_FD_OFFSET) t of (t', r) \<Rightarrow> fd_wf t' \<and>
      (if fd_users t i = 0 then r = None \<and> t' = t
       else r = fds t ! i \<and> fds t' = fds t \<and> fd_users t' = (fd_users t)(i := fd_users t i + 1))) \<and>
    (i < length (fds t) \<and> fds t ! i = Some b \<longrightarrow>
      fd_wf (fd_put b t) \<and> fd_users (fd_put b t) = (fd_users t)(i := fd_users t i - 1))"
  using fd_new_slot [OF assms, of a] fd_get_users [OF assms refl, of i] fd_put_users [OF assms, of i b] by blast

theorem dfs_fd_users_exact_witness:
  "snd (fd_new True (Some 64) \<lparr>fds = [], fd_mem = \<lambda>_. zero_fd\<rparr>) = 3"
proof -
  let ?t = "\<lparr>fds = [], fd_mem = \<lambda>_. zero_fd\<rparr>"
  have w: "fd_wf ?t" "\<And>i. fd_users ?t i = 0" by (simp_all add: fd_wf_def fd_users_def)
  obtain t' fd where n: "fd_new True (Some 64) ?t = (t', fd)" by (cases "fd_new True (Some 64) ?t")
  have nz: "(\<forall>i<DFS_FD_MAX. fd_users ?t i \<noteq> 0) = False" using w(2) by (auto simp: DFS_FD_MAX_def intro: exI [of _ 0])
  obtain i where i: "\<forall>j<i. fd_users ?t j \<noteq> 0" "fd = int i + DFS_FD_OFFSET"
    using dfs_fd_users_exact [OF w(1), of 64 0 0] n by (auto simp: nz)
  have "i = 0" using i(1) w(2) by (cases i) auto
  then have "fd = 3" using i(2) by (simp add: DFS_FD_OFFSET_def)
  with n show ?thesis by simp
qed

section \<open>Objects and devices\<close>

text \<open>
  C16. The containers are typed: initialising, allocating, detaching and deleting an object keep every container free of
  duplicates and its members of the class of the container, so what \<open>rt_object_find\<close> returns is a linked object of the
  class asked for whose name agrees with the name asked for.
\<close>

theorem rt_object_containers_typed:
  assumes "container_wf s"
  shows "(unlinked r s \<and> rt_object_get_information c \<noteq> None \<longrightarrow> container_wf (rt_object_init r c nm s)) \<and>
    (unlinked (obj_ref_at c a) s \<and> rt_object_get_information c \<noteq> None \<and> rt_object_allocate c nm s = (s', Some a) \<longrightarrow>
      container_wf s') \<and>
    (container_wf (rt_object_detach r s) \<and> unlinked r (rt_object_detach r s)) \<and>
    (container_wf (rt_object_delete r s) \<and> unlinked r (rt_object_delete r s)) \<and>
    (snd (rt_object_find name c s) = Some r' \<longrightarrow> rt_object_get_type r' s = c \<and> r' \<in> set (object_list s c) \<and>
      names_agree (obj_cname r' s) (the name) RT_NAME_MAX)"
  using rt_object_init_container [OF assms] rt_object_allocate_container [OF assms] rt_object_detach_container [OF assms]
    rt_object_delete_container [OF assms] rt_object_find_typed [OF assms] by auto

theorem rt_object_containers_typed_witness:
  "container_wf (rt_object_init (ObjSem 64) RT_Object_Class_Semaphore (\<lambda>_. 0) reset_state)"
proof -
  have "container_wf reset_state" "unlinked (ObjSem 64) reset_state"
    by (simp_all add: container_wf_def unlinked_def reset_state_def)
  moreover have "rt_object_get_information RT_Object_Class_Semaphore \<noteq> None"
    by (simp add: rt_object_get_information_def rt_object_container_def)
  ultimately show ?thesis using rt_object_containers_typed [of reset_state "ObjSem 64"] by blast
qed

text \<open>
  A device that was registered is found under its name, its header says that it is a static device, and nothing
  else can be registered under that name.
\<close>

theorem rt_device_register_round_trip:
  assumes "rt_device_register (Some a) name flags s = (s', RT_EOK)"
  shows "snd (rt_device_find name s') = Some (ObjDevice a) \<and>
    snd (rt_device_register (Some b) name flags' s') = - RT_ERROR \<and>
    obj_type (objs s' (ObjDevice a)) = RT_Object_Class_Device OR RT_Object_Class_Static \<and>
    dev_flag (get_dev a s') = flags \<and> dev_ref_count (get_dev a s') = 0 \<and> dev_open_flag (get_dev a s') = 0"
  using device_register_find [OF assms] device_register_fields [OF assms] by blast

theorem rt_device_register_round_trip_witness:
  "\<exists>s'. rt_device_register (Some 64) (\<lambda>_. 0) 3 reset_state = (s', RT_EOK) \<and>
    snd (rt_device_find (\<lambda>_. 0) s') = Some (ObjDevice 64)"
proof -
  have "snd (rt_device_find (\<lambda>_. 0) reset_state) = None"
    by (simp add: rt_device_find_result) (simp add: reset_state_def)
  then have "snd (rt_device_register (Some 64) (\<lambda>_. 0) 3 reset_state) = RT_EOK"
    by (cases "rt_device_find (\<lambda>_. 0) reset_state") (simp add: rt_device_register_def)
  then show ?thesis using rt_device_register_round_trip [of 64 "\<lambda>_. 0" 3 reset_state] by (metis prod.collapse)
qed



section \<open>Driver IPC\<close>



text \<open>
  As long as the running indices do not wrap, a data queue is a bounded queue: a push appends or is refused with
  \<^verbatim>\<open>-RT_ETIMEOUT\<close> when the queue is full, a pop and a peek give the oldest item or report that there is none.
\<close>

theorem rt_data_queue_fifo:
  assumes "dq_wf (get_dq a s)" "dq_quiet cb a" "dq_put_index (get_dq a s) \<noteq> - 1"
  shows "(if length (dq_contents (get_dq a s)) = unat (dq_size (get_dq a s))
      then rt_data_queue_push cb a x 0 s = (s, Returns (- RT_ETIMEOUT))
      else snd (rt_data_queue_push cb a x time s) = Returns RT_EOK \<and>
        dq_wf (get_dq a (fst (rt_data_queue_push cb a x time s))) \<and>
        dq_contents (get_dq a (fst (rt_data_queue_push cb a x time s))) = dq_contents (get_dq a s) @ [x]) \<and>
    (if dq_contents (get_dq a s) = []
      then rt_data_queue_pop cb a 0 s = (s, Returns (- RT_ETIMEOUT, None)) \<and> rt_data_queue_peak a s = (- RT_EEMPTY, None)
      else rt_data_queue_peak a s = (RT_EOK, Some (hd (dq_contents (get_dq a s)))) \<and>
        snd (rt_data_queue_pop cb a time s) = Returns (RT_EOK, Some (hd (dq_contents (get_dq a s)))) \<and>
        dq_wf (get_dq a (fst (rt_data_queue_pop cb a time s))) \<and>
        dq_contents (get_dq a (fst (rt_data_queue_pop cb a time s))) = tl (dq_contents (get_dq a s)))"
  using dq_push_cases [OF assms, of x] dq_pop_cases [OF assms(1,2)] by (simp split: if_splits)

theorem rt_data_queue_fifo_witness:
  "dq_contents (get_dq 64 (fst (rt_data_queue_push (\<lambda>_ _ _ s. s) 64 (item 7 1) 0 (queue_at 0)))) = [item 7 1]"
  using rt_data_queue_fifo [OF queue_at_ok(1) [of 0], of "\<lambda>_ _ _ s. s" "item 7 1" 0]
  by (simp add: queue_at_ok dq_quiet_def)

text \<open>
  The full test compares differences of indices that wrap at 16 bits as integers: a queue of four items whose
  indices stand at 65533 accepts five pushes, the fifth overwrites the first item, and the pops deliver it twice.
\<close>

theorem rt_data_queue_overruns:
  assumes "dq_quiet cb a" "dq_size (get_dq a s) = 4" "dq_get_index (get_dq a s) = 65533" "dq_empty (get_dq a s)"
  shows "fst (get_n (dq_pop_value cb a) 5 (put_all (dq_push_value cb a) [x0, x1, x2, x3, x4] s)) =
    [Some x4, Some x1, Some x2, Some x3, Some x4]"
  by (rule dq_overrun [OF assms])

theorem rt_data_queue_overruns_witness:
  "fst (get_n (dq_pop_value (\<lambda>_ _ _ s. s) 64) 5 (put_all (dq_push_value (\<lambda>_ _ _ s. s) 64)
     [item 0 1, item 1 1, item 2 1, item 3 1, item 4 1] (queue_at 65533))) =
   [Some (item 4 1), Some (item 1 1), Some (item 2 1), Some (item 3 1), Some (item 4 1)]"
  by (rule rt_data_queue_overruns) (simp_all add: queue_at_ok dq_quiet_def)

section \<open>The shell\<close>

text \<open>
  C20. The line editor of the shell refines a text with a cursor: for every sequence of keys that the reference editor
  accepts - it refuses to fill a line of 80 characters - no access leaves the buffers, the line buffer holds the text and
  zeros behind it, the two positions are its length and the cursor, and the lines that were entered have been handed to
  the command interpreter, in order.
\<close>

theorem shell_refines_editor:
  assumes "names_ok (env_fs env) (env_cmds env)" "ed_keys env chs ed_init = Some e" "s = shell_keys env chs shell_init"
  shows "\<not> sh_fault s \<and> sh_line s = ed_text e @ replicate (80 - length (ed_text e)) 0 \<and> length (ed_text e) < 80 \<and>
    unat (sh_line_position s) = length (ed_text e) \<and> unat (sh_line_curpos s) = ed_cursor e \<and> ed_cursor e \<le> length (ed_text e) \<and>
    unat (sh_history_count s) = length (ed_hist e) \<and> list_all2 (ran_line env) (sh_run s) (ed_lines e)"
proof -
  have ed: "edits env s e" unfolding assms(3) by (rule shell_keys_edits [OF assms(1) shell_init_edits assms(2)])
  then show ?thesis using editsD [OF ed] by (simp add: edits_def row_of_def shell_sizes)
qed

theorem shell_refines_editor_witness:
  "take 3 (sh_line (shell_keys bare_env [0x61, 0x62, 0x1b, 0x5b, 0x44, 0x63] shell_init)) = [0x61, 0x63, 0x62]"
proof -
  have ok: "names_ok (env_fs bare_env) (env_cmds bare_env)" by (simp add: names_ok_def bare_env_def env_cmds_def)
  have "ed_keys bare_env [0x61, 0x62, 0x1b, 0x5b, 0x44, 0x63] ed_init = Some (ed_init\<lparr>ed_text := [0x61, 0x63, 0x62], ed_cursor := 2\<rparr>)"
    by (simp add: ed_key_def ed_plain_def ed_char_def ed_left_def ed_init_def shell_sizes)
  from shell_refines_editor [OF ok this refl] show ?thesis by simp
qed

text \<open>
  C21. Words without blanks and quotes come back: when they are put together with blanks to a line, \<open>msh_split\<close> cuts the
  line in place into the first ten of them. On any other line it delivers the words and quoted strings of the reference
  definition, and it changes nothing behind the line.
\<close>

theorem msh_split_round_trip:
  assumes "is_str cmd xs" "msh_split cmd (length xs) = (cmd', argv)"
  shows "list_all2 (\<lambda>a t. is_str (\<lambda>i. cmd' (a + i)) t) argv (tokens 10 xs) \<and> (\<forall>i\<ge>length xs. cmd' i = cmd i) \<and>
    (\<forall>ws. xs = unwords ws \<and> (\<forall>w\<in>set ws. plain_word w) \<longrightarrow> tokens 10 xs = take 10 ws)"
  using msh_split_tokens [OF assms] tokens_unwords by (simp add: FINSH_ARG_MAX_def)

theorem msh_split_round_trip_witness:
  "\<exists>cmd' a b. msh_split (str_at [0x6c, 0x73, 0x20, 0x2f, 0x20]) 5 = (cmd', [a, b]) \<and>
    is_str (\<lambda>i. cmd' (a + i)) [0x6c, 0x73] \<and> is_str (\<lambda>i. cmd' (b + i)) [0x2f]"
proof -
  let ?xs = "[0x6c, 0x73, 0x20, 0x2f, 0x20] :: rt_uint8_t list"
  have s: "is_str (str_at ?xs) ?xs" by (rule is_str_at) simp
  obtain cmd' argv where m: "msh_split (str_at ?xs) (length ?xs) = (cmd', argv)" by fastforce
  have w: "?xs = unwords [[0x6c, 0x73], [0x2f]]" "\<forall>w\<in>set [[0x6c, 0x73], [0x2f]]. plain_word w"
    by (simp_all add: plain_word_def is_blank_def)
  have t: "list_all2 (\<lambda>a t. is_str (\<lambda>i. cmd' (a + i)) t) argv (tokens 10 ?xs)" "tokens 10 ?xs = take 10 [[0x6c, 0x73], [0x2f]]"
    using msh_split_round_trip [OF s m] w by blast+
  then have "list_all2 (\<lambda>a t. is_str (\<lambda>i. cmd' (a + i)) t) argv [[0x6c, 0x73], [0x2f]]" unfolding t(2) by simp
  then obtain a b where "argv = [a, b]" "is_str (\<lambda>i. cmd' (a + i)) [0x6c, 0x73]" "is_str (\<lambda>i. cmd' (b + i)) [0x2f]"
    by (auto simp: list_all2_Cons2)
  moreover have "length ?xs = 5" by simp
  ultimately show ?thesis using m by metis
qed

text \<open>
  C22. Tab completion computes longest common prefixes: the routines that work in the line buffer turn a terminated text
  into its reference completion - the last word completed to what all matching directory entries have in common, and
  then the line to what all matching commands have in common - provided that it fits in front of what follows the
  buffer, which they do not check.
\<close>

theorem msh_completion_equiv:
  assumes "0 \<notin> set pre" "names_ok fs cmds" "0 < k" "length (text_completion fs cmds pre) < length pre + k"
  shows "msh_auto_complete fs cmds (pre @ replicate k 0 @ ys) =
    text_completion fs cmds pre @ replicate (length pre + k - length (text_completion fs cmds pre)) 0 @ ys"
  by (rule msh_auto_complete_text [OF assms])

theorem msh_completion_equiv_witness:
  "msh_auto_complete \<lparr>fs_cwd = [0x2f], fs_dir = (\<lambda>_. None)\<rparr> [[0x70, 0x73], [0x70, 0x73, 0x78]] ([0x70] @ replicate 3 0 @ []) =
    [0x70, 0x73] @ replicate 2 0 @ []"
proof -
  let ?fs = "\<lparr>fs_cwd = [0x2f], fs_dir = (\<lambda>_. None)\<rparr>"
  have lcp: "Longest_common_prefix {[0x70, 0x73], [0x70, 0x73, 0x78 :: rt_uint8_t]} = [0x70, 0x73]"
    by (rule Longest_common_prefix_eq) (auto simp: prefix_length_le dest: prefix_length_le)
  have t: "text_completion ?fs [[0x70, 0x73], [0x70, 0x73, 0x78]] [0x70] = [0x70, 0x73]"
    by (simp add: text_completion_def lcp)
  have "0 \<notin> set [0x70 :: rt_uint8_t]" "names_ok ?fs [[0x70, 0x73], [0x70, 0x73, 0x78]]" by (simp_all add: names_ok_def)
  from msh_completion_equiv [OF this, of 3 "[]"] show ?thesis by (simp add: t)
qed

text \<open>
  C15. Work items are queued once and in order: submitting, cancelling, cancelling all and taking the next item keep the
  lists of all queues free of duplicates and disjoint, a new item goes to the end of the list and the first item is the
  next to run.
\<close>

theorem rt_workqueue_order:
  assumes "work_inv s"
  shows "work_inv (fst (workqueue_submit_work q w s)) \<and> work_inv (fst (workqueue_cancel_work q w s)) \<and>
    work_inv (fst (rt_workqueue_cancel_all_work q s)) \<and> work_inv (fst (workqueue_take q s)) \<and>
    (\<not> pending w s \<and> work_current q s \<noteq> Some w \<and> unlinked_work w s \<longrightarrow>
      snd (workqueue_submit_work q w s) = RT_EOK \<and> pending w (fst (workqueue_submit_work q w s)) \<and>
      work_list q (fst (workqueue_submit_work q w s)) = work_list q s @ [w]) \<and>
    (\<forall>v ws. work_list q s = v # ws \<longrightarrow> snd (workqueue_take q s) = Some v \<and>
      work_list q (fst (workqueue_take q s)) = ws \<and> work_current q (fst (workqueue_take q s)) = Some v)"
  using work_inv_submit [OF assms] work_inv_cancel [OF assms] work_inv_cancel_all [OF assms] work_inv_take [OF assms]
    submit_appends [of w s q] take_first [of q s] by auto

theorem rt_workqueue_order_witness:
  "work_list 64 (fst (workqueue_submit_work 64 32 reset_state)) = [32]"
proof -
  have l: "work_list p reset_state = []" "work_current p reset_state = None" for p
    by (simp_all add: get_wkq_def reset_state_def)
  then have "work_inv reset_state" "unlinked_work 32 reset_state" by (simp_all add: work_inv_def unlinked_work_def)
  moreover have "\<not> pending 32 reset_state" by (simp add: pending_def get_work_def reset_state_def)
  ultimately show ?thesis using rt_workqueue_order [of reset_state 64 32] l by simp
qed

text \<open>
  The loop by which a work queue wakes the threads that wait for the end of a work item ends: after as many rounds as
  there are waiters, and two more, the semaphore is free again and every waiter can run.
\<close>

theorem workqueue_completion_ends:
  assumes "sched_inv s" "sem_value (get_sem (wkq_sem q) s) = 0" "length (tq s (SemQ (wkq_sem q))) + 2 \<le> n"
  shows "\<exists>s'. completion_loop n q s = Some (s', RT_EOK) \<and> tq s' (SemQ (wkq_sem q)) = [] \<and>
    sem_value (get_sem (wkq_sem q) s') = 0 \<and> sched_inv s' \<and>
    (\<forall>t \<in> set (tq s (SemQ (wkq_sem q))). tstat (thr s' t) \<in> {RT_THREAD_READY, RT_THREAD_RUNNING})"
  using completion_loop_ends [OF assms] by (simp add: awake_def)

theorem workqueue_completion_ends_witness:
  "\<exists>s'. completion_loop 3 64 (demo_on (SemQ (wkq_sem 64))) = Some (s', RT_EOK) \<and>
    tstat (thr s' 3) \<in> {RT_THREAD_READY, RT_THREAD_RUNNING}"
proof -
  have "sched_inv (demo_on (SemQ (wkq_sem 64)))" by (rule demo_on_inv) simp
  from workqueue_completion_ends [OF this, of 64 3] show ?thesis by (auto simp: get_sem_def)
qed



text \<open>
  \<open>rt_rbb_next_blk_queue_len\<close> tells in advance how many bytes \<open>rt_rbb_blk_queue_get\<close> without a limit delivers.
\<close>

theorem rbb_next_len_equiv:
  assumes "distinct (rbb_blk_list r)" "2 ^ 32 \<le> Suc len"
  shows "rt_rbb_next_blk_queue_len r = snd (snd (rt_rbb_blk_queue_get len bq r))"
  using queue_get_next_len [OF assms, of None 0 bq]
  by (simp add: rt_rbb_next_blk_queue_len_def rt_rbb_blk_queue_get_def)

theorem rbb_next_len_equiv_witness:
  "rt_rbb_next_blk_queue_len (rt_rbb_blk_put 0 (fst (rt_rbb_blk_alloc 60 demo_rbb))) =
    snd (snd (rt_rbb_blk_queue_get 0xFFFFFFFF \<lparr>bq_blocks = 0, bq_blk_num = 0\<rparr>
      (rt_rbb_blk_put 0 (fst (rt_rbb_blk_alloc 60 demo_rbb)))))"
  by (rule rbb_next_len_equiv) (simp_all add: rbb_eval)

section \<open>The firmware update\<close>



text \<open>
  A client that goes away while the service waits for a header is never noticed: results that are not positive are
  ignored, so the loop goes on for as long as the socket reports them and the lock stays taken.
\<close>

theorem update_lost_client:
  assumes "list_all (\<lambda>e. e = Net_closed \<or> e = Net_timeout \<or> (\<exists>r<0. e = Net_error r)) (up_events st)"
  shows "update_connection (Suc n) buf0 mem st = Frame_blocked"
  using lost_client_unnoticed [OF assms, of "st\<lparr>up_locked := True, data_buf := mem\<rparr>" 0]
  by (simp add: update_connection_def update_frame_def HEADER_LEN_def)

theorem update_lost_client_witness:
  "update_connection 1 [0, 0, 0, 0] None (upd_start (replicate 1000 Net_closed)) = Frame_blocked"
  using update_lost_client [of "upd_start (replicate 1000 Net_closed)" 0 "[0, 0, 0, 0]" None]
  by (simp add: upd_start_def list_all_iff)

section \<open>The whole system\<close>



end
